(* ===== verification/CqlBase.thy ===== *)
theory CqlBase
  imports Main "HOL-Library.Word"
begin

text \<open>
  The prelude of the development: the machine integers of the C sources, C memory blocks with
  explicit uninitialised cells and a sticky fault, C strings, and the interface every growable
  output buffer of the program promises (\<open>sink\<close>).  The component theories import this one.
\<close>

unbundle bit_operations_syntax

named_theorems mem_simps \<open>rewriting of loads and stores on memory blocks\<close>

section \<open>Machine integers\<close>

type_synonym u8 = "8 word"
type_synonym u16 = "16 word"
type_synonym u32 = "32 word"
type_synonym u64 = "64 word"

text \<open>
  Words of the signed C types \<open>int32_t\<close> and \<open>int64_t\<close> have the same carriers; \<open>sint\<close> reads them.
\<close>

type_synonym i32 = "32 word"
type_synonym i64 = "64 word"

lemma unat_of_nat_u32: "n < 2 ^ 32 \<Longrightarrow> unat (of_nat n :: u32) = n"
  by (simp add: unat_of_nat take_bit_nat_eq_self)

lemma unat_plus_u32: "unat (a :: u32) + unat b < 2 ^ 32 \<Longrightarrow> unat (a + b) = unat a + unat b"
  by (simp add: unat_word_ariths)

lemma unat_minus_u32: "unat (b :: u32) \<le> unat a \<Longrightarrow> unat (a - b) = unat a - unat b"
  by (simp add: unat_sub word_le_nat_alt)

lemma less_u32: "(a :: u32) < b \<longleftrightarrow> unat a < unat b"
  by (simp add: word_less_nat_alt)

lemma unat_u32_bound: "unat (a :: u32) < 2 ^ 32"
  using unsigned_less [of a] by simp

lemma u32_of_unat: "unat (a :: u32) = n \<Longrightarrow> a = of_nat n"
  by auto

lemma option_eqI: "(\<And>w. a = Some w \<longleftrightarrow> b = Some w) \<Longrightarrow> a = b"
  by (cases a; cases b) auto

text \<open>\<open>Contract\<close> and \<open>Invariant\<close> of the sources: the run stops when the condition is false.\<close>

definition require :: "bool \<Rightarrow> unit option" where
  "require b = (if b then Some () else None)"

lemma bind_require: "Option.bind (require b) f = (if b then f () else None)"
  by (simp add: require_def)

section \<open>Memory blocks\<close>

text \<open>
  A block returned by \<open>malloc\<close> is a list of cells, \<open>None\<close> where nothing has been written yet.
  An access outside the block is undefined in C: it turns the block into \<open>Fault\<close>, and every
  later access keeps the fault, so a theorem that a block is a \<open>Mem\<close> at the end says that no
  access on the way was out of bounds.
\<close>

datatype 'a mem = Mem "'a option list" | Fault

definition mem_alloc :: "nat \<Rightarrow> 'a mem" where
  "mem_alloc n = Mem (replicate n None)"

fun mem_load :: "'a mem \<Rightarrow> nat \<Rightarrow> nat \<Rightarrow> 'a option list option" where
  "mem_load (Mem xs) off n = (if off + n \<le> length xs then Some (take n (drop off xs)) else None)"
| "mem_load Fault off n = None"

fun mem_store :: "'a mem \<Rightarrow> nat \<Rightarrow> 'a option list option \<Rightarrow> 'a mem" where
  "mem_store (Mem xs) off (Some ys) =
     (if off + length ys \<le> length xs
      then Mem (take off xs @ ys @ drop (off + length ys) xs) else Fault)"
| "mem_store (Mem xs) off None = Fault"
| "mem_store Fault off ys = Fault"

fun mem_size :: "'a mem \<Rightarrow> nat" where
  "mem_size (Mem xs) = length xs"
| "mem_size Fault = 0"

text \<open>
  \<open>mem_holds m xs\<close>: the block is intact and its first cells hold exactly the values \<open>xs\<close>.
\<close>

fun mem_holds :: "'a mem \<Rightarrow> 'a list \<Rightarrow> bool" where
  "mem_holds (Mem cs) xs \<longleftrightarrow> length xs \<le> length cs \<and> take (length xs) cs = map Some xs"
| "mem_holds Fault xs \<longleftrightarrow> False"

lemma mem_size_alloc [simp]: "mem_size (mem_alloc n) = n"
  by (simp add: mem_alloc_def)

lemma mem_holds_alloc [simp]: "mem_holds (mem_alloc n) []"
  by (simp add: mem_alloc_def)

lemma mem_holds_size: "mem_holds m xs \<Longrightarrow> length xs \<le> mem_size m"
  by (cases m) auto

lemma mem_holds_load [mem_simps]:
  "mem_holds m xs \<Longrightarrow> mem_load m 0 (length xs) = Some (map Some xs)"
  by (cases m) auto

lemma mem_holds_load_at [mem_simps]:
  "mem_holds m xs \<Longrightarrow> off + n \<le> length xs \<Longrightarrow>
     mem_load m off n = Some (map Some (take n (drop off xs)))"
proof (cases m)
  case (Mem cs)
  assume h: "mem_holds m xs" and le: "off + n \<le> length xs"
  from h Mem have cs: "take (length xs) cs = map Some xs" and len: "length xs \<le> length cs"
    by auto
  have "take n (drop off cs) = take n (drop off (take (length xs) cs))"
    using le by (simp add: take_drop min_def)
  then show ?thesis using cs le len Mem by (simp add: take_map drop_map)
qed simp

lemma mem_size_store [simp]:
  "mem_store m off (Some ys) \<noteq> Fault \<Longrightarrow> mem_size (mem_store m off (Some ys)) = mem_size m"
  by (cases m) auto

lemma mem_store_fits:
  "m \<noteq> Fault \<Longrightarrow> off + length ys \<le> mem_size m \<Longrightarrow> mem_store m off (Some ys) \<noteq> Fault"
  by (cases m) auto

text \<open>Writing inside or at the end of the held prefix overwrites it from the offset on.\<close>

lemma mem_holds_store:
  assumes "mem_holds m xs" and "off \<le> length xs" and "off + length ys \<le> mem_size m"
    and "zs = take off xs @ ys @ drop (off + length ys) xs"
  shows "mem_holds (mem_store m off (Some (map Some ys))) zs"
    and "mem_size (mem_store m off (Some (map Some ys))) = mem_size m"
proof -
  from assms(1) obtain cs where m: "m = Mem cs" by (cases m) auto
  with assms have len: "off + length ys \<le> length cs" and pre: "take (length xs) cs = map Some xs"
    and xsle: "length xs \<le> length cs"
    by auto
  have offcs: "take off cs = map Some (take off xs)"
    using pre assms(2) by (metis min.absorb1 take_map take_take)
  have tail: "take (length xs - (off + length ys)) (drop (off + length ys) cs)
      = map Some (drop (off + length ys) xs)"
    using pre by (metis drop_map take_drop drop_take)
  have lz: "length zs = max (length xs) (off + length ys)"
    using assms(2,4) by auto
  have "take (length zs) (take off cs @ map Some ys @ drop (off + length ys) cs) = map Some zs"
    using len xsle assms(2) offcs tail by (auto simp: assms(4) lz min_def max_def)
  moreover have "length zs \<le> length (take off cs @ map Some ys @ drop (off + length ys) cs)"
    using len xsle lz by auto
  ultimately show "mem_holds (mem_store m off (Some (map Some ys))) zs"
    using m len by simp
  show "mem_size (mem_store m off (Some (map Some ys))) = mem_size m"
    using m len by simp
qed

lemma mem_holds_store_end:
  assumes "mem_holds m xs" and "length xs + length ys \<le> mem_size m"
  shows "mem_holds (mem_store m (length xs) (Some (map Some ys))) (xs @ ys)"
  using mem_holds_store(1) [OF assms(1) _ assms(2)] by simp

lemma mem_holds_prefix:
  assumes "mem_holds m (xs @ ys)"
  shows "mem_holds m xs"
proof (cases m)
  case (Mem cs)
  with assms have "take (length xs) (take (length xs + length ys) cs) = map Some xs" by simp
  then show ?thesis using assms Mem by simp
qed (use assms in simp)

text \<open>The \<open>malloc\<close> and \<open>memcpy\<close> of a growing buffer keep its contents.\<close>

lemma mem_grow:
  assumes "mem_holds m xs" and "k = length xs" and "k \<le> n"
  shows "mem_holds (mem_store (mem_alloc n) 0 (mem_load m 0 k)) xs"
    and "mem_size (mem_store (mem_alloc n) 0 (mem_load m 0 k)) = n"
  using mem_holds_store [of "mem_alloc n" "[]" 0 xs xs] mem_holds_load [OF assms(1)] assms(2,3)
  by simp_all

section \<open>C strings\<close>

text \<open>
  A \<open>CSTR\<close> is the list of characters from the pointer on; the terminating NUL is the end of the
  list (or a NUL in it), which is what \<open>p[0]\<close> and \<open>p[1]\<close> read there.  \<open>cstr s\<close> says that the list
  itself holds no NUL, so that it is exactly the text the C code sees.
\<close>

type_synonym cstring = string

abbreviation NUL :: char where "NUL \<equiv> CHR 0x00"

definition chead :: "cstring \<Rightarrow> char" where
  "chead s = (case s of [] \<Rightarrow> NUL | c # _ \<Rightarrow> c)"

definition cstr :: "cstring \<Rightarrow> bool" where
  "cstr s \<longleftrightarrow> NUL \<notin> set s"

text \<open>\<open>strlen\<close>-style view: what the C code sees of a list that may hold a NUL.\<close>

definition cview :: "cstring \<Rightarrow> cstring" where
  "cview s = takeWhile (\<lambda>c. c \<noteq> NUL) s"

lemma chead_Nil [simp]: "chead [] = NUL"
  by (simp add: chead_def)

lemma chead_Cons [simp]: "chead (c # s) = c"
  by (simp add: chead_def)

lemma cstr_Nil [simp]: "cstr []"
  by (simp add: cstr_def)

lemma cstr_Cons [simp]: "cstr (c # s) \<longleftrightarrow> c \<noteq> NUL \<and> cstr s"
  by (auto simp: cstr_def)

lemma cstr_append [simp]: "cstr (s @ t) \<longleftrightarrow> cstr s \<and> cstr t"
  by (auto simp: cstr_def)

lemma cview_cstr [simp]: "cstr s \<Longrightarrow> cview s = s"
  by (auto simp: cview_def cstr_def takeWhile_eq_all_conv)

lemma cview_append_NUL: "cstr s \<Longrightarrow> cview (s @ NUL # t) = s"
  by (induction s) (auto simp: cview_def)

lemma chead_nonNUL: "chead s \<noteq> NUL \<Longrightarrow> \<exists>c t. s = c # t \<and> c \<noteq> NUL"
  by (cases s) auto

text \<open>
  The C type \<open>char\<close> is signed on the platforms the program supports: bytes from 0x80 on read as
  negative numbers.
\<close>

definition schar :: "char \<Rightarrow> int" where
  "schar c = (let n = of_char c in if n < 128 then n else n - 256)"

lemma of_char_bound: "of_char c < (256 :: int)"
  by (metis of_char_mod_256 pos_mod_bound zero_less_numeral)

lemma of_char_nonneg: "0 \<le> (of_char c :: int)"
  by (metis of_char_mod_256 pos_mod_sign zero_less_numeral)

lemma schar_inj: "schar a = schar b \<Longrightarrow> a = b"
proof -
  assume "schar a = schar b"
  then have "(of_char a :: int) = of_char b"
    using of_char_bound [of a] of_char_bound [of b] of_char_nonneg [of a] of_char_nonneg [of b]
    by (auto simp: schar_def Let_def split: if_splits)
  then show ?thesis by (simp only: of_char_eq_iff)
qed

section \<open>The interface of growable buffers\<close>

text \<open>
  The program writes into three growable buffers: \<open>bytebuf\<close> and \<open>charbuf\<close> in the compiler and
  \<open>cql_bytebuf\<close> in the runtime.  What their clients rely on is the same: appending a block appends
  it to the contents and moves nothing else, provided that the 32-bit size fields have room.
  \<open>ready n b\<close> is that proviso: \<open>b\<close> is well formed and can take \<open>n\<close> more items.
\<close>

locale sink =
  fixes put :: "'b \<Rightarrow> 'a list \<Rightarrow> 'b"
    and contents :: "'b \<Rightarrow> 'a list"
    and ready :: "nat \<Rightarrow> 'b \<Rightarrow> bool"
  assumes contents_put: "ready (length xs) b \<Longrightarrow> contents (put b xs) = contents b @ xs"
    and ready_put: "ready (length xs + n) b \<Longrightarrow> ready n (put b xs)"
    and ready_mono: "ready n b \<Longrightarrow> m \<le> n \<Longrightarrow> ready m b"
begin

text \<open>
  \<open>emits f xs\<close>: the code fragment \<open>f\<close> appends exactly \<open>xs\<close>.  Fragments compose, so a client that
  is built from single appends is characterised by the concatenation of what its parts emit.
\<close>

definition emits :: "('b \<Rightarrow> 'b) \<Rightarrow> 'a list \<Rightarrow> bool" where
  "emits f xs \<longleftrightarrow> (\<forall>b n. ready (length xs + n) b \<longrightarrow>
      ready n (f b) \<and> contents (f b) = contents b @ xs)"

lemma emitsI:
  "(\<And>b n. ready (length xs + n) b \<Longrightarrow> ready n (f b) \<and> contents (f b) = contents b @ xs) \<Longrightarrow>
     emits f xs"
  by (simp add: emits_def)

lemma emits_contents: "emits f xs \<Longrightarrow> ready (length xs) b \<Longrightarrow> contents (f b) = contents b @ xs"
  unfolding emits_def by (metis add.right_neutral)

lemma emits_ready: "emits f xs \<Longrightarrow> ready (length xs + n) b \<Longrightarrow> ready n (f b)"
  unfolding emits_def by blast

lemma emits_put: "emits (\<lambda>b. put b xs) xs"
proof (rule emitsI)
  fix b n
  assume r: "ready (length xs + n) b"
  then have "ready (length xs) b" by (rule ready_mono) simp
  with r show "ready n (put b xs) \<and> contents (put b xs) = contents b @ xs"
    by (simp add: ready_put contents_put)
qed

lemma emits_cong:
  "emits g xs \<Longrightarrow> (\<And>b. ready (length xs) b \<Longrightarrow> f b = g b) \<Longrightarrow> emits f xs"
  unfolding emits_def by (metis le_add1 ready_mono)

lemma emits_id: "emits (\<lambda>b. b) []"
  by (simp add: emits_def)

lemma emits_comp: "emits f xs \<Longrightarrow> emits g ys \<Longrightarrow> zs = xs @ ys \<Longrightarrow> emits (\<lambda>b. g (f b)) zs"
  unfolding emits_def by (simp add: add.assoc) (metis append.assoc)

lemma emits_if:
  "(c \<Longrightarrow> emits f xs) \<Longrightarrow> (\<not> c \<Longrightarrow> emits g ys) \<Longrightarrow>
     emits (\<lambda>b. if c then f b else g b) (if c then xs else ys)"
  by simp

lemma emits_foldl:
  "emits (\<lambda>b. foldl put b xss) (concat xss)"
proof (induction xss)
  case Nil
  show ?case by (simp add: emits_id)
next
  case (Cons x xss)
  have "emits (\<lambda>b. foldl put (put b x) xss) (x @ concat xss)"
    by (rule emits_comp [OF emits_put Cons.IH]) simp
  then show ?case by simp
qed

end

end
