(* ===== verification/Charbuf.thy ===== *)
theory Charbuf
  imports CqlBase
begin

text \<open>
  The compiler's character buffer (\<open>sources/charbuf.c\<close>): text in a built-in array of 1024 bytes
  until it outgrows it, then in heap blocks, always NUL-terminated.  The buffer is an
  interpretation of the locale \<open>sink\<close>, which is what the encoders rely on.
\<close>

section \<open>State and operations\<close>

definition CHARBUF_INTERNAL_SIZE :: u32 where
  "CHARBUF_INTERNAL_SIZE = 1024"

definition CHARBUF_GROWTH_SIZE :: u32 where
  "CHARBUF_GROWTH_SIZE = 1024"

text \<open>
  The pointer of a buffer is null (closed), points to the built-in storage, or owns a heap block.
\<close>

datatype bufptr = NullPtr | InternalPtr | HeapPtr "char mem"

record charbuf =
  cptr :: bufptr
  cused :: u32
  cmax :: u32
  internal :: "char mem"

text \<open>The block the pointer leads to, and the buffer after a write through the pointer.\<close>

definition cblock :: "charbuf \<Rightarrow> char mem" where
  "cblock b = (case cptr b of NullPtr \<Rightarrow> Fault | InternalPtr \<Rightarrow> internal b | HeapPtr m \<Rightarrow> m)"

definition set_cblock :: "charbuf \<Rightarrow> char mem \<Rightarrow> charbuf" where
  "set_cblock b m =
     (case cptr b of InternalPtr \<Rightarrow> b\<lparr>internal := m\<rparr> | _ \<Rightarrow> b\<lparr>cptr := HeapPtr m\<rparr>)"

definition cwrite :: "charbuf \<Rightarrow> nat \<Rightarrow> char list \<Rightarrow> charbuf" where
  "cwrite b off s = set_cblock b (mem_store (cblock b) off (Some (map Some s)))"

text \<open>An uninitialised \<open>charbuf\<close> variable: storage that nothing has written yet.\<close>

definition raw_charbuf :: charbuf where
  "raw_charbuf = \<lparr>cptr = NullPtr, cused = 0, cmax = 0,
     internal = mem_alloc (unat CHARBUF_INTERNAL_SIZE)\<rparr>"

definition bclear :: "charbuf \<Rightarrow> charbuf" where
  "bclear b = cwrite (b\<lparr>cused := 1\<rparr>) 0 [NUL]"

text \<open>\<open>bopen\<close> and \<open>bclose\<close> also count the open buffers in the global \<open>charbuf_open_count\<close>.\<close>

definition bopen :: "i32 \<Rightarrow> charbuf \<Rightarrow> i32 \<times> charbuf" where
  "bopen charbuf_open_count b =
     (let b = b\<lparr>cmax := CHARBUF_INTERNAL_SIZE, cptr := InternalPtr\<rparr>
      in (charbuf_open_count + 1, bclear b))"

definition bclose :: "i32 \<Rightarrow> charbuf \<Rightarrow> i32 \<times> charbuf" where
  "bclose charbuf_open_count b =
     (charbuf_open_count - 1, b\<lparr>cptr := NullPtr, cmax := 0, cused := 0\<rparr>)"

text \<open>
  \<open>release_open_charbufs\<close> closes every buffer of the list of pending ones, innermost first.
\<close>

fun release_open_charbufs :: "i32 \<Rightarrow> charbuf list \<Rightarrow> i32 \<times> charbuf list" where
  "release_open_charbufs n [] = (n, [])"
| "release_open_charbufs n (b # prev) =
     (case bclose n b of (n, b) \<Rightarrow>
        case release_open_charbufs n prev of (n, bs) \<Rightarrow> (n, b # bs))"

text \<open>The block move both writers make when the text does not fit.\<close>

definition cgrow :: "charbuf \<Rightarrow> u32 \<Rightarrow> charbuf" where
  "cgrow b extra =
     (let newmax = cmax b + extra;
          newptr = mem_store (mem_alloc (unat newmax)) 0 (mem_load (cblock b) 0 (unat (cused b)))
      in b\<lparr>cmax := newmax, cptr := HeapPtr newptr\<rparr>)"

text \<open>
  \<open>vsnprintf\<close> of a text into \<open>room\<close> bytes writes as much of it as fits and a terminating NUL.
\<close>

definition vsnprintf :: "charbuf \<Rightarrow> nat \<Rightarrow> nat \<Rightarrow> cstring \<Rightarrow> charbuf" where
  "vsnprintf b off room txt = (if room = 0 then b else cwrite b off (take (room - 1) txt @ [NUL]))"

text \<open>\<open>vbprintf b txt\<close>: the formatted output of the format string and its arguments is \<open>txt\<close>.\<close>

definition vbprintf :: "charbuf \<Rightarrow> cstring \<Rightarrow> charbuf" where
  "vbprintf b txt =
     (let avail = cmax b - cused b;
          needed = of_nat (length txt);
          (b, avail) = (if needed > avail then
                          let b = cgrow b (needed + CHARBUF_GROWTH_SIZE)
                          in (b, cmax b - cused b)
                        else (b, avail));
          b = vsnprintf b (unat (cused b - 1)) (unat (avail + 1)) txt
      in b\<lparr>cused := cused b + needed\<rparr>)"

definition bprintf :: "charbuf \<Rightarrow> cstring \<Rightarrow> charbuf" where
  "bprintf b txt = vbprintf b txt"

definition bputc :: "charbuf \<Rightarrow> char \<Rightarrow> charbuf" where
  "bputc b c =
     (let avail = cmax b - cused b;
          b = (if avail < 1 then cgrow b CHARBUF_GROWTH_SIZE else b);
          b = cwrite b (unat (cused b - 1)) [c];
          b = cwrite b (unat (cused b)) [NUL]
      in b\<lparr>cused := cused b + 1\<rparr>)"

text \<open>The C string a buffer holds: its initialised cells up to the first NUL.\<close>

fun cells_cstr :: "char option list \<Rightarrow> cstring option" where
  "cells_cstr [] = None"
| "cells_cstr (None # cs) = None"
| "cells_cstr (Some c # cs) = (if c = NUL then Some [] else map_option ((#) c) (cells_cstr cs))"

definition buf_cstr :: "charbuf \<Rightarrow> cstring option" where
  "buf_cstr b = (case cblock b of Mem cs \<Rightarrow> cells_cstr cs | Fault \<Rightarrow> None)"

definition cfault :: "charbuf \<Rightarrow> charbuf" where
  "cfault b = b\<lparr>cptr := HeapPtr Fault\<rparr>"

section \<open>Indentation and line reading\<close>

abbreviation NEWLINE :: char where "NEWLINE \<equiv> CHR 0x0A"

fun bput_spaces :: "nat \<Rightarrow> charbuf \<Rightarrow> charbuf" where
  "bput_spaces 0 b = b"
| "bput_spaces (Suc n) b = bput_spaces n (bputc b CHR '' '')"

text \<open>The inner loop of \<open>bindent\<close> copies through the next newline and leaves the rest.\<close>

function bindent_line :: "charbuf \<Rightarrow> cstring \<Rightarrow> charbuf \<times> cstring" where
  "bindent_line output p =
     (if chead p = NUL then (output, p)
      else let ch = chead p; p = tl p; output = bputc output ch in
        if ch = NEWLINE then (output, p) else bindent_line output p)"
  by pat_completeness auto
termination
  by (relation "measure (\<lambda>(b, p). length p)") (auto dest: chead_nonNUL)

declare bindent_line.simps [simp del]

lemma bindent_line_shrinks_le: "length (snd (bindent_line b p)) \<le> length p"
proof (induction b p rule: bindent_line.induct)
  case (1 b p)
  show ?case
    by (subst bindent_line.simps) (use 1 in \<open>cases p; auto simp: Let_def intro: le_SucI\<close>)
qed

lemma bindent_line_shrinks:
  "chead p \<noteq> NUL \<Longrightarrow> length (snd (bindent_line b p)) < length p"
  using bindent_line_shrinks_le [of "bputc b (chead p)" "tl p"]
  by (subst bindent_line.simps) (cases p; auto simp: Let_def)

function bindent_loop :: "cstring \<Rightarrow> charbuf \<Rightarrow> cstring \<Rightarrow> charbuf" where
  "bindent_loop spaces output p =
     (if chead p = NUL then output
      else let output = (if chead p \<noteq> NEWLINE then bprintf output spaces else output);
               (output, p) = bindent_line output p
           in bindent_loop spaces output p)"
  by pat_completeness auto
termination
proof (relation "measure (\<lambda>(s, b, p). length p)", simp, clarify)
  fix spaces :: cstring and out x xa :: charbuf and p y :: cstring
  assume p: "chead p \<noteq> NUL" and e: "(xa, y) = bindent_line x p"
  have "length (snd (bindent_line x p)) < length p" using p by (rule bindent_line_shrinks)
  then show "((spaces, xa, y), spaces, out, p) \<in> measure (\<lambda>(s, b, p). length p)"
    by (simp flip: e)
qed

declare bindent_loop.simps [simp del]

text \<open>
  The scratch buffer \<open>spaces\<close> is opened and closed inside, so the count of open buffers is
  the same afterwards; a negative indent writes no spaces.
\<close>

definition bindent :: "charbuf \<Rightarrow> charbuf \<Rightarrow> i32 \<Rightarrow> charbuf" where
  "bindent output input indent =
     (case buf_cstr input of
        None \<Rightarrow> cfault output
      | Some txt \<Rightarrow>
          if indent = 0 then bprintf output txt
          else (case buf_cstr (bput_spaces (nat (sint indent)) (snd (bopen 0 raw_charbuf))) of
                  None \<Rightarrow> cfault output
                | Some spaces \<Rightarrow> bindent_loop spaces output txt))"

function breadline_loop :: "charbuf \<Rightarrow> cstring \<Rightarrow> charbuf \<times> cstring" where
  "breadline_loop output p =
     (if chead p \<noteq> NEWLINE \<and> chead p \<noteq> NUL then breadline_loop (bputc output (chead p)) (tl p)
      else (output, p))"
  by pat_completeness auto
termination
  by (relation "measure (\<lambda>(b, p). length p)") (auto dest: chead_nonNUL)

declare breadline_loop.simps [simp del]

definition breadline :: "charbuf \<Rightarrow> cstring \<Rightarrow> bool \<times> charbuf \<times> cstring" where
  "breadline output data =
     (let output = bclear output in
      if chead data = NUL then (False, output, data)
      else case breadline_loop output data of (output, p) \<Rightarrow>
        (True, output, if chead p = NEWLINE then tl p else p))"

section \<open>The invariant\<close>

definition buf_text :: "charbuf \<Rightarrow> cstring" where
  "buf_text b = (case cblock b of Mem cs \<Rightarrow> map the (take (unat (cused b) - 1) cs) | Fault \<Rightarrow> [])"

definition charbuf_inv :: "charbuf \<Rightarrow> bool" where
  "charbuf_inv b \<longleftrightarrow>
     1 \<le> unat (cused b) \<and>
     mem_size (cblock b) = unat (cmax b) \<and> mem_holds (cblock b) (buf_text b @ [NUL]) \<and>
     length (buf_text b) + 1 = unat (cused b)"

definition charbuf_ready :: "nat \<Rightarrow> charbuf \<Rightarrow> bool" where
  "charbuf_ready n b \<longleftrightarrow> charbuf_inv b \<and> 2 * (unat (cused b) + n) + 1024 < 2 ^ 32"

lemma set_cblock_simps [simp]:
  "cblock (set_cblock b m) = m" "cused (set_cblock b m) = cused b" "cmax (set_cblock b m) = cmax b"
  by (auto simp: set_cblock_def cblock_def split: bufptr.splits)

lemma cwrite_simps [simp]:
  "cblock (cwrite b off s) = mem_store (cblock b) off (Some (map Some s))"
  "cused (cwrite b off s) = cused b" "cmax (cwrite b off s) = cmax b"
  by (simp_all add: cwrite_def)

lemma cblock_update [simp]:
  "cblock (b\<lparr>cused := u\<rparr>) = cblock b" "cblock (b\<lparr>cmax := v\<rparr>) = cblock b"
  "cblock (b\<lparr>cptr := HeapPtr m\<rparr>) = m" "cblock (b\<lparr>cptr := InternalPtr\<rparr>) = internal b"
  by (simp_all add: cblock_def split: bufptr.splits)

lemma cblock_make [simp]:
  "cblock \<lparr>cptr = InternalPtr, cused = u, cmax = v, internal = m\<rparr> = m"
  by (simp add: cblock_def)

lemma charbuf_invI:
  assumes "mem_holds (cblock b) (s @ [NUL])" and "length s + 1 = unat (cused b)"
    and "mem_size (cblock b) = unat (cmax b)"
  shows "charbuf_inv b" and "buf_text b = s"
proof -
  obtain cs where m: "cblock b = Mem cs" using assms(1) by (cases "cblock b") auto
  have "mem_holds (Mem cs) s" using mem_holds_prefix [OF assms(1)] m by simp
  then have "take (length s) cs = map Some s" by simp
  moreover have "unat (cused b) - 1 = length s" using assms(2) by simp
  ultimately show t: "buf_text b = s" using m by (simp add: buf_text_def comp_def)
  show "charbuf_inv b" using assms t by (simp add: charbuf_inv_def)
qed

lemma charbuf_invD:
  assumes "charbuf_inv b"
  shows "mem_holds (cblock b) (buf_text b @ [NUL])" and "length (buf_text b) + 1 = unat (cused b)"
    and "mem_size (cblock b) = unat (cmax b)"
    and "unat (cused b) \<le> unat (cmax b)" and "unat (cused b - 1) = length (buf_text b)"
proof -
  show a: "mem_holds (cblock b) (buf_text b @ [NUL])" "length (buf_text b) + 1 = unat (cused b)"
    "mem_size (cblock b) = unat (cmax b)"
    using assms by (simp_all add: charbuf_inv_def)
  show "unat (cused b) \<le> unat (cmax b)" using mem_holds_size [OF a(1)] a(2,3) by simp
  show "unat (cused b - 1) = length (buf_text b)"
    using a(2) by (subst unat_minus_u32) (auto simp flip: a(2))
qed

lemma bopen_inv: "charbuf_inv (snd (bopen n raw_charbuf))" "buf_text (snd (bopen n raw_charbuf)) = []"
proof -
  have h: "mem_holds (mem_store (mem_alloc 1024) 0 (Some [Some NUL])) [NUL]"
    "mem_size (mem_store (mem_alloc 1024) 0 (Some [Some NUL]) :: char mem) = 1024"
    using mem_holds_store [of "mem_alloc 1024 :: char mem" "[]" 0 "[NUL]" "[NUL]"] by simp_all
  show "charbuf_inv (snd (bopen n raw_charbuf))" "buf_text (snd (bopen n raw_charbuf)) = []"
    using charbuf_invI [of "snd (bopen n raw_charbuf)" "[]"] h
    by (simp_all add: bopen_def bclear_def raw_charbuf_def CHARBUF_INTERNAL_SIZE_def)
qed

lemma bclose_count: "fst (bclose (fst (bopen n b)) b') = n"
  by (simp add: bopen_def bclose_def)

text \<open>Growing keeps text and terminator and makes room for \<open>extra\<close> more bytes.\<close>

lemma cgrow_spec:
  assumes "charbuf_inv b" and "unat (cmax b) + unat extra < 2 ^ 32"
  shows "mem_holds (cblock (cgrow b extra)) (buf_text b @ [NUL])"
    and "mem_size (cblock (cgrow b extra)) = unat (cmax b) + unat extra"
    and "unat (cmax (cgrow b extra)) = unat (cmax b) + unat extra"
    and "cused (cgrow b extra) = cused b"
proof -
  note d = charbuf_invD [OF assms(1)]
  have u: "unat (cmax b + extra) = unat (cmax b) + unat extra"
    using assms(2) by (rule unat_plus_u32)
  have l: "unat (cused b) = length (buf_text b @ [NUL])" using d(2) by simp
  show "mem_holds (cblock (cgrow b extra)) (buf_text b @ [NUL])"
    and "mem_size (cblock (cgrow b extra)) = unat (cmax b) + unat extra"
    using mem_grow [OF d(1) l, of "unat (cmax b + extra)"] d(4) u
    by (simp_all add: cgrow_def Let_def)
  show "unat (cmax (cgrow b extra)) = unat (cmax b) + unat extra"
    and "cused (cgrow b extra) = cused b"
    using u by (simp_all add: cgrow_def Let_def)
qed

text \<open>Writing text and terminator over the old terminator.\<close>

lemma overwrite_terminator:
  assumes "mem_holds m (t @ [NUL])" and "length t + length s + 1 \<le> mem_size m"
  shows "mem_holds (mem_store m (length t) (Some (map Some (s @ [NUL])))) (t @ s @ [NUL])"
    and "mem_size (mem_store m (length t) (Some (map Some (s @ [NUL])))) = mem_size m"
  using mem_holds_store [OF assms(1), of "length t" "s @ [NUL]" "t @ s @ [NUL]"] assms(2) by simp_all

lemma bprintf_spec:
  assumes "charbuf_ready (length s) b"
  shows "charbuf_inv (bprintf b s)" and "buf_text (bprintf b s) = buf_text b @ s"
    and "unat (cused (bprintf b s)) = unat (cused b) + length s"
proof -
  have inv: "charbuf_inv b" and room: "2 * (unat (cused b) + length s) + 1024 < 2 ^ 32"
    using assms by (simp_all add: charbuf_ready_def)
  note d = charbuf_invD [OF inv]
  let ?n = "of_nat (length s) :: u32"
  have n: "unat ?n = length s" using room by (intro unat_of_nat_u32) simp
  have used': "unat (cused b + ?n) = unat (cused b) + length s"
    using room n by (subst unat_plus_u32) auto
  let ?full = "?n > cmax b - cused b"
  define b1 where "b1 = (if ?full then cgrow b (?n + CHARBUF_GROWTH_SIZE) else b)"
  have ext: "unat (?n + CHARBUF_GROWTH_SIZE) = length s + 1024"
    using room n by (subst unat_plus_u32) (auto simp: CHARBUF_GROWTH_SIZE_def)
  have full: "?full \<longleftrightarrow> unat (cmax b) < unat (cused b) + length s"
    using d(4) n by (auto simp: less_u32 unat_minus_u32)
  have b1: "mem_holds (cblock b1) (buf_text b @ [NUL])" "mem_size (cblock b1) = unat (cmax b1)"
    "cused b1 = cused b" "unat (cused b) + length s \<le> unat (cmax b1)"
    using cgrow_spec [OF inv, of "?n + CHARBUF_GROWTH_SIZE"] d ext full room
    by (auto simp: b1_def)
  have av: "unat (cmax b1 - cused b1 + 1) = unat (cmax b1) - unat (cused b) + 1"
    using b1(3,4) unat_u32_bound [of "cmax b1"] d(2) by (subst unat_plus_u32) (auto simp: unat_minus_u32)
  have p: "bprintf b s = (cwrite b1 (length (buf_text b)) (s @ [NUL]))\<lparr>cused := cused b + ?n\<rparr>"
    using b1(3,4) d(5) av
    by (auto simp: bprintf_def vbprintf_def Let_def vsnprintf_def b1_def split: if_splits)
  note o = overwrite_terminator [OF b1(1), of s]
  show "charbuf_inv (bprintf b s)" and "buf_text (bprintf b s) = buf_text b @ s"
    using charbuf_invI [of "bprintf b s" "buf_text b @ s"] o b1 d(2) used' by (simp_all add: p)
  show "unat (cused (bprintf b s)) = unat (cused b) + length s" by (simp add: p used')
qed

lemma bputc_spec:
  assumes "charbuf_ready 1 b"
  shows "charbuf_inv (bputc b c)" and "buf_text (bputc b c) = buf_text b @ [c]"
    and "unat (cused (bputc b c)) = unat (cused b) + 1"
proof -
  have inv: "charbuf_inv b" and room: "2 * (unat (cused b) + 1) + 1024 < 2 ^ 32"
    using assms by (simp_all add: charbuf_ready_def)
  note d = charbuf_invD [OF inv]
  have used': "unat (cused b + 1) = unat (cused b) + 1"
    using room by (subst unat_plus_u32) auto
  define b1 where "b1 = (if cmax b - cused b < 1 then cgrow b CHARBUF_GROWTH_SIZE else b)"
  have full: "cmax b - cused b < 1 \<longleftrightarrow> unat (cmax b) = unat (cused b)"
    using d(4) by (auto simp: less_u32 unat_minus_u32)
  have b1: "mem_holds (cblock b1) (buf_text b @ [NUL])" "mem_size (cblock b1) = unat (cmax b1)"
    "cused b1 = cused b" "unat (cused b) + 1 \<le> unat (cmax b1)"
    using cgrow_spec [OF inv, of CHARBUF_GROWTH_SIZE] d full room
    by (auto simp: b1_def CHARBUF_GROWTH_SIZE_def)
  let ?t = "buf_text b"
  have p: "bputc b c = (cwrite (cwrite b1 (length ?t) [c]) (length ?t + 1) [NUL])\<lparr>cused := cused b + 1\<rparr>"
    using b1(3) d(2,5) by (simp add: bputc_def Let_def b1_def)
  have h1: "mem_holds (mem_store (cblock b1) (length ?t) (Some (map Some [c]))) (?t @ [c])"
    "mem_size (mem_store (cblock b1) (length ?t) (Some (map Some [c]))) = mem_size (cblock b1)"
    using mem_holds_store [OF b1(1), of "length ?t" "[c]" "?t @ [c]"] b1 d(2) by simp_all
  have h2: "mem_holds (cblock (bputc b c)) ((?t @ [c]) @ [NUL])"
    "mem_size (cblock (bputc b c)) = unat (cmax b1)"
    using mem_holds_store [OF h1(1), of "length ?t + 1" "[NUL]" "(?t @ [c]) @ [NUL]"] h1(2) b1 d(2)
    by (simp_all add: p)
  show "charbuf_inv (bputc b c)" and "buf_text (bputc b c) = ?t @ [c]"
    using charbuf_invI [OF h2(1)] h2(2) b1 d(2) used' by (simp_all add: p)
  show "unat (cused (bputc b c)) = unat (cused b) + 1" by (simp add: p used')
qed

interpretation cb: sink bprintf buf_text charbuf_ready
proof unfold_locales
  fix xs :: cstring and b
  assume "charbuf_ready (length xs) b"
  then show "buf_text (bprintf b xs) = buf_text b @ xs" by (rule bprintf_spec)
next
  fix xs :: cstring and n b
  assume r: "charbuf_ready (length xs + n) b"
  then have "charbuf_ready (length xs) b" by (simp add: charbuf_ready_def)
  from bprintf_spec [OF this] r show "charbuf_ready n (bprintf b xs)"
    by (simp add: charbuf_ready_def)
next
  fix n b m
  assume "charbuf_ready n b" "m \<le> n"
  then show "charbuf_ready m b" by (simp add: charbuf_ready_def)
qed

lemma bputc_emits: "cb.emits (\<lambda>b. bputc b c) [c]"
proof (rule cb.emitsI)
  fix b n
  assume r: "charbuf_ready (length [c] + n) b"
  then have "charbuf_ready 1 b" by (simp add: charbuf_ready_def)
  from bputc_spec [OF this] r show "charbuf_ready n (bputc b c) \<and> buf_text (bputc b c) = buf_text b @ [c]"
    by (simp add: charbuf_ready_def)
qed

section \<open>What indentation and line reading compute\<close>

lemma bput_spaces_emits: "cb.emits (bput_spaces n) (replicate n CHR '' '')"
proof (induction n)
  case 0
  show ?case by (simp add: cb.emits_id)
next
  case (Suc n)
  show ?case by (simp, rule cb.emits_comp [OF bputc_emits Suc.IH]) simp
qed

lemma cells_cstr_holds: "cstr s \<Longrightarrow> cells_cstr (map Some (s @ [NUL]) @ cs) = Some s"
  by (induction s) auto

lemma buf_cstr_text:
  assumes "charbuf_inv b" and "cstr (buf_text b)"
  shows "buf_cstr b = Some (buf_text b)"
proof -
  note h = charbuf_invD(1) [OF assms(1)]
  let ?s = "buf_text b @ [NUL]"
  obtain cs where m: "cblock b = Mem cs" using h by (cases "cblock b") auto
  have "take (length ?s) cs = map Some ?s" using h m by simp
  then have "cs = map Some ?s @ drop (length ?s) cs" by (metis append_take_drop_id)
  then show ?thesis
    using cells_cstr_holds [OF assms(2)] m by (metis buf_cstr_def mem.case(1))
qed

text \<open>
  The reference for indentation: a machine that walks the text once and knows only whether it is
  at the start of a line.  Blank lines get no indentation.
\<close>

fun indented :: "cstring \<Rightarrow> bool \<Rightarrow> cstring \<Rightarrow> cstring" where
  "indented sp start [] = []"
| "indented sp start (c # s) =
     (if start \<and> c \<noteq> NEWLINE then sp else []) @ c # indented sp (c = NEWLINE) s"

lemma indented_no_space [simp]: "indented [] start s = s"
  by (induction s arbitrary: start) auto

text \<open>One line of input: through the next newline, or all that is left.\<close>

fun cut_line :: "cstring \<Rightarrow> cstring \<times> cstring" where
  "cut_line [] = ([], [])"
| "cut_line (c # s) = (if c = NEWLINE then ([c], s) else case cut_line s of (l, r) \<Rightarrow> (c # l, r))"

lemma bindent_line_emits:
  "cstr p \<Longrightarrow> cb.emits (\<lambda>b. fst (bindent_line b p)) (fst (cut_line p)) \<and>
     (\<forall>b. snd (bindent_line b p) = snd (cut_line p))"
proof (induction p)
  case Nil
  show ?case by (simp add: bindent_line.simps cb.emits_id)
next
  case (Cons c p)
  have step: "bindent_line b (c # p) =
      (if c = NEWLINE then (bputc b c, p) else bindent_line (bputc b c) p)" for b
    using Cons.prems by (subst bindent_line.simps) (simp add: Let_def)
  show ?case
  proof (cases "c = NEWLINE")
    case True
    then show ?thesis unfolding step using bputc_emits [of c] by simp
  next
    case False
    have "cb.emits (\<lambda>b. fst (bindent_line (bputc b c) p)) (c # fst (cut_line p))"
      by (rule cb.emits_comp [OF bputc_emits]) (use Cons in auto)
    then show ?thesis using False Cons by (simp add: step case_prod_beta)
  qed
qed

lemma cut_line_shrinks: "p \<noteq> [] \<Longrightarrow> length (snd (cut_line p)) < length p"
  by (induction p) (auto split: prod.splits simp: less_Suc_eq, (metis snd_conv list.size(3) cut_line.simps(1) less_SucI)+)

lemma indented_cut_line:
  "indented sp b p = (if b \<and> p \<noteq> [] \<and> hd p \<noteq> NEWLINE then sp else []) @ fst (cut_line p) @
     indented sp True (snd (cut_line p))"
  by (induction p arbitrary: b) (auto split: prod.splits)

lemma bindent_loop_emits:
  "cstr p \<Longrightarrow> cb.emits (\<lambda>b. bindent_loop sp b p) (indented sp True p)"
proof (induction p rule: length_induct)
  case (1 p)
  show ?case
  proof (cases p)
    case Nil
    then show ?thesis by (simp add: bindent_loop.simps cb.emits_id)
  next
    case (Cons c s)
    let ?lead = "\<lambda>b. if c \<noteq> NEWLINE then bprintf b sp else b"
    let ?line = "\<lambda>b. fst (bindent_line (?lead b) p)"
    let ?rest = "snd (cut_line p)"
    have c: "c \<noteq> NUL" and pc: "cstr p" using Cons "1.prems" by auto
    have lead: "cb.emits ?lead (if c \<noteq> NEWLINE then sp else [])"
      by (rule cb.emits_if) (simp_all add: cb.emits_put cb.emits_id)
    note line = bindent_line_emits [OF pc]
    have "set ?rest \<subseteq> set p"
      by (induction p) (auto split: prod.splits)
    then have "cstr ?rest" using pc by (auto simp: cstr_def)
    moreover have "length ?rest < length p" using cut_line_shrinks [of p] Cons by simp
    ultimately have rest: "cb.emits (\<lambda>b. bindent_loop sp b ?rest) (indented sp True ?rest)"
      using "1.IH" by blast
    have unf: "bindent_loop sp b p = bindent_loop sp (?line b) ?rest" for b
      using line c Cons
      by (subst bindent_loop.simps) (simp add: Let_def case_prod_beta)
    have "cb.emits ?line ((if c \<noteq> NEWLINE then sp else []) @ fst (cut_line p))"
      by (rule cb.emits_comp [OF lead]) (use line in auto)
    from cb.emits_comp [OF this rest refl]
    have "cb.emits (\<lambda>b. bindent_loop sp b p)
        (((if c \<noteq> NEWLINE then sp else []) @ fst (cut_line p)) @ indented sp True ?rest)"
      by (simp add: unf)
    moreover have "indented sp True p =
        ((if c \<noteq> NEWLINE then sp else []) @ fst (cut_line p)) @ indented sp True ?rest"
      using indented_cut_line [of sp True p] Cons by simp
    ultimately show ?thesis by simp
  qed
qed

lemma spaces_cstr:
  assumes "2 * (1 + n) + 1024 < 2 ^ 32"
  shows "buf_cstr (bput_spaces n (snd (bopen k raw_charbuf))) = Some (replicate n CHR '' '')"
proof -
  let ?b = "snd (bopen k raw_charbuf)"
  have "unat (cused ?b) = 1" by (simp add: bopen_def bclear_def)
  then have r: "charbuf_ready n ?b"
    using assms bopen_inv [of k] by (simp add: charbuf_ready_def)
  then have r': "charbuf_ready (length (replicate n CHR '' '')) ?b" by simp
  note t = cb.emits_contents [OF bput_spaces_emits r']
  have "charbuf_inv (bput_spaces n ?b)"
    using cb.emits_ready [OF bput_spaces_emits, of n 0 ?b] r by (simp add: charbuf_ready_def)
  then show ?thesis using buf_cstr_text t bopen_inv [of k] by (simp add: cstr_def)
qed

lemma bindent_emits:
  assumes "charbuf_inv input" and "cstr (buf_text input)"
    and "2 * (1 + nat (sint indent)) + 1024 < 2 ^ 32"
  shows "cb.emits (\<lambda>b. bindent b input indent)
     (indented (replicate (nat (sint indent)) CHR '' '') True (buf_text input))"
proof -
  note t = buf_cstr_text [OF assms(1,2)]
  show ?thesis
  proof (cases "indent = 0")
    case True
    then show ?thesis using t cb.emits_put by (simp add: bindent_def)
  next
    case False
    then show ?thesis
      using t spaces_cstr [OF assms(3)] bindent_loop_emits [OF assms(2)]
      by (simp add: bindent_def)
  qed
qed

lemma bclear_spec:
  assumes "charbuf_inv b"
  shows "charbuf_inv (bclear b)" and "buf_text (bclear b) = []"
proof -
  note d = charbuf_invD [OF assms]
  have "1 \<le> mem_size (cblock b)" using mem_holds_size [OF d(1)] by simp
  then have h: "mem_holds (mem_store (cblock b) 0 (Some [Some NUL])) (NUL # drop 1 (buf_text b @ [NUL]))"
    "mem_size (mem_store (cblock b) 0 (Some [Some NUL])) = mem_size (cblock b)"
    using mem_holds_store [OF d(1), of 0 "[NUL]"] by simp_all
  then have "mem_holds (cblock (bclear b)) ([] @ [NUL])"
    using mem_holds_prefix [of _ "[NUL]" "drop 1 (buf_text b @ [NUL])"] by (simp add: bclear_def)
  from charbuf_invI [OF this] h(2) d(3)
  show "charbuf_inv (bclear b)" and "buf_text (bclear b) = []"
    by (simp_all add: bclear_def)
qed

lemma bclear_ready: "charbuf_inv b \<Longrightarrow> 2 * (1 + n) + 1024 < 2 ^ 32 \<Longrightarrow> charbuf_ready n (bclear b)"
  using bclear_spec [of b] by (simp add: charbuf_ready_def) (simp add: bclear_def)

lemma breadline_loop_emits:
  "cstr p \<Longrightarrow> cb.emits (\<lambda>b. fst (breadline_loop b p)) (takeWhile (\<lambda>c. c \<noteq> NEWLINE) p) \<and>
     (\<forall>b. snd (breadline_loop b p) = dropWhile (\<lambda>c. c \<noteq> NEWLINE) p)"
proof (induction p)
  case Nil
  show ?case by (simp add: breadline_loop.simps cb.emits_id)
next
  case (Cons c p)
  have step: "breadline_loop b (c # p) =
      (if c \<noteq> NEWLINE then breadline_loop (bputc b c) p else (b, c # p))" for b
    using Cons.prems by (subst breadline_loop.simps) simp
  show ?case
  proof (cases "c = NEWLINE")
    case True
    then show ?thesis unfolding step by (simp add: cb.emits_id)
  next
    case False
    have "cb.emits (\<lambda>b. fst (breadline_loop (bputc b c) p)) (c # takeWhile (\<lambda>c. c \<noteq> NEWLINE) p)"
      by (rule cb.emits_comp [OF bputc_emits]) (use Cons in auto)
    then show ?thesis using False Cons by (simp add: step)
  qed
qed

section \<open>Properties\<close>

text \<open>
  Appending formatted text to a character buffer that is within its 32-bit limits extends the
  text by exactly that text, keeps the terminating NUL and never touches memory outside the
  buffer's block, whether the text fits, moves from the built-in array to the heap, or moves from
  one heap block to a larger one.
\<close>

theorem bprintf_appends:
  assumes "charbuf_inv b" and "2 * (unat (cused b) + length s) + 1024 < 2 ^ 32"
  shows "charbuf_inv (bprintf b s) \<and> buf_text (bprintf b s) = buf_text b @ s \<and>
    unat (cused (bprintf b s)) = unat (cused b) + length s"
  using assms bprintf_spec [of s b] by (simp add: charbuf_ready_def)

theorem bprintf_appends_witness:
  "buf_text (bprintf (snd (bopen 0 raw_charbuf)) ''select 1'') = ''select 1''"
proof -
  have "unat (cused (snd (bopen 0 raw_charbuf))) = 1" by (simp add: bopen_def bclear_def)
  then show ?thesis
    using bprintf_appends [of "snd (bopen 0 raw_charbuf)" "''select 1''"] bopen_inv [of 0] by simp
qed

lemma replicate_numeral_two: "replicate 2 c = [c, c]"
  by (simp add: numeral_2_eq_2)

text \<open>
  \<open>bindent\<close> appends the text of its input with the requested number of spaces at the start of
  every line that is not blank and changes nothing else: it computes the single-pass reference
  \<open>indented\<close>.
\<close>

theorem bindent_correct:
  assumes "charbuf_inv input" and "cstr (buf_text input)"
    and "2 * (1 + nat (sint indent)) + 1024 < 2 ^ 32"
    and "sp = replicate (nat (sint indent)) CHR '' ''"
    and "charbuf_ready (length (indented sp True (buf_text input))) b"
  shows "buf_text (bindent b input indent) = buf_text b @ indented sp True (buf_text input)"
  using cb.emits_contents [OF bindent_emits [OF assms(1-3)]] assms(4,5) by simp

theorem bindent_correct_witness:
  "buf_text (bindent (snd (bopen 0 raw_charbuf)) (bprintf (snd (bopen 0 raw_charbuf)) ''a'') 2)
     = ''  a''"
proof -
  let ?b = "snd (bopen 0 raw_charbuf)"
  have u: "unat (cused ?b) = 1" by (simp add: bopen_def bclear_def)
  then have r: "charbuf_ready n ?b" if "2 * (1 + n) + 1024 < 2 ^ 32" for n
    using that bopen_inv [of 0] by (simp add: charbuf_ready_def)
  have i: "charbuf_inv (bprintf ?b ''a'')" "buf_text (bprintf ?b ''a'') = ''a''"
    using bprintf_spec [of "''a''" ?b] r [of 1] bopen_inv [of 0] by simp_all
  have two: "nat (sint (2 :: i32)) = 2" by simp
  show ?thesis
    using bindent_correct [OF i(1), of 2 "''  ''" ?b] r [of 3] i(2) bopen_inv [of 0] two
    by (simp add: replicate_numeral_two numeral_3_eq_3)
qed

lemma chead_dropWhile:
  "(let p = dropWhile (\<lambda>c. c \<noteq> d) s in if chead p = d then tl p else p) =
     tl (dropWhile (\<lambda>c. c \<noteq> d) s)"
  by (induction s) auto

text \<open>
  \<open>breadline\<close> reports the end of the data exactly when nothing is left, and otherwise leaves the
  first line, without its newline, in the output buffer and advances the data past that newline.
\<close>

theorem breadline_correct:
  assumes "charbuf_inv b" and "cstr data" and "2 * (1 + length data) + 1024 < 2 ^ 32"
    and "breadline b data = (got, out, rest)"
  shows "(got \<longleftrightarrow> data \<noteq> []) \<and>
    buf_text out = takeWhile (\<lambda>c. c \<noteq> NEWLINE) data \<and>
    rest = tl (dropWhile (\<lambda>c. c \<noteq> NEWLINE) data)"
proof (cases "data = []")
  case True
  then show ?thesis using assms(1,4) bclear_spec [of b] by (auto simp: breadline_def)
next
  case False
  let ?l = "takeWhile (\<lambda>c. c \<noteq> NEWLINE) data"
  let ?p = "snd (breadline_loop (bclear b) data)"
  note e = breadline_loop_emits [OF assms(2)]
  have h: "chead data \<noteq> NUL" using False assms(2) by (cases data) auto
  have "length ?l \<le> length data" by (rule length_takeWhile_le)
  then have r: "charbuf_ready (length ?l) (bclear b)"
    using bclear_ready [OF assms(1), of "length ?l"] assms(3) by simp
  have t: "buf_text (fst (breadline_loop (bclear b) data)) = ?l"
    using cb.emits_contents [OF conjunct1 [OF e] r] bclear_spec [OF assms(1)] by simp
  have p: "?p = dropWhile (\<lambda>c. c \<noteq> NEWLINE) data" using e by simp
  have r: "(if chead ?p = NEWLINE then tl ?p else ?p) = tl ?p"
    unfolding p using chead_dropWhile [of NEWLINE data] by (simp only: Let_def)
  have "breadline b data = (True, fst (breadline_loop (bclear b) data), tl ?p)"
    using h by (simp only: breadline_def Let_def case_prod_beta r if_False)
  then have "got" "out = fst (breadline_loop (bclear b) data)" "rest = tl ?p"
    using assms(4) by simp_all
  then show ?thesis using t p False by (simp only: simp_thms)
qed

theorem breadline_correct_witness:
  "\<exists>out. breadline (snd (bopen 0 raw_charbuf)) (''ab'' @ NEWLINE # ''cd'') = (True, out, ''cd'') \<and>
     buf_text out = ''ab''"
proof -
  obtain got out rest where
    b: "breadline (snd (bopen 0 raw_charbuf)) (''ab'' @ NEWLINE # ''cd'') = (got, out, rest)"
    by (cases "breadline (snd (bopen 0 raw_charbuf)) (''ab'' @ NEWLINE # ''cd'')")
  show ?thesis
    using breadline_correct [OF bopen_inv(1) _ _ b] b by simp
qed

end
