(* ===== verification/Compat.thy ===== *)
theory Compat
  imports CqlBase
begin

text \<open>
  The portable character classification and case-insensitive comparison of \<open>sources/compat.c\<close>.
  Characters compare as signed \<open>char\<close> values (\<open>schar\<close>), and a string ends at the first NUL.
\<close>

section \<open>Character classification\<close>

definition IsLower :: "char \<Rightarrow> bool" where
  "IsLower c \<longleftrightarrow> schar c \<ge> schar CHR ''a'' \<and> schar c \<le> schar CHR ''z''"

definition IsUpper :: "char \<Rightarrow> bool" where
  "IsUpper c \<longleftrightarrow> schar c \<ge> schar CHR ''A'' \<and> schar c \<le> schar CHR ''Z''"

definition IsAlpha :: "char \<Rightarrow> bool" where
  "IsAlpha c \<longleftrightarrow> IsLower c \<or> IsUpper c"

definition IsDigit :: "char \<Rightarrow> bool" where
  "IsDigit c \<longleftrightarrow> schar c \<ge> schar CHR ''0'' \<and> schar c \<le> schar CHR ''9''"

definition IsXDigit :: "char \<Rightarrow> bool" where
  "IsXDigit c \<longleftrightarrow> IsDigit c \<or>
     (schar c \<ge> schar CHR ''a'' \<and> schar c \<le> schar CHR ''f'') \<or>
     (schar c \<ge> schar CHR ''A'' \<and> schar c \<le> schar CHR ''F'')"

text \<open>Back from the signed value to the byte, as the conversion of the result to \<open>char\<close> does.\<close>

definition char_of_schar :: "int \<Rightarrow> char" where
  "char_of_schar i = char_of (i mod 256)"

definition ToLower :: "char \<Rightarrow> char" where
  "ToLower c = (if IsUpper c then char_of_schar (schar c + (schar CHR ''a'' - schar CHR ''A'')) else c)"

definition ToUpper :: "char \<Rightarrow> char" where
  "ToUpper c = (if IsLower c then char_of_schar (schar c - (schar CHR ''a'' - schar CHR ''A'')) else c)"

lemma schar_consts:
  "schar CHR ''a'' = 97" "schar CHR ''z'' = 122" "schar CHR ''A'' = 65" "schar CHR ''Z'' = 90"
  "schar CHR ''0'' = 48" "schar CHR ''9'' = 57" "schar CHR ''f'' = 102" "schar CHR ''F'' = 70"
  by (simp_all add: schar_def)

lemma schar_char_of_schar:
  "0 \<le> i \<Longrightarrow> i < 128 \<Longrightarrow> schar (char_of_schar i) = i"
  by (simp add: schar_def char_of_schar_def)

lemma schar_range: "-128 \<le> schar c" "schar c < 128"
  using of_char_bound [of c] of_char_nonneg [of c] by (auto simp: schar_def Let_def)

lemma schar_ToLower:
  "schar (ToLower c) = (if 65 \<le> schar c \<and> schar c \<le> 90 then schar c + 32 else schar c)"
  using schar_char_of_schar [of "schar c + 32"]
  by (simp add: ToLower_def IsUpper_def schar_consts)

lemma schar_NUL [simp]: "schar NUL = 0"
  by (simp add: schar_def)

lemma schar_eq_0 [simp]: "schar c = 0 \<longleftrightarrow> c = NUL"
  using schar_inj [of c NUL] by auto

lemma ToLower_NUL [simp]: "ToLower c = NUL \<longleftrightarrow> c = NUL"
  using schar_ToLower [of c] schar_inj [of "ToLower c" NUL] by (auto split: if_splits)

lemma ToLower_idem: "ToLower (ToLower c) = ToLower c"
  by (rule schar_inj) (auto simp: schar_ToLower)

section \<open>Case-insensitive comparison\<close>

text \<open>
  The C loop advances both pointers while the lowered characters agree and stops at the NUL.
  The shortcut for two equal pointers returns the 0 the loop would compute
  (\<open>StrCaseCmp_same\<close>), so the model compares texts only.
\<close>

function StrCaseCmp :: "cstring \<Rightarrow> cstring \<Rightarrow> int" where
  "StrCaseCmp s1 s2 =
     (let result = schar (ToLower (chead s1)) - schar (ToLower (chead s2)) in
      if result \<noteq> 0 then result
      else if chead s1 = NUL then result
      else StrCaseCmp (tl s1) (tl s2))"
  by pat_completeness auto
termination
  by (relation "measure (\<lambda>(s1, s2). length s1)") (auto dest: chead_nonNUL)

function StrNCaseCmp :: "cstring \<Rightarrow> cstring \<Rightarrow> nat \<Rightarrow> int" where
  "StrNCaseCmp s1 s2 n =
     (if n = 0 then 0
      else let result = schar (ToLower (chead s1)) - schar (ToLower (chead s2)) in
        if result \<noteq> 0 then result
        else if chead s1 = NUL then 0
        else StrNCaseCmp (tl s1) (tl s2) (n - 1))"
  by pat_completeness auto
termination
  by (relation "measure (\<lambda>(s1, s2, n). n)") auto

definition StrEndsWith :: "cstring \<Rightarrow> cstring \<Rightarrow> bool" where
  "StrEndsWith haystack needle =
     (let haystack_len = length (cview haystack); needle_len = length (cview needle) in
      haystack_len \<ge> needle_len \<and>
      StrNCaseCmp (drop (haystack_len - needle_len) haystack) needle needle_len = 0)"

declare StrCaseCmp.simps [simp del]
declare StrNCaseCmp.simps [simp del]

lemma schar_eq [simp]: "schar a = schar b \<longleftrightarrow> a = b"
  by (auto dest: schar_inj)

lemma StrCaseCmp_step:
  "StrCaseCmp s t = 0 \<longleftrightarrow>
     ToLower (chead s) = ToLower (chead t) \<and> (chead s = NUL \<or> StrCaseCmp (tl s) (tl t) = 0)"
  by (subst StrCaseCmp.simps) (simp add: Let_def)

lemma StrNCaseCmp_step:
  "StrNCaseCmp s t (Suc n) = 0 \<longleftrightarrow>
     ToLower (chead s) = ToLower (chead t) \<and> (chead s = NUL \<or> StrNCaseCmp (tl s) (tl t) n = 0)"
  by (subst StrNCaseCmp.simps) (simp add: Let_def)

lemma StrCaseCmp_Nil: "StrCaseCmp [] t = 0 \<longleftrightarrow> ToLower NUL = ToLower (chead t)"
  by (subst StrCaseCmp_step) simp

lemma StrCaseCmp_Cons:
  "StrCaseCmp (c # s) t = 0 \<longleftrightarrow>
     ToLower c = ToLower (chead t) \<and> (c = NUL \<or> StrCaseCmp s (tl t) = 0)"
  by (subst StrCaseCmp_step) simp

lemma ToLower_NUL_eq [simp]: "ToLower NUL = NUL" "NUL = ToLower c \<longleftrightarrow> c = NUL"
  using ToLower_NUL [of c] ToLower_NUL [of NUL] by metis+

lemma StrCaseCmp_eq_0:
  "cstr s \<Longrightarrow> cstr t \<Longrightarrow> StrCaseCmp s t = 0 \<longleftrightarrow> map ToLower s = map ToLower t"
proof (induction s arbitrary: t)
  case Nil
  then show ?case by (cases t) (auto simp: StrCaseCmp_Nil)
next
  case (Cons c s)
  then show ?case by (cases t) (auto simp: StrCaseCmp_Cons)
qed

lemma StrCaseCmp_same: "cstr s \<Longrightarrow> StrCaseCmp s s = 0"
  by (simp add: StrCaseCmp_eq_0)

lemma StrNCaseCmp_eq_0:
  "cstr s \<Longrightarrow> cstr t \<Longrightarrow>
     StrNCaseCmp s t n = 0 \<longleftrightarrow> map ToLower (take n s) = map ToLower (take n t)"
proof (induction n arbitrary: s t)
  case 0
  then show ?case by (simp add: StrNCaseCmp.simps [of s t 0])
next
  case (Suc n)
  then show ?case by (cases s; cases t) (auto simp: StrNCaseCmp_step)
qed

lemma StrEndsWith_iff:
  assumes "cstr h" and "cstr n"
  shows "StrEndsWith h n \<longleftrightarrow> (\<exists>p q. h = p @ q \<and> map ToLower q = map ToLower n)"
proof
  assume e: "StrEndsWith h n"
  let ?k = "length h - length n"
  have k: "length n \<le> length h" and "StrNCaseCmp (drop ?k h) n (length n) = 0"
    using e assms by (auto simp: StrEndsWith_def Let_def)
  moreover have "cstr (drop ?k h)" using assms(1) by (auto simp: cstr_def dest: in_set_dropD)
  ultimately have "map ToLower (drop ?k h) = map ToLower n"
    using assms(2) by (simp add: StrNCaseCmp_eq_0)
  then show "\<exists>p q. h = p @ q \<and> map ToLower q = map ToLower n"
    by (metis append_take_drop_id)
next
  assume "\<exists>p q. h = p @ q \<and> map ToLower q = map ToLower n"
  then obtain p q where h: "h = p @ q" and q: "map ToLower q = map ToLower n" by blast
  then have "length q = length n" by (metis length_map)
  then show "StrEndsWith h n"
    using assms h q by (simp add: StrEndsWith_def Let_def StrNCaseCmp_eq_0)
qed

section \<open>The C library's comparison\<close>

text \<open>\<open>strcmp\<close> compares the bytes as unsigned numbers up to the first NUL.\<close>

function strcmp :: "cstring \<Rightarrow> cstring \<Rightarrow> int" where
  "strcmp s1 s2 =
     (let result = (of_char (chead s1) :: int) - of_char (chead s2) in
      if result \<noteq> 0 then result
      else if chead s1 = NUL then 0
      else strcmp (tl s1) (tl s2))"
  by pat_completeness auto
termination
proof (relation "measure (\<lambda>(s1, s2). length s1)")
  fix s1 s2 :: cstring and x :: int
  assume "chead s1 \<noteq> NUL"
  then show "((tl s1, tl s2), (s1, s2)) \<in> measure (\<lambda>(s1, s2). length s1)"
    by (auto dest: chead_nonNUL)
qed simp

declare strcmp.simps [simp del]

lemma of_char_eq_0 [simp]: "(of_char c :: int) = 0 \<longleftrightarrow> c = NUL"
  using of_char_eq_iff [where 'a = int, of c NUL] by simp

lemma of_char_strict: "(of_char c :: int) \<le> of_char d \<Longrightarrow> c \<noteq> d \<Longrightarrow> (of_char c :: int) < of_char d"
  using of_char_eq_iff [where 'a = int, of c d] by linarith

lemma strcmp_Nil: "strcmp [] t = - of_char (chead t)"
  by (subst strcmp.simps) (simp add: Let_def)

lemma strcmp_Nil2: "strcmp s [] = of_char (chead s)"
  by (subst strcmp.simps) (simp add: Let_def)

lemma strcmp_Cons:
  "c \<noteq> NUL \<Longrightarrow> strcmp (c # s) (d # t) = (if c = d then strcmp s t else of_char c - of_char d)"
  by (subst strcmp.simps) (simp add: Let_def)

lemma strcmp_eq_0: "cstr s \<Longrightarrow> cstr t \<Longrightarrow> strcmp s t = 0 \<longleftrightarrow> s = t"
proof (induction s arbitrary: t)
  case Nil
  then show ?case by (cases t) (auto simp: strcmp_Nil)
next
  case (Cons c s)
  then show ?case by (cases t) (auto simp: strcmp_Nil2 strcmp_Cons)
qed

lemma strcmp_less_antisym: "cstr s \<Longrightarrow> cstr t \<Longrightarrow> strcmp s t < 0 \<longleftrightarrow> 0 < strcmp t s"
proof (induction s arbitrary: t)
  case Nil
  then show ?case by (cases t) (auto simp: strcmp_Nil strcmp_Nil2)
next
  case (Cons c s)
  show ?case
  proof (cases t)
    case Nil
    then show ?thesis using Cons.prems of_char_nonneg [of c] by (simp add: strcmp_Nil strcmp_Nil2)
  next
    case (Cons d u)
    then show ?thesis using Cons.IH [of u] Cons.prems by (auto simp: strcmp_Cons)
  qed
qed

lemma strcmp_le_trans:
  "cstr s \<Longrightarrow> cstr t \<Longrightarrow> cstr u \<Longrightarrow> strcmp s t \<le> 0 \<Longrightarrow> strcmp t u \<le> 0 \<Longrightarrow> strcmp s u \<le> 0"
proof (induction s arbitrary: t u)
  case Nil
  then show ?case using of_char_nonneg [of "chead u"] by (simp add: strcmp_Nil)
next
  case (Cons c s)
  from Cons.prems of_char_nonneg [of c] obtain d t' where t: "t = d # t'" 
    by (cases t) (auto simp: strcmp_Nil2 order.antisym_conv2 dest!: order.antisym)
  from Cons.prems t of_char_nonneg [of d] obtain e u' where u: "u = e # u'"
    by (cases u) (auto simp: strcmp_Nil2 dest!: order.antisym)
  have "c = d \<or> (of_char c :: int) < of_char d" "d = e \<or> (of_char d :: int) < of_char e"
    using Cons.prems t u by (auto simp: strcmp_Cons intro!: of_char_strict split: if_splits)
  moreover have "strcmp s u' \<le> 0" if "c = d" "d = e"
    using that Cons.IH [of t' u'] Cons.prems t u by (simp add: strcmp_Cons)
  ultimately show ?case using Cons.prems(1) u by (auto simp: strcmp_Cons)
qed

end
