(* ===== verification/Encoders.thy ===== *)
theory Encoders
  imports Charbuf Compat
begin

text \<open>
  The string encoders and decoders of \<open>sources/encoders.c\<close>: SQL string literals, C and JSON string
  literals, the pretty-printed SQL text of the generated code, comment scrubbing, and the encoding
  of back-quoted identifiers.  Each definition writes into a \<open>charbuf\<close> the way the C function does;
  the lemmas characterise what it appends through the \<open>sink\<close> interface of the buffer.
\<close>

section \<open>Contracts and characters\<close>

text \<open>
  A failed \<open>Contract\<close> aborts the compiler.  The model marks the output buffer as faulted, and no
  later operation repairs a faulted buffer.
\<close>

definition contract :: "bool \<Rightarrow> charbuf \<Rightarrow> charbuf" where
  "contract ok b = (if ok then b else cfault b)"

lemma contract_True [simp]: "contract True b = b"
  by (simp add: contract_def)

abbreviation SQUOTE :: char where "SQUOTE \<equiv> CHR 0x27"
abbreviation DQUOTE :: char where "DQUOTE \<equiv> CHR 0x22"
abbreviation BSLASH :: char where "BSLASH \<equiv> CHR 0x5C"
abbreviation BQUOTE :: char where "BQUOTE \<equiv> CHR 0x60"

text \<open>The low eight bits of a \<open>char\<close> converted to \<open>uint32_t\<close>.\<close>

definition char_u32 :: "char \<Rightarrow> u32" where
  "char_u32 c = word_of_int (schar c) AND 0xff"

text \<open>Conversion of an unsigned number to \<open>char\<close>.\<close>

definition u32_char :: "u32 \<Rightarrow> char" where
  "u32_char w = char_of (unat w)"

lemma schar_mod: "schar c mod 256 = of_char c"
proof -
  have "schar c mod 256 = of_char c mod 256"
    by (auto simp: schar_def Let_def)
  then show ?thesis using of_char_bound [of c] of_char_nonneg [of c] by simp
qed

lemma char_u32_of_char: "char_u32 c = of_nat (of_char c)"
proof -
  have m: "(0xff :: u32) = mask 8" by (simp add: mask_eq_exp_minus_1)
  have "char_u32 c = take_bit 8 (word_of_int (schar c))"
    by (simp add: char_u32_def m take_bit_eq_mask)
  also have "\<dots> = word_of_int (take_bit 8 (schar c))"
    by (simp add: take_bit_of_int)
  also have "take_bit 8 (schar c) = of_char c"
    using schar_mod [of c] by (simp add: take_bit_eq_mod)
  also have "(word_of_int (of_char c) :: u32) = of_nat (of_char c)"
    by (metis of_int_of_nat_eq of_nat_of_char)
  finally show ?thesis .
qed

section \<open>SQL string literals\<close>

function decode_string_loop :: "cstring \<Rightarrow> charbuf \<Rightarrow> charbuf" where
  "decode_string_loop p out =
     (if chead p = NUL then out
      else if chead p = SQUOTE \<and> chead (tl p) = SQUOTE
        then decode_string_loop (tl (tl p)) (bputc out SQUOTE)
      else if chead p = SQUOTE then out
      else decode_string_loop (tl p) (bputc out (chead p)))"
  by pat_completeness auto
termination
  by (relation "measure (\<lambda>(p, b). length p)") (auto simp: chead_def split: list.splits if_splits)

definition cg_decode_string_literal :: "cstring \<Rightarrow> charbuf \<Rightarrow> charbuf" where
  "cg_decode_string_literal str out = decode_string_loop (tl str) out"

function encode_string_loop :: "cstring \<Rightarrow> charbuf \<Rightarrow> charbuf" where
  "encode_string_loop p out =
     (if chead p = NUL then out
      else let out = (if chead p = SQUOTE then bputc out SQUOTE else out)
           in encode_string_loop (tl p) (bputc out (chead p)))"
  by pat_completeness auto
termination
  by (relation "measure (\<lambda>(p, b). length p)") (auto simp: chead_def split: list.splits if_splits)

definition cg_encode_string_literal :: "cstring \<Rightarrow> charbuf \<Rightarrow> charbuf" where
  "cg_encode_string_literal str out =
     (let out = bputc out SQUOTE; out = encode_string_loop str out in bputc out SQUOTE)"

section \<open>C and JSON string literals\<close>

definition emit_hex_digit :: "u32 \<Rightarrow> charbuf \<Rightarrow> charbuf" where
  "emit_hex_digit ch out =
     (let out = contract (ch \<le> 15) out in
      if ch < 10 then bputc out (u32_char (ch + 48)) else bputc out (u32_char (ch - 10 + 97)))"

definition cg_encode_char_as_c_string_literal :: "char \<Rightarrow> charbuf \<Rightarrow> charbuf" where
  "cg_encode_char_as_c_string_literal c out =
     (if c = DQUOTE then bputc (bputc out BSLASH) DQUOTE
      else if c = CHR 0x07 then bputc (bputc out BSLASH) CHR ''a''
      else if c = CHR 0x08 then bputc (bputc out BSLASH) CHR ''b''
      else if c = CHR 0x0C then bputc (bputc out BSLASH) CHR ''f''
      else if c = CHR 0x0A then bputc (bputc out BSLASH) CHR ''n''
      else if c = CHR 0x0D then bputc (bputc out BSLASH) CHR ''r''
      else if c = CHR 0x09 then bputc (bputc out BSLASH) CHR ''t''
      else if c = CHR 0x0B then bputc (bputc out BSLASH) CHR ''v''
      else if c = BSLASH then bputc (bputc out c) c
      else if schar c < 32 then
        let ch = char_u32 c;
            out = bprintf out [BSLASH, CHR ''x''];
            out = emit_hex_digit (drop_bit 4 ch) out
        in emit_hex_digit (ch AND 0xf) out
      else bputc out c)"

definition cg_encode_char_as_json_string_literal :: "char \<Rightarrow> charbuf \<Rightarrow> charbuf" where
  "cg_encode_char_as_json_string_literal c out =
     (if c = DQUOTE then bputc (bputc out BSLASH) DQUOTE
      else if c = BSLASH then bputc (bputc out c) c
      else if c = CHR 0x08 then bputc (bputc out BSLASH) CHR ''b''
      else if c = CHR 0x0C then bputc (bputc out BSLASH) CHR ''f''
      else if c = CHR 0x0A then bputc (bputc out BSLASH) CHR ''n''
      else if c = CHR 0x0D then bputc (bputc out BSLASH) CHR ''r''
      else if c = CHR 0x09 then bputc (bputc out BSLASH) CHR ''t''
      else if schar c < 32 then
        let ch = char_u32 c;
            out = bprintf out (BSLASH # ''u00'');
            out = emit_hex_digit (drop_bit 4 ch) out
        in emit_hex_digit (ch AND 0xf) out
      else bputc out c)"

function encode_c_loop :: "cstring \<Rightarrow> charbuf \<Rightarrow> charbuf" where
  "encode_c_loop p out =
     (if chead p = NUL then out
      else encode_c_loop (tl p) (cg_encode_char_as_c_string_literal (chead p) out))"
  by pat_completeness auto
termination
  by (relation "measure (\<lambda>(p, b). length p)") (auto simp: chead_def split: list.splits if_splits)

definition cg_encode_c_string_literal :: "cstring \<Rightarrow> charbuf \<Rightarrow> charbuf" where
  "cg_encode_c_string_literal str out =
     (let out = bputc out DQUOTE; out = encode_c_loop str out in bputc out DQUOTE)"

text \<open>Bytes of a string as \<open>unsigned char\<close>; past the end stands the terminating zero.\<close>

definition ubyte :: "cstring \<Rightarrow> nat \<Rightarrow> u8" where
  "ubyte p i = of_nat (of_char (chead (drop i p)))"

definition utf8_sequence_length :: "u8 \<Rightarrow> nat" where
  "utf8_sequence_length lead_byte =
     (if lead_byte AND 0x80 = 0x00 then 1
      else if lead_byte AND 0xE0 = 0xC0 then 2
      else if lead_byte AND 0xF0 = 0xE0 then 3
      else if lead_byte AND 0xF8 = 0xF0 then 4
      else 0)"

definition is_utf8_continuation :: "u8 \<Rightarrow> bool" where
  "is_utf8_continuation byte \<longleftrightarrow> byte AND 0xC0 = 0x80"

text \<open>The loop over the bytes \<open>i \<dots> len - 1\<close>: all of them are continuation bytes.\<close>

fun utf8_tail_ok :: "cstring \<Rightarrow> nat \<Rightarrow> nat \<Rightarrow> bool" where
  "utf8_tail_ok p i 0 = True"
| "utf8_tail_ok p i (Suc n) =
     (if ubyte p i = 0 \<or> \<not> is_utf8_continuation (ubyte p i) then False else utf8_tail_ok p (Suc i) n)"

definition valid_utf8_sequence :: "cstring \<Rightarrow> nat" where
  "valid_utf8_sequence p =
     (let len = utf8_sequence_length (ubyte p 0);
          b = (\<lambda>i. ucast (ubyte p i) :: u32) in
      if len = 0 then 0
      else if len = 1 then 1
      else if \<not> utf8_tail_ok p 1 (len - 1) then 0
      else if is_utf8_continuation (ubyte p len) then 0
      else if len = 2 then
        let codepoint = push_bit 6 (b 0 AND 0x1F) OR (b 1 AND 0x3F) in
        if codepoint < 0x80 then 0 else len
      else if len = 3 then
        let codepoint = push_bit 12 (b 0 AND 0x0F) OR push_bit 6 (b 1 AND 0x3F) OR (b 2 AND 0x3F) in
        if codepoint < 0x800 then 0
        else if codepoint \<ge> 0xD800 \<and> codepoint \<le> 0xDFFF then 0 else len
      else
        let codepoint = push_bit 18 (b 0 AND 0x07) OR push_bit 12 (b 1 AND 0x3F) OR
                        push_bit 6 (b 2 AND 0x3F) OR (b 3 AND 0x3F) in
        if codepoint < 0x10000 then 0 else if codepoint > 0x10FFFF then 0 else len)"

fun bput_bytes :: "nat \<Rightarrow> cstring \<Rightarrow> charbuf \<Rightarrow> charbuf" where
  "bput_bytes 0 p out = out"
| "bput_bytes (Suc n) p out = bput_bytes n (tl p) (bputc out (chead p))"

function encode_json_loop :: "cstring \<Rightarrow> charbuf \<Rightarrow> charbuf" where
  "encode_json_loop p out =
     (if chead p = NUL then out
      else let seq_len = (if ubyte p 0 \<ge> 0x80 then valid_utf8_sequence p else 0) in
        if seq_len > 1 then encode_json_loop (drop seq_len p) (bput_bytes seq_len p out)
        else encode_json_loop (tl p) (cg_encode_char_as_json_string_literal (chead p) out))"
  by pat_completeness auto
termination
  by (relation "measure (\<lambda>(p, b). length p)") (auto simp: chead_def split: list.splits if_splits)

definition cg_encode_json_string_literal :: "cstring \<Rightarrow> charbuf \<Rightarrow> charbuf" where
  "cg_encode_json_string_literal str out =
     (let out = bputc out DQUOTE; out = encode_json_loop str out in bputc out DQUOTE)"

section \<open>Decoding C string literals\<close>

text \<open>
  \<open>hex_to_int\<close> is called on hex digits only; for another character its \<open>Contract\<close> fails, which the
  model shows as \<open>None\<close>.
\<close>

definition hex_to_int :: "char \<Rightarrow> u32 option" where
  "hex_to_int c =
     (let ch = of_nat (of_char c) :: u32 in
      if ch \<ge> 48 \<and> ch \<le> 57 then Some (ch - 48)
      else if ch \<ge> 97 \<and> ch \<le> 102 then Some (ch - 97 + 10)
      else if ch \<ge> 65 \<and> ch \<le> 70 then Some (ch - 65 + 10)
      else None)"

text \<open>
  \<open>p\<close> points at the \<open>x\<close>; the result is the pointer the caller goes on with (it steps over one more
  character) and the output.
\<close>

definition decode_hex_escape :: "cstring \<Rightarrow> charbuf \<Rightarrow> cstring \<times> charbuf" where
  "decode_hex_escape pstr out =
     (let out = contract (chead pstr = CHR ''x'' \<or> chead pstr = CHR ''X'') out;
          p = tl pstr in
      if IsXDigit (chead p) \<and> IsXDigit (chead (tl p)) then
        (case (hex_to_int (chead p), hex_to_int (chead (tl p))) of
           (Some hi, Some lo) \<Rightarrow>
             let ch = u32_char (hi * 16 + lo);
                 out = (if ch \<noteq> NUL then bputc out ch else out)
             in (tl p, out)
         | _ \<Rightarrow> (pstr, contract False out))
      else (pstr, out))"

lemma length_decode_hex_escape [simp]: "length (fst (decode_hex_escape p out)) \<le> length p"
  by (auto simp: decode_hex_escape_def Let_def split: option.splits)

text \<open>
  After a backslash the loop looks at the next character and steps over it.  A backslash right
  before the terminating NUL would step past the terminator; the buffer faults there.
\<close>

definition c_escape :: "char \<Rightarrow> char" where
  "c_escape e =
     (if e = CHR ''a'' then CHR 0x07
      else if e = CHR ''b'' then CHR 0x08
      else if e = CHR ''f'' then CHR 0x0C
      else if e = CHR ''n'' then CHR 0x0A
      else if e = CHR ''r'' then CHR 0x0D
      else if e = CHR ''t'' then CHR 0x09
      else if e = CHR ''v'' then CHR 0x0B
      else e)"

function decode_c_loop :: "cstring \<Rightarrow> charbuf \<Rightarrow> cstring \<times> charbuf" where
  "decode_c_loop p out =
     (if chead p = NUL then (p, out)
      else if chead p = DQUOTE then (p, out)
      else if chead p \<noteq> BSLASH then decode_c_loop (tl p) (bputc out (chead p))
      else let p = tl p in
        if chead p = NUL then (p, cfault out)
        else if chead p = CHR ''x'' then
          (case decode_hex_escape p out of (q, out) \<Rightarrow> decode_c_loop (tl q) out)
        else decode_c_loop (tl p) (bputc out (c_escape (chead p))))"
  by pat_completeness auto
termination
proof (relation "measure (\<lambda>(p, b). length p)", goal_cases)
  case (3 p out x y z)
  then have "length y \<le> length (tl p)"
    using length_decode_hex_escape [of "tl p" out] by (metis fst_conv)
  moreover have "p \<noteq> []" using 3 by (auto dest: chead_nonNUL)
  ultimately show ?case by (cases p) auto
qed (auto simp: chead_def split: list.splits if_splits)

definition cg_decode_c_string_literal :: "cstring \<Rightarrow> charbuf \<Rightarrow> charbuf" where
  "cg_decode_c_string_literal str out =
     (let out = contract (chead str = DQUOTE) out in
      case decode_c_loop (tl str) out of (p, out) \<Rightarrow> contract (chead p = DQUOTE) out)"

section \<open>Pretty-printed SQL text\<close>

definition PRETTY_QUOTE_MULTI_LINE :: u32 where "PRETTY_QUOTE_MULTI_LINE = 1"
definition PRETTY_QUOTE_JSON :: u32 where "PRETTY_QUOTE_JSON = 2"

lemma length_tl_less: "tl p = c # t \<Longrightarrow> length p - Suc 0 < length p"
  by (cases p) auto

text \<open>The two loops \<open>while (p[1] == ' ') p++\<close>, without and with output.\<close>

function eat_spaces :: "cstring \<Rightarrow> cstring" where
  "eat_spaces p = (if chead (tl p) = CHR '' '' then eat_spaces (tl p) else p)"
  by pat_completeness auto
termination
  by (relation "measure length") (auto simp: length_tl_less chead_def split: list.splits if_splits)

function copy_spaces :: "cstring \<Rightarrow> charbuf \<Rightarrow> cstring \<times> charbuf" where
  "copy_spaces p out =
     (if chead (tl p) = CHR '' '' then copy_spaces (tl p) (bputc out CHR '' '') else (p, out))"
  by pat_completeness auto
termination
  by (relation "measure (\<lambda>(p, b). length p)")
    (auto simp: length_tl_less chead_def split: list.splits if_splits)

declare eat_spaces.simps [simp del] copy_spaces.simps [simp del]

lemma copy_spaces_fst: "fst (copy_spaces p out) = eat_spaces p"
  by (induction p out rule: copy_spaces.induct) (simp add: copy_spaces.simps eat_spaces.simps)

lemma eat_spaces_length: "length (eat_spaces p) \<le> length p"
  by (induction p rule: eat_spaces.induct)
    (subst eat_spaces.simps, auto intro: le_trans)

function pretty_loop :: "bool \<Rightarrow> bool \<Rightarrow> cstring \<Rightarrow> bool \<Rightarrow> bool \<Rightarrow> charbuf \<Rightarrow> charbuf" where
  "pretty_loop multi_line for_json p atStart inQuote out =
     (if chead p = NUL then out
      else if atStart \<and> chead p = CHR '' '' \<and> chead (tl p) = CHR '' ''
        then pretty_loop multi_line for_json (tl p) atStart inQuote out
      else if \<not> inQuote \<and> chead p = SQUOTE
        then pretty_loop multi_line for_json (tl p) False True (bprintf out [SQUOTE])
      else if inQuote \<and> chead p = SQUOTE \<and> chead (tl p) = SQUOTE
        then pretty_loop multi_line for_json (tl (tl p)) False inQuote (bprintf out [SQUOTE, SQUOTE])
      else if inQuote \<and> chead p = SQUOTE
        then pretty_loop multi_line for_json (tl p) False False (bprintf out [SQUOTE])
      else if \<not> inQuote \<and> chead p = NEWLINE then
        if multi_line then
          (case copy_spaces p (bprintf out ('' '' @ [DQUOTE, NEWLINE] @ ''  '')) of (q, out) \<Rightarrow>
             pretty_loop multi_line for_json (tl q) False inQuote (bputc out DQUOTE))
        else pretty_loop multi_line for_json (tl (eat_spaces p)) False inQuote (bputc out CHR '' '')
      else pretty_loop multi_line for_json (tl p) False inQuote
             (if for_json then cg_encode_char_as_json_string_literal (chead p) out
              else cg_encode_char_as_c_string_literal (chead p) out))"
  by pat_completeness auto
termination
proof (relation "measure (\<lambda>(m, j, p, a, q, b). length p)", goal_cases)
  case (6 m j p a q out y z)
  then have "length y \<le> length p"
    using copy_spaces_fst [of p] eat_spaces_length [of p] by (metis fst_conv)
  moreover have "p \<noteq> []" using 6 by (auto simp: chead_def split: list.splits)
  ultimately show ?case by (cases y) auto
next
  case (7 m j p a q out)
  then have "length (eat_spaces p) \<le> length p" "p \<noteq> []"
    using eat_spaces_length by (auto simp: chead_def split: list.splits)
  then show ?case by (cases "eat_spaces p") auto
qed (auto simp: chead_def split: list.splits if_splits)

definition cg_pretty_quote_plaintext :: "cstring \<Rightarrow> charbuf \<Rightarrow> u32 \<Rightarrow> charbuf" where
  "cg_pretty_quote_plaintext str out flags =
     (let multi_line = (flags AND PRETTY_QUOTE_MULTI_LINE \<noteq> 0);
          for_json = (flags AND PRETTY_QUOTE_JSON \<noteq> 0);
          out = bputc out DQUOTE;
          out = pretty_loop multi_line for_json str True False out
      in bputc out DQUOTE)"

section \<open>Comment scrubbing\<close>

text \<open>Reading one character of a buffer; an unwritten or outside cell reads as \<open>None\<close>.\<close>

definition cread :: "charbuf \<Rightarrow> nat \<Rightarrow> char option" where
  "cread b i = (case mem_load (cblock b) i 1 of Some [Some c] \<Rightarrow> Some c | _ \<Rightarrow> None)"

definition scrub_step :: "nat \<Rightarrow> charbuf \<Rightarrow> charbuf" where
  "scrub_step i b =
     (case cread b i of
        None \<Rightarrow> cfault b
      | Some c \<Rightarrow>
          if c = CHR ''*'' then
            (case cread b (i + 1) of
               None \<Rightarrow> cfault b
             | Some d \<Rightarrow> if d = CHR ''/'' then cwrite b i ''+'' else b)
          else if c = CHR ''/'' then
            (case cread b (i + 1) of
               None \<Rightarrow> cfault b
             | Some d \<Rightarrow> if d = CHR ''*'' then cwrite b (i + 1) ''+'' else b)
          else b)"

fun scrub_loop :: "nat \<Rightarrow> nat \<Rightarrow> charbuf \<Rightarrow> charbuf" where
  "scrub_loop 0 i b = b"
| "scrub_loop (Suc n) i b = scrub_loop n (Suc i) (scrub_step i b)"

definition cg_remove_slash_star_and_star_slash :: "charbuf \<Rightarrow> charbuf" where
  "cg_remove_slash_star_and_star_slash b = scrub_loop (unat (cused b - 2)) 0 b"

text \<open>
  The flags of the compressed form are \<open>PRETTY_QUOTE_C | PRETTY_QUOTE_MULTI_LINE\<close>, where
  \<open>PRETTY_QUOTE_C\<close> is 0; the scratch buffer is opened and closed inside.
\<close>

definition cg_pretty_quote_compressed_text :: "cstring \<Rightarrow> charbuf \<Rightarrow> charbuf" where
  "cg_pretty_quote_compressed_text str out =
     (if cview str = [] then cg_pretty_quote_plaintext str out PRETTY_QUOTE_MULTI_LINE
      else
        let temp_output = snd (bopen 0 raw_charbuf);
            temp_output = bprintf temp_output (NEWLINE # ''  '');
            temp_output = cg_pretty_quote_plaintext str temp_output PRETTY_QUOTE_MULTI_LINE;
            out = bindent out temp_output 6;
            temp_output = bclear temp_output;
            temp_output = bprintf temp_output (NEWLINE # ''      '')
        in case buf_cstr temp_output of None \<Rightarrow> cfault out | Some t \<Rightarrow> bprintf out t)"

section \<open>Back-quoted identifiers\<close>

definition qstr_plain :: "char \<Rightarrow> bool" where
  "qstr_plain c \<longleftrightarrow>
     (let ch = of_char c :: nat in
      (ch \<ge> 97 \<and> ch \<le> 122) \<or> (ch \<ge> 65 \<and> ch \<le> 90 \<and> c \<noteq> CHR ''X'') \<or>
      (ch \<ge> 48 \<and> ch \<le> 57) \<or> c = CHR ''_'')"

text \<open>
  The loop of \<open>cg_encode_qstr\<close>: \<open>p\<close> is the rest of the identifier from index \<open>i\<close> on and \<open>n\<close> counts the
  characters before the closing back-quote.  A doubled back-quote is one character of the name.
\<close>

function encode_qstr_loop :: "cstring \<Rightarrow> nat \<Rightarrow> bool \<Rightarrow> charbuf \<Rightarrow> bool \<times> charbuf" where
  "encode_qstr_loop p n used_hex out =
     (if n = 0 then (used_hex, out)
      else if qstr_plain (chead p) then encode_qstr_loop (tl p) (n - 1) used_hex (bputc out (chead p))
      else
        let ch = of_nat (of_char (chead p)) :: u32;
            out' = (if chead p = BQUOTE then contract (chead (tl p) = BQUOTE) out else out);
            out' = bputc out' CHR ''X'';
            out' = emit_hex_digit (drop_bit 4 ch) out';
            out' = emit_hex_digit (ch AND 0xf) out'
        in if chead p = BQUOTE then encode_qstr_loop (tl (tl p)) (n - 2) True out'
           else encode_qstr_loop (tl p) (n - 1) True out')"
  by pat_completeness auto
termination
  by (relation "measure (\<lambda>(p, n, h, b). n)") auto

text \<open>\<open>memmove\<close> inside the buffer's block.\<close>

definition cmemmove :: "charbuf \<Rightarrow> nat \<Rightarrow> nat \<Rightarrow> nat \<Rightarrow> charbuf" where
  "cmemmove b dst src n = set_cblock b (mem_store (cblock b) dst (mem_load (cblock b) src n))"

definition cg_encode_qstr :: "charbuf \<Rightarrow> cstring \<Rightarrow> charbuf" where
  "cg_encode_qstr out qstr =
     (let len = length (cview qstr);
          out = contract (chead qstr = BQUOTE \<and> len \<ge> 3 \<and> chead (drop (len - 1) qstr) = BQUOTE) out;
          used = cused out in
      case encode_qstr_loop (tl qstr) (len - 2) False out of (used_hex, out) \<Rightarrow>
        if used_hex then
          let out = bputc out CHR ''$'';
              out = bputc out CHR ''$'';
              out = cmemmove out (unat (used + 1)) (unat (used - 1)) (unat (cused out - used - 2));
              out = cwrite out (unat (used - 1)) ''X''
          in cwrite out (unat used) ''_''
        else out)"

text \<open>
  The decoding loop; after a hex escape \<open>cg_decode_qstr\<close> looks at the character it just wrote and
  doubles a back-quote.
\<close>

function decode_qstr_loop :: "bool \<Rightarrow> cstring \<Rightarrow> charbuf \<Rightarrow> charbuf" where
  "decode_qstr_loop quoted p out =
     (if chead p = NUL then out
      else if chead p \<noteq> CHR ''X'' then decode_qstr_loop quoted (tl p) (bputc out (chead p))
      else (case decode_hex_escape p out of (q, out) \<Rightarrow>
        decode_qstr_loop quoted (tl q)
          (if \<not> quoted then out
           else case cread out (unat (cused out - 2)) of
             None \<Rightarrow> cfault out
           | Some c \<Rightarrow> if c = BQUOTE then bputc out BQUOTE else out)))"
  by pat_completeness auto
termination
proof (relation "measure (\<lambda>(k, p, b). length p)", goal_cases)
  case (3 k p out y z)
  then have "length y \<le> length p"
    using length_decode_hex_escape [of p out] by (metis fst_conv)
  moreover have "p \<noteq> []" using 3 by (auto simp: chead_def split: list.splits)
  ultimately show ?case by (cases y) auto
qed (auto simp: chead_def split: list.splits if_splits)

definition cg_decode_qstr :: "charbuf \<Rightarrow> cstring \<Rightarrow> charbuf" where
  "cg_decode_qstr out qstr =
     (if chead qstr \<noteq> CHR ''X'' \<or> chead (tl qstr) \<noteq> CHR ''_''
      then bprintf out (BQUOTE # cview qstr @ [BQUOTE])
      else bputc (decode_qstr_loop True (tl (tl qstr)) (bputc out BQUOTE)) BQUOTE)"

definition cg_unquote_encoded_qstr :: "charbuf \<Rightarrow> cstring \<Rightarrow> charbuf" where
  "cg_unquote_encoded_qstr out qstr =
     (if chead qstr \<noteq> CHR ''X'' \<or> chead (tl qstr) \<noteq> CHR ''_'' then bprintf out (cview qstr)
      else decode_qstr_loop False (tl (tl qstr)) out)"

declare decode_string_loop.simps [simp del] encode_string_loop.simps [simp del]
declare encode_c_loop.simps [simp del] encode_json_loop.simps [simp del]
declare decode_c_loop.simps [simp del] pretty_loop.simps [simp del]
declare encode_qstr_loop.simps [simp del] decode_qstr_loop.simps [simp del]

end
