(* ===== verification/Encoders_Correct.thy ===== *)
theory Encoders_Correct
  imports Encoders
begin

text \<open>
  What the encoders append, and that the decoders invert them: SQL literals, C literals and
  back-quoted identifiers are round trips; comment scrubbing leaves no comment marker.
\<close>

named_theorems emit_intros \<open>what the writing functions append to a character buffer\<close>

lemmas [emit_intros] = bputc_emits cb.emits_put cb.emits_id

lemma bputc2_emits [emit_intros]: "cb.emits (\<lambda>b. bputc (bputc b c) d) [c, d]"
  by (rule cb.emits_comp [OF bputc_emits bputc_emits]) simp

section \<open>SQL string literals\<close>

definition sql_escape :: "cstring \<Rightarrow> cstring" where
  "sql_escape s = concat (map (\<lambda>c. if c = SQUOTE then [SQUOTE, SQUOTE] else [c]) s)"

lemma encode_string_loop_emits:
  "cstr s \<Longrightarrow> cb.emits (encode_string_loop s) (sql_escape s)"
proof (induction s)
  case Nil
  have "encode_string_loop [] = (\<lambda>b. b)" by (rule ext) (simp add: encode_string_loop.simps)
  then show ?case by (simp add: sql_escape_def cb.emits_id)
next
  case (Cons c s)
  let ?f = "\<lambda>b. bputc (if c = SQUOTE then bputc b SQUOTE else b) c"
  have "cb.emits ?f (if c = SQUOTE then [SQUOTE, SQUOTE] else [c])"
    by (cases "c = SQUOTE") (simp_all add: emit_intros)
  moreover have "cb.emits (encode_string_loop s) (sql_escape s)" using Cons by simp
  moreover have "encode_string_loop (c # s) = (\<lambda>b. encode_string_loop s (?f b))"
    using Cons.prems by (intro ext, subst encode_string_loop.simps) (simp add: Let_def)
  ultimately show ?case
    by (simp only:) (rule cb.emits_comp; simp add: sql_escape_def)
qed

lemma cg_encode_string_literal_emits:
  assumes "cstr s"
  shows "cb.emits (cg_encode_string_literal s) (SQUOTE # sql_escape s @ [SQUOTE])"
proof -
  have "cb.emits (\<lambda>b. encode_string_loop s (bputc b SQUOTE)) (SQUOTE # sql_escape s)"
    by (rule cb.emits_comp [OF bputc_emits encode_string_loop_emits]) (use assms in simp_all)
  from cb.emits_comp [OF this bputc_emits] show ?thesis
    by (simp add: cg_encode_string_literal_def [abs_def] Let_def)
qed

lemma decode_string_loop_emits:
  "cstr s \<Longrightarrow> chead t \<noteq> SQUOTE \<Longrightarrow> cb.emits (decode_string_loop (sql_escape s @ SQUOTE # t)) s"
proof (induction s)
  case Nil
  then have "decode_string_loop (sql_escape [] @ SQUOTE # t) = (\<lambda>b. b)"
    by (intro ext, subst decode_string_loop.simps) (simp add: sql_escape_def)
  then show ?case by (simp add: cb.emits_id)
next
  case (Cons c s)
  have ne: "c \<noteq> SQUOTE \<Longrightarrow> sql_escape (c # s) = c # sql_escape s"
    "sql_escape (SQUOTE # s) = SQUOTE # SQUOTE # sql_escape s"
    by (simp_all add: sql_escape_def)
  have "decode_string_loop (sql_escape (c # s) @ SQUOTE # t) =
      (\<lambda>b. decode_string_loop (sql_escape s @ SQUOTE # t) (bputc b c))"
    using Cons.prems ne by (intro ext, subst decode_string_loop.simps) (cases "c = SQUOTE"; simp)
  then show ?case
    using cb.emits_comp [OF bputc_emits Cons.IH] Cons.prems by simp
qed

section \<open>Hexadecimal digits\<close>

definition hexd :: "nat \<Rightarrow> char" where
  "hexd n = (if n < 10 then char_of (n + 48) else char_of (n - 10 + 97))"

lemma hexd_table:
  "list_all (\<lambda>n. IsXDigit (hexd n) \<and> hex_to_int (hexd n) = Some (of_nat n) \<and> hexd n \<noteq> NUL \<and>
     hexd n \<noteq> BSLASH \<and> hexd n \<noteq> DQUOTE \<and> hexd n \<noteq> CHR ''X'') [0..<16]"
  by code_simp

lemma hexd_props:
  assumes "n < 16"
  shows "IsXDigit (hexd n)" and "hex_to_int (hexd n) = Some (of_nat n)" and "hexd n \<noteq> NUL"
    and "hexd n \<noteq> BSLASH" and "hexd n \<noteq> DQUOTE" and "hexd n \<noteq> CHR ''X''"
  using hexd_table assms unfolding list_all_iff by auto

lemma emit_hex_digit_emits:
  assumes "n < 16"
  shows "cb.emits (emit_hex_digit (of_nat n)) [hexd n]"
proof -
  have u: "unat (of_nat n :: u32) = n" using assms by (intro unat_of_nat_u32) simp
  have "(of_nat n :: u32) \<le> 15" and lt: "(of_nat n :: u32) < 10 \<longleftrightarrow> n < 10"
    using assms u by (simp_all add: word_le_nat_alt word_less_nat_alt)
  moreover have "u32_char (of_nat n + 48) = char_of (n + 48)"
    using assms u by (simp add: u32_char_def unat_plus_u32)
  moreover have "\<not> n < 10 \<Longrightarrow> u32_char (of_nat n - 10 + 97) = char_of (n - 10 + 97)"
    using assms u by (simp add: u32_char_def unat_plus_u32 unat_minus_u32)
  ultimately have "emit_hex_digit (of_nat n) = (\<lambda>b. bputc b (hexd n))"
    by (intro ext) (simp add: emit_hex_digit_def hexd_def)
  then show ?thesis by (simp add: bputc_emits)
qed

lemma nibbles:
  assumes "k < 256"
  shows "drop_bit 4 (of_nat k :: u32) = of_nat (k div 16)" and "(of_nat k :: u32) AND 0xf = of_nat (k mod 16)"
proof -
  have u: "unat (of_nat k :: u32) = k" using assms by (intro unat_of_nat_u32) simp
  have "unat (drop_bit 4 (of_nat k :: u32)) = k div 16"
    using u by (simp add: drop_bit_eq_div unat_div)
  then show "drop_bit 4 (of_nat k :: u32) = of_nat (k div 16)"
    by (rule u32_of_unat)
  have m: "(0xf :: u32) = mask 4" by (simp add: mask_eq_exp_minus_1)
  have "unat ((of_nat k :: u32) AND 0xf) = k mod 16"
    using u unfolding m by (simp flip: take_bit_eq_mask add: unsigned_take_bit_eq take_bit_eq_mod unat_mod)
  then show "(of_nat k :: u32) AND 0xf = of_nat (k mod 16)"
    by (rule u32_of_unat)
qed

lemma of_char_less: "of_char c < (256 :: nat)"
  by (metis nat_of_char_less_256)

lemma of_char_div_16: "of_char c div 16 < (16 :: nat)"
  using of_char_less [of c] by linarith

definition hex2 :: "char \<Rightarrow> cstring" where
  "hex2 c = [hexd (of_char c div 16), hexd (of_char c mod 16)]"

lemma emit_hex2:
  fixes c :: char
  defines "ch \<equiv> of_nat (of_char c) :: u32"
  shows "cb.emits (\<lambda>b. emit_hex_digit (ch AND 0xf) (emit_hex_digit (drop_bit 4 ch) b)) (hex2 c)"
proof -
  have "of_char c div 16 < (16 :: nat)" by (rule of_char_div_16)
  then show ?thesis
    using cb.emits_comp [OF emit_hex_digit_emits emit_hex_digit_emits, of "of_char c div 16" "of_char c mod 16"]
      nibbles [OF of_char_less [of c]]
    by (simp add: ch_def hex2_def)
qed

text \<open>Decoding two hex digits gives the character back.\<close>

lemma decode_hex2:
  assumes "c \<noteq> NUL" and "x = CHR ''x'' \<or> x = CHR ''X''"
  shows "decode_hex_escape (x # hex2 c @ t) b = (hexd (of_char c mod 16) # t, bputc b c)"
proof -
  let ?hi = "of_char c div 16 :: nat" and ?lo = "of_char c mod 16 :: nat"
  have hi: "?hi < 16" and lo: "?lo < 16" by (simp_all add: of_char_div_16)
  have "unat ((of_nat ?hi :: u32) * 16 + of_nat ?lo) = ?hi * 16 + ?lo"
    using hi lo by (simp add: unat_word_ariths unat_of_nat take_bit_nat_eq_self)
  then have "u32_char ((of_nat ?hi :: u32) * 16 + of_nat ?lo) = c"
    by (simp add: u32_char_def)
  then show ?thesis
    using hexd_props [OF hi] hexd_props [OF lo] assms
    by (auto simp: decode_hex_escape_def hex2_def Let_def)
qed

section \<open>C string literals\<close>

definition c_special :: "char \<Rightarrow> char option" where
  "c_special = map_of [(DQUOTE, DQUOTE), (CHR 0x07, CHR ''a''), (CHR 0x08, CHR ''b''),
     (CHR 0x0C, CHR ''f''), (CHR 0x0A, CHR ''n''), (CHR 0x0D, CHR ''r''), (CHR 0x09, CHR ''t''),
     (CHR 0x0B, CHR ''v''), (BSLASH, BSLASH)]"

definition c_lit :: "char \<Rightarrow> cstring" where
  "c_lit c = (case c_special c of
       Some e \<Rightarrow> [BSLASH, e]
     | None \<Rightarrow> if schar c < 32 then BSLASH # CHR ''x'' # hex2 c else [c])"

lemma c_special_Some: "c_special c = Some e \<Longrightarrow> c_escape e = c \<and> e \<noteq> CHR ''x'' \<and> e \<noteq> NUL"
  by (auto simp: c_special_def c_escape_def split: if_splits)

lemma c_special_None: "c_special c = None \<Longrightarrow> c \<noteq> DQUOTE \<and> c \<noteq> BSLASH"
  by (auto simp: c_special_def split: if_splits)

lemma hex_escape_emits:
  "cb.emits (\<lambda>b. emit_hex_digit (char_u32 c AND 0xf)
       (emit_hex_digit (drop_bit 4 (char_u32 c)) (bprintf b s))) (s @ hex2 c)"
  using cb.emits_comp [OF cb.emits_put emit_hex2 [of c], of "s @ hex2 c" s]
  by (simp add: char_u32_of_char)

lemma encode_c_char_emits [emit_intros]:
  "cb.emits (cg_encode_char_as_c_string_literal c) (c_lit c)"
proof (cases "c_special c")
  case (Some e)
  then have "cg_encode_char_as_c_string_literal c = (\<lambda>b. bputc (bputc b BSLASH) e)"
    by (auto simp: cg_encode_char_as_c_string_literal_def c_special_def split: if_splits)
  then show ?thesis using Some by (simp add: c_lit_def bputc2_emits)
next
  case None
  then show ?thesis
    using hex_escape_emits [of c "[BSLASH, CHR ''x'']"] bputc_emits [of c]
    by (simp add: cg_encode_char_as_c_string_literal_def [abs_def] c_lit_def c_special_def
        Let_def split: if_splits)
qed

lemma encode_c_loop_emits:
  "cstr s \<Longrightarrow> cb.emits (encode_c_loop s) (concat (map c_lit s))"
proof (induction s)
  case Nil
  have "encode_c_loop [] = (\<lambda>b. b)" by (rule ext) (simp add: encode_c_loop.simps)
  then show ?case by (simp add: cb.emits_id)
next
  case (Cons c s)
  have "encode_c_loop (c # s) = (\<lambda>b. encode_c_loop s (cg_encode_char_as_c_string_literal c b))"
    using Cons.prems by (intro ext, subst encode_c_loop.simps) simp
  then show ?case
    using cb.emits_comp [OF encode_c_char_emits [of c] Cons.IH] Cons.prems by simp
qed

lemma cg_encode_c_string_literal_emits:
  assumes "cstr s"
  shows "cb.emits (cg_encode_c_string_literal s) (DQUOTE # concat (map c_lit s) @ [DQUOTE])"
proof -
  have "cb.emits (\<lambda>b. encode_c_loop s (bputc b DQUOTE)) (DQUOTE # concat (map c_lit s))"
    by (rule cb.emits_comp [OF bputc_emits encode_c_loop_emits]) (use assms in simp_all)
  from cb.emits_comp [OF this bputc_emits] show ?thesis
    by (simp add: cg_encode_c_string_literal_def [abs_def] Let_def)
qed

text \<open>One encoded character is consumed as a whole and gives the character back.\<close>

lemma decode_c_loop_lit:
  assumes "c \<noteq> NUL"
  shows "decode_c_loop (c_lit c @ t) b = decode_c_loop t (bputc b c)"
proof (cases "c_special c")
  case (Some e)
  then show ?thesis
    using c_special_Some [OF Some] by (subst decode_c_loop.simps) (simp add: c_lit_def Let_def)
next
  case None
  note nq = c_special_None [OF None]
  show ?thesis
  proof (cases "schar c < 32")
    case True
    then show ?thesis
      using None decode_hex2 [OF assms, of "CHR ''x''" t b]
      by (subst decode_c_loop.simps) (simp add: c_lit_def Let_def)
  next
    case False
    then show ?thesis using None nq assms by (subst decode_c_loop.simps) (simp add: c_lit_def)
  qed
qed

lemma decode_c_loop_emits:
  "cstr s \<Longrightarrow> cb.emits (\<lambda>b. snd (decode_c_loop (concat (map c_lit s) @ DQUOTE # t) b)) s \<and>
     (\<forall>b. fst (decode_c_loop (concat (map c_lit s) @ DQUOTE # t) b) = DQUOTE # t)"
proof (induction s)
  case Nil
  show ?case by (simp add: decode_c_loop.simps cb.emits_id)
next
  case (Cons c s)
  then have "cb.emits (\<lambda>b. snd (decode_c_loop (concat (map c_lit s) @ DQUOTE # t) (bputc b c))) ([c] @ s)"
    by (intro cb.emits_comp [OF bputc_emits]) auto
  then show ?case using Cons decode_c_loop_lit [of c "concat (map c_lit s) @ DQUOTE # t"] by simp
qed

section \<open>Writing inside the text\<close>

lemma cwrite_inside:
  assumes "charbuf_inv b" and "off + length s \<le> length (buf_text b)"
  shows "charbuf_inv (cwrite b off s)"
    and "buf_text (cwrite b off s) = take off (buf_text b) @ s @ drop (off + length s) (buf_text b)"
proof -
  note d = charbuf_invD [OF assms(1)]
  let ?t = "take off (buf_text b) @ s @ drop (off + length s) (buf_text b)"
  have h: "mem_holds (cblock (cwrite b off s)) (?t @ [NUL])"
    "mem_size (cblock (cwrite b off s)) = unat (cmax b)"
    using mem_holds_store [OF d(1), of off s "?t @ [NUL]"] assms(2) mem_holds_size [OF d(1)] d(3)
    by simp_all
  show "charbuf_inv (cwrite b off s)" and "buf_text (cwrite b off s) = ?t"
    using charbuf_invI [OF h(1)] h(2) assms(2) d(2) by simp_all
qed

lemma cmemmove_eq:
  assumes "charbuf_inv b" and "src + n \<le> length (buf_text b)"
  shows "cmemmove b dst src n = cwrite b dst (take n (drop src (buf_text b)))"
  using mem_holds_load_at [OF charbuf_invD(1) [OF assms(1)], of src n] assms(2)
  by (simp add: cmemmove_def cwrite_def)

lemma cread_inside:
  assumes "charbuf_inv b" and "i < length (buf_text b)"
  shows "cread b i = Some (buf_text b ! i)"
proof -
  have "mem_holds (cblock b) (buf_text b)"
    using mem_holds_prefix [OF charbuf_invD(1) [OF assms(1)]] .
  then have "mem_load (cblock b) i 1 = Some (map Some (take 1 (drop i (buf_text b))))"
    by (rule mem_holds_load_at) (use assms(2) in simp)
  moreover have "take 1 (drop i (buf_text b)) = [buf_text b ! i]"
    using Cons_nth_drop_Suc [OF assms(2)] by (metis One_nat_def take0 take_Suc_Cons)
  ultimately show ?thesis by (simp add: cread_def)
qed

lemma cread_last:
  assumes "charbuf_inv b" and "buf_text b = t @ [c]"
  shows "cread b (unat (cused b - 2)) = Some c"
proof -
  have "unat (cused b) = length t + 2" using charbuf_invD(2) [OF assms(1)] assms(2) by simp
  then have "unat (cused b - 2) = length t" by (subst unat_minus_u32) auto
  then show ?thesis using cread_inside [OF assms(1), of "length t"] assms(2) by simp
qed

section \<open>Back-quoted identifiers\<close>

text \<open>
  A well-formed back-quoted identifier with the given name doubles every back-quote of the name.
\<close>

definition bq_escape :: "cstring \<Rightarrow> cstring" where
  "bq_escape s = concat (map (\<lambda>c. if c = BQUOTE then [BQUOTE, BQUOTE] else [c]) s)"

definition qenc :: "cstring \<Rightarrow> cstring" where
  "qenc s = concat (map (\<lambda>c. if qstr_plain c then [c] else CHR ''X'' # hex2 c) s)"

lemma qstr_plain_facts: "\<not> qstr_plain BQUOTE" "\<not> qstr_plain CHR ''X''" "\<not> qstr_plain NUL"
  by (simp_all add: qstr_plain_def)

lemma bq_escape_simps [simp]:
  "bq_escape [] = []"
  "bq_escape (c # s) = (if c = BQUOTE then [BQUOTE, BQUOTE] else [c]) @ bq_escape s"
  by (simp_all add: bq_escape_def)

lemma qenc_simps [simp]:
  "qenc [] = []"
  "qenc (c # s) = (if qstr_plain c then [c] else CHR ''X'' # hex2 c) @ qenc s"
  by (simp_all add: qenc_def)

lemma encode_qstr_step:
  assumes "c \<noteq> NUL"
  shows "encode_qstr_loop (bq_escape (c # s) @ t) (length (bq_escape (c # s))) h b =
    encode_qstr_loop (bq_escape s @ t) (length (bq_escape s)) (h \<or> \<not> qstr_plain c)
      (if qstr_plain c then bputc b c
       else let ch = of_nat (of_char c) :: u32 in
         emit_hex_digit (ch AND 0xf) (emit_hex_digit (drop_bit 4 ch) (bputc b CHR ''X'')))"
  using qstr_plain_facts
  by (subst encode_qstr_loop.simps) (cases "c = BQUOTE"; simp add: Let_def)

lemma qstr_char_emits:
  "cb.emits (\<lambda>b. if qstr_plain c then bputc b c
       else let ch = of_nat (of_char c) :: u32 in
         emit_hex_digit (ch AND 0xf) (emit_hex_digit (drop_bit 4 ch) (bputc b CHR ''X'')))
     (if qstr_plain c then [c] else CHR ''X'' # hex2 c)"
  using cb.emits_comp [OF bputc_emits emit_hex2 [of c], of "CHR ''X'' # hex2 c" "CHR ''X''"]
  by (simp add: bputc_emits Let_def)

lemma encode_qstr_loop_emits:
  "cstr s \<Longrightarrow>
     cb.emits (\<lambda>b. snd (encode_qstr_loop (bq_escape s @ t) (length (bq_escape s)) h b)) (qenc s) \<and>
     (\<forall>b. fst (encode_qstr_loop (bq_escape s @ t) (length (bq_escape s)) h b) =
            (h \<or> \<not> list_all qstr_plain s))"
proof (induction s arbitrary: h)
  case Nil
  show ?case by (simp add: encode_qstr_loop.simps cb.emits_id)
next
  case (Cons c s)
  then have c: "c \<noteq> NUL" and s: "cstr s" by auto
  note IH = Cons.IH [OF s, of "h \<or> \<not> qstr_plain c"]
  show ?case
    unfolding encode_qstr_step [OF c] qenc_simps
    using cb.emits_comp [OF qstr_char_emits conjunct1 [OF IH] refl] IH by simp
qed

lemma insert_prefix_emits:
  assumes "cb.emits f e"
  shows "cb.emits (\<lambda>b. let b' = bputc (bputc (f b) CHR ''$'') CHR ''$'';
       b' = cmemmove b' (unat (cused b + 1)) (unat (cused b - 1)) (unat (cused b' - cused b - 2));
       b' = cwrite b' (unat (cused b - 1)) ''X''
     in cwrite b' (unat (cused b)) ''_'') (''X_'' @ e)"
proof (rule cb.emitsI)
  fix b n
  assume r: "charbuf_ready (length (''X_'' @ e) + n) b"
  let ?t = "buf_text b"
  let ?b1 = "bputc (bputc (f b) CHR ''$'') CHR ''$''"
  have em: "cb.emits (\<lambda>b. bputc (bputc (f b) CHR ''$'') CHR ''$'') (e @ ''$$'')"
    by (rule cb.emits_comp [OF assms bputc2_emits refl])
  have b1: "charbuf_ready n ?b1" "buf_text ?b1 = ?t @ e @ ''$$''"
    using cb.emits_ready [OF em, of n b] cb.emits_contents [OF em, of b] r cb.ready_mono [of _ b]
    by (simp_all add: add.commute)
  have i1: "charbuf_inv ?b1" using b1(1) by (simp add: charbuf_ready_def)
  have u: "unat (cused b) = length ?t + 1" "unat (cused b - 1) = length ?t"
    using r charbuf_invD(2,5) [of b] by (simp_all add: charbuf_ready_def)
  have u1: "unat (cused ?b1) = length ?t + length e + 3"
    using charbuf_invD(2) [OF i1] b1(2) by simp
  have u2: "unat (cused b + 1) = length ?t + 2"
    using u(1) u1 unat_u32_bound [of "cused ?b1"] by (subst unat_plus_u32) auto
  have u3: "unat (cused ?b1 - cused b - 2) = length e"
    using u(1) u1 by (simp add: unat_minus_u32)
  define b2 where "b2 = cmemmove ?b1 (length ?t + 2) (length ?t) (length e)"
  have m: "b2 = cwrite ?b1 (length ?t + 2) e"
    unfolding b2_def using cmemmove_eq [OF i1, of "length ?t" "length e"] b1(2) by simp
  have i2: "charbuf_inv b2" "buf_text b2 = ?t @ take 2 (e @ ''$$'') @ e"
    using cwrite_inside [OF i1, of "length ?t + 2" e] b1(2) by (simp_all add: m)
  define b3 where "b3 = cwrite b2 (length ?t) ''X''"
  have i3: "charbuf_inv b3" "buf_text b3 = ?t @ ''X'' @ drop 1 (take 2 (e @ ''$$'')) @ e"
    using cwrite_inside [OF i2(1), of "length ?t" "''X''"] i2(2) by (simp_all add: b3_def)
  have i4: "charbuf_inv (cwrite b3 (length ?t + 1) ''_'')"
    "buf_text (cwrite b3 (length ?t + 1) ''_'') = ?t @ ''X_'' @ e"
    using cwrite_inside [OF i3(1), of "length ?t + 1" "''_''"] i3(2) by simp_all
  have "cused (cwrite b3 (length ?t + 1) ''_'') = cused ?b1"
    by (simp add: b3_def m)
  then have "charbuf_ready n (cwrite b3 (length ?t + 1) ''_'')"
    using b1(1) i4(1) by (simp add: charbuf_ready_def)
  then show "charbuf_ready n (let b' = ?b1;
       b' = cmemmove b' (unat (cused b + 1)) (unat (cused b - 1)) (unat (cused b' - cused b - 2));
       b' = cwrite b' (unat (cused b - 1)) ''X''
     in cwrite b' (unat (cused b)) ''_'') \<and>
    buf_text (let b' = ?b1;
       b' = cmemmove b' (unat (cused b + 1)) (unat (cused b - 1)) (unat (cused b' - cused b - 2));
       b' = cwrite b' (unat (cused b - 1)) ''X''
     in cwrite b' (unat (cused b)) ''_'') = ?t @ ''X_'' @ e"
    unfolding Let_def u2 u3 u b2_def [symmetric] b3_def [symmetric] using i4(2) by simp
qed

lemma bq_escape_cstr [simp]: "cstr (bq_escape s) \<longleftrightarrow> cstr s"
  by (induction s) auto

lemma bq_escape_nonempty: "s \<noteq> [] \<Longrightarrow> 1 \<le> length (bq_escape s)"
  by (cases s) auto

lemma cg_encode_qstr_emits:
  assumes "cstr s" and "s \<noteq> []"
  shows "cb.emits (\<lambda>b. cg_encode_qstr b (BQUOTE # bq_escape s @ [BQUOTE]))
     ((if list_all qstr_plain s then [] else ''X_'') @ qenc s)"
proof -
  let ?q = "BQUOTE # bq_escape s @ [BQUOTE]"
  let ?f = "\<lambda>b. snd (encode_qstr_loop (bq_escape s @ [BQUOTE]) (length (bq_escape s)) False b)"
  note loop = encode_qstr_loop_emits [OF assms(1), of "[BQUOTE]" False]
  have v: "cview ?q = ?q" using assms(1) by (intro cview_cstr) simp
  have len: "length ?q - 2 = length (bq_escape s)" and l3: "3 \<le> length ?q"
    and lst: "drop (length ?q - 1) ?q = [BQUOTE]"
    using bq_escape_nonempty [OF assms(2)] by simp_all
  have enc: "cg_encode_qstr b ?q =
      (if list_all qstr_plain s then ?f b
       else let b' = bputc (bputc (?f b) CHR ''$'') CHR ''$'';
           b' = cmemmove b' (unat (cused b + 1)) (unat (cused b - 1)) (unat (cused b' - cused b - 2));
           b' = cwrite b' (unat (cused b - 1)) ''X''
         in cwrite b' (unat (cused b)) ''_'')" for b
    using loop l3 lst len unfolding cg_encode_qstr_def v
    by (simp add: Let_def case_prod_beta)
  show ?thesis
    unfolding enc using insert_prefix_emits [OF conjunct1 [OF loop]] loop
    by (cases "list_all qstr_plain s") simp_all
qed

lemma double_bq_emits:
  "cb.emits (\<lambda>b. let b' = bputc b c in
       case cread b' (unat (cused b' - 2)) of
         None \<Rightarrow> cfault b'
       | Some d \<Rightarrow> if d = BQUOTE then bputc b' BQUOTE else b')
     (if c = BQUOTE then [BQUOTE, BQUOTE] else [c])"
proof -
  have eq: "cread (bputc b c) (unat (cused (bputc b c) - 2)) = Some c" if "charbuf_ready 1 b" for b
    using bputc_spec [OF that] by (intro cread_last) auto
  have "cb.emits (\<lambda>b. if c = BQUOTE then bputc (bputc b c) BQUOTE else bputc b c)
      (if c = BQUOTE then [BQUOTE, BQUOTE] else [c])"
    using bputc2_emits [of BQUOTE BQUOTE] bputc_emits [of c] by simp
  then show ?thesis
  proof (rule cb.emits_cong)
    fix b
    assume "charbuf_ready (length (if c = BQUOTE then [BQUOTE, BQUOTE] else [c])) b"
    then have "charbuf_ready 1 b" by (rule cb.ready_mono) simp
    from eq [OF this]
    show "(let b' = bputc b c in case cread b' (unat (cused b' - 2)) of
         None \<Rightarrow> cfault b' | Some d \<Rightarrow> if d = BQUOTE then bputc b' BQUOTE else b') =
        (if c = BQUOTE then bputc (bputc b c) BQUOTE else bputc b c)"
      by (simp add: Let_def)
  qed
qed

lemma decode_qstr_step:
  assumes "c \<noteq> NUL"
  shows "decode_qstr_loop quoted (qenc (c # s)) b = decode_qstr_loop quoted (qenc s)
     (if qstr_plain c \<or> \<not> quoted then bputc b c
      else let b' = bputc b c in case cread b' (unat (cused b' - 2)) of
         None \<Rightarrow> cfault b' | Some d \<Rightarrow> if d = BQUOTE then bputc b' BQUOTE else b')"
  using assms qstr_plain_facts decode_hex2 [OF assms, of "CHR ''X''" "qenc s" b]
  by (subst decode_qstr_loop.simps) (auto simp: Let_def)

lemma decode_qstr_loop_emits:
  "cstr s \<Longrightarrow> cb.emits (decode_qstr_loop quoted (qenc s)) (if quoted then bq_escape s else s)"
proof (induction s)
  case Nil
  have "decode_qstr_loop quoted (qenc []) = (\<lambda>b. b)"
    by (rule ext) (simp add: decode_qstr_loop.simps)
  then show ?case by (simp add: cb.emits_id)
next
  case (Cons c s)
  let ?one = "if quoted \<and> c = BQUOTE then [BQUOTE, BQUOTE] else [c]"
  let ?f = "\<lambda>b. if qstr_plain c \<or> \<not> quoted then bputc b c
      else let b' = bputc b c in case cread b' (unat (cused b' - 2)) of
         None \<Rightarrow> cfault b' | Some d \<Rightarrow> if d = BQUOTE then bputc b' BQUOTE else b'"
  have "cb.emits ?f ?one"
    using double_bq_emits [of c] bputc_emits [of c] qstr_plain_facts(1)
    by (cases "qstr_plain c \<or> \<not> quoted") auto
  from cb.emits_comp [OF this Cons.IH refl] Cons.prems
  have "cb.emits (\<lambda>b. decode_qstr_loop quoted (qenc s) (?f b))
      (?one @ (if quoted then bq_escape s else s))" by simp
  moreover have "decode_qstr_loop quoted (qenc (c # s)) =
      (\<lambda>b. decode_qstr_loop quoted (qenc s) (?f b))"
    using decode_qstr_step [of c quoted s] Cons.prems by (intro ext) simp
  moreover have "?one @ (if quoted then bq_escape s else s) =
      (if quoted then bq_escape (c # s) else c # s)" by simp
  ultimately show ?case by (simp only:)
qed

lemma plain_qenc: "list_all qstr_plain s \<Longrightarrow> qenc s = s \<and> bq_escape s = s \<and> chead s \<noteq> CHR ''X''"
  using qstr_plain_facts by (induction s) auto

text \<open>The encoded form of an identifier, as \<open>cg_encode_qstr\<close> writes it.\<close>

definition encoded_name :: "cstring \<Rightarrow> cstring" where
  "encoded_name s = (if list_all qstr_plain s then [] else ''X_'') @ qenc s"

lemma encoded_name_cstr: "cstr s \<Longrightarrow> cstr (qenc s)"
  using hexd_props(3) of_char_div_16 by (induction s) (auto simp: hex2_def)

lemma cg_decode_qstr_emits:
  assumes "cstr s"
  shows "cb.emits (\<lambda>b. cg_decode_qstr b (encoded_name s)) (BQUOTE # bq_escape s @ [BQUOTE])"
proof (cases "list_all qstr_plain s")
  case True
  then show ?thesis
    using plain_qenc [OF True] assms cb.emits_put [of "BQUOTE # s @ [BQUOTE]"]
    by (simp add: cg_decode_qstr_def encoded_name_def)
next
  case False
  have "cb.emits (\<lambda>b. decode_qstr_loop True (qenc s) (bputc b BQUOTE)) (BQUOTE # bq_escape s)"
    by (rule cb.emits_comp [OF bputc_emits decode_qstr_loop_emits [OF assms]]) simp
  from cb.emits_comp [OF this bputc_emits] False show ?thesis
    by (simp add: cg_decode_qstr_def encoded_name_def)
qed

lemma cg_unquote_encoded_qstr_emits:
  assumes "cstr s"
  shows "cb.emits (\<lambda>b. cg_unquote_encoded_qstr b (encoded_name s)) s"
proof (cases "list_all qstr_plain s")
  case True
  then show ?thesis
    using plain_qenc [OF True] assms cb.emits_put [of s]
    by (simp add: cg_unquote_encoded_qstr_def encoded_name_def)
next
  case False
  then show ?thesis
    using decode_qstr_loop_emits [OF assms, of False]
    by (simp add: cg_unquote_encoded_qstr_def encoded_name_def)
qed

section \<open>Comment scrubbing\<close>

fun scrub :: "cstring \<Rightarrow> cstring" where
  "scrub (a # b # s) =
     (if a = CHR ''*'' \<and> b = CHR ''/'' then CHR ''+'' # scrub (b # s)
      else if a = CHR ''/'' \<and> b = CHR ''*'' then a # scrub (CHR ''+'' # s)
      else a # scrub (b # s))"
| "scrub s = s"

fun no_marker :: "cstring \<Rightarrow> bool" where
  "no_marker (a # b # s) \<longleftrightarrow>
     \<not> (a = CHR ''*'' \<and> b = CHR ''/'') \<and> \<not> (a = CHR ''/'' \<and> b = CHR ''*'') \<and> no_marker (b # s)"
| "no_marker s \<longleftrightarrow> True"

lemma scrub_head: "\<exists>h t. scrub (b # s) = h # t \<and> (h = b \<or> h = CHR ''+'')"
  by (cases s) auto

lemma no_marker_Cons:
  "no_marker (h # t) \<Longrightarrow> \<not> (a = CHR ''*'' \<and> h = CHR ''/'') \<Longrightarrow> \<not> (a = CHR ''/'' \<and> h = CHR ''*'') \<Longrightarrow>
     no_marker (a # h # t)"
  by simp

lemma scrub_no_marker: "no_marker (scrub s)"
proof (induction s rule: scrub.induct)
  case (1 a b s)
  show ?case
  proof (cases "a = CHR ''*'' \<and> b = CHR ''/''")
    case True
    then show ?thesis using 1(1) scrub_head [of b s] by (auto intro: no_marker_Cons)
  next
    case False
    note f = this
    show ?thesis
    proof (cases "a = CHR ''/'' \<and> b = CHR ''*''")
      case True
      then show ?thesis
        using 1(2) scrub_head [of "CHR ''+''" s] by (auto intro: no_marker_Cons)
    next
      case False
      with f 1(3) obtain h t where "scrub (b # s) = h # t" "h = b \<or> h = CHR ''+''" "no_marker (h # t)"
        using scrub_head [of b s] by auto
      with f False show ?thesis by (auto intro: no_marker_Cons)
    qed
  qed
qed auto

lemma scrub_changes_only_markers:
  "list_all2 (\<lambda>x y. y = x \<or> (x = CHR ''*'' \<or> x = CHR ''/'') \<and> y = CHR ''+'') s (scrub s)"
proof (induction s rule: scrub.induct)
  case (1 a b s)
  then show ?case by (auto simp: list_all2_Cons1)
qed auto

lemma scrub_step_text:
  assumes "charbuf_inv b" and "buf_text b = done @ x # y # s" and "i = length done"
  shows "charbuf_inv (scrub_step i b) \<and> cused (scrub_step i b) = cused b \<and>
    buf_text (scrub_step i b) =
      (if x = CHR ''*'' \<and> y = CHR ''/'' then done @ CHR ''+'' # y # s
       else if x = CHR ''/'' \<and> y = CHR ''*'' then done @ x # CHR ''+'' # s
       else done @ x # y # s)"
proof -
  have r: "cread b i = Some x" "cread b (i + 1) = Some y"
    using cread_inside [OF assms(1), of i] cread_inside [OF assms(1), of "i + 1"] assms(2,3)
    by (simp_all add: nth_append)
  have w0: "charbuf_inv (cwrite b i ''+'')" "buf_text (cwrite b i ''+'') = done @ CHR ''+'' # y # s"
    using cwrite_inside [OF assms(1), of i "''+''"] assms(2,3) by simp_all
  have w1: "charbuf_inv (cwrite b (i + 1) ''+'')"
    "buf_text (cwrite b (i + 1) ''+'') = done @ x # CHR ''+'' # s"
    using cwrite_inside [OF assms(1), of "i + 1" "''+''"] assms(2,3) by simp_all
  show ?thesis
    using r w0 w1 assms(1,2) by (auto simp: scrub_step_def)
qed

lemma scrub_loop_text:
  "charbuf_inv b \<Longrightarrow> buf_text b = done @ rest \<Longrightarrow> i = length done \<Longrightarrow> n = length rest - 1 \<Longrightarrow>
     charbuf_inv (scrub_loop n i b) \<and> buf_text (scrub_loop n i b) = done @ scrub rest"
proof (induction n arbitrary: b "done" rest i)
  case 0
  then show ?case by (cases rest rule: scrub.cases) auto
next
  case (Suc n)
  then obtain x y s where rest: "rest = x # y # s" by (cases rest rule: scrub.cases) auto
  let ?x = "if x = CHR ''*'' \<and> y = CHR ''/'' then CHR ''+'' else x"
  let ?y = "if x = CHR ''/'' \<and> y = CHR ''*'' then CHR ''+'' else y"
  have st: "charbuf_inv (scrub_step i b)" "buf_text (scrub_step i b) = (done @ [?x]) @ ?y # s"
    using scrub_step_text [of b "done" x y s i] Suc.prems rest by auto
  have "scrub rest = ?x # scrub (?y # s)" using rest by auto
  then show ?case
    using Suc.IH [OF st, of "Suc i"] Suc.prems(3,4) rest by simp
qed

text \<open>Past the end of the block the loop faults, and it does not recover.\<close>

lemma scrub_step_fault:
  "mem_size (cblock (scrub_step i b)) \<le> mem_size (cblock b)" "mem_size (cblock b) \<le> i \<Longrightarrow> cblock (scrub_step i b) = Fault"
proof -
  have store: "mem_size (mem_store m off (Some ys)) \<le> mem_size m" for m :: "char mem" and off ys
    by (cases "mem_store m off (Some ys) = Fault") simp_all
  show "mem_size (cblock (scrub_step i b)) \<le> mem_size (cblock b)"
    using store by (auto simp: scrub_step_def cfault_def split: option.split)
  assume "mem_size (cblock b) \<le> i"
  then have "cread b i = None" by (cases "cblock b") (simp_all add: cread_def)
  then show "cblock (scrub_step i b) = Fault" by (simp add: scrub_step_def cfault_def)
qed

lemma scrub_loop_fault: "mem_size (cblock b) < i + n \<Longrightarrow> 0 < n \<Longrightarrow> cblock (scrub_loop n i b) = Fault"
proof (induction n arbitrary: b i)
  case (Suc n)
  show ?case
  proof (cases "mem_size (cblock b) \<le> i")
    case True
    then have "cblock (scrub_step i b) = Fault" by (rule scrub_step_fault(2))
    then show ?thesis using Suc.IH [of "scrub_step i b" "Suc i"] by (cases n) simp_all
  next
    case False
    then have "0 < n" "mem_size (cblock (scrub_step i b)) < Suc i + n"
      using Suc.prems(1) scrub_step_fault(1) [of i b] by linarith+
    then show ?thesis using Suc.IH by simp
  qed
qed simp

section \<open>Properties\<close>

text \<open>
  C28. Encoding a text as an SQL string literal and decoding that literal gives the text back, for
  every text: a single quote is doubled by \<open>cg_encode_string_literal\<close> and halved again by
  \<open>cg_decode_string_literal\<close>.
\<close>

theorem string_literal_round_trip:
  assumes "cstr s" and "charbuf_ready (length (sql_escape s) + 2) b" and "buf_text b = []"
    and "charbuf_ready (length s) b'"
  shows "buf_text (cg_decode_string_literal (buf_text (cg_encode_string_literal s b)) b') =
    buf_text b' @ s"
proof -
  have "buf_text (cg_encode_string_literal s b) = SQUOTE # sql_escape s @ [SQUOTE]"
    using cb.emits_contents [OF cg_encode_string_literal_emits [OF assms(1)]] assms(2,3) by simp
  then show ?thesis
    using cb.emits_contents [OF decode_string_loop_emits [OF assms(1), of "[]"] assms(4)]
    by (simp add: cg_decode_string_literal_def)
qed

lemma fresh_ready: "2 * (1 + n) + 1024 < 2 ^ 32 \<Longrightarrow> charbuf_ready n (snd (bopen k raw_charbuf))"
  using bopen_inv [of k] by (simp add: charbuf_ready_def) (simp add: bopen_def bclear_def)

lemma fresh_text: "buf_text (snd (bopen k raw_charbuf)) = []"
  by (rule bopen_inv(2))

theorem string_literal_round_trip_witness:
  "buf_text (cg_decode_string_literal
     (buf_text (cg_encode_string_literal (''it'' @ [SQUOTE] @ ''s'') (snd (bopen 0 raw_charbuf))))
     (snd (bopen 0 raw_charbuf))) = ''it'' @ [SQUOTE] @ ''s''"
proof -
  have c: "cstr (''it'' @ [SQUOTE] @ ''s'')" by code_simp
  have l: "length (sql_escape (''it'' @ [SQUOTE] @ ''s'')) + 2 = 7" by code_simp
  show ?thesis
    by (rule string_literal_round_trip [OF c _ fresh_text fresh_ready, unfolded fresh_text append_Nil])
      (simp_all only: l, rule fresh_ready, simp_all)
qed

text \<open>
  Encoding a text as a C string literal and decoding that literal gives the text back, for
  every text, including control characters and bytes above 0x7f, which travel as hex escapes; the
  decoder's contracts hold on every encoded literal.
\<close>

theorem c_string_literal_round_trip:
  assumes "cstr s" and "charbuf_ready (length (concat (map c_lit s)) + 2) b" and "buf_text b = []"
    and "charbuf_ready (length s) b'"
  shows "buf_text (cg_decode_c_string_literal (buf_text (cg_encode_c_string_literal s b)) b') =
    buf_text b' @ s"
proof -
  have e: "buf_text (cg_encode_c_string_literal s b) = DQUOTE # concat (map c_lit s) @ [DQUOTE]"
    using cb.emits_contents [OF cg_encode_c_string_literal_emits [OF assms(1)]] assms(2,3) by simp
  note d = decode_c_loop_emits [OF assms(1), of "[]"]
  show ?thesis
    using cb.emits_contents [OF conjunct1 [OF d] assms(4)] d
    by (simp add: e cg_decode_c_string_literal_def case_prod_beta)
qed

theorem c_string_literal_round_trip_witness:
  "buf_text (cg_decode_c_string_literal
     (buf_text (cg_encode_c_string_literal [CHR ''a'', CHR 0x01, DQUOTE] (snd (bopen 0 raw_charbuf))))
     (snd (bopen 0 raw_charbuf))) = [CHR ''a'', CHR 0x01, DQUOTE]"
proof -
  have c: "cstr [CHR ''a'', CHR 0x01, DQUOTE]" by code_simp
  have l: "length (concat (map c_lit [CHR ''a'', CHR 0x01, DQUOTE])) + 2 = 9" by code_simp
  show ?thesis
    by (rule c_string_literal_round_trip [OF c _ fresh_text fresh_ready, unfolded fresh_text append_Nil])
      (simp_all only: l, rule fresh_ready, simp_all)
qed

text \<open>
  C29. \<open>cg_encode_qstr\<close> turns every back-quoted identifier into a plain identifier from which
  \<open>cg_decode_qstr\<close> rebuilds the original spelling and \<open>cg_unquote_encoded_qstr\<close> the bare name, for
  names with any characters, back-quotes included.
\<close>

theorem qstr_round_trip:
  assumes "cstr name" and "name \<noteq> []"
    and "charbuf_ready (length (encoded_name name)) b" and "buf_text b = []"
    and "charbuf_ready (length (bq_escape name) + 2) b'" and "charbuf_ready (length name) b''"
    and "q = BQUOTE # bq_escape name @ [BQUOTE]"
  shows "buf_text (cg_decode_qstr b' (buf_text (cg_encode_qstr b q))) = buf_text b' @ q \<and>
    buf_text (cg_unquote_encoded_qstr b'' (buf_text (cg_encode_qstr b q))) = buf_text b'' @ name"
proof -
  have e: "buf_text (cg_encode_qstr b q) = encoded_name name"
    using cb.emits_contents [OF cg_encode_qstr_emits [OF assms(1,2)]] assms(3,4)
    by (simp add: assms(7) encoded_name_def)
  show ?thesis
    using cb.emits_contents [OF cg_decode_qstr_emits [OF assms(1)], of b'] assms(5)
      cb.emits_contents [OF cg_unquote_encoded_qstr_emits [OF assms(1)] assms(6)]
    unfolding e by (simp add: assms(7))
qed

theorem qstr_round_trip_witness:
  "buf_text (cg_unquote_encoded_qstr (snd (bopen 0 raw_charbuf))
     (buf_text (cg_encode_qstr (snd (bopen 0 raw_charbuf)) (BQUOTE # ''a b'' @ [BQUOTE])))) = ''a b''"
proof -
  have c: "cstr ''a b''" "''a b'' \<noteq> []" by code_simp+
  have l: "length (encoded_name ''a b'') = 7" "length (bq_escape ''a b'') + 2 = 5" by code_simp+
  have q: "BQUOTE # ''a b'' @ [BQUOTE] = BQUOTE # bq_escape ''a b'' @ [BQUOTE]" by code_simp
  have r: "charbuf_ready (length (encoded_name ''a b'')) (snd (bopen 0 raw_charbuf))"
    "charbuf_ready (length (bq_escape ''a b'') + 2) (snd (bopen 0 raw_charbuf))"
    "charbuf_ready (length ''a b'') (snd (bopen 0 raw_charbuf))"
    by (simp_all only: l, (rule fresh_ready, simp)+)
  show ?thesis
    using conjunct2 [OF qstr_round_trip [OF c r(1) fresh_text r(2,3) q]] by (simp only: fresh_text append_Nil)
qed

text \<open>
  C30. After \<open>cg_remove_slash_star_and_star_slash\<close> a non-empty buffer holds no comment marker: neither
  \<open>*/\<close> nor \<open>/*\<close> occurs in its text, and only characters of such markers were replaced, by \<open>+\<close>.  On an empty
  buffer the bound \<open>used - 2\<close> wraps, and the loop runs out of the block.
\<close>

theorem comment_markers_removed:
  assumes "charbuf_inv b" and "unat (cmax b) < 2 ^ 32 - 1"
  defines "b' \<equiv> cg_remove_slash_star_and_star_slash b"
  shows "if buf_text b = [] then cblock b' = Fault
    else charbuf_inv b' \<and> no_marker (buf_text b') \<and>
      list_all2 (\<lambda>x y. y = x \<or> (x = CHR ''*'' \<or> x = CHR ''/'') \<and> y = CHR ''+'') (buf_text b) (buf_text b')"
proof (cases "buf_text b = []")
  case True
  then have "cused b = 1" using charbuf_invD(2) [OF assms(1)] by (simp add: word_unat_eq_iff)
  then have n: "unat (cused b - 2) = 2 ^ 32 - 1" by (simp add: unsigned_minus_1_eq_mask mask_eq_exp_minus_1)
  have "cblock (scrub_loop (2 ^ 32 - 1) 0 b) = Fault"
    by (rule scrub_loop_fault) (use charbuf_invD(3) [OF assms(1)] assms(2) in simp_all)
  then show ?thesis unfolding b'_def cg_remove_slash_star_and_star_slash_def n using True by (simp only: simp_thms if_True)
next
  case False
  have "unat (cused b) = length (buf_text b) + 1" using charbuf_invD(2) [OF assms(1)] by simp
  moreover have "1 \<le> length (buf_text b)" using False by (simp add: Suc_le_eq)
  ultimately have "unat (cused b - 2) = length (buf_text b) - 1"
    by (subst unat_minus_u32) auto
  then have "charbuf_inv b' \<and> buf_text b' = scrub (buf_text b)"
    using scrub_loop_text [OF assms(1), of "[]" "buf_text b" 0]
    by (simp add: b'_def cg_remove_slash_star_and_star_slash_def)
  then show ?thesis using False scrub_no_marker scrub_changes_only_markers by simp
qed

theorem comment_markers_removed_witness:
  "no_marker (buf_text (cg_remove_slash_star_and_star_slash (bprintf (snd (bopen 0 raw_charbuf)) ''x */ y''))) \<and>
   cblock (cg_remove_slash_star_and_star_slash (snd (bopen 0 raw_charbuf))) = Fault"
proof
  let ?b = "bprintf (snd (bopen 0 raw_charbuf)) ''x */ y''"
  note r = bprintf_spec [OF fresh_ready [of "length ''x */ y''" 0]]
  have "cmax ?b = CHARBUF_INTERNAL_SIZE"
    by (simp add: bprintf_def vbprintf_def Let_def vsnprintf_def bopen_def bclear_def CHARBUF_INTERNAL_SIZE_def)
  then have "unat (cmax ?b) < 2 ^ 32 - 1" by (simp add: CHARBUF_INTERNAL_SIZE_def)
  then show "no_marker (buf_text (cg_remove_slash_star_and_star_slash ?b))"
    using comment_markers_removed [of ?b] r by simp
  have "unat (cmax (snd (bopen 0 raw_charbuf))) < 2 ^ 32 - 1" by (simp add: bopen_def bclear_def CHARBUF_INTERNAL_SIZE_def)
  then show "cblock (cg_remove_slash_star_and_star_slash (snd (bopen 0 raw_charbuf))) = Fault"
    using comment_markers_removed [OF bopen_inv(1) [of 0]] by (simp add: bopen_inv(2))
qed

end
