(* ===== verification/Probing.thy ===== *)
theory Probing
  imports CqlBase
begin

text \<open>
  Linear probing, the search loop that the symbol table of the compiler (\<open>sources/symtab.c\<close>) and
  the hash table of the runtime (\<open>sources/cqlrt_common.c\<close>) have in common, and the interface
  \<open>hashed_keys\<close> of the keys they store.  The theory proves once what both tables rely on: the loop
  ends when a slot is free, it finds a stored key and only that key, and storing a key in the slot
  where the loop stopped disturbs no other key.
\<close>

section \<open>The search loop\<close>

text \<open>
  \<open>probe m ks fuel off\<close> is the loop \<open>for (;;)\<close> of the tables over the keys \<open>ks\<close> of the payload array:
  it stops at the first slot that is free (\<open>None\<close>, the null key of C) or whose key passes \<open>m\<close>, and wraps around at
  the end of the array.  With as many steps as there are slots, \<open>None\<close> says that every slot was
  visited in vain, that is, that the C loop never ends (or, when the offset is outside the array,
  that it reads out of bounds).
\<close>

fun probe :: "('k \<Rightarrow> bool) \<Rightarrow> 'k option list \<Rightarrow> nat \<Rightarrow> nat \<Rightarrow> nat option" where
  "probe m ks 0 off = None"
| "probe m ks (Suc fuel) off =
     (if off < length ks then
        case ks ! off of
          None \<Rightarrow> Some off
        | Some k \<Rightarrow>
            if m k then Some off
            else let off' = off + 1 in
                 probe m ks fuel (if off' \<ge> length ks then 0 else off')
      else None)"

definition stops :: "('k \<Rightarrow> bool) \<Rightarrow> 'k option \<Rightarrow> bool" where
  "stops m c = (case c of None \<Rightarrow> True | Some k \<Rightarrow> m k)"

lemma stops_simps [simp]: "stops m None" "stops m (Some k) \<longleftrightarrow> m k"
  by (simp_all add: stops_def)

lemma probe_Suc:
  assumes "off < length ks"
  shows "probe m ks (Suc fuel) off =
    (if stops m (ks ! off) then Some off else probe m ks fuel ((off + 1) mod length ks))"
proof (cases "off + 1 < length ks")
  case True
  then show ?thesis using assms by (auto split: option.splits)
next
  case False
  with assms have "length ks = Suc off" by simp
  then show ?thesis using assms by (auto split: option.splits)
qed

declare probe.simps(2) [simp del]

lemma mod_step: "((off + 1) mod n + e) mod n = (off + Suc e) mod (n :: nat)"
  by (simp add: mod_add_left_eq)

text \<open>The loop stops at distance \<open>d\<close> exactly when it is the first distance where it may stop.\<close>

lemma probe_Some:
  "off < length ks \<Longrightarrow>
     probe m ks fuel off = Some j \<longleftrightarrow>
       (\<exists>d < fuel. j = (off + d) mod length ks \<and> stops m (ks ! j) \<and>
         (\<forall>e < d. \<not> stops m (ks ! ((off + e) mod length ks))))"
proof (induction fuel arbitrary: off)
  case 0
  then show ?case by simp
next
  case (Suc fuel)
  let ?n = "length ks"
  have off: "off mod ?n = off" using Suc.prems by simp
  have next_ok: "(off + 1) mod ?n < ?n" using Suc.prems by (intro mod_less_divisor) linarith
  show ?case
  proof (cases "stops m (ks ! off)")
    case True
    have "(\<exists>d < Suc fuel. j = (off + d) mod ?n \<and> stops m (ks ! j) \<and>
        (\<forall>e < d. \<not> stops m (ks ! ((off + e) mod ?n)))) \<longleftrightarrow> j = off" (is "?P \<longleftrightarrow> _")
    proof
      assume ?P
      then obtain d where d: "j = (off + d) mod ?n" "\<forall>e < d. \<not> stops m (ks ! ((off + e) mod ?n))"
        by blast
      have "d = 0" using d(2) True off by (cases d) auto
      with d(1) off show "j = off" by simp
    next
      assume "j = off"
      then show ?P using True off by (intro exI [of _ 0]) simp
    qed
    then show ?thesis using True Suc.prems by (auto simp: probe_Suc)
  next
    case False
    have "(\<exists>d < fuel. j = ((off + 1) mod ?n + d) mod ?n \<and> stops m (ks ! j) \<and>
        (\<forall>e < d. \<not> stops m (ks ! (((off + 1) mod ?n + e) mod ?n)))) \<longleftrightarrow>
      (\<exists>d < Suc fuel. j = (off + d) mod ?n \<and> stops m (ks ! j) \<and>
        (\<forall>e < d. \<not> stops m (ks ! ((off + e) mod ?n))))" (is "?L \<longleftrightarrow> ?R")
    proof
      assume ?L
      then obtain d where d: "d < fuel" "j = (off + Suc d) mod ?n" "stops m (ks ! j)"
        "\<forall>e < d. \<not> stops m (ks ! ((off + Suc e) mod ?n))"
        unfolding mod_step by blast
      have "\<not> stops m (ks ! ((off + e) mod ?n))" if "e < Suc d" for e
        using that d(4) False off by (cases e) auto
      with d show ?R by (intro exI [of _ "Suc d"]) simp
    next
      assume ?R
      then obtain d where d: "d < Suc fuel" "j = (off + d) mod ?n" "stops m (ks ! j)"
        "\<forall>e < d. \<not> stops m (ks ! ((off + e) mod ?n))"
        by blast
      then obtain d' where "d = Suc d'" using False off by (cases d) auto
      with d have "d' < fuel" "j = (off + Suc d') mod ?n"
        "\<forall>e < d'. \<not> stops m (ks ! ((off + Suc e) mod ?n))" by auto
      then show ?L unfolding mod_step using d(3) by blast
    qed
    then show ?thesis
      using False Suc.prems Suc.IH [OF next_ok] by (simp add: probe_Suc)
  qed
qed

lemma probe_None:
  "off < length ks \<Longrightarrow> probe m ks fuel off = None \<Longrightarrow> d < fuel \<Longrightarrow> \<not> stops m (ks ! ((off + d) mod length ks))"
proof
  assume a: "off < length ks" "probe m ks fuel off = None" "d < fuel"
    and s: "stops m (ks ! ((off + d) mod length ks))"
  define P where "P d \<longleftrightarrow> stops m (ks ! ((off + d) mod length ks))" for d
  define d' where "d' = (LEAST d. P d)"
  have "P d" using s by (simp add: P_def)
  then have "P d'" "d' \<le> d" unfolding d'_def by (rule LeastI, rule Least_le)
  moreover have "\<not> P e" if "e < d'" for e using that not_less_Least unfolding d'_def by blast
  ultimately have "probe m ks fuel off = Some ((off + d') mod length ks)"
    using a(3) unfolding probe_Some [OF a(1)] P_def by (intro exI [of _ d']) auto
  with a(2) show False by simp
qed

text \<open>With a free slot somewhere the loop ends: a full round meets that slot.\<close>

lemma round_meets:
  assumes "i < n" and "off < (n :: nat)"
  obtains d where "d < n" and "(off + d) mod n = i"
proof (cases "off \<le> i")
  case True
  then show ?thesis using assms that [of "i - off"] by simp
next
  case False
  then have "(off + (i + n - off)) mod n = i" "i + n - off < n" using assms by auto
  then show ?thesis using that by blast
qed

lemma probe_ends:
  assumes "off < length ks" and "None \<in> set ks"
  shows "\<exists>j. probe m ks (length ks) off = Some j"
proof (rule ccontr)
  assume "\<not> ?thesis"
  then have n: "probe m ks (length ks) off = None" by simp
  from assms(2) obtain i where i: "i < length ks" "ks ! i = None" by (metis in_set_conv_nth)
  obtain d where "d < length ks" "(off + d) mod length ks = i" by (rule round_meets [OF i(1) assms(1)])
  with probe_None [OF assms(1) n] i(2) show False by force
qed

lemma probe_bound:
  assumes "off < length ks" and "probe m ks fuel off = Some j"
  shows "j < length ks" and "stops m (ks ! j)"
proof -
  from assms have "\<exists>d. j = (off + d) mod length ks \<and> stops m (ks ! j)"
    unfolding probe_Some [OF assms(1)] by blast
  moreover have "0 < length ks" using assms(1) by linarith
  ultimately show "j < length ks" "stops m (ks ! j)" by auto
qed

section \<open>Hashed keys\<close>

text \<open>
  What a table needs of its keys: a comparison that is an equivalence and a hash that cannot tell
  equivalent keys apart.  \<open>home ks k\<close> is the slot where the search for \<open>k\<close> starts.
\<close>

locale hashed_keys =
  fixes hash :: "'k \<Rightarrow> u32"
    and same :: "'k \<Rightarrow> 'k \<Rightarrow> bool"
    and dom :: "'k \<Rightarrow> bool"
  assumes same_refl: "dom a \<Longrightarrow> same a a"
    and same_sym: "dom a \<Longrightarrow> dom b \<Longrightarrow> same a b \<Longrightarrow> same b a"
    and same_trans: "dom a \<Longrightarrow> dom b \<Longrightarrow> dom c \<Longrightarrow> same a b \<Longrightarrow> same b c \<Longrightarrow> same a c"
    and hash_same: "dom a \<Longrightarrow> dom b \<Longrightarrow> same a b \<Longrightarrow> hash a = hash b"
begin

definition home :: "'k option list \<Rightarrow> 'k \<Rightarrow> nat" where
  "home ks k = unat (hash k) mod length ks"

definition seek :: "'k option list \<Rightarrow> 'k \<Rightarrow> nat option" where
  "seek ks k = probe (\<lambda>x. same x k) ks (length ks) (home ks k)"

text \<open>
  The invariant of the key array: a free slot is left and the search for a stored key stops at the
  slot that holds it.
\<close>

definition keys_inv :: "'k option list \<Rightarrow> bool" where
  "keys_inv ks \<longleftrightarrow> None \<in> set ks \<and>
     (\<forall>i k. i < length ks \<longrightarrow> ks ! i = Some k \<longrightarrow> dom k \<and> seek ks k = Some i)"

lemma home_less: "None \<in> set ks \<Longrightarrow> home ks k < length ks"
  unfolding home_def by (cases ks) (auto intro: mod_less_divisor)

lemma seek_ends: "keys_inv ks \<Longrightarrow> \<exists>j < length ks. seek ks k = Some j"
  unfolding seek_def keys_inv_def
  using probe_ends [of "home ks k" ks "\<lambda>x. same x k"] probe_bound(1) home_less by metis

lemma seek_cong:
  assumes "dom k" and "dom k'" and "same k k'" and "\<forall>x. Some x \<in> set ks \<longrightarrow> dom x"
  shows "seek ks k = seek ks k'"
proof -
  have h: "home ks k = home ks k'" using assms hash_same by (simp add: home_def)
  have same: "same x k \<longleftrightarrow> same x k'" if "dom x" for x
    using assms that same_trans same_sym by blast
  have "probe (\<lambda>x. same x k) ks fuel off = probe (\<lambda>x. same x k') ks fuel off" for fuel off
  proof (induction fuel arbitrary: off)
    case (Suc fuel)
    then show ?case using same assms(4)
      by (cases "off < length ks") (auto simp: probe.simps Let_def split: option.splits dest!: nth_mem)
  qed simp
  then show ?thesis by (simp add: seek_def h)
qed

lemma keys_inv_dom: "keys_inv ks \<Longrightarrow> Some x \<in> set ks \<Longrightarrow> dom x"
  unfolding keys_inv_def by (metis in_set_conv_nth)

text \<open>The search finds a stored key by any of its spellings, and nothing else.\<close>

lemma seek_stored:
  assumes "keys_inv ks" and "i < length ks" and "ks ! i = Some x" and "dom k"
  shows "seek ks k = Some i \<longleftrightarrow> same x k"
proof
  assume "same x k"
  moreover have "dom x" "seek ks x = Some i" using assms unfolding keys_inv_def by auto
  ultimately show "seek ks k = Some i"
    using seek_cong [of x k ks] keys_inv_dom [OF assms(1)] assms(4) by metis
next
  assume "seek ks k = Some i"
  then show "same x k"
    using probe_bound(2) [of "home ks k" ks] home_less assms unfolding seek_def keys_inv_def by fastforce
qed

lemma keys_distinct:
  assumes "keys_inv ks" and "i < length ks" "ks ! i = Some x" and "j < length ks" "ks ! j = Some y"
    and "same x y"
  shows "i = j"
proof -
  have d: "dom x" "dom y" using keys_inv_dom [OF assms(1)] assms nth_mem by metis+
  have "seek ks y = Some i" using seek_stored [OF assms(1-3) d(2)] assms(6) by simp
  moreover have "seek ks y = Some j" using assms(1,4,5) unfolding keys_inv_def by blast
  ultimately show ?thesis by simp
qed

text \<open>Where the search stops at a free slot, no stored key is the sought one.\<close>

lemma seek_free:
  assumes "keys_inv ks" and "seek ks k = Some j" and "ks ! j = None" and "dom k"
    and "Some x \<in> set ks"
  shows "\<not> same x k"
proof
  assume s: "same x k"
  from assms(5) obtain i where i: "i < length ks" "ks ! i = Some x" by (metis in_set_conv_nth)
  then have "seek ks k = Some i" using seek_stored [OF assms(1) i assms(4)] s by simp
  with assms(2,3) i(2) show False by simp
qed

text \<open>Storing a key in the free slot where its search stopped keeps the invariant.\<close>

lemma seek_update:
  assumes "keys_inv ks" and "seek ks k = Some j" and "ks ! j = None" and "dom k"
    and "i < length ks" and "ks ! i = Some x"
  shows "seek (ks[j := Some k]) x = Some i"
proof -
  have none: "None \<in> set ks" using assms(1) by (simp add: keys_inv_def)
  have ij: "i \<noteq> j" using assms by auto
  have "seek ks x = Some i" using assms(1,5,6) unfolding keys_inv_def by blast
  then obtain d where d: "d < length ks" "i = (home ks x + d) mod length ks"
    "stops (\<lambda>y. same y x) (ks ! i)"
    "\<forall>e < d. \<not> stops (\<lambda>y. same y x) (ks ! ((home ks x + e) mod length ks))"
    unfolding seek_def probe_Some [OF home_less [OF none]] by blast
  have "\<not> stops (\<lambda>y. same y x) (ks[j := Some k] ! ((home ks x + e) mod length ks))" if "e < d" for e
  proof -
    have "(home ks x + e) mod length ks \<noteq> j" using d(4) that assms(3) by auto
    then show ?thesis using d(4) that by simp
  qed
  then show ?thesis
    using d(1-3) ij home_less [OF none, of x] unfolding seek_def home_def length_list_update
    by (subst probe_Some) (auto intro!: exI [of _ d])
qed

lemma seek_new:
  assumes "keys_inv ks" and "seek ks k = Some j" and "ks ! j = None" and "dom k"
  shows "seek (ks[j := Some k]) k = Some j"
proof -
  have none: "None \<in> set ks" using assms(1) by (simp add: keys_inv_def)
  have jl: "j < length ks" using probe_bound(1) home_less [OF none] assms(2) unfolding seek_def by blast
  from assms(2) obtain d where d: "d < length ks" "j = (home ks k + d) mod length ks"
    "\<forall>e < d. \<not> stops (\<lambda>y. same y k) (ks ! ((home ks k + e) mod length ks))"
    unfolding seek_def probe_Some [OF home_less [OF none]] by blast
  have "\<not> stops (\<lambda>y. same y k) (ks[j := Some k] ! ((home ks k + e) mod length ks))" if "e < d" for e
  proof -
    have "(home ks k + e) mod length ks \<noteq> j" using d(3) that assms(3) by auto
    then show ?thesis using d(3) that by simp
  qed
  then show ?thesis
    using d(1,2) jl same_refl [OF assms(4)] home_less [OF none, of k]
    unfolding seek_def home_def length_list_update
    by (subst probe_Some) (auto intro!: exI [of _ d])
qed

lemma keys_inv_insert:
  assumes "keys_inv ks" and "seek ks k = Some j" and "ks ! j = None" and "dom k"
    and "None \<in> set (ks[j := Some k])"
  shows "keys_inv (ks[j := Some k])"
  unfolding keys_inv_def
proof (intro conjI allI impI)
  fix i x
  assume i: "i < length (ks[j := Some k])" "ks[j := Some k] ! i = Some x"
  show "dom x" "seek (ks[j := Some k]) x = Some i"
    using i assms seek_new [OF assms(1-4)] seek_update [OF assms(1-4)] keys_inv_dom [OF assms(1)]
    by (cases "i = j"; force simp: nth_list_update in_set_conv_nth)+
qed (use assms(5) in simp)

lemma keys_inv_empty: "0 < n \<Longrightarrow> keys_inv (replicate n None)"
  by (auto simp: keys_inv_def)

end

section \<open>Counting the used slots\<close>

text \<open>The \<open>count\<close> field of a table is the number of its used slots.\<close>

definition used_slots :: "'k option list \<Rightarrow> nat" where
  "used_slots ks = length (filter (\<lambda>c. c \<noteq> None) ks)"

lemma used_slots_empty [simp]: "used_slots (replicate n None) = 0"
  by (simp add: used_slots_def)

lemma used_slots_le: "used_slots ks \<le> length ks"
  by (simp add: used_slots_def)

lemma used_slots_free: "used_slots ks < length ks \<Longrightarrow> None \<in> set ks"
  unfolding used_slots_def by (metis (mono_tags) filter_True less_irrefl)

lemma used_slots_insert:
  "j < length ks \<Longrightarrow> ks ! j = None \<Longrightarrow> used_slots (ks[j := Some k]) = used_slots ks + 1"
proof (induction ks arbitrary: j)
  case (Cons a ks)
  then show ?case by (cases j) (auto simp: used_slots_def)
qed simp

end
