(* ===== verification/Bytebuf.thy ===== *)
theory Bytebuf
  imports CqlBase
begin

text \<open>
  The two growable byte buffers: \<open>bytebuf\<close> of the compiler (\<open>sources/bytebuf.c\<close>) and
  \<open>cql_bytebuf\<close> of the runtime (\<open>sources/cqlrt_common.c\<close>).  The size fields are \<open>uint32_t\<close> and
  wrap; the buffer contents live in a memory block with explicit faults.  Both buffers are
  interpretations of the locale \<open>sink\<close>.
\<close>

section \<open>The compiler's byte buffer\<close>

definition BYTEBUF_GROWTH_SIZE :: u32 where
  "BYTEBUF_GROWTH_SIZE = 1024"

record bytebuf =
  bb_ptr :: "u8 mem option"
  bb_used :: u32
  bb_max :: u32

definition bytebuf_open :: "bytebuf \<Rightarrow> bytebuf" where
  "bytebuf_open buf = buf\<lparr>bb_max := 0, bb_ptr := None, bb_used := 0\<rparr>"

definition bytebuf_close :: "bytebuf \<Rightarrow> bytebuf" where
  "bytebuf_close buf = buf\<lparr>bb_max := 0, bb_ptr := None\<rparr>"

text \<open>
  A null pointer has no block: reading bytes through it or writing bytes to it is a fault.
\<close>

definition block_of :: "'a mem option \<Rightarrow> 'a mem" where
  "block_of p = (case p of None \<Rightarrow> Fault | Some m \<Rightarrow> m)"

text \<open>
  \<open>bytebuf_alloc\<close> returns the offset of the new space (the C code returns \<open>ptr + used\<close>).
\<close>

definition bytebuf_alloc :: "bytebuf \<Rightarrow> u32 \<Rightarrow> nat \<times> bytebuf" where
  "bytebuf_alloc buf needed =
     (let avail = bb_max buf - bb_used buf;
          buf = (if needed > avail then
                   let newmax = bb_max buf + (needed + BYTEBUF_GROWTH_SIZE);
                       newptr = mem_alloc (unat newmax);
                       newptr = (if bb_used buf \<noteq> 0
                                 then mem_store newptr 0
                                        (mem_load (block_of (bb_ptr buf)) 0 (unat (bb_used buf)))
                                 else newptr)
                   in buf\<lparr>bb_max := newmax, bb_ptr := Some newptr\<rparr>
                 else buf);
          result = unat (bb_used buf)
      in (result, buf\<lparr>bb_used := bb_used buf + needed\<rparr>))"

definition bytebuf_append :: "bytebuf \<Rightarrow> u8 list \<Rightarrow> u32 \<Rightarrow> bytebuf" where
  "bytebuf_append buf bytes count =
     (case bytebuf_alloc buf count of (mem, buf) \<Rightarrow>
        if count = 0 then buf
        else buf\<lparr>bb_ptr := Some (mem_store (block_of (bb_ptr buf)) mem
                   (mem_load (Mem (map Some bytes)) 0 (unat count)))\<rparr>)"

text \<open>
  The invariant: the used prefix is initialised and inside a block of \<open>max\<close> bytes.  A buffer only
  grows when the new bytes do not fit, so twice the new contents bound the new size field.
\<close>

definition bytebuf_contents :: "bytebuf \<Rightarrow> u8 list" where
  "bytebuf_contents buf =
     (case bb_ptr buf of
        Some (Mem cs) \<Rightarrow> map the (take (unat (bb_used buf)) cs)
      | _ \<Rightarrow> [])"

definition bytebuf_inv :: "bytebuf \<Rightarrow> bool" where
  "bytebuf_inv buf \<longleftrightarrow>
     (case bb_ptr buf of
        None \<Rightarrow> bb_used buf = 0 \<and> bb_max buf = 0
      | Some m \<Rightarrow> mem_size m = unat (bb_max buf) \<and> unat (bb_used buf) \<le> unat (bb_max buf) \<and>
                  mem_holds m (bytebuf_contents buf) \<and>
                  length (bytebuf_contents buf) = unat (bb_used buf))"

definition bytebuf_ready :: "nat \<Rightarrow> bytebuf \<Rightarrow> bool" where
  "bytebuf_ready n buf \<longleftrightarrow> bytebuf_inv buf \<and> 2 * (unat (bb_used buf) + n) + 1024 < 2 ^ 32"

definition bytebuf_put :: "bytebuf \<Rightarrow> u8 list \<Rightarrow> bytebuf" where
  "bytebuf_put buf bytes = bytebuf_append buf bytes (of_nat (length bytes))"

lemma mem_holds_map_the:
  "mem_holds (Mem cs) xs \<Longrightarrow> map the (take (length xs) cs) = xs"
  by (simp add: comp_def)

lemma mem_holds_prefix_unique:
  "mem_holds m xs \<Longrightarrow> mem_holds m ys \<Longrightarrow> length xs = length ys \<Longrightarrow> xs = ys"
  by (cases m) (auto dest: map_injective)

lemma contents_of_holds:
  assumes "mem_holds m xs" and "length xs = unat u"
  shows "(case Some m of Some (Mem cs) \<Rightarrow> map the (take (unat u) cs) | _ \<Rightarrow> []) = xs"
proof -
  obtain cs where m: "m = Mem cs" using assms(1) by (cases m) auto
  show ?thesis using assms m mem_holds_map_the [of cs xs] by simp
qed

lemma bytebuf_invI:
  assumes "mem_holds m xs" and "length xs = unat (bb_used buf)" and "bb_ptr buf = Some m"
    and "mem_size m = unat (bb_max buf)"
  shows "bytebuf_inv buf" and "bytebuf_contents buf = xs"
proof -
  show c: "bytebuf_contents buf = xs"
    using contents_of_holds [OF assms(1,2)] assms(3) by (simp add: bytebuf_contents_def)
  show "bytebuf_inv buf"
    using assms c mem_holds_size [OF assms(1)] by (simp add: bytebuf_inv_def)
qed

lemma bytebuf_open_ready: "2 * n + 1024 < 2 ^ 32 \<Longrightarrow> bytebuf_ready n (bytebuf_open buf)"
  by (simp add: bytebuf_ready_def bytebuf_inv_def bytebuf_open_def)

lemma bytebuf_open_contents: "bytebuf_contents (bytebuf_open buf) = []"
  by (simp add: bytebuf_contents_def bytebuf_open_def)

text \<open>
  Allocation never loses a byte: the used prefix is the same afterwards, and the space for the
  new bytes lies inside the (possibly new) block.
\<close>

lemma bytebuf_alloc_spec:
  assumes "bytebuf_ready (unat needed) buf" and "bytebuf_alloc buf needed = (off, buf')"
    and "needed \<noteq> 0"
  shows "off = unat (bb_used buf) \<and> unat (bb_used buf') = unat (bb_used buf) + unat needed \<and>
    (\<exists>m. bb_ptr buf' = Some m \<and> mem_size m = unat (bb_max buf') \<and>
       unat (bb_used buf') \<le> mem_size m \<and> mem_holds m (bytebuf_contents buf))"
proof -
  note inv = assms(1)[unfolded bytebuf_ready_def bytebuf_inv_def]
  have le: "unat (bb_used buf) \<le> unat (bb_max buf)"
    using inv by (cases "bb_ptr buf") auto
  have used': "unat (bb_used buf + needed) = unat (bb_used buf) + unat needed"
    using inv by (intro unat_plus_u32) simp
  have clen: "length (bytebuf_contents buf) = unat (bb_used buf)"
    using inv by (cases "bb_ptr buf") (auto simp: bytebuf_contents_def)
  show ?thesis
  proof (cases "needed > bb_max buf - bb_used buf")
    case False
    then have fit: "unat (bb_used buf) + unat needed \<le> unat (bb_max buf)"
      using le by (simp add: less_u32 unat_minus_u32)
    moreover have "bb_ptr buf \<noteq> None"
      using inv fit assms(3) by (cases "bb_ptr buf") (auto simp: unat_eq_0)
    ultimately show ?thesis
      using False assms(2) used' inv
      by (auto simp: bytebuf_alloc_def Let_def)
  next
    case True
    let ?max = "bb_max buf + (needed + BYTEBUF_GROWTH_SIZE)"
    have grow: "unat (bb_max buf) < unat (bb_used buf) + unat needed"
      using True le by (simp add: less_u32 unat_minus_u32)
    have n1: "unat (needed + BYTEBUF_GROWTH_SIZE) = unat needed + 1024"
      using inv by (subst unat_plus_u32) (auto simp: BYTEBUF_GROWTH_SIZE_def)
    have m1: "unat ?max = unat (bb_max buf) + (unat needed + 1024)"
      using inv grow n1 by (subst unat_plus_u32) auto
    let ?m = "if bb_used buf \<noteq> 0
       then mem_store (mem_alloc (unat ?max)) 0
              (mem_load (block_of (bb_ptr buf)) 0 (unat (bb_used buf)))
       else mem_alloc (unat ?max)"
    have hm: "mem_holds ?m (bytebuf_contents buf) \<and> mem_size ?m = unat ?max"
    proof (cases "bb_used buf = 0")
      case True
      then show ?thesis using clen by simp
    next
      case False
      then obtain m where m: "bb_ptr buf = Some m" using inv by (cases "bb_ptr buf") auto
      then have h: "mem_holds m (bytebuf_contents buf)" using inv by simp
      from m False show ?thesis
        using mem_grow [OF h, of "unat (bb_used buf)" "unat ?max"] clen m1 le
        by (simp add: block_of_def)
    qed
    have b': "buf' = buf\<lparr>bb_max := ?max, bb_ptr := Some ?m, bb_used := bb_used buf + needed\<rparr>"
      and off: "off = unat (bb_used buf)"
      using True assms(2) by (simp_all add: bytebuf_alloc_def Let_def)
    then show ?thesis
      using hm off used' m1 le grow by (simp add: b')
  qed
qed

lemma bytebuf_append_spec:
  assumes "bytebuf_ready (length bytes) buf"
  shows "bytebuf_inv (bytebuf_put buf bytes)"
    and "bytebuf_contents (bytebuf_put buf bytes) = bytebuf_contents buf @ bytes"
    and "unat (bb_used (bytebuf_put buf bytes)) = unat (bb_used buf) + length bytes"
proof -
  have small: "length bytes < 2 ^ 32" using assms by (simp add: bytebuf_ready_def)
  note cnt = unat_of_nat_u32 [OF small]
  have "bytebuf_inv (bytebuf_put buf bytes) \<and>
    bytebuf_contents (bytebuf_put buf bytes) = bytebuf_contents buf @ bytes \<and>
    unat (bb_used (bytebuf_put buf bytes)) = unat (bb_used buf) + length bytes"
  proof (cases "bytes = []")
    case True
    then show ?thesis
      using assms
      by (simp add: bytebuf_put_def bytebuf_append_def bytebuf_alloc_def Let_def bytebuf_ready_def)
  next
    case False
    obtain off b where al: "bytebuf_alloc buf (of_nat (length bytes)) = (off, b)"
      by (cases "bytebuf_alloc buf (of_nat (length bytes))")
    have nz: "(of_nat (length bytes) :: u32) \<noteq> 0"
      using False cnt by (metis length_0_conv unat_0)
    obtain m where m: "bb_ptr b = Some m" "mem_size m = unat (bb_max b)"
        "unat (bb_used b) \<le> mem_size m" "mem_holds m (bytebuf_contents buf)"
      and b: "off = unat (bb_used buf)" "unat (bb_used b) = unat (bb_used buf) + length bytes"
      using bytebuf_alloc_spec [OF _ al nz] assms cnt by auto
    have clen: "length (bytebuf_contents buf) = off"
      using assms b(1) by (cases "bb_ptr buf")
        (auto simp: bytebuf_ready_def bytebuf_inv_def bytebuf_contents_def)
    let ?m = "mem_store m off (Some (map Some bytes))"
    have put: "bytebuf_put buf bytes = b\<lparr>bb_ptr := Some ?m\<rparr>"
      using al nz m(1) cnt by (simp add: bytebuf_put_def bytebuf_append_def block_of_def)
    have hm: "mem_holds ?m (bytebuf_contents buf @ bytes)" "mem_size ?m = mem_size m"
      using mem_holds_store [OF m(4), of off bytes "bytebuf_contents buf @ bytes"] clen m(3) b
      by simp_all
    show ?thesis
      using bytebuf_invI [OF hm(1), of "bytebuf_put buf bytes"] put b hm(2) m(2) clen by simp
  qed
  then show "bytebuf_inv (bytebuf_put buf bytes)"
    and "bytebuf_contents (bytebuf_put buf bytes) = bytebuf_contents buf @ bytes"
    and "unat (bb_used (bytebuf_put buf bytes)) = unat (bb_used buf) + length bytes"
    by simp_all
qed

interpretation bb: sink bytebuf_put bytebuf_contents bytebuf_ready
proof unfold_locales
  fix xs :: "u8 list" and b
  assume "bytebuf_ready (length xs) b"
  then show "bytebuf_contents (bytebuf_put b xs) = bytebuf_contents b @ xs"
    by (rule bytebuf_append_spec)
next
  fix xs :: "u8 list" and n b
  assume r: "bytebuf_ready (length xs + n) b"
  then have "bytebuf_ready (length xs) b" by (simp add: bytebuf_ready_def)
  from bytebuf_append_spec [OF this] r show "bytebuf_ready n (bytebuf_put b xs)"
    by (simp add: bytebuf_ready_def)
next
  fix n b m
  assume "bytebuf_ready n b" "m \<le> n"
  then show "bytebuf_ready m b" by (simp add: bytebuf_ready_def)
qed

section \<open>The runtime's byte buffer\<close>

definition BYTEBUF_EXP_GROWTH_CAP :: u32 where
  "BYTEBUF_EXP_GROWTH_CAP = 1024 * 1024"

definition BYTEBUF_GROWTH_SIZE_AFTER_CAP :: u32 where
  "BYTEBUF_GROWTH_SIZE_AFTER_CAP = 200 * 1024"

record cql_bytebuf =
  cb_ptr :: "u8 mem option"
  cb_used :: u32
  cb_max :: u32

definition cql_bytebuf_open :: cql_bytebuf where
  "cql_bytebuf_open =
     \<lparr>cb_ptr = Some (mem_alloc (unat BYTEBUF_GROWTH_SIZE)), cb_used = 0, cb_max = BYTEBUF_GROWTH_SIZE\<rparr>"

definition cql_bytebuf_close :: "cql_bytebuf \<Rightarrow> cql_bytebuf" where
  "cql_bytebuf_close b = b\<lparr>cb_max := 0, cb_ptr := None\<rparr>"

definition cql_bytebuf_alloc :: "cql_bytebuf \<Rightarrow> u32 \<Rightarrow> nat \<times> cql_bytebuf" where
  "cql_bytebuf_alloc b needed =
     (let avail = cb_max b - cb_used b;
          b = (if needed > avail then
                 let newmax = (if cb_max b > BYTEBUF_EXP_GROWTH_CAP
                               then needed + BYTEBUF_GROWTH_SIZE_AFTER_CAP + cb_max b
                               else needed + 2 * cb_max b);
                     newptr = mem_store (mem_alloc (unat newmax)) 0
                                (mem_load (block_of (cb_ptr b)) 0 (unat (cb_used b)))
                 in b\<lparr>cb_max := newmax, cb_ptr := Some newptr\<rparr>
               else b);
          result = unat (cb_used b)
      in (result, b\<lparr>cb_used := cb_used b + needed\<rparr>))"

definition cql_bytebuf_append :: "cql_bytebuf \<Rightarrow> u8 list \<Rightarrow> u32 \<Rightarrow> cql_bytebuf" where
  "cql_bytebuf_append buffer data bytes =
     (case cql_bytebuf_alloc buffer bytes of (pv, buffer) \<Rightarrow>
        buffer\<lparr>cb_ptr := Some (mem_store (block_of (cb_ptr buffer)) pv
                 (mem_load (Mem (map Some data)) 0 (unat bytes)))\<rparr>)"

text \<open>
  The formatted output of \<open>vsnprintf\<close> is the argument \<open>txt\<close>: the call asks for one byte more than
  its length, because \<open>vsnprintf\<close> also writes the terminating NUL, and then drops that byte.
\<close>

definition cql_vbprintf :: "cql_bytebuf \<Rightarrow> u8 list \<Rightarrow> cql_bytebuf" where
  "cql_vbprintf buffer txt =
     (let needed = of_nat (length txt) + 1 in
      case cql_bytebuf_alloc buffer needed of (newptr, buffer) \<Rightarrow>
        let buffer = buffer\<lparr>cb_ptr := Some (mem_store (block_of (cb_ptr buffer)) newptr
                       (Some (map Some (txt @ [0]))))\<rparr>
        in buffer\<lparr>cb_used := cb_used buffer - 1\<rparr>)"

definition cql_bprintf :: "cql_bytebuf \<Rightarrow> u8 list \<Rightarrow> cql_bytebuf" where
  "cql_bprintf buffer txt = cql_vbprintf buffer txt"

definition cql_bytebuf_append_null :: "cql_bytebuf \<Rightarrow> cql_bytebuf" where
  "cql_bytebuf_append_null buffer = cql_bytebuf_append buffer [0] 1"

definition cql_bytebuf_contents :: "cql_bytebuf \<Rightarrow> u8 list" where
  "cql_bytebuf_contents b =
     (case cb_ptr b of
        Some (Mem cs) \<Rightarrow> map the (take (unat (cb_used b)) cs)
      | _ \<Rightarrow> [])"

definition cql_bytebuf_inv :: "cql_bytebuf \<Rightarrow> bool" where
  "cql_bytebuf_inv b \<longleftrightarrow>
     (\<exists>m. cb_ptr b = Some m \<and> mem_size m = unat (cb_max b) \<and>
          mem_holds m (cql_bytebuf_contents b) \<and>
          length (cql_bytebuf_contents b) = unat (cb_used b))"

definition cql_bytebuf_ready :: "nat \<Rightarrow> cql_bytebuf \<Rightarrow> bool" where
  "cql_bytebuf_ready n b \<longleftrightarrow> cql_bytebuf_inv b \<and> 3 * (unat (cb_used b) + n) + 204800 < 2 ^ 32"

definition cql_bytebuf_put :: "cql_bytebuf \<Rightarrow> u8 list \<Rightarrow> cql_bytebuf" where
  "cql_bytebuf_put b bytes = cql_bytebuf_append b bytes (of_nat (length bytes))"

lemma cql_bytebuf_invI:
  assumes "mem_holds m xs" and "length xs = unat (cb_used b)" and "cb_ptr b = Some m"
    and "mem_size m = unat (cb_max b)"
  shows "cql_bytebuf_inv b" and "cql_bytebuf_contents b = xs"
proof -
  show c: "cql_bytebuf_contents b = xs"
    using contents_of_holds [OF assms(1,2)] assms(3) by (simp add: cql_bytebuf_contents_def)
  show "cql_bytebuf_inv b" using assms c by (simp add: cql_bytebuf_inv_def)
qed

lemma cql_bytebuf_open_ready: "3 * n + 204800 < 2 ^ 32 \<Longrightarrow> cql_bytebuf_ready n cql_bytebuf_open"
  by (auto simp: cql_bytebuf_ready_def cql_bytebuf_inv_def cql_bytebuf_open_def
      BYTEBUF_GROWTH_SIZE_def cql_bytebuf_contents_def mem_alloc_def)

lemma cql_bytebuf_open_contents [simp]: "cql_bytebuf_contents cql_bytebuf_open = []"
  by (simp add: cql_bytebuf_contents_def cql_bytebuf_open_def mem_alloc_def)

lemma cql_bytebuf_newmax:
  assumes "cql_bytebuf_ready (unat needed) b" and "needed > cb_max b - cb_used b"
    and "unat (cb_used b) \<le> unat (cb_max b)"
  defines "newmax \<equiv> (if cb_max b > BYTEBUF_EXP_GROWTH_CAP
                      then needed + BYTEBUF_GROWTH_SIZE_AFTER_CAP + cb_max b
                      else needed + 2 * cb_max b)"
  shows "unat (cb_used b) + unat needed \<le> unat newmax"
proof -
  have room: "3 * (unat (cb_used b) + unat needed) + 204800 < 2 ^ 32"
    using assms(1) by (simp add: cql_bytebuf_ready_def)
  have grow: "unat (cb_max b) < unat (cb_used b) + unat needed"
    using assms(2,3) by (simp add: less_u32 unat_minus_u32)
  have "unat newmax = (if cb_max b > BYTEBUF_EXP_GROWTH_CAP
     then unat needed + 204800 + unat (cb_max b) else unat needed + 2 * unat (cb_max b))"
    using room grow
    by (simp add: newmax_def unat_word_ariths BYTEBUF_GROWTH_SIZE_AFTER_CAP_def)
  then show "unat (cb_used b) + unat needed \<le> unat newmax"
    using room grow assms(3) by (auto simp: BYTEBUF_EXP_GROWTH_CAP_def less_u32 split: if_splits)
qed

lemma cql_bytebuf_alloc_spec:
  assumes "cql_bytebuf_ready (unat needed) b" and "cql_bytebuf_alloc b needed = (off, b')"
  shows "off = unat (cb_used b) \<and> unat (cb_used b') = unat (cb_used b) + unat needed \<and>
    (\<exists>m. cb_ptr b' = Some m \<and> mem_size m = unat (cb_max b') \<and>
       unat (cb_used b') \<le> mem_size m \<and> mem_holds m (cql_bytebuf_contents b))"
proof -
  obtain m where m: "cb_ptr b = Some m" "mem_size m = unat (cb_max b)"
      "mem_holds m (cql_bytebuf_contents b)"
    and clen: "length (cql_bytebuf_contents b) = unat (cb_used b)"
    and room: "3 * (unat (cb_used b) + unat needed) + 204800 < 2 ^ 32"
    using assms(1) by (auto simp: cql_bytebuf_ready_def cql_bytebuf_inv_def)
  have le: "unat (cb_used b) \<le> unat (cb_max b)"
    using mem_holds_size [OF m(3)] m(2) clen by simp
  have used': "unat (cb_used b + needed) = unat (cb_used b) + unat needed"
    using room by (intro unat_plus_u32) simp
  show ?thesis
  proof (cases "needed > cb_max b - cb_used b")
    case False
    then have "unat (cb_used b) + unat needed \<le> unat (cb_max b)"
      using le by (simp add: less_u32 unat_minus_u32)
    then show ?thesis
      using False assms(2) used' m by (auto simp: cql_bytebuf_alloc_def Let_def)
  next
    case True
    show ?thesis
      using True assms(2) used' m clen cql_bytebuf_newmax [OF assms(1) True le]
        mem_grow [OF m(3), of "unat (cb_used b)"]
      by (auto simp: cql_bytebuf_alloc_def Let_def block_of_def)
  qed
qed

lemma cql_bytebuf_write_spec:
  assumes "cql_bytebuf_ready (unat needed) b" and "cql_bytebuf_alloc b needed = (off, b1)"
    and "unat needed = length bytes"
    and "b2 = b1\<lparr>cb_ptr := Some (mem_store (block_of (cb_ptr b1)) off (Some (map Some bytes)))\<rparr>"
  shows "cql_bytebuf_inv b2"
    and "cql_bytebuf_contents b2 = cql_bytebuf_contents b @ bytes"
    and "unat (cb_used b2) = unat (cb_used b) + length bytes"
proof -
  obtain m where m: "cb_ptr b1 = Some m" "mem_size m = unat (cb_max b1)"
      "unat (cb_used b1) \<le> mem_size m" "mem_holds m (cql_bytebuf_contents b)"
    and b1: "off = unat (cb_used b)" "unat (cb_used b1) = unat (cb_used b) + length bytes"
    using cql_bytebuf_alloc_spec [OF assms(1,2)] assms(3) by auto
  have clen: "length (cql_bytebuf_contents b) = off"
    using assms(1) b1(1) by (auto simp: cql_bytebuf_ready_def cql_bytebuf_inv_def)
  have hm: "mem_holds (mem_store m off (Some (map Some bytes))) (cql_bytebuf_contents b @ bytes)"
    "mem_size (mem_store m off (Some (map Some bytes))) = mem_size m"
    using mem_holds_store [OF m(4), of off bytes "cql_bytebuf_contents b @ bytes"] clen m(3) b1
    by simp_all
  show "cql_bytebuf_inv b2" and "cql_bytebuf_contents b2 = cql_bytebuf_contents b @ bytes"
    using cql_bytebuf_invI [OF hm(1), of b2] m(1,2) hm(2) b1 clen
    by (simp_all add: assms(4) block_of_def)
  show "unat (cb_used b2) = unat (cb_used b) + length bytes"
    using b1 by (simp add: assms(4))
qed

lemma cql_bytebuf_put_spec:
  assumes "cql_bytebuf_ready (length bytes) b"
  shows "cql_bytebuf_inv (cql_bytebuf_put b bytes)"
    and "cql_bytebuf_contents (cql_bytebuf_put b bytes) = cql_bytebuf_contents b @ bytes"
    and "unat (cb_used (cql_bytebuf_put b bytes)) = unat (cb_used b) + length bytes"
proof -
  have "length bytes < 2 ^ 32" using assms by (simp add: cql_bytebuf_ready_def)
  note cnt = unat_of_nat_u32 [OF this]
  obtain off b1 where al: "cql_bytebuf_alloc b (of_nat (length bytes)) = (off, b1)"
    by (cases "cql_bytebuf_alloc b (of_nat (length bytes))")
  have "cql_bytebuf_put b bytes =
      b1\<lparr>cb_ptr := Some (mem_store (block_of (cb_ptr b1)) off (Some (map Some bytes)))\<rparr>"
    using al cnt by (simp add: cql_bytebuf_put_def cql_bytebuf_append_def)
  from cql_bytebuf_write_spec [OF _ al cnt this] assms cnt
  show "cql_bytebuf_inv (cql_bytebuf_put b bytes)"
    and "cql_bytebuf_contents (cql_bytebuf_put b bytes) = cql_bytebuf_contents b @ bytes"
    and "unat (cb_used (cql_bytebuf_put b bytes)) = unat (cb_used b) + length bytes"
    by simp_all
qed

interpretation rb: sink cql_bytebuf_put cql_bytebuf_contents cql_bytebuf_ready
proof unfold_locales
  fix xs :: "u8 list" and b
  assume "cql_bytebuf_ready (length xs) b"
  then show "cql_bytebuf_contents (cql_bytebuf_put b xs) = cql_bytebuf_contents b @ xs"
    by (rule cql_bytebuf_put_spec)
next
  fix xs :: "u8 list" and n b
  assume r: "cql_bytebuf_ready (length xs + n) b"
  then have "cql_bytebuf_ready (length xs) b" by (simp add: cql_bytebuf_ready_def)
  from cql_bytebuf_put_spec [OF this] r show "cql_bytebuf_ready n (cql_bytebuf_put b xs)"
    by (simp add: cql_bytebuf_ready_def)
next
  fix n b m
  assume "cql_bytebuf_ready n b" "m \<le> n"
  then show "cql_bytebuf_ready m b" by (simp add: cql_bytebuf_ready_def)
qed

text \<open>Printing appends the formatted text and leaves no terminator in the contents.\<close>

lemma cql_vbprintf_spec:
  assumes "cql_bytebuf_ready (length txt + 1) b"
  shows "cql_bytebuf_inv (cql_vbprintf b txt)"
    and "cql_bytebuf_contents (cql_vbprintf b txt) = cql_bytebuf_contents b @ txt"
    and "unat (cb_used (cql_vbprintf b txt)) = unat (cb_used b) + length txt"
proof -
  let ?n = "of_nat (length txt) + 1 :: u32"
  have "length txt + 1 < 2 ^ 32" using assms by (simp add: cql_bytebuf_ready_def)
  then have n: "unat ?n = length (txt @ [0])"
    using unat_of_nat_u32 [of "length txt + 1"] by (simp add: add.commute)
  obtain off b1 where al: "cql_bytebuf_alloc b ?n = (off, b1)"
    by (cases "cql_bytebuf_alloc b ?n")
  define b2 where
    "b2 = b1\<lparr>cb_ptr := Some (mem_store (block_of (cb_ptr b1)) off (Some (map Some (txt @ [0]))))\<rparr>"
  have p: "cql_vbprintf b txt = b2\<lparr>cb_used := cb_used b2 - 1\<rparr>"
    using al by (simp add: cql_vbprintf_def b2_def)
  have r: "cql_bytebuf_ready (unat ?n) b" using assms n by simp
  note w = cql_bytebuf_write_spec [OF r al n b2_def]
  have u: "unat (cb_used b2 - 1) = unat (cb_used b) + length txt"
    using w(3) by (subst unat_minus_u32) auto
  obtain m where m: "cb_ptr b2 = Some m" "mem_size m = unat (cb_max b2)"
      "mem_holds m (cql_bytebuf_contents b @ txt @ [0])"
    using w(1,2) by (auto simp: cql_bytebuf_inv_def)
  have h: "mem_holds m (cql_bytebuf_contents b @ txt)"
    using mem_holds_prefix [of m "cql_bytebuf_contents b @ txt" "[0]"] m(3) by simp
  have clen: "length (cql_bytebuf_contents b) = unat (cb_used b)"
    using assms by (auto simp: cql_bytebuf_ready_def cql_bytebuf_inv_def)
  show "cql_bytebuf_inv (cql_vbprintf b txt)"
    and "cql_bytebuf_contents (cql_vbprintf b txt) = cql_bytebuf_contents b @ txt"
    using cql_bytebuf_invI [OF h, of "cql_vbprintf b txt"] m(1,2) u clen by (simp_all add: p)
  show "unat (cb_used (cql_vbprintf b txt)) = unat (cb_used b) + length txt"
    using u by (simp add: p)
qed

end
