(* ===== verification/Eval.thy ===== *)
theory Eval
  imports Symtab "HOL-Library.Monad_Syntax" "HOL-Library.Signed_Division"
begin

text \<open>
  The evaluator of constant expressions (\<open>sources/eval.c\<close>).  An \<open>eval_node\<close> carries a core type and
  one field per numeric type, of which only the field of its type is meaningful; an evaluation that
  fails is a node of type \<open>SEM_TYPE_ERROR\<close>.  The model result \<open>None\<close> stands for what C leaves
  undefined or aborts on: a broken \<open>Contract\<close> or \<open>Invariant\<close>, a null child, a shift count outside
  the width, the quotient of the least integer by -1, a real outside the range of the
  target integer type.  Sums, differences, products and negations of integers wrap around, as the
  machine does.
\<close>

section \<open>Types, trees and doubles\<close>

datatype core_type =
  SEM_TYPE_NULL | SEM_TYPE_BOOL | SEM_TYPE_INTEGER | SEM_TYPE_LONG_INTEGER | SEM_TYPE_REAL
| SEM_TYPE_TEXT | SEM_TYPE_BLOB | SEM_TYPE_OBJECT | SEM_TYPE_STRUCT | SEM_TYPE_JOIN
| SEM_TYPE_ERROR | SEM_TYPE_OK | SEM_TYPE_PENDING | SEM_TYPE_REGION | SEM_TYPE_CURSOR_FORMAL

datatype num_type = NUM_INT | NUM_LONG | NUM_REAL | NUM_BOOL

text \<open>
  The nodes of the syntax tree that the evaluator meets: a node with a type name, two children that
  may be null and the core type that semantic analysis gave it, or a number.
\<close>

datatype ast =
  Ast (ast_name: cstring) (ast_l: "ast option") (ast_r: "ast option") (ast_sem: core_type)
| Num (num_kind: num_type) (num_lit: cstring)

fun ast_type :: "ast \<Rightarrow> cstring" where
  "ast_type (Ast t _ _ _) = t"
| "ast_type (Num _ _) = ''num''"

fun ast_left :: "ast \<Rightarrow> ast option" where
  "ast_left (Ast _ l _ _) = l"
| "ast_left (Num _ _) = None"

fun ast_right :: "ast \<Rightarrow> ast option" where
  "ast_right (Ast _ _ r _) = r"
| "ast_right (Num _ _) = None"

text \<open>
  The C type \<open>double\<close> is a type parameter with its operations: conversion from and to integers
  (truncation, undefined for values that are not numbers), arithmetic, comparison, \<open>atof\<close> and the
  text \<open>printf\<close> gives for the format of \<open>eval_format_real\<close>.
\<close>

record 'r double_ops =
  d_of_int :: "int \<Rightarrow> 'r"
  d_trunc :: "'r \<Rightarrow> int option"
  d_add :: "'r \<Rightarrow> 'r \<Rightarrow> 'r"
  d_sub :: "'r \<Rightarrow> 'r \<Rightarrow> 'r"
  d_mul :: "'r \<Rightarrow> 'r \<Rightarrow> 'r"
  d_div :: "'r \<Rightarrow> 'r \<Rightarrow> 'r"
  d_neg :: "'r \<Rightarrow> 'r"
  d_eq :: "'r \<Rightarrow> 'r \<Rightarrow> bool"
  d_lt :: "'r \<Rightarrow> 'r \<Rightarrow> bool"
  d_le :: "'r \<Rightarrow> 'r \<Rightarrow> bool"
  d_atof :: "cstring \<Rightarrow> 'r"
  d_format :: "'r \<Rightarrow> cstring"

record 'r eval_node =
  sem_type :: core_type
  int64_value :: i64
  int32_value :: i32
  real_value :: 'r
  bool_value :: bool

definition EVAL_NIL :: "'r double_ops \<Rightarrow> 'r eval_node" where
  "EVAL_NIL D = \<lparr>sem_type = SEM_TYPE_NULL, int64_value = 0, int32_value = 0, real_value = d_of_int D 0,
     bool_value = False\<rparr>"

text \<open>The recursive calls of the evaluation functions go through the evaluator they are given.\<close>

type_synonym 'r evaluator = "ast \<Rightarrow> 'r eval_node \<Rightarrow> 'r eval_node option"
type_synonym 'r eval_fn = "'r evaluator \<Rightarrow> 'r evaluator"

section \<open>Literals\<close>

definition eval_null :: "'r double_ops \<Rightarrow> 'r eval_fn" where
  "eval_null D ev expr result = Some (result\<lparr>sem_type := SEM_TYPE_NULL\<rparr>)"

text \<open>\<open>strtol\<close> and \<open>strtoll\<close> of the C library on 64-bit longs: they stop at the first character that is not a digit and saturate.\<close>

definition digit_value :: "char \<Rightarrow> nat option" where
  "digit_value c =
     (if IsDigit c then Some (nat (schar c - schar CHR ''0''))
      else if IsAlpha c then Some (nat (schar (ToLower c) - schar CHR ''a'') + 10)
      else None)"

fun strtol_digits :: "nat \<Rightarrow> cstring \<Rightarrow> nat \<Rightarrow> nat" where
  "strtol_digits base [] acc = acc"
| "strtol_digits base (c # s) acc =
     (case digit_value c of
        Some d \<Rightarrow> if d < base then strtol_digits base s (acc * base + d) else acc
      | None \<Rightarrow> acc)"

definition has_hex_prefix :: "cstring \<Rightarrow> bool" where
  "has_hex_prefix s \<longleftrightarrow> chead s = CHR ''0'' \<and> (chead (tl s) = CHR ''x'' \<or> chead (tl s) = CHR ''X'')"

definition is_space :: "char \<Rightarrow> bool" where
  "is_space c \<longleftrightarrow> c = CHR '' '' \<or> 9 \<le> schar c \<and> schar c \<le> 13"

definition strtoll :: "cstring \<Rightarrow> nat \<Rightarrow> int" where
  "strtoll s base =
     (let s = dropWhile is_space s;
          negative = (chead s = CHR ''-'');
          s = (if chead s = CHR ''-'' \<or> chead s = CHR ''+'' then tl s else s);
          s = (if base = 16 \<and> has_hex_prefix s then drop 2 s else s);
          n = int (strtol_digits base s 0);
          i = (if negative then - n else n)
      in max (- (2 ^ 63)) (min (2 ^ 63 - 1) i))"

definition eval_num_str :: "'r double_ops \<Rightarrow> cstring \<Rightarrow> num_type \<Rightarrow> 'r eval_node \<Rightarrow> 'r eval_node" where
  "eval_num_str D lit num_type result =
     (case num_type of
        NUM_BOOL \<Rightarrow> result\<lparr>bool_value := strtoll lit 10 \<noteq> 0, sem_type := SEM_TYPE_BOOL\<rparr>
      | NUM_INT \<Rightarrow>
          result\<lparr>int32_value := word_of_int (strtoll lit (if has_hex_prefix lit then 16 else 10)),
                 sem_type := SEM_TYPE_INTEGER\<rparr>
      | NUM_LONG \<Rightarrow>
          result\<lparr>int64_value := word_of_int (strtoll lit (if has_hex_prefix lit then 16 else 10)),
                 sem_type := SEM_TYPE_LONG_INTEGER\<rparr>
      | NUM_REAL \<Rightarrow> result\<lparr>real_value := d_atof D lit, sem_type := SEM_TYPE_REAL\<rparr>)"

definition eval_num :: "'r double_ops \<Rightarrow> 'r eval_fn" where
  "eval_num D ev expr result =
     (case expr of Num num_type lit \<Rightarrow> Some (eval_num_str D lit num_type result) | Ast _ _ _ _ \<Rightarrow> None)"

section \<open>Conversions\<close>

definition b2i :: "bool \<Rightarrow> int" where
  "b2i b = (if b then 1 else 0)"

definition real_to_int :: "'r double_ops \<Rightarrow> nat \<Rightarrow> 'r \<Rightarrow> int option" where
  "real_to_int D w r =
     (case d_trunc D r of
        Some i \<Rightarrow> if - (2 ^ (w - 1)) \<le> i \<and> i < 2 ^ (w - 1) then Some i else None
      | None \<Rightarrow> None)"

definition numeric :: "core_type \<Rightarrow> bool" where
  "numeric t \<longleftrightarrow> t \<in> {SEM_TYPE_BOOL, SEM_TYPE_INTEGER, SEM_TYPE_LONG_INTEGER, SEM_TYPE_REAL}"

definition eval_cast_to :: "'r double_ops \<Rightarrow> 'r eval_node \<Rightarrow> core_type \<Rightarrow> 'r eval_node option" where
  "eval_cast_to D result target =
     (let source = sem_type result in
      do {
        require (source \<noteq> SEM_TYPE_NULL);
        require (target \<noteq> SEM_TYPE_NULL);
        require (source \<noteq> SEM_TYPE_ERROR);
        require (target \<noteq> SEM_TYPE_ERROR);
        if source = target then Some result
        else do {
          result \<leftarrow>
            (case target of
               SEM_TYPE_REAL \<Rightarrow>
                 (case source of
                    SEM_TYPE_INTEGER \<Rightarrow> Some (result\<lparr>real_value := d_of_int D (sint (int32_value result))\<rparr>)
                  | SEM_TYPE_BOOL \<Rightarrow> Some (result\<lparr>real_value := d_of_int D (b2i (bool_value result))\<rparr>)
                  | SEM_TYPE_LONG_INTEGER \<Rightarrow> Some (result\<lparr>real_value := d_of_int D (sint (int64_value result))\<rparr>)
                  | _ \<Rightarrow> None)
             | SEM_TYPE_LONG_INTEGER \<Rightarrow>
                 (case source of
                    SEM_TYPE_REAL \<Rightarrow>
                      do { i \<leftarrow> real_to_int D 64 (real_value result); Some (result\<lparr>int64_value := word_of_int i\<rparr>) }
                  | SEM_TYPE_BOOL \<Rightarrow> Some (result\<lparr>int64_value := word_of_int (b2i (bool_value result))\<rparr>)
                  | SEM_TYPE_INTEGER \<Rightarrow> Some (result\<lparr>int64_value := word_of_int (sint (int32_value result))\<rparr>)
                  | _ \<Rightarrow> None)
             | SEM_TYPE_INTEGER \<Rightarrow>
                 (case source of
                    SEM_TYPE_REAL \<Rightarrow>
                      do { i \<leftarrow> real_to_int D 32 (real_value result); Some (result\<lparr>int32_value := word_of_int i\<rparr>) }
                  | SEM_TYPE_BOOL \<Rightarrow> Some (result\<lparr>int32_value := word_of_int (b2i (bool_value result))\<rparr>)
                  | SEM_TYPE_LONG_INTEGER \<Rightarrow> Some (result\<lparr>int32_value := word_of_int (sint (int64_value result))\<rparr>)
                  | _ \<Rightarrow> None)
             | SEM_TYPE_BOOL \<Rightarrow>
                 (case source of
                    SEM_TYPE_REAL \<Rightarrow> Some (result\<lparr>bool_value := \<not> d_eq D (real_value result) (d_of_int D 0)\<rparr>)
                  | SEM_TYPE_INTEGER \<Rightarrow> Some (result\<lparr>bool_value := int32_value result \<noteq> 0\<rparr>)
                  | SEM_TYPE_LONG_INTEGER \<Rightarrow> Some (result\<lparr>bool_value := int64_value result \<noteq> 0\<rparr>)
                  | _ \<Rightarrow> None)
             | _ \<Rightarrow> None);
          Some (result\<lparr>sem_type := target\<rparr>)
        }
      })"

definition eval_combined_type :: "'r eval_node \<Rightarrow> 'r eval_node \<Rightarrow> core_type option" where
  "eval_combined_type left right =
     (let l = sem_type left; r = sem_type right in
      do {
        require (l \<noteq> SEM_TYPE_ERROR);
        require (r \<noteq> SEM_TYPE_ERROR);
        require (l \<noteq> SEM_TYPE_NULL);
        require (r \<noteq> SEM_TYPE_NULL);
        if l = SEM_TYPE_REAL \<or> r = SEM_TYPE_REAL then Some SEM_TYPE_REAL
        else if l = SEM_TYPE_LONG_INTEGER \<or> r = SEM_TYPE_LONG_INTEGER then Some SEM_TYPE_LONG_INTEGER
        else if l = SEM_TYPE_INTEGER \<or> r = SEM_TYPE_INTEGER then Some SEM_TYPE_INTEGER
        else do { require (l = SEM_TYPE_BOOL \<and> r = SEM_TYPE_BOOL); Some SEM_TYPE_BOOL }
      })"

definition result_is_false :: "'r double_ops \<Rightarrow> 'r eval_node \<Rightarrow> bool option" where
  "result_is_false D result =
     do {
       require (sem_type result \<noteq> SEM_TYPE_ERROR);
       if sem_type result = SEM_TYPE_NULL then Some False
       else do { temp \<leftarrow> eval_cast_to D result SEM_TYPE_BOOL; Some (\<not> bool_value temp) }
     }"

definition result_is_true :: "'r double_ops \<Rightarrow> 'r eval_node \<Rightarrow> bool option" where
  "result_is_true D result =
     do {
       require (sem_type result \<noteq> SEM_TYPE_ERROR);
       if sem_type result = SEM_TYPE_NULL then Some False
       else do { temp \<leftarrow> eval_cast_to D result SEM_TYPE_BOOL; Some (bool_value temp) }
     }"

section \<open>The three operator macros\<close>

text \<open>
  The operator token that a macro substitutes is given by its meanings on \<open>int32_t\<close> (which is also
  the type in which C computes it on \<open>bool_t\<close>), \<open>int64_t\<close> and \<open>double\<close>, the latter absent for the
  operators that exclude reals.
\<close>

record 'r c_op =
  op32 :: "i32 \<Rightarrow> i32 \<Rightarrow> i32 option"
  op64 :: "i64 \<Rightarrow> i64 \<Rightarrow> i64 option"
  opd :: "'r \<Rightarrow> 'r \<Rightarrow> 'r option"

definition div_test :: "'r double_ops \<Rightarrow> bool \<Rightarrow> 'r eval_node \<Rightarrow> bool option" where
  "div_test D guarded right = (if guarded then result_is_false D right else Some False)"

text \<open>The common front of the macros: evaluate both operands, then errors, then nulls.\<close>

definition eval_operands ::
  "'r double_ops \<Rightarrow> 'r evaluator \<Rightarrow> ast \<Rightarrow> ('r eval_node \<times> 'r eval_node) option" where
  "eval_operands D ev expr =
     do {
       l \<leftarrow> ast_left expr;
       left \<leftarrow> ev l (EVAL_NIL D);
       r \<leftarrow> ast_right expr;
       right \<leftarrow> ev r (EVAL_NIL D);
       Some (left, right)
     }"

definition either_is :: "core_type \<Rightarrow> 'r eval_node \<Rightarrow> 'r eval_node \<Rightarrow> bool" where
  "either_is t left right \<longleftrightarrow> sem_type left = t \<or> sem_type right = t"

definition BINARY_OP :: "'r c_op \<Rightarrow> bool \<Rightarrow> 'r double_ops \<Rightarrow> 'r eval_fn" where
  "BINARY_OP f guarded D ev expr result =
     do {
       (left, right) \<leftarrow> eval_operands D ev expr;
       if either_is SEM_TYPE_ERROR left right then Some (result\<lparr>sem_type := SEM_TYPE_ERROR\<rparr>)
       else if either_is SEM_TYPE_NULL left right then Some (result\<lparr>sem_type := SEM_TYPE_NULL\<rparr>)
       else do {
         zero \<leftarrow> div_test D guarded right;
         if zero then Some (result\<lparr>sem_type := SEM_TYPE_ERROR\<rparr>)
         else do {
           core_type \<leftarrow> eval_combined_type left right;
           left \<leftarrow> eval_cast_to D left core_type;
           right \<leftarrow> eval_cast_to D right core_type;
           (case core_type of
              SEM_TYPE_INTEGER \<Rightarrow>
                do { v \<leftarrow> op32 f (int32_value left) (int32_value right);
                     Some (result\<lparr>sem_type := SEM_TYPE_INTEGER, int32_value := v\<rparr>) }
            | SEM_TYPE_LONG_INTEGER \<Rightarrow>
                do { v \<leftarrow> op64 f (int64_value left) (int64_value right);
                     Some (result\<lparr>sem_type := SEM_TYPE_LONG_INTEGER, int64_value := v\<rparr>) }
            | SEM_TYPE_BOOL \<Rightarrow>
                do { v \<leftarrow> op32 f (word_of_int (b2i (bool_value left))) (word_of_int (b2i (bool_value right)));
                     Some (result\<lparr>sem_type := SEM_TYPE_BOOL, bool_value := 0 \<noteq> v\<rparr>) }
            | SEM_TYPE_REAL \<Rightarrow>
                do { v \<leftarrow> opd f (real_value left) (real_value right);
                     Some (result\<lparr>sem_type := SEM_TYPE_REAL, real_value := v\<rparr>) }
            | _ \<Rightarrow> None)
         }
       }
     }"

definition BINARY_OP_NO_REAL :: "'r c_op \<Rightarrow> bool \<Rightarrow> 'r double_ops \<Rightarrow> 'r eval_fn" where
  "BINARY_OP_NO_REAL f guarded D ev expr result =
     do {
       (left, right) \<leftarrow> eval_operands D ev expr;
       if either_is SEM_TYPE_ERROR left right then Some (result\<lparr>sem_type := SEM_TYPE_ERROR\<rparr>)
       else if either_is SEM_TYPE_NULL left right then Some (result\<lparr>sem_type := SEM_TYPE_NULL\<rparr>)
       else do {
         zero \<leftarrow> div_test D guarded right;
         if zero then Some (result\<lparr>sem_type := SEM_TYPE_ERROR\<rparr>)
         else do {
           core_type \<leftarrow> eval_combined_type left right;
           left \<leftarrow> eval_cast_to D left core_type;
           right \<leftarrow> eval_cast_to D right core_type;
           (case core_type of
              SEM_TYPE_INTEGER \<Rightarrow>
                do { v \<leftarrow> op32 f (int32_value left) (int32_value right);
                     Some (result\<lparr>sem_type := SEM_TYPE_INTEGER, int32_value := v\<rparr>) }
            | SEM_TYPE_LONG_INTEGER \<Rightarrow>
                do { v \<leftarrow> op64 f (int64_value left) (int64_value right);
                     Some (result\<lparr>sem_type := SEM_TYPE_LONG_INTEGER, int64_value := v\<rparr>) }
            | SEM_TYPE_BOOL \<Rightarrow>
                do { v \<leftarrow> op32 f (word_of_int (b2i (bool_value left))) (word_of_int (b2i (bool_value right)));
                     Some (result\<lparr>sem_type := SEM_TYPE_BOOL, bool_value := 0 \<noteq> v\<rparr>) }
            | _ \<Rightarrow> None)
         }
       }
     }"

record 'r c_cmp =
  cmp_int :: "int \<Rightarrow> int \<Rightarrow> bool"
  cmp_real :: "'r \<Rightarrow> 'r \<Rightarrow> bool"

text \<open>The switch of \<open>COMPARE_BINARY_OP\<close>, of \<open>eval_is\<close> and of \<open>eval_are_equal\<close>.\<close>

definition compare_as :: "'r c_cmp \<Rightarrow> core_type \<Rightarrow> 'r eval_node \<Rightarrow> 'r eval_node \<Rightarrow> bool option" where
  "compare_as f core_type left right =
     (case core_type of
        SEM_TYPE_INTEGER \<Rightarrow> Some (cmp_int f (sint (int32_value left)) (sint (int32_value right)))
      | SEM_TYPE_LONG_INTEGER \<Rightarrow> Some (cmp_int f (sint (int64_value left)) (sint (int64_value right)))
      | SEM_TYPE_BOOL \<Rightarrow> Some (cmp_int f (b2i (bool_value left)) (b2i (bool_value right)))
      | SEM_TYPE_REAL \<Rightarrow> Some (cmp_real f (real_value left) (real_value right))
      | _ \<Rightarrow> None)"

definition COMPARE_BINARY_OP :: "'r c_cmp \<Rightarrow> 'r double_ops \<Rightarrow> 'r eval_fn" where
  "COMPARE_BINARY_OP f D ev expr result =
     do {
       (left, right) \<leftarrow> eval_operands D ev expr;
       if either_is SEM_TYPE_ERROR left right then Some (result\<lparr>sem_type := SEM_TYPE_ERROR\<rparr>)
       else if either_is SEM_TYPE_NULL left right then Some (result\<lparr>sem_type := SEM_TYPE_NULL\<rparr>)
       else do {
         core_type \<leftarrow> eval_combined_type left right;
         left \<leftarrow> eval_cast_to D left core_type;
         right \<leftarrow> eval_cast_to D right core_type;
         b \<leftarrow> compare_as f core_type left right;
         Some (result\<lparr>sem_type := SEM_TYPE_BOOL, bool_value := b\<rparr>)
       }
     }"

section \<open>The operators\<close>

definition c_div :: "int \<Rightarrow> int \<Rightarrow> int \<Rightarrow> int option" where
  "c_div lim a b = (if b = 0 then None else let q = a sdiv b in if q < lim then Some q else None)"

definition c_mod :: "int \<Rightarrow> int \<Rightarrow> int \<Rightarrow> int option" where
  "c_mod lim a b = (if b = 0 \<or> a sdiv b \<ge> lim then None else Some (a smod b))"

definition c_shl :: "'a::len word \<Rightarrow> 'a word \<Rightarrow> 'a word option" where
  "c_shl a n = (if 0 \<le> sint n \<and> nat (sint n) < LENGTH('a) then Some (push_bit (nat (sint n)) a) else None)"

definition c_shr :: "'a::len word \<Rightarrow> 'a word \<Rightarrow> 'a word option" where
  "c_shr a n =
     (if 0 \<le> sint n \<and> nat (sint n) < LENGTH('a) then Some (signed_drop_bit (nat (sint n)) a) else None)"

definition add_op :: "'r double_ops \<Rightarrow> 'r c_op" where
  "add_op D = \<lparr>op32 = \<lambda>a b. Some (a + b), op64 = \<lambda>a b. Some (a + b), opd = \<lambda>a b. Some (d_add D a b)\<rparr>"

definition sub_op :: "'r double_ops \<Rightarrow> 'r c_op" where
  "sub_op D = \<lparr>op32 = \<lambda>a b. Some (a - b), op64 = \<lambda>a b. Some (a - b), opd = \<lambda>a b. Some (d_sub D a b)\<rparr>"

definition mul_op :: "'r double_ops \<Rightarrow> 'r c_op" where
  "mul_op D = \<lparr>op32 = \<lambda>a b. Some (a * b), op64 = \<lambda>a b. Some (a * b), opd = \<lambda>a b. Some (d_mul D a b)\<rparr>"

definition div_op :: "'r double_ops \<Rightarrow> 'r c_op" where
  "div_op D =
     \<lparr>op32 = \<lambda>a b. map_option word_of_int (c_div (2 ^ 31) (sint a) (sint b)),
      op64 = \<lambda>a b. map_option word_of_int (c_div (2 ^ 63) (sint a) (sint b)),
      opd = \<lambda>a b. Some (d_div D a b)\<rparr>"

definition mod_op :: "'r c_op" where
  "mod_op =
     \<lparr>op32 = \<lambda>a b. map_option word_of_int (c_mod (2 ^ 31) (sint a) (sint b)),
      op64 = \<lambda>a b. map_option word_of_int (c_mod (2 ^ 63) (sint a) (sint b)),
      opd = \<lambda>a b. None\<rparr>"

definition eval_add :: "'r double_ops \<Rightarrow> 'r eval_fn" where "eval_add D = BINARY_OP (add_op D) False D"
definition eval_sub :: "'r double_ops \<Rightarrow> 'r eval_fn" where "eval_sub D = BINARY_OP (sub_op D) False D"
definition eval_mul :: "'r double_ops \<Rightarrow> 'r eval_fn" where "eval_mul D = BINARY_OP (mul_op D) False D"
definition eval_div :: "'r double_ops \<Rightarrow> 'r eval_fn" where "eval_div D = BINARY_OP (div_op D) True D"
definition eval_mod :: "'r double_ops \<Rightarrow> 'r eval_fn" where "eval_mod D = BINARY_OP_NO_REAL mod_op True D"

definition eq_cmp :: "'r double_ops \<Rightarrow> 'r c_cmp" where "eq_cmp D = \<lparr>cmp_int = (=), cmp_real = d_eq D\<rparr>"

definition eval_eq :: "'r double_ops \<Rightarrow> 'r eval_fn" where "eval_eq D = COMPARE_BINARY_OP (eq_cmp D) D"
definition eval_ne :: "'r double_ops \<Rightarrow> 'r eval_fn" where
  "eval_ne D = COMPARE_BINARY_OP \<lparr>cmp_int = (\<noteq>), cmp_real = \<lambda>a b. \<not> d_eq D a b\<rparr> D"
definition eval_le :: "'r double_ops \<Rightarrow> 'r eval_fn" where
  "eval_le D = COMPARE_BINARY_OP \<lparr>cmp_int = (\<le>), cmp_real = d_le D\<rparr> D"
definition eval_ge :: "'r double_ops \<Rightarrow> 'r eval_fn" where
  "eval_ge D = COMPARE_BINARY_OP \<lparr>cmp_int = (\<ge>), cmp_real = \<lambda>a b. d_le D b a\<rparr> D"
definition eval_lt :: "'r double_ops \<Rightarrow> 'r eval_fn" where
  "eval_lt D = COMPARE_BINARY_OP \<lparr>cmp_int = (<), cmp_real = d_lt D\<rparr> D"
definition eval_gt :: "'r double_ops \<Rightarrow> 'r eval_fn" where
  "eval_gt D = COMPARE_BINARY_OP \<lparr>cmp_int = (>), cmp_real = \<lambda>a b. d_lt D b a\<rparr> D"

definition int_op :: "(i32 \<Rightarrow> i32 \<Rightarrow> i32 option) \<Rightarrow> (i64 \<Rightarrow> i64 \<Rightarrow> i64 option) \<Rightarrow> 'r c_op" where
  "int_op f g = \<lparr>op32 = f, op64 = g, opd = \<lambda>a b. None\<rparr>"

definition eval_lshift :: "'r double_ops \<Rightarrow> 'r eval_fn" where
  "eval_lshift D = BINARY_OP_NO_REAL (int_op c_shl c_shl) False D"
definition eval_rshift :: "'r double_ops \<Rightarrow> 'r eval_fn" where
  "eval_rshift D = BINARY_OP_NO_REAL (int_op c_shr c_shr) False D"
definition eval_bin_and :: "'r double_ops \<Rightarrow> 'r eval_fn" where
  "eval_bin_and D = BINARY_OP_NO_REAL (int_op (\<lambda>a b. Some (a AND b)) (\<lambda>a b. Some (a AND b))) False D"
definition eval_bin_or :: "'r double_ops \<Rightarrow> 'r eval_fn" where
  "eval_bin_or D = BINARY_OP_NO_REAL (int_op (\<lambda>a b. Some (a OR b)) (\<lambda>a b. Some (a OR b))) False D"

definition eval_is :: "'r double_ops \<Rightarrow> 'r eval_fn" where
  "eval_is D ev expr result =
     do {
       (left, right) \<leftarrow> eval_operands D ev expr;
       if either_is SEM_TYPE_ERROR left right then Some (result\<lparr>sem_type := SEM_TYPE_ERROR\<rparr>)
       else if either_is SEM_TYPE_NULL left right then
         Some (result\<lparr>sem_type := SEM_TYPE_BOOL,
                      bool_value := sem_type left = SEM_TYPE_NULL \<and> sem_type right = SEM_TYPE_NULL\<rparr>)
       else do {
         core_type \<leftarrow> eval_combined_type left right;
         left \<leftarrow> eval_cast_to D left core_type;
         right \<leftarrow> eval_cast_to D right core_type;
         b \<leftarrow> compare_as (eq_cmp D) core_type left right;
         Some (result\<lparr>sem_type := SEM_TYPE_BOOL, bool_value := b\<rparr>)
       }
     }"

definition eval_is_not :: "'r double_ops \<Rightarrow> 'r eval_fn" where
  "eval_is_not D ev expr result =
     do {
       result \<leftarrow> eval_is D ev expr result;
       Some (if sem_type result = SEM_TYPE_BOOL then result\<lparr>bool_value := \<not> bool_value result\<rparr> else result)
     }"

text \<open>\<open>eval(expr->left, result)\<close>\<close>

definition eval_left :: "'r evaluator \<Rightarrow> ast \<Rightarrow> 'r eval_node \<Rightarrow> 'r eval_node option" where
  "eval_left ev expr result = do { l \<leftarrow> ast_left expr; ev l result }"

definition err_or_null :: "'r eval_node \<Rightarrow> bool" where
  "err_or_null result \<longleftrightarrow> sem_type result = SEM_TYPE_ERROR \<or> sem_type result = SEM_TYPE_NULL"

definition eval_not :: "'r double_ops \<Rightarrow> 'r eval_fn" where
  "eval_not D ev expr result =
     do {
       result \<leftarrow> eval_left ev expr result;
       if err_or_null result then Some result
       else do {
         result \<leftarrow> eval_cast_to D result SEM_TYPE_BOOL;
         require (sem_type result = SEM_TYPE_BOOL);
         Some (result\<lparr>bool_value := \<not> bool_value result\<rparr>)
       }
     }"

definition eval_is_false :: "'r double_ops \<Rightarrow> 'r eval_fn" where
  "eval_is_false D ev expr result =
     do {
       result \<leftarrow> eval_left ev expr result;
       if sem_type result = SEM_TYPE_ERROR then Some result
       else do {
         b \<leftarrow> result_is_false D result;
         Some (result\<lparr>bool_value := b, sem_type := SEM_TYPE_BOOL\<rparr>)
       }
     }"

definition eval_is_true :: "'r double_ops \<Rightarrow> 'r eval_fn" where
  "eval_is_true D ev expr result =
     do {
       result \<leftarrow> eval_left ev expr result;
       if sem_type result = SEM_TYPE_ERROR then Some result
       else do {
         b \<leftarrow> result_is_true D result;
         Some (result\<lparr>bool_value := b, sem_type := SEM_TYPE_BOOL\<rparr>)
       }
     }"

definition eval_is_not_true :: "'r double_ops \<Rightarrow> 'r eval_fn" where
  "eval_is_not_true D ev expr result =
     do {
       result \<leftarrow> eval_left ev expr result;
       if sem_type result = SEM_TYPE_ERROR then Some result
       else do {
         b \<leftarrow> (if sem_type result = SEM_TYPE_NULL then Some True
              else do { t \<leftarrow> result_is_true D result; Some (\<not> t) });
         Some (result\<lparr>bool_value := b, sem_type := SEM_TYPE_BOOL\<rparr>)
       }
     }"

definition eval_is_not_false :: "'r double_ops \<Rightarrow> 'r eval_fn" where
  "eval_is_not_false D ev expr result =
     do {
       result \<leftarrow> eval_left ev expr result;
       if sem_type result = SEM_TYPE_ERROR then Some result
       else do {
         b \<leftarrow> (if sem_type result = SEM_TYPE_NULL then Some True
              else do { f \<leftarrow> result_is_false D result; Some (\<not> f) });
         Some (result\<lparr>bool_value := b, sem_type := SEM_TYPE_BOOL\<rparr>)
       }
     }"

definition eval_tilde :: "'r double_ops \<Rightarrow> 'r eval_fn" where
  "eval_tilde D ev expr result =
     do {
       result \<leftarrow> eval_left ev expr result;
       if err_or_null result then Some result
       else (case sem_type result of
           SEM_TYPE_INTEGER \<Rightarrow> Some (result\<lparr>int32_value := NOT (int32_value result)\<rparr>)
         | SEM_TYPE_LONG_INTEGER \<Rightarrow> Some (result\<lparr>int64_value := NOT (int64_value result)\<rparr>)
         | SEM_TYPE_BOOL \<Rightarrow>
             Some (result\<lparr>sem_type := SEM_TYPE_INTEGER,
                          int32_value := if bool_value result then NOT 1 else NOT 0\<rparr>)
         | _ \<Rightarrow> None)
     }"

definition MIN_LONG_LIT :: cstring where
  "MIN_LONG_LIT = ''9223372036854775808''"

definition is_min_long_lit :: "ast option \<Rightarrow> bool" where
  "is_min_long_lit e =
     (case e of Some (Num num_type lit) \<Rightarrow> num_type = NUM_LONG \<and> strcmp MIN_LONG_LIT lit = 0 | _ \<Rightarrow> False)"

definition eval_uminus :: "'r double_ops \<Rightarrow> 'r eval_fn" where
  "eval_uminus D ev expr result =
     (if is_min_long_lit (ast_left expr) then
        Some (result\<lparr>sem_type := SEM_TYPE_LONG_INTEGER, int64_value := - 9223372036854775807 - 1\<rparr>)
      else do {
        result \<leftarrow> eval_left ev expr result;
        if err_or_null result then Some result
        else (case sem_type result of
            SEM_TYPE_INTEGER \<Rightarrow> Some (result\<lparr>int32_value := - int32_value result\<rparr>)
          | SEM_TYPE_LONG_INTEGER \<Rightarrow> Some (result\<lparr>int64_value := - int64_value result\<rparr>)
          | SEM_TYPE_REAL \<Rightarrow> Some (result\<lparr>real_value := d_neg D (real_value result)\<rparr>)
          | SEM_TYPE_BOOL \<Rightarrow>
              Some (result\<lparr>sem_type := SEM_TYPE_INTEGER, int32_value := if bool_value result then - 1 else 0\<rparr>)
          | _ \<Rightarrow> None)
      })"

definition eval_and :: "'r double_ops \<Rightarrow> 'r eval_fn" where
  "eval_and D ev expr result =
     do {
       left \<leftarrow> eval_left ev expr (EVAL_NIL D);
       if sem_type left = SEM_TYPE_ERROR then Some (result\<lparr>sem_type := SEM_TYPE_ERROR\<rparr>)
       else do {
         f \<leftarrow> result_is_false D left;
         if f then Some (result\<lparr>sem_type := SEM_TYPE_BOOL, bool_value := False\<rparr>)
         else do {
           r \<leftarrow> ast_right expr;
           right \<leftarrow> ev r (EVAL_NIL D);
           if sem_type right = SEM_TYPE_ERROR then Some (result\<lparr>sem_type := SEM_TYPE_ERROR\<rparr>)
           else do {
             f \<leftarrow> result_is_false D right;
             Some (if f then result\<lparr>sem_type := SEM_TYPE_BOOL, bool_value := False\<rparr>
                   else if either_is SEM_TYPE_NULL left right then result\<lparr>sem_type := SEM_TYPE_NULL\<rparr>
                   else result\<lparr>sem_type := SEM_TYPE_BOOL, bool_value := True\<rparr>)
           }
         }
       }
     }"

definition eval_or :: "'r double_ops \<Rightarrow> 'r eval_fn" where
  "eval_or D ev expr result =
     do {
       left \<leftarrow> eval_left ev expr (EVAL_NIL D);
       if sem_type left = SEM_TYPE_ERROR then Some (result\<lparr>sem_type := SEM_TYPE_ERROR\<rparr>)
       else do {
         t \<leftarrow> result_is_true D left;
         if t then Some (result\<lparr>sem_type := SEM_TYPE_BOOL, bool_value := True\<rparr>)
         else do {
           r \<leftarrow> ast_right expr;
           right \<leftarrow> ev r (EVAL_NIL D);
           if sem_type right = SEM_TYPE_ERROR then Some (result\<lparr>sem_type := SEM_TYPE_ERROR\<rparr>)
           else do {
             t \<leftarrow> result_is_true D right;
             Some (if t then result\<lparr>sem_type := SEM_TYPE_BOOL, bool_value := True\<rparr>
                   else if either_is SEM_TYPE_NULL left right then result\<lparr>sem_type := SEM_TYPE_NULL\<rparr>
                   else result\<lparr>sem_type := SEM_TYPE_BOOL, bool_value := False\<rparr>)
           }
         }
       }
     }"

definition eval_cast_expr :: "'r double_ops \<Rightarrow> 'r eval_fn" where
  "eval_cast_expr D ev expr result =
     do {
       result \<leftarrow> eval_left ev expr result;
       if sem_type result = SEM_TYPE_ERROR then Some result
       else if sem_type result = SEM_TYPE_NULL then Some result
       else (case expr of Ast _ _ _ sem \<Rightarrow> eval_cast_to D result sem | Num _ _ \<Rightarrow> None)
     }"

definition eval_are_equal :: "'r double_ops \<Rightarrow> 'r eval_node \<Rightarrow> 'r eval_node \<Rightarrow> bool option" where
  "eval_are_equal D left right =
     do {
       require (sem_type right \<noteq> SEM_TYPE_ERROR);
       require (sem_type left \<noteq> SEM_TYPE_ERROR);
       if either_is SEM_TYPE_NULL left right then Some False
       else do {
         core_type \<leftarrow> eval_combined_type left right;
         left \<leftarrow> eval_cast_to D left core_type;
         right \<leftarrow> eval_cast_to D right core_type;
         require (sem_type left = sem_type right);
         compare_as (eq_cmp D) (sem_type left) left right
       }
     }"

section \<open>Case expressions\<close>

text \<open>\<open>EXTRACT_NOTNULL\<close>: the child is there and has the given node type.\<close>

definition extract_notnull :: "cstring \<Rightarrow> ast option \<Rightarrow> ast option" where
  "extract_notnull t p = (case p of Some e \<Rightarrow> if ast_type e = t then Some e else None | None \<Rightarrow> None)"

text \<open>
  The loop over the \<open>WHEN\<close> clauses.  \<open>picks\<close> decides whether the value of a clause selects it; the
  result \<open>Inl\<close> is the answer of the whole expression, \<open>Inr ()\<close> means that no clause was selected.
\<close>

function case_loop ::
  "'r double_ops \<Rightarrow> 'r evaluator \<Rightarrow> ('r eval_node \<Rightarrow> bool option) \<Rightarrow> ast option \<Rightarrow> 'r eval_node \<Rightarrow>
     ('r eval_node + unit) option" where
  "case_loop D ev picks p result =
     (case p of
        None \<Rightarrow> Some (Inr ())
      | Some lst \<Rightarrow>
          do {
            w \<leftarrow> extract_notnull ''when'' (ast_left lst);
            case_expr \<leftarrow> ast_left w;
            then_expr \<leftarrow> ast_right w;
            case_result \<leftarrow> ev case_expr (EVAL_NIL D);
            if sem_type case_result = SEM_TYPE_ERROR then
              Some (Inl (result\<lparr>sem_type := SEM_TYPE_ERROR\<rparr>))
            else do {
              yes \<leftarrow> picks case_result;
              if yes then map_option Inl (ev then_expr result)
              else case_loop D ev picks (ast_right lst) result
            }
          })"
  by pat_completeness auto

lemma size_child:
  "ast_left e = Some l \<Longrightarrow> size l < size e" "ast_right e = Some r \<Longrightarrow> size r < size e"
  by (cases e; auto)+

definition opt_size :: "ast option \<Rightarrow> nat" where
  "opt_size p = (case p of None \<Rightarrow> 0 | Some e \<Rightarrow> Suc (size e))"

termination case_loop
proof (relation "measure (\<lambda>(D, ev, picks, p, result). opt_size p)")
  fix D :: "'r double_ops" and ev :: "'r evaluator" and picks :: "'r eval_node \<Rightarrow> bool option"
    and p :: "ast option" and result :: "'r eval_node" and lst
  assume "p = Some lst"
  then show "((D, ev, picks, ast_right lst, result), (D, ev, picks, p, result))
      \<in> measure (\<lambda>(D, ev, picks, p, result). opt_size p)"
    using size_child(2) [of lst] by (auto simp: opt_size_def split: option.splits)
qed simp

declare case_loop.simps [simp del]

definition eval_case_expr :: "'r double_ops \<Rightarrow> 'r eval_fn" where
  "eval_case_expr D ev ast result =
     do {
       connector \<leftarrow> extract_notnull ''connector'' (ast_right ast);
       case_list \<leftarrow> extract_notnull ''case_list'' (ast_left connector);
       answer \<leftarrow>
         (case ast_left ast of
            Some expr \<Rightarrow>
              do {
                test_result \<leftarrow> ev expr (EVAL_NIL D);
                if sem_type test_result = SEM_TYPE_ERROR then
                  Some (Inl (result\<lparr>sem_type := SEM_TYPE_ERROR\<rparr>))
                else case_loop D ev (eval_are_equal D test_result) (Some case_list) result
              }
          | None \<Rightarrow> case_loop D ev (result_is_true D) (Some case_list) result);
       (case answer of
          Inl r \<Rightarrow> Some r
        | Inr _ \<Rightarrow>
            (case ast_right connector of
               Some else_expr \<Rightarrow> ev else_expr result
             | None \<Rightarrow> Some (result\<lparr>sem_type := SEM_TYPE_NULL\<rparr>)))
     }"

section \<open>Results back into text and trees\<close>

text \<open>The decimal text that \<open>printf\<close> gives for \<open>%d\<close> and \<open>%lld\<close>.\<close>

definition digit_char :: "nat \<Rightarrow> char" where
  "digit_char n = char_of (48 + n)"

fun show_nat :: "nat \<Rightarrow> cstring" where
  "show_nat n = (if n < 10 then [digit_char n] else show_nat (n div 10) @ [digit_char (n mod 10)])"

declare show_nat.simps [simp del]

definition show_int :: "int \<Rightarrow> cstring" where
  "show_int i = (if i < 0 then CHR ''-'' # show_nat (nat (- i)) else show_nat (nat i))"

definition eval_format_real :: "'r double_ops \<Rightarrow> 'r \<Rightarrow> charbuf \<Rightarrow> charbuf" where
  "eval_format_real D r out =
     (let tmp = bprintf (snd (bopen 0 raw_charbuf)) (d_format D r);
          p = dropWhile (\<lambda>c. c = CHR '' '') (buf_text tmp)
      in bprintf out p)"

text \<open>
  \<open>eval_set\<close>: the node that represents a result, and its replacement of \<open>expr\<close> in the parent
  (\<open>on_left\<close> says whether \<open>expr\<close> is the left child, the pointer test of the code).
\<close>

definition MIN_LONG :: i64 where
  "MIN_LONG = - 9223372036854775807 - 1"

definition result_node :: "'r double_ops \<Rightarrow> 'r eval_node \<Rightarrow> ast option" where
  "result_node D result =
     (case sem_type result of
        SEM_TYPE_INTEGER \<Rightarrow> Some (Num NUM_INT (show_int (sint (int32_value result))))
      | SEM_TYPE_LONG_INTEGER \<Rightarrow>
          Some (if int64_value result = MIN_LONG
                then Ast ''uminus'' (Some (Num NUM_LONG MIN_LONG_LIT)) None SEM_TYPE_NULL
                else Num NUM_LONG (show_int (sint (int64_value result))))
      | SEM_TYPE_BOOL \<Rightarrow> Some (Num NUM_BOOL (show_int (b2i (bool_value result))))
      | SEM_TYPE_REAL \<Rightarrow>
          Some (Num NUM_REAL (buf_text (eval_format_real D (real_value result) (snd (bopen 0 raw_charbuf)))))
      | SEM_TYPE_NULL \<Rightarrow> Some (Ast ''null'' None None SEM_TYPE_NULL)
      | _ \<Rightarrow> None)"

definition eval_set :: "'r double_ops \<Rightarrow> ast \<Rightarrow> bool \<Rightarrow> 'r eval_node \<Rightarrow> (ast \<times> ast) option" where
  "eval_set D parent on_left result =
     do {
       require (sem_type result \<noteq> SEM_TYPE_ERROR);
       new_num \<leftarrow> result_node D result;
       (case parent of
          Ast t l r sem \<Rightarrow>
            Some (new_num, if on_left then Ast t (Some new_num) r sem else Ast t l (Some new_num) sem)
        | Num _ _ \<Rightarrow> None)
     }"

definition eval_add_one :: "'r double_ops \<Rightarrow> 'r eval_node \<Rightarrow> 'r eval_node option" where
  "eval_add_one D result =
     do {
       require (sem_type result \<noteq> SEM_TYPE_ERROR);
       require (sem_type result \<noteq> SEM_TYPE_NULL);
       (case sem_type result of
          SEM_TYPE_INTEGER \<Rightarrow> Some (result\<lparr>int32_value := int32_value result + 1\<rparr>)
        | SEM_TYPE_LONG_INTEGER \<Rightarrow> Some (result\<lparr>int64_value := int64_value result + 1\<rparr>)
        | SEM_TYPE_REAL \<Rightarrow> Some (result\<lparr>real_value := d_add D (real_value result) (d_of_int D 1)\<rparr>)
        | SEM_TYPE_BOOL \<Rightarrow> Some (result\<lparr>bool_value := \<not> bool_value result\<rparr>)
        | _ \<Rightarrow> None)
     }"

definition EVAL_FORMAT_NORMAL :: int where "EVAL_FORMAT_NORMAL = 1"
definition EVAL_FORMAT_FOR_C :: int where "EVAL_FORMAT_FOR_C = 2"
definition EVAL_FORMAT_FOR_LUA :: int where "EVAL_FORMAT_FOR_LUA = 3"

definition eval_format_number :: "'r double_ops \<Rightarrow> 'r eval_node \<Rightarrow> int \<Rightarrow> charbuf \<Rightarrow> charbuf option" where
  "eval_format_number D result format_mode out =
     do {
       require (sem_type result \<noteq> SEM_TYPE_ERROR);
       require (sem_type result \<noteq> SEM_TYPE_NULL);
       out' \<leftarrow>
         (case sem_type result of
            SEM_TYPE_INTEGER \<Rightarrow> Some (bprintf out (show_int (sint (int32_value result))))
          | SEM_TYPE_LONG_INTEGER \<Rightarrow>
              Some (if format_mode = EVAL_FORMAT_FOR_C then
                      if int64_value result = MIN_LONG
                      then bprintf out ''(_64(-9223372036854775807) - 1)''
                      else bprintf out (''_64('' @ show_int (sint (int64_value result)) @ '')'')
                    else if format_mode = EVAL_FORMAT_FOR_LUA then
                      if int64_value result = MIN_LONG
                      then bprintf out ''(-9223372036854775807 - 1)''
                      else bprintf out (show_int (sint (int64_value result)))
                    else bprintf out (show_int (sint (int64_value result))))
          | SEM_TYPE_REAL \<Rightarrow> Some (eval_format_real D (real_value result) out)
          | SEM_TYPE_BOOL \<Rightarrow> Some (bprintf out (show_int (b2i (bool_value result))))
          | _ \<Rightarrow> None);
       require (cused out' > cused out);
       Some out'
     }"

section \<open>Dispatch\<close>

definition err_result :: "'r double_ops \<Rightarrow> 'r eval_node" where
  "err_result D = (EVAL_NIL D)\<lparr>sem_type := SEM_TYPE_ERROR\<rparr>"

text \<open>
  \<open>eval\<close> looks the node type up in the table of evaluation functions and calls the function it
  finds, which calls \<open>eval\<close> on the children of the node.  \<open>eval_call\<close> is the body of \<open>eval\<close>, with the
  calls that it leads to as a parameter; in \<open>eval\<close> the fuel bounds the depth of the calls, and
  \<open>None\<close> is both undefined behaviour and the end of the fuel.  \<open>calls_agree\<close> below shows that the calls
  end within the size of the tree.
\<close>

definition eval_call ::
  "'r double_ops \<Rightarrow> ('r eval_fn, unit) symtab \<Rightarrow> 'r evaluator \<Rightarrow> 'r evaluator" where
  "eval_call D evals ev expr result =
     do {
       entry \<leftarrow> symtab_find (Some evals) (ast_type expr);
       (case entry of
          None \<Rightarrow> Some (err_result D)
        | Some i \<Rightarrow>
            do {
              disp \<leftarrow> val (payload evals ! i);
              result \<leftarrow> disp ev expr result;
              Some (if sem_type result = SEM_TYPE_ERROR then err_result D else result)
            })
     }"

primrec eval ::
  "'r double_ops \<Rightarrow> ('r eval_fn, unit) symtab \<Rightarrow> nat \<Rightarrow> 'r evaluator" where
  "eval D evals 0 expr result = None"
| "eval D evals (Suc fuel) expr result = eval_call D evals (eval D evals fuel) expr result"

fun expr_init :: "(cstring \<times> 'r eval_fn) list \<Rightarrow> ('r eval_fn, unit) symtab \<Rightarrow> ('r eval_fn, unit) symtab option" where
  "expr_init [] evals = Some evals"
| "expr_init ((x, f) # rest) evals =
     do {
       (added, evals) \<leftarrow> symtab_add evals x (Some f);
       expr_init rest evals
     }"

definition eval_fns :: "'r double_ops \<Rightarrow> (cstring \<times> 'r eval_fn) list" where
  "eval_fns D =
     [(''null'', eval_null D), (''num'', eval_num D), (''add'', eval_add D), (''mul'', eval_mul D),
      (''div'', eval_div D), (''mod'', eval_mod D), (''sub'', eval_sub D), (''lshift'', eval_lshift D),
      (''rshift'', eval_rshift D), (''bin_and'', eval_bin_and D), (''bin_or'', eval_bin_or D),
      (''eq'', eval_eq D), (''lt'', eval_lt D), (''gt'', eval_gt D), (''ne'', eval_ne D),
      (''ge'', eval_ge D), (''le'', eval_le D), (''and'', eval_and D), (''or'', eval_or D),
      (''is'', eval_is D), (''is_not'', eval_is_not D), (''is_true'', eval_is_true D),
      (''is_false'', eval_is_false D), (''is_not_true'', eval_is_not_true D),
      (''is_not_false'', eval_is_not_false D), (''cast_expr'', eval_cast_expr D), (''not'', eval_not D),
      (''tilde'', eval_tilde D), (''uminus'', eval_uminus D), (''case_expr'', eval_case_expr D)]"

definition eval_init :: "'r double_ops \<Rightarrow> ('r eval_fn, unit) symtab option" where
  "eval_init D = expr_init (eval_fns D) symtab_new"

end
