(* ===== verification/Symtab_Correct.thy ===== *)
theory Symtab_Correct
  imports Symtab
begin

text \<open>
  Correctness of the symbol table: both key configurations satisfy the interface of hashed keys,
  every addition returns (one rehash level is enough) and acts on the table as an insertion into a
  finite map, and the sorted copy of a table does not depend on its insertion history.
\<close>

section \<open>The two kinds of keys\<close>

lemma uchar_schar: "uchar c = word_of_int (schar c)"
proof -
  have "uchar c = word_of_int (of_char c)" by (simp only: uchar_def of_int_of_char)
  moreover have "(word_of_int (of_char c - 256) :: u8) = word_of_int (of_char c)"
    by (simp add: word_of_int_eq_iff take_bit_eq_mod)
  ultimately show ?thesis by (simp add: schar_def Let_def)
qed

lemma or_case_bit:
  assumes "65 \<le> i" and "i \<le> (90 :: int)"
  shows "(word_of_int (i + 32) :: u8) OR 0x20 = word_of_int i OR 0x20"
proof -
  have "\<forall>j \<in> set [65..90]. (word_of_int (j + 32) :: u8) OR 0x20 = word_of_int j OR 0x20"
    by code_simp
  from bspec [OF this, of i] show ?thesis using assms by (simp only: set_upto atLeastAtMost_iff)
qed

text \<open>Setting bit 0x20 forgets the case of a letter, so it cannot tell apart what \<open>ToLower\<close> unites.\<close>

lemma or_ToLower: "uchar (ToLower c) OR 0x20 = uchar c OR 0x20"
  using or_case_bit [of "schar c"] by (auto simp: uchar_schar schar_ToLower)

lemma or_same_lower: "ToLower c = ToLower d \<Longrightarrow> uchar c OR 0x20 = uchar d OR 0x20"
  by (metis or_ToLower)

lemma hash_insens_lower:
  "cstr s \<Longrightarrow> cstr t \<Longrightarrow> map ToLower s = map ToLower t \<Longrightarrow>
     hash_case_insens_loop s h = hash_case_insens_loop t h"
proof (induction s arbitrary: t h)
  case (Cons c s)
  then obtain d u where t: "t = d # u" "ToLower c = ToLower d" "map ToLower s = map ToLower u"
    by (cases t) auto
  have "uchar c OR 0x20 = uchar d OR 0x20" using t(2) by (rule or_same_lower)
  then show ?case using Cons.IH Cons.prems t(1,3) by simp
qed simp

lemma hash_case_insens_same:
  "cstr a \<Longrightarrow> cstr b \<Longrightarrow> cmp_case_insens a b = 0 \<Longrightarrow> hash_case_insens a = hash_case_insens b"
  using hash_insens_lower [of a b 0]
  by (simp add: cmp_case_insens_def StrCaseCmp_eq_0 hash_case_insens_def)

interpretation insens: hashed_keys hash_case_insens "\<lambda>a b. cmp_case_insens a b = 0" cstr
  by unfold_locales (auto simp: cmp_case_insens_def StrCaseCmp_eq_0 intro: hash_case_insens_same)

interpretation sens: hashed_keys hash_case_sens "\<lambda>a b. cmp_case_sens a b = 0" cstr
  by unfold_locales (auto simp: cmp_case_sens_def strcmp_eq_0)

section \<open>Invariant and abstraction\<close>

text \<open>
  The hash and comparison functions of a table satisfy the laws of hashed keys, as those of
  \<open>symtab_new\<close> and of \<open>symtab_new_case_sens\<close> do.
\<close>

definition symtab_cfg :: "('v, 'h) symtab \<Rightarrow> bool" where
  "symtab_cfg s \<longleftrightarrow> hashed_keys (hash s) (\<lambda>a b. cmp s a b = 0) cstr"

lemmas cfg_keys = symtab_cfg_def [THEN iffD1]

definition symtab_inv :: "('v, 'h) symtab \<Rightarrow> bool" where
  "symtab_inv s \<longleftrightarrow> symtab_cfg s \<and> length (payload s) = unat (capacity s) \<and> 4 \<le> unat (capacity s) \<and>
     hashed_keys.keys_inv (hash s) (\<lambda>a b. cmp s a b = 0) cstr (symtab_keys s) \<and>
     unat (count s) = used_slots (symtab_keys s) \<and> \<not> over_load_factor (count s) (capacity s)"

fun live :: "'v symtab_entry list \<Rightarrow> (cstring \<times> 'v option) list" where
  "live [] = []"
| "live (e # es) = (case sym e of None \<Rightarrow> live es | Some k \<Rightarrow> (k, val e) # live es)"

definition symtab_entries :: "('v, 'h) symtab \<Rightarrow> (cstring \<times> 'v option) set" where
  "symtab_entries s = set (live (payload s))"

text \<open>What a caller reads off the entry that \<open>symtab_find\<close> returns.\<close>

definition symtab_lookup :: "('v, 'h) symtab \<Rightarrow> cstring \<Rightarrow> 'v option option" where
  "symtab_lookup s k =
     (case symtab_find (Some s) k of Some (Some i) \<Rightarrow> Some (val (payload s ! i)) | _ \<Rightarrow> None)"

lemma live_iff: "(k, v) \<in> set (live es) \<longleftrightarrow> (\<exists>i < length es. sym (es ! i) = Some k \<and> val (es ! i) = v)"
proof (induction es)
  case (Cons e es)
  show ?case by (auto simp: Cons.IH less_Suc_eq_0_disj split: option.splits)
qed simp

lemma length_live: "length (live es) = used_slots (map sym es)"
  by (induction es) (auto simp: used_slots_def split: option.splits)

lemma live_empty [simp]: "live (replicate n empty_entry) = []"
  by (induction n) (auto simp: empty_entry_def)

lemma live_update:
  "j < length es \<Longrightarrow> sym (es ! j) = None \<Longrightarrow>
     set (live (es[j := \<lparr>sym = Some k, val = v\<rparr>])) = insert (k, v) (set (live es))"
proof (induction es arbitrary: j)
  case (Cons e es)
  then show ?case by (cases j) (auto split: option.splits)
qed simp

lemma symtab_keys_nth: "i < length (payload s) \<Longrightarrow> symtab_keys s ! i = sym (payload s ! i)"
  by (simp add: symtab_keys_def)

lemma symtab_keys_length [simp]: "length (symtab_keys s) = length (payload s)"
  by (simp add: symtab_keys_def)

lemma probe_is_seek:
  assumes "symtab_cfg s" and "length (payload s) = unat (capacity s)"
  shows "symtab_probe s k = hashed_keys.seek (hash s) (\<lambda>a b. cmp s a b = 0) (symtab_keys s) k"
  by (simp add: symtab_probe_def hashed_keys.seek_def [OF cfg_keys [OF assms(1)]]
      hashed_keys.home_def [OF cfg_keys [OF assms(1)]] assms(2) Let_def unat_mod_distrib)

lemma symtab_invD:
  assumes "symtab_inv s"
  shows "symtab_cfg s" "length (payload s) = unat (capacity s)" "4 \<le> unat (capacity s)"
    "hashed_keys.keys_inv (hash s) (\<lambda>a b. cmp s a b = 0) cstr (symtab_keys s)"
    "unat (count s) = used_slots (symtab_keys s)" "4 * unat (count s) \<le> 3 * unat (capacity s)"
  using assms by (auto simp: symtab_inv_def over_load_factor_def)

lemma symtab_probe_ends:
  assumes "symtab_inv s"
  obtains j where "j < length (payload s)" and "symtab_probe s k = Some j"
  using hashed_keys.seek_ends [OF cfg_keys [OF symtab_invD(1)] symtab_invD(4), OF assms assms, of k]
    probe_is_seek [OF symtab_invD(1,2), OF assms assms, of k] that by auto

lemma symtab_lookup_iff:
  assumes "symtab_inv s" and "cstr k"
  shows "symtab_lookup s k = Some v \<longleftrightarrow> (\<exists>k'. (k', v) \<in> symtab_entries s \<and> cmp s k' k = 0)"
proof -
  note keys = cfg_keys [OF symtab_invD(1) [OF assms(1)]]
  note inv = symtab_invD(4) [OF assms(1)]
  note seek = probe_is_seek [OF symtab_invD(1,2), OF assms(1) assms(1)]
  obtain j where j: "j < length (payload s)" "symtab_probe s k = Some j"
    using symtab_probe_ends [OF assms(1)] by blast
  have stored: "cmp s x k = 0 \<longleftrightarrow> i = j" if "i < length (payload s)" "sym (payload s ! i) = Some x" for i x
    using hashed_keys.seek_stored [OF keys inv _ _ assms(2), of i x] that j(2)
    by (auto simp: seek symtab_keys_nth)
  have l: "symtab_lookup s k = Some v \<longleftrightarrow> sym (payload s ! j) \<noteq> None \<and> val (payload s ! j) = v"
    using j(2) by (simp add: symtab_lookup_def symtab_find_def)
  show ?thesis
  proof
    assume "symtab_lookup s k = Some v"
    then obtain k' where "sym (payload s ! j) = Some k'" "val (payload s ! j) = v" using l by blast
    then show "\<exists>k'. (k', v) \<in> symtab_entries s \<and> cmp s k' k = 0"
      using j(1) stored [OF j(1)] unfolding symtab_entries_def live_iff by blast
  next
    assume "\<exists>k'. (k', v) \<in> symtab_entries s \<and> cmp s k' k = 0"
    then obtain k' i where "i < length (payload s)" "sym (payload s ! i) = Some k'"
      "val (payload s ! i) = v" "cmp s k' k = 0"
      unfolding symtab_entries_def live_iff by blast
    then show "symtab_lookup s k = Some v" using stored l by auto
  qed
qed

lemma symtab_find_returns: "symtab_inv s \<Longrightarrow> \<exists>r. symtab_find (Some s) k = Some r"
  by (erule symtab_probe_ends [of s k]) (simp add: symtab_find_def)

section \<open>Adding\<close>

text \<open>The state right after the new entry is written and before the load factor is tested.\<close>

definition put_entry :: "('v, 'h) symtab \<Rightarrow> nat \<Rightarrow> cstring \<Rightarrow> 'v option \<Rightarrow> ('v, 'h) symtab" where
  "put_entry s j k v =
     s\<lparr>payload := (payload s)[j := \<lparr>sym = Some k, val = v\<rparr>], count := count s + 1\<rparr>"

lemma put_entry_keys: "symtab_keys (put_entry s j k v) = (symtab_keys s)[j := Some k]"
  by (simp add: put_entry_def symtab_keys_def map_update)

lemma put_entry_fields [simp]:
  "capacity (put_entry s j k v) = capacity s" "hash (put_entry s j k v) = hash s"
  "cmp (put_entry s j k v) = cmp s" "teardown (put_entry s j k v) = teardown s"
  "symtab_cfg (put_entry s j k v) = symtab_cfg s"
  "length (payload (put_entry s j k v)) = length (payload s)"
  by (simp_all add: put_entry_def symtab_cfg_def)

definition same_table :: "('v, 'h) symtab \<Rightarrow> ('v, 'h) symtab \<Rightarrow> bool" where
  "same_table s s' \<longleftrightarrow> hash s' = hash s \<and> cmp s' = cmp s \<and> teardown s' = teardown s"

lemma fresh_slot:
  assumes "symtab_inv s" and "cstr k" and "\<forall>(k', v') \<in> symtab_entries s. cmp s k' k \<noteq> 0"
  obtains j where "j < length (payload s)" "symtab_probe s k = Some j" "sym (payload s ! j) = None"
proof -
  obtain j where j: "j < length (payload s)" "symtab_probe s k = Some j"
    using symtab_probe_ends [OF assms(1)] by blast
  have "symtab_lookup s k = None"
    using symtab_lookup_iff [OF assms(1,2)] assms(3) by (cases "symtab_lookup s k") fastforce+
  then have "sym (payload s ! j) = None"
    using j by (auto simp: symtab_lookup_def symtab_find_def split: if_splits)
  with j that show ?thesis by blast
qed

lemma count_after_put:
  assumes "symtab_inv s" and "j < length (payload s)" and "sym (payload s ! j) = None"
  shows "unat (count (put_entry s j k v)) = unat (count s) + 1"
    and "unat (count (put_entry s j k v)) = used_slots (symtab_keys (put_entry s j k v))"
proof -
  have "unat (count s) + 1 < 2 ^ 32"
    using symtab_invD(3,6) [OF assms(1)] unat_u32_bound [of "capacity s"] by linarith
  then show c: "unat (count (put_entry s j k v)) = unat (count s) + 1"
    by (simp add: put_entry_def unat_plus_u32)
  show "unat (count (put_entry s j k v)) = used_slots (symtab_keys (put_entry s j k v))"
    unfolding c using assms(2,3) symtab_invD(5) [OF assms(1)]
    by (simp add: put_entry_keys used_slots_insert symtab_keys_nth)
qed

lemma put_entry_inv:
  assumes "symtab_inv s" and "cstr k" and "j < length (payload s)" and "symtab_probe s k = Some j"
    and "sym (payload s ! j) = None" and "4 * (unat (count s) + 1) \<le> 3 * unat (capacity s)"
  shows "symtab_inv (put_entry s j k v)"
proof -
  note d = symtab_invD [OF assms(1)]
  have seek: "hashed_keys.seek (hash s) (\<lambda>a b. cmp s a b = 0) (symtab_keys s) k = Some j"
    using probe_is_seek [OF d(1,2)] assms(4) by simp
  have "used_slots ((symtab_keys s)[j := Some k]) < length ((symtab_keys s)[j := Some k])"
    using count_after_put [OF assms(1,3,5), of k v] assms(6) d(2,3) by (simp add: put_entry_keys)
  then have free: "None \<in> set ((symtab_keys s)[j := Some k])" by (rule used_slots_free)
  have "hashed_keys.keys_inv (hash s) (\<lambda>a b. cmp s a b = 0) cstr ((symtab_keys s)[j := Some k])"
    by (rule hashed_keys.keys_inv_insert [OF cfg_keys [OF d(1)] d(4) seek _ assms(2) free])
      (simp add: symtab_keys_nth assms(3,5))
  then show ?thesis
    using d(1,2,3) count_after_put [OF assms(1,3,5), of k v] assms(6)
    by (simp add: symtab_inv_def over_load_factor_def put_entry_keys)
qed

text \<open>Adding a new name below the load factor.\<close>

lemma add_fresh:
  assumes "symtab_inv s" and "cstr k" and "\<forall>(k', v') \<in> symtab_entries s. cmp s k' k \<noteq> 0"
    and "4 * (unat (count s) + 1) \<le> 3 * unat (capacity s)"
  shows "\<exists>s'. symtab_add_with rehash s k v = Some (True, s') \<and> symtab_inv s' \<and>
    symtab_entries s' = insert (k, v) (symtab_entries s) \<and> same_table s s' \<and>
    capacity s' = capacity s \<and> unat (count s') = unat (count s) + 1"
proof -
  obtain j where j: "j < length (payload s)" "symtab_probe s k = Some j" "sym (payload s ! j) = None"
    using fresh_slot [OF assms(1-3)] by blast
  let ?s = "put_entry s j k v"
  have "\<not> over_load_factor (count ?s) (capacity ?s)"
    using count_after_put(1) [OF assms(1) j(1,3), of k v] assms(4) by (simp add: over_load_factor_def)
  then have "symtab_add_with rehash s k v = Some (True, ?s)"
    using j(2,3) by (simp add: symtab_add_with_def put_entry_def)
  moreover have "symtab_entries ?s = insert (k, v) (symtab_entries s)"
    using live_update [OF j(1,3)] by (simp add: symtab_entries_def put_entry_def)
  ultimately show ?thesis
    using put_entry_inv [OF assms(1,2) j assms(4)] count_after_put(1) [OF assms(1) j(1,3), of k v]
    by (simp add: same_table_def)
qed

text \<open>The loop of a rehash adds every live entry and never needs to rehash again.\<close>

lemma rehash_loop_adds:
  assumes "symtab_inv s" and "\<forall>(k, v) \<in> set (live es). cstr k"
    and "\<forall>(k, v) \<in> set (live es). \<forall>(k', v') \<in> symtab_entries s. cmp s k' k \<noteq> 0"
    and "sorted_wrt (\<lambda>e f. \<forall>x y. sym e = Some x \<longrightarrow> sym f = Some y \<longrightarrow> cmp s x y \<noteq> 0) es"
    and "4 * (unat (count s) + length (live es)) \<le> 3 * unat (capacity s)"
  shows "\<exists>s'. rehash_loop rehash es s = Some s' \<and> symtab_inv s' \<and>
    symtab_entries s' = symtab_entries s \<union> set (live es) \<and> same_table s s' \<and> capacity s' = capacity s"
  using assms
proof (induction es arbitrary: s)
  case Nil
  then show ?case by (auto simp: same_table_def)
next
  case (Cons e es)
  show ?case
  proof (cases "sym e")
    case None
    then show ?thesis using Cons.IH [of s] Cons.prems by simp
  next
    case (Some k)
    obtain s1 where s1: "symtab_add_with rehash s k (val e) = Some (True, s1)" "symtab_inv s1"
      "symtab_entries s1 = insert (k, val e) (symtab_entries s)" "same_table s s1"
      "capacity s1 = capacity s" "unat (count s1) = unat (count s) + 1"
      using add_fresh [of s k rehash "val e"] Cons.prems Some by auto
    have c: "cmp s1 = cmp s" using s1(4) by (simp add: same_table_def)
    have new: "cmp s k k' \<noteq> 0" if "(k', v') \<in> set (live es)" for k' v'
      using Cons.prems(4) that Some by (auto simp: live_iff)
    have "\<exists>s'. rehash_loop rehash es s1 = Some s' \<and> symtab_inv s' \<and>
      symtab_entries s' = symtab_entries s1 \<union> set (live es) \<and> same_table s1 s' \<and> capacity s' = capacity s1"
    proof (rule Cons.IH)
      show "\<forall>(k, v) \<in> set (live es). \<forall>(k', v') \<in> symtab_entries s1. cmp s1 k' k \<noteq> 0"
        using Cons.prems(3) Some s1(3) new by (auto simp: c)
    qed (use Cons.prems Some s1 c in auto)
    then show ?thesis using s1 Some by (auto simp: same_table_def)
  qed
qed

text \<open>The table that a rehash starts from is empty.\<close>

lemma empty_table_inv:
  assumes "symtab_cfg s" and "payload s = replicate (unat (capacity s)) empty_entry"
    and "count s = 0" and "4 \<le> unat (capacity s)"
  shows "symtab_inv s" and "symtab_entries s = {}"
proof -
  have k: "symtab_keys s = replicate (unat (capacity s)) None"
    by (simp add: symtab_keys_def assms(2) empty_entry_def)
  show "symtab_inv s"
    using assms hashed_keys.keys_inv_empty [OF cfg_keys [OF assms(1)], of "unat (capacity s)"]
    by (simp add: symtab_inv_def k over_load_factor_def)
  show "symtab_entries s = {}" by (simp add: symtab_entries_def assms(2))
qed

lemma stored_distinct:
  assumes "symtab_inv s" and "i < j" and "j < length (payload s)"
    and "sym (payload s ! i) = Some x" and "sym (payload s ! j) = Some y"
  shows "cmp s x y \<noteq> 0"
  using hashed_keys.keys_distinct [OF cfg_keys [OF symtab_invD(1)] symtab_invD(4),
      OF assms(1) assms(1), of i x j y] assms(2-5)
  by (auto simp: symtab_keys_nth)

lemma stored_cstr:
  assumes "symtab_inv s" and "(k, v) \<in> symtab_entries s"
  shows "cstr k"
proof -
  have "Some k \<in> set (symtab_keys s)"
    using assms(2) unfolding symtab_entries_def live_iff by (metis symtab_keys_nth symtab_keys_length nth_mem)
  then show ?thesis
    by (rule hashed_keys.keys_inv_dom [OF cfg_keys [OF symtab_invD(1)] symtab_invD(4), OF assms(1) assms(1)])
qed

lemma put_entry_distinct:
  assumes "symtab_inv s" and "cstr k" and "j < length (payload s)" and "sym (payload s ! j) = None"
    and "\<forall>(k', v') \<in> symtab_entries s. cmp s k' k \<noteq> 0"
  shows "sorted_wrt (\<lambda>e f. \<forall>x y. sym e = Some x \<longrightarrow> sym f = Some y \<longrightarrow> cmp s x y \<noteq> 0)
    (payload (put_entry s j k v))"
proof (unfold sorted_wrt_iff_nth_less, intro allI impI)
  fix a b x y
  let ?p = "payload (put_entry s j k v)"
  assume ab: "a < b" "b < length ?p" and x: "sym (?p ! a) = Some x" and y: "sym (?p ! b) = Some y"
  note keys = cfg_keys [OF symtab_invD(1) [OF assms(1)]]
  have old: "cmp s z k \<noteq> 0 \<and> cmp s k z \<noteq> 0" if "i < length (payload s)" "sym (payload s ! i) = Some z" for i z
  proof -
    have e: "(z, val (payload s ! i)) \<in> symtab_entries s"
      using that by (auto simp: symtab_entries_def live_iff)
    then have "cmp s z k \<noteq> 0" using assms(5) by blast
    then show ?thesis
      using hashed_keys.same_sym [OF keys assms(2) stored_cstr [OF assms(1) e]] by blast
  qed
  have xs: "if a = j then x = k else sym (payload s ! a) = Some x"
    and ys: "if b = j then y = k else sym (payload s ! b) = Some y"
    using ab x y by (auto simp: put_entry_def nth_list_update split: if_splits)
  have len: "a < length (payload s)" "b < length (payload s)" using ab by auto
  show "cmp s x y \<noteq> 0"
    using xs ys ab(1) old [OF len(1)] old [OF len(2)] stored_distinct [OF assms(1) ab(1) len(2)]
    by (cases "a = j"; cases "b = j") auto
qed

text \<open>Adding a new name at the load factor: the rehash doubles the table and keeps every entry.\<close>

lemma add_fresh_rehash:
  assumes "symtab_inv s" and "cstr k" and "\<forall>(k', v') \<in> symtab_entries s. cmp s k' k \<noteq> 0"
    and "\<not> 4 * (unat (count s) + 1) \<le> 3 * unat (capacity s)" and "unat (capacity s) < 2 ^ 31"
  shows "\<exists>s'. symtab_add s k v = Some (True, s') \<and> symtab_inv s' \<and>
    symtab_entries s' = insert (k, v) (symtab_entries s) \<and> same_table s s' \<and>
    unat (capacity s') = 2 * unat (capacity s)"
proof -
  obtain j where j: "j < length (payload s)" "symtab_probe s k = Some j" "sym (payload s ! j) = None"
    using fresh_slot [OF assms(1-3)] by blast
  let ?s = "put_entry s j k v"
  define e where "e = set_payload (?s\<lparr>count := 0, capacity := capacity ?s * 2\<rparr>)"
  note d = symtab_invD [OF assms(1)]
  have live: "set (live (payload ?s)) = insert (k, v) (symtab_entries s)"
    using live_update [OF j(1,3)] by (simp add: symtab_entries_def put_entry_def)
  have cap: "unat (capacity s * 2) = 2 * unat (capacity s)"
    using assms(5) by (simp add: unat_word_ariths)
  have cfg: "symtab_cfg e" using d(1) by (simp add: e_def set_payload_def symtab_cfg_def)
  have ei: "symtab_inv e" "symtab_entries e = {}"
    using empty_table_inv [OF cfg] d(3) cap by (auto simp: e_def set_payload_def)
  have fields: "hash e = hash s" "cmp e = cmp s" "teardown e = teardown s"
    "capacity e = capacity s * 2" "count e = 0"
    by (simp_all add: e_def set_payload_def)
  have "length (live (payload ?s)) = unat (count s) + 1"
    using count_after_put [OF assms(1) j(1,3), of k v] by (simp add: length_live symtab_keys_def)
  then have room: "4 * (unat (count e) + length (live (payload ?s))) \<le> 3 * unat (capacity e)"
    using d(3,6) cap by (simp add: fields)
  have "\<exists>s'. rehash_loop (symtab_rehash 0) (payload ?s) e = Some s' \<and> symtab_inv s' \<and>
    symtab_entries s' = symtab_entries e \<union> set (live (payload ?s)) \<and> same_table e s' \<and>
    capacity s' = capacity e"
    using ei live assms(2) stored_cstr [OF assms(1)] put_entry_distinct [OF assms(1,2) j(1,3) assms(3)] room
    by (intro rehash_loop_adds) (auto simp: fields)
  then obtain s' where s': "rehash_loop (symtab_rehash 0) (payload ?s) e = Some s'" "symtab_inv s'"
    "symtab_entries s' = insert (k, v) (symtab_entries s)" "same_table s s'" "capacity s' = capacity s * 2"
    using ei(2) live fields by (auto simp: same_table_def)
  have "over_load_factor (count ?s) (capacity ?s)"
    using count_after_put(1) [OF assms(1) j(1,3), of k v] assms(4) by (simp add: over_load_factor_def)
  then have "symtab_add s k v = Some (True, s')"
    using j(2,3) s'(1) by (simp add: symtab_add_def symtab_add_with_def put_entry_def e_def)
  then show ?thesis using s' cap by simp
qed

lemma cmp_refl_str: "symtab_inv s \<Longrightarrow> cstr k \<Longrightarrow> cmp s k k = 0"
  using hashed_keys.same_refl [OF cfg_keys [OF symtab_invD(1)]] by blast

lemma live_distinct:
  "sorted_wrt (\<lambda>e f. \<forall>x y. sym e = Some x \<longrightarrow> sym f = Some y \<longrightarrow> x \<noteq> y) es \<Longrightarrow> distinct (map fst (live es))"
proof (induction es)
  case (Cons e es)
  have "k \<notin> set (map fst (live es))" if "sym e = Some k" for k
  proof
    assume "k \<in> set (map fst (live es))"
    then obtain v where "(k, v) \<in> set (live es)" by auto
    then obtain i where "i < length es" "sym (es ! i) = Some k" unfolding live_iff by blast
    with Cons.prems that show False by auto
  qed
  then show ?case using Cons by (auto split: option.splits)
qed simp

lemma names_distinct:
  assumes "symtab_inv s"
  shows "sorted_wrt (\<lambda>e f. \<forall>x y. sym e = Some x \<longrightarrow> sym f = Some y \<longrightarrow> x \<noteq> y) (payload s)"
proof (unfold sorted_wrt_iff_nth_less, intro allI impI)
  fix i j x y assume ij: "i < j" "j < length (payload s)" and x: "sym (payload s ! i) = Some x"
    and y: "sym (payload s ! j) = Some y"
  have "(x, val (payload s ! i)) \<in> symtab_entries s"
    using ij x unfolding symtab_entries_def live_iff by (intro exI [of _ i]) simp
  then have "cmp s x x = 0" using cmp_refl_str [OF assms] stored_cstr [OF assms] by blast
  then show "x \<noteq> y" using stored_distinct [OF assms ij x y] by metis
qed

lemma count_entries:
  assumes "symtab_inv s"
  shows "unat (count s) = card (symtab_entries s)"
proof -
  have "distinct (live (payload s))" using live_distinct [OF names_distinct [OF assms]] by (simp add: distinct_map)
  then have "card (symtab_entries s) = length (live (payload s))"
    by (simp add: symtab_entries_def distinct_card)
  then show ?thesis using symtab_invD(5) [OF assms] by (simp add: length_live symtab_keys_def)
qed

text \<open>Every addition returns; it adds the entry exactly when no stored name equals the new one.\<close>

lemma symtab_add_total:
  assumes "symtab_inv s" and "cstr k" and "unat (capacity s) < 2 ^ 31"
  shows "\<exists>added s'. symtab_add s k v = Some (added, s') \<and> symtab_inv s' \<and> same_table s s' \<and>
    (added \<longleftrightarrow> symtab_lookup s k = None) \<and>
    symtab_entries s' = (if added then insert (k, v) (symtab_entries s) else symtab_entries s) \<and>
    3 * unat (capacity s') \<le> max (3 * unat (capacity s)) (8 * card (symtab_entries s'))"
proof (cases "symtab_lookup s k")
  case None
  then have "\<forall>(k', v') \<in> symtab_entries s. cmp s k' k \<noteq> 0"
    using symtab_lookup_iff [OF assms(1,2)] by fastforce
  note add = add_fresh [OF assms(1,2) this, of "symtab_rehash 1" v, folded symtab_add_def]
    add_fresh_rehash [OF assms(1,2) this _ assms(3), of v]
  have fresh: "(k, v) \<notin> symtab_entries s"
    using \<open>\<forall>(k', v') \<in> symtab_entries s. cmp s k' k \<noteq> 0\<close> cmp_refl_str [OF assms(1,2)] by blast
  have card: "card (insert (k, v) (symtab_entries s)) = unat (count s) + 1"
    using fresh count_entries [OF assms(1)] by (simp add: symtab_entries_def)
  have "\<exists>s'. symtab_add s k v = Some (True, s') \<and> symtab_inv s' \<and>
    symtab_entries s' = insert (k, v) (symtab_entries s) \<and> same_table s s' \<and>
    3 * unat (capacity s') \<le> max (3 * unat (capacity s)) (8 * (unat (count s) + 1))"
    by (cases "4 * (unat (count s) + 1) \<le> 3 * unat (capacity s)") (use add in force)+
  then obtain s' where s': "symtab_add s k v = Some (True, s')" "symtab_inv s'"
    "symtab_entries s' = insert (k, v) (symtab_entries s)" "same_table s s'"
    "3 * unat (capacity s') \<le> max (3 * unat (capacity s)) (8 * (unat (count s) + 1))" by blast
  show ?thesis
    by (intro exI [of _ True] exI [of _ s'] conjI) (use s' None card in simp_all)
next
  case (Some w)
  then obtain j where "symtab_probe s k = Some j" "sym (payload s ! j) \<noteq> None"
    by (auto simp: symtab_lookup_def symtab_find_def split: option.splits if_splits)
  then have "symtab_add s k v = Some (False, s)"
    by (auto simp: symtab_add_def symtab_add_with_def)
  then show ?thesis using assms(1) Some by (intro exI [of _ False] exI [of _ s]) (simp add: same_table_def)
qed

section \<open>Sorting\<close>

text \<open>What \<open>qsort\<close> needs of a comparator on the elements \<open>dom\<close> that it may meet.\<close>

locale sort_comparator =
  fixes comparator :: "'e \<Rightarrow> 'e \<Rightarrow> int option"
    and dom :: "'e \<Rightarrow> bool"
  assumes defined: "dom x \<Longrightarrow> dom y \<Longrightarrow> \<exists>r. comparator x y = Some r"
    and flips: "dom x \<Longrightarrow> dom y \<Longrightarrow> comparator x y = Some r \<Longrightarrow> comparator y x = Some q \<Longrightarrow> 0 < r \<longleftrightarrow> q < 0"
    and trans: "dom x \<Longrightarrow> dom y \<Longrightarrow> dom z \<Longrightarrow> comparator x y = Some r \<Longrightarrow> r \<le> 0 \<Longrightarrow>
      comparator y z = Some q \<Longrightarrow> q \<le> 0 \<Longrightarrow> \<exists>p. comparator x z = Some p \<and> p \<le> 0"
begin

definition le :: "'e \<Rightarrow> 'e \<Rightarrow> bool" where
  "le x y \<longleftrightarrow> (\<exists>r. comparator x y = Some r \<and> r \<le> 0)"

lemma le_trans: "dom x \<Longrightarrow> dom y \<Longrightarrow> dom z \<Longrightarrow> le x y \<Longrightarrow> le y z \<Longrightarrow> le x z"
  unfolding le_def using trans by blast

lemma qsort_insert_sorted:
  "dom x \<Longrightarrow> \<forall>y \<in> set ys. dom y \<Longrightarrow> sorted_wrt le ys \<Longrightarrow>
     \<exists>zs. qsort_insert comparator x ys = Some zs \<and> mset zs = add_mset x (mset ys) \<and> sorted_wrt le zs"
proof (induction ys)
  case (Cons y ys)
  obtain r where r: "comparator x y = Some r" using defined Cons.prems by force
  obtain q where q: "comparator y x = Some q" using defined Cons.prems by force
  obtain zs where zs: "qsort_insert comparator x ys = Some zs" "mset zs = add_mset x (mset ys)"
    "sorted_wrt le zs"
    using Cons by auto
  show ?case
  proof (cases "r \<le> 0")
    case True
    then have "le x y" using r by (simp add: le_def)
    moreover have "le x z" if "z \<in> set ys" for z
      using that Cons.prems le_trans [of x y z] \<open>le x y\<close> by simp
    ultimately show ?thesis using r True Cons.prems by simp
  next
    case False
    then have "le y x" using flips [of x y r q] r q Cons.prems by (auto simp: le_def)
    moreover have "set zs = insert x (set ys)" using zs(2) by (metis set_mset_add_mset_insert set_mset_mset)
    ultimately show ?thesis using r False zs Cons.prems by simp
  qed
qed simp

lemma qsort_sorted:
  "\<forall>x \<in> set xs. dom x \<Longrightarrow> \<exists>ys. qsort comparator xs = Some ys \<and> mset ys = mset xs \<and> sorted_wrt le ys"
proof (induction xs)
  case (Cons x xs)
  then obtain ys where ys: "qsort comparator xs = Some ys" "mset ys = mset xs" "sorted_wrt le ys" by auto
  then have "\<forall>y \<in> set ys. dom y" using Cons.prems by (metis list.set_intros(2) mset_eq_setD)
  then show ?case using qsort_insert_sorted [of x ys] ys Cons.prems by auto
qed simp

end

text \<open>Two strictly sorted lists of the same elements are equal.\<close>

lemma strictly_sorted_unique:
  "sorted_wrt R xs \<Longrightarrow> sorted_wrt R ys \<Longrightarrow> set xs = set ys \<Longrightarrow>
     (\<And>x y. x \<in> set xs \<Longrightarrow> y \<in> set xs \<Longrightarrow> R x y \<Longrightarrow> \<not> R y x) \<Longrightarrow> xs = ys"
proof (induction xs arbitrary: ys)
  case (Cons x xs)
  from Cons.prems(3) obtain y ys' where ys: "ys = y # ys'" by (cases ys) auto
  have "x = y"
  proof (rule ccontr)
    assume "x \<noteq> y"
    then have "R x y" "R y x" using Cons.prems(1-3) ys by auto
    then show False using Cons.prems(3,4) ys by (metis list.set_intros(1))
  qed
  moreover have "x \<notin> set xs" using Cons.prems(1,4) by (metis list.set_intros(1) sorted_wrt.simps(2))
  moreover have "y \<notin> set ys'"
    using Cons.prems(2,3,4) ys by (metis list.set_intros(1) sorted_wrt.simps(2))
  ultimately have sets: "set xs = set ys'" using Cons.prems(3) ys by auto
  have asym: "\<not> R b a" if "a \<in> set xs" "b \<in> set xs" "R a b" for a b
    using that Cons.prems(4) [of a b] by simp
  have "sorted_wrt R xs" "sorted_wrt R ys'" using Cons.prems(1,2) ys by auto
  then have "xs = ys'" using sets asym by (rule Cons.IH)
  then show ?case using ys \<open>x = y\<close> by simp
qed simp

definition named :: "'v symtab_entry \<Rightarrow> bool" where
  "named e \<longleftrightarrow> (\<exists>k. sym e = Some k \<and> cstr k)"

interpretation by_name: sort_comparator default_symtab_comparator named
proof
  show "\<exists>r. default_symtab_comparator x y = Some r" if "named x" "named y" for x y :: "'a symtab_entry"
    using that by (auto simp: named_def default_symtab_comparator_def)
  show "0 < r \<longleftrightarrow> q < 0" if "named x" "named y" "default_symtab_comparator x y = Some r"
    "default_symtab_comparator y x = Some q" for x y :: "'a symtab_entry" and r q
    using that strcmp_less_antisym by (auto simp: named_def default_symtab_comparator_def)
  show "\<exists>p. default_symtab_comparator x z = Some p \<and> p \<le> 0" if "named x" "named y" "named z"
    "default_symtab_comparator x y = Some r" "r \<le> 0" "default_symtab_comparator y z = Some q" "q \<le> 0"
    for x y z :: "'a symtab_entry" and r q
  proof -
    from that obtain i j k where "sym x = Some i" "cstr i" "sym y = Some j" "cstr j" "sym z = Some k" "cstr k"
      by (auto simp: named_def)
    then show ?thesis
      using that(4-7) strcmp_le_trans [of i j k] by (simp add: default_symtab_comparator_def)
  qed
qed

definition before :: "'v symtab_entry \<Rightarrow> 'v symtab_entry \<Rightarrow> bool" where
  "before e f \<longleftrightarrow> (\<exists>r. default_symtab_comparator e f = Some r \<and> r < 0)"

lemma filter_distinct_names:
  "sorted_wrt (\<lambda>e f. \<forall>x y. sym e = Some x \<longrightarrow> sym f = Some y \<longrightarrow> x \<noteq> y) es \<Longrightarrow>
     distinct (map sym (filter (\<lambda>e. sym e \<noteq> None) es))"
  by (induction es) auto

lemma strictly_before:
  "distinct (map sym es) \<Longrightarrow> \<forall>e \<in> set es. named e \<Longrightarrow> sorted_wrt by_name.le es \<Longrightarrow> sorted_wrt before es"
proof (induction es)
  case (Cons e es)
  have "before e f" if f: "f \<in> set es" for f
  proof -
    from Cons.prems f have ne: "sym e \<noteq> sym f" and n: "named e" "named f" and le: "by_name.le e f" by auto
    then obtain i j where "sym e = Some i" "cstr i" "sym f = Some j" "cstr j" "i \<noteq> j" "strcmp i j \<le> 0"
      by (auto simp: named_def by_name.le_def default_symtab_comparator_def)
    then show ?thesis
      using strcmp_eq_0 [of i j] by (simp add: before_def default_symtab_comparator_def)
  qed
  then show ?case using Cons by simp
qed simp

lemma payload_named:
  assumes "symtab_inv s" and "e \<in> set (payload s)" and "sym e \<noteq> None"
  shows "named e"
proof -
  from assms(2,3) obtain k where "sym e = Some k" "(k, val e) \<in> symtab_entries s"
    unfolding symtab_entries_def live_iff by (auto simp: in_set_conv_nth)
  then show "named e" using stored_cstr [OF assms(1)] by (auto simp: named_def)
qed

lemma sorted_copy:
  assumes "symtab_inv s"
  shows "\<exists>es. symtab_copy_sorted_payload s default_symtab_comparator = Some es \<and>
    sorted_wrt before es \<and> set es = {e \<in> set (payload s). sym e \<noteq> None}"
proof -
  let ?l = "filter (\<lambda>e. sym e \<noteq> None) (payload s)"
  note d = symtab_invD [OF assms]
  have n: "length ?l = unat (count s)"
    using d(5) by (simp add: used_slots_def symtab_keys_def filter_map comp_def)
  have dom: "\<forall>e \<in> set ?l. named e" using payload_named [OF assms] by simp
  obtain es where es: "qsort default_symtab_comparator ?l = Some es" "mset es = mset ?l"
    "sorted_wrt by_name.le es"
    using by_name.qsort_sorted [OF dom] by blast
  have "distinct (map sym ?l)"
    by (rule filter_distinct_names [OF names_distinct [OF assms]])
  then have "distinct (map sym es)"
    using mset_eq_imp_distinct_iff [of "map sym es" "map sym ?l"] es(2) by (metis mset_map)
  moreover have "\<forall>e \<in> set es. named e" using dom es(2) by (metis mset_eq_setD)
  ultimately have "sorted_wrt before es" using es(3) by (rule strictly_before)
  moreover have "set es = {e \<in> set (payload s). sym e \<noteq> None}" using mset_eq_setD [OF es(2)] by auto
  moreover have "symtab_copy_sorted_payload s default_symtab_comparator = Some es"
    using es(1) n d(2) by (simp add: symtab_copy_sorted_payload_def Let_def)
  ultimately show ?thesis by blast
qed

lemma symtab_add_lookup:
  assumes "symtab_inv s" and "cstr k" and "unat (capacity s) < 2 ^ 31"
  shows "\<exists>added s'. symtab_add s k v = Some (added, s') \<and> symtab_inv s' \<and> same_table s s' \<and>
    symtab_entries s' = (if added then insert (k, v) (symtab_entries s) else symtab_entries s) \<and>
    3 * unat (capacity s') \<le> max (3 * unat (capacity s)) (8 * card (symtab_entries s')) \<and>
    added = (symtab_lookup s k = None) \<and>
    (\<forall>k'. cstr k' \<longrightarrow> symtab_find (Some s') k' \<noteq> None \<and>
       symtab_lookup s' k' = (if added \<and> cmp s k k' = 0 then Some v else symtab_lookup s k'))"
proof -
  obtain added s' where a: "symtab_add s k v = Some (added, s')" "symtab_inv s'" "same_table s s'"
    "added \<longleftrightarrow> symtab_lookup s k = None"
    "symtab_entries s' = (if added then insert (k, v) (symtab_entries s) else symtab_entries s)"
    "3 * unat (capacity s') \<le> max (3 * unat (capacity s)) (8 * card (symtab_entries s'))"
    using symtab_add_total [OF assms] by blast
  have look: "symtab_lookup s' k' = (if added \<and> cmp s k k' = 0 then Some v else symtab_lookup s k')"
    if k': "cstr k'" for k'
  proof (cases "added \<and> cmp s k k' = 0")
    case True
    then show ?thesis
      using symtab_lookup_iff [OF a(2) k', of v] a(3,5) by (auto simp: same_table_def)
  next
    case False
    have "symtab_lookup s' k' = Some w \<longleftrightarrow> symtab_lookup s k' = Some w" for w
      using symtab_lookup_iff [OF a(2) k', of w] symtab_lookup_iff [OF assms(1) k', of w] a(3,5) False
      by (auto simp: same_table_def)
    then have "symtab_lookup s' k' = symtab_lookup s k'" by (rule option_eqI)
    then show ?thesis unfolding if_not_P [OF False] .
  qed
  have found: "symtab_find (Some s') k' \<noteq> None" for k'
    using symtab_find_returns [OF a(2), of k'] by auto
  show ?thesis
    using a look found by blast
qed

section \<open>Tables of byte buffers\<close>

lemma teardown_irrelevant [simp]:
  "symtab_inv (s\<lparr>teardown := t\<rparr>) = symtab_inv s" "symtab_entries (s\<lparr>teardown := t\<rparr>) = symtab_entries s"
  "symtab_lookup (s\<lparr>teardown := t\<rparr>) k = symtab_lookup s k"
proof -
  have p: "symtab_probe (s\<lparr>teardown := t\<rparr>) k = symtab_probe s k"
    by (simp add: symtab_probe_def symtab_keys_def)
  show "symtab_lookup (s\<lparr>teardown := t\<rparr>) k = symtab_lookup s k"
    by (cases "symtab_probe s k") (simp_all add: symtab_lookup_def symtab_find_def p)
qed (simp_all add: symtab_inv_def symtab_cfg_def symtab_keys_def symtab_entries_def)

text \<open>Every entry of the table points to its own live buffer.\<close>

definition buffers_inv :: "(addr, 'h) symtab \<Rightarrow> 'o heap \<Rightarrow> bool" where
  "buffers_inv s h \<longleftrightarrow> symtab_inv s \<and>
     (\<forall>(k, v) \<in> symtab_entries s. \<exists>a b. v = Some a \<and> heap_get a h = Some b) \<and>
     (\<forall>(k, v) \<in> symtab_entries s. \<forall>(k', v') \<in> symtab_entries s. v = v' \<longrightarrow> cmp s k k' = 0)"

definition buffer_at :: "(addr, 'h) symtab \<Rightarrow> 'o heap \<Rightarrow> cstring \<Rightarrow> 'o option" where
  "buffer_at s h k = (case symtab_lookup s k of Some (Some a) \<Rightarrow> heap_get a h | _ \<Rightarrow> None)"

definition bytes_at :: "(addr, 'h) symtab \<Rightarrow> bytebuf heap \<Rightarrow> cstring \<Rightarrow> u8 list" where
  "bytes_at s h k = (case buffer_at s h k of None \<Rightarrow> [] | Some b \<Rightarrow> bytebuf_contents b)"

lemma buffers_entry:
  "buffers_inv s h \<Longrightarrow> (x, v) \<in> symtab_entries s \<Longrightarrow> \<exists>a b. v = Some a \<and> heap_get a h = Some b"
  by (auto simp: buffers_inv_def)

lemma buffers_shared:
  "buffers_inv s h \<Longrightarrow> (x, v) \<in> symtab_entries s \<Longrightarrow> (y, v) \<in> symtab_entries s \<Longrightarrow> cmp s x y = 0"
  by (auto simp: buffers_inv_def)

lemma lookup_same:
  assumes "symtab_inv s" and "cstr k" and "cstr k'" and "cmp s k k' = 0"
  shows "symtab_lookup s k' = symtab_lookup s k"
proof -
  note keys = cfg_keys [OF symtab_invD(1) [OF assms(1)]]
  have "cmp s x k' = 0 \<longleftrightarrow> cmp s x k = 0" if "(x, w) \<in> symtab_entries s" for x w
    using hashed_keys.same_trans [OF keys] hashed_keys.same_sym [OF keys] stored_cstr [OF assms(1) that] assms(2-4)
    by blast
  then have "symtab_lookup s k' = Some w \<longleftrightarrow> symtab_lookup s k = Some w" for w
    unfolding symtab_lookup_iff [OF assms(1,2)] symtab_lookup_iff [OF assms(1,3)] by blast
  then show ?thesis by (rule option_eqI)
qed

lemma lookup_apart:
  assumes "buffers_inv s h" and "cstr k" and "cstr k'" and "cmp s k k' \<noteq> 0"
    and "symtab_lookup s k = Some v" and "symtab_lookup s k' = Some v'"
  shows "v' \<noteq> v"
proof
  assume "v' = v"
  have inv: "symtab_inv s" using assms(1) by (simp add: buffers_inv_def)
  note keys = cfg_keys [OF symtab_invD(1) [OF inv]]
  obtain x where x: "(x, v) \<in> symtab_entries s" "cmp s x k = 0"
    using assms(5) symtab_lookup_iff [OF inv assms(2)] by blast
  obtain y where y: "(y, v') \<in> symtab_entries s" "cmp s y k' = 0"
    using assms(6) symtab_lookup_iff [OF inv assms(3)] by blast
  note cx = stored_cstr [OF inv x(1)] and cy = stored_cstr [OF inv y(1)]
  have xy: "cmp s x y = 0" using buffers_shared [OF assms(1) x(1)] y(1) \<open>v' = v\<close> by simp
  have "cmp s k x = 0" by (rule hashed_keys.same_sym [OF keys cx assms(2) x(2)])
  then have "cmp s k y = 0" by (rule hashed_keys.same_trans [OF keys assms(2) cx cy _ xy])
  then have "cmp s k k' = 0" by (rule hashed_keys.same_trans [OF keys assms(2) cy assms(3) _ y(2)])
  with assms(4) show False by simp
qed

lemma lookup_live:
  assumes "buffers_inv s h" and "cstr k" and "symtab_lookup s k = Some v"
  obtains a b where "v = Some a" and "heap_get a h = Some b"
proof -
  have inv: "symtab_inv s" using assms(1) by (simp add: buffers_inv_def)
  obtain x where "(x, v) \<in> symtab_entries s"
    using assms(3) symtab_lookup_iff [OF inv assms(2)] by blast
  then show ?thesis using buffers_entry [OF assms(1)] that by blast
qed

lemma heap_get_set:
  "a < length h \<Longrightarrow> heap_get b (heap_set a x h) = (if b = a then x else heap_get b h)"
  by (auto simp: heap_get_def heap_set_def)

lemma heap_get_bound: "heap_get a h = Some b \<Longrightarrow> a < length h"
  by (auto simp: heap_get_def split: if_splits)

lemma heap_get_new: "heap_get a (h @ [Some x]) = (if a = length h then Some x else heap_get a h)"
  by (auto simp: heap_get_def nth_append)

text \<open>The buffer of a name that has one.\<close>

lemma append_existing:
  assumes "buffers_inv s h" and "cstr k" and "symtab_lookup s k = Some (Some a)"
    and "heap_get a h = Some b"
  shows "symtab_append_bytes s k bytes n h =
      Some (s\<lparr>teardown := Some bytebuf_teardown\<rparr>, heap_set a (Some (bytebuf_append b bytes (of_nat n))) h)"
    and "buffers_inv (s\<lparr>teardown := Some bytebuf_teardown\<rparr>) (heap_set a (Some c) h)"
    and "cstr k' \<Longrightarrow> buffer_at s (heap_set a (Some c) h) k' = (if cmp s k k' = 0 then Some c else buffer_at s h k')"
proof -
  let ?s = "s\<lparr>teardown := Some bytebuf_teardown\<rparr>"
  have inv: "symtab_inv s" using assms(1) by (simp add: buffers_inv_def)
  have "symtab_lookup ?s k = Some (Some a)" using assms(3) by simp
  then obtain i where "symtab_find (Some ?s) k = Some (Some i)" "val (payload ?s ! i) = Some a"
    unfolding symtab_lookup_def by (auto split: option.splits)
  then show "symtab_append_bytes s k bytes n h =
      Some (?s, heap_set a (Some (bytebuf_append b bytes (of_nat n))) h)"
    using assms(4) by (simp add: symtab_append_bytes_def symtab_ensure_bytebuf_def)
  note bound = heap_get_bound [OF assms(4)]
  have "\<exists>x y. v = Some x \<and> heap_get x (heap_set a (Some c) h) = Some y" if "(z, v) \<in> symtab_entries s" for z v
    using assms(1) that heap_get_set [OF bound, of _ "Some c"] unfolding buffers_inv_def by fastforce
  then show "buffers_inv ?s (heap_set a (Some c) h)"
    using assms(1) unfolding buffers_inv_def by auto
  show "buffer_at s (heap_set a (Some c) h) k' = (if cmp s k k' = 0 then Some c else buffer_at s h k')"
    if k': "cstr k'"
  proof (cases "cmp s k k' = 0")
    case True
    then show ?thesis
      using lookup_same [OF inv assms(2) k'] assms(3) heap_get_set [OF bound] by (simp add: buffer_at_def)
  next
    case False
    then have "symtab_lookup s k' \<noteq> Some (Some a)" using lookup_apart [OF assms(1,2) k' _ assms(3)] by blast
    then show ?thesis using False heap_get_set [OF bound] by (auto simp: buffer_at_def split: option.splits)
  qed
qed

text \<open>A name that is new gets a fresh buffer.\<close>

lemma append_new:
  assumes "buffers_inv s h" and "cstr k" and "unat (capacity s) < 2 ^ 31" and "symtab_lookup s k = None"
  shows "\<exists>s' h'. symtab_append_bytes s k bytes n h = Some (s', h') \<and> buffers_inv s' h' \<and>
    (\<forall>k'. cstr k' \<longrightarrow> buffer_at s' h' k' =
       (if cmp s k k' = 0 then Some (bytebuf_append (bytebuf_open new_bytebuf) bytes (of_nat n))
        else buffer_at s h k'))"
proof -
  let ?s = "s\<lparr>teardown := Some bytebuf_teardown\<rparr>"
  let ?c = "bytebuf_append (bytebuf_open new_bytebuf) bytes (of_nat n)"
  let ?a = "length h"
  have inv: "symtab_inv ?s" using assms(1) by (simp add: buffers_inv_def)
  obtain s' where s': "symtab_add ?s k (Some ?a) = Some (True, s')" "symtab_inv s'" "same_table ?s s'"
    "symtab_entries s' = insert (k, Some ?a) (symtab_entries s)"
    "\<forall>k'. cstr k' \<longrightarrow> symtab_lookup s' k' = (if cmp s k k' = 0 then Some (Some ?a) else symtab_lookup s k')"
  proof -
    have cap: "unat (capacity ?s) < 2 ^ 31" using assms(3) by simp
    from symtab_add_lookup [OF inv assms(2) cap, of "Some ?a"] obtain added s'
      where a: "symtab_add ?s k (Some ?a) = Some (added, s')" "symtab_inv s'" "same_table ?s s'"
        "symtab_entries s' = (if added then insert (k, Some ?a) (symtab_entries ?s) else symtab_entries ?s)"
        "added = (symtab_lookup ?s k = None)"
        "\<forall>k'. cstr k' \<longrightarrow> symtab_find (Some s') k' \<noteq> None \<and> symtab_lookup s' k' =
           (if added \<and> cmp ?s k k' = 0 then Some (Some ?a) else symtab_lookup ?s k')"
      by blast
    have t: "added = True" using a(5) assms(4) by simp
    have c: "cmp ?s = cmp s" by simp
    show ?thesis
      using a(6) by (intro that [OF a(1) [unfolded t] a(2,3)])
        (simp_all only: a(4) t c if_True simp_thms teardown_irrelevant, blast)
  qed
  have old: "\<exists>b c. v = Some b \<and> b \<noteq> ?a \<and> heap_get b h = Some c" if e: "(x, v) \<in> symtab_entries s" for x v
  proof -
    obtain b c where "v = Some b" "heap_get b h = Some c" using buffers_entry [OF assms(1) e] by blast
    then show ?thesis using heap_get_bound [of b h c] by auto
  qed
  have cs: "cmp s' = cmp s" using s'(3) by (simp add: same_table_def)
  have "\<exists>a c. v = Some a \<and> heap_get a (h @ [Some ?c]) = Some c" if "(x, v) \<in> symtab_entries s'" for x v
    using that s'(4) old [of x v] by (auto simp: heap_get_new)
  moreover have "cmp s x y = 0"
    if "(x, v) \<in> symtab_entries s'" "(y, v) \<in> symtab_entries s'" for x y v
  proof (cases "v = Some ?a")
    case True
    then have "x = k" "y = k" using that s'(4) old by auto
    then show ?thesis using cmp_refl_str [OF inv assms(2)] by simp
  next
    case False
    then show ?thesis using that s'(4) buffers_shared [OF assms(1), of x v y] by simp
  qed
  ultimately have "buffers_inv s' (h @ [Some ?c])"
    unfolding buffers_inv_def cs using s'(2) by fast
  moreover have "symtab_find (Some ?s) k = Some None"
    using symtab_find_returns [OF inv, of k] assms(4) teardown_irrelevant(3) [of "Some bytebuf_teardown" s k]
    unfolding symtab_lookup_def by (auto split: option.splits)
  then have "symtab_append_bytes s k bytes n h = Some (s', h @ [Some ?c])"
    using s'(1) by (simp add: symtab_append_bytes_def symtab_ensure_bytebuf_def heap_new_def heap_get_new heap_set_def)
  moreover have "buffer_at s' (h @ [Some ?c]) k' = (if cmp s k k' = 0 then Some ?c else buffer_at s h k')"
    if k': "cstr k'" for k'
  proof (cases "symtab_lookup s k'")
    case (Some v)
    then obtain b c where "v = Some b" "heap_get b h = Some c" using lookup_live [OF assms(1) k' Some] by blast
    moreover have "b \<noteq> ?a" using calculation heap_get_bound [of b h c] by auto
    ultimately show ?thesis using Some s'(5) k' by (simp add: buffer_at_def heap_get_new)
  qed (use s'(5) k' in \<open>simp add: buffer_at_def heap_get_new\<close>)
  ultimately show ?thesis by blast
qed

section \<open>Properties\<close>

text \<open>
  C4. The symbol table implements an insert-only finite map.  On a well-formed table
  \<open>symtab_add\<close> always returns (probing ends and a rehash is never nested), keeps the invariant and
  reports true exactly when the name was not there; afterwards \<open>symtab_find\<close> returns the new value
  for every spelling of the new name and what it returned before for every other name, also when the
  addition rehashed the table.
\<close>

theorem symtab_add_find:
  assumes "symtab_inv s" and "cstr k" and "unat (capacity s) < 2 ^ 31"
  shows "\<exists>added s'. symtab_add s k v = Some (added, s') \<and> symtab_inv s' \<and>
    added = (symtab_lookup s k = None) \<and>
    (\<forall>k'. cstr k' \<longrightarrow> symtab_find (Some s') k' \<noteq> None \<and>
       symtab_lookup s' k' = (if added \<and> cmp s k k' = 0 then Some v else symtab_lookup s k'))"
  using symtab_add_lookup [OF assms, of v] by blast

lemma symtab_new_inv: "symtab_inv symtab_new" "symtab_entries symtab_new = {}"
  by (rule empty_table_inv; simp add: symtab_new_def set_payload_def symtab_cfg_def insens.hashed_keys_axioms SYMTAB_INIT_SIZE_def)+

lemma empty_lookup: "symtab_inv s \<Longrightarrow> symtab_entries s = {} \<Longrightarrow> cstr k \<Longrightarrow> symtab_lookup s k = None"
  using symtab_lookup_iff [of s k] by (cases "symtab_lookup s k") auto

lemma symtab_new_fields [simp]:
  "capacity symtab_new = 4" "cmp symtab_new = cmp_case_insens"
  by (simp_all add: symtab_new_def set_payload_def SYMTAB_INIT_SIZE_def)

lemma foo_spellings: "cmp_case_insens ''Foo'' ''fOO'' = 0" "cstr ''Foo''" "cstr ''fOO''"
proof -
  show c: "cstr ''Foo''" "cstr ''fOO''" by simp_all
  have "map ToLower ''Foo'' = map ToLower ''fOO''" by code_simp
  then show "cmp_case_insens ''Foo'' ''fOO'' = 0"
    by (simp only: cmp_case_insens_def StrCaseCmp_eq_0 [OF c])
qed

theorem symtab_add_find_witness:
  "\<exists>s'. symtab_add (symtab_new :: (nat, unit) symtab) ''Foo'' (Some 7) = Some (True, s') \<and>
     symtab_lookup s' ''fOO'' = Some (Some 7)"
proof -
  let ?s = "symtab_new :: (nat, unit) symtab"
  have "unat (capacity ?s) < 2 ^ 31" by simp
  from symtab_add_find [OF symtab_new_inv(1) foo_spellings(2) this, of "Some 7"]
  obtain added s' where s': "symtab_add ?s ''Foo'' (Some 7) = Some (added, s')"
    "added = (symtab_lookup ?s ''Foo'' = None)"
    "\<forall>k'. cstr k' \<longrightarrow> symtab_find (Some s') k' \<noteq> None \<and> symtab_lookup s' k' =
       (if added \<and> cmp ?s ''Foo'' k' = 0 then Some (Some 7) else symtab_lookup ?s k')"
    by blast
  have t: "added = True"
    using s'(2) empty_lookup [OF symtab_new_inv foo_spellings(2)] by simp
  have "symtab_lookup s' ''fOO'' = Some (Some 7)"
    using s'(3) foo_spellings(1,3) t by (simp only: symtab_new_fields if_True simp_thms)
  then show ?thesis using s'(1) t by blast
qed

text \<open>
  C31. The sorted copy of a symbol table holds exactly its entries in strictly increasing order of
  their names, and it depends on the entries only: two tables with the same entries give the same
  array, whatever their capacities and the order of the additions.
\<close>

theorem sorted_payload_reproducible:
  assumes "symtab_inv s" and "symtab_inv t"
    and "{e \<in> set (payload s). sym e \<noteq> None} = {e \<in> set (payload t). sym e \<noteq> None}"
  shows "\<exists>es. symtab_copy_sorted_payload s default_symtab_comparator = Some es \<and>
    symtab_copy_sorted_payload t default_symtab_comparator = Some es \<and>
    sorted_wrt before es \<and> set es = {e \<in> set (payload s). sym e \<noteq> None}"
proof -
  obtain es where es: "symtab_copy_sorted_payload s default_symtab_comparator = Some es"
    "sorted_wrt before es" "set es = {e \<in> set (payload s). sym e \<noteq> None}"
    using sorted_copy [OF assms(1)] by blast
  obtain fs where fs: "symtab_copy_sorted_payload t default_symtab_comparator = Some fs"
    "sorted_wrt before fs" "set fs = {e \<in> set (payload t). sym e \<noteq> None}"
    using sorted_copy [OF assms(2)] by blast
  have asym: "\<not> before y x" if "x \<in> set es" "y \<in> set es" "before x y" for x y
  proof -
    have n: "named x" "named y" using that es(3) payload_named [OF assms(1)] by auto
    then show ?thesis
      using that(3) by_name.flips [of x y] by_name.flips [of y x] unfolding before_def by fastforce
  qed
  have sets: "set es = set fs" using es(3) fs(3) assms(3) by simp
  have "es = fs" by (rule strictly_sorted_unique [OF es(2) fs(2) sets asym])
  then show ?thesis using es fs by blast
qed

theorem sorted_payload_reproducible_witness:
  "symtab_copy_sorted_payload (symtab_new :: (nat, unit) symtab) default_symtab_comparator =
   symtab_copy_sorted_payload (symtab_new\<lparr>capacity := 8, payload := replicate 8 empty_entry\<rparr> :: (nat, unit) symtab)
     default_symtab_comparator"
proof -
  let ?s = "symtab_new :: (nat, unit) symtab"
  let ?t = "?s\<lparr>capacity := 8, payload := replicate 8 empty_entry\<rparr>"
  have t: "symtab_inv ?t"
    by (rule empty_table_inv(1)) (simp_all add: symtab_cfg_def insens.hashed_keys_axioms symtab_new_def set_payload_def)
  have "{e \<in> set (payload ?s). sym e \<noteq> None} = {e \<in> set (payload ?t). sym e \<noteq> None}"
    by (auto simp: symtab_new_def set_payload_def empty_entry_def split: if_splits)
  from sorted_payload_reproducible [OF symtab_new_inv(1) t this] show ?thesis by auto
qed

text \<open>
  \<open>symtab_append_bytes\<close> appends the bytes to the buffer of the given name, which it creates when
  the name is new, and to no other buffer of the table; every name keeps its own live buffer.
\<close>

theorem append_bytes_to_one_name:
  assumes "buffers_inv s h" and "cstr k" and "unat (capacity s) < 2 ^ 31"
    and "\<forall>b. buffer_at s h k = Some b \<longrightarrow> bytebuf_ready (length bytes) b"
    and "2 * length bytes + 1024 < 2 ^ 32"
  shows "\<exists>s' h'. symtab_append_bytes s k bytes (length bytes) h = Some (s', h') \<and> buffers_inv s' h' \<and>
    (\<forall>k'. cstr k' \<longrightarrow> bytes_at s' h' k' =
       (if cmp s k k' = 0 then bytes_at s h k @ bytes else bytes_at s h k'))"
proof (cases "symtab_lookup s k")
  case None
  note new = append_new [OF assms(1-3) None]
  have "bytebuf_contents (bytebuf_append (bytebuf_open new_bytebuf) bytes (of_nat (length bytes))) = bytes"
    using bytebuf_append_spec(2) [OF bytebuf_open_ready [OF assms(5)]]
    by (simp add: bytebuf_put_def bytebuf_open_contents)
  moreover have "bytes_at s h k = []" using None by (simp add: bytes_at_def buffer_at_def)
  ultimately show ?thesis using new [of bytes "length bytes"] by (fastforce simp: bytes_at_def)
next
  case (Some v)
  obtain a b where v: "v = Some a" "heap_get a h = Some b"
    using lookup_live [OF assms(1,2) Some] by blast
  have at: "buffer_at s h k = Some b" using Some v by (simp add: buffer_at_def)
  let ?c = "bytebuf_append b bytes (of_nat (length bytes))"
  let ?s = "s\<lparr>teardown := Some bytebuf_teardown\<rparr>"
  have c: "bytebuf_contents ?c = bytebuf_contents b @ bytes"
    using bytebuf_append_spec(2) [of bytes b] assms(4) at by (simp add: bytebuf_put_def)
  note old = append_existing [OF assms(1,2), of a b, OF _ v(2)]
  have "bytes_at ?s (heap_set a (Some ?c) h) k' =
      (if cmp s k k' = 0 then bytes_at s h k @ bytes else bytes_at s h k')" if "cstr k'" for k'
    using old(3) [of k' ?c] that Some v(1) c at by (simp add: bytes_at_def buffer_at_def)
  then show ?thesis using old(1,2) Some v(1) by blast
qed

theorem append_bytes_to_one_name_witness:
  "\<exists>s' h'. symtab_append_bytes symtab_new ''Foo'' [1, 2] 2 [] = Some (s', h') \<and>
     bytes_at s' h' ''fOO'' = [1, 2]"
proof -
  let ?s = "symtab_new :: (addr, bytebuf heap) symtab"
  have inv: "buffers_inv ?s ([] :: bytebuf heap)" by (simp add: buffers_inv_def symtab_new_inv)
  have l: "symtab_lookup ?s ''Foo'' = None" by (rule empty_lookup [OF symtab_new_inv foo_spellings(2)])
  have e: "bytes_at ?s [] ''Foo'' = []" "buffer_at ?s ([] :: bytebuf heap) ''Foo'' = None"
    using l by (simp_all add: bytes_at_def buffer_at_def)
  have side: "unat (capacity ?s) < 2 ^ 31" "2 * length [1 :: u8, 2] + 1024 < 2 ^ 32"
    "\<forall>b. buffer_at ?s [] ''Foo'' = Some b \<longrightarrow> bytebuf_ready (length [1 :: u8, 2]) b"
    using e(2) by simp_all
  have n: "length [1 :: u8, 2] = 2" by simp
  obtain s' h' where "symtab_append_bytes ?s ''Foo'' [1, 2] 2 [] = Some (s', h')"
    "\<forall>k'. cstr k' \<longrightarrow> bytes_at s' h' k' =
       (if cmp ?s ''Foo'' k' = 0 then bytes_at ?s [] ''Foo'' @ [1, 2] else bytes_at ?s [] k')"
    using append_bytes_to_one_name [OF inv foo_spellings(2) side(1,3,2)] unfolding n by blast
  moreover from this(2) have "bytes_at s' h' ''fOO'' = [1, 2]"
    using foo_spellings(1,3) e(1) by (simp only: symtab_new_fields if_True append_Nil simp_thms)
  ultimately show ?thesis by blast
qed

end
