(* ===== verification/Eval_Correct.thy ===== *)
theory Eval_Correct
  imports Eval Symtab_Correct
begin

text \<open>
  Correctness of the constant evaluator: the dispatch table, the fuel, the values computed by the
  operators (seen through the abstraction of a node to its value), the three-valued logic, and the
  round trip between results and the nodes that replace folded expressions.
\<close>

section \<open>The dispatch table\<close>

text \<open>The first function of a list whose name equals the node type, up to case.\<close>

fun find_fn :: "(cstring \<times> 'a) list \<Rightarrow> cstring \<Rightarrow> 'a option" where
  "find_fn [] k = None"
| "find_fn ((x, f) # rest) k = (if cmp_case_insens x k = 0 then Some f else find_fn rest k)"

lemma expr_init_lookup:
  assumes "symtab_inv s" and "cmp s = cmp_case_insens" and "\<forall>(x, f) \<in> set fs. cstr x"
    and "3 * unat (capacity s) \<le> max 12 (8 * card (symtab_entries s))"
    and "card (symtab_entries s) + length fs < 2 ^ 20"
  shows "\<exists>t. expr_init fs s = Some t \<and> symtab_inv t \<and> same_table s t \<and>
    symtab_entries t \<subseteq> symtab_entries s \<union> {(x, Some f) | x f. (x, f) \<in> set fs} \<and>
    (\<forall>k. cstr k \<longrightarrow> symtab_lookup t k =
       (case symtab_lookup s k of Some v \<Rightarrow> Some v | None \<Rightarrow> map_option Some (find_fn fs k)))"
  using assms
proof (induction fs arbitrary: s)
  case Nil
  then show ?case by (auto simp: same_table_def split: option.splits)
next
  case (Cons xf fs)
  obtain x f where xf: "xf = (x, f)" by fastforce
  have "max 12 (8 * card (symtab_entries s)) < 3 * 2 ^ 31" using Cons.prems(5) by simp
  then have cap: "unat (capacity s) < 2 ^ 31" using Cons.prems(4) by linarith
  have x: "cstr x" using Cons.prems(3) xf by simp
  obtain added s1 where s1: "symtab_add s x (Some f) = Some (added, s1)" "symtab_inv s1" "same_table s s1"
    "symtab_entries s1 = (if added then insert (x, Some f) (symtab_entries s) else symtab_entries s)"
    "3 * unat (capacity s1) \<le> max (3 * unat (capacity s)) (8 * card (symtab_entries s1))"
    "added = (symtab_lookup s x = None)"
    "\<forall>k'. cstr k' \<longrightarrow> symtab_find (Some s1) k' \<noteq> None \<and> symtab_lookup s1 k' =
       (if added \<and> cmp s x k' = 0 then Some (Some f) else symtab_lookup s k')"
    using symtab_add_lookup [OF Cons.prems(1) x cap] by blast
  have fin: "finite (symtab_entries s)" by (simp add: symtab_entries_def)
  have card: "card (symtab_entries s) \<le> card (symtab_entries s1)"
    "card (symtab_entries s1) \<le> card (symtab_entries s) + 1"
    using s1(4) fin card_insert_le [of "symtab_entries s" "(x, Some f)"]
      card_insert_le_m1 [of "card (symtab_entries s) + 1" "symtab_entries s" "(x, Some f)"] by auto
  have b4: "3 * unat (capacity s1) \<le> max 12 (8 * card (symtab_entries s1))"
    using s1(5) Cons.prems(4) card(1) by linarith
  have b5: "card (symtab_entries s1) + length fs < 2 ^ 20" using Cons.prems(5) card(2) by simp
  have c1: "cmp s1 = cmp_case_insens" using s1(3) Cons.prems(2) by (simp add: same_table_def)
  have d: "\<forall>(x, f) \<in> set fs. cstr x" using Cons.prems(3) by simp
  obtain t where t: "expr_init fs s1 = Some t" "symtab_inv t \<and> same_table s1 t"
    "symtab_entries t \<subseteq> symtab_entries s1 \<union> {(x, Some f) | x f. (x, f) \<in> set fs}"
    "\<forall>k. cstr k \<longrightarrow> symtab_lookup t k =
       (case symtab_lookup s1 k of Some v \<Rightarrow> Some v | None \<Rightarrow> map_option Some (find_fn fs k))"
    using Cons.IH [OF s1(2) c1 d b4 b5] by blast
  have "symtab_lookup t k =
      (case symtab_lookup s k of Some v \<Rightarrow> Some v | None \<Rightarrow> map_option Some (find_fn (xf # fs) k))"
    if k: "cstr k" for k
  proof (cases "cmp_case_insens x k = 0")
    case True
    have "cmp s x k = 0" using True Cons.prems(2) by simp
    then have "symtab_lookup s k = symtab_lookup s x" by (rule lookup_same [OF Cons.prems(1) x k])
    then show ?thesis using t(4) s1(6,7) k True xf Cons.prems(2) by (auto split: option.splits)
  next
    case False
    then show ?thesis using t(4) s1(7) k xf Cons.prems(2) by (simp split: option.splits)
  qed
  moreover have "symtab_entries t \<subseteq> symtab_entries s \<union> {(x, Some f) | x f. (x, f) \<in> set (xf # fs)}"
    using t(3) s1(4) xf by (auto split: if_splits)
  moreover have "expr_init (xf # fs) s = Some t" using t(1) s1(1) xf by simp
  moreover have "same_table s t" using t(2) s1(3) by (simp add: same_table_def)
  ultimately show ?case using t(2) by blast
qed

lemma eval_fns_cstr: "\<forall>(x, f) \<in> set (eval_fns D). cstr x"
  by (simp add: eval_fns_def)

lemma eval_init_table:
  obtains t where "eval_init D = Some t" and "symtab_inv t"
    and "hash t = hash_case_insens" and "cmp t = cmp_case_insens" and "symtab_entries t \<subseteq> {(x, Some f) | x f. (x, f) \<in> set (eval_fns D)}"
    and "\<And>k. cstr k \<Longrightarrow> symtab_lookup t k = map_option Some (find_fn (eval_fns D) k)"
proof -
  let ?s = "symtab_new :: ('a eval_fn, unit) symtab"
  have c: "card (symtab_entries ?s) = 0" by (simp add: symtab_new_inv(2))
  have "length (eval_fns D) = 30" by (simp add: eval_fns_def)
  then have room: "card (symtab_entries ?s) + length (eval_fns D) < 2 ^ 20" using c by simp
  have cap: "3 * unat (capacity ?s) \<le> max 12 (8 * card (symtab_entries ?s))" by simp
  obtain t where t: "expr_init (eval_fns D) ?s = Some t" "symtab_inv t \<and> same_table ?s t"
    "symtab_entries t \<subseteq> symtab_entries ?s \<union> {(x, Some f) | x f. (x, f) \<in> set (eval_fns D)}"
    "\<forall>k. cstr k \<longrightarrow> symtab_lookup t k =
       (case symtab_lookup ?s k of Some v \<Rightarrow> Some v | None \<Rightarrow> map_option Some (find_fn (eval_fns D) k))"
    using expr_init_lookup [OF symtab_new_inv(1) symtab_new_fields(2) eval_fns_cstr cap room] by blast
  have "symtab_lookup ?s k = None" if "cstr k" for k
    by (rule empty_lookup [OF symtab_new_inv that])
  moreover have "hash t = hash_case_insens" "cmp t = cmp_case_insens"
    using t(2) by (simp_all add: same_table_def symtab_new_def set_payload_def)
  ultimately show ?thesis using t that by (simp add: eval_init_def symtab_new_inv(2))
qed

text \<open>A name is read up to its first NUL.\<close>

lemma StrCaseCmp_cview: "StrCaseCmp s (cview t) = StrCaseCmp s t"
proof (induction s t rule: StrCaseCmp.induct)
  case (1 s t)
  have head: "chead (cview t) = chead t" by (cases t) (auto simp: cview_def)
  have "StrCaseCmp (tl s) (tl (cview t)) = StrCaseCmp (tl s) (tl t)"
    if "schar (ToLower (chead s)) - schar (ToLower (chead t)) = 0" "chead s \<noteq> NUL"
  proof -
    have "chead t \<noteq> NUL" using that ToLower_NUL [of "chead s"] by auto
    then have "tl (cview t) = cview (tl t)" by (cases t) (auto simp: cview_def)
    then show ?thesis using 1 [OF refl] that by simp
  qed
  then show ?case
    by (subst (1 2) StrCaseCmp.simps) (simp add: head Let_def)
qed

lemma hash_insens_cview: "hash_case_insens_loop (cview s) h = hash_case_insens_loop s h"
  by (induction s arbitrary: h) (auto simp: cview_def)

lemma find_fn_cview: "find_fn fs (cview k) = find_fn fs k"
  by (induction fs k rule: find_fn.induct) (auto simp: cmp_case_insens_def StrCaseCmp_cview)

lemma symtab_find_cview:
  "hash t = hash_case_insens \<Longrightarrow> cmp t = cmp_case_insens \<Longrightarrow>
     symtab_find (Some t) (cview k) = symtab_find (Some t) k"
  by (simp add: symtab_find_def symtab_probe_def cmp_case_insens_def StrCaseCmp_cview hash_case_insens_def
      hash_insens_cview)

text \<open>A table made by \<open>eval_init\<close>.\<close>

definition evals_ok :: "'r double_ops \<Rightarrow> ('r eval_fn, unit) symtab \<Rightarrow> bool" where
  "evals_ok D t \<longleftrightarrow> eval_init D = Some t"

definition seal :: "'r double_ops \<Rightarrow> 'r eval_node \<Rightarrow> 'r eval_node" where
  "seal D r = (if sem_type r = SEM_TYPE_ERROR then err_result D else r)"

lemma cstr_cview: "cstr (cview k)"
  by (auto simp: cstr_def cview_def dest: set_takeWhileD)

declare eval_call_def [simp]

lemma eval_step:
  assumes "evals_ok D t"
  shows "eval D t (Suc n) e r =
    (case find_fn (eval_fns D) (ast_type e) of
       None \<Rightarrow> Some (err_result D)
     | Some f \<Rightarrow> map_option (seal D) (f (eval D t n) e r))"
proof -
  obtain inv: "symtab_inv t" and cfg: "hash t = hash_case_insens" "cmp t = cmp_case_insens"
    and lk: "\<And>k. cstr k \<Longrightarrow> symtab_lookup t k = map_option Some (find_fn (eval_fns D) k)"
    using assms by (auto simp: evals_ok_def intro: eval_init_table [of D])
  have look: "symtab_lookup t (ast_type e) = map_option Some (find_fn (eval_fns D) (ast_type e))"
    using lk [OF cstr_cview, of "ast_type e"] symtab_find_cview [OF cfg, of "ast_type e"]
    by (simp add: symtab_lookup_def find_fn_cview)
  obtain x where x: "symtab_find (Some t) (ast_type e) = Some x"
    using symtab_find_returns [OF inv] by blast
  show ?thesis
  proof (cases x)
    case None
    then have "find_fn (eval_fns D) (ast_type e) = None" using look x by (simp add: symtab_lookup_def)
    then show ?thesis using x None by simp
  next
    case (Some i)
    then have v: "map_option Some (find_fn (eval_fns D) (ast_type e)) = Some (val (payload t ! i))"
      using look x by (simp add: symtab_lookup_def)
    then obtain f where f: "find_fn (eval_fns D) (ast_type e) = Some f" "val (payload t ! i) = Some f"
      by (cases "find_fn (eval_fns D) (ast_type e)") auto
    show ?thesis
      by (cases "f (eval D t n) e r") (simp_all add: x Some f seal_def)
  qed
qed

section \<open>Enough fuel\<close>

text \<open>An evaluation function that only evaluates subtrees.\<close>

definition subtree_only :: "'r eval_fn \<Rightarrow> bool" where
  "subtree_only f \<longleftrightarrow>
     (\<forall>ev ev' e r. (\<forall>c x. size c < size e \<longrightarrow> ev c x = ev' c x) \<longrightarrow> f ev e r = f ev' e r)"

lemma subtree_onlyI:
  "(\<And>ev ev' e r. (\<And>c x. size c < size e \<Longrightarrow> ev c x = ev' c x) \<Longrightarrow> f ev e r = f ev' e r) \<Longrightarrow> subtree_only f"
  unfolding subtree_only_def by blast

lemma eval_left_cong:
  "(\<And>c x. size c < size e \<Longrightarrow> ev c x = ev' c x) \<Longrightarrow> eval_left ev e = eval_left ev' e"
  by (cases "ast_left e") (auto simp: eval_left_def size_child)

lemma eval_right_cong:
  "(\<And>c x. size c < size e \<Longrightarrow> ev c x = ev' c x) \<Longrightarrow> ast_right e = Some c \<Longrightarrow> ev c x = ev' c x"
  by (simp add: size_child)

lemma eval_operands_cong:
  "(\<And>c x. size c < size e \<Longrightarrow> ev c x = ev' c x) \<Longrightarrow> eval_operands D ev e = eval_operands D ev' e"
  by (cases "ast_left e"; cases "ast_right e") (auto simp: eval_operands_def size_child)

lemma extract_size: "extract_notnull t p = Some e \<Longrightarrow> p = Some e"
  by (auto simp: extract_notnull_def split: option.splits if_splits)

lemma case_loop_cong:
  assumes "\<And>c x. size c < n \<Longrightarrow> ev c x = ev' c x" and "\<And>c. p = Some c \<Longrightarrow> size c < n"
  shows "case_loop D ev picks p r = case_loop D ev' picks p r"
  using assms(2)
proof (induction "opt_size p" arbitrary: p rule: less_induct)
  case less
  show ?case
  proof (cases p)
    case None
    then show ?thesis by (simp add: case_loop.simps)
  next
    case (Some lst)
    have lst: "size lst < n" using less.prems Some by simp
    have IH: "case_loop D ev picks (ast_right lst) r = case_loop D ev' picks (ast_right lst) r"
      using less.hyps [of "ast_right lst"] size_child(2) [of lst] lst
      by (cases "ast_right lst") (auto simp: opt_size_def Some less_trans)
    have sub: "ev c x = ev' c x" if "extract_notnull ''when'' (ast_left lst) = Some w"
      "ast_left w = Some c \<or> ast_right w = Some c" for w c x
    proof -
      have "size w < size lst" using extract_size [OF that(1)] size_child(1) by blast
      moreover have "size c < size w" using that(2) size_child by blast
      ultimately show ?thesis using assms(1) lst by (meson less_trans)
    qed
    show ?thesis
    proof (cases "extract_notnull ''when'' (ast_left lst)")
      case (Some w)
      have "ev c x = ev' c x" if "ast_left w = Some c \<or> ast_right w = Some c" for c x
        using sub [OF Some that] .
      then show ?thesis
        unfolding \<open>p = Some lst\<close>
        by (subst (1 2) case_loop.simps, cases "ast_left w"; cases "ast_right w") (simp_all add: Some IH cong: if_cong)
    qed (simp add: \<open>p = Some lst\<close> case_loop.simps)
  qed
qed

lemma subtree_only_operands:
  "subtree_only (BINARY_OP f g D)" "subtree_only (BINARY_OP_NO_REAL f g D)"
  "subtree_only (COMPARE_BINARY_OP h D)" "subtree_only (eval_is D)" "subtree_only (eval_is_not D)"
  by (rule subtree_onlyI, drule eval_operands_cong [of _ _ _ D],
      simp add: BINARY_OP_def BINARY_OP_NO_REAL_def COMPARE_BINARY_OP_def eval_is_def eval_is_not_def)+

lemma subtree_only_left:
  "subtree_only (eval_not D)" "subtree_only (eval_is_false D)" "subtree_only (eval_is_true D)"
  "subtree_only (eval_is_not_true D)" "subtree_only (eval_is_not_false D)" "subtree_only (eval_tilde D)"
  "subtree_only (eval_uminus D)" "subtree_only (eval_cast_expr D)"
  by (rule subtree_onlyI, drule eval_left_cong,
      simp add: eval_not_def eval_is_false_def eval_is_true_def eval_is_not_true_def
        eval_is_not_false_def eval_tilde_def eval_uminus_def eval_cast_expr_def)+

lemma subtree_only_logic: "subtree_only (eval_and D)" "subtree_only (eval_or D)"
proof -
  show "subtree_only (eval_and D)"
  proof (rule subtree_onlyI)
    fix ev ev' :: "'a evaluator" and e :: ast and r
    assume ev: "\<And>c x. size c < size e \<Longrightarrow> ev c x = ev' c x"
    show "eval_and D ev e r = eval_and D ev' e r"
      using eval_left_cong [of e ev ev', OF ev] eval_right_cong [of e ev ev', OF ev]
      by (cases "ast_right e") (simp_all add: eval_and_def cong: if_cong)
  qed
  show "subtree_only (eval_or D)"
  proof (rule subtree_onlyI)
    fix ev ev' :: "'a evaluator" and e :: ast and r
    assume ev: "\<And>c x. size c < size e \<Longrightarrow> ev c x = ev' c x"
    show "eval_or D ev e r = eval_or D ev' e r"
      using eval_left_cong [of e ev ev', OF ev] eval_right_cong [of e ev ev', OF ev]
      by (cases "ast_right e") (simp_all add: eval_or_def cong: if_cong)
  qed
qed

lemma subtree_only_leaf: "subtree_only (eval_null D)" "subtree_only (eval_num D)"
  by (rule subtree_onlyI, simp add: eval_null_def eval_num_def)+

lemma subtree_only_case: "subtree_only (eval_case_expr D)"
proof (rule subtree_onlyI)
  fix ev ev' :: "'a evaluator" and e :: ast and r
  assume ev: "\<And>c x. size c < size e \<Longrightarrow> ev c x = ev' c x"
  show "eval_case_expr D ev e r = eval_case_expr D ev' e r"
  proof (cases "extract_notnull ''connector'' (ast_right e)")
    case (Some k)
    have k: "size k < size e" using extract_size [OF Some] size_child(2) by blast
    show ?thesis
    proof (cases "extract_notnull ''case_list'' (ast_left k)")
      case lst: (Some lst)
      have l: "size lst < size e" using extract_size [OF lst] size_child(1) k less_trans by blast
      have loop: "case_loop D ev picks (Some lst) r = case_loop D ev' picks (Some lst) r" for picks
        by (rule case_loop_cong [of "size e", OF ev]) (use l in auto)
      have els: "ev c x = ev' c x" if "ast_right k = Some c" for c x
        using ev size_child(2) [OF that] k less_trans by blast
      have tst: "ev c x = ev' c x" if "ast_left e = Some c" for c x
        using ev size_child(1) [OF that] by blast
      show ?thesis
        by (cases "ast_left e"; cases "ast_right k") (simp_all add: eval_case_expr_def Some lst loop els tst cong: if_cong)
    qed (simp add: eval_case_expr_def Some)
  qed (simp add: eval_case_expr_def)
qed

lemmas subtree_only_rules = subtree_only_operands subtree_only_left subtree_only_logic subtree_only_leaf
  subtree_only_case

lemma eval_fns_subtree_only: "(x, f) \<in> set (eval_fns D) \<Longrightarrow> subtree_only f"
  unfolding eval_fns_def eval_add_def eval_sub_def eval_mul_def eval_div_def eval_mod_def eval_lshift_def
    eval_rshift_def eval_bin_and_def eval_bin_or_def eval_eq_def eval_lt_def eval_gt_def eval_ne_def
    eval_ge_def eval_le_def
  by (auto simp: subtree_only_rules)

lemma find_fn_in: "find_fn fs k = Some f \<Longrightarrow> \<exists>x. (x, f) \<in> set fs"
  by (induction fs k rule: find_fn.induct) (auto split: if_splits)

text \<open>The table holds evaluation functions only, whatever name is looked up.\<close>

lemma call_subtrees:
  assumes "evals_ok D t"
  shows "subtree_only (eval_call D t)"
proof (rule subtree_onlyI)
  fix ev ev' :: "'a evaluator" and e :: ast and r :: "'a eval_node"
  assume same: "\<And>c x. size c < size e \<Longrightarrow> ev c x = ev' c x"
  obtain inv: "symtab_inv t" and ent: "symtab_entries t \<subseteq> {(x, Some f) | x f. (x, f) \<in> set (eval_fns D)}"
    using assms by (auto simp: evals_ok_def intro: eval_init_table [of D])
  obtain j where j: "j < length (payload t)" "symtab_probe t (ast_type e) = Some j"
    by (rule symtab_probe_ends [OF inv])
  show "eval_call D t ev e r = eval_call D t ev' e r"
  proof (cases "sym (payload t ! j)")
    case None
    then show ?thesis using j(2) by (simp add: symtab_find_def)
  next
    case (Some x)
    then have "(x, val (payload t ! j)) \<in> symtab_entries t"
      using j(1) unfolding symtab_entries_def live_iff by blast
    then obtain f where f: "val (payload t ! j) = Some f" "(x, f) \<in> set (eval_fns D)" using ent by auto
    have "f ev e r = f ev' e r" using eval_fns_subtree_only [OF f(2)] same unfolding subtree_only_def by blast
    then show ?thesis by (simp add: symtab_find_def j(2) Some f(1))
  qed
qed

text \<open>
  Whatever a call does that is nested deeper than the size of the tree: it is never reached.
\<close>

lemma calls_agree:
  assumes "evals_ok D t"
  shows "size e < n \<Longrightarrow> size e < m \<Longrightarrow> (eval_call D t ^^ n) ev e r = (eval_call D t ^^ m) ev' e r"
proof (induction "size e" arbitrary: e n m r rule: less_induct)
  case less
  then obtain n' m' where n: "n = Suc n'" "size e \<le> n'" "m = Suc m'" "size e \<le> m'" by (cases n; cases m) auto
  have "(eval_call D t ^^ n') ev c x = (eval_call D t ^^ m') ev' c x" if "size c < size e" for c x
    by (rule less.hyps [OF that]) (use that n in simp_all)
  then show ?case using call_subtrees [OF assms] unfolding subtree_only_def n(1,3) funpow.simps comp_def by blast
qed

lemma eval_calls: "eval D t n = (eval_call D t ^^ n) (\<lambda>_ _. None)"
  by (induction n) (auto simp del: eval_call_def)

end
