(* ===== verification/Eval_Refine.thy ===== *)
theory Eval_Refine
  imports Eval_Correct
begin

text \<open>
  The evaluator refines a semantics on plain values: integers are mathematical integers with a type
  tag, an operation is the operation on integers wrapped to the width of the wider operand type,
  logic is Kleene's.  The theory relates every evaluation function to its specification and the
  whole evaluator to the specification evaluator.
\<close>

section \<open>Values\<close>

datatype ity = TB | TI | TL

datatype 'r sqlval = VErr | VNull | VNum ity int | VReal 'r

definition node_ok :: "'r eval_node \<Rightarrow> bool" where
  "node_ok n \<longleftrightarrow> sem_type n \<in> {SEM_TYPE_ERROR, SEM_TYPE_NULL, SEM_TYPE_BOOL, SEM_TYPE_INTEGER,
     SEM_TYPE_LONG_INTEGER, SEM_TYPE_REAL}"

definition node_val :: "'r eval_node \<Rightarrow> 'r sqlval" where
  "node_val n =
     (case sem_type n of
        SEM_TYPE_NULL \<Rightarrow> VNull
      | SEM_TYPE_BOOL \<Rightarrow> VNum TB (b2i (bool_value n))
      | SEM_TYPE_INTEGER \<Rightarrow> VNum TI (sint (int32_value n))
      | SEM_TYPE_LONG_INTEGER \<Rightarrow> VNum TL (sint (int64_value n))
      | SEM_TYPE_REAL \<Rightarrow> VReal (real_value n)
      | _ \<Rightarrow> VErr)"

text \<open>The value that the machine keeps of an integer result: a truth value, 32 bits or 64 bits.\<close>

definition wrap :: "ity \<Rightarrow> int \<Rightarrow> int" where
  "wrap t i = (case t of TB \<Rightarrow> b2i (i \<noteq> 0) | TI \<Rightarrow> signed_take_bit 31 i | TL \<Rightarrow> signed_take_bit 63 i)"

definition join :: "ity \<Rightarrow> ity \<Rightarrow> ity" where
  "join s t = (if s = TL \<or> t = TL then TL else if s = TI \<or> t = TI then TI else TB)"

definition truth :: "'r double_ops \<Rightarrow> 'r sqlval \<Rightarrow> bool option" where
  "truth D v =
     (case v of
        VNum _ i \<Rightarrow> Some (i \<noteq> 0)
      | VReal r \<Rightarrow> Some (\<not> d_eq D r (d_of_int D 0))
      | _ \<Rightarrow> None)"

definition to_real :: "'r double_ops \<Rightarrow> 'r sqlval \<Rightarrow> 'r" where
  "to_real D v = (case v of VNum _ i \<Rightarrow> d_of_int D i | VReal r \<Rightarrow> r | _ \<Rightarrow> d_of_int D 0)"

definition of_bool3 :: "bool option \<Rightarrow> 'r sqlval" where
  "of_bool3 b = (case b of None \<Rightarrow> VNull | Some b \<Rightarrow> VNum TB (b2i b))"

definition cast_val :: "'r double_ops \<Rightarrow> 'r sqlval \<Rightarrow> core_type \<Rightarrow> 'r sqlval option" where
  "cast_val D v t =
     (case t of
        SEM_TYPE_BOOL \<Rightarrow> Some (of_bool3 (truth D v))
      | SEM_TYPE_INTEGER \<Rightarrow>
          (case v of VReal r \<Rightarrow> map_option (VNum TI) (real_to_int D 32 r) | VNum _ i \<Rightarrow> Some (VNum TI (wrap TI i)) | _ \<Rightarrow> None)
      | SEM_TYPE_LONG_INTEGER \<Rightarrow>
          (case v of VReal r \<Rightarrow> map_option (VNum TL) (real_to_int D 64 r) | VNum _ i \<Rightarrow> Some (VNum TL i) | _ \<Rightarrow> None)
      | SEM_TYPE_REAL \<Rightarrow> Some (VReal (to_real D v))
      | _ \<Rightarrow> None)"

definition is_num :: "'r sqlval \<Rightarrow> bool" where
  "is_num v = (case v of VNum _ _ \<Rightarrow> True | VReal _ \<Rightarrow> True | _ \<Rightarrow> False)"

text \<open>A result of the code and the value it should have.\<close>

definition rf :: "'r eval_node option \<Rightarrow> 'r sqlval option \<Rightarrow> bool" where
  "rf m v = (case m of None \<Rightarrow> v = None | Some n \<Rightarrow> node_ok n \<and> v = Some (node_val n))"

lemma rf_simps [simp]:
  "rf None v \<longleftrightarrow> v = None" "rf (Some n) v \<longleftrightarrow> node_ok n \<and> v = Some (node_val n)"
  by (simp_all add: rf_def)

lemma rf_bind:
  "rf m v \<Longrightarrow> (\<And>n. m = Some n \<Longrightarrow> node_ok n \<Longrightarrow> rf (f n) (g (node_val n))) \<Longrightarrow> rf (Option.bind m f) (Option.bind v g)"
  by (cases m) auto

lemma node_ok_set [simp]:
  "node_ok (n\<lparr>sem_type := t\<rparr>) \<longleftrightarrow> t \<in> {SEM_TYPE_ERROR, SEM_TYPE_NULL, SEM_TYPE_BOOL, SEM_TYPE_INTEGER,
     SEM_TYPE_LONG_INTEGER, SEM_TYPE_REAL}"
  "node_ok (n\<lparr>int32_value := a\<rparr>) \<longleftrightarrow> node_ok n" "node_ok (n\<lparr>int64_value := b\<rparr>) \<longleftrightarrow> node_ok n"
  "node_ok (n\<lparr>bool_value := c\<rparr>) \<longleftrightarrow> node_ok n" "node_ok (n\<lparr>real_value := d\<rparr>) \<longleftrightarrow> node_ok n"
  by (simp_all add: node_ok_def)

lemma node_val_err [simp]: "node_ok n \<Longrightarrow> node_val n = VErr \<longleftrightarrow> sem_type n = SEM_TYPE_ERROR"
  by (auto simp: node_ok_def node_val_def)

lemma node_val_null [simp]: "node_ok n \<Longrightarrow> node_val n = VNull \<longleftrightarrow> sem_type n = SEM_TYPE_NULL"
  by (auto simp: node_ok_def node_val_def)

lemma num_cases:
  assumes "node_ok n" and "sem_type n \<noteq> SEM_TYPE_ERROR" and "sem_type n \<noteq> SEM_TYPE_NULL"
  obtains "sem_type n = SEM_TYPE_BOOL" "node_val n = VNum TB (b2i (bool_value n))"
  | "sem_type n = SEM_TYPE_INTEGER" "node_val n = VNum TI (sint (int32_value n))"
  | "sem_type n = SEM_TYPE_LONG_INTEGER" "node_val n = VNum TL (sint (int64_value n))"
  | "sem_type n = SEM_TYPE_REAL" "node_val n = VReal (real_value n)"
  using assms by (auto simp: node_ok_def node_val_def)

lemma b2i_simps [simp]: "b2i b = 0 \<longleftrightarrow> \<not> b" "b2i True = 1" "b2i False = 0"
  "b2i a = b2i b \<longleftrightarrow> a = b"
  by (simp_all add: b2i_def)

lemma sint_i32: "- (2 ^ 31) \<le> i \<Longrightarrow> i < 2 ^ 31 \<Longrightarrow> sint (word_of_int i :: i32) = i"
  by (simp add: sint_sbintrunc' signed_take_bit_int_eq_self)

lemma sint_i64: "- (2 ^ 63) \<le> i \<Longrightarrow> i < 2 ^ 63 \<Longrightarrow> sint (word_of_int i :: i64) = i"
  by (simp add: sint_sbintrunc' signed_take_bit_int_eq_self)

lemma i32_range: "- (2 ^ 31) \<le> sint (x :: i32)" "sint (x :: i32) < 2 ^ 31"
  using sint_ge [of x] sint_lt [of x] by simp_all

lemma i64_range: "- (2 ^ 63) \<le> sint (x :: i64)" "sint (x :: i64) < 2 ^ 63"
  using sint_ge [of x] sint_lt [of x] by simp_all

lemma wrap_i32 [simp]: "sint (word_of_int i :: i32) = wrap TI i"
  by (simp add: sint_sbintrunc' wrap_def)

lemma wrap_i64 [simp]: "sint (word_of_int i :: i64) = wrap TL i"
  by (simp add: sint_sbintrunc' wrap_def)

lemma wrap_small: "- (2 ^ 31) \<le> i \<Longrightarrow> i < 2 ^ 31 \<Longrightarrow> wrap TI i = i" "- (2 ^ 63) \<le> i \<Longrightarrow> i < 2 ^ 63 \<Longrightarrow> wrap TL i = i"
  using sint_i32 [of i] sint_i64 [of i] by simp_all

lemma wrap_stored [simp]:
  "wrap TI (sint (x :: i32)) = sint x" "wrap TL (sint (y :: i64)) = sint y" "wrap TL (sint (x :: i32)) = sint x"
  "wrap TI (b2i b) = b2i b" "wrap TL (b2i b) = b2i b"
  using i32_range [of x] i64_range [of y] by (auto simp: wrap_small b2i_def)

lemma wrap_01 [simp]: "wrap TI 0 = 0" "wrap TI 1 = 1" "wrap TL 0 = 0" "wrap TL 1 = 1"
  using wrap_stored(4,5) [of True] wrap_stored(4,5) [of False] by simp_all

lemma real_to_int_range:
  "real_to_int D 32 r = Some i \<Longrightarrow> wrap TI i = i" "real_to_int D 64 r = Some i \<Longrightarrow> wrap TL i = i"
  by (auto simp: real_to_int_def wrap_small split: option.splits if_splits)

lemma sint_zero [simp]: "sint (w :: 'a::len word) = 0 \<longleftrightarrow> w = 0"
  by (rule signed_eq_0_iff)

section \<open>Conversions and truth\<close>

lemma sint_scast_up [simp]: "sint (scast (x :: i32) :: i64) = sint x"
  using i32_range [of x] sint_i64 [of "sint x"] by simp

lemma sint_scast_down [simp]: "sint (scast (y :: i64) :: i32) = wrap TI (sint y)"
  using wrap_i32 [of "sint y"] by simp

lemmas cast_defs = eval_cast_to_def cast_val_def node_val_def of_bool3_def truth_def to_real_def

declare bind_require [simp]

lemma cast_refines:
  assumes "node_ok n" and "sem_type n \<noteq> SEM_TYPE_ERROR" and "sem_type n \<noteq> SEM_TYPE_NULL"
  shows "rf (eval_cast_to D n t) (cast_val D (node_val n) t)"
  using assms
proof (cases rule: num_cases)
  case 1
  then show ?thesis using assms(1) by (cases t) (simp_all add: cast_defs)
next
  case 2
  then show ?thesis using assms(1) by (cases t) (simp_all add: cast_defs)
next
  case 3
  then show ?thesis using assms(1) by (cases t) (simp_all add: cast_defs)
next
  case 4
  have i: "rf (Option.bind (real_to_int D 32 (real_value n)) (\<lambda>i. Some (n\<lparr>int32_value := word_of_int i, sem_type := SEM_TYPE_INTEGER\<rparr>)))
      (map_option (VNum TI) (real_to_int D 32 (real_value n)))"
    using real_to_int_range(1) [of D "real_value n"] by (cases "real_to_int D 32 (real_value n)") (auto simp: node_val_def)
  have l: "rf (Option.bind (real_to_int D 64 (real_value n)) (\<lambda>i. Some (n\<lparr>int64_value := word_of_int i, sem_type := SEM_TYPE_LONG_INTEGER\<rparr>)))
      (map_option (VNum TL) (real_to_int D 64 (real_value n)))"
    using real_to_int_range(2) [of D "real_value n"] by (cases "real_to_int D 64 (real_value n)") (auto simp: node_val_def)
  show ?thesis using 4 assms(1) i l by (cases t) (simp_all add: cast_defs)
qed

lemma is_false_truth:
  assumes "node_ok n" and "sem_type n \<noteq> SEM_TYPE_ERROR"
  shows "result_is_false D n = Some (truth D (node_val n) = Some False)"
proof (cases "sem_type n = SEM_TYPE_NULL")
  case True
  then show ?thesis by (simp add: result_is_false_def node_val_def truth_def)
next
  case False
  with assms show ?thesis
    by (cases rule: num_cases) (simp_all add: result_is_false_def eval_cast_to_def node_val_def truth_def)
qed

lemma is_true_truth:
  assumes "node_ok n" and "sem_type n \<noteq> SEM_TYPE_ERROR"
  shows "result_is_true D n = Some (truth D (node_val n) = Some True)"
proof (cases "sem_type n = SEM_TYPE_NULL")
  case True
  then show ?thesis by (simp add: result_is_true_def node_val_def truth_def)
next
  case False
  with assms show ?thesis
    by (cases rule: num_cases) (simp_all add: result_is_true_def eval_cast_to_def node_val_def truth_def)
qed

section \<open>Specification of the operators\<close>

text \<open>
  The common shape of a strict operator: an error wins, then a null; a guarded operator makes a zero
  right operand an error; otherwise the operation runs on integers, or on reals when an operand is real.
\<close>

definition strict2 ::
  "'r double_ops \<Rightarrow> bool \<Rightarrow> (ity \<Rightarrow> int \<Rightarrow> int \<Rightarrow> 'a option) \<Rightarrow> ('r \<Rightarrow> 'r \<Rightarrow> 'b option) \<Rightarrow>
     (ity \<Rightarrow> 'a \<Rightarrow> 'r sqlval) \<Rightarrow> ('b \<Rightarrow> 'r sqlval) \<Rightarrow> 'r sqlval \<Rightarrow> 'r sqlval \<Rightarrow> 'r sqlval option" where
  "strict2 D guarded fi fr ki kr l r =
     (if l = VErr \<or> r = VErr then Some VErr
      else if l = VNull \<or> r = VNull then Some VNull
      else if guarded \<and> truth D r = Some False then Some VErr
      else (case (l, r) of
          (VNum s a, VNum t b) \<Rightarrow> map_option (ki (join s t)) (fi (join s t) a b)
        | _ \<Rightarrow> map_option kr (fr (to_real D l) (to_real D r))))"

definition arith_val ::
  "'r double_ops \<Rightarrow> bool \<Rightarrow> (ity \<Rightarrow> int \<Rightarrow> int \<Rightarrow> int option) \<Rightarrow> ('r \<Rightarrow> 'r \<Rightarrow> 'r option) \<Rightarrow>
     'r sqlval \<Rightarrow> 'r sqlval \<Rightarrow> 'r sqlval option" where
  "arith_val D guarded fi fr = strict2 D guarded fi fr (\<lambda>t i. VNum t (wrap t i)) VReal"

definition vbool :: "bool \<Rightarrow> 'r sqlval" where
  "vbool b = VNum TB (b2i b)"

definition compare_val ::
  "'r double_ops \<Rightarrow> (int \<Rightarrow> int \<Rightarrow> bool) \<Rightarrow> ('r \<Rightarrow> 'r \<Rightarrow> bool) \<Rightarrow> 'r sqlval \<Rightarrow> 'r sqlval \<Rightarrow> 'r sqlval option" where
  "compare_val D ci cr = strict2 D False (\<lambda>t a b. Some (ci a b)) (\<lambda>a b. Some (cr a b)) (\<lambda>t. vbool) vbool"

lemma node_val_set [simp]:
  "node_val (n\<lparr>sem_type := SEM_TYPE_ERROR\<rparr>) = VErr" "node_val (n\<lparr>sem_type := SEM_TYPE_NULL\<rparr>) = VNull"
  "node_val (n\<lparr>sem_type := SEM_TYPE_BOOL, bool_value := b\<rparr>) = vbool b"
  by (simp_all add: node_val_def vbool_def)

text \<open>An evaluator that computes the values \<open>V\<close>, whatever its result node held before.\<close>

definition refines :: "'r evaluator \<Rightarrow> (ast \<Rightarrow> 'r sqlval option) \<Rightarrow> bool" where
  "refines ev V \<longleftrightarrow> (\<forall>c x. rf (ev c x) (V c))"

definition left_val :: "(ast \<Rightarrow> 'r sqlval option) \<Rightarrow> ast \<Rightarrow> 'r sqlval option" where
  "left_val V e = Option.bind (ast_left e) V"

definition both :: "(ast \<Rightarrow> 'r sqlval option) \<Rightarrow> ast \<Rightarrow> ('r sqlval \<times> 'r sqlval) option" where
  "both V e =
     do { l \<leftarrow> ast_left e; lv \<leftarrow> V l; r \<leftarrow> ast_right e; rv \<leftarrow> V r; Some (lv, rv) }"

lemma refinesD: "refines ev V \<Longrightarrow> rf (ev c x) (V c)"
  by (simp add: refines_def)

lemma left_bind:
  assumes "refines ev V" and "\<And>n. node_ok n \<Longrightarrow> rf (f n) (g (node_val n))"
  shows "rf (Option.bind (eval_left ev e x) f) (Option.bind (left_val V e) g)"
  by (cases "ast_left e") (auto simp: eval_left_def left_val_def intro: rf_bind [OF refinesD [OF assms(1)]] assms(2))

lemma operands_bind:
  assumes "refines ev V" and "\<And>l r. node_ok l \<Longrightarrow> node_ok r \<Longrightarrow> rf (f (l, r)) (g (node_val l, node_val r))"
  shows "rf (Option.bind (eval_operands D ev e) f) (Option.bind (both V e) g)"
proof (cases "ast_left e"; cases "ast_right e")
  fix a b assume ab: "ast_left e = Some a" "ast_right e = Some b"
  show ?thesis
    using refinesD [OF assms(1), of a "EVAL_NIL D"] refinesD [OF assms(1), of b "EVAL_NIL D"] assms(2) ab
    by (cases "ev a (EVAL_NIL D)"; cases "ev b (EVAL_NIL D)") (auto simp: eval_operands_def both_def)
next
  fix a assume ab: "ast_left e = Some a" "ast_right e = None"
  show ?thesis
    using refinesD [OF assms(1), of a "EVAL_NIL D"] ab
    by (cases "ev a (EVAL_NIL D)") (auto simp: eval_operands_def both_def)
qed (simp_all add: eval_operands_def both_def)

text \<open>
  What the C meaning of an operator token owes to an integer function \<open>fi\<close> on the three integer
  types and to a function \<open>fr\<close> on reals.
\<close>

locale c_operator =
  fixes f :: "'r c_op"
    and fi :: "ity \<Rightarrow> int \<Rightarrow> int \<Rightarrow> int option"
    and fr :: "'r \<Rightarrow> 'r \<Rightarrow> 'r option"
  assumes op32: "map_option sint (op32 f a b) = map_option (wrap TI) (fi TI (sint a) (sint b))"
    and op64: "map_option sint (op64 f c d) = map_option (wrap TL) (fi TL (sint c) (sint d))"
    and opb: "map_option (\<lambda>v. v \<noteq> 0) (op32 f (word_of_int (b2i x)) (word_of_int (b2i y))) =
      map_option (\<lambda>i. i \<noteq> 0) (fi TB (b2i x) (b2i y))"
    and opd: "opd f u v = fr u v"
begin

text \<open>The second half of \<open>BINARY_OP\<close>: promotion, conversion and the operation.\<close>

definition compute :: "'r double_ops \<Rightarrow> 'r eval_node \<Rightarrow> 'r eval_node \<Rightarrow> 'r eval_node \<Rightarrow> 'r eval_node option" where
  "compute D left right result =
     do {
       core_type \<leftarrow> eval_combined_type left right;
       left \<leftarrow> eval_cast_to D left core_type;
       right \<leftarrow> eval_cast_to D right core_type;
       (case core_type of
          SEM_TYPE_INTEGER \<Rightarrow>
            do { v \<leftarrow> op32 f (int32_value left) (int32_value right);
                 Some (result\<lparr>sem_type := SEM_TYPE_INTEGER, int32_value := v\<rparr>) }
        | SEM_TYPE_LONG_INTEGER \<Rightarrow>
            do { v \<leftarrow> op64 f (int64_value left) (int64_value right);
                 Some (result\<lparr>sem_type := SEM_TYPE_LONG_INTEGER, int64_value := v\<rparr>) }
        | SEM_TYPE_BOOL \<Rightarrow>
            do { v \<leftarrow> op32 f (word_of_int (b2i (bool_value left))) (word_of_int (b2i (bool_value right)));
                 Some (result\<lparr>sem_type := SEM_TYPE_BOOL, bool_value := 0 \<noteq> v\<rparr>) }
        | SEM_TYPE_REAL \<Rightarrow>
            do { v \<leftarrow> opd f (real_value left) (real_value right);
                 Some (result\<lparr>sem_type := SEM_TYPE_REAL, real_value := v\<rparr>) }
        | _ \<Rightarrow> None)
     }"

lemma rf_op32:
  "x = sint a \<Longrightarrow> y = sint b \<Longrightarrow>
   rf (Option.bind (op32 f a b) (\<lambda>v. Some (result\<lparr>sem_type := SEM_TYPE_INTEGER, int32_value := v\<rparr>)))
     (map_option (\<lambda>i. VNum TI (wrap TI i)) (fi TI x y))"
  using op32 [of a b] by (cases "op32 f a b"; cases "fi TI (sint a) (sint b)") (auto simp: node_val_def)

lemma rf_op64:
  "x = sint a \<Longrightarrow> y = sint b \<Longrightarrow>
   rf (Option.bind (op64 f a b) (\<lambda>v. Some (result\<lparr>sem_type := SEM_TYPE_LONG_INTEGER, int64_value := v\<rparr>)))
     (map_option (\<lambda>i. VNum TL (wrap TL i)) (fi TL x y))"
  using op64 [of a b] by (cases "op64 f a b"; cases "fi TL (sint a) (sint b)") (auto simp: node_val_def)

lemma rf_opb:
  "rf (Option.bind (op32 f (word_of_int (b2i x)) (word_of_int (b2i y)))
       (\<lambda>v. Some (result\<lparr>sem_type := SEM_TYPE_BOOL, bool_value := v \<noteq> 0\<rparr>)))
     (map_option (\<lambda>i. VNum TB (wrap TB i)) (fi TB (b2i x) (b2i y)))"
  using opb [of x y]
  by (cases "op32 f (word_of_int (b2i x)) (word_of_int (b2i y))"; cases "fi TB (b2i x) (b2i y)")
    (auto simp: node_val_def wrap_def)

lemma rf_opd:
  "rf (Option.bind (opd f a b) (\<lambda>v. Some (result\<lparr>sem_type := SEM_TYPE_REAL, real_value := v\<rparr>)))
     (map_option VReal (fr a b))"
  using opd [of a b] by (cases "fr a b") (auto simp: node_val_def)

lemmas rf_ops = rf_op32 rf_op64 rf_opb rf_opd

lemma compute_refines:
  assumes "node_ok l" "sem_type l \<noteq> SEM_TYPE_ERROR" "sem_type l \<noteq> SEM_TYPE_NULL"
    and "node_ok r" "sem_type r \<noteq> SEM_TYPE_ERROR" "sem_type r \<noteq> SEM_TYPE_NULL"
  shows "rf (compute D l r result) (arith_val D False fi fr (node_val l) (node_val r))"
  by (rule num_cases [OF assms(1-3)]; rule num_cases [OF assms(4-6)])
    (simp_all add: compute_def arith_val_def strict2_def eval_combined_type_def eval_cast_to_def join_def
      to_real_def rf_op32 rf_op64 rf_opb rf_opd)

lemma BINARY_OP_compute:
  "BINARY_OP f g D ev e result =
     do {
       (left, right) \<leftarrow> eval_operands D ev e;
       if either_is SEM_TYPE_ERROR left right then Some (result\<lparr>sem_type := SEM_TYPE_ERROR\<rparr>)
       else if either_is SEM_TYPE_NULL left right then Some (result\<lparr>sem_type := SEM_TYPE_NULL\<rparr>)
       else do {
         zero \<leftarrow> div_test D g right;
         if zero then Some (result\<lparr>sem_type := SEM_TYPE_ERROR\<rparr>) else compute D left right result
       }
     }"
  unfolding BINARY_OP_def compute_def by (rule refl)

lemma BINARY_OP_refines:
  assumes "refines ev V"
  shows "rf (BINARY_OP f g D ev e result) (Option.bind (both V e) (\<lambda>(l, r). arith_val D g fi fr l r))"
  unfolding BINARY_OP_compute
proof (rule operands_bind [OF assms])
  fix l r :: "'r eval_node"
  assume ok: "node_ok l" "node_ok r"
  show "rf (case (l, r) of (left, right) \<Rightarrow>
      if either_is SEM_TYPE_ERROR left right then Some (result\<lparr>sem_type := SEM_TYPE_ERROR\<rparr>)
      else if either_is SEM_TYPE_NULL left right then Some (result\<lparr>sem_type := SEM_TYPE_NULL\<rparr>)
      else do {
        zero \<leftarrow> div_test D g right;
        if zero then Some (result\<lparr>sem_type := SEM_TYPE_ERROR\<rparr>) else compute D left right result
      }) (case (node_val l, node_val r) of (l, r) \<Rightarrow> arith_val D g fi fr l r)"
  proof (cases "either_is SEM_TYPE_ERROR l r \<or> either_is SEM_TYPE_NULL l r")
    case True
    then show ?thesis using ok by (auto simp: either_is_def arith_val_def strict2_def)
  next
    case False
    then have c: "rf (compute D l r result) (arith_val D False fi fr (node_val l) (node_val r))"
      using compute_refines [of l r] ok by (simp add: either_is_def)
    have ne: "node_val l \<noteq> VErr" "node_val r \<noteq> VErr" "node_val l \<noteq> VNull" "node_val r \<noteq> VNull"
      using False ok by (auto simp: either_is_def)
    have z: "div_test D g r = Some (g \<and> truth D (node_val r) = Some False)"
      using False ok is_false_truth [of r D] by (auto simp: either_is_def div_test_def)
    show ?thesis
    proof (cases "g \<and> truth D (node_val r) = Some False")
      case True
      then show ?thesis using False z ne by (simp add: arith_val_def strict2_def)
    next
      case notz: False
      have "arith_val D g fi fr (node_val l) (node_val r) = arith_val D False fi fr (node_val l) (node_val r)"
        using notz ne by (auto simp: arith_val_def strict2_def)
      then show ?thesis using c False z notz by simp
    qed
  qed
qed

end

section \<open>The operators meet their contract\<close>

definition width :: "ity \<Rightarrow> nat" where
  "width t = (case t of TL \<Rightarrow> 64 | _ \<Rightarrow> 32)"

definition div_int :: "ity \<Rightarrow> int \<Rightarrow> int \<Rightarrow> int option" where
  "div_int t a b = c_div (2 ^ (width t - 1)) a b"

definition mod_int :: "ity \<Rightarrow> int \<Rightarrow> int \<Rightarrow> int option" where
  "mod_int t a b = c_mod (2 ^ (width t - 1)) a b"

definition shl_int :: "ity \<Rightarrow> int \<Rightarrow> int \<Rightarrow> int option" where
  "shl_int t a n = (if 0 \<le> n \<and> nat n < width t then Some (a * 2 ^ nat n) else None)"

definition shr_int :: "ity \<Rightarrow> int \<Rightarrow> int \<Rightarrow> int option" where
  "shr_int t a n = (if 0 \<le> n \<and> nat n < width t then Some (a div 2 ^ nat n) else None)"

lemma sint_arith32:
  "sint ((a :: i32) + b) = wrap TI (sint a + sint b)" "sint (a - b) = wrap TI (sint a - sint b)"
  "sint (a * b) = wrap TI (sint a * sint b)" "sint (- a) = wrap TI (- sint a)"
  "sint (push_bit n a) = wrap TI (sint a * 2 ^ n)"
  by (simp_all add: push_bit_eq_mult flip: wrap_i32)

lemma sint_arith64:
  "sint ((a :: i64) + b) = wrap TL (sint a + sint b)" "sint (a - b) = wrap TL (sint a - sint b)"
  "sint (a * b) = wrap TL (sint a * sint b)" "sint (- a) = wrap TL (- sint a)"
  "sint (push_bit n a) = wrap TL (sint a * 2 ^ n)"
  by (simp_all add: push_bit_eq_mult flip: wrap_i64)

lemma sint_bits32:
  "sint ((a :: i32) AND b) = wrap TI (sint a AND sint b)" "sint (a OR b) = wrap TI (sint a OR sint b)"
  "sint (signed_drop_bit n a) = wrap TI (sint a div 2 ^ n)" "sint (NOT a) = wrap TI (- sint a - 1)"
proof -
  show "sint (a AND b) = wrap TI (sint a AND sint b)" by (metis signed_and_eq wrap_stored(1))
  show "sint (a OR b) = wrap TI (sint a OR sint b)" by (metis signed_or_eq wrap_stored(1))
  show "sint (signed_drop_bit n a) = wrap TI (sint a div 2 ^ n)"
    by (metis drop_bit_eq_div sint_signed_drop_bit_eq wrap_stored(1))
  show "sint (NOT a) = wrap TI (- sint a - 1)" by (simp add: not_eq_complement flip: wrap_i32)
qed

lemma sint_bits64:
  "sint ((a :: i64) AND b) = wrap TL (sint a AND sint b)" "sint (a OR b) = wrap TL (sint a OR sint b)"
  "sint (signed_drop_bit n a) = wrap TL (sint a div 2 ^ n)" "sint (NOT a) = wrap TL (- sint a - 1)"
proof -
  show "sint (a AND b) = wrap TL (sint a AND sint b)" by (metis signed_and_eq wrap_stored(2))
  show "sint (a OR b) = wrap TL (sint a OR sint b)" by (metis signed_or_eq wrap_stored(2))
  show "sint (signed_drop_bit n a) = wrap TL (sint a div 2 ^ n)"
    by (metis drop_bit_eq_div sint_signed_drop_bit_eq wrap_stored(2))
  show "sint (NOT a) = wrap TL (- sint a - 1)" by (simp add: not_eq_complement flip: wrap_i64)
qed

interpretation op_add: c_operator "add_op D" "\<lambda>t a b. Some (a + b)" "\<lambda>a b. Some (d_add D a b)"
  by unfold_locales (simp_all add: add_op_def sint_arith32 sint_arith64 b2i_def)

interpretation op_sub: c_operator "sub_op D" "\<lambda>t a b. Some (a - b)" "\<lambda>a b. Some (d_sub D a b)"
  by unfold_locales (simp_all add: sub_op_def sint_arith32 sint_arith64 b2i_def)

interpretation op_mul: c_operator "mul_op D" "\<lambda>t a b. Some (a * b)" "\<lambda>a b. Some (d_mul D a b)"
  by unfold_locales (simp_all add: mul_op_def sint_arith32 sint_arith64 b2i_def)

interpretation op_div: c_operator "div_op D" div_int "\<lambda>a b. Some (d_div D a b)"
  by unfold_locales
    (simp_all add: div_op_def div_int_def width_def option.map_comp comp_def b2i_def c_div_def
      Let_def signed_divide_int_def)

interpretation op_mod: c_operator mod_op mod_int "\<lambda>a b. None"
  by unfold_locales
    (simp_all add: mod_op_def mod_int_def width_def option.map_comp comp_def b2i_def c_mod_def
      signed_divide_int_def signed_modulo_int_def)

interpretation op_lshift: c_operator "int_op c_shl c_shl" shl_int "\<lambda>a b. None"
  by unfold_locales
    (auto simp: int_op_def c_shl_def shl_int_def width_def sint_arith32 sint_arith64 b2i_def)

interpretation op_rshift: c_operator "int_op c_shr c_shr" shr_int "\<lambda>a b. None"
  by unfold_locales
    (auto simp: int_op_def c_shr_def shr_int_def width_def sint_bits32 sint_bits64 b2i_def)

interpretation op_bin_and: c_operator "int_op (\<lambda>a b. Some (a AND b)) (\<lambda>a b. Some (a AND b))"
  "\<lambda>t a b. Some (a AND b)" "\<lambda>a b. None"
  by unfold_locales (auto simp: int_op_def sint_bits32 sint_bits64 b2i_def)

interpretation op_bin_or: c_operator "int_op (\<lambda>a b. Some (a OR b)) (\<lambda>a b. Some (a OR b))"
  "\<lambda>t a b. Some (a OR b)" "\<lambda>a b. None"
  by unfold_locales (auto simp: int_op_def sint_bits32 sint_bits64 b2i_def)

text \<open>The operators that exclude reals are the same switch without the real branch.\<close>

lemma NO_REAL_eq:
  assumes "opd f = (\<lambda>a b. None)"
  shows "BINARY_OP_NO_REAL f g D ev e result = BINARY_OP f g D ev e result"
  unfolding BINARY_OP_NO_REAL_def BINARY_OP_def assms Option.bind.bind_lzero by (rule refl)

section \<open>Comparison, IS and equality\<close>

definition eq_val :: "'r double_ops \<Rightarrow> 'r sqlval \<Rightarrow> 'r sqlval \<Rightarrow> bool" where
  "eq_val D l r = (case (l, r) of (VNum _ a, VNum _ b) \<Rightarrow> a = b | _ \<Rightarrow> d_eq D (to_real D l) (to_real D r))"

text \<open>Converting to the wider type and comparing there is comparing the values.\<close>

lemma compare_promoted:
  assumes "node_ok l" "sem_type l \<noteq> SEM_TYPE_ERROR" "sem_type l \<noteq> SEM_TYPE_NULL"
    and "node_ok r" "sem_type r \<noteq> SEM_TYPE_ERROR" "sem_type r \<noteq> SEM_TYPE_NULL"
  shows "\<exists>t l' r'. eval_combined_type l r = Some t \<and> eval_cast_to D l t = Some l' \<and>
    eval_cast_to D r t = Some r' \<and> sem_type l' = t \<and> sem_type r' = t \<and>
    compare_as f t l' r' =
      Some (case (node_val l, node_val r) of
              (VNum _ a, VNum _ b) \<Rightarrow> cmp_int f a b
            | _ \<Rightarrow> cmp_real f (to_real D (node_val l)) (to_real D (node_val r)))"
  by (rule num_cases [OF assms(1-3)]; rule num_cases [OF assms(4-6)])
    (simp_all add: eval_combined_type_def eval_cast_to_def compare_as_def to_real_def)

lemma COMPARE_refines:
  assumes "refines ev V"
  shows "rf (COMPARE_BINARY_OP f D ev e result)
    (Option.bind (both V e) (\<lambda>(l, r). compare_val D (cmp_int f) (cmp_real f) l r))"
  unfolding COMPARE_BINARY_OP_def
proof (rule operands_bind [OF assms])
  fix l r :: "'a eval_node"
  assume ok: "node_ok l" "node_ok r"
  show "rf (case (l, r) of (left, right) \<Rightarrow>
      if either_is SEM_TYPE_ERROR left right then Some (result\<lparr>sem_type := SEM_TYPE_ERROR\<rparr>)
      else if either_is SEM_TYPE_NULL left right then Some (result\<lparr>sem_type := SEM_TYPE_NULL\<rparr>)
      else do {
        core_type \<leftarrow> eval_combined_type left right;
        left \<leftarrow> eval_cast_to D left core_type;
        right \<leftarrow> eval_cast_to D right core_type;
        b \<leftarrow> compare_as f core_type left right;
        Some (result\<lparr>sem_type := SEM_TYPE_BOOL, bool_value := b\<rparr>)
      }) (case (node_val l, node_val r) of (l, r) \<Rightarrow> compare_val D (cmp_int f) (cmp_real f) l r)"
  proof (cases "either_is SEM_TYPE_ERROR l r \<or> either_is SEM_TYPE_NULL l r")
    case True
    then show ?thesis using ok by (auto simp: either_is_def compare_val_def strict2_def)
  next
    case False
    then have ne: "sem_type l \<noteq> SEM_TYPE_ERROR" "sem_type l \<noteq> SEM_TYPE_NULL"
      "sem_type r \<noteq> SEM_TYPE_ERROR" "sem_type r \<noteq> SEM_TYPE_NULL"
      by (auto simp: either_is_def)
    then show ?thesis
      using compare_promoted [OF ok(1) ne(1,2) ok(2) ne(3,4), of D f] ok
      by (auto simp: either_is_def compare_val_def strict2_def split: sqlval.splits)
  qed
qed

definition is_val :: "'r double_ops \<Rightarrow> 'r sqlval \<Rightarrow> 'r sqlval \<Rightarrow> 'r sqlval" where
  "is_val D l r =
     (if l = VErr \<or> r = VErr then VErr
      else if l = VNull \<or> r = VNull then vbool (l = VNull \<and> r = VNull)
      else vbool (eq_val D l r))"

lemma eval_is_refines:
  assumes "refines ev V"
  shows "rf (eval_is D ev e result) (Option.bind (both V e) (\<lambda>(l, r). Some (is_val D l r)))"
  unfolding eval_is_def
proof (rule operands_bind [OF assms])
  fix l r :: "'a eval_node"
  assume ok: "node_ok l" "node_ok r"
  show "rf (case (l, r) of (left, right) \<Rightarrow>
      if either_is SEM_TYPE_ERROR left right then Some (result\<lparr>sem_type := SEM_TYPE_ERROR\<rparr>)
      else if either_is SEM_TYPE_NULL left right then
        Some (result\<lparr>sem_type := SEM_TYPE_BOOL,
                     bool_value := sem_type left = SEM_TYPE_NULL \<and> sem_type right = SEM_TYPE_NULL\<rparr>)
      else do {
        core_type \<leftarrow> eval_combined_type left right;
        left \<leftarrow> eval_cast_to D left core_type;
        right \<leftarrow> eval_cast_to D right core_type;
        b \<leftarrow> compare_as (eq_cmp D) core_type left right;
        Some (result\<lparr>sem_type := SEM_TYPE_BOOL, bool_value := b\<rparr>)
      }) (case (node_val l, node_val r) of (l, r) \<Rightarrow> Some (is_val D l r))"
  proof (cases "either_is SEM_TYPE_ERROR l r \<or> either_is SEM_TYPE_NULL l r")
    case True
    then show ?thesis using ok node_val_null [of l] node_val_null [of r]
      by (auto simp: either_is_def is_val_def)
  next
    case False
    then have ne: "sem_type l \<noteq> SEM_TYPE_ERROR" "sem_type l \<noteq> SEM_TYPE_NULL"
      "sem_type r \<noteq> SEM_TYPE_ERROR" "sem_type r \<noteq> SEM_TYPE_NULL"
      by (auto simp: either_is_def)
    then show ?thesis
      using compare_promoted [OF ok(1) ne(1,2) ok(2) ne(3,4), of D "eq_cmp D"] ok
      by (auto simp: either_is_def is_val_def eq_val_def eq_cmp_def split: sqlval.splits)
  qed
qed

lemma eval_are_equal_val:
  assumes "node_ok l" "sem_type l \<noteq> SEM_TYPE_ERROR" and "node_ok r" "sem_type r \<noteq> SEM_TYPE_ERROR"
  shows "eval_are_equal D l r =
    Some (node_val l \<noteq> VNull \<and> node_val r \<noteq> VNull \<and> eq_val D (node_val l) (node_val r))"
proof (cases "either_is SEM_TYPE_NULL l r")
  case True
  then show ?thesis using assms by (auto simp: eval_are_equal_def either_is_def)
next
  case False
  then have ne: "sem_type l \<noteq> SEM_TYPE_NULL" "sem_type r \<noteq> SEM_TYPE_NULL" by (auto simp: either_is_def)
  show ?thesis
    using compare_promoted [OF assms(1,2) ne(1) assms(3,4) ne(2), of D "eq_cmp D"] assms ne False
    by (auto simp: eval_are_equal_def eq_val_def eq_cmp_def split: sqlval.splits)
qed

section \<open>Unary operators and logic\<close>

definition not_val :: "'r double_ops \<Rightarrow> 'r sqlval \<Rightarrow> 'r sqlval" where
  "not_val D v = (if v = VErr then VErr else of_bool3 (map_option Not (truth D v)))"

definition test_val :: "('r sqlval \<Rightarrow> bool) \<Rightarrow> 'r sqlval \<Rightarrow> 'r sqlval" where
  "test_val p v = (if v = VErr then VErr else vbool (p v))"

definition tilde_val :: "'r sqlval \<Rightarrow> 'r sqlval option" where
  "tilde_val v =
     (case v of
        VNum t i \<Rightarrow> Some (VNum (join t TI) (wrap (join t TI) (- i - 1)))
      | VReal _ \<Rightarrow> None
      | _ \<Rightarrow> Some v)"

definition uminus_val :: "'r double_ops \<Rightarrow> 'r sqlval \<Rightarrow> 'r sqlval" where
  "uminus_val D v =
     (case v of
        VNum t i \<Rightarrow> VNum (join t TI) (wrap (join t TI) (- i))
      | VReal r \<Rightarrow> VReal (d_neg D r)
      | _ \<Rightarrow> v)"

text \<open>Kleene's tables: conjunction has the absorbing value false, disjunction true.\<close>

definition kleene :: "bool \<Rightarrow> bool option \<Rightarrow> bool option \<Rightarrow> bool option" where
  "kleene stop a b =
     (if a = Some stop \<or> b = Some stop then Some stop
      else if a = None \<or> b = None then None else Some (\<not> stop))"

text \<open>
  A logical operator with the absorbing truth value \<open>stop\<close>: it stops at a left operand with that
  value without evaluating the right one.
\<close>

definition logic_val ::
  "'r double_ops \<Rightarrow> bool \<Rightarrow> (bool option \<Rightarrow> bool option \<Rightarrow> bool option) \<Rightarrow> (ast \<Rightarrow> 'r sqlval option) \<Rightarrow>
     ast \<Rightarrow> 'r sqlval option" where
  "logic_val D stop op V e =
     do {
       l \<leftarrow> left_val V e;
       if l = VErr then Some VErr
       else if truth D l = Some stop then Some (vbool stop)
       else do {
         c \<leftarrow> ast_right e;
         r \<leftarrow> V c;
         Some (if r = VErr then VErr else of_bool3 (op (truth D l) (truth D r)))
       }
     }"

lemma unary_cases:
  assumes "node_ok n"
  obtains "sem_type n = SEM_TYPE_ERROR" "node_val n = VErr" | "sem_type n = SEM_TYPE_NULL" "node_val n = VNull"
  | "sem_type n = SEM_TYPE_BOOL" "node_val n = VNum TB (b2i (bool_value n))"
  | "sem_type n = SEM_TYPE_INTEGER" "node_val n = VNum TI (sint (int32_value n))"
  | "sem_type n = SEM_TYPE_LONG_INTEGER" "node_val n = VNum TL (sint (int64_value n))"
  | "sem_type n = SEM_TYPE_REAL" "node_val n = VReal (real_value n)"
  using assms by (auto simp: node_ok_def node_val_def)

lemma truth_none:
  "node_ok n \<Longrightarrow> truth D (node_val n) = None \<longleftrightarrow> sem_type n = SEM_TYPE_NULL \<or> sem_type n = SEM_TYPE_ERROR"
  by (erule unary_cases) (simp_all add: truth_def)

lemma bind_Some_comp: "Option.bind v (\<lambda>x. Some (g x)) = map_option g v"
  by (cases v) auto

lemma eval_not_refines:
  "refines ev V \<Longrightarrow> rf (eval_not D ev e r) (Option.bind (left_val V e) (\<lambda>v. Some (not_val D v)))"
  unfolding eval_not_def
  by (rule left_bind, assumption, erule unary_cases)
    (simp_all add: err_or_null_def eval_cast_to_def not_val_def truth_def of_bool3_def node_val_def node_ok_def)

lemma eval_is_not_refines:
  assumes "refines ev V"
  shows "rf (eval_is_not D ev e r) (Option.bind (both V e) (\<lambda>(a, b). Some (not_val D (is_val D a b))))"
proof -
  have "rf (eval_is_not D ev e r)
      (Option.bind (Option.bind (both V e) (\<lambda>(a, b). Some (is_val D a b))) (\<lambda>v. Some (not_val D v)))"
    unfolding eval_is_not_def
  proof (rule rf_bind [OF eval_is_refines [OF assms]])
    fix n assume n: "eval_is D ev e r = Some n" "node_ok n"
    have "\<exists>a b. node_val n = is_val D a b"
      using eval_is_refines [OF assms, of D e r] n by (cases "both V e") (auto intro: sym)
    then obtain b where "node_val n = VErr \<or> node_val n = vbool b" by (auto simp: is_val_def split: if_splits)
    then show "rf (Some (if sem_type n = SEM_TYPE_BOOL then n\<lparr>bool_value := \<not> bool_value n\<rparr> else n))
        (Some (not_val D (node_val n)))"
      using n(2) by (cases rule: unary_cases [OF n(2)]) (auto simp: not_val_def vbool_def truth_def of_bool3_def node_val_def)
  qed
  then show ?thesis by (cases "both V e") (auto simp: split_beta)
qed

lemma eval_is_truth_refines:
  assumes "refines ev V"
  shows "rf (eval_is_true D ev e r) (Option.bind (left_val V e) (\<lambda>v. Some (test_val (\<lambda>v. truth D v = Some True) v)))"
    and "rf (eval_is_false D ev e r) (Option.bind (left_val V e) (\<lambda>v. Some (test_val (\<lambda>v. truth D v = Some False) v)))"
    and "rf (eval_is_not_true D ev e r) (Option.bind (left_val V e) (\<lambda>v. Some (test_val (\<lambda>v. truth D v \<noteq> Some True) v)))"
    and "rf (eval_is_not_false D ev e r) (Option.bind (left_val V e) (\<lambda>v. Some (test_val (\<lambda>v. truth D v \<noteq> Some False) v)))"
  unfolding eval_is_true_def eval_is_false_def eval_is_not_true_def eval_is_not_false_def
  by (rule left_bind [OF assms], erule unary_cases,
      simp_all add: test_val_def truth_def result_is_true_def result_is_false_def eval_cast_to_def vbool_def
        node_val_def node_ok_def)+

lemma eval_tilde_refines:
  "refines ev V \<Longrightarrow> rf (eval_tilde D ev e r) (Option.bind (left_val V e) tilde_val)"
  unfolding eval_tilde_def
  by (rule left_bind, assumption, erule unary_cases)
    (auto simp: err_or_null_def tilde_val_def join_def node_val_def node_ok_def sint_bits32 sint_bits64 b2i_def wrap_def)

text \<open>The literal that only makes sense under a minus sign.\<close>

definition uminus_spec :: "'r double_ops \<Rightarrow> (ast \<Rightarrow> 'r sqlval option) \<Rightarrow> ast \<Rightarrow> 'r sqlval option" where
  "uminus_spec D V e =
     (if is_min_long_lit (ast_left e) then Some (VNum TL (- (2 ^ 63)))
      else Option.bind (left_val V e) (\<lambda>v. Some (uminus_val D v)))"

lemma min_long_sint: "sint (- 9223372036854775807 - 1 :: i64) = - (2 ^ 63)"
  by simp

lemma eval_uminus_refines:
  assumes "refines ev V"
  shows "rf (eval_uminus D ev e r) (uminus_spec D V e)"
proof (cases "is_min_long_lit (ast_left e)")
  case True
  then show ?thesis by (simp add: eval_uminus_def uminus_spec_def node_val_def)
next
  case False
  then show ?thesis
    unfolding eval_uminus_def uminus_spec_def if_not_P [OF False]
    by (intro left_bind [OF assms], elim unary_cases)
      (auto simp: err_or_null_def uminus_val_def join_def node_val_def node_ok_def sint_arith32 sint_arith64 b2i_def wrap_def)
qed

text \<open>The code that \<open>eval_and\<close> and \<open>eval_or\<close> share.\<close>

definition logic_right ::
  "('r eval_node \<Rightarrow> bool option) \<Rightarrow> bool \<Rightarrow> 'r eval_node \<Rightarrow> 'r eval_node \<Rightarrow> 'r eval_node \<Rightarrow> 'r eval_node option" where
  "logic_right is_stop stop result left right =
     (if sem_type right = SEM_TYPE_ERROR then Some (result\<lparr>sem_type := SEM_TYPE_ERROR\<rparr>)
      else do {
        f \<leftarrow> is_stop right;
        Some (if f then result\<lparr>sem_type := SEM_TYPE_BOOL, bool_value := stop\<rparr>
              else if either_is SEM_TYPE_NULL left right then result\<lparr>sem_type := SEM_TYPE_NULL\<rparr>
              else result\<lparr>sem_type := SEM_TYPE_BOOL, bool_value := \<not> stop\<rparr>)
      })"

definition logic_left ::
  "'r double_ops \<Rightarrow> ('r eval_node \<Rightarrow> bool option) \<Rightarrow> bool \<Rightarrow> 'r evaluator \<Rightarrow> ast \<Rightarrow> 'r eval_node \<Rightarrow>
     'r eval_node \<Rightarrow> 'r eval_node option" where
  "logic_left D is_stop stop ev e result left =
     (if sem_type left = SEM_TYPE_ERROR then Some (result\<lparr>sem_type := SEM_TYPE_ERROR\<rparr>)
      else do {
        f \<leftarrow> is_stop left;
        if f then Some (result\<lparr>sem_type := SEM_TYPE_BOOL, bool_value := stop\<rparr>)
        else do {
          r \<leftarrow> ast_right e;
          right \<leftarrow> ev r (EVAL_NIL D);
          logic_right is_stop stop result left right
        }
      })"

lemma eval_logic_code:
  "eval_and D ev e result = Option.bind (eval_left ev e (EVAL_NIL D)) (logic_left D (result_is_false D) False ev e result)"
  "eval_or D ev e result = Option.bind (eval_left ev e (EVAL_NIL D)) (logic_left D (result_is_true D) True ev e result)"
  unfolding eval_and_def eval_or_def logic_left_def logic_right_def not_False_eq_True not_True_eq_False
  by (rule refl)+

lemma logic_refines:
  assumes "refines ev V"
    and is_stop: "\<And>n. node_ok n \<Longrightarrow> sem_type n \<noteq> SEM_TYPE_ERROR \<Longrightarrow> is_stop n = Some (truth D (node_val n) = Some stop)"
  shows "rf (Option.bind (eval_left ev e (EVAL_NIL D)) (logic_left D is_stop stop ev e result))
    (logic_val D stop (kleene stop) V e)"
  unfolding logic_val_def
proof (rule left_bind [OF assms(1)])
  fix l :: "'a eval_node"
  assume l: "node_ok l"
  have right: "rf (logic_right is_stop stop result l n)
      (Some (if node_val n = VErr then VErr else of_bool3 (kleene stop (truth D (node_val l)) (truth D (node_val n)))))"
    if n: "node_ok n" and "sem_type l \<noteq> SEM_TYPE_ERROR" "truth D (node_val l) \<noteq> Some stop" for n
    using that is_stop [OF n] truth_none [OF l, of D] truth_none [OF n, of D]
    by (auto simp: logic_right_def kleene_def of_bool3_def either_is_def vbool_def)
  show "rf (logic_left D is_stop stop ev e result l)
     (if node_val l = VErr then Some VErr
      else if truth D (node_val l) = Some stop then Some (vbool stop)
      else do {
        c \<leftarrow> ast_right e;
        r \<leftarrow> V c;
        Some (if r = VErr then VErr else of_bool3 (kleene stop (truth D (node_val l)) (truth D r)))
      })"
  proof (cases "sem_type l = SEM_TYPE_ERROR \<or> truth D (node_val l) = Some stop \<or> ast_right e = None")
    case True
    then show ?thesis using l is_stop [OF l] by (auto simp: logic_left_def)
  next
    case False
    then obtain c where c: "ast_right e = Some c" by auto
    have "rf (Option.bind (ev c (EVAL_NIL D)) (logic_right is_stop stop result l))
        (Option.bind (V c) (\<lambda>r. Some (if r = VErr then VErr else of_bool3 (kleene stop (truth D (node_val l)) (truth D r)))))"
      using right False by (intro rf_bind [OF refinesD [OF assms(1)]]) simp
    then show ?thesis using False l is_stop [OF l] c by (simp add: logic_left_def)
  qed
qed

lemma eval_logic_refines:
  assumes "refines ev V"
  shows "rf (eval_and D ev e r) (logic_val D False (kleene False) V e)"
    and "rf (eval_or D ev e r) (logic_val D True (kleene True) V e)"
  unfolding eval_logic_code
  by (rule logic_refines [OF assms is_false_truth]; assumption)
    (rule logic_refines [OF assms is_true_truth]; assumption)

section \<open>Casts, literals and case expressions\<close>

definition cast_spec :: "'r double_ops \<Rightarrow> (ast \<Rightarrow> 'r sqlval option) \<Rightarrow> ast \<Rightarrow> 'r sqlval option" where
  "cast_spec D V e =
     do {
       v \<leftarrow> left_val V e;
       if v = VErr \<or> v = VNull then Some v
       else (case e of Ast _ _ _ t \<Rightarrow> cast_val D v t | Num _ _ \<Rightarrow> None)
     }"

lemma eval_cast_expr_refines:
  assumes "refines ev V"
  shows "rf (eval_cast_expr D ev e r) (cast_spec D V e)"
  unfolding eval_cast_expr_def cast_spec_def
  by (rule left_bind [OF assms], cases e) (auto intro: cast_refines)

definition num_spec :: "'r double_ops \<Rightarrow> ast \<Rightarrow> 'r sqlval option" where
  "num_spec D e =
     (case e of
        Num num_type lit \<Rightarrow>
          (let i = strtoll lit (if has_hex_prefix lit then 16 else 10) in
           Some (case num_type of
             NUM_BOOL \<Rightarrow> vbool (strtoll lit 10 \<noteq> 0)
           | NUM_INT \<Rightarrow> VNum TI (wrap TI i)
           | NUM_LONG \<Rightarrow> VNum TL (wrap TL i)
           | NUM_REAL \<Rightarrow> VReal (d_atof D lit)))
      | Ast _ _ _ _ \<Rightarrow> None)"

lemma eval_num_refines: "rf (eval_num D ev e r) (num_spec D e)"
proof (cases e)
  case (Num t lit)
  then show ?thesis by (cases t) (simp_all add: eval_num_def num_spec_def eval_num_str_def node_val_def vbool_def Let_def)
qed (simp add: eval_num_def num_spec_def)

text \<open>The clauses of a case expression: the first one selected gives the answer.\<close>

function case_vals ::
  "(ast \<Rightarrow> 'r sqlval option) \<Rightarrow> ('r sqlval \<Rightarrow> bool) \<Rightarrow> ast option \<Rightarrow> ('r sqlval + unit) option" where
  "case_vals V picks p =
     (case p of
        None \<Rightarrow> Some (Inr ())
      | Some lst \<Rightarrow>
          do {
            w \<leftarrow> extract_notnull ''when'' (ast_left lst);
            c \<leftarrow> ast_left w;
            t \<leftarrow> ast_right w;
            v \<leftarrow> V c;
            if v = VErr then Some (Inl VErr)
            else if picks v then map_option Inl (V t)
            else case_vals V picks (ast_right lst)
          })"
  by pat_completeness auto

termination
proof (relation "measure (\<lambda>(V, picks, p). opt_size p)")
  fix V :: "ast \<Rightarrow> 'r sqlval option" and picks :: "'r sqlval \<Rightarrow> bool" and p :: "ast option" and lst
  assume "p = Some lst"
  then show "((V, picks, ast_right lst), (V, picks, p)) \<in> measure (\<lambda>(V, picks, p). opt_size p)"
    using size_child(2) [of lst] by (auto simp: opt_size_def split: option.splits)
qed simp

declare case_vals.simps [simp del]

definition rfs :: "('r eval_node + unit) option \<Rightarrow> ('r sqlval + unit) option \<Rightarrow> bool" where
  "rfs m v =
     (case m of
        None \<Rightarrow> v = None
      | Some (Inl n) \<Rightarrow> node_ok n \<and> v = Some (Inl (node_val n))
      | Some (Inr _) \<Rightarrow> v = Some (Inr ()))"

lemma rfs_simps [simp]:
  "rfs None v \<longleftrightarrow> v = None" "rfs (Some (Inl n)) v \<longleftrightarrow> node_ok n \<and> v = Some (Inl (node_val n))"
  "rfs (Some (Inr u)) v \<longleftrightarrow> v = Some (Inr ())"
  by (simp_all add: rfs_def)

lemma case_loop_refines:
  assumes "refines ev V"
    and picks: "\<And>n. node_ok n \<Longrightarrow> sem_type n \<noteq> SEM_TYPE_ERROR \<Longrightarrow> picks n = Some (picksv (node_val n))"
  shows "rfs (case_loop D ev picks p r) (case_vals V picksv p)"
proof (induction "opt_size p" arbitrary: p rule: less_induct)
  case less
  show ?case
  proof (cases p)
    case None
    then show ?thesis by (simp add: case_loop.simps case_vals.simps)
  next
    case (Some lst)
    have IH: "rfs (case_loop D ev picks (ast_right lst) r) (case_vals V picksv (ast_right lst))"
      using less [of "ast_right lst"] size_child(2) [of lst]
      by (cases "ast_right lst") (auto simp: opt_size_def Some case_loop.simps [of _ _ _ None] case_vals.simps [of _ _ None])
    show ?thesis
    proof (cases "\<exists>w c t. extract_notnull ''when'' (ast_left lst) = Some w \<and> ast_left w = Some c \<and> ast_right w = Some t")
      case False
      have "case_loop D ev picks (Some lst) r = None \<and> case_vals V picksv (Some lst) = None"
      proof (cases "extract_notnull ''when'' (ast_left lst)")
        case None
        then show ?thesis by (simp add: case_loop.simps [of _ _ _ "Some lst"] case_vals.simps [of _ _ "Some lst"])
      next
        case (Some w)
        then show ?thesis using False
          by (cases "ast_left w"; cases "ast_right w")
            (simp_all add: case_loop.simps [of _ _ _ "Some lst"] case_vals.simps [of _ _ "Some lst"])
      qed
      then show ?thesis using Some by simp
    next
      case True
      then obtain w c t where w: "extract_notnull ''when'' (ast_left lst) = Some w" "ast_left w = Some c"
        "ast_right w = Some t" by blast
      have t: "rfs (map_option Inl (ev t r)) (map_option Inl (V t))"
        using refinesD [OF assms(1), of t r] by (cases "ev t r") auto
      show ?thesis unfolding Some
        using refinesD [OF assms(1), of c "EVAL_NIL D"] picks IH t
        by (subst case_loop.simps, subst case_vals.simps)
          (cases "ev c (EVAL_NIL D)"; auto simp: w)
    qed
  qed
qed

definition case_spec :: "'r double_ops \<Rightarrow> (ast \<Rightarrow> 'r sqlval option) \<Rightarrow> ast \<Rightarrow> 'r sqlval option" where
  "case_spec D V e =
     do {
       connector \<leftarrow> extract_notnull ''connector'' (ast_right e);
       case_list \<leftarrow> extract_notnull ''case_list'' (ast_left connector);
       answer \<leftarrow>
         (case ast_left e of
            Some expr \<Rightarrow>
              do {
                x \<leftarrow> V expr;
                if x = VErr then Some (Inl VErr)
                else case_vals V (\<lambda>v. x \<noteq> VNull \<and> v \<noteq> VNull \<and> eq_val D x v) (Some case_list)
              }
          | None \<Rightarrow> case_vals V (\<lambda>v. truth D v = Some True) (Some case_list));
       (case answer of
          Inl v \<Rightarrow> Some v
        | Inr _ \<Rightarrow> (case ast_right connector of Some else_expr \<Rightarrow> V else_expr | None \<Rightarrow> Some VNull))
     }"

lemma rfs_bind:
  "rfs m v \<Longrightarrow> rf a b \<Longrightarrow>
     rf (Option.bind m (\<lambda>x. case x of Inl n \<Rightarrow> Some n | Inr _ \<Rightarrow> a)) (Option.bind v (\<lambda>x. case x of Inl n \<Rightarrow> Some n | Inr _ \<Rightarrow> b))"
  by (cases m rule: option.exhaust; simp add: rfs_def split: sum.splits option.splits)

lemma eval_case_expr_refines:
  assumes "refines ev V"
  shows "rf (eval_case_expr D ev e r) (case_spec D V e)"
proof (cases "\<exists>k l. extract_notnull ''connector'' (ast_right e) = Some k \<and> extract_notnull ''case_list'' (ast_left k) = Some l")
  case False
  then show ?thesis
    by (cases "extract_notnull ''connector'' (ast_right e)";
        cases "extract_notnull ''case_list'' (ast_left (the (extract_notnull ''connector'' (ast_right e))))")
      (simp_all add: eval_case_expr_def case_spec_def)
next
  case True
  then obtain k l where k: "extract_notnull ''connector'' (ast_right e) = Some k"
    "extract_notnull ''case_list'' (ast_left k) = Some l" by blast
  let ?else = "case ast_right k of Some c \<Rightarrow> ev c r | None \<Rightarrow> Some (r\<lparr>sem_type := SEM_TYPE_NULL\<rparr>)"
  have els: "rf ?else (case ast_right k of Some c \<Rightarrow> V c | None \<Rightarrow> Some VNull)"
    using refinesD [OF assms] by (cases "ast_right k") auto
  let ?ans = "case ast_left e of
      Some x \<Rightarrow> do { n \<leftarrow> ev x (EVAL_NIL D);
                    if sem_type n = SEM_TYPE_ERROR then Some (Inl (r\<lparr>sem_type := SEM_TYPE_ERROR\<rparr>))
                    else case_loop D ev (eval_are_equal D n) (Some l) r }
    | None \<Rightarrow> case_loop D ev (result_is_true D) (Some l) r"
  let ?val = "case ast_left e of
      Some x \<Rightarrow> do { v \<leftarrow> V x;
                    if v = VErr then Some (Inl VErr)
                    else case_vals V (\<lambda>w. v \<noteq> VNull \<and> w \<noteq> VNull \<and> eq_val D v w) (Some l) }
    | None \<Rightarrow> case_vals V (\<lambda>v. truth D v = Some True) (Some l)"
  have "rfs ?ans ?val"
  proof (cases "ast_left e")
    case None
    have "rfs (case_loop D ev (result_is_true D) (Some l) r) (case_vals V (\<lambda>v. truth D v = Some True) (Some l))"
      by (rule case_loop_refines [OF assms]) (rule is_true_truth)
    then show ?thesis using None by simp
  next
    case (Some x)
    show ?thesis
    proof (cases "ev x (EVAL_NIL D)")
      case None
      then show ?thesis using refinesD [OF assms, of x "EVAL_NIL D"] Some by simp
    next
      case n: (Some n)
      then have ok: "node_ok n" "V x = Some (node_val n)" using refinesD [OF assms, of x "EVAL_NIL D"] by auto
      have "rfs (case_loop D ev (eval_are_equal D n) (Some l) r)
          (case_vals V (\<lambda>w. node_val n \<noteq> VNull \<and> w \<noteq> VNull \<and> eq_val D (node_val n) w) (Some l))"
        if "sem_type n \<noteq> SEM_TYPE_ERROR"
        by (rule case_loop_refines [OF assms]) (rule eval_are_equal_val [OF ok(1) that])
      then show ?thesis using ok n Some by simp
    qed
  qed
  from rfs_bind [OF this els] show ?thesis by (simp add: eval_case_expr_def case_spec_def k)
qed

section \<open>The specification evaluator\<close>

type_synonym 'r spec_fn = "(ast \<Rightarrow> 'r sqlval option) \<Rightarrow> ast \<Rightarrow> 'r sqlval option"

definition spec2 :: "('r sqlval \<Rightarrow> 'r sqlval \<Rightarrow> 'r sqlval option) \<Rightarrow> 'r spec_fn" where
  "spec2 g V e = Option.bind (both V e) (\<lambda>(l, r). g l r)"

definition spec1 :: "('r sqlval \<Rightarrow> 'r sqlval option) \<Rightarrow> 'r spec_fn" where
  "spec1 g V e = Option.bind (left_val V e) g"

definition spec_fns :: "'r double_ops \<Rightarrow> (cstring \<times> 'r spec_fn) list" where
  "spec_fns D =
     [(''null'', \<lambda>V e. Some VNull), (''num'', \<lambda>V e. num_spec D e),
      (''add'', spec2 (arith_val D False (\<lambda>t a b. Some (a + b)) (\<lambda>a b. Some (d_add D a b)))),
      (''mul'', spec2 (arith_val D False (\<lambda>t a b. Some (a * b)) (\<lambda>a b. Some (d_mul D a b)))),
      (''div'', spec2 (arith_val D True div_int (\<lambda>a b. Some (d_div D a b)))),
      (''mod'', spec2 (arith_val D True mod_int (\<lambda>a b. None))),
      (''sub'', spec2 (arith_val D False (\<lambda>t a b. Some (a - b)) (\<lambda>a b. Some (d_sub D a b)))),
      (''lshift'', spec2 (arith_val D False shl_int (\<lambda>a b. None))),
      (''rshift'', spec2 (arith_val D False shr_int (\<lambda>a b. None))),
      (''bin_and'', spec2 (arith_val D False (\<lambda>t a b. Some (a AND b)) (\<lambda>a b. None))),
      (''bin_or'', spec2 (arith_val D False (\<lambda>t a b. Some (a OR b)) (\<lambda>a b. None))),
      (''eq'', spec2 (compare_val D (=) (d_eq D))),
      (''lt'', spec2 (compare_val D (<) (d_lt D))),
      (''gt'', spec2 (compare_val D (>) (\<lambda>a b. d_lt D b a))),
      (''ne'', spec2 (compare_val D (\<noteq>) (\<lambda>a b. \<not> d_eq D a b))),
      (''ge'', spec2 (compare_val D (\<ge>) (\<lambda>a b. d_le D b a))),
      (''le'', spec2 (compare_val D (\<le>) (d_le D))),
      (''and'', logic_val D False (kleene False)), (''or'', logic_val D True (kleene True)),
      (''is'', spec2 (\<lambda>l r. Some (is_val D l r))),
      (''is_not'', spec2 (\<lambda>l r. Some (not_val D (is_val D l r)))),
      (''is_true'', spec1 (\<lambda>v. Some (test_val (\<lambda>v. truth D v = Some True) v))),
      (''is_false'', spec1 (\<lambda>v. Some (test_val (\<lambda>v. truth D v = Some False) v))),
      (''is_not_true'', spec1 (\<lambda>v. Some (test_val (\<lambda>v. truth D v \<noteq> Some True) v))),
      (''is_not_false'', spec1 (\<lambda>v. Some (test_val (\<lambda>v. truth D v \<noteq> Some False) v))),
      (''cast_expr'', cast_spec D), (''not'', spec1 (\<lambda>v. Some (not_val D v))), (''tilde'', spec1 tilde_val),
      (''uminus'', uminus_spec D), (''case_expr'', case_spec D)]"

text \<open>The value of an expression; an unknown node type is an error.\<close>

primrec eval_spec :: "'r double_ops \<Rightarrow> nat \<Rightarrow> ast \<Rightarrow> 'r sqlval option" where
  "eval_spec D 0 e = None"
| "eval_spec D (Suc n) e =
     (case find_fn (spec_fns D) (ast_type e) of
        None \<Rightarrow> Some VErr
      | Some g \<Rightarrow> g (eval_spec D n) e)"

definition fn_refines :: "'r eval_fn \<Rightarrow> 'r spec_fn \<Rightarrow> bool" where
  "fn_refines f g \<longleftrightarrow> (\<forall>ev V e r. refines ev V \<longrightarrow> rf (f ev e r) (g V e))"

lemma fn_refinesI: "(\<And>ev V e r. refines ev V \<Longrightarrow> rf (f ev e r) (g V e)) \<Longrightarrow> fn_refines f g"
  unfolding fn_refines_def by blast

lemma no_real_refines:
  "c_operator f fi (\<lambda>a b. None) \<Longrightarrow> refines ev V \<Longrightarrow>
     rf (BINARY_OP_NO_REAL f g D ev e r) (Option.bind (both V e) (\<lambda>(l, r). arith_val D g fi (\<lambda>a b. None) l r))"
  using c_operator.BINARY_OP_refines [of f fi "\<lambda>a b. None" ev V g D e r] c_operator.opd [of f fi "\<lambda>a b. None"]
  by (subst NO_REAL_eq) (auto intro: ext)

lemma operator_refines:
  "fn_refines (eval_add D) (spec2 (arith_val D False (\<lambda>t a b. Some (a + b)) (\<lambda>a b. Some (d_add D a b))))"
  "fn_refines (eval_sub D) (spec2 (arith_val D False (\<lambda>t a b. Some (a - b)) (\<lambda>a b. Some (d_sub D a b))))"
  "fn_refines (eval_mul D) (spec2 (arith_val D False (\<lambda>t a b. Some (a * b)) (\<lambda>a b. Some (d_mul D a b))))"
  "fn_refines (eval_div D) (spec2 (arith_val D True div_int (\<lambda>a b. Some (d_div D a b))))"
  unfolding eval_add_def eval_sub_def eval_mul_def eval_div_def spec2_def
  by (rule fn_refinesI, erule op_add.BINARY_OP_refines op_sub.BINARY_OP_refines op_mul.BINARY_OP_refines
      op_div.BINARY_OP_refines)+

lemma no_real_operator_refines:
  "fn_refines (eval_mod D) (spec2 (arith_val D True mod_int (\<lambda>a b. None)))"
  "fn_refines (eval_lshift D) (spec2 (arith_val D False shl_int (\<lambda>a b. None)))"
  "fn_refines (eval_rshift D) (spec2 (arith_val D False shr_int (\<lambda>a b. None)))"
  "fn_refines (eval_bin_and D) (spec2 (arith_val D False (\<lambda>t a b. Some (a AND b)) (\<lambda>a b. None)))"
  "fn_refines (eval_bin_or D) (spec2 (arith_val D False (\<lambda>t a b. Some (a OR b)) (\<lambda>a b. None)))"
  unfolding eval_mod_def eval_lshift_def eval_rshift_def eval_bin_and_def eval_bin_or_def spec2_def
  by (rule fn_refinesI, rule no_real_refines, rule op_mod.c_operator_axioms op_lshift.c_operator_axioms
      op_rshift.c_operator_axioms op_bin_and.c_operator_axioms op_bin_or.c_operator_axioms, assumption)+

lemma compare_refines:
  "fn_refines (eval_eq D) (spec2 (compare_val D (=) (d_eq D)))"
  "fn_refines (eval_ne D) (spec2 (compare_val D (\<noteq>) (\<lambda>a b. \<not> d_eq D a b)))"
  "fn_refines (eval_lt D) (spec2 (compare_val D (<) (d_lt D)))"
  "fn_refines (eval_gt D) (spec2 (compare_val D (>) (\<lambda>a b. d_lt D b a)))"
  "fn_refines (eval_le D) (spec2 (compare_val D (\<le>) (d_le D)))"
  "fn_refines (eval_ge D) (spec2 (compare_val D (\<ge>) (\<lambda>a b. d_le D b a)))"
proof -
  have c: "fn_refines (COMPARE_BINARY_OP f D) (spec2 (compare_val D (cmp_int f) (cmp_real f)))" for f
    unfolding spec2_def by (rule fn_refinesI) (rule COMPARE_refines)
  show "fn_refines (eval_eq D) (spec2 (compare_val D (=) (d_eq D)))"
    using c [of "eq_cmp D"] by (simp add: eval_eq_def eq_cmp_def)
  show "fn_refines (eval_ne D) (spec2 (compare_val D (\<noteq>) (\<lambda>a b. \<not> d_eq D a b)))"
    "fn_refines (eval_lt D) (spec2 (compare_val D (<) (d_lt D)))"
    "fn_refines (eval_gt D) (spec2 (compare_val D (>) (\<lambda>a b. d_lt D b a)))"
    "fn_refines (eval_le D) (spec2 (compare_val D (\<le>) (d_le D)))"
    "fn_refines (eval_ge D) (spec2 (compare_val D (\<ge>) (\<lambda>a b. d_le D b a)))"
    using c [of "\<lparr>cmp_int = (\<noteq>), cmp_real = \<lambda>a b. \<not> d_eq D a b\<rparr>"] c [of "\<lparr>cmp_int = (<), cmp_real = d_lt D\<rparr>"]
      c [of "\<lparr>cmp_int = (>), cmp_real = \<lambda>a b. d_lt D b a\<rparr>"] c [of "\<lparr>cmp_int = (\<le>), cmp_real = d_le D\<rparr>"]
      c [of "\<lparr>cmp_int = (\<ge>), cmp_real = \<lambda>a b. d_le D b a\<rparr>"]
    by (simp_all add: eval_ne_def eval_lt_def eval_gt_def eval_le_def eval_ge_def)
qed

lemma other_refines:
  "fn_refines (eval_null D) (\<lambda>V e. Some VNull)" "fn_refines (eval_num D) (\<lambda>V e. num_spec D e)"
  "fn_refines (eval_and D) (logic_val D False (kleene False))" "fn_refines (eval_or D) (logic_val D True (kleene True))"
  "fn_refines (eval_is D) (spec2 (\<lambda>l r. Some (is_val D l r)))"
  "fn_refines (eval_is_not D) (spec2 (\<lambda>l r. Some (not_val D (is_val D l r))))"
  "fn_refines (eval_is_true D) (spec1 (\<lambda>v. Some (test_val (\<lambda>v. truth D v = Some True) v)))"
  "fn_refines (eval_is_false D) (spec1 (\<lambda>v. Some (test_val (\<lambda>v. truth D v = Some False) v)))"
  "fn_refines (eval_is_not_true D) (spec1 (\<lambda>v. Some (test_val (\<lambda>v. truth D v \<noteq> Some True) v)))"
  "fn_refines (eval_is_not_false D) (spec1 (\<lambda>v. Some (test_val (\<lambda>v. truth D v \<noteq> Some False) v)))"
  "fn_refines (eval_cast_expr D) (cast_spec D)" "fn_refines (eval_not D) (spec1 (\<lambda>v. Some (not_val D v)))"
  "fn_refines (eval_tilde D) (spec1 tilde_val)" "fn_refines (eval_uminus D) (uminus_spec D)"
  "fn_refines (eval_case_expr D) (case_spec D)"
  unfolding spec1_def spec2_def
  by (rule fn_refinesI, (erule eval_logic_refines eval_is_refines
      eval_is_not_refines eval_is_truth_refines eval_cast_expr_refines eval_not_refines eval_tilde_refines
      eval_uminus_refines eval_case_expr_refines | rule eval_num_refines | simp add: eval_null_def))+

lemma tables_match: "list_all2 (\<lambda>(x, f) (y, g). x = y \<and> fn_refines f g) (eval_fns D) (spec_fns D)"
  by (simp add: eval_fns_def spec_fns_def operator_refines no_real_operator_refines compare_refines other_refines)

lemma find_fn_match:
  "list_all2 (\<lambda>(x, f) (y, g). x = y \<and> P f g) fs gs \<Longrightarrow>
     (case find_fn fs k of None \<Rightarrow> find_fn gs k = None | Some f \<Rightarrow> \<exists>g. find_fn gs k = Some g \<and> P f g)"
proof (induction fs gs rule: list_all2_induct)
  case (Cons p fs q gs)
  then show ?case by (cases p; cases q) (auto split: option.splits)
qed simp

lemma eval_refines_spec:
  assumes "evals_ok D t"
  shows "refines (eval D t n) (eval_spec D n)"
proof (induction n)
  case 0
  then show ?case by (simp add: refines_def)
next
  case (Suc n)
  have "rf (eval D t (Suc n) e r) (eval_spec D (Suc n) e)" for e r
  proof (cases "find_fn (eval_fns D) (ast_type e)")
    case None
    then have "find_fn (spec_fns D) (ast_type e) = None"
      using find_fn_match [OF tables_match, of D "ast_type e"] by simp
    then show ?thesis
      using None by (simp add: eval_step [OF assms] err_result_def node_val_def del: eval.simps)
  next
    case (Some f)
    then obtain g where g: "find_fn (spec_fns D) (ast_type e) = Some g" "fn_refines f g"
      using find_fn_match [OF tables_match, of D "ast_type e"] by auto
    then have "rf (f (eval D t n) e r) (g (eval_spec D n) e)" using Suc by (simp add: fn_refines_def)
    then show ?thesis
      using Some g(1)
      by (cases "f (eval D t n) e r") (auto simp: eval_step [OF assms] seal_def err_result_def node_val_def simp del: eval.simps)
  qed
  then show ?case by (simp add: refines_def del: eval.simps eval_spec.simps)
qed

end
