(* ===== verification/Eval_Props.thy ===== *)
theory Eval_Props
  imports Eval_Refine
begin

text \<open>
  The properties of the constant evaluator: refinement of the value semantics, enough fuel, no
  failure on integer expressions, the round trip through literals, De Morgan's law with short
  circuits, and the behaviour of division on every pair of integers.
\<close>

section \<open>Literals print and parse\<close>

lemma schar_digit: "d < 10 \<Longrightarrow> schar (digit_char d) = 48 + int d"
proof -
  assume d: "d < 10"
  have "(of_char (digit_char d) :: int) = int (of_char (digit_char d))" by (simp only: of_nat_of_char)
  also have "\<dots> = 48 + int d" using d by (simp add: digit_char_def del: of_nat_of_char)
  finally show ?thesis using d by (simp add: schar_def Let_def)
qed

lemma digit_value_digit: "d < 10 \<Longrightarrow> digit_value (digit_char d) = Some d"
  by (simp add: digit_value_def IsDigit_def schar_digit schar_consts)

lemma strtol_digits_append:
  "(\<forall>c \<in> set s. \<exists>d < base. digit_value c = Some d) \<Longrightarrow>
     strtol_digits base (s @ u) acc = strtol_digits base u (strtol_digits base s acc)"
  by (induction s arbitrary: acc) auto

lemma show_nat_digits: "c \<in> set (show_nat n) \<Longrightarrow> \<exists>d < 10. c = digit_char d"
proof (induction n rule: show_nat.induct)
  case (1 n)
  then show ?case by (subst (asm) (2) show_nat.simps) (force split: if_splits)
qed

lemma strtol_show_nat: "strtol_digits 10 (show_nat n) 0 = n"
proof (induction n rule: show_nat.induct)
  case (1 n)
  show ?case
  proof (cases "n < 10")
    case True
    then show ?thesis by (simp add: show_nat.simps digit_value_digit)
  next
    case False
    have d: "\<forall>c \<in> set (show_nat (n div 10)). \<exists>d < 10. digit_value c = Some d"
      using show_nat_digits digit_value_digit by blast
    have "show_nat n = show_nat (n div 10) @ [digit_char (n mod 10)]" using False by (simp add: show_nat.simps [of n])
    then show ?thesis
      using 1 False by (simp add: strtol_digits_append [OF d] digit_value_digit)
  qed
qed

lemma show_nat_head: "\<exists>d u. show_nat n = digit_char d # u \<and> d < 10 \<and> (u \<noteq> [] \<longrightarrow> d \<noteq> 0)"
proof (induction n rule: show_nat.induct)
  case (1 n)
  show ?case
  proof (cases "n < 10")
    case False
    then obtain d u where "show_nat (n div 10) = digit_char d # u" "d < 10" "u \<noteq> [] \<longrightarrow> d \<noteq> 0" using 1 by blast
    moreover have "d \<noteq> 0" if "u = []"
    proof
      assume "d = 0"
      then have "strtol_digits 10 (show_nat (n div 10)) 0 = 0" using calculation(1) that by (simp add: digit_value_digit)
      then show False using False strtol_show_nat by simp
    qed
    ultimately show ?thesis using False by (subst show_nat.simps) auto
  qed (auto simp: show_nat.simps)
qed

lemma digit_not_special:
  "d < 10 \<Longrightarrow> \<not> is_space (digit_char d) \<and> digit_char d \<noteq> CHR ''-'' \<and> digit_char d \<noteq> CHR ''+'' \<and>
     digit_char d \<noteq> CHR ''x'' \<and> digit_char d \<noteq> CHR ''X'' \<and> digit_char d \<noteq> CHR '' ''"
  using schar_digit [of d] by (auto simp: is_space_def schar_def)

lemma show_nat_plain: "\<not> has_hex_prefix (show_nat n)"
proof -
  obtain d u where h: "show_nat n = digit_char d # u" "d < 10" using show_nat_head by blast
  show ?thesis
  proof (cases u)
    case (Cons c v)
    then obtain e where "e < 10" "c = digit_char e" using show_nat_digits [of c n] h by auto
    then show ?thesis using h Cons digit_not_special [of e] by (simp add: has_hex_prefix_def)
  qed (simp add: h has_hex_prefix_def)
qed

lemma strtoll_show_int:
  assumes "- (2 ^ 63) \<le> i" and "i < 2 ^ 63"
  shows "strtoll (show_int i) (if has_hex_prefix (show_int i) then 16 else 10) = i"
    and "strtoll (show_int i) 10 = i"
proof -
  obtain d u where h: "show_nat (nat \<bar>i\<bar>) = digit_char d # u" "d < 10" using show_nat_head by blast
  have hex: "\<not> has_hex_prefix (show_int i)"
    using show_nat_plain [of "nat i"] by (simp add: show_int_def has_hex_prefix_def)
  have n: "int (strtol_digits 10 (show_nat (nat \<bar>i\<bar>)) 0) = \<bar>i\<bar>" by (simp only: strtol_show_nat)
  show e: "strtoll (show_int i) 10 = i"
  proof (cases "i < 0")
    case True
    then have "show_int i = CHR ''-'' # show_nat (nat \<bar>i\<bar>)" by (simp add: show_int_def)
    then show ?thesis using n True assms by (simp add: strtoll_def is_space_def schar_def Let_def)
  next
    case False
    then have "show_int i = show_nat (nat \<bar>i\<bar>)" by (simp add: show_int_def)
    then show ?thesis
      using n False assms h digit_not_special [OF h(2)] by (simp add: strtoll_def Let_def del: strtol_digits.simps)
  qed
  show "strtoll (show_int i) (if has_hex_prefix (show_int i) then 16 else 10) = i" using e hex by simp
qed

text \<open>The node that stands for a result evaluates to that result.\<close>

lemma ToLower_letters:
  "ToLower CHR ''a'' = CHR ''a''" "ToLower CHR ''b'' = CHR ''b''" "ToLower CHR ''c'' = CHR ''c''"
  "ToLower CHR ''d'' = CHR ''d''" "ToLower CHR ''e'' = CHR ''e''" "ToLower CHR ''f'' = CHR ''f''"
  "ToLower CHR ''g'' = CHR ''g''" "ToLower CHR ''h'' = CHR ''h''" "ToLower CHR ''i'' = CHR ''i''"
  "ToLower CHR ''j'' = CHR ''j''" "ToLower CHR ''k'' = CHR ''k''" "ToLower CHR ''l'' = CHR ''l''"
  "ToLower CHR ''m'' = CHR ''m''" "ToLower CHR ''n'' = CHR ''n''" "ToLower CHR ''o'' = CHR ''o''"
  "ToLower CHR ''p'' = CHR ''p''" "ToLower CHR ''q'' = CHR ''q''" "ToLower CHR ''r'' = CHR ''r''"
  "ToLower CHR ''s'' = CHR ''s''" "ToLower CHR ''t'' = CHR ''t''" "ToLower CHR ''u'' = CHR ''u''"
  "ToLower CHR ''v'' = CHR ''v''" "ToLower CHR ''w'' = CHR ''w''" "ToLower CHR ''x'' = CHR ''x''"
  "ToLower CHR ''y'' = CHR ''y''" "ToLower CHR ''z'' = CHR ''z''" "ToLower CHR ''_'' = CHR ''_''"
  by (simp_all add: ToLower_def IsUpper_def schar_def)

lemma spec_num: "eval_spec D (Suc n) (Num t lit) = num_spec D (Num t lit)"
  by (simp add: spec_fns_def cmp_case_insens_def StrCaseCmp_Nil StrCaseCmp_Cons ToLower_letters)

lemma spec_ast:
  "eval_spec D (Suc n) (Ast ''null'' l r s) = Some VNull"
  "eval_spec D (Suc n) (Ast ''and'' l r s) = logic_val D False (kleene False) (eval_spec D n) (Ast ''and'' l r s)"
  "eval_spec D (Suc n) (Ast ''or'' l r s) = logic_val D True (kleene True) (eval_spec D n) (Ast ''or'' l r s)"
  "eval_spec D (Suc n) (Ast ''not'' l r s) = spec1 (\<lambda>v. Some (not_val D v)) (eval_spec D n) (Ast ''not'' l r s)"
  "eval_spec D (Suc n) (Ast ''uminus'' l r s) = uminus_spec D (eval_spec D n) (Ast ''uminus'' l r s)"
  "eval_spec D (Suc n) (Ast ''tilde'' l r s) = spec1 tilde_val (eval_spec D n) (Ast ''tilde'' l r s)"
  "eval_spec D (Suc n) (Ast ''is_true'' l r s) =
     spec1 (\<lambda>v. Some (test_val (\<lambda>v. truth D v = Some True) v)) (eval_spec D n) (Ast ''is_true'' l r s)"
  "eval_spec D (Suc n) (Ast ''is_false'' l r s) =
     spec1 (\<lambda>v. Some (test_val (\<lambda>v. truth D v = Some False) v)) (eval_spec D n) (Ast ''is_false'' l r s)"
  "eval_spec D (Suc n) (Ast ''is_not_true'' l r s) =
     spec1 (\<lambda>v. Some (test_val (\<lambda>v. truth D v \<noteq> Some True) v)) (eval_spec D n) (Ast ''is_not_true'' l r s)"
  "eval_spec D (Suc n) (Ast ''is_not_false'' l r s) =
     spec1 (\<lambda>v. Some (test_val (\<lambda>v. truth D v \<noteq> Some False) v)) (eval_spec D n) (Ast ''is_not_false'' l r s)"
  by (simp_all add: spec_fns_def cmp_case_insens_def StrCaseCmp_Nil StrCaseCmp_Cons ToLower_letters)

lemma spec_arith:
  "eval_spec D (Suc n) (Ast ''add'' l r s) =
     spec2 (arith_val D False (\<lambda>t a b. Some (a + b)) (\<lambda>a b. Some (d_add D a b))) (eval_spec D n) (Ast ''add'' l r s)"
  "eval_spec D (Suc n) (Ast ''sub'' l r s) =
     spec2 (arith_val D False (\<lambda>t a b. Some (a - b)) (\<lambda>a b. Some (d_sub D a b))) (eval_spec D n) (Ast ''sub'' l r s)"
  "eval_spec D (Suc n) (Ast ''mul'' l r s) =
     spec2 (arith_val D False (\<lambda>t a b. Some (a * b)) (\<lambda>a b. Some (d_mul D a b))) (eval_spec D n) (Ast ''mul'' l r s)"
  "eval_spec D (Suc n) (Ast ''bin_and'' l r s) =
     spec2 (arith_val D False (\<lambda>t a b. Some (a AND b)) (\<lambda>a b. None)) (eval_spec D n) (Ast ''bin_and'' l r s)"
  "eval_spec D (Suc n) (Ast ''bin_or'' l r s) =
     spec2 (arith_val D False (\<lambda>t a b. Some (a OR b)) (\<lambda>a b. None)) (eval_spec D n) (Ast ''bin_or'' l r s)"
  "eval_spec D (Suc n) (Ast ''div'' l r s) =
     spec2 (arith_val D True div_int (\<lambda>a b. Some (d_div D a b))) (eval_spec D n) (Ast ''div'' l r s)"
  "eval_spec D (Suc n) (Ast ''mod'' l r s) =
     spec2 (arith_val D True mod_int (\<lambda>a b. None)) (eval_spec D n) (Ast ''mod'' l r s)"
  by (simp_all add: spec_fns_def cmp_case_insens_def StrCaseCmp_Nil StrCaseCmp_Cons ToLower_letters)

lemma spec_compare:
  "eval_spec D (Suc n) (Ast ''is'' l r s) = spec2 (\<lambda>l r. Some (is_val D l r)) (eval_spec D n) (Ast ''is'' l r s)"
  "eval_spec D (Suc n) (Ast ''is_not'' l r s) =
     spec2 (\<lambda>l r. Some (not_val D (is_val D l r))) (eval_spec D n) (Ast ''is_not'' l r s)"
  "eval_spec D (Suc n) (Ast ''eq'' l r s) = spec2 (compare_val D (=) (d_eq D)) (eval_spec D n) (Ast ''eq'' l r s)"
  "eval_spec D (Suc n) (Ast ''ne'' l r s) =
     spec2 (compare_val D (\<noteq>) (\<lambda>a b. \<not> d_eq D a b)) (eval_spec D n) (Ast ''ne'' l r s)"
  "eval_spec D (Suc n) (Ast ''lt'' l r s) = spec2 (compare_val D (<) (d_lt D)) (eval_spec D n) (Ast ''lt'' l r s)"
  "eval_spec D (Suc n) (Ast ''le'' l r s) = spec2 (compare_val D (\<le>) (d_le D)) (eval_spec D n) (Ast ''le'' l r s)"
  "eval_spec D (Suc n) (Ast ''gt'' l r s) =
     spec2 (compare_val D (>) (\<lambda>a b. d_lt D b a)) (eval_spec D n) (Ast ''gt'' l r s)"
  "eval_spec D (Suc n) (Ast ''ge'' l r s) =
     spec2 (compare_val D (\<ge>) (\<lambda>a b. d_le D b a)) (eval_spec D n) (Ast ''ge'' l r s)"
  by (simp_all add: spec_fns_def cmp_case_insens_def StrCaseCmp_Nil StrCaseCmp_Cons ToLower_letters)

declare eval_spec.simps(2) [simp del]
declare eval.simps(2) [simp del]

section \<open>Integer expressions always fold\<close>

text \<open>
  The expressions on integers and nulls without division, shifts and casts, every node with the
  children its type asks for.
\<close>

definition int_unary :: "cstring list" where
  "int_unary = [''not'', ''uminus'', ''tilde'', ''is_true'', ''is_false'', ''is_not_true'', ''is_not_false'']"

definition int_binary :: "cstring list" where
  "int_binary = [''add'', ''sub'', ''mul'', ''bin_and'', ''bin_or'', ''is'', ''is_not'', ''eq'', ''ne'', ''lt'',
     ''le'', ''gt'', ''ge'', ''and'', ''or'']"

fun foldable :: "ast \<Rightarrow> bool" where
  "foldable (Num t lit) \<longleftrightarrow> t \<noteq> NUM_REAL"
| "foldable (Ast t l r s) \<longleftrightarrow>
     t = ''null'' \<or>
     t \<in> set int_unary \<and> (case l of Some a \<Rightarrow> foldable a | None \<Rightarrow> False) \<or>
     t \<in> set int_binary \<and> (case l of Some a \<Rightarrow> foldable a | None \<Rightarrow> False) \<and>
       (case r of Some b \<Rightarrow> foldable b | None \<Rightarrow> False)"

definition int_or_null :: "'r sqlval \<Rightarrow> bool" where
  "int_or_null v \<longleftrightarrow> v = VNull \<or> (\<exists>t i. v = VNum t i)"

lemma int_or_null_simps [simp]: "int_or_null VNull" "int_or_null (VNum t i)" "int_or_null (vbool b)" "int_or_null (of_bool3 x)"
  by (auto simp: int_or_null_def vbool_def of_bool3_def split: option.splits)

lemma int_or_null_cases:
  assumes "int_or_null v"
  obtains "v = VNull" | t i where "v = VNum t i"
  using assms by (auto simp: int_or_null_def)

lemma int_unary_total:
  assumes "t \<in> set int_unary" and "eval_spec D n a = Some v" and "int_or_null v"
  shows "\<exists>w. eval_spec D (Suc n) (Ast t (Some a) r s) = Some w \<and> int_or_null w"
  using assms(1,2)
  by (rule_tac int_or_null_cases [OF assms(3)])
    (auto simp: int_unary_def spec_ast spec1_def left_val_def not_val_def test_val_def uminus_spec_def
      uminus_val_def tilde_val_def)

lemmas strict_defs = spec2_def both_def arith_val_def compare_val_def strict2_def

lemma int_binary_total:
  assumes "t \<in> set int_binary" and "eval_spec D n a = Some v" and "int_or_null v"
    and "eval_spec D n b = Some w" and "int_or_null w"
  shows "\<exists>x. eval_spec D (Suc n) (Ast t (Some a) (Some b) s) = Some x \<and> int_or_null x"
proof -
  have sp: "\<exists>x. spec2 g (eval_spec D n) (Ast k (Some a) (Some b) s) = Some x \<and> int_or_null x"
    if "\<exists>x. g v w = Some x \<and> int_or_null x" for g k
    using that assms(2,4) by (simp add: spec2_def both_def)
  have a: "\<exists>x. arith_val D False (\<lambda>t a b. Some (f a b)) fr v w = Some x \<and> int_or_null x" for f fr
    by (rule int_or_null_cases [OF assms(3)]; rule int_or_null_cases [OF assms(5)])
      (simp_all add: arith_val_def strict2_def)
  have c: "\<exists>x. compare_val D f fr v w = Some x \<and> int_or_null x" for f fr
    by (rule int_or_null_cases [OF assms(3)]; rule int_or_null_cases [OF assms(5)])
      (simp_all add: compare_val_def strict2_def)
  have i: "int_or_null (is_val D v w)" "is_val D v w \<noteq> VErr"
    by (rule int_or_null_cases [OF assms(3)]; rule int_or_null_cases [OF assms(5)]; simp add: is_val_def vbool_def)+
  have n: "int_or_null (not_val D (is_val D v w))" using i(2) by (simp add: not_val_def)
  have l: "\<exists>x. logic_val D stop op (eval_spec D n) (Ast k (Some a) (Some b) s) = Some x \<and> int_or_null x" for stop op k
    using assms(2,4)
    by (rule_tac int_or_null_cases [OF assms(3)]; rule_tac int_or_null_cases [OF assms(5)])
      (simp_all add: logic_val_def left_val_def)
  show ?thesis
    using assms(1) i n l
    by (auto simp: int_binary_def spec_ast spec_arith spec_compare intro!: sp a c)
qed

lemma foldable_spec:
  "foldable e \<Longrightarrow> size e < n \<Longrightarrow> \<exists>v. eval_spec D n e = Some v \<and> int_or_null v"
proof (induction n arbitrary: e)
  case (Suc n)
  show ?case
  proof (cases e)
    case (Num t lit)
    then show ?thesis using Suc.prems by (cases t) (simp_all add: spec_num num_spec_def Let_def)
  next
    case (Ast t l r s)
    consider (null) "t = ''null''"
    | (unary) a where "t \<in> set int_unary" "l = Some a" "foldable a"
    | (binary) a b where "t \<in> set int_binary" "l = Some a" "r = Some b" "foldable a" "foldable b"
      using Suc.prems(1) Ast by (auto split: option.splits)
    then show ?thesis
    proof cases
      case null
      then show ?thesis using Ast by (simp add: spec_ast)
    next
      case unary
      then obtain v where v: "eval_spec D n a = Some v" "int_or_null v" using Suc Ast by fastforce
      show ?thesis unfolding Ast unary(2) by (rule int_unary_total [OF unary(1) v])
    next
      case binary
      have sz: "size a < n" "size b < n" using Suc.prems(2) Ast binary by auto
      obtain v where v: "eval_spec D n a = Some v" "int_or_null v" using Suc.IH [OF binary(4) sz(1)] by blast
      obtain w where w: "eval_spec D n b = Some w" "int_or_null w" using Suc.IH [OF binary(5) sz(2)] by blast
      show ?thesis unfolding Ast binary(2,3) by (rule int_binary_total [OF binary(1) v w])
    qed
  qed
qed simp

section \<open>Properties\<close>

lemma eval_value:
  assumes "eval_init D = Some t"
  shows "map_option node_val (eval D t n e r) = eval_spec D n e"
  using refinesD [OF eval_refines_spec, of D t n e r] assms
  by (cases "eval D t n e r") (simp_all add: evals_ok_def)

lemma eval_init_some: "\<exists>t. eval_init D = Some t"
  by (rule eval_init_table [of D]) blast

text \<open>Doubles for the witnesses: reals that are integers.\<close>

definition int_doubles :: "int double_ops" where
  "int_doubles = \<lparr>d_of_int = id, d_trunc = Some, d_add = (+), d_sub = (-), d_mul = (*), d_div = (sdiv),
     d_neg = uminus, d_eq = (=), d_lt = (<), d_le = (\<le>), d_atof = (\<lambda>s. strtoll s 10), d_format = show_int\<rparr>"

definition int_evals :: "(int eval_fn, unit) symtab" where
  "int_evals = the (eval_init int_doubles)"

lemma int_evals_init [simp]: "eval_init int_doubles = Some int_evals"
  using eval_init_some [of int_doubles] by (auto simp: int_evals_def)

lemma show_literals:
  "show_int 2147483647 = ''2147483647''" "show_int 1 = ''1''" "show_int 0 = ''0''" "show_int 2 = ''2''"
  by (simp_all add: show_int_def show_nat.simps digit_char_def char_of_def bit_0)

lemma literals:
  "strtoll ''2147483647'' 10 = 2147483647" "\<not> has_hex_prefix ''2147483647''"
  "strtoll ''1'' 10 = 1" "\<not> has_hex_prefix ''1''" "strtoll ''0'' 10 = 0" "\<not> has_hex_prefix ''0''"
  "strtoll ''2'' 10 = 2" "\<not> has_hex_prefix ''2''"
  using strtoll_show_int(2) [of 2147483647] strtoll_show_int(2) [of 1] strtoll_show_int(2) [of 0]
    strtoll_show_int(2) [of 2]
  by (simp_all add: show_literals has_hex_prefix_def)

lemmas run_spec = spec_num spec_ast spec_arith spec_compare spec1_def spec2_def both_def left_val_def num_spec_def
  literals Let_def vbool_def arith_val_def strict2_def join_def wrap_def truth_def

text \<open>
  C5. The evaluator computes the value semantics: for the table that \<open>eval_init\<close> builds, on every tree,
  whatever the result node held before, \<open>eval\<close> is undefined exactly when the semantics is, and
  otherwise its node carries the value the semantics gives: 32-bit and 64-bit wrap-around of the
  mathematical result, promotion to the wider type, three-valued logic, errors as values.
\<close>

theorem eval_refines_values:
  assumes "eval_init D = Some t"
  shows "map_option node_val (eval D t n e r) = eval_spec D n e"
  by (rule eval_value [OF assms])

theorem eval_refines_values_witness:
  "map_option node_val (eval int_doubles int_evals 2
     (Ast ''add'' (Some (Num NUM_INT ''2147483647'')) (Some (Num NUM_BOOL ''1'')) SEM_TYPE_OK) (EVAL_NIL int_doubles)) =
   Some (VNum TI (- 2147483648))"
  by (simp add: eval_refines_values [OF int_evals_init] numeral_2_eq_2 run_spec)

text \<open>
  C27. An expression built only from boolean, integer and long literals, \<open>NULL\<close>, \<open>+\<close>, \<open>-\<close>, \<open>*\<close>, unary minus, \<open>~\<close>, \<open>&\<close>, \<open>|\<close>,
  the six comparisons, \<open>IS\<close>, \<open>IS NOT\<close>, \<open>NOT\<close>, \<open>AND\<close>, \<open>OR\<close> and the tests \<open>IS [NOT] TRUE\<close> and \<open>IS [NOT] FALSE\<close> (the class
  \<open>foldable\<close>) always has a result, an integer of 1, 32 or 64 bits or \<open>NULL\<close>: neither an error nor anything
  undefined.  Division, remainder, shifts, casts, \<open>CASE\<close> and real literals are outside this class.
\<close>

theorem eval_integers_fold:
  assumes "eval_init D = Some t" and "foldable e" and "size e < n"
  shows "\<exists>x. eval D t n e r = Some x \<and> int_or_null (node_val x)"
  using foldable_spec [OF assms(2,3), of D] eval_value [OF assms(1), of n e r] by auto

theorem eval_integers_fold_witness:
  "\<exists>x. eval int_doubles int_evals 20
     (Ast ''and'' (Some (Ast ''null'' None None SEM_TYPE_OK))
       (Some (Ast ''lt'' (Some (Num NUM_INT ''0x7f'')) (Some (Num NUM_LONG ''12'')) SEM_TYPE_OK)) SEM_TYPE_OK)
     (EVAL_NIL int_doubles) = Some x \<and> int_or_null (node_val x)"
  by (rule eval_integers_fold [OF int_evals_init]) (simp_all add: int_binary_def)

text \<open>
  C32. The recursion of \<open>eval\<close> ends within the size of the tree, on any tree.  Take the body of \<open>eval\<close>,
  nest it \<open>n\<close> times, and let the calls below that do anything whatever (return any result, or not
  return): if \<open>n\<close> exceeds the size of the tree, the result does not depend on it, so that no call is
  nested deeper, and it is the result of \<open>eval\<close> with any fuel above the size of the tree.
\<close>

theorem eval_terminates:
  assumes "eval_init D = Some t" and "size e < n" and "size e < m"
  shows "(eval_call D t ^^ n) ev e r = eval D t m e r"
  unfolding eval_calls by (rule calls_agree) (use assms in \<open>simp_all add: evals_ok_def\<close>)

theorem eval_terminates_witness:
  "(eval_call int_doubles int_evals ^^ 5) (\<lambda>_ r. Some r) (Ast ''not'' (Some (Num NUM_INT ''1'')) None SEM_TYPE_OK) (EVAL_NIL int_doubles) =
   eval int_doubles int_evals 1000 (Ast ''not'' (Some (Num NUM_INT ''1'')) None SEM_TYPE_OK) (EVAL_NIL int_doubles)"
  by (rule eval_terminates [OF int_evals_init]) simp_all

lemma result_node_value:
  assumes "sem_type x \<in> {SEM_TYPE_NULL, SEM_TYPE_BOOL, SEM_TYPE_INTEGER, SEM_TYPE_LONG_INTEGER}"
  shows "\<exists>e. result_node D x = Some e \<and> eval_spec D (Suc n) e = Some (node_val x)"
proof (cases "sem_type x = SEM_TYPE_LONG_INTEGER \<and> int64_value x = MIN_LONG")
  case True
  then show ?thesis
    using min_long_sint
    by (simp add: result_node_def spec_ast uminus_spec_def is_min_long_lit_def strcmp_eq_0 node_val_def MIN_LONG_def
      MIN_LONG_LIT_def)
next
  case False
  have b: "strtoll (show_int (b2i c)) 10 = b2i c" for c by (rule strtoll_show_int) (simp_all add: b2i_def)
  have i: "strtoll (show_int (sint y)) (if has_hex_prefix (show_int (sint y)) then 16 else 10) = sint y" for y :: i32
    by (rule strtoll_show_int) (use i32_range [of y] in simp_all)
  have l: "strtoll (show_int (sint y)) (if has_hex_prefix (show_int (sint y)) then 16 else 10) = sint y" for y :: i64
    by (rule strtoll_show_int) (use i64_range [of y] in simp_all)
  show ?thesis
    using assms False b by (auto simp: result_node_def spec_num spec_ast num_spec_def node_val_def vbool_def Let_def i l)
qed

text \<open>
  C26. Folding a null, boolean, integer or long result into the tree loses nothing: the node that
  \<open>eval_set\<close> makes for it evaluates to the same value of the same type, the least long included, whose
  digits without the sign are no long.  Real results are left out: \<open>eval_format_real\<close> prints them with the
  six digits that are the default of \<open>%e\<close>.
\<close>

theorem eval_set_round_trip:
  assumes "eval_init D = Some t"
    and "sem_type x \<in> {SEM_TYPE_NULL, SEM_TYPE_BOOL, SEM_TYPE_INTEGER, SEM_TYPE_LONG_INTEGER}"
  shows "\<exists>e p'. eval_set D (Ast k l r s) on_left x = Some (e, p') \<and>
    (if on_left then ast_left p' else ast_right p') = Some e \<and>
    map_option node_val (eval D t (Suc n) e y) = Some (node_val x)"
proof -
  obtain e where e: "result_node D x = Some e" "eval_spec D (Suc n) e = Some (node_val x)"
    using result_node_value [OF assms(2)] by blast
  then show ?thesis using assms(2) by (auto simp: eval_set_def eval_value [OF assms(1)])
qed

theorem eval_set_round_trip_witness:
  "\<exists>e p'. eval_set int_doubles (Ast ''cast_expr'' None None SEM_TYPE_OK) True
      ((EVAL_NIL int_doubles)\<lparr>sem_type := SEM_TYPE_LONG_INTEGER, int64_value := MIN_LONG\<rparr>) = Some (e, p') \<and>
    (if True then ast_left p' else ast_right p') = Some e \<and>
    map_option node_val (eval int_doubles int_evals (Suc 0) e (EVAL_NIL int_doubles)) =
      Some (node_val ((EVAL_NIL int_doubles)\<lparr>sem_type := SEM_TYPE_LONG_INTEGER, int64_value := MIN_LONG\<rparr>))"
  by (rule eval_set_round_trip [OF int_evals_init]) simp

text \<open>
  De Morgan's law holds for the folded operators with their short circuits: for all operands, null,
  erroneous or undefined ones included, \<open>NOT (a AND b)\<close> and \<open>NOT a OR NOT b\<close> fold to the same value.
\<close>

theorem eval_de_morgan:
  assumes "eval_init D = Some t"
  shows "map_option node_val (eval D t n (Ast ''not'' (Some (Ast ''and'' (Some a) (Some b) s)) None s) r) =
    map_option node_val (eval D t n (Ast ''or'' (Some (Ast ''not'' (Some a) None s)) (Some (Ast ''not'' (Some b) None s)) s) r)"
proof (cases n)
  case (Suc m)
  show ?thesis
  proof (cases m)
    case 0
    then show ?thesis by (simp add: eval_value [OF assms] Suc spec_ast spec1_def left_val_def logic_val_def)
  next
    case m: (Suc k)
    show ?thesis
      unfolding eval_value [OF assms] Suc m
      by (cases "eval_spec D k a"; cases "eval_spec D k b")
        (auto simp: spec_ast spec1_def left_val_def logic_val_def not_val_def of_bool3_def vbool_def kleene_def
          truth_def split: option.splits sqlval.splits)
  qed
qed simp

theorem eval_de_morgan_witness:
  "map_option node_val (eval int_doubles int_evals 4
     (Ast ''not'' (Some (Ast ''and'' (Some (Ast ''null'' None None SEM_TYPE_OK)) (Some (Num NUM_INT ''0'')) SEM_TYPE_OK)) None SEM_TYPE_OK)
     (EVAL_NIL int_doubles)) =
   map_option node_val (eval int_doubles int_evals 4
     (Ast ''or'' (Some (Ast ''not'' (Some (Ast ''null'' None None SEM_TYPE_OK)) None SEM_TYPE_OK))
       (Some (Ast ''not'' (Some (Num NUM_INT ''0'')) None SEM_TYPE_OK)) SEM_TYPE_OK) (EVAL_NIL int_doubles))"
  by (rule eval_de_morgan [OF int_evals_init])

text \<open>
  C23. Division of integers: whatever the operand trees, when they evaluate to the integers \<open>a\<close> and \<open>b\<close>,
  a zero divisor gives the error value, any other divisor the quotient rounded towards zero at the wider
  type of the two, except that the quotient of the least integer by -1, which the type cannot hold, is
  undefined behaviour: the test before the division looks at the divisor only.
\<close>

theorem eval_div_integers:
  assumes "eval_init D = Some t"
    and "map_option node_val (eval D t n l x) = Some (VNum i a)"
    and "map_option node_val (eval D t n r y) = Some (VNum j b)"
  shows "map_option node_val (eval D t (Suc n) (Ast ''div'' (Some l) (Some r) s) z) =
    (if b = 0 then Some VErr
     else if a sdiv b \<ge> 2 ^ (width (join i j) - 1) then None
     else Some (VNum (join i j) (wrap (join i j) (a sdiv b))))"
  using assms(2,3)
  by (auto simp: eval_value [OF assms(1)] spec_arith spec2_def both_def arith_val_def strict2_def truth_def
      div_int_def c_div_def Let_def)

theorem eval_div_integers_witness:
  "map_option node_val (eval int_doubles int_evals 2
     (Ast ''div'' (Some (Num NUM_INT ''2147483647'')) (Some (Num NUM_BOOL ''0'')) SEM_TYPE_OK) (EVAL_NIL int_doubles)) =
   Some VErr"
  unfolding numeral_2_eq_2
  by (subst eval_div_integers [OF int_evals_init, where a = 2147483647 and b = 0 and i = TI and j = TB])
    (simp_all add: eval_value [OF int_evals_init] run_spec)

text \<open>The division that the guard lets through and that traps: \<open>(-2147483647 - 1) / -1\<close>.\<close>

lemma eval_div_overflow_undefined:
  "eval int_doubles int_evals (Suc (Suc (Suc (Suc 0))))
     (Ast ''div''
       (Some (Ast ''sub'' (Some (Ast ''uminus'' (Some (Num NUM_INT ''2147483647'')) None SEM_TYPE_OK))
          (Some (Num NUM_INT ''1'')) SEM_TYPE_OK))
       (Some (Ast ''uminus'' (Some (Num NUM_INT ''1'')) None SEM_TYPE_OK)) SEM_TYPE_OK) (EVAL_NIL int_doubles) = None"
proof -
  have "map_option node_val (eval int_doubles int_evals (Suc (Suc (Suc (Suc 0))))
     (Ast ''div''
       (Some (Ast ''sub'' (Some (Ast ''uminus'' (Some (Num NUM_INT ''2147483647'')) None SEM_TYPE_OK))
          (Some (Num NUM_INT ''1'')) SEM_TYPE_OK))
       (Some (Ast ''uminus'' (Some (Num NUM_INT ''1'')) None SEM_TYPE_OK)) SEM_TYPE_OK) (EVAL_NIL int_doubles)) = None"
    unfolding eval_value [OF int_evals_init]
    by (simp add: run_spec uminus_spec_def is_min_long_lit_def MIN_LONG_LIT_def strcmp_eq_0 uminus_val_def
        div_int_def c_div_def width_def)
  then show ?thesis by simp
qed

end
