(* ===== verification/Flow.thy ===== *)
theory Flow
  imports Symtab "HOL-Library.Monad_Syntax"
begin

text \<open>
  The control flow analysis of the compiler (\<open>sources/flow.c\<close>): improvements of variable types
  (inferred not null, initialisation complete, cursor has a row) are flags in the variable's
  semantic type; every set and unset is recorded in the history of the current flow context, and
  popping a context undoes, merges or repeats the recorded changes according to its kind.

  A type is addressed by a natural number, 0 for the null pointer.  The contexts form a
  list with the current one first, the parent of a context being the next one; a pointer to a
  context is its height over the outermost context.  A history is the list of its items, the
  newest first: the only lists that the code links into one another are given up in the same
  step.  A broken \<open>Contract\<close> or \<open>Invariant\<close> gives \<open>None\<close>.
\<close>

declare bind_require [simp]

section \<open>Histories\<close>

datatype flow_history_delta = FLOW_HISTORY_DELTA_UNSET | FLOW_HISTORY_DELTA_SET

fun delta_value :: "flow_history_delta \<Rightarrow> int" where
  "delta_value FLOW_HISTORY_DELTA_UNSET = - 1"
| "delta_value FLOW_HISTORY_DELTA_SET = 1"

record flow_history_item =
  item_type :: nat
  item_flag :: u64
  item_delta :: flow_history_delta

type_synonym flow_history = "flow_history_item list"

datatype flow_context_kind =
  FLOW_CONTEXT_KIND_NORMAL | FLOW_CONTEXT_KIND_BRANCH_GROUP | FLOW_CONTEXT_KIND_BRANCH | FLOW_CONTEXT_KIND_JUMP

text \<open>The fields of the union are kept side by side; the code reads a field under its own kind only.\<close>

record flow_context =
  kind :: flow_context_kind
  history :: flow_history
  always_jumps :: bool
  branch_histories :: flow_history
  branch_count :: u32
  covers_all_cases :: bool
  nearest_jump_context :: "nat option"
  unset_histories :: flow_history

record flow_state =
  sem_types :: "nat \<Rightarrow> u64"
  contexts :: "flow_context list"
  top_jump_context :: "nat option"

definition SEM_TYPE_FLAGS :: u64 where
  "SEM_TYPE_FLAGS = 0x7FFFFFFFFFF00"

definition is_single_flag :: "u64 \<Rightarrow> bool" where
  "is_single_flag sem_type \<longleftrightarrow> sem_type AND SEM_TYPE_FLAGS \<noteq> 0 \<and> sem_type AND (sem_type - 1) = 0"

fun append_history :: "flow_history \<Rightarrow> flow_history \<Rightarrow> flow_history" where
  "append_history [] history_to_append = history_to_append"
| "append_history (item # tail) history_to_append = item # append_history tail history_to_append"

definition array_from_history :: "flow_history \<Rightarrow> flow_history_item list \<times> nat" where
  "array_from_history hist = (hist, length hist)"

definition history_item_comparator :: "flow_history_item \<Rightarrow> flow_history_item \<Rightarrow> int option" where
  "history_item_comparator item_a item_b =
     (if item_type item_a < item_type item_b then Some (- 1)
      else if item_type item_a > item_type item_b then Some 1
      else do { require (item_flag item_a = item_flag item_b); Some 0 })"

definition history_item_new :: "nat \<Rightarrow> u64 \<Rightarrow> flow_history_delta \<Rightarrow> flow_history_item option" where
  "history_item_new type flag delta =
     do {
       require (type \<noteq> 0);
       require (is_single_flag flag);
       Some \<lparr>item_type = type, item_flag = flag, item_delta = delta\<rparr>
     }"

fun reverse_loop :: "flow_history \<Rightarrow> flow_history \<Rightarrow> flow_history" where
  "reverse_loop [] previous = previous"
| "reverse_loop (current # next) previous = reverse_loop next (current # previous)"

definition reverse_history :: "flow_history \<Rightarrow> flow_history" where
  "reverse_history hist = reverse_loop hist []"

fun clone_loop :: "flow_history \<Rightarrow> flow_history \<Rightarrow> flow_history option" where
  "clone_loop [] new_history = Some new_history"
| "clone_loop (item # next) new_history =
     do {
       new_item \<leftarrow> history_item_new (item_type item) (item_flag item) (item_delta item);
       clone_loop next (new_item # new_history)
     }"

definition clone_history :: "flow_history \<Rightarrow> flow_history option" where
  "clone_history hist = map_option reverse_history (clone_loop hist [])"

definition record_in_history :: "flow_history \<Rightarrow> nat \<Rightarrow> u64 \<Rightarrow> flow_history_delta \<Rightarrow> flow_history option" where
  "record_in_history hist type flag delta =
     do {
       require (type \<noteq> 0);
       require (is_single_flag flag);
       item \<leftarrow> history_item_new type flag delta;
       Some (item # hist)
     }"

section \<open>Contexts\<close>

definition current_context :: "flow_state \<Rightarrow> flow_context option" where
  "current_context st = (case contexts st of [] \<Rightarrow> None | c # _ \<Rightarrow> Some c)"

definition height :: "flow_state \<Rightarrow> nat" where
  "height st = length (contexts st) - 1"

definition update_current :: "(flow_context \<Rightarrow> flow_context) \<Rightarrow> flow_state \<Rightarrow> flow_state" where
  "update_current f st = st\<lparr>contexts := (case contexts st of [] \<Rightarrow> [] | c # cs \<Rightarrow> f c # cs)\<rparr>"

definition context_at :: "nat \<Rightarrow> flow_state \<Rightarrow> flow_context option" where
  "context_at d st = (if d < length (contexts st) then Some (contexts st ! (height st - d)) else None)"

definition update_context :: "nat \<Rightarrow> (flow_context \<Rightarrow> flow_context) \<Rightarrow> flow_state \<Rightarrow> flow_state" where
  "update_context d f st =
     st\<lparr>contexts := (contexts st)[height st - d := f (contexts st ! (height st - d))]\<rparr>"

definition or_type :: "nat \<Rightarrow> u64 \<Rightarrow> flow_state \<Rightarrow> flow_state" where
  "or_type type flag st = st\<lparr>sem_types := (sem_types st)(type := sem_types st type OR flag)\<rparr>"

definition and_not_type :: "nat \<Rightarrow> u64 \<Rightarrow> flow_state \<Rightarrow> flow_state" where
  "and_not_type type flag st = st\<lparr>sem_types := (sem_types st)(type := sem_types st type AND NOT flag)\<rparr>"

definition flow_set_flag_for_type :: "u64 \<Rightarrow> nat \<Rightarrow> flow_state \<Rightarrow> flow_state option" where
  "flow_set_flag_for_type flag type st =
     do {
       c \<leftarrow> current_context st;
       require (is_single_flag flag);
       require (type \<noteq> 0);
       require (sem_types st type AND flag = 0);
       h \<leftarrow> record_in_history (history c) type flag FLOW_HISTORY_DELTA_SET;
       Some (update_current (history_update (\<lambda>_. h)) (or_type type flag st))
     }"

definition flow_unset_flag_for_type :: "u64 \<Rightarrow> nat \<Rightarrow> flow_state \<Rightarrow> flow_state option" where
  "flow_unset_flag_for_type flag type st =
     do {
       c \<leftarrow> current_context st;
       require (is_single_flag flag);
       require (type \<noteq> 0);
       require (sem_types st type AND flag \<noteq> 0);
       h \<leftarrow> record_in_history (history c) type flag FLOW_HISTORY_DELTA_UNSET;
       let st = update_current (history_update (\<lambda>_. h)) (and_not_type type flag st);
       (case top_jump_context st of
          None \<Rightarrow> Some st
        | Some d \<Rightarrow>
            if height st \<noteq> d then
              do {
                j \<leftarrow> context_at d st;
                u \<leftarrow> record_in_history (unset_histories j) type flag FLOW_HISTORY_DELTA_UNSET;
                Some (update_context d (unset_histories_update (\<lambda>_. u)) st)
              }
            else Some st)
     }"

text \<open>The members of a new context that its kind does not use are left at arbitrary values.\<close>

definition push_context_with_kind :: "flow_context_kind \<Rightarrow> flow_state \<Rightarrow> flow_state" where
  "push_context_with_kind k st =
     st\<lparr>contexts :=
       \<lparr>kind = k, history = [], always_jumps = False, branch_histories = [], branch_count = 0,
        covers_all_cases = False, nearest_jump_context = None, unset_histories = []\<rparr> # contexts st\<rparr>"

text \<open>The loop over the sorted array: \<open>func\<close> gets each group of items of one type with its sum.\<close>

type_synonym delta_fn = "nat \<Rightarrow> u64 \<Rightarrow> int \<Rightarrow> flow_state \<Rightarrow> flow_state option"

fun delta_sums_loop ::
  "delta_fn \<Rightarrow> flow_history_item \<Rightarrow> flow_history_item list \<Rightarrow> int \<Rightarrow> flow_state \<Rightarrow> flow_state option" where
  "delta_sums_loop func previous_item [] delta_sum st =
     func (item_type previous_item) (item_flag previous_item) delta_sum st"
| "delta_sums_loop func previous_item (current_item # items) delta_sum st =
     (if item_type previous_item \<noteq> item_type current_item \<or> item_flag previous_item \<noteq> item_flag current_item
      then do {
        st \<leftarrow> func (item_type previous_item) (item_flag previous_item) delta_sum st;
        delta_sums_loop func current_item items (0 + delta_value (item_delta current_item)) st
      }
      else delta_sums_loop func current_item items (delta_sum + delta_value (item_delta current_item)) st)"

definition with_delta_sums_of_history :: "flow_history \<Rightarrow> delta_fn \<Rightarrow> flow_state \<Rightarrow> flow_state option" where
  "with_delta_sums_of_history hist func st =
     (let (item_array, item_count) = array_from_history hist in
      if item_count = 0 then Some st
      else do {
        sorted \<leftarrow> qsort history_item_comparator item_array;
        delta_sums_loop func (hd sorted) (tl sorted) (delta_value (item_delta (hd sorted))) st
      })"

definition invariant_delta_sum :: delta_fn where
  "invariant_delta_sum type flag delta_sum st =
     do { require (delta_sum \<ge> - 1 \<and> delta_sum \<le> 1); Some st }"

definition move_history_to_parent :: "flow_state \<Rightarrow> flow_state option" where
  "move_history_to_parent st =
     (case contexts st of
        [] \<Rightarrow> None
      | [c] \<Rightarrow>
          do {
            st \<leftarrow> with_delta_sums_of_history (history c) invariant_delta_sum st;
            Some (update_current (history_update (\<lambda>_. [])) st)
          }
      | c # parent # cs \<Rightarrow>
          let h = append_history (history c) (history parent);
              st = st\<lparr>contexts := c\<lparr>history := h\<rparr> # parent\<lparr>history := h\<rparr> # cs\<rparr>
          in do {
            st \<leftarrow> with_delta_sums_of_history h invariant_delta_sum st;
            Some (update_current (history_update (\<lambda>_. [])) st)
          })"

definition flow_push_context_normal :: "flow_state \<Rightarrow> flow_state" where
  "flow_push_context_normal = push_context_with_kind FLOW_CONTEXT_KIND_NORMAL"

text \<open>The loop walks the items that the history has when it starts.\<close>

fun unset_loop :: "flow_history \<Rightarrow> flow_state \<Rightarrow> flow_state option" where
  "unset_loop [] st = Some st"
| "unset_loop (item # next) st =
     (case item_delta item of
        FLOW_HISTORY_DELTA_UNSET \<Rightarrow> unset_loop next st
      | FLOW_HISTORY_DELTA_SET \<Rightarrow>
          if sem_types st (item_type item) AND item_flag item \<noteq> 0
          then do {
            st \<leftarrow> flow_unset_flag_for_type (item_flag item) (item_type item) st;
            unset_loop next st
          }
          else unset_loop next st)"

definition unset_all_improvements :: "flow_state \<Rightarrow> flow_state option" where
  "unset_all_improvements st = do { c \<leftarrow> current_context st; unset_loop (history c) st }"

definition pop_to_parent :: "flow_state \<Rightarrow> flow_state" where
  "pop_to_parent st = st\<lparr>contexts := tl (contexts st)\<rparr>"

definition flow_pop_context_normal :: "flow_state \<Rightarrow> flow_state option" where
  "flow_pop_context_normal st =
     do {
       c \<leftarrow> current_context st;
       require (kind c = FLOW_CONTEXT_KIND_NORMAL);
       st \<leftarrow> unset_all_improvements st;
       st \<leftarrow> move_history_to_parent st;
       Some (pop_to_parent st)
     }"

section \<open>Branches\<close>

definition flow_push_context_branch_group :: "flow_state \<Rightarrow> flow_state" where
  "flow_push_context_branch_group st =
     update_current (\<lambda>c. c\<lparr>branch_histories := [], branch_count := 0, covers_all_cases := False\<rparr>)
       (push_context_with_kind FLOW_CONTEXT_KIND_BRANCH_GROUP st)"

definition merge_effects :: delta_fn where
  "merge_effects type flag delta_sum st =
     do {
       c \<leftarrow> current_context st;
       require (kind c = FLOW_CONTEXT_KIND_BRANCH_GROUP);
       require (branch_count c > 0);
       require (type \<noteq> 0);
       require (is_single_flag flag);
       require (delta_sum \<le> 0 \<or> sem_types st type AND flag = 0);
       require (delta_sum \<ge> 0 \<or> sem_types st type AND flag \<noteq> 0);
       require ((word_of_int \<bar>delta_sum\<bar> :: u32) \<le> branch_count c);
       if covers_all_cases c \<and> word_of_int delta_sum = branch_count c then flow_set_flag_for_type flag type st
       else if delta_sum < 0 then flow_unset_flag_for_type flag type st
       else Some st
     }"

definition flow_set_context_branch_group_covers_all_cases :: "bool \<Rightarrow> flow_state \<Rightarrow> flow_state option" where
  "flow_set_context_branch_group_covers_all_cases b st =
     do {
       c \<leftarrow> current_context st;
       require (kind c = FLOW_CONTEXT_KIND_BRANCH_GROUP);
       Some (update_current (covers_all_cases_update (\<lambda>_. b)) st)
     }"

definition flow_context_branch_group_add_empty_branch :: "flow_state \<Rightarrow> flow_state option" where
  "flow_context_branch_group_add_empty_branch st =
     do {
       c \<leftarrow> current_context st;
       require (kind c = FLOW_CONTEXT_KIND_BRANCH_GROUP);
       Some (update_current (branch_count_update (\<lambda>n. n + 1)) st)
     }"

definition flow_pop_context_branch_group :: "flow_state \<Rightarrow> flow_state option" where
  "flow_pop_context_branch_group st =
     do {
       c \<leftarrow> current_context st;
       require (kind c = FLOW_CONTEXT_KIND_BRANCH_GROUP);
       st \<leftarrow> unset_all_improvements st;
       let st = update_current (history_update (\<lambda>_. [])) st;
       c \<leftarrow> current_context st;
       st \<leftarrow> with_delta_sums_of_history (branch_histories c) merge_effects st;
       st \<leftarrow> move_history_to_parent st;
       Some (pop_to_parent st)
     }"

definition flow_push_context_branch :: "flow_state \<Rightarrow> flow_state option" where
  "flow_push_context_branch st =
     do {
       c \<leftarrow> current_context st;
       require (kind c = FLOW_CONTEXT_KIND_BRANCH_GROUP);
       branch_group_history \<leftarrow> clone_history (history c);
       let group = c\<lparr>branch_histories := append_history branch_group_history (branch_histories c),
                     branch_count := branch_count c + 1\<rparr>;
       Some (update_current (always_jumps_update (\<lambda>_. False))
               (push_context_with_kind FLOW_CONTEXT_KIND_BRANCH (update_current (\<lambda>_. group) st)))
     }"

definition flow_set_context_always_jumps :: "bool \<Rightarrow> flow_state \<Rightarrow> flow_state option" where
  "flow_set_context_always_jumps b st =
     do {
       c \<leftarrow> current_context st;
       if kind c \<noteq> FLOW_CONTEXT_KIND_BRANCH then Some st
       else Some (update_current (always_jumps_update (\<lambda>_. b)) st)
     }"

fun revert_loop :: "flow_history \<Rightarrow> flow_state \<Rightarrow> flow_state" where
  "revert_loop [] st = st"
| "revert_loop (item # next) st =
     (case item_delta item of
        FLOW_HISTORY_DELTA_UNSET \<Rightarrow> revert_loop next (or_type (item_type item) (item_flag item) st)
      | FLOW_HISTORY_DELTA_SET \<Rightarrow> revert_loop next (and_not_type (item_type item) (item_flag item) st))"

definition flow_pop_context_branch :: "flow_state \<Rightarrow> flow_state option" where
  "flow_pop_context_branch st =
     do {
       c \<leftarrow> current_context st;
       require (kind c = FLOW_CONTEXT_KIND_BRANCH);
       parent \<leftarrow> current_context (pop_to_parent st);
       require (kind parent = FLOW_CONTEXT_KIND_BRANCH_GROUP);
       let st = pop_to_parent (revert_loop (history c) st);
       Some (update_current
               (\<lambda>parent. if always_jumps c then parent\<lparr>branch_count := branch_count parent - 1\<rparr>
                         else parent\<lparr>branch_histories := append_history (history c) (branch_histories parent)\<rparr>) st)
     }"

section \<open>Jumps\<close>

definition flow_push_context_jump :: "flow_state \<Rightarrow> flow_state" where
  "flow_push_context_jump st =
     (let st' = update_current (\<lambda>c. c\<lparr>nearest_jump_context := top_jump_context st, unset_histories := []\<rparr>)
            (push_context_with_kind FLOW_CONTEXT_KIND_JUMP st)
      in st'\<lparr>top_jump_context := Some (height st')\<rparr>)"

fun reunset_loop :: "flow_history \<Rightarrow> flow_state \<Rightarrow> flow_state option" where
  "reunset_loop [] st = Some st"
| "reunset_loop (item # next) st =
     do {
       require (item_delta item = FLOW_HISTORY_DELTA_UNSET);
       st \<leftarrow> (if sem_types st (item_type item) AND item_flag item \<noteq> 0
              then flow_unset_flag_for_type (item_flag item) (item_type item) st
              else Some st);
       reunset_loop next st
     }"

definition flow_pop_context_jump :: "flow_state \<Rightarrow> flow_state option" where
  "flow_pop_context_jump st =
     do {
       c \<leftarrow> current_context st;
       require (kind c = FLOW_CONTEXT_KIND_JUMP);
       st \<leftarrow> reunset_loop (unset_histories c) st;
       st \<leftarrow> unset_all_improvements st;
       st \<leftarrow> move_history_to_parent st;
       Some (pop_to_parent (st\<lparr>top_jump_context := nearest_jump_context c\<rparr>))
     }"

end
