(* ===== verification/Flow_Correct.thy ===== *)
theory Flow_Correct
  imports Flow Symtab_Correct
begin

text \<open>
  The operations of the flow analysis on the level of improvements.  Every type has one flag that
  can be improved, \<open>F t\<close>; the improvements in force are the set of types whose flag is set.  A history
  is \<open>valid\<close> for a set of improvements when undoing its items, the newest first, sets only what is
  unset and unsets only what is set.  \<open>effect\<close> describes what a balanced sequence of operations leaves
  behind: the items it added to the current history and those it noted in the top jump context.
\<close>

section \<open>Improvements and histories\<close>

definition improved :: "(nat \<Rightarrow> u64) \<Rightarrow> flow_state \<Rightarrow> nat set" where
  "improved F st = {t. sem_types st t AND F t \<noteq> 0}"

definition good_type :: "(nat \<Rightarrow> u64) \<Rightarrow> nat \<Rightarrow> bool" where
  "good_type F t \<longleftrightarrow> t \<noteq> 0 \<and> is_single_flag (F t)"

definition good_item :: "(nat \<Rightarrow> u64) \<Rightarrow> flow_history_item \<Rightarrow> bool" where
  "good_item F i \<longleftrightarrow> good_type F (item_type i) \<and> item_flag i = F (item_type i)"

definition set_item :: "(nat \<Rightarrow> u64) \<Rightarrow> nat \<Rightarrow> flow_history_item" where
  "set_item F t = \<lparr>item_type = t, item_flag = F t, item_delta = FLOW_HISTORY_DELTA_SET\<rparr>"

definition unset_item :: "(nat \<Rightarrow> u64) \<Rightarrow> nat \<Rightarrow> flow_history_item" where
  "unset_item F t = \<lparr>item_type = t, item_flag = F t, item_delta = FLOW_HISTORY_DELTA_UNSET\<rparr>"

definition sets :: "flow_history \<Rightarrow> nat set" where
  "sets h = item_type ` {i \<in> set h. item_delta i = FLOW_HISTORY_DELTA_SET}"

definition unsets :: "flow_history \<Rightarrow> nat set" where
  "unsets h = item_type ` {i \<in> set h. item_delta i = FLOW_HISTORY_DELTA_UNSET}"

fun undo :: "nat set \<Rightarrow> flow_history \<Rightarrow> nat set" where
  "undo f [] = f"
| "undo f (i # h) =
     undo (if item_delta i = FLOW_HISTORY_DELTA_SET then f - {item_type i} else insert (item_type i) f) h"

fun valid :: "nat set \<Rightarrow> flow_history \<Rightarrow> bool" where
  "valid f [] \<longleftrightarrow> True"
| "valid f (i # h) \<longleftrightarrow>
     (item_type i \<in> f \<longleftrightarrow> item_delta i = FLOW_HISTORY_DELTA_SET) \<and>
     valid (if item_delta i = FLOW_HISTORY_DELTA_SET then f - {item_type i} else insert (item_type i) f) h"

fun hsum :: "flow_history \<Rightarrow> nat \<Rightarrow> int" where
  "hsum [] t = 0"
| "hsum (i # h) t = (if item_type i = t then delta_value (item_delta i) else 0) + hsum h t"

lemma item_simps [simp]:
  "item_type (set_item F t) = t" "item_delta (set_item F t) = FLOW_HISTORY_DELTA_SET" "item_flag (set_item F t) = F t"
  "item_type (unset_item F t) = t" "item_delta (unset_item F t) = FLOW_HISTORY_DELTA_UNSET"
  "item_flag (unset_item F t) = F t"
  "good_item F (set_item F t) \<longleftrightarrow> good_type F t" "good_item F (unset_item F t) \<longleftrightarrow> good_type F t"
  by (simp_all add: set_item_def unset_item_def good_item_def)

lemma not_set_delta [simp]: "d \<noteq> FLOW_HISTORY_DELTA_SET \<longleftrightarrow> d = FLOW_HISTORY_DELTA_UNSET"
  by (cases d) simp_all

lemma sets_simps [simp]:
  "sets [] = {}" "unsets [] = {}" "sets (g @ h) = sets g \<union> sets h" "unsets (g @ h) = unsets g \<union> unsets h"
  "sets (i # h) = (if item_delta i = FLOW_HISTORY_DELTA_SET then insert (item_type i) (sets h) else sets h)"
  "unsets (i # h) = (if item_delta i = FLOW_HISTORY_DELTA_SET then unsets h else insert (item_type i) (unsets h))"
  by (auto simp: sets_def unsets_def)

lemma undo_append [simp]: "undo f (g @ h) = undo (undo f g) h"
  by (induction g arbitrary: f) simp_all

lemma valid_append [simp]: "valid f (g @ h) \<longleftrightarrow> valid f g \<and> valid (undo f g) h"
  by (induction g arbitrary: f) simp_all

lemma hsum_append [simp]: "hsum (g @ h) t = hsum g t + hsum h t"
  by (induction g) simp_all

lemma valid_hsum: "valid f h \<Longrightarrow> hsum h t = of_bool (t \<in> f) - of_bool (t \<in> undo f h)"
  by (induction h arbitrary: f) (auto split: if_splits)

lemma hsum_untouched: "t \<notin> sets h \<Longrightarrow> t \<notin> unsets h \<Longrightarrow> hsum h t = 0"
  by (induction h) (auto split: if_splits)

lemma undo_untouched: "t \<notin> sets h \<Longrightarrow> t \<notin> unsets h \<Longrightarrow> t \<in> undo f h \<longleftrightarrow> t \<in> f"
  by (induction h arbitrary: f) (auto split: if_splits)

lemma hsum_one_sided:
  "t \<notin> sets h \<Longrightarrow> hsum h t \<le> 0" "t \<notin> unsets h \<Longrightarrow> hsum h t \<ge> 0"
  "t \<notin> sets h \<Longrightarrow> t \<in> unsets h \<Longrightarrow> hsum h t < 0" "t \<notin> unsets h \<Longrightarrow> t \<in> sets h \<Longrightarrow> hsum h t > 0"
proof -
  show a: "t \<notin> sets h \<Longrightarrow> hsum h t \<le> 0" for h by (induction h) (auto split: if_splits)
  show b: "t \<notin> unsets h \<Longrightarrow> hsum h t \<ge> 0" for h by (induction h) (auto split: if_splits)
  show "t \<notin> sets h \<Longrightarrow> t \<in> unsets h \<Longrightarrow> hsum h t < 0"
    using a by (induction h) (fastforce split: if_splits)+
  show "t \<notin> unsets h \<Longrightarrow> t \<in> sets h \<Longrightarrow> hsum h t > 0"
    using b by (induction h) (fastforce split: if_splits)+
qed

text \<open>What is left of the improvements in force after those set in the history are unset.\<close>

lemma valid_keep:
  assumes "valid f h"
  shows "f - sets h = (f \<inter> undo f h) - unsets h"
proof -
  have "t \<in> sets h \<longleftrightarrow> t \<notin> undo f h \<or> t \<in> unsets h" if t: "t \<in> f" for t
  proof -
    have s: "hsum h t = 1 - of_bool (t \<in> undo f h)" using valid_hsum [OF assms, of t] t by simp
    show ?thesis
    proof
      assume "t \<in> sets h"
      then show "t \<notin> undo f h \<or> t \<in> unsets h" using s hsum_one_sided(4) [of t h] by auto
    next
      assume "t \<notin> undo f h \<or> t \<in> unsets h"
      then show "t \<in> sets h"
        using s hsum_one_sided(1,3) [of t h] by (cases "t \<in> undo f h") auto
    qed
  qed
  then show ?thesis by blast
qed

section \<open>Delta sums\<close>

interpretation by_type: sort_comparator history_item_comparator "\<lambda>i. item_flag i = F (item_type i)" for F
  by unfold_locales (auto simp: history_item_comparator_def split: if_splits)

lemma by_type_le: "by_type.le x y \<Longrightarrow> item_type x \<le> item_type y"
  by (auto simp: by_type.le_def history_item_comparator_def split: if_splits)

primrec each :: "(nat \<Rightarrow> flow_state \<Rightarrow> flow_state option) \<Rightarrow> nat list \<Rightarrow> flow_state \<Rightarrow> flow_state option" where
  "each g [] st = Some st"
| "each g (t # ts) st = Option.bind (g t st) (each g ts)"

lemma each_Nil [simp]: "each g [] = Some"
  by (rule ext) simp

lemma each_cong: "ts = us \<Longrightarrow> (\<And>t st. t \<in> set us \<Longrightarrow> g t st = g' t st) \<Longrightarrow> each g ts st = each g' us st"
  by (induction us arbitrary: ts st) (auto intro!: Option.bind_cong)

lemma sorted_list_of_set_least:
  "finite A \<Longrightarrow> (\<And>a. a \<in> A \<Longrightarrow> x < a) \<Longrightarrow> sorted_list_of_set (insert x A) = x # sorted_list_of_set (A :: nat set)"
proof -
  assume a: "finite A" "\<And>a. a \<in> A \<Longrightarrow> x < a"
  then have "A - {x} = A" by blast
  then show ?thesis using a by (simp add: insort_is_Cons less_imp_le)
qed

lemma hsum_absent: "(\<And>i. i \<in> set h \<Longrightarrow> item_type i \<noteq> t) \<Longrightarrow> hsum h t = 0"
  by (induction h) auto

lemma delta_sums_loop_each:
  "sorted_wrt (\<lambda>x y. item_type x \<le> item_type y) (p # is) \<Longrightarrow> \<forall>i \<in> set (p # is). item_flag i = F (item_type i) \<Longrightarrow>
   delta_sums_loop func p is acc st =
     Option.bind (func (item_type p) (F (item_type p)) (acc + hsum is (item_type p)) st)
       (each (\<lambda>t. func t (F t) (hsum is t)) (sorted_list_of_set (item_type ` set is - {item_type p})))"
proof (induction "is" arbitrary: p acc st)
  case (Cons c js)
  have IH: "delta_sums_loop func c js a s =
     Option.bind (func (item_type c) (F (item_type c)) (a + hsum js (item_type c)) s)
       (each (\<lambda>t. func t (F t) (hsum js t)) (sorted_list_of_set (item_type ` set js - {item_type c})))" for a s
    using Cons by simp
  show ?case
  proof (cases "item_type p = item_type c")
    case True
    have s: "insert (item_type c) (item_type ` set js) - {item_type c} = item_type ` set js - {item_type c}" by blast
    have "each (\<lambda>t. func t (F t) (hsum js t)) (sorted_list_of_set (item_type ` set js - {item_type c})) =
      each (\<lambda>t. func t (F t) (hsum (c # js) t)) (sorted_list_of_set (item_type ` set js - {item_type c}))"
      by (rule ext, rule each_cong) auto
    then show ?thesis using True Cons.prems(2) by (simp add: IH s algebra_simps)
  next
    case False
    then have less: "item_type p < item_type c" "\<And>j. j \<in> set js \<Longrightarrow> item_type c \<le> item_type j"
      using Cons.prems(1) by auto
    have z: "hsum js (item_type p) = 0" by (rule hsum_absent) (use less in force)
    have l: "sorted_list_of_set (item_type ` set (c # js) - {item_type p}) =
        item_type c # sorted_list_of_set (item_type ` set js - {item_type c})"
    proof -
      have "item_type ` set (c # js) - {item_type p} = insert (item_type c) (item_type ` set js - {item_type c})"
        using less by force
      moreover have "item_type c < a" if "a \<in> item_type ` set js - {item_type c}" for a using that less(2) by force
      ultimately show ?thesis by (simp only: sorted_list_of_set_least finite_Diff finite_imageI finite_set)
    qed
    have e: "each (\<lambda>t. func t (F t) (hsum js t)) (sorted_list_of_set (item_type ` set js - {item_type c})) =
      each (\<lambda>t. func t (F t) (hsum (c # js) t)) (sorted_list_of_set (item_type ` set js - {item_type c}))"
      by (rule ext, rule each_cong) auto
    have loop: "delta_sums_loop func c js (delta_value (item_delta c)) =
      (\<lambda>s. Option.bind (func (item_type c) (F (item_type c)) (delta_value (item_delta c) + hsum js (item_type c)) s)
       (each (\<lambda>t. func t (F t) (hsum (c # js) t)) (sorted_list_of_set (item_type ` set js - {item_type c}))))"
      by (rule ext) (simp only: IH e)
    show ?thesis unfolding l using False Cons.prems(2) z by (simp add: loop)
  qed
qed simp

lemma hsum_mset: "mset g = mset h \<Longrightarrow> hsum h t = hsum g t"
proof (induction h arbitrary: g)
  case (Cons a h)
  then have "a \<in> set g" using mset_eq_setD [OF Cons.prems] by simp
  then obtain u v where uv: "g = u @ a # v" by (meson split_list)
  then have "hsum h t = hsum (u @ v) t" using Cons.prems by (intro Cons.IH) simp
  then show ?case using uv by simp
qed simp

lemma with_delta_sums_each:
  assumes "\<forall>i \<in> set h. item_flag i = F (item_type i)"
  shows "with_delta_sums_of_history h func st =
    each (\<lambda>t. func t (F t) (hsum h t)) (sorted_list_of_set (item_type ` set h)) st"
proof (cases h)
  case Nil
  then show ?thesis by (simp add: with_delta_sums_of_history_def array_from_history_def)
next
  case (Cons i h')
  obtain ys where ys: "qsort history_item_comparator h = Some ys" "mset ys = mset h" "sorted_wrt by_type.le ys"
    using by_type.qsort_sorted [OF assms] by blast
  then obtain p js where p: "ys = p # js" using Cons by (cases ys) auto
  have st: "set (p # js) = set h" using mset_eq_setD [OF ys(2)] p by simp
  have sum: "hsum h t = hsum (p # js) t" for t
    using hsum_mset [OF ys(2)] p by simp
  have srt: "sorted_wrt (\<lambda>x y. item_type x \<le> item_type y) (p # js)"
    using sorted_wrt_mono_rel [of ys by_type.le "\<lambda>x y. item_type x \<le> item_type y"] by_type_le ys(3) p by blast
  have "with_delta_sums_of_history h func st = delta_sums_loop func p js (delta_value (item_delta p)) st"
    using ys(1) p Cons by (simp add: with_delta_sums_of_history_def array_from_history_def)
  also have "\<dots> = Option.bind (func (item_type p) (F (item_type p)) (hsum h (item_type p)) st)
       (each (\<lambda>t. func t (F t) (hsum js t)) (sorted_list_of_set (item_type ` set js - {item_type p})))"
  proof -
    have "\<forall>i \<in> set (p # js). item_flag i = F (item_type i)" using assms st by blast
    then show ?thesis using delta_sums_loop_each [OF srt, of F func "delta_value (item_delta p)" st] sum by simp
  qed
  also have "\<dots> = each (\<lambda>t. func t (F t) (hsum h t)) (item_type p # sorted_list_of_set (item_type ` set js - {item_type p})) st"
    by (auto intro!: Option.bind_cong each_cong simp: sum)
  also have "item_type p # sorted_list_of_set (item_type ` set js - {item_type p}) = sorted_list_of_set (item_type ` set h)"
  proof -
    have "item_type ` set h = insert (item_type p) (item_type ` set js - {item_type p})" using st by auto
    moreover have "item_type p < a" if "a \<in> item_type ` set js - {item_type p}" for a using that srt by force
    ultimately show ?thesis by (simp only: sorted_list_of_set_least finite_Diff finite_imageI finite_set)
  qed
  finally show ?thesis .
qed

lemma each_skip: "(\<And>t. t \<in> set ts \<Longrightarrow> g t st = Some st) \<Longrightarrow> each g ts st = Some st"
  by (induction ts) auto

text \<open>The check of \<open>move_history_to_parent\<close> passes on every valid history.\<close>

lemma valid_check:
  assumes "valid f h" and "\<forall>i \<in> set h. good_item F i"
  shows "with_delta_sums_of_history h invariant_delta_sum st = Some st"
proof -
  have flags: "\<forall>i \<in> set h. item_flag i = F (item_type i)" using assms(2) by (simp add: good_item_def)
  have "invariant_delta_sum t (F t) (hsum h t) st = Some st" for t
    using valid_hsum [OF assms(1), of t] by (simp add: invariant_delta_sum_def)
  then show ?thesis by (simp add: with_delta_sums_each [OF flags] each_skip)
qed

section \<open>What operations leave behind\<close>

definition grow :: "flow_history \<Rightarrow> bool \<Rightarrow> flow_context \<Rightarrow> flow_context" where
  "grow h j c = c\<lparr>history := h @ history c,
     always_jumps := always_jumps c \<or> j \<and> kind c = FLOW_CONTEXT_KIND_BRANCH\<rparr>"

definition note_unsets :: "nat option \<Rightarrow> flow_history \<Rightarrow> flow_context list \<Rightarrow> flow_context list" where
  "note_unsets tj u cs =
     (case tj of
        None \<Rightarrow> cs
      | Some d \<Rightarrow>
          cs[length cs - 1 - d := (cs ! (length cs - 1 - d))
               \<lparr>unset_histories := u @ unset_histories (cs ! (length cs - 1 - d))\<rparr>])"

definition top_ok :: "flow_state \<Rightarrow> bool" where
  "top_ok st \<longleftrightarrow> (case top_jump_context st of None \<Rightarrow> True | Some d \<Rightarrow> d < length (contexts st))"

definition moves :: "flow_state \<Rightarrow> flow_history \<Rightarrow> bool \<Rightarrow> flow_history \<Rightarrow> flow_state \<Rightarrow> bool" where
  "moves st h j u st' \<longleftrightarrow>
     (\<exists>c cs. contexts st = c # cs \<and> top_jump_context st' = top_jump_context st \<and>
        contexts st' = note_unsets (top_jump_context st) u (grow h j c # cs))"

definition effect :: "(nat \<Rightarrow> u64) \<Rightarrow> flow_state \<Rightarrow> flow_history \<Rightarrow> bool \<Rightarrow> flow_history \<Rightarrow> flow_state \<Rightarrow> bool" where
  "effect F st h j u st' \<longleftrightarrow>
     moves st h j u st' \<and> (\<forall>i \<in> set h \<union> set u. good_item F i) \<and> sets u = {} \<and>
     valid (improved F st') h \<and> undo (improved F st') h = improved F st"

lemma grow_simps [simp]:
  "kind (grow h j c) = kind c" "history (grow h j c) = h @ history c" "grow [] False c = c"
  "grow h j (grow h' j' c) = grow (h @ h') (j \<or> j') c" "branch_histories (grow h j c) = branch_histories c"
  "branch_count (grow h j c) = branch_count c" "covers_all_cases (grow h j c) = covers_all_cases c"
  "unset_histories (grow h j c) = unset_histories c" "nearest_jump_context (grow h j c) = nearest_jump_context c"
  "always_jumps (grow h j c) \<longleftrightarrow> always_jumps c \<or> j \<and> kind c = FLOW_CONTEXT_KIND_BRANCH"
  "grow h j (unset_histories_update g c) = unset_histories_update g (grow h j c)"
  by (auto simp: grow_def intro!: flow_context.equality)

lemma note_unsets_simps [simp]:
  "length (note_unsets tj u cs) = length cs" "note_unsets tj [] cs = cs" "note_unsets None u cs = cs"
  by (simp_all add: note_unsets_def split: option.splits)

lemma note_unsets_below:
  assumes "tj = None \<or> (\<exists>d. tj = Some d \<and> d < length cs)"
  shows "note_unsets tj u (c # cs) = c # note_unsets tj u cs"
proof (cases tj)
  case (Some d)
  then have "length (c # cs) - 1 - d = Suc (length cs - 1 - d)" using assms by auto
  then show ?thesis using Some by (simp add: note_unsets_def del: length_Cons)
qed simp

lemma note_unsets_here:
  "note_unsets (Some (length cs)) u (c # cs) = c\<lparr>unset_histories := u @ unset_histories c\<rparr> # cs"
  by (simp add: note_unsets_def)

lemma top_cases:
  assumes "top_ok st" and "contexts st = c # cs"
  obtains "top_jump_context st = None" | "top_jump_context st = Some (length cs)"
  | d where "top_jump_context st = Some d" "d < length cs"
  using assms by (auto simp: top_ok_def less_Suc_eq split: option.splits)

lemma note_unsets_twice: "d < length cs \<Longrightarrow> note_unsets (Some d) u (note_unsets (Some d) u' cs) = note_unsets (Some d) (u @ u') cs"
  by (simp add: note_unsets_def)

lemma moves_trans:
  assumes "top_ok st" and m: "moves st h j u st'" and m': "moves st' h' j' u' st''"
  shows "moves st (h' @ h) (j \<or> j') (u' @ u) st''"
proof -
  obtain c cs where c: "contexts st = c # cs" "top_jump_context st' = top_jump_context st"
    "contexts st' = note_unsets (top_jump_context st) u (grow h j c # cs)" using m by (auto simp: moves_def)
  have e: "j' \<or> j \<longleftrightarrow> j \<or> j'" by blast
  show ?thesis
    using assms(1) c(1)
  proof (cases rule: top_cases)
    case (3 d)
    then show ?thesis using c m' e by (auto simp: moves_def note_unsets_below note_unsets_twice)
  qed (use c m' e in \<open>auto simp: moves_def note_unsets_here\<close>)
qed

lemma moves_top_ok: "moves st h j u st' \<Longrightarrow> top_ok st' = top_ok st"
  by (auto simp: moves_def top_ok_def dest: arg_cong [of _ _ length] split: option.splits)

lemma effect_trans:
  assumes "top_ok st" and "effect F st h j u st'" and "effect F st' h' j' u' st''"
  shows "effect F st (h' @ h) (j \<or> j') (u' @ u) st''"
  using assms moves_trans [of st h j u st' h' j' u' st''] by (auto simp: effect_def)

lemma effect_refl: "contexts st \<noteq> [] \<Longrightarrow> effect F st [] False [] st"
  by (cases "contexts st") (auto simp: effect_def moves_def)

section \<open>Setting and unsetting\<close>

lemma single_nonzero: "is_single_flag f \<Longrightarrow> f \<noteq> 0"
  by (auto simp: is_single_flag_def)

lemma improved_or [simp]: "good_type F t \<Longrightarrow> improved F (or_type t (F t) st) = insert t (improved F st)"
  by (auto simp: improved_def or_type_def good_type_def bit.conj_disj_distrib2 dest: single_nonzero)

lemma improved_and_not [simp]: "improved F (and_not_type t (F t) st) = improved F st - {t}"
  by (auto simp: improved_def and_not_type_def and.assoc)

lemma update_simps [simp]:
  "contexts (or_type t f st) = contexts st" "contexts (and_not_type t f st) = contexts st"
  "top_jump_context (or_type t f st) = top_jump_context st" "top_jump_context (and_not_type t f st) = top_jump_context st"
  "top_jump_context (update_current g st) = top_jump_context st" "top_jump_context (update_context d g st) = top_jump_context st"
  "improved F (update_current g st) = improved F st" "improved F (update_context d g st) = improved F st"
  "improved F (contexts_update k st) = improved F st" "improved F (top_jump_context_update k' st) = improved F st"
  by (simp_all add: or_type_def and_not_type_def update_current_def update_context_def improved_def)

lemma improved_iff: "t \<in> improved F st \<longleftrightarrow> sem_types st t AND F t \<noteq> 0"
  by (simp add: improved_def)

lemma set_ran:
  assumes "contexts st = c # cs" and "good_type F t" and "t \<notin> improved F st"
  shows "\<exists>st'. flow_set_flag_for_type (F t) t st = Some st' \<and> effect F st [set_item F t] False [] st' \<and>
    improved F st' = insert t (improved F st)"
proof -
  have "flow_set_flag_for_type (F t) t st =
      Some (update_current (history_update (\<lambda>_. set_item F t # history c)) (or_type t (F t) st))"
    using assms by (simp add: flow_set_flag_for_type_def current_context_def record_in_history_def history_item_new_def
        good_type_def set_item_def improved_iff)
  moreover have "moves st [set_item F t] False []
      (update_current (history_update (\<lambda>_. set_item F t # history c)) (or_type t (F t) st))"
    using assms by (auto simp: moves_def grow_def update_current_def)
  ultimately show ?thesis using assms by (auto simp: effect_def)
qed

text \<open>An unset is noted in the top jump context unless that is the current one.\<close>

definition noted :: "flow_state \<Rightarrow> flow_history \<Rightarrow> flow_history" where
  "noted st u = (if top_jump_context st = Some (height st) then [] else u)"

lemma unset_ran:
  assumes "contexts st = c # cs" and "top_ok st" and "good_type F t" and "t \<in> improved F st"
  shows "\<exists>st'. flow_unset_flag_for_type (F t) t st = Some st' \<and>
    effect F st [unset_item F t] False (noted st [unset_item F t]) st' \<and> improved F st' = improved F st - {t}"
proof -
  let ?s = "update_current (history_update (\<lambda>_. unset_item F t # history c)) (and_not_type t (F t) st)"
  have cs: "contexts ?s = grow [unset_item F t] False c # cs"
    using assms(1) by (simp add: update_current_def grow_def)
  have rec: "record_in_history hist t (F t) FLOW_HISTORY_DELTA_UNSET = Some (unset_item F t # hist)" for hist
    using assms(3) by (simp add: record_in_history_def history_item_new_def good_type_def unset_item_def)
  have run: "flow_unset_flag_for_type (F t) t st =
      (case top_jump_context st of
         None \<Rightarrow> Some ?s
       | Some d \<Rightarrow>
           if height ?s \<noteq> d then
             do {
               j \<leftarrow> context_at d ?s;
               Some (update_context d (unset_histories_update (\<lambda>_. unset_item F t # unset_histories j)) ?s)
             }
           else Some ?s)"
    using assms by (simp add: flow_unset_flag_for_type_def current_context_def rec good_type_def improved_iff Let_def
        split: option.splits)
  show ?thesis
    using assms(2,1)
  proof (cases rule: top_cases)
    case 1
    then show ?thesis using assms cs run by (auto simp: effect_def moves_def noted_def)
  next
    case 2
    then show ?thesis using assms cs run by (auto simp: effect_def moves_def noted_def height_def)
  next
    case (3 d)
    then obtain m where m: "length cs - d = Suc m" "length cs - Suc d = m" by (metis Suc_diff_Suc)
    then show ?thesis using 3 assms cs run
      by (auto simp: effect_def moves_def noted_def height_def context_at_def update_context_def note_unsets_def)
  qed
qed

definition cur_ok :: "(nat \<Rightarrow> u64) \<Rightarrow> flow_state \<Rightarrow> bool" where
  "cur_ok F st \<longleftrightarrow>
     (\<exists>c cs. contexts st = c # cs \<and> (\<forall>i \<in> set (history c). good_item F i) \<and> valid (improved F st) (history c)) \<and>
     top_ok st"

lemma moves_contexts:
  assumes "top_ok st" and "contexts st = c # cs" and "moves st h j u st'"
  shows "\<exists>c' cs'. contexts st' = c' # cs' \<and> history c' = h @ history c \<and> kind c' = kind c \<and> length cs' = length cs \<and>
    branch_count c' = branch_count c \<and> covers_all_cases c' = covers_all_cases c"
  using assms(1,2)
proof (cases rule: top_cases)
  case (3 d)
  then show ?thesis using assms by (auto simp: moves_def note_unsets_below)
qed (use assms in \<open>auto simp: moves_def note_unsets_here\<close>)

lemma effect_cur_ok: "cur_ok F st \<Longrightarrow> effect F st h j u st' \<Longrightarrow> cur_ok F st'"
  unfolding cur_ok_def effect_def using moves_contexts moves_top_ok by fastforce

lemma moves_noted: "moves st h j u st' \<Longrightarrow> noted st' = noted st"
  by (auto simp: moves_def noted_def height_def fun_eq_iff dest: arg_cong [of _ _ length])

lemma noted_simps [simp]: "noted st [] = []" "noted st (u @ v) = noted st u @ noted st v"
  "set (noted st u) \<subseteq> set u"
  by (auto simp: noted_def)

lemma unset_loop_ran:
  assumes "cur_ok F st" and "\<forall>i \<in> set is. good_item F i"
  shows "\<exists>st' h. unset_loop is st = Some st' \<and> effect F st h False (noted st h) st' \<and>
    improved F st' = improved F st - sets is \<and> sets h = {} \<and> unsets h = improved F st \<inter> sets is"
  using assms
proof (induction "is" arbitrary: st)
  case Nil
  then have "contexts st \<noteq> []" by (auto simp: cur_ok_def)
  then show ?case using effect_refl [of st F] by (intro exI [of _ st] exI [of _ "[]"]) simp
next
  case (Cons i js)
  let ?t = "item_type i"
  have good: "good_type F ?t" "item_flag i = F ?t" using Cons.prems(2) by (auto simp: good_item_def)
  show ?case
  proof (cases "item_delta i = FLOW_HISTORY_DELTA_SET \<and> ?t \<in> improved F st")
    case True
    obtain c cs where c: "contexts st = c # cs" "top_ok st" using Cons.prems(1) by (auto simp: cur_ok_def)
    obtain s where s: "flow_unset_flag_for_type (F ?t) ?t st = Some s"
      "effect F st [unset_item F ?t] False (noted st [unset_item F ?t]) s" "improved F s = improved F st - {?t}"
      using unset_ran [OF c good(1)] True by blast
    obtain st' h where IH: "unset_loop js s = Some st'" "effect F s h False (noted s h) st'"
      "improved F st' = improved F s - sets js" "sets h = {}" "unsets h = improved F s \<inter> sets js"
      using Cons.IH [OF effect_cur_ok [OF Cons.prems(1) s(2)]] Cons.prems(2) by auto
    have "noted s = noted st" using s(2) moves_noted by (auto simp: effect_def)
    then have "effect F st (h @ [unset_item F ?t]) False (noted st (h @ [unset_item F ?t])) st'"
      using effect_trans [OF c(2) s(2) IH(2)] by simp
    then show ?thesis using True s IH good
      by (intro exI [of _ st'] exI [of _ "h @ [unset_item F ?t]"]) (auto simp: improved_iff [symmetric])
  next
    case False
    then have "unset_loop (i # js) st = unset_loop js st"
      using good by (auto simp: improved_iff split: flow_history_delta.splits)
    then show ?thesis using Cons False by (auto split: if_splits)
  qed
qed

section \<open>Leaving a context\<close>

lemma append_history_eq [simp]: "append_history g h = g @ h"
  by (induction g) simp_all

lemma move_history:
  assumes "contexts st = k # c # cs" and "\<forall>i \<in> set (history k @ history c). good_item F i"
    and "valid (improved F st) (history k @ history c)"
  shows "move_history_to_parent st =
    Some (st\<lparr>contexts := k\<lparr>history := []\<rparr> # c\<lparr>history := history k @ history c\<rparr> # cs\<rparr>)"
  using assms(1) valid_check [OF assms(3,2)] by (simp add: move_history_to_parent_def Let_def update_current_def)

end
