(* ===== verification/Flow_Spec.thy ===== *)
theory Flow_Spec
  imports Flow_Correct
begin

text \<open>
  The programs that drive the flow analysis and what it computes for them.  A command stands for the
  calls that semantic analysis makes for a statement: \<open>Improve\<close> and \<open>Unimprove\<close> are the guarded sets and
  unsets of one improvement (\<open>sem_set_notnull_improved\<close>, \<open>sem_unset_notnull_improved\<close> and their kin),
  \<open>Control\<close> a statement that leaves the enclosing jump context, \<open>Block\<close> a statement list
  (\<open>sem_stmt_list\<close>), \<open>Protect\<close> a loop body or a \<open>TRY\<close> block, \<open>Choose\<close> an \<open>IF\<close> or \<open>SWITCH\<close> whose branches
  carry the improvements that hold when their condition is true and when it is false.  The set
  equations \<open>spec\<close> describe the analysis without histories; the analysis implements them.
\<close>

datatype cmd =
  Skip | Improve nat | Unimprove nat | Control | Seq cmd cmd | Block cmd | Protect cmd | Choose bool branches
and branches =
  NoBranch | EmptyBranch "nat list" branches | Branch "nat list" cmd "nat list" branches

section \<open>The calls\<close>

definition improve :: "(nat \<Rightarrow> u64) \<Rightarrow> nat \<Rightarrow> flow_state \<Rightarrow> flow_state option" where
  "improve F t st = (if sem_types st t AND F t \<noteq> 0 then Some st else flow_set_flag_for_type (F t) t st)"

definition unimprove :: "(nat \<Rightarrow> u64) \<Rightarrow> nat \<Rightarrow> flow_state \<Rightarrow> flow_state option" where
  "unimprove F t st = (if sem_types st t AND F t \<noteq> 0 then flow_unset_flag_for_type (F t) t st else Some st)"

primrec analyze :: "(nat \<Rightarrow> u64) \<Rightarrow> cmd \<Rightarrow> flow_state \<Rightarrow> flow_state option"
  and analyze_branches :: "(nat \<Rightarrow> u64) \<Rightarrow> branches \<Rightarrow> flow_state \<Rightarrow> flow_state option" where
  "analyze F Skip st = Some st"
| "analyze F (Improve t) st = improve F t st"
| "analyze F (Unimprove t) st = unimprove F t st"
| "analyze F Control st = flow_set_context_always_jumps True st"
| "analyze F (Seq p q) st = do { st \<leftarrow> analyze F p st; analyze F q st }"
| "analyze F (Block p) st = do { st \<leftarrow> analyze F p (flow_push_context_normal st); flow_pop_context_normal st }"
| "analyze F (Protect p) st = do { st \<leftarrow> analyze F p (flow_push_context_jump st); flow_pop_context_jump st }"
| "analyze F (Choose covers bs) st =
     do {
       st \<leftarrow> flow_set_context_branch_group_covers_all_cases covers (flow_push_context_branch_group st);
       st \<leftarrow> analyze_branches F bs st;
       flow_pop_context_branch_group st
     }"
| "analyze_branches F NoBranch st = Some st"
| "analyze_branches F (EmptyBranch neg bs) st =
     do {
       st \<leftarrow> flow_context_branch_group_add_empty_branch st;
       st \<leftarrow> each (improve F) neg st;
       analyze_branches F bs st
     }"
| "analyze_branches F (Branch pos p neg bs) st =
     do {
       st \<leftarrow> flow_push_context_branch st;
       st \<leftarrow> each (improve F) pos st;
       st \<leftarrow> analyze F p st;
       st \<leftarrow> flow_pop_context_branch st;
       st \<leftarrow> each (improve F) neg st;
       analyze_branches F bs st
     }"

section \<open>The set equations\<close>

text \<open>The statement list itself holds a control statement, so the branch it forms always jumps.\<close>

primrec jumps :: "cmd \<Rightarrow> bool" where
  "jumps Skip = False"
| "jumps (Improve t) = False"
| "jumps (Unimprove t) = False"
| "jumps Control = True"
| "jumps (Seq p q) = (jumps p \<or> jumps q)"
| "jumps (Block p) = False"
| "jumps (Protect p) = False"
| "jumps (Choose covers bs) = False"

text \<open>
  \<open>spec p f\<close> gives the improvements after \<open>p\<close>, those that were unset in the context of \<open>p\<close> itself, and
  those whose unset the enclosing jump context learns of.
\<close>

definition merged :: "bool \<Rightarrow> nat set list \<Rightarrow> nat set \<Rightarrow> nat set" where
  "merged covers es f = {t. (\<forall>e \<in> set es. t \<in> e) \<and> (t \<in> f \<or> covers \<and> es \<noteq> [])}"

primrec spec :: "cmd \<Rightarrow> nat set \<Rightarrow> nat set \<times> nat set \<times> nat set"
  and spec_branches :: "branches \<Rightarrow> nat set \<Rightarrow> nat set \<Rightarrow> nat set list \<times> nat set \<times> nat set" where
  "spec Skip f = (f, {}, {})"
| "spec (Improve t) f = (insert t f, {}, {})"
| "spec (Unimprove t) f = (f - {t}, f \<inter> {t}, f \<inter> {t})"
| "spec Control f = (f, {}, {})"
| "spec (Seq p q) f =
     (let (g, v, r) = spec p f; (g', v', r') = spec q g in (g', v \<union> v', r \<union> r'))"
| "spec (Block p) f =
     (let (g, v, r) = spec p f; f' = (f \<inter> g) - v in (f', v \<union> (g - f'), r \<union> (g - f')))"
| "spec (Protect p) f =
     (let (g, v, r) = spec p f; f' = (f \<inter> g) - v - r in (f', v \<union> (g - f'), {}))"
| "spec (Choose covers bs) f =
     (let (es, g, r) = spec_branches bs f f; f' = merged covers es f in (f', f - f', r \<union> (g - f) \<union> (f - f')))"
| "spec_branches NoBranch f g = ([], g, {})"
| "spec_branches (EmptyBranch neg bs) f g =
     (let (es, g', r) = spec_branches bs f (g \<union> set neg) in (f # es, g', r))"
| "spec_branches (Branch pos p neg bs) f g =
     (let (e, v, r) = spec p (g \<union> set pos); (es, g', r') = spec_branches bs f (g \<union> set neg)
      in (if jumps p then es else e # es, g', r \<union> r'))"

text \<open>
  Programs within the discipline of the analysis: types can be improved, a branch that always jumps
  comes before any improvement by a false condition, and branch counts stay in 31 bits.
\<close>

primrec branches_count :: "branches \<Rightarrow> nat" where
  "branches_count NoBranch = 0"
| "branches_count (EmptyBranch neg bs) = Suc (branches_count bs)"
| "branches_count (Branch pos p neg bs) = Suc (branches_count bs)"

primrec wf_cmd :: "(nat \<Rightarrow> u64) \<Rightarrow> cmd \<Rightarrow> bool"
  and wf_branches :: "(nat \<Rightarrow> u64) \<Rightarrow> branches \<Rightarrow> bool \<Rightarrow> bool" where
  "wf_cmd F Skip = True"
| "wf_cmd F (Improve t) = good_type F t"
| "wf_cmd F (Unimprove t) = good_type F t"
| "wf_cmd F Control = True"
| "wf_cmd F (Seq p q) = (wf_cmd F p \<and> wf_cmd F q)"
| "wf_cmd F (Block p) = wf_cmd F p"
| "wf_cmd F (Protect p) = wf_cmd F p"
| "wf_cmd F (Choose covers bs) = (wf_branches F bs True \<and> branches_count bs < 2 ^ 31)"
| "wf_branches F NoBranch clean = True"
| "wf_branches F (EmptyBranch neg bs) clean =
     ((\<forall>t \<in> set neg. good_type F t) \<and> wf_branches F bs (clean \<and> neg = []))"
| "wf_branches F (Branch pos p neg bs) clean =
     ((\<forall>t \<in> set pos \<union> set neg. good_type F t) \<and> wf_cmd F p \<and> (jumps p \<longrightarrow> clean) \<and>
      wf_branches F bs (clean \<and> neg = []))"

section \<open>The simple commands\<close>

lemma improve_ran:
  assumes "cur_ok F st" and "good_type F t"
  shows "\<exists>st' h. improve F t st = Some st' \<and> effect F st h False [] st' \<and> unsets h = {} \<and>
    improved F st' = insert t (improved F st)"
proof -
  obtain c cs where c: "contexts st = c # cs" using assms(1) by (auto simp: cur_ok_def)
  show ?thesis
  proof (cases "t \<in> improved F st")
    case True
    then show ?thesis using effect_refl [of st F] c by (intro exI [of _ st] exI [of _ "[]"]) (auto simp: improve_def improved_iff)
  next
    case False
    then obtain st' where st': "flow_set_flag_for_type (F t) t st = Some st'" "effect F st [set_item F t] False [] st'"
      "improved F st' = insert t (improved F st)" using set_ran [OF c assms(2)] by blast
    have "improve F t st = Some st'" using False st'(1) by (simp add: improve_def improved_iff)
    then show ?thesis using st' by (intro exI [of _ st'] exI [of _ "[set_item F t]"]) simp
  qed
qed

lemma improve_all_ran:
  assumes "cur_ok F st" and "\<forall>t \<in> set ts. good_type F t"
  shows "\<exists>st' h. each (improve F) ts st = Some st' \<and> effect F st h False [] st' \<and> unsets h = {} \<and>
    improved F st' = improved F st \<union> set ts \<and> (ts = [] \<longrightarrow> h = [])"
  using assms
proof (induction ts arbitrary: st)
  case Nil
  then have "contexts st \<noteq> []" by (auto simp: cur_ok_def)
  then show ?case using effect_refl [of st F] by (intro exI [of _ st] exI [of _ "[]"]) simp
next
  case (Cons t ts)
  obtain s h where s: "improve F t st = Some s" "effect F st h False [] s" "unsets h = {}"
    "improved F s = insert t (improved F st)"
    using improve_ran [OF Cons.prems(1), of t] Cons.prems(2) by auto
  obtain s' h' where s': "each (improve F) ts s = Some s'" "effect F s h' False [] s'" "unsets h' = {}"
    "improved F s' = improved F s \<union> set ts"
    using Cons.IH [OF effect_cur_ok [OF Cons.prems(1) s(2)]] Cons.prems(2) by auto
  have "top_ok st" using Cons.prems(1) by (simp add: cur_ok_def)
  then have "effect F st (h' @ h) False [] s'" using effect_trans [OF _ s(2) s'(2)] by simp
  then show ?case using s s' by (intro exI [of _ s'] exI [of _ "h' @ h"]) auto
qed

text \<open>What the top jump context has noted, against the sets of the equations.\<close>

definition learns :: "flow_state \<Rightarrow> flow_history \<Rightarrow> nat set \<Rightarrow> nat set \<Rightarrow> bool" where
  "learns st u v r \<longleftrightarrow>
     (\<forall>d. top_jump_context st = Some d \<longrightarrow>
        (if height st = d then unsets u \<subseteq> r \<and> r \<subseteq> unsets u \<union> v else unsets u = r))"

lemma unimprove_ran:
  assumes "cur_ok F st" and "good_type F t"
  shows "\<exists>st' h u. unimprove F t st = Some st' \<and> effect F st h False u st' \<and>
    improved F st' = improved F st - {t} \<and> unsets h = improved F st \<inter> {t} \<and>
    learns st u (unsets h) (improved F st \<inter> {t})"
proof -
  obtain c cs where c: "contexts st = c # cs" "top_ok st" using assms(1) by (auto simp: cur_ok_def)
  show ?thesis
  proof (cases "t \<in> improved F st")
    case False
    then show ?thesis using effect_refl [of st F] c
      by (intro exI [of _ st] exI [of _ "[]"]) (auto simp: unimprove_def improved_iff learns_def)
  next
    case True
    obtain st' where "flow_unset_flag_for_type (F t) t st = Some st'"
      "effect F st [unset_item F t] False (noted st [unset_item F t]) st'" "improved F st' = improved F st - {t}"
      using unset_ran [OF c assms(2) True] by blast
    moreover have "unimprove F t st = flow_unset_flag_for_type (F t) t st"
      using True by (simp add: unimprove_def improved_iff)
    moreover have "improved F st \<inter> {t} = {t}" using True by simp
    ultimately show ?thesis
      by (intro exI [of _ st'] exI [of _ "[unset_item F t]"] exI [of _ "noted st [unset_item F t]"])
        (simp add: learns_def noted_def)
  qed
qed

lemma control_ran:
  assumes "cur_ok F st"
  shows "\<exists>st'. flow_set_context_always_jumps True st = Some st' \<and> effect F st [] True [] st' \<and> improved F st' = improved F st"
proof -
  obtain c cs where c: "contexts st = c # cs" using assms(1) by (auto simp: cur_ok_def)
  then show ?thesis
    by (auto simp: flow_set_context_always_jumps_def current_context_def effect_def moves_def grow_def update_current_def)
qed

section \<open>Blocks\<close>

definition fresh :: "flow_context_kind \<Rightarrow> flow_context" where
  "fresh k = \<lparr>kind = k, history = [], always_jumps = False, branch_histories = [], branch_count = 0,
     covers_all_cases = False, nearest_jump_context = None, unset_histories = []\<rparr>"

lemma fresh_simps [simp]:
  "kind (fresh k) = k" "history (fresh k) = []" "always_jumps (fresh k) = False" "branch_histories (fresh k) = []"
  "branch_count (fresh k) = 0" "covers_all_cases (fresh k) = False" "nearest_jump_context (fresh k) = None"
  "unset_histories (fresh k) = []"
  by (simp_all add: fresh_def)

lemma push_simps [simp]:
  "contexts (push_context_with_kind k st) = fresh k # contexts st"
  "top_jump_context (push_context_with_kind k st) = top_jump_context st"
  "improved F (push_context_with_kind k st) = improved F st"
  by (simp_all add: push_context_with_kind_def fresh_def)

text \<open>A list of contexts with unsets noted in it: its first context differs in what it noted only.\<close>

lemma note_unsets_Cons:
  assumes "top_ok st" and "contexts st = c # cs"
  obtains c' cs' where "note_unsets (top_jump_context st) u (c # cs) = c' # cs'" "history c' = history c" "kind c' = kind c"
    "\<And>h. note_unsets (top_jump_context st) u (grow h False c # cs) = c'\<lparr>history := h @ history c'\<rparr> # cs'"
  using assms
proof (cases rule: top_cases)
  case 1
  then show ?thesis using that [of c cs] by (simp add: grow_def)
next
  case 2
  then show ?thesis
    using that [of "c\<lparr>unset_histories := u @ unset_histories c\<rparr>" cs] by (simp add: note_unsets_here grow_def)
next
  case (3 d)
  then show ?thesis
    using that [of c "note_unsets (Some d) u cs"] by (auto simp: note_unsets_below grow_def)
qed

text \<open>The last step of every pop: the history of the context that ends moves to its parent.\<close>

lemma leave_ran:
  assumes "cur_ok F st" and "contexts st = c # cs"
    and "contexts s = k # note_unsets (top_jump_context st) u (c # cs)"
    and "\<forall>i \<in> set (history k) \<union> set u. good_item F i" and "sets u = {}"
    and "valid (improved F s) (history k)" and "undo (improved F s) (history k) = improved F st"
  shows "\<exists>s'. move_history_to_parent s = Some s' \<and>
    effect F st (history k) False u (pop_to_parent (s'\<lparr>top_jump_context := top_jump_context st\<rparr>)) \<and>
    improved F s' = improved F s \<and> top_jump_context s' = top_jump_context s"
proof -
  have ok: "top_ok st" "\<forall>i \<in> set (history c). good_item F i" "valid (improved F st) (history c)"
    using assms(1,2) by (auto simp: cur_ok_def)
  obtain c' cs' where c': "note_unsets (top_jump_context st) u (c # cs) = c' # cs'" "history c' = history c"
    "note_unsets (top_jump_context st) u (grow (history k) False c # cs) = c'\<lparr>history := history k @ history c'\<rparr> # cs'"
    using note_unsets_Cons [OF ok(1) assms(2), of u] by metis
  have "move_history_to_parent s =
      Some (s\<lparr>contexts := k\<lparr>history := []\<rparr> # c'\<lparr>history := history k @ history c'\<rparr> # cs'\<rparr>)"
    by (rule move_history [where F = F]) (use assms ok c' in auto)
  then show ?thesis
    using assms c' by (auto simp: effect_def moves_def pop_to_parent_def)
qed

lemma leave_same_top:
  assumes "cur_ok F st" and "contexts st = c # cs"
    and "contexts s = k # note_unsets (top_jump_context st) u (c # cs)" and "top_jump_context s = top_jump_context st"
    and "\<forall>i \<in> set (history k) \<union> set u. good_item F i" and "sets u = {}"
    and "valid (improved F s) (history k)" and "undo (improved F s) (history k) = improved F st"
  shows "\<exists>s'. move_history_to_parent s = Some s' \<and> effect F st (history k) False u (pop_to_parent s') \<and>
    improved F s' = improved F s"
proof -
  obtain s' where s': "move_history_to_parent s = Some s'"
    "effect F st (history k) False u (pop_to_parent (s'\<lparr>top_jump_context := top_jump_context st\<rparr>))"
    "improved F s' = improved F s" "top_jump_context s' = top_jump_context s"
    using leave_ran [OF assms(1-3,5-8)] by blast
  have "s'\<lparr>top_jump_context := top_jump_context st\<rparr> = s'" using s'(4) assms(4) by (cases s') simp
  then show ?thesis using s' by simp
qed

lemma not_here:
  assumes "top_ok st" and "contexts s = k # note_unsets (top_jump_context st) u (contexts st)"
    and "top_jump_context s = top_jump_context st"
  shows "noted s h = h"
  using assms by (auto simp: noted_def height_def top_ok_def split: option.splits)

lemma push_ok: "cur_ok F st \<Longrightarrow> cur_ok F (push_context_with_kind k st)"
  by (auto simp: cur_ok_def top_ok_def split: option.splits)

lemma child_contexts:
  assumes "top_ok st" and "contexts s = k # contexts st" and "top_jump_context s = top_jump_context st"
    and "moves s h j u s'"
  shows "contexts s' = grow h j k # note_unsets (top_jump_context st) u (contexts st)"
    and "top_jump_context s' = top_jump_context st"
proof -
  have "top_jump_context st = None \<or> (\<exists>d. top_jump_context st = Some d \<and> d < length (contexts st))"
    using assms(1) by (auto simp: top_ok_def split: option.splits)
  then show "contexts s' = grow h j k # note_unsets (top_jump_context st) u (contexts st)"
    "top_jump_context s' = top_jump_context st"
    using assms(2-) by (auto simp: moves_def note_unsets_below)
qed

lemma block_ran:
  assumes ok: "cur_ok F st" and body: "effect F (flow_push_context_normal st) h j u s"
  shows "\<exists>st' h'. flow_pop_context_normal s = Some st' \<and> effect F st (h' @ h) False (h' @ u) st' \<and>
    improved F st' = (improved F st \<inter> improved F s) - unsets h \<and> sets h' = {} \<and>
    unsets h' = improved F s - ((improved F st \<inter> improved F s) - unsets h)"
proof -
  let ?k = "fresh FLOW_CONTEXT_KIND_NORMAL"
  obtain c cs where c: "contexts st = c # cs" "top_ok st" using ok by (auto simp: cur_ok_def)
  have mv: "moves (flow_push_context_normal st) h j u s" and hv: "valid (improved F s) h"
    "undo (improved F s) h = improved F st" "\<forall>i \<in> set h \<union> set u. good_item F i" "sets u = {}"
    using body by (auto simp: effect_def flow_push_context_normal_def)
  have s: "contexts s = grow h j ?k # note_unsets (top_jump_context st) u (contexts st)"
    "top_jump_context s = top_jump_context st"
    by (rule child_contexts [OF c(2) _ _ mv]; simp add: flow_push_context_normal_def)+
  have oks: "cur_ok F s"
    using effect_cur_ok [OF _ body] push_ok [OF ok] by (simp add: flow_push_context_normal_def)
  obtain s' h' where s': "unset_loop h s = Some s'" "effect F s h' False (noted s h') s'"
    "improved F s' = improved F s - sets h" "sets h' = {}" "unsets h' = improved F s \<inter> sets h"
    using unset_loop_ran [OF oks] hv(3) by blast
  have n: "noted s h' = h'" using not_here [OF c(2) s] .
  have "top_ok (flow_push_context_normal st)" using push_ok [OF ok] by (simp add: cur_ok_def flow_push_context_normal_def)
  then have all: "effect F (flow_push_context_normal st) (h' @ h) j (h' @ u) s'"
    using effect_trans [OF _ body s'(2)] n by simp
  then have mv': "moves (flow_push_context_normal st) (h' @ h) j (h' @ u) s'" by (simp add: effect_def)
  have cs': "contexts s' = grow (h' @ h) j ?k # note_unsets (top_jump_context st) (h' @ u) (contexts st)"
    "top_jump_context s' = top_jump_context st"
    by (rule child_contexts [OF c(2) _ _ mv']; simp add: flow_push_context_normal_def)+
  have "\<exists>s''. move_history_to_parent s' = Some s'' \<and>
    effect F st (history (grow (h' @ h) j ?k)) False (h' @ u) (pop_to_parent s'') \<and> improved F s'' = improved F s'"
    by (rule leave_same_top [OF ok c(1)]) (use cs' c all in \<open>auto simp: effect_def flow_push_context_normal_def\<close>)
  then obtain s'' where s'': "move_history_to_parent s' = Some s''" "improved F s'' = improved F s'"
    "effect F st (h' @ h) False (h' @ u) (pop_to_parent s'')" by auto
  have "flow_pop_context_normal s = Some (pop_to_parent s'')"
    using s s' s'' by (simp add: flow_pop_context_normal_def current_context_def unset_all_improvements_def)
  moreover have "improved F (pop_to_parent s'') = improved F s - sets h" using s'' s' by (simp add: pop_to_parent_def)
  moreover have "improved F s \<inter> sets h = improved F s - ((improved F st \<inter> improved F s) - unsets h)"
    using valid_keep [OF hv(1)] hv(2) by blast
  ultimately show ?thesis
    using s''(3) s'(4,5) valid_keep [OF hv(1)] hv(2) by (intro exI [of _ "pop_to_parent s''"] exI [of _ h']) auto
qed

section \<open>Jumps\<close>

lemma reunset_loop_eq:
  "sets is = {} \<Longrightarrow> reunset_loop is st = unset_loop (map (item_delta_update (\<lambda>_. FLOW_HISTORY_DELTA_SET)) is) st"
proof (induction "is" arbitrary: st)
  case (Cons i js)
  then show ?case by (auto split: if_splits intro!: Option.bind_cong)
qed simp

lemma flipped:
  "sets (map (item_delta_update (\<lambda>_. FLOW_HISTORY_DELTA_SET)) is) = sets is \<union> unsets is"
  "\<forall>i \<in> set is. good_item F i \<Longrightarrow> \<forall>i \<in> set (map (item_delta_update (\<lambda>_. FLOW_HISTORY_DELTA_SET)) is). good_item F i"
  by (induction "is") (auto simp: good_item_def)

lemma push_jump_simps [simp]:
  "contexts (flow_push_context_jump st) =
     (fresh FLOW_CONTEXT_KIND_JUMP)\<lparr>nearest_jump_context := top_jump_context st\<rparr> # contexts st"
  "top_jump_context (flow_push_context_jump st) = Some (length (contexts st))"
  "improved F (flow_push_context_jump st) = improved F st"
  by (simp_all add: flow_push_context_jump_def Let_def update_current_def height_def fresh_def push_context_with_kind_def
      improved_def)

lemma jump_contexts:
  assumes "moves (flow_push_context_jump st) h j u s"
  shows "contexts s = (grow h j (fresh FLOW_CONTEXT_KIND_JUMP))
      \<lparr>nearest_jump_context := top_jump_context st, unset_histories := u\<rparr> # contexts st"
    and "top_jump_context s = Some (length (contexts st))"
  using assms by (auto simp: moves_def note_unsets_here grow_def fresh_def)

lemma noted_top: "top_jump_context s = Some (length cs) \<Longrightarrow> contexts s = c # cs \<Longrightarrow> noted s h = []"
  by (simp add: noted_def height_def)

lemma protect_ran:
  assumes ok: "cur_ok F st" and body: "effect F (flow_push_context_jump st) h j u s"
  shows "\<exists>st' h'. flow_pop_context_jump s = Some st' \<and> effect F st (h' @ h) False [] st' \<and>
    improved F st' = (improved F st \<inter> improved F s) - unsets h - unsets u \<and> sets h' = {} \<and>
    unsets h' = improved F s - ((improved F st \<inter> improved F s) - unsets h - unsets u)"
proof -
  let ?J = "flow_push_context_jump st"
  obtain c cs where c: "contexts st = c # cs" "top_ok st" using ok by (auto simp: cur_ok_def)
  have mv: "moves ?J h j u s" and hv: "valid (improved F s) h"
    "undo (improved F s) h = improved F st" "\<forall>i \<in> set h. good_item F i" "\<forall>i \<in> set u. good_item F i" "sets u = {}"
    using body by (auto simp: effect_def)
  have okJ: "cur_ok F ?J" "top_ok ?J" by (simp_all add: cur_ok_def top_ok_def)
  have oks: "cur_ok F s" using effect_cur_ok [OF okJ(1) body] .
  note cs = jump_contexts [OF mv]
  obtain s1 h1 where s1: "reunset_loop u s = Some s1" "effect F s h1 False [] s1"
    "improved F s1 = improved F s - unsets u" "sets h1 = {}" "unsets h1 = improved F s \<inter> unsets u"
    using unset_loop_ran [OF oks flipped(2) [OF hv(4)]] hv(5) noted_top [OF cs(2,1)]
    by (auto simp: flipped reunset_loop_eq)
  have j1: "effect F ?J (h1 @ h) j u s1" using effect_trans [OF okJ(2) body s1(2)] by simp
  have m1: "moves ?J (h1 @ h) j u s1" using j1 by (simp add: effect_def)
  note cs1 = jump_contexts [OF m1]
  have g1: "\<forall>i \<in> set (h1 @ h). good_item F i" "valid (improved F s1) (h1 @ h)"
    "undo (improved F s1) (h1 @ h) = improved F st" using j1 by (auto simp: effect_def)
  obtain s2 h2 where s2: "unset_loop (h1 @ h) s1 = Some s2" "effect F s1 h2 False [] s2"
    "improved F s2 = improved F s1 - sets h" "sets h2 = {}" "unsets h2 = improved F s1 \<inter> sets h"
    using unset_loop_ran [OF effect_cur_ok [OF okJ(1) j1] g1(1)] noted_top [OF cs1(2,1)] s1(4) by auto
  have j2: "effect F ?J (h2 @ h1 @ h) j u s2" using effect_trans [OF okJ(2) j1 s2(2)] by simp
  have m2: "moves ?J (h2 @ h1 @ h) j u s2" using j2 by (simp add: effect_def)
  note cs2 = jump_contexts [OF m2]
  have "\<exists>s'. move_history_to_parent s2 = Some s' \<and>
    effect F st (history (hd (contexts s2))) False [] (pop_to_parent (s'\<lparr>top_jump_context := top_jump_context st\<rparr>)) \<and>
    improved F s' = improved F s2 \<and> top_jump_context s' = top_jump_context s2"
    by (rule leave_ran [OF ok c(1)]) (use cs2 c j2 in \<open>auto simp: effect_def\<close>)
  then obtain s3 where s3: "move_history_to_parent s2 = Some s3" "improved F s3 = improved F s2"
    "effect F st (h2 @ h1 @ h) False [] (pop_to_parent (s3\<lparr>top_jump_context := top_jump_context st\<rparr>))"
    using cs2(1) by auto
  let ?st' = "pop_to_parent (s3\<lparr>top_jump_context := top_jump_context st\<rparr>)"
  have pop: "flow_pop_context_jump s = Some ?st'"
    using cs cs1 s1(1) s2(1) s3(1)
    by (simp add: flow_pop_context_jump_def current_context_def unset_all_improvements_def)
  have "improved F ?st' = improved F s1 - sets (h1 @ h)"
    using s3(2) s2(3) s1(4) by (simp add: pop_to_parent_def)
  then have f': "improved F ?st' = (improved F st \<inter> improved F s) - unsets h - unsets u"
    using valid_keep [OF g1(2)] g1(3) s1(3,5) by auto
  have "unsets (h2 @ h1) = improved F s - improved F ?st'"
    using s2(5) s1(3,5) s3(2) s2(3) by (auto simp: pop_to_parent_def)
  then show ?thesis
    using pop s3(3) f' s1(4) s2(4) by (intro exI [of _ ?st'] exI [of _ "h2 @ h1"]) simp
qed

end
