(* ===== verification/Flow_Refine.thy ===== *)
theory Flow_Refine
  imports Flow_Spec
begin

text \<open>
  Branch groups of the flow analysis, and the theorem that the whole analysis implements the set
  equations of \<open>Flow_Spec\<close>: it breaks no contract and leaves exactly the improvements the equations
  give.
\<close>

section \<open>Merging the branches\<close>

lemma u32_of_int_eq:
  assumes "- int n \<le> d" and "d \<le> int n" and "n < 2 ^ 31" and "unat (b :: u32) = n"
  shows "(word_of_int \<bar>d\<bar> :: u32) \<le> b" and "(word_of_int d :: u32) = b \<longleftrightarrow> d = int n"
proof -
  have b: "uint b = int n" using assms(4) by (metis uint_nat)
  have "uint (word_of_int \<bar>d\<bar> :: u32) = \<bar>d\<bar>" using assms(1-3) by (simp add: uint_word_of_int)
  then show "(word_of_int \<bar>d\<bar> :: u32) \<le> b" using b assms(1,2) by (simp add: word_le_def)
  have "d mod 2 ^ 32 = (if d < 0 then d + 2 ^ 32 else d)"
  proof (cases "d < 0")
    case True
    have "d mod 2 ^ 32 = (d + 2 ^ 32) mod 2 ^ 32" by simp
    also have "\<dots> = d + 2 ^ 32" using True assms(1-3) by (intro mod_pos_pos_trivial) simp_all
    finally show ?thesis using True by simp
  next
    case False
    then show ?thesis using assms(2,3) by (simp add: mod_pos_pos_trivial)
  qed
  then have "uint (word_of_int d :: u32) = (if d < 0 then d + 2 ^ 32 else d)" by (simp add: uint_word_of_int)
  then show "(word_of_int d :: u32) = b \<longleftrightarrow> d = int n"
    using b assms(1-3) by (simp add: word_uint_eq_iff split: if_splits)
qed

definition unset_part :: "flow_history \<Rightarrow> flow_history" where
  "unset_part h = filter (\<lambda>i. item_delta i = FLOW_HISTORY_DELTA_UNSET) h"

lemma unset_part_simps [simp]:
  "unset_part (g @ h) = unset_part g @ unset_part h" "unset_part [] = []" "unset_part [set_item F t] = []"
  "unset_part [unset_item F t] = [unset_item F t]" "unsets (unset_part h) = unsets h" "sets (unset_part h) = {}"
  by (auto simp: unset_part_def unsets_def sets_def)

lemma merge_ran:
  assumes ok: "cur_ok F s" and g: "contexts s = g # cs" "kind g = FLOW_CONTEXT_KIND_BRANCH_GROUP"
    and n: "unat (branch_count g) = n" "0 < n" "n < 2 ^ 31" and d: "- int n \<le> d" "d \<le> int n"
    and t: "good_type F t" "0 < d \<Longrightarrow> t \<notin> improved F s" "d < 0 \<Longrightarrow> t \<in> improved F s"
  shows "\<exists>s' h. merge_effects t (F t) d s = Some s' \<and> effect F s h False (noted s (unset_part h)) s' \<and>
    improved F s' = (if covers_all_cases g \<and> d = int n then insert t (improved F s)
                     else if d < 0 then improved F s - {t} else improved F s) \<and>
    unsets h = (if d < 0 then {t} else {})"
proof -
  have cond: "merge_effects t (F t) d s =
      (if covers_all_cases g \<and> d = int n then flow_set_flag_for_type (F t) t s
       else if d < 0 then flow_unset_flag_for_type (F t) t s else Some s)"
  proof -
    have c: "current_context s = Some g" using g(1) by (simp add: current_context_def)
    have "branch_count g > 0" using n(1,2) by (simp add: word_less_nat_alt)
    moreover have "t \<noteq> 0" "is_single_flag (F t)" using t(1) by (simp_all add: good_type_def)
    moreover have "d \<le> 0 \<or> sem_types s t AND F t = 0" "d \<ge> 0 \<or> sem_types s t AND F t \<noteq> 0"
      using t(2,3) by (fastforce simp: improved_iff)+
    ultimately show ?thesis
      using u32_of_int_eq [OF d n(3,1)] by (simp add: merge_effects_def c g(2))
  qed
  have top: "top_ok s" using ok by (simp add: cur_ok_def)
  consider (set) "covers_all_cases g" "d = int n" | (unset) "d < 0" | (none) "\<not> (covers_all_cases g \<and> d = int n)" "\<not> d < 0"
    by blast
  then show ?thesis
  proof cases
    case set
    then have "t \<notin> improved F s" using n(2) t(2) by simp
    then obtain s' where "flow_set_flag_for_type (F t) t s = Some s'" "effect F s [set_item F t] False [] s'"
      "improved F s' = insert t (improved F s)" using set_ran [OF g(1) t(1)] by blast
    moreover have "merge_effects t (F t) d s = flow_set_flag_for_type (F t) t s" using set cond by simp
    ultimately show ?thesis using set by (intro exI [of _ s'] exI [of _ "[set_item F t]"]) simp
  next
    case unset
    then obtain s' where "flow_unset_flag_for_type (F t) t s = Some s'"
      "effect F s [unset_item F t] False (noted s [unset_item F t]) s'" "improved F s' = improved F s - {t}"
      using unset_ran [OF g(1) top t(1)] t(3) by blast
    then show ?thesis using unset cond by (intro exI [of _ s'] exI [of _ "[unset_item F t]"]) auto
  next
    case none
    then show ?thesis using cond effect_refl [of s F] g(1) by (intro exI [of _ s] exI [of _ "[]"]) auto
  qed
qed

lemma merge_all_ran:
  assumes "cur_ok F s" and "contexts s = g # cs" "kind g = FLOW_CONTEXT_KIND_BRANCH_GROUP"
    and "unat (branch_count g) = n" "0 < n" "n < 2 ^ 31" and "distinct ts"
    and "\<And>t. t \<in> set ts \<Longrightarrow> - int n \<le> d t \<and> d t \<le> int n \<and> good_type F t"
    and "\<And>t. t \<in> set ts \<Longrightarrow> (0 < d t \<longrightarrow> t \<notin> improved F s) \<and> (d t < 0 \<longrightarrow> t \<in> improved F s)"
  shows "\<exists>s' h. each (\<lambda>t. merge_effects t (F t) (d t)) ts s = Some s' \<and> effect F s h False (noted s (unset_part h)) s' \<and>
    improved F s' = improved F s - {t \<in> set ts. d t < 0} \<union> {t \<in> set ts. covers_all_cases g \<and> d t = int n} \<and>
    unsets h = {t \<in> set ts. d t < 0}"
  using assms
proof (induction ts arbitrary: s g cs)
  case Nil
  then show ?case using effect_refl [of s F] by (intro exI [of _ s] exI [of _ "[]"]) simp
next
  case (Cons t ts)
  have top: "top_ok s" using Cons.prems(1) by (simp add: cur_ok_def)
  obtain s1 h1 where s1: "merge_effects t (F t) (d t) s = Some s1" "effect F s h1 False (noted s (unset_part h1)) s1"
    "improved F s1 = (if covers_all_cases g \<and> d t = int n then insert t (improved F s)
                     else if d t < 0 then improved F s - {t} else improved F s)"
    "unsets h1 = (if d t < 0 then {t} else {})"
    using merge_ran [OF Cons.prems(1-6), of "d t" t] Cons.prems(8,9) [of t] by auto
  have mv: "moves s h1 False (noted s (unset_part h1)) s1" using s1(2) by (simp add: effect_def)
  obtain g1 cs1 where g1: "contexts s1 = g1 # cs1" "kind g1 = kind g" "branch_count g1 = branch_count g"
    "covers_all_cases g1 = covers_all_cases g" using moves_contexts [OF top Cons.prems(2) mv] by blast
  have same: "u \<in> improved F s1 \<longleftrightarrow> u \<in> improved F s" if "u \<in> set ts" for u
    using that Cons.prems(7) s1(3) by auto
  have "\<exists>s' h. each (\<lambda>t. merge_effects t (F t) (d t)) ts s1 = Some s' \<and> effect F s1 h False (noted s1 (unset_part h)) s' \<and>
    improved F s' = improved F s1 - {t \<in> set ts. d t < 0} \<union> {t \<in> set ts. covers_all_cases g1 \<and> d t = int n} \<and>
    unsets h = {t \<in> set ts. d t < 0}"
    by (rule Cons.IH [OF effect_cur_ok [OF Cons.prems(1) s1(2)] g1(1)])
      (use g1 Cons.prems(3-9) same in auto)
  then obtain s2 h2 where s2: "each (\<lambda>t. merge_effects t (F t) (d t)) ts s1 = Some s2"
    "effect F s1 h2 False (noted s1 (unset_part h2)) s2"
    "improved F s2 = improved F s1 - {t \<in> set ts. d t < 0} \<union> {t \<in> set ts. covers_all_cases g \<and> d t = int n}"
    "unsets h2 = {t \<in> set ts. d t < 0}" using g1(4) by auto
  have "effect F s (h2 @ h1) False (noted s (unset_part (h2 @ h1))) s2"
    using effect_trans [OF top s1(2) s2(2)] moves_noted [OF mv] by simp
  moreover have "unsets (h2 @ h1) = {u \<in> set (t # ts). d u < 0}" using s1(4) s2(4) by auto
  moreover have "improved F s2 = improved F s - {u \<in> set (t # ts). d u < 0} \<union>
      {u \<in> set (t # ts). covers_all_cases g \<and> d u = int n}"
    using s1(3) s2(3) Cons.prems(5,7) by auto
  ultimately show ?case using s1(1) s2(1) by (intro exI [of _ s2] exI [of _ "h2 @ h1"]) simp
qed

section \<open>The state of a branch group\<close>

text \<open>
  \<open>in_group F st covers es u g s\<close>: the state \<open>s\<close> is inside a branch group \<open>g\<close> that was opened in \<open>st\<close>, after
  branches that ended with the improvements \<open>es\<close>; \<open>u\<close> is what the jump context learned on the way.
\<close>

definition in_group ::
  "(nat \<Rightarrow> u64) \<Rightarrow> flow_state \<Rightarrow> bool \<Rightarrow> nat set list \<Rightarrow> flow_history \<Rightarrow> flow_context \<Rightarrow> flow_state \<Rightarrow> bool" where
  "in_group F st covers es u g s \<longleftrightarrow>
     contexts s = g # note_unsets (top_jump_context st) u (contexts st) \<and> top_jump_context s = top_jump_context st \<and>
     kind g = FLOW_CONTEXT_KIND_BRANCH_GROUP \<and> covers_all_cases g = covers \<and>
     (\<forall>i \<in> set (history g) \<union> set (branch_histories g) \<union> set u. good_item F i) \<and> sets u = {} \<and>
     valid (improved F s) (history g) \<and> undo (improved F s) (history g) = improved F st \<and> unsets (history g) = {} \<and>
     unat (branch_count g) = length es \<and> (es = [] \<longrightarrow> branch_histories g = []) \<and>
     (\<forall>t. hsum (branch_histories g) t = (\<Sum>e\<leftarrow>es. of_bool (t \<in> e) - of_bool (t \<in> improved F st)))"

lemma in_group_cur_ok:
  assumes "top_ok st" and "in_group F st covers es u g s"
  shows "cur_ok F s"
  using assms by (auto simp: in_group_def cur_ok_def top_ok_def split: option.splits)

lemma group_starts:
  assumes "cur_ok F st"
  shows "\<exists>g s. flow_set_context_branch_group_covers_all_cases covers (flow_push_context_branch_group st) = Some s \<and>
    in_group F st covers [] [] g s \<and> history g = [] \<and> improved F s = improved F st"
  by (simp add: flow_set_context_branch_group_covers_all_cases_def flow_push_context_branch_group_def update_current_def
      current_context_def in_group_def push_context_with_kind_def improved_def)

lemma group_empty_branch:
  assumes "in_group F st covers es u g s" and "length es < 2 ^ 31"
  shows "\<exists>g' s'. flow_context_branch_group_add_empty_branch s = Some s' \<and>
    in_group F st covers (es @ [improved F st]) u g' s' \<and> history g' = history g \<and> improved F s' = improved F s"
  using assms unat_plus_u32 [of "branch_count g" 1]
  by (auto simp: flow_context_branch_group_add_empty_branch_def in_group_def current_context_def update_current_def
      improved_def)

lemma group_improves:
  assumes "top_ok st" and "in_group F st covers es u g s" and "\<forall>t \<in> set ts. good_type F t"
  shows "\<exists>g' s'. each (improve F) ts s = Some s' \<and> in_group F st covers es u g' s' \<and>
    (ts = [] \<longrightarrow> history g' = history g) \<and> improved F s' = improved F s \<union> set ts"
proof -
  obtain s' h where s': "each (improve F) ts s = Some s'" "effect F s h False [] s'" "unsets h = {}"
    "improved F s' = improved F s \<union> set ts" "ts = [] \<longrightarrow> h = []"
    using improve_all_ran [OF in_group_cur_ok [OF assms(1,2)] assms(3)] by blast
  have c: "contexts s' = grow h False g # note_unsets (top_jump_context st) u (contexts st)"
    "top_jump_context s' = top_jump_context st"
    using s'(2) assms(2) by (auto simp: effect_def moves_def in_group_def)
  have "in_group F st covers es u (grow h False g) s'"
    using assms(2) c s'(2,3) by (auto simp: in_group_def effect_def)
  then show ?thesis using s' by auto
qed

lemma clone_history_eq: "\<forall>i \<in> set h. good_item F i \<Longrightarrow> clone_history h = Some h"
proof -
  assume g: "\<forall>i \<in> set h. good_item F i"
  have "clone_loop h acc = Some (rev h @ acc)" for acc
    using g
  proof (induction h arbitrary: acc)
    case (Cons i h)
    then have "history_item_new (item_type i) (item_flag i) (item_delta i) = Some i"
      by (auto simp: history_item_new_def good_item_def good_type_def)
    then show ?case using Cons by simp
  qed simp
  moreover have "reverse_loop h acc = rev h @ acc" for h acc by (induction h arbitrary: acc) simp_all
  ultimately show ?thesis by (simp add: clone_history_def reverse_history_def)
qed

lemma revert_loop_improved:
  "\<forall>i \<in> set h. good_item F i \<Longrightarrow> improved F (revert_loop h s) = undo (improved F s) h"
  "contexts (revert_loop h s) = contexts s" "top_jump_context (revert_loop h s) = top_jump_context s"
proof -
  show "\<forall>i \<in> set h. good_item F i \<Longrightarrow> improved F (revert_loop h s) = undo (improved F s) h"
  proof (induction h arbitrary: s)
    case (Cons i h)
    then have "good_type F (item_type i)" "item_flag i = F (item_type i)" by (auto simp: good_item_def)
    then show ?case using Cons by (cases "item_delta i") simp_all
  qed simp
  show "contexts (revert_loop h s) = contexts s"
    by (induction h arbitrary: s) (simp_all split: flow_history_delta.split)
  show "top_jump_context (revert_loop h s) = top_jump_context s"
    by (induction h arbitrary: s) (simp_all split: flow_history_delta.split)
qed

abbreviation counted :: "flow_context \<Rightarrow> flow_context" where
  "counted g \<equiv> g\<lparr>branch_histories := history g @ branch_histories g, branch_count := branch_count g + 1\<rparr>"

lemma branch_enters:
  assumes "top_ok st" and "in_group F st covers es u g s"
  shows "\<exists>b. flow_push_context_branch s = Some b \<and> top_jump_context b = top_jump_context st \<and> improved F b = improved F s \<and>
    contexts b = fresh FLOW_CONTEXT_KIND_BRANCH # counted g # note_unsets (top_jump_context st) u (contexts st) \<and> cur_ok F b"
proof -
  have "clone_history (history g) = Some (history g)"
    using assms(2) by (intro clone_history_eq [of _ F]) (auto simp: in_group_def)
  then show ?thesis
    using assms
    by (auto simp: flow_push_context_branch_def in_group_def current_context_def update_current_def push_context_with_kind_def
        fresh_def cur_ok_def top_ok_def improved_def split: option.splits)
qed

lemma branch_contexts:
  assumes "top_ok st" and "moves b h j u' b'" and "top_jump_context b = top_jump_context st"
    and "contexts b = k # g # note_unsets (top_jump_context st) u (contexts st)"
  shows "contexts b' = grow h j k # g # note_unsets (top_jump_context st) (u' @ u) (contexts st)"
    and "top_jump_context b' = top_jump_context st"
proof -
  have "top_jump_context st = None \<or> (\<exists>d. top_jump_context st = Some d \<and> d < length (contexts st))"
    using assms(1) by (auto simp: top_ok_def split: option.splits)
  then show "contexts b' = grow h j k # g # note_unsets (top_jump_context st) (u' @ u) (contexts st)"
    "top_jump_context b' = top_jump_context st"
    using assms(2-) by (auto simp: moves_def note_unsets_below note_unsets_twice)
qed

lemma branch_leaves:
  assumes "top_ok st" and grp: "in_group F st covers es u g s"
    and b: "contexts b = fresh FLOW_CONTEXT_KIND_BRANCH # counted g # note_unsets (top_jump_context st) u (contexts st)"
      "top_jump_context b = top_jump_context st" "improved F b = improved F s"
    and run: "effect F b h j u' b'" and "length es < 2 ^ 31" and clean: "j \<Longrightarrow> history g = []"
  shows "\<exists>g' s'. flow_pop_context_branch b' = Some s' \<and>
    in_group F st covers (if j then es else es @ [improved F b']) (u' @ u) g' s' \<and> history g' = history g \<and>
    improved F s' = improved F s"
proof -
  have e: "moves b h j u' b'" "\<forall>i \<in> set h \<union> set u'. good_item F i" "sets u' = {}" "valid (improved F b') h"
    "undo (improved F b') h = improved F s" using run b(3) by (auto simp: effect_def)
  note c = branch_contexts [OF assms(1) e(1) b(2,1)]
  let ?g = "if j then (counted g)\<lparr>branch_count := branch_count g\<rparr>
    else (counted g)\<lparr>branch_histories := h @ history g @ branch_histories g\<rparr>"
  let ?s = "update_current (\<lambda>_. ?g) (pop_to_parent (revert_loop h b'))"
  have "flow_pop_context_branch b' = Some ?s"
    using c grp
    by (auto simp: flow_pop_context_branch_def current_context_def pop_to_parent_def in_group_def revert_loop_improved
        update_current_def)
  moreover have imp: "improved F ?s = improved F s"
    using revert_loop_improved(1) [of h F b'] e(2,5) by (simp add: pop_to_parent_def)
  moreover have cs: "contexts ?s = ?g # note_unsets (top_jump_context st) (u' @ u) (contexts st)"
    "top_jump_context ?s = top_jump_context st"
    using c by (simp_all add: update_current_def pop_to_parent_def revert_loop_improved)
  moreover have "in_group F st covers (if j then es else es @ [improved F b']) (u' @ u) ?g ?s"
  proof (cases j)
    case True
    then show ?thesis using grp cs imp e(2,3) clean by (auto simp: in_group_def)
  next
    case False
    have "hsum h t + hsum (history g) t = of_bool (t \<in> improved F b') - of_bool (t \<in> improved F st)" for t
      using valid_hsum [OF e(4), of t] valid_hsum [of "improved F s" "history g" t] e(5) grp by (auto simp: in_group_def)
    moreover have "unat (branch_count g + 1) = Suc (length es)"
      using grp unat_plus_u32 [of "branch_count g" 1] assms(7) by (simp add: in_group_def)
    ultimately show ?thesis using False grp cs imp e(2,3) by (auto simp: in_group_def algebra_simps)
  qed
  moreover have "history ?g = history g" by simp
  ultimately show ?thesis by blast
qed

section \<open>Closing a branch group\<close>

text \<open>The sum of the deltas over branches that start from \<open>f\<close> and end with \<open>es\<close>.\<close>

definition delta_total :: "nat set list \<Rightarrow> nat set \<Rightarrow> nat \<Rightarrow> int" where
  "delta_total es f t = (\<Sum>e\<leftarrow>es. of_bool (t \<in> e) - of_bool (t \<in> f))"

lemma delta_total_bounds: "- int (length es) \<le> delta_total es f t" "delta_total es f t \<le> int (length es)"
  by (induction es) (auto simp: delta_total_def)

lemma delta_total_improved:
  assumes "t \<in> f"
  shows "delta_total es f t \<le> 0" and "delta_total es f t < 0 \<longleftrightarrow> (\<exists>e \<in> set es. t \<notin> e)"
proof -
  show le: "delta_total es f t \<le> 0" for es using assms by (induction es) (auto simp: delta_total_def)
  show "delta_total es f t < 0 \<longleftrightarrow> (\<exists>e \<in> set es. t \<notin> e)"
  proof (induction es)
    case (Cons e es)
    then show ?case using assms le [of es] by (auto simp: delta_total_def)
  qed (simp add: delta_total_def)
qed

lemma delta_total_unimproved:
  assumes "t \<notin> f"
  shows "delta_total es f t \<ge> 0" and "delta_total es f t = int (length es) \<longleftrightarrow> (\<forall>e \<in> set es. t \<in> e)"
proof -
  show "delta_total es f t \<ge> 0" using assms by (induction es) (auto simp: delta_total_def)
  show "delta_total es f t = int (length es) \<longleftrightarrow> (\<forall>e \<in> set es. t \<in> e)"
  proof (induction es)
    case (Cons e es)
    have "delta_total es f t \<le> int (length es)" by (rule delta_total_bounds)
    then show ?case using Cons assms by (auto simp: delta_total_def)
  qed (simp add: delta_total_def)
qed

lemma merged_by_sums:
  assumes "es \<noteq> []"
  shows "f - {t. delta_total es f t < 0} \<union> {t. covers \<and> delta_total es f t = int (length es)} = merged covers es f"
proof (rule set_eqI)
  fix t
  have n: "0 < int (length es)" using assms by simp
  show "t \<in> f - {t. delta_total es f t < 0} \<union> {t. covers \<and> delta_total es f t = int (length es)} \<longleftrightarrow> t \<in> merged covers es f"
  proof (cases "t \<in> f")
    case True
    then show ?thesis using delta_total_improved [OF True, of es] n by (auto simp: merged_def)
  next
    case False
    then show ?thesis using delta_total_unimproved [OF False, of es] assms by (auto simp: merged_def)
  qed
qed

lemma undo_sets_only: "unsets h = {} \<Longrightarrow> undo f h = f - sets h"
  by (induction h arbitrary: f) (auto split: if_splits)

lemma group_resets:
  assumes "top_ok st" and "in_group F st covers es u g s"
  shows "\<exists>s' h. unset_all_improvements s = Some s' \<and> sets h = {} \<and> unsets h = improved F s - improved F st \<and>
    contexts s' = grow h False g # note_unsets (top_jump_context st) (h @ u) (contexts st) \<and>
    top_jump_context s' = top_jump_context st \<and> improved F s' = improved F st \<and> (\<forall>i \<in> set h. good_item F i)"
proof -
  have g: "contexts s = g # note_unsets (top_jump_context st) u (contexts st)" "top_jump_context s = top_jump_context st"
    "\<forall>i \<in> set (history g). good_item F i" "valid (improved F s) (history g)"
    "undo (improved F s) (history g) = improved F st" "unsets (history g) = {}"
    using assms(2) by (auto simp: in_group_def)
  obtain s' h where s': "unset_loop (history g) s = Some s'" "effect F s h False (noted s h) s'"
    "improved F s' = improved F s - sets (history g)" "sets h = {}" "unsets h = improved F s \<inter> sets (history g)"
    using unset_loop_ran [OF in_group_cur_ok [OF assms] g(3)] by blast
  have base: "improved F st = improved F s - sets (history g)" using undo_sets_only [OF g(6)] g(5) by simp
  have "noted s h = h" by (rule not_here [OF assms(1) g(1,2)])
  then have mv: "moves s h False h s'" and good: "\<forall>i \<in> set h. good_item F i" using s'(2) by (auto simp: effect_def)
  have "top_jump_context st = None \<or> (\<exists>d. top_jump_context st = Some d \<and> d < length (contexts st))"
    using assms(1) by (auto simp: top_ok_def split: option.splits)
  then have "contexts s' = grow h False g # note_unsets (top_jump_context st) (h @ u) (contexts st)"
    "top_jump_context s' = top_jump_context st"
    using mv g(1,2) by (auto simp: moves_def note_unsets_below note_unsets_twice)
  then show ?thesis
    using s' base good g(1)
    by (intro exI [of _ s'] exI [of _ h]) (auto simp: unset_all_improvements_def current_context_def)
qed

lemma group_merges:
  assumes "top_ok st" and "in_group F st covers es u g s0" and "length es < 2 ^ 31"
    and s: "contexts s = (g\<lparr>history := []\<rparr>) # note_unsets (top_jump_context st) v (contexts st)"
      "top_jump_context s = top_jump_context st" "improved F s = improved F st"
  shows "\<exists>s' h. with_delta_sums_of_history (branch_histories g) merge_effects s = Some s' \<and>
    effect F s h False (unset_part h) s' \<and> improved F s' = merged covers es (improved F st) \<and>
    unsets h = improved F st - merged covers es (improved F st)"
proof (cases "es = []")
  case True
  then have "with_delta_sums_of_history (branch_histories g) merge_effects s = Some s"
    using assms(2) by (simp add: in_group_def with_delta_sums_of_history_def array_from_history_def)
  then show ?thesis
    using effect_refl [of s F] s True by (intro exI [of _ s] exI [of _ "[]"]) (auto simp: merged_def)
next
  case False
  let ?bh = "branch_histories g" and ?f = "improved F st"
  have g: "kind g = FLOW_CONTEXT_KIND_BRANCH_GROUP" "covers_all_cases g = covers" "unat (branch_count g) = length es"
    "\<forall>i \<in> set ?bh. good_item F i" "hsum ?bh = delta_total es ?f"
    using assms(2) by (auto simp: in_group_def delta_total_def)
  have ok: "cur_ok F s" using s assms(1) by (auto simp: cur_ok_def top_ok_def split: option.splits)
  let ?ts = "sorted_list_of_set (item_type ` set ?bh)"
  have "\<exists>s' h. each (\<lambda>t. merge_effects t (F t) (hsum ?bh t)) ?ts s = Some s' \<and>
    effect F s h False (noted s (unset_part h)) s' \<and>
    improved F s' = improved F s - {t \<in> set ?ts. hsum ?bh t < 0} \<union>
      {t \<in> set ?ts. covers_all_cases (g\<lparr>history := []\<rparr>) \<and> hsum ?bh t = int (length es)} \<and>
    unsets h = {t \<in> set ?ts. hsum ?bh t < 0}"
  proof (rule merge_all_ran [OF ok s(1)])
    show "- int (length es) \<le> hsum ?bh t \<and> hsum ?bh t \<le> int (length es) \<and> good_type F t" if "t \<in> set ?ts" for t
      using that g(4) delta_total_bounds [of es ?f t] by (auto simp: g(5) good_item_def)
    show "(0 < hsum ?bh t \<longrightarrow> t \<notin> improved F s) \<and> (hsum ?bh t < 0 \<longrightarrow> t \<in> improved F s)" if "t \<in> set ?ts" for t
      using delta_total_improved [of t ?f es] delta_total_unimproved [of t ?f es] by (cases "t \<in> ?f") (auto simp: g(5) s(3))
  qed (use g assms(3) False in auto)
  moreover have absent: "hsum ?bh t = 0" if "t \<notin> item_type ` set ?bh" for t using that by (intro hsum_absent) auto
  moreover have "{t \<in> set ?ts. hsum ?bh t < 0} = {t. delta_total es ?f t < 0}"
    "{t \<in> set ?ts. covers_all_cases (g\<lparr>history := []\<rparr>) \<and> hsum ?bh t = int (length es)} =
       {t. covers \<and> delta_total es ?f t = int (length es)}"
    using absent False g(2) unfolding g(5) [symmetric] by force+
  moreover have "with_delta_sums_of_history ?bh merge_effects s = each (\<lambda>t. merge_effects t (F t) (hsum ?bh t)) ?ts s"
    using g(4) by (intro with_delta_sums_each) (auto simp: good_item_def)
  moreover have "noted s h = h" for h using not_here [OF assms(1) s(1,2)] .
  moreover have "{t. delta_total es ?f t < 0} = ?f - merged covers es ?f"
  proof (rule set_eqI)
    fix t
    show "t \<in> {t. delta_total es ?f t < 0} \<longleftrightarrow> t \<in> ?f - merged covers es ?f"
      using delta_total_improved [of t ?f es] delta_total_unimproved(1) [of t ?f es]
      by (cases "t \<in> ?f") (auto simp: merged_def)
  qed
  ultimately show ?thesis using merged_by_sums [OF False, of ?f covers] s(3) by metis
qed

lemma group_ends:
  assumes ok: "cur_ok F st" and grp: "in_group F st covers es u g s" and len: "length es < 2 ^ 31"
  shows "\<exists>st' h u'. flow_pop_context_branch_group s = Some st' \<and> effect F st h False u' st' \<and>
    improved F st' = merged covers es (improved F st) \<and> unsets h = improved F st - merged covers es (improved F st) \<and>
    unsets u' = unsets u \<union> (improved F s - improved F st) \<union> (improved F st - merged covers es (improved F st))"
proof -
  obtain c cs where c: "contexts st = c # cs" "top_ok st" using ok by (auto simp: cur_ok_def)
  obtain s1 h1 where s1: "unset_all_improvements s = Some s1" "sets h1 = {}" "unsets h1 = improved F s - improved F st"
    "contexts s1 = grow h1 False g # note_unsets (top_jump_context st) (h1 @ u) (contexts st)"
    "top_jump_context s1 = top_jump_context st" "improved F s1 = improved F st" "\<forall>i \<in> set h1. good_item F i"
    using group_resets [OF c(2) grp] by blast
  let ?s2 = "update_current (history_update (\<lambda>_. [])) s1"
  have g: "contexts s = g # note_unsets (top_jump_context st) u (contexts st)" "kind g = FLOW_CONTEXT_KIND_BRANCH_GROUP"
    "\<forall>i \<in> set u. good_item F i" "sets u = {}"
    using grp by (auto simp: in_group_def)
  have s2: "contexts ?s2 = g\<lparr>history := []\<rparr> # note_unsets (top_jump_context st) (h1 @ u) (contexts st)"
    "top_jump_context ?s2 = top_jump_context st" "improved F ?s2 = improved F st"
    using s1(4-6) by (simp_all add: update_current_def grow_def)
  obtain s3 h3 where s3: "with_delta_sums_of_history (branch_histories g) merge_effects ?s2 = Some s3"
    "effect F ?s2 h3 False (unset_part h3) s3" "improved F s3 = merged covers es (improved F st)"
    "unsets h3 = improved F st - merged covers es (improved F st)"
    using group_merges [OF c(2) grp len s2] by blast
  have "top_jump_context st = None \<or> (\<exists>d. top_jump_context st = Some d \<and> d < length (contexts st))"
    using c(2) by (auto simp: top_ok_def split: option.splits)
  then have c3: "contexts s3 = grow h3 False (g\<lparr>history := []\<rparr>) #
      note_unsets (top_jump_context st) (unset_part h3 @ h1 @ u) (contexts st)" "top_jump_context s3 = top_jump_context st"
    using s3(2) s2(1,2) by (auto simp: effect_def moves_def note_unsets_below note_unsets_twice)
  have "\<exists>s4. move_history_to_parent s3 = Some s4 \<and>
    effect F st (history (grow h3 False (g\<lparr>history := []\<rparr>))) False (unset_part h3 @ h1 @ u) (pop_to_parent s4) \<and>
    improved F s4 = improved F s3"
    by (rule leave_same_top [OF ok c(1)]) (use c3 c g(3,4) s1(2,6,7) s3(2) in \<open>auto simp: effect_def\<close>)
  then obtain s4 where s4: "move_history_to_parent s3 = Some s4" "improved F s4 = improved F s3"
    "effect F st h3 False (unset_part h3 @ h1 @ u) (pop_to_parent s4)" by auto
  have "flow_pop_context_branch_group s = Some (pop_to_parent s4)"
    using g(1,2) s1(1) s2(1) s3(1) s4(1) by (simp add: flow_pop_context_branch_group_def current_context_def Let_def)
  then show ?thesis
    using s4 s3(3,4) s1(3)
    by (intro exI [of _ "pop_to_parent s4"] exI [of _ h3] exI [of _ "unset_part h3 @ h1 @ u"]) (auto simp: pop_to_parent_def)
qed

section \<open>The analysis implements the equations\<close>

lemma learns_trans:
  assumes "moves st h j u s" and "learns st u v r" and "learns s u' v' r'"
  shows "learns st (u' @ u) (v \<union> v') (r \<union> r')"
proof -
  have "top_jump_context s = top_jump_context st" "height s = height st"
    using assms(1) by (auto simp: moves_def height_def dest: arg_cong [of _ _ length])
  then show ?thesis using assms(2,3) by (auto simp: learns_def split: if_splits)
qed

text \<open>In a context below the top jump context, it learns of everything.\<close>

lemma learns_child:
  assumes "top_ok st" and "contexts b = k # cs" and "length cs \<ge> length (contexts st)"
    and "top_jump_context b = top_jump_context st" and "learns b u v r" and "top_jump_context st = Some d"
  shows "unsets u = r"
  using assms by (auto simp: learns_def height_def top_ok_def)

lemma learnsI: "top_jump_context st = None \<or> unsets u = r \<Longrightarrow> learns st u v r"
  by (auto simp: learns_def)

definition implements :: "(nat \<Rightarrow> u64) \<Rightarrow> cmd \<Rightarrow> bool" where
  "implements F p \<longleftrightarrow> (\<forall>st. cur_ok F st \<longrightarrow>
     (\<exists>st' h u. analyze F p st = Some st' \<and> effect F st h (jumps p) u st' \<and>
        fst (spec p (improved F st)) = improved F st' \<and> fst (snd (spec p (improved F st))) = unsets h \<and>
        learns st u (unsets h) (snd (snd (spec p (improved F st))))))"

lemma implementsE:
  assumes "implements F p" and "cur_ok F st"
  obtains st' h u r where "analyze F p st = Some st'" "effect F st h (jumps p) u st'"
    "spec p (improved F st) = (improved F st', unsets h, r)" "learns st u (unsets h) r"
  using assms unfolding implements_def by (metis prod.collapse)

lemma implementsI:
  assumes "\<And>st. cur_ok F st \<Longrightarrow> \<exists>st' h u r. analyze F p st = Some st' \<and> effect F st h (jumps p) u st' \<and>
    spec p (improved F st) = (improved F st', unsets h, r) \<and> learns st u (unsets h) r"
  shows "implements F p"
  unfolding implements_def using assms by fastforce

lemma implements_simple:
  "implements F Skip" "good_type F t \<Longrightarrow> implements F (Improve t)" "good_type F t \<Longrightarrow> implements F (Unimprove t)"
  "implements F Control"
proof -
  show "implements F Skip"
  proof (rule implementsI)
    fix st assume "cur_ok F st"
    then have "contexts st \<noteq> []" by (auto simp: cur_ok_def)
    then show "\<exists>st' h u r. analyze F Skip st = Some st' \<and> effect F st h (jumps Skip) u st' \<and>
      spec Skip (improved F st) = (improved F st', unsets h, r) \<and> learns st u (unsets h) r"
      using effect_refl [of st F] by (intro exI [of _ st] exI [of _ "[]"] exI [of _ "{}"]) (simp add: learns_def)
  qed
  show "implements F (Improve t)" if good: "good_type F t"
  proof (rule implementsI)
    fix st assume "cur_ok F st"
    then obtain st' h where "improve F t st = Some st'" "effect F st h False [] st'" "unsets h = {}"
      "improved F st' = insert t (improved F st)" using improve_ran [OF _ good] by blast
    then show "\<exists>st' h u r. analyze F (Improve t) st = Some st' \<and> effect F st h (jumps (Improve t)) u st' \<and>
      spec (Improve t) (improved F st) = (improved F st', unsets h, r) \<and> learns st u (unsets h) r"
      by (intro exI [of _ st'] exI [of _ h] exI [of _ "[]"] exI [of _ "{}"]) (simp add: learns_def)
  qed
  show "implements F (Unimprove t)" if good: "good_type F t"
  proof (rule implementsI)
    fix st assume "cur_ok F st"
    then obtain st' h u where "unimprove F t st = Some st'" "effect F st h False u st'"
      "improved F st' = improved F st - {t}" "unsets h = improved F st \<inter> {t}"
      "learns st u (unsets h) (improved F st \<inter> {t})" using unimprove_ran [OF _ good] by blast
    then show "\<exists>st' h u r. analyze F (Unimprove t) st = Some st' \<and> effect F st h (jumps (Unimprove t)) u st' \<and>
      spec (Unimprove t) (improved F st) = (improved F st', unsets h, r) \<and> learns st u (unsets h) r"
      by (intro exI [of _ st'] exI [of _ h] exI [of _ u] exI [of _ "improved F st \<inter> {t}"]) simp
  qed
  show "implements F Control"
  proof (rule implementsI)
    fix st assume "cur_ok F st"
    then obtain st' where "flow_set_context_always_jumps True st = Some st'" "effect F st [] True [] st'"
      "improved F st' = improved F st" using control_ran by blast
    then show "\<exists>st' h u r. analyze F Control st = Some st' \<and> effect F st h (jumps Control) u st' \<and>
      spec Control (improved F st) = (improved F st', unsets h, r) \<and> learns st u (unsets h) r"
      by (intro exI [of _ st'] exI [of _ "[]"] exI [of _ "{}"]) (simp add: learns_def)
  qed
qed

lemma implements_seq:
  assumes "implements F p" and "implements F q"
  shows "implements F (Seq p q)"
proof (rule implementsI)
  fix st assume ok: "cur_ok F st"
  then have top: "top_ok st" by (simp add: cur_ok_def)
  obtain s h u r where s: "analyze F p st = Some s" "effect F st h (jumps p) u s"
    "spec p (improved F st) = (improved F s, unsets h, r)" "learns st u (unsets h) r"
    using implementsE [OF assms(1) ok] .
  obtain s' h' u' r' where s': "analyze F q s = Some s'" "effect F s h' (jumps q) u' s'"
    "spec q (improved F s) = (improved F s', unsets h', r')" "learns s u' (unsets h') r'"
    using implementsE [OF assms(2) effect_cur_ok [OF ok s(2)]] .
  have "moves st h (jumps p) u s" using s(2) by (simp add: effect_def)
  then have "learns st (u' @ u) (unsets h \<union> unsets h') (r \<union> r')" using learns_trans s(4) s'(4) by blast
  then show "\<exists>st' h u r. analyze F (Seq p q) st = Some st' \<and> effect F st h (jumps (Seq p q)) u st' \<and>
      spec (Seq p q) (improved F st) = (improved F st', unsets h, r) \<and> learns st u (unsets h) r"
    using s s' effect_trans [OF top s(2) s'(2)]
    by (intro exI [of _ s'] exI [of _ "h' @ h"] exI [of _ "u' @ u"] exI [of _ "r \<union> r'"]) (auto simp: Un_commute)
qed

lemma implements_block:
  assumes "implements F p"
  shows "implements F (Block p)"
proof (rule implementsI)
  fix st assume ok: "cur_ok F st"
  let ?k = "flow_push_context_normal st"
  have top: "top_ok st" and k: "cur_ok F ?k" "contexts ?k = fresh FLOW_CONTEXT_KIND_NORMAL # contexts st"
    "top_jump_context ?k = top_jump_context st" "improved F ?k = improved F st"
    using ok push_ok [OF ok] by (auto simp: cur_ok_def flow_push_context_normal_def)
  obtain s h u r where s: "analyze F p ?k = Some s" "effect F ?k h (jumps p) u s"
    "spec p (improved F ?k) = (improved F s, unsets h, r)" "learns ?k u (unsets h) r"
    using implementsE [OF assms k(1)] .
  let ?f = "(improved F st \<inter> improved F s) - unsets h"
  obtain st' h' where st': "flow_pop_context_normal s = Some st'" "effect F st (h' @ h) False (h' @ u) st'"
    "improved F st' = ?f" "sets h' = {}" "unsets h' = improved F s - ?f"
    using block_ran [OF ok s(2)] by blast
  have "learns st (h' @ u) (unsets (h' @ h)) (r \<union> (improved F s - ?f))"
    using learns_child [OF top k(2) _ k(3) s(4)] st'(5) by (auto simp: learns_def)
  then show "\<exists>st' h u r. analyze F (Block p) st = Some st' \<and> effect F st h (jumps (Block p)) u st' \<and>
      spec (Block p) (improved F st) = (improved F st', unsets h, r) \<and> learns st u (unsets h) r"
    using s st' k(4)
    by (intro exI [of _ st'] exI [of _ "h' @ h"] exI [of _ "h' @ u"] exI [of _ "r \<union> (improved F s - ?f)"])
      (auto simp: Let_def)
qed

lemma implements_protect:
  assumes "implements F p"
  shows "implements F (Protect p)"
proof (rule implementsI)
  fix st assume ok: "cur_ok F st"
  let ?k = "flow_push_context_jump st"
  have k: "cur_ok F ?k" by (simp add: cur_ok_def top_ok_def)
  obtain s h u r where s: "analyze F p ?k = Some s" "effect F ?k h (jumps p) u s"
    "spec p (improved F ?k) = (improved F s, unsets h, r)" "learns ?k u (unsets h) r"
    using implementsE [OF assms k] .
  have r: "unsets u \<union> unsets h = r \<union> unsets h" using s(4) by (auto simp: learns_def height_def)
  let ?f = "(improved F st \<inter> improved F s) - unsets h - r"
  have f: "(improved F st \<inter> improved F s) - unsets h - unsets u = ?f" using r by blast
  obtain st' h' where st': "flow_pop_context_jump s = Some st'" "effect F st (h' @ h) False [] st'"
    "improved F st' = ?f" "sets h' = {}" "unsets h' = improved F s - ?f"
    using protect_ran [OF ok s(2)] unfolding f by blast
  then show "\<exists>st' h u r. analyze F (Protect p) st = Some st' \<and> effect F st h (jumps (Protect p)) u st' \<and>
      spec (Protect p) (improved F st) = (improved F st', unsets h, r) \<and> learns st u (unsets h) r"
    using s by (intro exI [of _ st'] exI [of _ "h' @ h"] exI [of _ "[]"] exI [of _ "{}"]) (auto simp: Let_def learns_def)
qed

definition implements_branches :: "(nat \<Rightarrow> u64) \<Rightarrow> branches \<Rightarrow> bool \<Rightarrow> bool" where
  "implements_branches F bs clean \<longleftrightarrow>
     (\<forall>st covers es u g s. cur_ok F st \<and> in_group F st covers es u g s \<and> (clean \<longrightarrow> history g = []) \<and>
        length es + branches_count bs < 2 ^ 31 \<longrightarrow>
        (\<exists>g' s' es' u' r. analyze_branches F bs s = Some s' \<and> in_group F st covers (es @ es') (u' @ u) g' s' \<and>
           length es' \<le> branches_count bs \<and> spec_branches bs (improved F st) (improved F s) = (es', improved F s', r) \<and>
           (top_jump_context st = None \<or> unsets u' = r)))"

lemma implements_branchesE:
  assumes "implements_branches F bs clean" and "cur_ok F st" and "in_group F st covers es u g s"
    and "clean \<Longrightarrow> history g = []" and "length es + branches_count bs < 2 ^ 31"
  obtains g' s' es' u' r where "analyze_branches F bs s = Some s'" "in_group F st covers (es @ es') (u' @ u) g' s'"
    "length es' \<le> branches_count bs" "spec_branches bs (improved F st) (improved F s) = (es', improved F s', r)"
    "top_jump_context st = None \<or> unsets u' = r"
  using assms unfolding implements_branches_def by blast

lemma implements_branchesI:
  assumes "\<And>st covers es u g s. cur_ok F st \<Longrightarrow> in_group F st covers es u g s \<Longrightarrow> (clean \<Longrightarrow> history g = []) \<Longrightarrow>
    length es + branches_count bs < 2 ^ 31 \<Longrightarrow>
    \<exists>g' s' es' u' r. analyze_branches F bs s = Some s' \<and> in_group F st covers (es @ es') (u' @ u) g' s' \<and>
      length es' \<le> branches_count bs \<and> spec_branches bs (improved F st) (improved F s) = (es', improved F s', r) \<and>
      (top_jump_context st = None \<or> unsets u' = r)"
  shows "implements_branches F bs clean"
  unfolding implements_branches_def using assms by blast

lemma implements_choose:
  assumes "implements_branches F bs True" and "branches_count bs < 2 ^ 31"
  shows "implements F (Choose covers bs)"
proof (rule implementsI)
  fix st assume ok: "cur_ok F st"
  obtain g s where s: "flow_set_context_branch_group_covers_all_cases covers (flow_push_context_branch_group st) = Some s"
    "in_group F st covers [] [] g s" "history g = []" "improved F s = improved F st"
    using group_starts [OF ok] by blast
  obtain g' s' es u r where s': "analyze_branches F bs s = Some s'" "in_group F st covers es u g' s'"
    "length es \<le> branches_count bs" "spec_branches bs (improved F st) (improved F s) = (es, improved F s', r)"
    "top_jump_context st = None \<or> unsets u = r"
    by (rule implements_branchesE [OF assms(1) ok s(2,3)]) (use assms(2) in auto)
  have len: "length es < 2 ^ 31" using s'(3) assms(2) by linarith
  let ?m = "merged covers es (improved F st)"
  obtain st' h u' where st': "flow_pop_context_branch_group s' = Some st'" "effect F st h False u' st'"
    "improved F st' = ?m" "unsets h = improved F st - ?m"
    "unsets u' = unsets u \<union> (improved F s' - improved F st) \<union> (improved F st - ?m)"
    using group_ends [OF ok s'(2) len] by blast
  let ?r = "r \<union> (improved F s' - improved F st) \<union> (improved F st - ?m)"
  have "top_jump_context st = None \<or> unsets u' = ?r" using s'(5) unfolding st'(5) by blast
  then have "learns st u' (unsets h) ?r" by (rule learnsI)
  then show "\<exists>st' h u r. analyze F (Choose covers bs) st = Some st' \<and> effect F st h (jumps (Choose covers bs)) u st' \<and>
      spec (Choose covers bs) (improved F st) = (improved F st', unsets h, r) \<and> learns st u (unsets h) r"
    using s s' st'
    by (intro exI [of _ st'] exI [of _ h] exI [of _ u'] exI [of _ ?r]) (simp add: Let_def)
qed

lemma implements_empty:
  assumes IH: "implements_branches F bs (clean \<and> neg = [])" and neg: "\<forall>t \<in> set neg. good_type F t"
  shows "implements_branches F (EmptyBranch neg bs) clean"
proof (rule implements_branchesI)
  fix st covers es u g s
  assume ok: "cur_ok F st" and grp: "in_group F st covers es u g s" and clean: "clean \<Longrightarrow> history g = []"
    and len: "length es + branches_count (EmptyBranch neg bs) < 2 ^ 31"
  have top: "top_ok st" using ok by (simp add: cur_ok_def)
  have "length es < 2 ^ 31" using len by simp
  then obtain g1 s1 where s1: "flow_context_branch_group_add_empty_branch s = Some s1"
    "in_group F st covers (es @ [improved F st]) u g1 s1" "history g1 = history g" "improved F s1 = improved F s"
    using group_empty_branch [OF grp] by blast
  obtain g2 s2 where s2: "each (improve F) neg s1 = Some s2" "in_group F st covers (es @ [improved F st]) u g2 s2"
    "neg = [] \<longrightarrow> history g2 = history g1" "improved F s2 = improved F s1 \<union> set neg"
    using group_improves [OF top s1(2) neg] by blast
  obtain g3 s3 es3 u3 r where s3: "analyze_branches F bs s2 = Some s3"
    "in_group F st covers ((es @ [improved F st]) @ es3) (u3 @ u) g3 s3" "length es3 \<le> branches_count bs"
    "spec_branches bs (improved F st) (improved F s2) = (es3, improved F s3, r)"
    "top_jump_context st = None \<or> unsets u3 = r"
    by (rule implements_branchesE [OF IH ok s2(2)]) (use clean s1(3) s2(3) len in auto)
  show "\<exists>g' s' es' u' r. analyze_branches F (EmptyBranch neg bs) s = Some s' \<and>
      in_group F st covers (es @ es') (u' @ u) g' s' \<and> length es' \<le> branches_count (EmptyBranch neg bs) \<and>
      spec_branches (EmptyBranch neg bs) (improved F st) (improved F s) = (es', improved F s', r) \<and>
      (top_jump_context st = None \<or> unsets u' = r)"
    using s1 s2 s3
    by (intro exI [of _ g3] exI [of _ s3] exI [of _ "improved F st # es3"] exI [of _ u3] exI [of _ r]) simp
qed

lemma implements_branch:
  assumes IH: "implements_branches F bs (clean \<and> neg = [])" and body: "implements F p"
    and good: "\<forall>t \<in> set pos \<union> set neg. good_type F t" and jmp: "jumps p \<longrightarrow> clean"
  shows "implements_branches F (Branch pos p neg bs) clean"
proof (rule implements_branchesI)
  fix st covers es u g s
  assume ok: "cur_ok F st" and grp: "in_group F st covers es u g s" and clean: "clean \<Longrightarrow> history g = []"
    and len: "length es + branches_count (Branch pos p neg bs) < 2 ^ 31"
  have top: "top_ok st" using ok by (simp add: cur_ok_def)
  obtain b where b: "flow_push_context_branch s = Some b" "top_jump_context b = top_jump_context st"
    "improved F b = improved F s"
    "contexts b = fresh FLOW_CONTEXT_KIND_BRANCH # counted g # note_unsets (top_jump_context st) u (contexts st)"
    "cur_ok F b" using branch_enters [OF top grp] by blast
  have topb: "top_ok b" using b(5) by (simp add: cur_ok_def)
  obtain b1 h1 where b1: "each (improve F) pos b = Some b1" "effect F b h1 False [] b1"
    "improved F b1 = improved F b \<union> set pos" using improve_all_ran [OF b(5), of pos] good by blast
  obtain b2 h2 u2 r2 where b2: "analyze F p b1 = Some b2" "effect F b1 h2 (jumps p) u2 b2"
    "spec p (improved F b1) = (improved F b2, unsets h2, r2)" "learns b1 u2 (unsets h2) r2"
    using implementsE [OF body effect_cur_ok [OF b(5) b1(2)]] .
  have run: "effect F b (h2 @ h1) (jumps p) u2 b2" using effect_trans [OF topb b1(2) b2(2)] by simp
  have "length es < 2 ^ 31" using len by simp
  then obtain g3 s3 where s3: "flow_pop_context_branch b2 = Some s3"
    "in_group F st covers (if jumps p then es else es @ [improved F b2]) (u2 @ u) g3 s3" "history g3 = history g"
    "improved F s3 = improved F s"
    using branch_leaves [OF top grp b(4,2,3) run] jmp clean by blast
  obtain g4 s4 where s4: "each (improve F) neg s3 = Some s4"
    "in_group F st covers (if jumps p then es else es @ [improved F b2]) (u2 @ u) g4 s4"
    "neg = [] \<longrightarrow> history g4 = history g3" "improved F s4 = improved F s3 \<union> set neg"
    using group_improves [OF top s3(2), of neg] good by blast
  obtain g5 s5 es5 u5 r5 where s5: "analyze_branches F bs s4 = Some s5"
    "in_group F st covers ((if jumps p then es else es @ [improved F b2]) @ es5) (u5 @ u2 @ u) g5 s5"
    "length es5 \<le> branches_count bs" "spec_branches bs (improved F st) (improved F s4) = (es5, improved F s5, r5)"
    "top_jump_context st = None \<or> unsets u5 = r5"
    by (rule implements_branchesE [OF IH ok s4(2)]) (use clean s3(3) s4(3) len in auto)
  obtain c1 cs1 where "contexts b1 = c1 # cs1" "length cs1 = Suc (length (contexts st))" "top_jump_context b1 = top_jump_context st"
    using moves_contexts [OF topb b(4), of h1 False "[]" b1] b1(2) b(2) by (auto simp: effect_def moves_def)
  then have "top_jump_context st = None \<or> unsets u2 = r2"
    using learns_child [OF top, of b1 c1 cs1 u2 "unsets h2" r2] b2(4) by auto
  then have learned: "top_jump_context st = None \<or> unsets (u5 @ u2) = r2 \<union> r5" using s5(5) by auto
  have spec: "spec_branches (Branch pos p neg bs) (improved F st) (improved F s) =
      ((if jumps p then es5 else improved F b2 # es5), improved F s5, r2 \<union> r5)"
    using b1(3) b(3) b2(3) s4(4) s3(4) s5(4) by simp
  have run: "analyze_branches F (Branch pos p neg bs) s = Some s5"
    using b(1) b1(1) b2(1) s3(1) s4(1) s5(1) by simp
  have grp': "in_group F st covers (es @ (if jumps p then es5 else improved F b2 # es5)) ((u5 @ u2) @ u) g5 s5"
    using s5(2) by (auto split: if_splits)
  show "\<exists>g' s' es' u' r. analyze_branches F (Branch pos p neg bs) s = Some s' \<and>
      in_group F st covers (es @ es') (u' @ u) g' s' \<and> length es' \<le> branches_count (Branch pos p neg bs) \<and>
      spec_branches (Branch pos p neg bs) (improved F st) (improved F s) = (es', improved F s', r) \<and>
      (top_jump_context st = None \<or> unsets u' = r)"
    by (intro exI conjI) (rule run, rule grp', use s5(3) in simp, rule spec, rule learned)
qed

theorem analysis_implements:
  "wf_cmd F p \<Longrightarrow> implements F p" "wf_branches F bs clean \<Longrightarrow> implements_branches F bs clean"
proof (induction p and bs arbitrary: and clean)
  case NoBranch
  show ?case
  proof (rule implements_branchesI)
    fix st covers es u g s
    assume "in_group F st covers es u g s"
    then show "\<exists>g' s' es' u' r. analyze_branches F NoBranch s = Some s' \<and> in_group F st covers (es @ es') (u' @ u) g' s' \<and>
      length es' \<le> branches_count NoBranch \<and> spec_branches NoBranch (improved F st) (improved F s) = (es', improved F s', r) \<and>
      (top_jump_context st = None \<or> unsets u' = r)"
      by (intro exI [of _ g] exI [of _ s] exI [of _ "[]"] exI [of _ "{}"]) simp
  qed
qed (simp_all add: implements_simple implements_seq implements_block implements_protect implements_choose
    implements_empty implements_branch)

end
