(* ===== verification/Flow_Sound.thy ===== *)
theory Flow_Sound
  imports Flow_Refine
begin

text \<open>
  Soundness of the flow analysis against a semantics of the programs it is run on, and the programs
  outside its discipline on which the code goes wrong.
\<close>

section \<open>Executions\<close>

text \<open>
  A state is the set of the facts that hold (a variable is not null, is initialised, a cursor has a
  row).  \<open>Unimprove\<close> may or may not destroy a fact, a statement may raise before it takes effect, the
  body of \<open>Protect\<close> runs any number of times and may be left at any point, and a condition that
  is true or false vouches for the facts it was analysed with.
\<close>

datatype outcome = Normal "nat set" | Jumped "nat set"

fun facts :: "outcome \<Rightarrow> nat set" where
  "facts (Normal s) = s"
| "facts (Jumped s) = s"

inductive exec :: "cmd \<Rightarrow> nat set \<Rightarrow> outcome \<Rightarrow> bool"
  and exec_branches :: "bool \<Rightarrow> branches \<Rightarrow> nat set \<Rightarrow> outcome \<Rightarrow> bool" where
  Raise: "exec p s (Jumped s)"
| Skip: "exec Skip s (Normal s)"
| Improve: "exec (Improve t) s (Normal (insert t s))"
| Unimprove: "s' - {t} = s - {t} \<Longrightarrow> exec (Unimprove t) s (Normal s')"
| Seq: "exec p s (Normal s') \<Longrightarrow> exec q s' r \<Longrightarrow> exec (Seq p q) s r"
| SeqJump: "exec p s (Jumped s') \<Longrightarrow> exec (Seq p q) s (Jumped s')"
| Block: "exec p s r \<Longrightarrow> exec (Block p) s r"
| ProtectDone: "exec (Protect p) s (Normal s)"
| ProtectAgain: "exec p s r' \<Longrightarrow> exec (Protect p) (facts r') r \<Longrightarrow> exec (Protect p) s r"
| ProtectJump: "exec p s (Jumped s') \<Longrightarrow> exec (Protect p) s (Jumped s')"
| Choose: "exec_branches covers bs s r \<Longrightarrow> exec (Choose covers bs) s r"
| NoneTaken: "exec_branches False NoBranch s (Normal s)"
| EmptyTaken: "exec_branches covers (EmptyBranch neg bs) s (Normal s)"
| EmptyNext: "set neg \<subseteq> s \<Longrightarrow> exec_branches covers bs s r \<Longrightarrow> exec_branches covers (EmptyBranch neg bs) s r"
| Taken: "set pos \<subseteq> s \<Longrightarrow> exec p s r \<Longrightarrow> exec_branches covers (Branch pos p neg bs) s r"
| Next: "set neg \<subseteq> s \<Longrightarrow> exec_branches covers bs s r \<Longrightarrow> exec_branches covers (Branch pos p neg bs) s r"

inductive_cases exec_Control: "exec Control s (Normal s')"
inductive_cases exec_Seq: "exec (Seq p q) s (Normal s')"

primrec kills :: "cmd \<Rightarrow> nat set" and kills_branches :: "branches \<Rightarrow> nat set" where
  "kills Skip = {}"
| "kills (Improve t) = {}"
| "kills (Unimprove t) = {t}"
| "kills Control = {}"
| "kills (Seq p q) = kills p \<union> kills q"
| "kills (Block p) = kills p"
| "kills (Protect p) = kills p"
| "kills (Choose covers bs) = kills_branches bs"
| "kills_branches NoBranch = {}"
| "kills_branches (EmptyBranch neg bs) = kills_branches bs"
| "kills_branches (Branch pos p neg bs) = kills p \<union> kills_branches bs"

lemma exec_keeps:
  "exec p s r \<Longrightarrow> s - kills p \<subseteq> facts r" "exec_branches covers bs s r \<Longrightarrow> s - kills_branches bs \<subseteq> facts r"
proof (induction rule: exec_exec_branches.inducts)
  case (ProtectAgain p s r' r)
  then show ?case by auto
qed auto

lemma jumps_not_normal: "jumps p \<Longrightarrow> \<not> exec p s (Normal s')"
  by (induction p arbitrary: s s') (auto elim: exec_Control exec_Seq)

section \<open>Jump contexts\<close>

text \<open>
  The discipline for jump contexts: within one, no other jump context stands inside a branch (its
  unsets would not reach the outer one).
\<close>

primrec plain :: "cmd \<Rightarrow> bool" and plain_branches :: "branches \<Rightarrow> bool" where
  "plain Skip = True"
| "plain (Improve t) = True"
| "plain (Unimprove t) = True"
| "plain Control = True"
| "plain (Seq p q) = (plain p \<and> plain q)"
| "plain (Block p) = plain p"
| "plain (Protect p) = False"
| "plain (Choose covers bs) = plain_branches bs"
| "plain_branches NoBranch = True"
| "plain_branches (EmptyBranch neg bs) = plain_branches bs"
| "plain_branches (Branch pos p neg bs) = (plain p \<and> plain_branches bs)"

primrec flat :: "cmd \<Rightarrow> bool" where
  "flat Skip = True"
| "flat (Improve t) = True"
| "flat (Unimprove t) = True"
| "flat Control = True"
| "flat (Seq p q) = (flat p \<and> flat q)"
| "flat (Block p) = flat p"
| "flat (Protect p) = flat p"
| "flat (Choose covers bs) = plain_branches bs"

primrec safe :: "cmd \<Rightarrow> bool" and safe_branches :: "branches \<Rightarrow> bool" where
  "safe Skip = True"
| "safe (Improve t) = True"
| "safe (Unimprove t) = True"
| "safe Control = True"
| "safe (Seq p q) = (safe p \<and> safe q)"
| "safe (Block p) = safe p"
| "safe (Protect p) = flat p"
| "safe (Choose covers bs) = safe_branches bs"
| "safe_branches NoBranch = True"
| "safe_branches (EmptyBranch neg bs) = safe_branches bs"
| "safe_branches (Branch pos p neg bs) = (safe p \<and> safe_branches bs)"

lemma plain_flat: "plain p \<Longrightarrow> flat p"
  by (induction p) simp_all

lemma lost_unset: "spec p f = (g, v, r) \<Longrightarrow> f - g \<subseteq> v"
proof (induction p arbitrary: f g v r rule: cmd.induct [where ?P2.0 = "\<lambda>_. True"])
  case (Seq p q)
  obtain g1 v1 r1 where 1: "spec p f = (g1, v1, r1)" by (metis prod_cases3)
  obtain g2 v2 r2 where 2: "spec q g1 = (g2, v2, r2)" by (metis prod_cases3)
  show ?case using Seq.IH(1) [OF 1] Seq.IH(2) [OF 2] Seq.prems 1 2 by auto
next
  case (Block p)
  obtain g1 v1 r1 where 1: "spec p f = (g1, v1, r1)" by (metis prod_cases3)
  show ?case using Block.IH [OF 1] Block.prems 1 by (auto simp: Let_def)
next
  case (Protect p)
  obtain g1 v1 r1 where 1: "spec p f = (g1, v1, r1)" by (metis prod_cases3)
  show ?case using Protect.IH [OF 1] Protect.prems 1 by (auto simp: Let_def)
next
  case (Choose covers bs)
  then show ?case by (auto simp: Let_def split: prod.splits)
qed auto

lemma plain_learned: "plain p \<Longrightarrow> spec p f = (g, v, r) \<Longrightarrow> v \<subseteq> r"
proof (induction p arbitrary: f g v r rule: cmd.induct [where ?P2.0 = "\<lambda>_. True"])
  case (Seq p q)
  obtain g1 v1 r1 where 1: "spec p f = (g1, v1, r1)" by (metis prod_cases3)
  obtain g2 v2 r2 where 2: "spec q g1 = (g2, v2, r2)" by (metis prod_cases3)
  show ?case using Seq.IH(1) [OF _ 1] Seq.IH(2) [OF _ 2] Seq.prems 1 2 by auto
next
  case (Block p)
  obtain g1 v1 r1 where 1: "spec p f = (g1, v1, r1)" by (metis prod_cases3)
  show ?case using Block.IH [OF _ 1] Block.prems 1 by (auto simp: Let_def)
next
  case (Choose covers bs)
  then show ?case by (auto simp: Let_def split: prod.splits)
qed auto

text \<open>What was neither unset in the context nor learned of by the jump context is killed nowhere.\<close>

lemma not_killed:
  "flat p \<Longrightarrow> spec p f = (g, v, r) \<Longrightarrow> t \<in> f \<Longrightarrow> t \<notin> v \<union> r \<Longrightarrow> t \<in> g \<and> t \<notin> kills p"
  "plain_branches bs \<Longrightarrow> spec_branches bs f0 f = (es, g, r) \<Longrightarrow> t \<in> f \<Longrightarrow> t \<notin> r \<Longrightarrow> t \<notin> kills_branches bs"
proof (induction p and bs arbitrary: f g v r and f0 f es g r)
  case (Seq p q)
  obtain g1 v1 r1 where 1: "spec p f = (g1, v1, r1)" by (metis prod_cases3)
  obtain g2 v2 r2 where 2: "spec q g1 = (g2, v2, r2)" by (metis prod_cases3)
  show ?case using Seq.IH(1) [OF _ 1] Seq.IH(2) [OF _ 2] Seq.prems 1 2 by auto
next
  case (Block p)
  obtain g1 v1 r1 where 1: "spec p f = (g1, v1, r1)" by (metis prod_cases3)
  show ?case using Block.IH [OF _ 1] Block.prems 1 by (auto simp: Let_def)
next
  case (Protect p)
  obtain g1 v1 r1 where 1: "spec p f = (g1, v1, r1)" by (metis prod_cases3)
  show ?case using Protect.IH [OF _ 1] lost_unset [OF 1] Protect.prems 1 by (auto simp: Let_def)
next
  case (Choose covers bs)
  obtain es g1 r1 where 1: "spec_branches bs f f = (es, g1, r1)" by (metis prod_cases3)
  show ?case using Choose.IH [OF _ 1] Choose.prems 1 by (auto simp: Let_def)
next
  case (EmptyBranch neg bs)
  then show ?case by (auto split: prod.splits)
next
  case (Branch pos p neg bs)
  obtain e v1 r1 where 1: "spec p (f \<union> set pos) = (e, v1, r1)" by (metis prod_cases3)
  show ?case
    using Branch.IH(1) [OF _ 1] plain_learned [OF _ 1] plain_flat [of p] Branch.IH(2) Branch.prems 1
    by (fastforce split: prod.splits)
qed auto

section \<open>Soundness\<close>

lemma spec_sound:
  "exec p s r \<Longrightarrow> r = Normal s' \<Longrightarrow> safe p \<Longrightarrow> f \<subseteq> s \<Longrightarrow> fst (spec p f) \<subseteq> s'"
  "exec_branches covers bs s r \<Longrightarrow> r = Normal s' \<Longrightarrow> safe_branches bs \<Longrightarrow> f \<subseteq> s \<Longrightarrow> g \<subseteq> s \<Longrightarrow>
     (\<exists>e \<in> set (fst (spec_branches bs f g)). e \<subseteq> s') \<or> \<not> covers \<and> f \<subseteq> s'"
proof (induction arbitrary: s' f and s' f g rule: exec_exec_branches.inducts)
  case (Seq p s s1 q r)
  have "fst (spec p f) \<subseteq> s1" using Seq by simp
  then have "fst (spec q (fst (spec p f))) \<subseteq> s'" using Seq by simp
  then show ?case by (auto split: prod.splits)
next
  case (Block p s r)
  then have "fst (spec p f) \<subseteq> s'" by simp
  then show ?case by (auto simp: Let_def split: prod.splits)
next
  case (ProtectDone p s)
  then show ?case by (auto simp: Let_def split: prod.splits)
next
  case (ProtectAgain p s r' r)
  obtain g v w where sp: "spec p f = (g, v, w)" by (metis prod_cases3)
  have "exec (Protect p) s (Normal s')"
    using exec_exec_branches.ProtectAgain [OF ProtectAgain.hyps(1,2)] ProtectAgain.prems(1) by simp
  then have "s - kills p \<subseteq> s'" using exec_keeps(1) by fastforce
  moreover have "t \<in> s - kills p" if "t \<in> fst (spec (Protect p) f)" for t
    using not_killed(1) [OF _ sp, of t] that sp ProtectAgain.prems(2,3) by (auto simp: Let_def)
  ultimately show ?case by blast
next
  case (Choose covers bs s r)
  obtain es g w where sp: "spec_branches bs f f = (es, g, w)" by (metis prod_cases3)
  have "(\<exists>e \<in> set (fst (spec_branches bs f f)). e \<subseteq> s') \<or> \<not> covers \<and> f \<subseteq> s'" using Choose by simp
  then show ?case using sp by (auto simp: merged_def Let_def)
next
  case (EmptyTaken covers neg bs s)
  then show ?case by (auto split: prod.splits)
next
  case (EmptyNext neg s covers bs r)
  have "(\<exists>e \<in> set (fst (spec_branches bs f (g \<union> set neg))). e \<subseteq> s') \<or> \<not> covers \<and> f \<subseteq> s'"
    using EmptyNext by simp
  then show ?case by (auto split: prod.splits)
next
  case (Taken pos s p r covers neg bs)
  have "fst (spec p (g \<union> set pos)) \<subseteq> s'" using Taken by simp
  moreover have "\<not> jumps p" using Taken.hyps(2) Taken.prems(1) jumps_not_normal [of p s s'] by blast
  ultimately show ?case by (auto split: prod.splits)
next
  case (Next neg s covers bs r pos p)
  have "(\<exists>e \<in> set (fst (spec_branches bs f (g \<union> set neg))). e \<subseteq> s') \<or> \<not> covers \<and> f \<subseteq> s'"
    using Next by simp
  then show ?case by (auto split: prod.splits)
qed auto

section \<open>Whole procedures\<close>

text \<open>The state before any statement list is analysed: no context, the types as declared.\<close>

definition flow_start :: "(nat \<Rightarrow> u64) \<Rightarrow> flow_state" where
  "flow_start types = \<lparr>sem_types = types, contexts = [], top_jump_context = None\<rparr>"

lemma start_ok:
  "cur_ok F (flow_push_context_normal (flow_start types))"
  "improved F (flow_push_context_normal (flow_start types)) = improved F (flow_start types)"
  by (simp_all add: flow_push_context_normal_def flow_start_def cur_ok_def top_ok_def)

lemma procedure_runs:
  assumes "wf_cmd F p"
  obtains st' h u r where "analyze F p (flow_push_context_normal (flow_start types)) = Some st'"
    "effect F (flow_push_context_normal (flow_start types)) h (jumps p) u st'"
    "spec p (improved F (flow_start types)) = (improved F st', unsets h, r)"
  using implementsE [OF analysis_implements(1) [OF assms] start_ok(1)] start_ok(2) by metis

lemma root_leaves:
  assumes "effect F (flow_push_context_normal (flow_start types)) h j u s"
  shows "\<exists>s'. flow_pop_context_normal s = Some s' \<and> contexts s' = []"
proof -
  let ?k = "fresh FLOW_CONTEXT_KIND_NORMAL"
  let ?st = "flow_push_context_normal (flow_start types)"
  have st: "contexts ?st = [?k]" "top_jump_context ?st = None"
    by (simp_all add: flow_push_context_normal_def flow_start_def)
  then have s: "contexts s = [grow h j ?k]" "top_jump_context s = None"
    using assms by (auto simp: effect_def moves_def)
  have oks: "cur_ok F s" by (rule effect_cur_ok [OF start_ok(1) assms])
  have "\<forall>i \<in> set h. good_item F i" using assms by (auto simp: effect_def)
  then obtain s' h' where s': "unset_loop h s = Some s'" "effect F s h' False (noted s h') s'"
    using unset_loop_ran [OF oks] by blast
  then have c: "contexts s' = [grow (h' @ h) j ?k]" using s by (auto simp: effect_def moves_def)
  have "effect F ?st (h' @ h) j (noted s h' @ u) s'"
    using effect_trans [OF _ assms s'(2)] by (simp add: top_ok_def st)
  then have "with_delta_sums_of_history (h' @ h) invariant_delta_sum s' = Some s'"
    by (intro valid_check [where F = F]) (auto simp: effect_def)
  then show ?thesis
    using s s'(1) c
    by (simp add: flow_pop_context_normal_def current_context_def unset_all_improvements_def move_history_to_parent_def
        pop_to_parent_def update_current_def)
qed

section \<open>Properties\<close>

text \<open>The only improvement flag in the examples.\<close>

definition notnull_flag :: "nat \<Rightarrow> u64" where
  "notnull_flag t = 0x80000000"

lemma notnull_good: "t \<noteq> 0 \<Longrightarrow> good_type notnull_flag t"
  by (simp add: good_type_def notnull_flag_def is_single_flag_def SEM_TYPE_FLAGS_def)

definition example_cmd :: cmd where
  "example_cmd =
     Choose True (Branch [] (Improve 1) [1] (Branch [] Skip [] NoBranch))"

text \<open>
  C6. The flow analysis implements its set equations, within the discipline \<open>wf_cmd\<close>: in no group of branches
  does a branch that always jumps follow one whose false condition improves something, conditions un-set
  nothing, and a group has fewer than 2 ^ 31 branches.  For the statement list of such a procedure, in
  whatever nesting of blocks, branches and jump contexts, no \<open>Contract\<close> or
  \<open>Invariant\<close> of the analysis is broken (outside the discipline one is, as shown below), the improvements afterwards are those the equations give (an
  improvement survives a group of branches when every branch that can reach its end has it, and it
  held before or the branches cover all cases), and the outermost context can be popped.
\<close>

theorem flow_implements_equations:
  assumes "wf_cmd F p"
  shows "\<exists>st'. analyze F p (flow_push_context_normal (flow_start types)) = Some st' \<and>
    improved F st' = fst (spec p (improved F (flow_start types))) \<and>
    (\<exists>st''. flow_pop_context_normal st' = Some st'' \<and> contexts st'' = [])"
  by (rule procedure_runs [OF assms, of types]) (use root_leaves in fastforce)

theorem flow_implements_equations_witness:
  "\<exists>st'. analyze notnull_flag example_cmd (flow_push_context_normal (flow_start (\<lambda>_. 0))) = Some st' \<and>
    improved notnull_flag st' = fst (spec example_cmd (improved notnull_flag (flow_start (\<lambda>_. 0)))) \<and>
    (\<exists>st''. flow_pop_context_normal st' = Some st'' \<and> contexts st'' = [])"
  by (rule flow_implements_equations) (simp add: example_cmd_def notnull_good)

text \<open>
  C1. The flow analysis is sound.  When a procedure within the discipline of branches and jumps is run
  from a state in which the declared improvements hold, then after every execution that reaches its
  end, through loops, early exits and branches, every improvement that the analysis left in the types
  holds.
\<close>

theorem flow_analysis_sound:
  assumes "wf_cmd F p" and "safe p" and "improved F (flow_start types) \<subseteq> s" and "exec p s (Normal s')"
  shows "\<exists>st'. analyze F p (flow_push_context_normal (flow_start types)) = Some st' \<and> improved F st' \<subseteq> s'"
  by (rule procedure_runs [OF assms(1), of types]) (use spec_sound(1) [OF assms(4) refl assms(2,3)] in auto)

theorem flow_analysis_sound_witness:
  "\<exists>st'. analyze notnull_flag example_cmd (flow_push_context_normal (flow_start (\<lambda>_. 0))) = Some st' \<and>
    improved notnull_flag st' \<subseteq> {1}"
proof (rule flow_analysis_sound [where s = "{}"])
  show "exec example_cmd {} (Normal {1})" unfolding example_cmd_def
    by (intro exec_exec_branches.Choose exec_exec_branches.Taken exec_exec_branches.Improve) simp
qed (simp_all add: example_cmd_def notnull_good improved_def flow_start_def)

text \<open>
  C25. A jump context is pessimistic, for bodies within the discipline \<open>wf_cmd\<close> that are \<open>flat\<close>, that is, without a
  further jump context inside their branches: after the loop or \<open>TRY\<close> block every improvement in force held before it and is unset nowhere in it.
\<close>

theorem flow_jump_pessimistic:
  assumes "wf_cmd F p" and "flat p"
  shows "\<exists>st'. analyze F (Protect p) (flow_push_context_normal (flow_start types)) = Some st' \<and>
    improved F st' \<subseteq> improved F (flow_start types) - kills p"
proof -
  let ?f = "improved F (flow_start types)"
  have "wf_cmd F (Protect p)" using assms(1) by simp
  then obtain st' h u r where st': "analyze F (Protect p) (flow_push_context_normal (flow_start types)) = Some st'"
    "spec (Protect p) ?f = (improved F st', unsets h, r)" using procedure_runs [of F "Protect p" types] by metis
  obtain g v w where sp: "spec p ?f = (g, v, w)" by (metis prod_cases3)
  have "improved F st' \<subseteq> ?f - kills p"
    using st'(2) sp not_killed(1) [OF assms(2) sp] by (auto simp: Let_def)
  then show ?thesis using st'(1) by blast
qed

theorem flow_jump_pessimistic_witness:
  "\<exists>st'. analyze notnull_flag (Protect (Seq (Unimprove 1) (Improve 1))) (flow_push_context_normal (flow_start (\<lambda>_. 0x80000000))) = Some st' \<and>
    improved notnull_flag st' \<subseteq> improved notnull_flag (flow_start (\<lambda>_. 0x80000000)) - kills (Seq (Unimprove 1) (Improve 1))"
  by (rule flow_jump_pessimistic) (simp_all add: notnull_good)

section \<open>Outside the discipline\<close>

definition elided :: "cmd \<Rightarrow> cmd" where
  "elided p = Choose True (Branch [] p [1] (Branch [] Control [] (Branch [] Skip [] NoBranch)))"

definition analyze_procedure :: "cmd \<Rightarrow> flow_state option" where
  "analyze_procedure p = analyze notnull_flag p (flow_push_context_normal (flow_start (\<lambda>_. 0)))"

text \<open>
  C33. A branch that always jumps is taken out of the branch count, but the improvements by false
  conditions that were counted for it when it was pushed stay in the sums.  In
  \<open>IF x IS NULL THEN ... ELSE IF y THEN THROW ELSE ... END IF\<close> the sum for \<open>x\<close> reaches the count of the
  remaining branches although the first branch leaves \<open>x\<close> null: the analysis ends with \<open>x\<close> inferred not
  null, and an execution ends with \<open>x\<close> null.
\<close>

theorem elided_branch_unsound:
  "map_option (\<lambda>st. sem_types st 1) (analyze_procedure (elided Skip)) = Some 0x80000000 \<and>
   exec (elided Skip) {} (Normal {})"
proof
  show "map_option (\<lambda>st. sem_types st 1) (analyze_procedure (elided Skip)) = Some 0x80000000"
    by code_simp
  show "exec (elided Skip) {} (Normal {})" unfolding elided_def
    by (intro exec_exec_branches.Choose exec_exec_branches.Taken exec_exec_branches.Skip) simp
qed

text \<open>
  When the first branch of that statement always jumps too, the sum exceeds the branch count and
  the \<open>Invariant\<close> of \<open>merge_effects\<close> that bounds it stops the compiler.
\<close>

theorem elided_branch_breaks_invariant:
  "analyze_procedure (elided Control) = None"
  by code_simp

definition nested_jump :: cmd where
  "nested_jump =
     Seq (Improve 1)
       (Protect (Choose False (Branch [] (Seq (Protect (Unimprove 1)) (Improve 1)) [] NoBranch)))"

text \<open>
  C34. An unset made directly in a jump context is not noted in the jump contexts around it, and neither
  are the unsets made when it is popped; a branch in between reverts the history that would tell.
  With an inner loop that sets \<open>x\<close> to null inside a branch of an outer loop, the analysis ends with
  \<open>x\<close> inferred not null, and an execution that leaves the outer loop early ends with \<open>x\<close> null.
\<close>

theorem nested_jump_unsound:
  "map_option (\<lambda>st. sem_types st 1) (analyze_procedure nested_jump) = Some 0x80000000 \<and>
   exec nested_jump {} (Normal {})"
proof
  show "map_option (\<lambda>st. sem_types st 1) (analyze_procedure nested_jump) = Some 0x80000000"
    by code_simp
  have "exec (Unimprove 1) {1} (Normal {})" by (rule exec_exec_branches.Unimprove) simp
  then have "exec (Protect (Unimprove 1)) {1} (Normal {})"
    using exec_exec_branches.ProtectAgain exec_exec_branches.ProtectDone by fastforce
  then have "exec (Seq (Protect (Unimprove 1)) (Improve 1)) {1} (Jumped {})"
    using exec_exec_branches.Seq exec_exec_branches.Raise by blast
  then have "exec (Choose False (Branch [] (Seq (Protect (Unimprove 1)) (Improve 1)) [] NoBranch)) {1} (Jumped {})"
    by (intro exec_exec_branches.Choose exec_exec_branches.Taken) simp
  then have "exec (Protect (Choose False (Branch [] (Seq (Protect (Unimprove 1)) (Improve 1)) [] NoBranch))) {1} (Normal {})"
    using exec_exec_branches.ProtectAgain exec_exec_branches.ProtectDone by fastforce
  then show "exec nested_jump {} (Normal {})" unfolding nested_jump_def
    using exec_exec_branches.Seq exec_exec_branches.Improve by fastforce
qed

definition group_unset :: "flow_state \<Rightarrow> flow_state option" where
  "group_unset st =
     do {
       st \<leftarrow> flow_set_flag_for_type (notnull_flag 1) 1 st;
       st \<leftarrow> flow_unset_flag_for_type (notnull_flag 1) 1 (flow_push_context_branch_group st);
       st \<leftarrow> flow_push_context_branch st;
       st \<leftarrow> flow_pop_context_branch st;
       flow_pop_context_branch_group st
     }"

text \<open>
  A condition that unsets an improvement does so in the branch group itself; the unset is counted
  for the branches, but the flag is no longer set when their effects are merged, and the \<open>Invariant\<close>
  that expects it fails.
\<close>

theorem group_unset_breaks_invariant:
  "group_unset (flow_push_context_normal (flow_start (\<lambda>_. 0))) = None"
  by code_simp

end
