(* ===== verification/Serialize.thy ===== *)
theory Serialize
  imports Bytebuf "HOL-Library.Monad_Syntax"
begin

text \<open>
  Cursor serialisation of the runtime (\<open>sources/cqlrt_common.c\<close>): bit vectors, zigzag and
  variable-length integers, \<open>cql_cursor_to_bytebuf\<close> with its inverse \<open>cql_cursor_from_bytes\<close>, and the
  blob streams.  The row of a cursor is the list of its columns, each in the storage form its type
  gives it, instead of a struct with the offsets of the columns; a double is its eight bytes.
  The model result \<open>None\<close> stands for undefined behaviour: an access outside an array, a broken
  \<open>cql_invariant\<close>, a write through a pointer into a block that was freed.
\<close>

declare bind_require [simp]

section \<open>Column types and storage\<close>

definition CQL_DATA_TYPE_INT32 :: u8 where "CQL_DATA_TYPE_INT32 = 1"
definition CQL_DATA_TYPE_INT64 :: u8 where "CQL_DATA_TYPE_INT64 = 2"
definition CQL_DATA_TYPE_DOUBLE :: u8 where "CQL_DATA_TYPE_DOUBLE = 3"
definition CQL_DATA_TYPE_BOOL :: u8 where "CQL_DATA_TYPE_BOOL = 4"
definition CQL_DATA_TYPE_STRING :: u8 where "CQL_DATA_TYPE_STRING = 5"
definition CQL_DATA_TYPE_BLOB :: u8 where "CQL_DATA_TYPE_BLOB = 6"
definition CQL_DATA_TYPE_CORE :: u8 where "CQL_DATA_TYPE_CORE = 0x3f"
definition CQL_DATA_TYPE_NOT_NULL :: u8 where "CQL_DATA_TYPE_NOT_NULL = 0x80"

definition CQL_CORE_DATA_TYPE_OF :: "u8 \<Rightarrow> u8" where
  "CQL_CORE_DATA_TYPE_OF type = type AND CQL_DATA_TYPE_CORE"

definition not_null :: "u8 \<Rightarrow> bool" where
  "not_null type \<longleftrightarrow> type AND CQL_DATA_TYPE_NOT_NULL \<noteq> 0"

text \<open>
  The storage of a column: a plain value, a nullable value with its \<open>is_null\<close> flag first, or a
  reference that may be null.
\<close>

datatype cql_slot =
  Int32 i32 | NInt32 bool i32 | Int64 i64 | NInt64 bool i64 | Double "u8 list" | NDouble bool "u8 list"
| Bool bool | NBool bool bool | Str "u8 list option" | Blob "u8 list option"

record cql_dynamic_cursor =
  cursor_has_row :: bool
  cursor_data_types :: "u8 list"
  cursor_data :: "cql_slot list"

section \<open>Writing\<close>

text \<open>
  The buffer under construction with the pointer \<open>bits\<close> into it: an offset, and whether the block it
  points into is still the buffer's block.
\<close>

record encoder =
  enc_buf :: cql_bytebuf
  bits_at :: nat
  bits_live :: bool

definition enc_append :: "encoder \<Rightarrow> u8 list \<Rightarrow> encoder" where
  "enc_append e data =
     (let n = of_nat (length data); b = enc_buf e in
      e\<lparr>enc_buf := cql_bytebuf_append b data n, bits_live := bits_live e \<and> \<not> n > cb_max b - cb_used b\<rparr>)"

definition cql_setbit :: "encoder \<Rightarrow> u16 \<Rightarrow> encoder option" where
  "cql_setbit e index =
     (if bits_live e then
        let block = block_of (cb_ptr (enc_buf e)); at = bits_at e + unat index div 8 in
        (case mem_load block at 1 of
           Some [Some byte] \<Rightarrow>
             Some (e\<lparr>enc_buf := (enc_buf e)
               \<lparr>cb_ptr := Some (mem_store block at (Some [Some (byte OR push_bit (unat index mod 8) 1)]))\<rparr>\<rparr>)
         | _ \<Rightarrow> None)
      else None)"

definition cql_zigzag_encode_32 :: "i32 \<Rightarrow> u32" where
  "cql_zigzag_encode_32 i = signed_drop_bit 31 i XOR push_bit 1 i"

definition cql_zigzag_decode_32 :: "u32 \<Rightarrow> i32" where
  "cql_zigzag_decode_32 i = drop_bit 1 i XOR - (i AND 1)"

definition cql_zigzag_encode_64 :: "i64 \<Rightarrow> u64" where
  "cql_zigzag_encode_64 i = signed_drop_bit 63 i XOR push_bit 1 i"

definition cql_zigzag_decode_64 :: "u64 \<Rightarrow> i64" where
  "cql_zigzag_decode_64 i = drop_bit 1 i XOR - (i AND 1)"

text \<open>The loop of \<open>cql_write_varint_32\<close> and \<open>cql_write_varint_64\<close>, on words of either length.\<close>

function write_varint_loop :: "encoder \<Rightarrow> 'w::len word \<Rightarrow> encoder" where
  "write_varint_loop e i =
     (let byte = ucast (i AND 0x7f);
          i' = drop_bit 7 i;
          byte = (if i' \<noteq> 0 then byte OR 0x80 else byte);
          e = enc_append e [byte]
      in if i' \<noteq> 0 then write_varint_loop e i' else e)"
  by pat_completeness auto

lemma drop_7_less: "drop_bit 7 (i :: 'w::len word) \<noteq> 0 \<Longrightarrow> unat (drop_bit 7 i) < unat i"
proof -
  assume a: "drop_bit 7 i \<noteq> 0"
  have d: "unat (drop_bit 7 i) = unat i div 128"
    unfolding unat_drop_bit_eq by (simp add: drop_bit_eq_div)
  have "unat i \<noteq> 0" using a by (intro notI) (simp add: unat_eq_zero)
  then show ?thesis unfolding d by (intro div_less_dividend) simp_all
qed

termination write_varint_loop
  by (relation "measure (\<lambda>(e, i). unat i)") (auto simp: drop_7_less)

declare write_varint_loop.simps [simp del]

definition cql_write_varint_32 :: "encoder \<Rightarrow> i32 \<Rightarrow> encoder" where
  "cql_write_varint_32 e si = write_varint_loop e (cql_zigzag_encode_32 si)"

definition cql_write_varint_64 :: "encoder \<Rightarrow> i64 \<Rightarrow> encoder" where
  "cql_write_varint_64 e si = write_varint_loop e (cql_zigzag_encode_64 si)"

definition strlen :: "u8 list \<Rightarrow> nat" where
  "strlen s = length (takeWhile (\<lambda>c. c \<noteq> 0) s)"

definition append_cstr :: "encoder \<Rightarrow> u8 list \<Rightarrow> encoder" where
  "append_cstr e s = enc_append e (take (strlen s) s @ [0])"

definition append_blob :: "encoder \<Rightarrow> u8 list \<Rightarrow> encoder" where
  "append_blob e bytes = enc_append (cql_write_varint_32 e (of_nat (length bytes))) bytes"

text \<open>The first loop of \<open>cql_cursor_to_bytebuf\<close>: the type codes and the counts.\<close>

definition type_code :: "u8 \<Rightarrow> u8" where
  "type_code type =
     (let core = CQL_CORE_DATA_TYPE_OF type in
      (if not_null type then 0 else 32) +
      (if core = CQL_DATA_TYPE_INT32 then 73
       else if core = CQL_DATA_TYPE_INT64 then 76
       else if core = CQL_DATA_TYPE_DOUBLE then 68
       else if core = CQL_DATA_TYPE_BOOL then 70
       else if core = CQL_DATA_TYPE_STRING then 83
       else if core = CQL_DATA_TYPE_BLOB then 66
       else 0))"

fun write_codes_loop :: "u8 list \<Rightarrow> encoder \<Rightarrow> u16 \<Rightarrow> u16 \<Rightarrow> (encoder \<times> u16 \<times> u16) option" where
  "write_codes_loop [] e nullable_count bool_count = Some (e, nullable_count, bool_count)"
| "write_codes_loop (type # types) e nullable_count bool_count =
     do {
       let nullable_count = (if not_null type then nullable_count else nullable_count + 1);
       let bool_count = (if CQL_CORE_DATA_TYPE_OF type = CQL_DATA_TYPE_BOOL then bool_count + 1 else bool_count);
       require (type_code type \<noteq> 0 \<and> type_code type \<noteq> 32);
       write_codes_loop types (enc_append e [type_code type]) nullable_count bool_count
     }"

text \<open>The second loop: the values, with the indices into the bit vector.\<close>

definition set_if :: "bool \<Rightarrow> u16 \<Rightarrow> encoder \<Rightarrow> encoder option" where
  "set_if b index e = (if b then cql_setbit e index else Some e)"

definition write_not_null :: "cql_slot \<Rightarrow> u16 \<Rightarrow> encoder \<Rightarrow> encoder option" where
  "write_not_null slot bool_bit e =
     (case slot of
        Int32 v \<Rightarrow> Some (cql_write_varint_32 e v)
      | Int64 v \<Rightarrow> Some (cql_write_varint_64 e v)
      | Double bs \<Rightarrow> Some (enc_append e bs)
      | Bool v \<Rightarrow> set_if v bool_bit e
      | Str (Some s) \<Rightarrow> Some (append_cstr e s)
      | Blob (Some bs) \<Rightarrow> Some (append_blob e bs)
      | _ \<Rightarrow> None)"

definition write_nullable :: "cql_slot \<Rightarrow> u16 \<Rightarrow> u16 \<Rightarrow> encoder \<Rightarrow> encoder option" where
  "write_nullable slot nullable_index bool_bit e =
     (case slot of
        NInt32 is_null v \<Rightarrow>
          if is_null then Some e
          else do { e \<leftarrow> cql_setbit e nullable_index; Some (cql_write_varint_32 e v) }
      | NInt64 is_null v \<Rightarrow>
          if is_null then Some e
          else do { e \<leftarrow> cql_setbit e nullable_index; Some (cql_write_varint_64 e v) }
      | NDouble is_null bs \<Rightarrow>
          if is_null then Some e
          else do { e \<leftarrow> cql_setbit e nullable_index; Some (enc_append e bs) }
      | NBool is_null v \<Rightarrow>
          if is_null then Some e
          else do { e \<leftarrow> cql_setbit e nullable_index; set_if v bool_bit e }
      | Str s \<Rightarrow>
          (case s of
             None \<Rightarrow> Some e
           | Some s \<Rightarrow> do { e \<leftarrow> cql_setbit e nullable_index; Some (append_cstr e s) })
      | Blob bs \<Rightarrow>
          (case bs of
             None \<Rightarrow> Some e
           | Some bs \<Rightarrow> do { e \<leftarrow> cql_setbit e nullable_index; Some (append_blob e bs) })
      | _ \<Rightarrow> None)"

text \<open>The storage form that a column of a type has.\<close>

definition stores :: "u8 \<Rightarrow> cql_slot \<Rightarrow> bool" where
  "stores type slot \<longleftrightarrow>
     (let core = CQL_CORE_DATA_TYPE_OF type in
      case slot of
        Int32 _ \<Rightarrow> core = CQL_DATA_TYPE_INT32 \<and> not_null type
      | NInt32 _ _ \<Rightarrow> core = CQL_DATA_TYPE_INT32 \<and> \<not> not_null type
      | Int64 _ \<Rightarrow> core = CQL_DATA_TYPE_INT64 \<and> not_null type
      | NInt64 _ _ \<Rightarrow> core = CQL_DATA_TYPE_INT64 \<and> \<not> not_null type
      | Double bs \<Rightarrow> core = CQL_DATA_TYPE_DOUBLE \<and> not_null type \<and> length bs = 8
      | NDouble _ bs \<Rightarrow> core = CQL_DATA_TYPE_DOUBLE \<and> \<not> not_null type \<and> length bs = 8
      | Bool _ \<Rightarrow> core = CQL_DATA_TYPE_BOOL \<and> not_null type
      | NBool _ _ \<Rightarrow> core = CQL_DATA_TYPE_BOOL \<and> \<not> not_null type
      | Str s \<Rightarrow> core = CQL_DATA_TYPE_STRING
      | Blob bs \<Rightarrow> core = CQL_DATA_TYPE_BLOB)"

fun write_fields_loop ::
  "u8 list \<Rightarrow> cql_slot list \<Rightarrow> u16 \<Rightarrow> encoder \<Rightarrow> u16 \<Rightarrow> u16 \<Rightarrow> (encoder \<times> u16) option" where
  "write_fields_loop [] slots nullable_count e nullable_index bool_index = Some (e, nullable_index)"
| "write_fields_loop (type # types) slots nullable_count e nullable_index bool_index =
     (case slots of
        [] \<Rightarrow> None
      | slot # slots \<Rightarrow>
          do {
            require (stores type slot);
            let bool_index' = (if CQL_CORE_DATA_TYPE_OF type = CQL_DATA_TYPE_BOOL then bool_index + 1 else bool_index);
            if not_null type then
              do {
                e \<leftarrow> write_not_null slot (nullable_count + bool_index) e;
                write_fields_loop types slots nullable_count e nullable_index bool_index'
              }
            else
              do {
                e \<leftarrow> write_nullable slot nullable_index (nullable_count + bool_index) e;
                write_fields_loop types slots nullable_count e (nullable_index + 1) bool_index'
              }
          })"

text \<open>\<open>cql_bytebuf_alloc\<close> and \<open>memset\<close> make the bit vector; \<open>bits\<close> points to it.\<close>

definition alloc_bits :: "encoder \<Rightarrow> nat \<Rightarrow> encoder" where
  "alloc_bits e n =
     (case cql_bytebuf_alloc (enc_buf e) (of_nat n) of
        (at, b) \<Rightarrow>
          \<lparr>enc_buf = b\<lparr>cb_ptr := Some (mem_store (block_of (cb_ptr b)) at (Some (replicate n (Some 0))))\<rparr>,
           bits_at = at, bits_live = True\<rparr>)"

definition bitvector_bytes :: "u16 \<Rightarrow> u16 \<Rightarrow> nat" where
  "bitvector_bytes nullable_count bool_count = (unat nullable_count + unat bool_count + 7) div 8"

definition cql_cursor_to_bytebuf :: "cql_dynamic_cursor \<Rightarrow> cql_bytebuf \<Rightarrow> cql_bytebuf option" where
  "cql_cursor_to_bytebuf dyn_cursor b =
     do {
       require (cursor_has_row dyn_cursor);
       let types = cursor_data_types dyn_cursor;
       let e = \<lparr>enc_buf = b, bits_at = 0, bits_live = False\<rparr>;
       (e, nullable_count, bool_count) \<leftarrow> write_codes_loop types e 0 0;
       let e = enc_append e [0];
       let e = alloc_bits e (bitvector_bytes nullable_count bool_count);
       (e, nullable_index) \<leftarrow> write_fields_loop types (cursor_data dyn_cursor) nullable_count e 0 0;
       require (nullable_index = nullable_count);
       Some (enc_buf e)
     }"

text \<open>The results of the \<open>cql_code\<close> type that the functions return.\<close>

datatype cql_code = SQLITE_OK | SQLITE_ERROR

definition cql_cursor_to_blob :: "cql_dynamic_cursor \<Rightarrow> u8 list option \<Rightarrow> (cql_code \<times> u8 list option) option" where
  "cql_cursor_to_blob dyn_cursor blob =
     (if \<not> cursor_has_row dyn_cursor then Some (SQLITE_ERROR, blob)
      else do {
        b \<leftarrow> cql_cursor_to_bytebuf dyn_cursor cql_bytebuf_open;
        Some (SQLITE_OK, Some (cql_bytebuf_contents b))
      })"

section \<open>Reading\<close>

text \<open>
  An input buffer is the list of the bytes that remain; a read that returns false gives \<open>None\<close>.
\<close>

definition cql_getbit :: "u8 list \<Rightarrow> u16 \<Rightarrow> bool option" where
  "cql_getbit bytes index =
     (if unat index div 8 < length bytes
      then Some (bytes ! (unat index div 8) AND push_bit (unat index mod 8) 1 \<noteq> 0) else None)"

type_synonym cql_input_buf = "u8 list"

definition cql_input_read :: "cql_input_buf \<Rightarrow> nat \<Rightarrow> (u8 list \<times> cql_input_buf) option" where
  "cql_input_read buf bytes = (if bytes > length buf then None else Some (take bytes buf, drop bytes buf))"

definition cql_input_inline_str :: "cql_input_buf \<Rightarrow> (u8 list \<times> cql_input_buf) option" where
  "cql_input_inline_str buf =
     (if 0 \<in> set buf then let bytes = strlen buf + 1 in Some (take (strlen buf) buf, drop bytes buf) else None)"

definition cql_input_inline_bytes :: "cql_input_buf \<Rightarrow> nat \<Rightarrow> (u8 list \<times> cql_input_buf) option" where
  "cql_input_inline_bytes buf bytes =
     (if bytes \<le> length buf then Some (take bytes buf, drop bytes buf) else None)"

text \<open>
  The loop of \<open>cql_read_varint_32\<close> (at most 5 bytes) and \<open>cql_read_varint_64\<close> (at most 10): \<open>k\<close> is the
  number of bytes it may still read.
\<close>

fun read_varint_loop :: "nat \<Rightarrow> cql_input_buf \<Rightarrow> 'w::len word \<Rightarrow> nat \<Rightarrow> ('w word \<times> cql_input_buf) option" where
  "read_varint_loop 0 buf result offset = None"
| "read_varint_loop (Suc k) [] result offset = None"
| "read_varint_loop (Suc k) (byte # buf) result offset =
     (let result = result OR push_bit offset (ucast (byte AND 0x7f)) in
      if byte AND 0x80 = 0 then Some (result, buf) else read_varint_loop k buf result (offset + 7))"

definition cql_read_varint_32 :: "cql_input_buf \<Rightarrow> (i32 \<times> cql_input_buf) option" where
  "cql_read_varint_32 buf = map_option (\<lambda>(r, buf). (cql_zigzag_decode_32 r, buf)) (read_varint_loop 5 buf 0 0)"

definition cql_read_varint_64 :: "cql_input_buf \<Rightarrow> (i64 \<times> cql_input_buf) option" where
  "cql_read_varint_64 buf = map_option (\<lambda>(r, buf). (cql_zigzag_decode_64 r, buf)) (read_varint_loop 10 buf 0 0)"

text \<open>Releasing the references of a row leaves null references.\<close>

definition clear_reference :: "cql_slot \<Rightarrow> cql_slot" where
  "clear_reference slot = (case slot of Str _ \<Rightarrow> Str None | Blob _ \<Rightarrow> Blob None | _ \<Rightarrow> slot)"

definition cql_clear_references_before_deserialization :: "cql_dynamic_cursor \<Rightarrow> cql_dynamic_cursor" where
  "cql_clear_references_before_deserialization c = c\<lparr>cursor_data := map clear_reference (cursor_data c)\<rparr>"

text \<open>
  The loop over the type codes.  Its result \<open>Inr\<close> has the rest of the input with the counts and the
  index of the next column type; \<open>Inl ()\<close> is the jump to \<open>error\<close>.
\<close>

record code_counts =
  nullable_count :: u16
  bool_count :: u16
  actual_count :: u16
  type_index :: u16

definition nullable_code :: "u8 \<Rightarrow> bool" where
  "nullable_code code \<longleftrightarrow> 97 \<le> code \<and> code \<le> 122"

definition code_matches :: "u8 \<Rightarrow> u8 \<Rightarrow> bool" where
  "code_matches type code \<longleftrightarrow>
     (let core = CQL_CORE_DATA_TYPE_OF type;
          code = (if nullable_code code then code - 32 else code)
      in if core = CQL_DATA_TYPE_INT32 then code = 73
         else if core = CQL_DATA_TYPE_INT64 then code = 76
         else if core = CQL_DATA_TYPE_DOUBLE then code = 68
         else if core = CQL_DATA_TYPE_BOOL then code = 70
         else if core = CQL_DATA_TYPE_STRING then code = 83
         else if core = CQL_DATA_TYPE_BLOB then code = 66
         else False)"

fun read_codes_loop ::
  "u8 list \<Rightarrow> u16 \<Rightarrow> cql_input_buf \<Rightarrow> code_counts \<Rightarrow> (unit + cql_input_buf \<times> code_counts) option" where
  "read_codes_loop types needed_count [] n = Some (Inl ())"
| "read_codes_loop types needed_count (code # input) n =
     (if code = 0 then Some (Inr (input, n))
      else
        let n = n\<lparr>nullable_count := nullable_count n + (if nullable_code code then 1 else 0),
                  actual_count := actual_count n + 1,
                  bool_count := bool_count n + (if code = 102 \<or> code = 70 then 1 else 0)\<rparr>
        in if actual_count n \<le> needed_count then
             (let i = unat (type_index n) in
              if i < length types then
                if not_null (types ! i) \<and> nullable_code code then Some (Inl ())
                else if \<not> code_matches (types ! i) code then Some (Inl ())
                else read_codes_loop types needed_count input (n\<lparr>type_index := type_index n + 1\<rparr>)
              else None)
           else read_codes_loop types needed_count input n)"

text \<open>
  The loop over the columns.  \<open>present\<close> is what a nullable column holds once its flag is cleared and
  before its value is read, \<open>missing\<close> what a column without data gets.
\<close>

definition present :: "cql_slot \<Rightarrow> cql_slot" where
  "present slot =
     (case slot of NInt32 _ v \<Rightarrow> NInt32 False v | NInt64 _ v \<Rightarrow> NInt64 False v | NDouble _ v \<Rightarrow> NDouble False v
      | NBool _ v \<Rightarrow> NBool False v | _ \<Rightarrow> slot)"

definition missing :: "u8 \<Rightarrow> cql_slot \<Rightarrow> cql_slot" where
  "missing type slot =
     (let core = CQL_CORE_DATA_TYPE_OF type in
      if core = CQL_DATA_TYPE_INT32 then NInt32 True 0
      else if core = CQL_DATA_TYPE_INT64 then NInt64 True 0
      else if core = CQL_DATA_TYPE_DOUBLE then NDouble True (replicate 8 0)
      else if core = CQL_DATA_TYPE_BOOL then NBool True False
      else if core = CQL_DATA_TYPE_STRING then Str None
      else if core = CQL_DATA_TYPE_BLOB then Blob None
      else slot)"

text \<open>Reading the value of one column: the slot afterwards and the rest of the input, \<open>None\<close> on an error.\<close>

definition read_field ::
  "u8 \<Rightarrow> cql_slot \<Rightarrow> bool option \<Rightarrow> cql_input_buf \<Rightarrow> (cql_slot \<times> cql_input_buf option) option" where
  "read_field type slot bool_bit input =
     (let core = CQL_CORE_DATA_TYPE_OF type; notnull = not_null type in
      if core = CQL_DATA_TYPE_INT32 then
        Some (case cql_read_varint_32 input of
           Some (v, input) \<Rightarrow> ((if notnull then Int32 v else NInt32 False v), Some input)
         | None \<Rightarrow> (present slot, None))
      else if core = CQL_DATA_TYPE_INT64 then
        Some (case cql_read_varint_64 input of
           Some (v, input) \<Rightarrow> ((if notnull then Int64 v else NInt64 False v), Some input)
         | None \<Rightarrow> (present slot, None))
      else if core = CQL_DATA_TYPE_DOUBLE then
        Some (case cql_input_read input 8 of
           Some (v, input) \<Rightarrow> ((if notnull then Double v else NDouble False v), Some input)
         | None \<Rightarrow> (present slot, None))
      else if core = CQL_DATA_TYPE_BOOL then
        (case bool_bit of
           Some v \<Rightarrow> Some ((if notnull then Bool v else NBool False v), Some input)
         | None \<Rightarrow> None)
      else if core = CQL_DATA_TYPE_STRING then
        Some (case cql_input_inline_str input of
           Some (v, input) \<Rightarrow> (Str (Some v), Some input)
         | None \<Rightarrow> (slot, None))
      else if core = CQL_DATA_TYPE_BLOB then
        Some (case cql_read_varint_32 input of
           Some (byte_count, input) \<Rightarrow>
             (case cql_input_inline_bytes input (unat byte_count) of
                Some (v, input) \<Rightarrow> (Blob (Some v), Some input)
              | None \<Rightarrow> (slot, None))
         | None \<Rightarrow> (slot, None))
      else Some (slot, Some input))"

definition notnull_code :: "u8 \<Rightarrow> bool" where
  "notnull_code code \<longleftrightarrow> 65 \<le> code \<and> code \<le> 90"

fun read_fields_loop ::
  "u8 list \<Rightarrow> u8 list \<Rightarrow> code_counts \<Rightarrow> nat \<Rightarrow> u8 list \<Rightarrow> cql_slot list \<Rightarrow> cql_input_buf \<Rightarrow> u16 \<Rightarrow> u16 \<Rightarrow>
     (bool \<times> cql_slot list) option" where
  "read_fields_loop bytes bits n i [] slots input nullable_index bool_index = Some (True, slots)"
| "read_fields_loop bytes bits n i (type # types) [] input nullable_index bool_index = None"
| "read_fields_loop bytes bits n i (type # types) (slot # slots) input nullable_index bool_index =
     do {
       (fetch_data, nullable_index) \<leftarrow>
         (if i \<ge> unat (actual_count n) then Some (False, nullable_index)
          else if i < length bytes then
            if notnull_code (bytes ! i) then Some (True, nullable_index)
            else do { b \<leftarrow> cql_getbit bits nullable_index; Some (b, nullable_index + 1) }
          else None);
       let bool_index' = (if CQL_CORE_DATA_TYPE_OF type = CQL_DATA_TYPE_BOOL then bool_index + 1 else bool_index);
       if fetch_data then
         do {
           (slot, input') \<leftarrow> read_field type slot (cql_getbit bits (nullable_count n + bool_index)) input;
           (case input' of
              None \<Rightarrow> Some (False, slot # slots)
            | Some input \<Rightarrow>
                map_option (\<lambda>(ok, slots). (ok, slot # slots))
                  (read_fields_loop bytes bits n (Suc i) types slots input nullable_index bool_index'))
         }
       else
         map_option (\<lambda>(ok, slots). (ok, missing type slot # slots))
           (read_fields_loop bytes bits n (Suc i) types slots input nullable_index bool_index')
     }"

definition decode_failed :: "cql_dynamic_cursor \<Rightarrow> cql_code \<times> cql_dynamic_cursor" where
  "decode_failed c = (SQLITE_ERROR, cql_clear_references_before_deserialization (c\<lparr>cursor_has_row := False\<rparr>))"

definition cql_cursor_from_bytes :: "cql_dynamic_cursor \<Rightarrow> u8 list \<Rightarrow> (cql_code \<times> cql_dynamic_cursor) option" where
  "cql_cursor_from_bytes dyn_cursor bytes =
     (let c = cql_clear_references_before_deserialization (dyn_cursor\<lparr>cursor_has_row := False\<rparr>);
          types = cursor_data_types dyn_cursor;
          needed_count = of_nat (length types)
      in do {
        codes \<leftarrow> read_codes_loop types needed_count bytes
                   \<lparr>nullable_count = 0, bool_count = 0, actual_count = 0, type_index = 0\<rparr>;
        (case codes of
           Inl _ \<Rightarrow> Some (decode_failed c)
         | Inr (input, n) \<Rightarrow>
             if \<exists>type \<in> set (drop (unat (type_index n)) types). not_null type then Some (decode_failed c)
             else (case cql_input_inline_bytes input (bitvector_bytes (nullable_count n) (bool_count n)) of
                 None \<Rightarrow> Some (decode_failed c)
               | Some (bits, input) \<Rightarrow>
                   do {
                     (ok, slots) \<leftarrow> read_fields_loop bytes bits n 0 types (cursor_data c) input 0 0;
                     Some (if ok then (SQLITE_OK, c\<lparr>cursor_data := slots, cursor_has_row := True\<rparr>)
                           else decode_failed (c\<lparr>cursor_data := slots\<rparr>))
                   }))
      })"

definition cql_cursor_from_blob ::
  "cql_dynamic_cursor \<Rightarrow> u8 list option \<Rightarrow> (cql_code \<times> cql_dynamic_cursor) option" where
  "cql_cursor_from_blob dyn_cursor b =
     (case b of
        None \<Rightarrow> Some (decode_failed dyn_cursor)
      | Some bytes \<Rightarrow> cql_cursor_from_bytes dyn_cursor bytes)"

section \<open>Blob streams\<close>

text \<open>A 32-bit integer in memory, lowest byte first.\<close>

definition bytes_of_u32 :: "u32 \<Rightarrow> u8 list" where
  "bytes_of_u32 w = [ucast w, ucast (drop_bit 8 w), ucast (drop_bit 16 w), ucast (drop_bit 24 w)]"

definition load_u32 :: "u8 list \<Rightarrow> nat \<Rightarrow> u32 option" where
  "load_u32 bytes at =
     (if at + 4 \<le> length bytes then
        Some (ucast (bytes ! at) OR push_bit 8 (ucast (bytes ! (at + 1))) OR
              push_bit 16 (ucast (bytes ! (at + 2))) OR push_bit 24 (ucast (bytes ! (at + 3))))
      else None)"

definition append_value_u32 :: "cql_bytebuf \<Rightarrow> u32 \<Rightarrow> cql_bytebuf" where
  "append_value_u32 b w = cql_bytebuf_append b (bytes_of_u32 w) 4"

fun stream_offsets_loop :: "u8 list list \<Rightarrow> i32 \<Rightarrow> cql_bytebuf \<Rightarrow> cql_bytebuf" where
  "stream_offsets_loop [] offset_next b = b"
| "stream_offsets_loop (blob # blobs) offset_next b =
     (let offset_next = offset_next + of_nat (length blob)
      in stream_offsets_loop blobs offset_next (append_value_u32 b offset_next))"

fun stream_blobs_loop :: "u8 list list \<Rightarrow> cql_bytebuf \<Rightarrow> cql_bytebuf" where
  "stream_blobs_loop [] b = b"
| "stream_blobs_loop (blob # blobs) b =
     stream_blobs_loop blobs (cql_bytebuf_append b blob (of_nat (length blob)))"

definition cql_make_blob_stream :: "u8 list list \<Rightarrow> u8 list" where
  "cql_make_blob_stream blob_list =
     (let count = of_nat (length blob_list);
          b = append_value_u32 cql_bytebuf_open count;
          b = stream_offsets_loop blob_list ((1 + count) * 4) b;
          b = stream_blobs_loop blob_list b
      in cql_bytebuf_contents b)"

definition cql_blob_stream_count :: "u8 list \<Rightarrow> i32 option" where
  "cql_blob_stream_count b = (if length b \<ge> 4 then load_u32 b 0 else Some 0)"

text \<open>
  The size of a blob is at most \<open>2 ^ 31 - 1\<close>.  The product with the index is computed in \<open>int\<close>, where an
  overflow is undefined, and compared as an unsigned number.
\<close>

definition cql_cursor_from_blob_stream ::
  "cql_dynamic_cursor \<Rightarrow> u8 list \<Rightarrow> i32 \<Rightarrow> (cql_code \<times> cql_dynamic_cursor) option" where
  "cql_cursor_from_blob_stream dyn_cursor b index =
     (let len = of_nat (length b) :: u32 in
      if len < 4 then Some (decode_failed dyn_cursor)
      else do {
        count \<leftarrow> load_u32 b 0;
        if sint index < 0 \<or> index \<ge> count then Some (decode_failed dyn_cursor)
        else do {
          require ((sint index + 2) * 4 < 2 ^ 31);
          if (index + 2) * 4 > len then Some (decode_failed dyn_cursor)
          else do {
            end_at \<leftarrow> load_u32 b (unat ((index + 1) * 4));
            if end_at > len then Some (decode_failed dyn_cursor)
            else do {
              start \<leftarrow> (if sint index > 0 then load_u32 b (unat (index * 4)) else Some ((count + 1) * 4));
              if start > end_at then Some (decode_failed dyn_cursor)
              else cql_cursor_from_bytes dyn_cursor (take (unat (end_at - start)) (drop (unat start) b))
            }
          }
        }
      })"

end
