(* ===== verification/Varint.thy ===== *)
theory Varint
  imports Serialize
begin

text \<open>
  Zigzag and variable-length integers: the encodings are inverse to each other, and a written
  integer takes at most 5 or 10 bytes, which is what the readers accept.
\<close>

section \<open>Zigzag\<close>

lemma minus_low_bit: "- ((x :: 'w::len word) AND 1) = (if bit x 0 then - 1 else 0)"
  by (simp add: and_one_eq mod2_eq_if bit_0)

lemma zigzag_inverse:
  fixes i :: "'w::len word"
  assumes "L = LENGTH('w)" and "1 < L"
  shows "drop_bit 1 (signed_drop_bit (L - 1) i XOR push_bit 1 i) XOR
    - ((signed_drop_bit (L - 1) i XOR push_bit 1 i) AND 1) = i"
proof (rule bit_word_eqI)
  fix n assume n: "n < LENGTH('w)"
  let ?z = "signed_drop_bit (L - 1) i XOR push_bit 1 i"
  have sign: "bit (signed_drop_bit (L - 1) i) k \<longleftrightarrow> bit i (L - 1)" if "k < L" for k
    using that assms by (cases k) (auto simp: bit_signed_drop_bit_iff)
  have low: "bit ?z 0 \<longleftrightarrow> bit i (L - 1)"
    using sign [of 0] assms unfolding bit_xor_iff bit_push_bit_iff by simp
  have up: "bit (drop_bit 1 ?z) n \<longleftrightarrow> Suc n < L \<and> (bit i (L - 1) \<noteq> bit i n)"
  proof -
    have d: "bit (drop_bit 1 ?z) n = bit ?z (Suc n)" by (simp only: bit_drop_bit_eq comp_def plus_1_eq_Suc)
    have "bit ?z (Suc n) \<longleftrightarrow> (bit i (L - 1) \<noteq> bit i n)" if "Suc n < L"
      unfolding bit_xor_iff sign [OF that] bit_push_bit_iff using that assms by simp
    moreover have "\<not> bit ?z (Suc n)" if "\<not> Suc n < L" using that assms(1) bit_imp_le_length by blast
    ultimately show ?thesis unfolding d by blast
  qed
  show "bit (drop_bit 1 ?z XOR - (?z AND 1)) n \<longleftrightarrow> bit i n"
  proof (cases "Suc n < L")
    case True
    then show ?thesis using low up n assms by (auto simp: minus_low_bit bit_xor_iff)
  next
    case False
    then have "n = L - 1" using n assms by simp
    then show ?thesis using False low up n assms by (auto simp: minus_low_bit bit_xor_iff)
  qed
qed

lemma zigzag_32 [simp]: "cql_zigzag_decode_32 (cql_zigzag_encode_32 i) = i"
  using zigzag_inverse [of 32 i] by (simp add: cql_zigzag_decode_32_def cql_zigzag_encode_32_def)

lemma zigzag_64 [simp]: "cql_zigzag_decode_64 (cql_zigzag_encode_64 i) = i"
  using zigzag_inverse [of 64 i] by (simp add: cql_zigzag_decode_64_def cql_zigzag_encode_64_def)

section \<open>Variable-length integers\<close>

text \<open>The bytes that the writing loop appends.\<close>

function varint_bytes :: "'w::len word \<Rightarrow> u8 list" where
  "varint_bytes i =
     (if drop_bit 7 i \<noteq> 0 then (ucast (i AND 0x7f) OR 0x80) # varint_bytes (drop_bit 7 i) else [ucast (i AND 0x7f)])"
  by pat_completeness auto
termination
  by (relation "measure unat") (auto simp: drop_7_less)

declare varint_bytes.simps [simp del]

lemma bit_7f: "bit (0x7f :: 'w::len word) n \<longleftrightarrow> n < 7 \<and> n < LENGTH('w)"
proof -
  have "(0x7f :: 'w word) = mask 7" by (simp add: mask_eq_exp_minus_1)
  then show ?thesis by (simp only: bit_mask_iff) auto
qed

lemma bit_80: "bit (0x80 :: u8) n \<longleftrightarrow> n = 7"
proof -
  have "(0x80 :: u8) = push_bit 7 1" by simp
  then show ?thesis by (simp only: bit_push_bit_iff) (auto simp: bit_1_iff)
qed

lemma varint_byte:
  fixes i :: "'w::len word"
  defines "b \<equiv> ucast (i AND 0x7f) :: u8"
  shows "ucast ((b OR 0x80) AND 0x7f) = i AND 0x7f" "ucast (b AND 0x7f) = i AND 0x7f"
    "(b OR 0x80) AND 0x80 \<noteq> 0" "b AND 0x80 = 0"
proof -
  show "ucast ((b OR 0x80) AND 0x7f) = i AND 0x7f" "ucast (b AND 0x7f) = i AND 0x7f"
    by (rule bit_word_eqI; simp only: b_def bit_and_iff bit_or_iff bit_ucast_iff bit_7f bit_80; auto)+
  have "bit ((b OR 0x80) AND 0x80) 7" by (simp only: bit_and_iff bit_or_iff bit_80) simp
  then show "(b OR 0x80) AND 0x80 \<noteq> 0" by (metis bit_0_eq bot_apply bot_bool_def)
  show "b AND 0x80 = 0" by (rule bit_word_eqI; simp only: b_def bit_and_iff bit_ucast_iff bit_7f bit_80; auto)
qed

lemma varint_split:
  "push_bit k (i AND 0x7f) OR push_bit (k + 7) (drop_bit 7 i) = push_bit k (i :: 'w::len word)"
proof (rule bit_word_eqI)
  fix n assume n: "n < LENGTH('w)"
  show "bit (push_bit k (i AND 0x7f) OR push_bit (k + 7) (drop_bit 7 i)) n = bit (push_bit k i) n"
  proof (cases "k + 7 \<le> n")
    case True
    then have "7 + (n - (k + 7)) = n - k" by simp
    then show ?thesis using n True
      by (simp only: bit_or_iff bit_push_bit_iff bit_and_iff bit_drop_bit_eq bit_7f comp_def) auto
  next
    case False
    then show ?thesis
      using n by (simp only: bit_or_iff bit_push_bit_iff bit_and_iff bit_drop_bit_eq bit_7f comp_def) auto
  qed
qed

lemma read_varint_written:
  "length (varint_bytes i) \<le> k \<Longrightarrow>
     read_varint_loop k (varint_bytes i @ rest) result offset = Some (result OR push_bit offset i, rest)"
proof (induction i arbitrary: k result offset rule: varint_bytes.induct)
  case (1 i)
  show ?case
  proof (cases "drop_bit 7 i \<noteq> 0")
    case True
    then have eq: "varint_bytes i = (ucast (i AND 0x7f) OR 0x80) # varint_bytes (drop_bit 7 i)"
      by (simp add: varint_bytes.simps [of i])
    then obtain k' where k: "k = Suc k'" "length (varint_bytes (drop_bit 7 i)) \<le> k'" using 1(2) by (cases k) auto
    show ?thesis
      using 1(1) [OF True k(2)] varint_split [of offset i] unfolding eq k(1)
      by (simp add: varint_byte Let_def or.assoc)
  next
    case False
    then have eq: "varint_bytes i = [ucast (i AND 0x7f)]" by (simp add: varint_bytes.simps [of i])
    then obtain k' where k: "k = Suc k'" using 1(2) by (cases k) auto
    have "push_bit offset (i AND 0x7f) = push_bit offset i" using varint_split [of offset i] False by simp
    then show ?thesis unfolding eq k by (simp add: varint_byte Let_def)
  qed
qed

lemma varint_length: "unat i < 2 ^ (7 * Suc k) \<Longrightarrow> length (varint_bytes i) \<le> Suc k"
proof (induction k arbitrary: i)
  case 0
  then have "unat (drop_bit 7 i) = 0" unfolding unat_drop_bit_eq by (simp add: drop_bit_eq_div)
  then have "drop_bit 7 i = 0" by (simp add: unat_eq_zero)
  then show ?case by (simp add: varint_bytes.simps [of i])
next
  case (Suc k)
  have "unat (drop_bit 7 i) < 2 ^ (7 * Suc k)"
    using Suc.prems unfolding unat_drop_bit_eq by (simp add: drop_bit_eq_div less_mult_imp_div_less power_add mult.commute)
  then show ?case using Suc.IH by (simp add: varint_bytes.simps [of i])
qed

lemma varint_length_32: "length (varint_bytes (i :: u32)) \<le> 5"
proof -
  have "unat i < 2 ^ 32" using unat_u32_bound .
  also have "\<dots> \<le> 2 ^ (7 * Suc 4)" by simp
  finally show ?thesis using varint_length [of i 4] by simp
qed

lemma varint_length_64: "length (varint_bytes (i :: u64)) \<le> 10"
proof -
  have "unat i < 2 ^ 64" using unsigned_less [of i] by simp
  also have "\<dots> \<le> 2 ^ (7 * Suc 9)" by simp
  finally show ?thesis using varint_length [of i 9] by simp
qed

lemma read_varint_32: "cql_read_varint_32 (varint_bytes (cql_zigzag_encode_32 v) @ rest) = Some (v, rest)"
  using read_varint_written [OF varint_length_32, of "cql_zigzag_encode_32 v" rest 0 0]
  by (simp add: cql_read_varint_32_def)

lemma read_varint_64: "cql_read_varint_64 (varint_bytes (cql_zigzag_encode_64 v) @ rest) = Some (v, rest)"
  using read_varint_written [OF varint_length_64, of "cql_zigzag_encode_64 v" rest 0 0]
  by (simp add: cql_read_varint_64_def)

end
