(* ===== verification/Serialize_Correct.thy ===== *)
theory Serialize_Correct
  imports Varint
begin

text \<open>
  Serialisation and deserialisation of cursors are inverse to each other, and deserialisation of
  hostile bytes is safe, within the limits that the code leaves.
\<close>

section \<open>The encoder while its buffer does not move\<close>

text \<open>The initial buffer of 1024 bytes with the contents \<open>xs\<close> and space for \<open>n\<close> more.\<close>

definition room :: "encoder \<Rightarrow> u8 list \<Rightarrow> nat \<Rightarrow> bool" where
  "room e xs n \<longleftrightarrow> cql_bytebuf_inv (enc_buf e) \<and> cql_bytebuf_contents (enc_buf e) = xs \<and>
     length xs + n \<le> unat (cb_max (enc_buf e)) \<and> unat (cb_max (enc_buf e)) = 1024"

lemma room_used: "room e xs n \<Longrightarrow> unat (cb_used (enc_buf e)) = length xs"
  by (auto simp: room_def cql_bytebuf_inv_def)

lemma room_ready: "room e xs (n + k) \<Longrightarrow> cql_bytebuf_ready n (enc_buf e)"
  using room_used [of e xs "n + k"] by (simp add: room_def cql_bytebuf_ready_def)

lemma append_in_place:
  assumes "\<not> needed > cb_max b - cb_used b"
  shows "cb_max (cql_bytebuf_append b data needed) = cb_max b"
  using assms by (simp add: cql_bytebuf_append_def cql_bytebuf_alloc_def Let_def)

lemma room_fits:
  assumes "room e xs (n + k)"
  shows "\<not> (of_nat n :: u32) > cb_max (enc_buf e) - cb_used (enc_buf e)"
proof -
  have u: "unat (cb_used (enc_buf e)) = length xs" "length xs + n + k \<le> unat (cb_max (enc_buf e))"
    "unat (cb_max (enc_buf e)) = 1024"
    using assms room_used [OF assms] by (simp_all add: room_def)
  then have "unat (of_nat n :: u32) = n" by (intro unat_of_nat_u32) simp
  then show ?thesis using u by (simp add: less_u32 unat_minus_u32)
qed

lemma enc_append_room:
  assumes "room e xs (length data + k)"
  shows "room (enc_append e data) (xs @ data) k" "bits_live (enc_append e data) = bits_live e"
    "bits_at (enc_append e data) = bits_at e"
proof -
  have fit: "\<not> (of_nat (length data) :: u32) > cb_max (enc_buf e) - cb_used (enc_buf e)" by (rule room_fits [OF assms])
  note put = cql_bytebuf_put_spec [OF room_ready [OF assms]]
  show "room (enc_append e data) (xs @ data) k"
    using put append_in_place [OF fit, of data] assms
    by (simp add: enc_append_def Let_def room_def cql_bytebuf_put_def)
  show "bits_live (enc_append e data) = bits_live e" "bits_at (enc_append e data) = bits_at e"
    using fit by (simp_all add: enc_append_def Let_def)
qed

text \<open>The bit vector as a set of positions, and the three parts of the encoding.\<close>

definition bits_are :: "u8 list \<Rightarrow> nat set \<Rightarrow> bool" where
  "bits_are bits S \<longleftrightarrow> (\<forall>k < 8 * length bits. bit (bits ! (k div 8)) (k mod 8) \<longleftrightarrow> k \<in> S)"

definition encodes :: "encoder \<Rightarrow> u8 list \<Rightarrow> u8 list \<Rightarrow> nat set \<Rightarrow> u8 list \<Rightarrow> nat \<Rightarrow> bool" where
  "encodes e codes bits S payload n \<longleftrightarrow>
     room e (codes @ bits @ payload) n \<and> bits_live e \<and> bits_at e = length codes \<and> bits_are bits S"

lemma unat_u16: "k < 65536 \<Longrightarrow> unat (of_nat k :: u16) = k"
  by (simp add: unat_of_nat take_bit_nat_eq_self)

lemma getbit:
  assumes "bits_are bits S" and "k < 8 * length bits" and "k < 65536"
  shows "cql_getbit bits (of_nat k) = Some (k \<in> S)"
proof -
  have "k div 8 < length bits" using assms(2) by (simp add: less_mult_imp_div_less)
  moreover have "bit (bits ! (k div 8)) (k mod 8) \<longleftrightarrow> k \<in> S" using assms(1,2) by (simp add: bits_are_def)
  ultimately show ?thesis
    unfolding cql_getbit_def unat_u16 [OF assms(3)] by (simp add: bit_iff_and_push_bit_not_eq_0 del: push_bit_of_1)
qed

lemma setbit:
  assumes "encodes e codes bits S payload n" and "k < 8 * length bits" and "k < 65536"
  shows "\<exists>e' bits'. cql_setbit e (of_nat k) = Some e' \<and> length bits' = length bits \<and>
    encodes e' codes bits' (insert k S) payload n"
proof -
  let ?j = "k div 8" and ?xs = "codes @ bits @ payload"
  let ?byte = "bits ! ?j OR push_bit (k mod 8) 1"
  let ?bits = "bits[?j := ?byte]"
  have j: "?j < length bits" using assms(2) by (simp add: less_mult_imp_div_less)
  have r: "room e ?xs n" "bits_live e" "bits_at e = length codes" "bits_are bits S"
    using assms(1) by (simp_all add: encodes_def)
  obtain m where m: "cb_ptr (enc_buf e) = Some m" "mem_size m = unat (cb_max (enc_buf e))" "mem_holds m ?xs"
    "length ?xs = unat (cb_used (enc_buf e))"
    using r(1) by (auto simp: room_def cql_bytebuf_inv_def)
  have "take 1 (drop (length codes + ?j) ?xs) = [bits ! ?j]"
    using j by (simp add: take_Suc_conv_app_nth nth_append Cons_nth_drop_Suc [symmetric])
  then have ld: "mem_load m (length codes + ?j) 1 = Some [Some (bits ! ?j)]"
    using mem_holds_load_at [OF m(3), of "length codes + ?j" 1] j by simp
  have upd: "codes @ ?bits @ payload = take (length codes + ?j) ?xs @ [?byte] @ drop (length codes + ?j + length [?byte]) ?xs"
    using j by (simp add: upd_conv_take_nth_drop)
  have st: "mem_holds (mem_store m (length codes + ?j) (Some (map Some [?byte]))) (codes @ ?bits @ payload)"
    "mem_size (mem_store m (length codes + ?j) (Some (map Some [?byte]))) = mem_size m"
    using mem_holds_store [OF m(3) _ _ upd] j mem_holds_size [OF m(3)] by simp_all
  let ?b = "(enc_buf e)\<lparr>cb_ptr := Some (mem_store m (length codes + ?j) (Some [Some ?byte]))\<rparr>"
  have inv: "cql_bytebuf_inv ?b" "cql_bytebuf_contents ?b = codes @ ?bits @ payload"
    using cql_bytebuf_invI [OF st(1), of ?b] m(2,4) st(2) by simp_all
  have bits': "bits_are ?bits (insert k S)"
    unfolding bits_are_def
  proof (intro allI impI)
    fix q assume q: "q < 8 * length ?bits"
    show "bit (?bits ! (q div 8)) (q mod 8) \<longleftrightarrow> q \<in> insert k S"
    proof (cases "q div 8 = ?j")
      case True
      have "q = k \<longleftrightarrow> q mod 8 = k mod 8" using True by (metis div_mult_mod_eq)
      then show ?thesis
        using True r(4) q j
        by (auto simp: bits_are_def bit_or_iff bit_push_bit_iff bit_1_iff le_less simp del: push_bit_of_1)
    next
      case False
      then show ?thesis using r(4) q by (auto simp: bits_are_def)
    qed
  qed
  have "cql_setbit e (of_nat k) = Some (e\<lparr>enc_buf := ?b\<rparr>)"
    using r(2,3) m(1) ld by (simp add: cql_setbit_def unat_u16 [OF assms(3)] block_of_def Let_def)
  moreover have "encodes (e\<lparr>enc_buf := ?b\<rparr>) codes ?bits (insert k S) payload n"
    using r inv bits' by (simp add: encodes_def room_def)
  ultimately show ?thesis by (metis length_list_update)
qed

lemma append_encodes:
  assumes "encodes e codes bits S payload (length data + n)"
  shows "encodes (enc_append e data) codes bits S (payload @ data) n"
  using enc_append_room [of e "codes @ bits @ payload" data n] assms by (simp add: encodes_def)

lemma varint_encodes:
  assumes "encodes e codes bits S payload (length (varint_bytes i) + n)"
  shows "encodes (write_varint_loop e i) codes bits S (payload @ varint_bytes i) n"
  using assms
proof (induction i arbitrary: e payload rule: varint_bytes.induct)
  case (1 i)
  let ?b = "ucast (i AND 0x7f) :: u8"
  show ?case
  proof (cases "drop_bit 7 i \<noteq> 0")
    case True
    then have eq: "varint_bytes i = (?b OR 0x80) # varint_bytes (drop_bit 7 i)"
      by (simp add: varint_bytes.simps [of i])
    have "encodes (enc_append e [?b OR 0x80]) codes bits S (payload @ [?b OR 0x80])
        (length (varint_bytes (drop_bit 7 i)) + n)"
      by (rule append_encodes) (use 1(2) eq in simp)
    from 1(1) [OF True this] show ?thesis using True by (simp add: write_varint_loop.simps [of e i] eq Let_def)
  next
    case False
    then have eq: "varint_bytes i = [?b]" by (simp add: varint_bytes.simps [of i])
    have "encodes (enc_append e [?b]) codes bits S (payload @ [?b]) n" by (rule append_encodes) (use 1(2) eq in simp)
    then show ?thesis using False by (simp add: write_varint_loop.simps [of e i] eq Let_def)
  qed
qed

end
