(* ===== verification/Serialize_Rows.thy ===== *)
theory Serialize_Rows
  imports Serialize_Correct
begin

text \<open>
  The encoding of a row as a list of bytes and a set of bits, that the writing loops produce it and
  that the reading loops recover the row from it, also in a cursor with other columns.
\<close>

section \<open>Types and codes\<close>

definition valid_type :: "u8 \<Rightarrow> bool" where
  "valid_type t \<longleftrightarrow> CQL_CORE_DATA_TYPE_OF t \<in> {1, 2, 3, 4, 5, 6}"

definition is_bool :: "u8 \<Rightarrow> bool" where
  "is_bool t \<longleftrightarrow> CQL_CORE_DATA_TYPE_OF t = CQL_DATA_TYPE_BOOL"

definition nulls :: "u8 list \<Rightarrow> nat" where
  "nulls ts = length (filter (\<lambda>t. \<not> not_null t) ts)"

definition bools :: "u8 list \<Rightarrow> nat" where
  "bools ts = length (filter is_bool ts)"

lemmas core_defs = CQL_DATA_TYPE_INT32_def CQL_DATA_TYPE_INT64_def CQL_DATA_TYPE_DOUBLE_def
  CQL_DATA_TYPE_BOOL_def CQL_DATA_TYPE_STRING_def CQL_DATA_TYPE_BLOB_def

lemma counts_simps [simp]:
  "nulls [] = 0" "nulls (t # ts) = (if not_null t then nulls ts else Suc (nulls ts))"
  "bools [] = 0" "bools (t # ts) = (if is_bool t then Suc (bools ts) else bools ts)"
  by (simp_all add: nulls_def bools_def)

lemma counts_le: "nulls ts \<le> length ts" "bools ts \<le> length ts"
  by (simp_all add: nulls_def bools_def)

lemma code_facts:
  assumes "valid_type t"
  shows "type_code t \<noteq> 0" "type_code t \<noteq> 32"
    "nullable_code (type_code t) \<longleftrightarrow> \<not> not_null t" "notnull_code (type_code t) \<longleftrightarrow> not_null t"
    "(type_code t = 102 \<or> type_code t = 70) \<longleftrightarrow> is_bool t"
  using assms
  by (auto simp: valid_type_def type_code_def core_defs Let_def nullable_code_def notnull_code_def is_bool_def)

lemma code_matches_code:
  assumes "valid_type w" and "CQL_CORE_DATA_TYPE_OF t = CQL_CORE_DATA_TYPE_OF w"
  shows "code_matches t (type_code w)"
  using assms
  by (auto simp: valid_type_def type_code_def core_defs Let_def nullable_code_def code_matches_def)

section \<open>The encoding of a column\<close>

definition field_payload :: "cql_slot \<Rightarrow> u8 list" where
  "field_payload s =
     (case s of
        Int32 v \<Rightarrow> varint_bytes (cql_zigzag_encode_32 v)
      | NInt32 is_null v \<Rightarrow> if is_null then [] else varint_bytes (cql_zigzag_encode_32 v)
      | Int64 v \<Rightarrow> varint_bytes (cql_zigzag_encode_64 v)
      | NInt64 is_null v \<Rightarrow> if is_null then [] else varint_bytes (cql_zigzag_encode_64 v)
      | Double bs \<Rightarrow> bs
      | NDouble is_null bs \<Rightarrow> if is_null then [] else bs
      | Str (Some s) \<Rightarrow> s @ [0]
      | Blob (Some bs) \<Rightarrow> varint_bytes (cql_zigzag_encode_32 (of_nat (length bs))) @ bs
      | _ \<Rightarrow> [])"

definition has_value :: "cql_slot \<Rightarrow> bool" where
  "has_value s =
     (case s of
        NInt32 is_null v \<Rightarrow> \<not> is_null | NInt64 is_null v \<Rightarrow> \<not> is_null | NDouble is_null v \<Rightarrow> \<not> is_null
      | NBool is_null v \<Rightarrow> \<not> is_null | Str s \<Rightarrow> s \<noteq> None | Blob b \<Rightarrow> b \<noteq> None | _ \<Rightarrow> True)"

definition bool_value :: "cql_slot \<Rightarrow> bool" where
  "bool_value s = (case s of Bool v \<Rightarrow> v | NBool is_null v \<Rightarrow> \<not> is_null \<and> v | _ \<Rightarrow> False)"

text \<open>
  A column that the generated code stores: of its type, references of not null columns present,
  no NUL inside a string, the value of a null column cleared.
\<close>

definition field_ok :: "u8 \<Rightarrow> cql_slot \<Rightarrow> bool" where
  "field_ok t s \<longleftrightarrow> stores t s \<and> (not_null t \<longrightarrow> has_value s) \<and>
     (case s of
        NInt32 is_null v \<Rightarrow> is_null \<longrightarrow> v = 0
      | NInt64 is_null v \<Rightarrow> is_null \<longrightarrow> v = 0
      | NDouble is_null bs \<Rightarrow> is_null \<longrightarrow> bs = replicate 8 0
      | NBool is_null v \<Rightarrow> is_null \<longrightarrow> \<not> v
      | Str (Some s) \<Rightarrow> 0 \<notin> set s
      | Blob (Some bs) \<Rightarrow> length bs < 2 ^ 31
      | _ \<Rightarrow> True)"

lemma field_ok_valid: "field_ok t s \<Longrightarrow> valid_type t"
  by (auto simp: field_ok_def stores_def valid_type_def core_defs Let_def split: cql_slot.splits)

lemma field_ok_bool: "field_ok t s \<Longrightarrow> bool_value s \<Longrightarrow> is_bool t"
  by (auto simp: field_ok_def stores_def is_bool_def bool_value_def Let_def split: cql_slot.splits)

definition field_bits :: "u8 \<Rightarrow> cql_slot \<Rightarrow> nat \<Rightarrow> nat \<Rightarrow> nat \<Rightarrow> nat set" where
  "field_bits t s nc ni bi =
     (if \<not> not_null t \<and> has_value s then {ni} else {}) \<union> (if bool_value s then {nc + bi} else {})"

fun row_bits :: "u8 list \<Rightarrow> cql_slot list \<Rightarrow> nat \<Rightarrow> nat \<Rightarrow> nat \<Rightarrow> nat set" where
  "row_bits (t # ts) (s # ss) nc ni bi =
     field_bits t s nc ni bi \<union>
     row_bits ts ss nc (if not_null t then ni else Suc ni) (if is_bool t then Suc bi else bi)"
| "row_bits _ _ nc ni bi = {}"

definition payload :: "cql_slot list \<Rightarrow> u8 list" where
  "payload ss = concat (map field_payload ss)"

lemma payload_simps [simp]: "payload [] = []" "payload (s # ss) = field_payload s @ payload ss"
  by (simp_all add: payload_def)

section \<open>Writing\<close>

lemma alloc_bits_encodes:
  assumes "room e xs (n + k)"
  shows "encodes (alloc_bits e n) xs (replicate n 0) {} [] k"
proof -
  have n: "n < 2 ^ 30" using assms by (simp add: room_def)
  then have cnt: "unat (of_nat n :: u32) = n" by (intro unat_of_nat_u32) simp
  have r: "cql_bytebuf_ready (length (replicate n (0 :: u8))) (enc_buf e)" using room_ready [OF assms] by simp
  obtain off b1 where al: "cql_bytebuf_alloc (enc_buf e) (of_nat n) = (off, b1)"
    by (cases "cql_bytebuf_alloc (enc_buf e) (of_nat n)")
  have fit: "\<not> (of_nat n :: u32) > cb_max (enc_buf e) - cb_used (enc_buf e)" by (rule room_fits [OF assms])
  have off: "off = length xs" using al fit room_used [OF assms] by (auto simp: cql_bytebuf_alloc_def Let_def)
  have "enc_buf (alloc_bits e n) = cql_bytebuf_put (enc_buf e) (replicate n 0)"
    using al cnt by (simp add: alloc_bits_def cql_bytebuf_put_def cql_bytebuf_append_def)
  moreover have "cb_max (cql_bytebuf_put (enc_buf e) (replicate n 0)) = cb_max (enc_buf e)"
    unfolding cql_bytebuf_put_def by (rule append_in_place) (use fit in simp)
  moreover have "bits_at (alloc_bits e n) = off" "bits_live (alloc_bits e n)" using al by (simp_all add: alloc_bits_def)
  moreover have "bits_are (replicate n 0) {}" by (auto simp: bits_are_def less_mult_imp_div_less)
  ultimately show ?thesis
    using cql_bytebuf_put_spec [OF r] assms off by (simp add: encodes_def room_def)
qed

lemma write_codes:
  assumes "list_all valid_type ts" and "room e xs (length ts + n)"
  shows "\<exists>e'. write_codes_loop ts e (of_nat a) (of_nat b) = Some (e', of_nat (a + nulls ts), of_nat (b + bools ts)) \<and>
    room e' (xs @ map type_code ts) n"
  using assms
proof (induction ts arbitrary: e xs a b)
  case (Cons t ts)
  have v: "valid_type t" "list_all valid_type ts" using Cons.prems(1) by simp_all
  have "room (enc_append e [type_code t]) (xs @ [type_code t]) (length ts + n)"
    by (rule enc_append_room) (use Cons.prems(2) in simp)
  from Cons.IH [OF v(2) this, of "if not_null t then a else Suc a" "if is_bool t then Suc b else b"]
  show ?case using code_facts(1,2) [OF v(1)] by (auto simp: is_bool_def add.commute)
qed simp

lemma strlen_all: "0 \<notin> set s \<Longrightarrow> strlen s = length s"
  unfolding strlen_def by (subst takeWhile_eq_all_conv [THEN iffD2]) auto

lemma append_cstr_encodes:
  assumes "encodes e codes bits S p (length s + 1 + n)" and "0 \<notin> set s"
  shows "encodes (append_cstr e s) codes bits S (p @ s @ [0]) n"
  using append_encodes [of e codes bits S p "s @ [0]" n] assms by (simp add: append_cstr_def strlen_all)

lemma append_blob_encodes:
  assumes "encodes e codes bits S p (length (varint_bytes (cql_zigzag_encode_32 (of_nat (length bs)))) + (length bs + n))"
  shows "encodes (append_blob e bs) codes bits S (p @ varint_bytes (cql_zigzag_encode_32 (of_nat (length bs))) @ bs) n"
  using append_encodes [OF varint_encodes [OF assms]] by (simp add: append_blob_def cql_write_varint_32_def)

lemma set_if_encodes:
  assumes "encodes e codes bits S p n" and "b \<Longrightarrow> k < 8 * length bits" and "k < 65536"
  shows "\<exists>e' bits'. set_if b (of_nat k) e = Some e' \<and> length bits' = length bits \<and>
    encodes e' codes bits' (S \<union> (if b then {k} else {})) p n"
  using setbit [OF assms(1) _ assms(3)] assms by (cases b) (auto simp: set_if_def)

lemma write_not_null_encodes:
  assumes "field_ok t s" and "not_null t" and "encodes e codes bits S p (length (field_payload s) + n)"
    and "is_bool t \<Longrightarrow> nc + bi < 8 * length bits" and "nc + bi < 65536"
  shows "\<exists>e' bits'. write_not_null s (of_nat (nc + bi)) e = Some e' \<and> length bits' = length bits \<and>
    encodes e' codes bits' (S \<union> field_bits t s nc ni bi) (p @ field_payload s) n"
proof (cases s)
  case (Int32 v)
  then show ?thesis
    using assms(3) varint_encodes [of e codes bits S p "cql_zigzag_encode_32 v" n] assms(2)
    by (auto simp: write_not_null_def field_payload_def field_bits_def bool_value_def cql_write_varint_32_def)
next
  case (Int64 v)
  then show ?thesis
    using assms(3) varint_encodes [of e codes bits S p "cql_zigzag_encode_64 v" n] assms(2)
    by (auto simp: write_not_null_def field_payload_def field_bits_def bool_value_def cql_write_varint_64_def)
next
  case (Double bs)
  then show ?thesis
    using assms(2,3) append_encodes [of e codes bits S p bs n]
    by (auto simp: write_not_null_def field_payload_def field_bits_def bool_value_def)
next
  case (Bool v)
  then show ?thesis
    using assms set_if_encodes [of e codes bits S p n v "nc + bi"] field_ok_bool [OF assms(1)]
    by (simp add: write_not_null_def field_payload_def field_bits_def bool_value_def)
next
  case (Str x)
  then obtain c where "x = Some c" "0 \<notin> set c" using assms(1,2) by (auto simp: field_ok_def has_value_def)
  then show ?thesis
    using Str assms(1-3) append_cstr_encodes [of e codes bits S p c n]
    by (auto simp: write_not_null_def field_payload_def field_bits_def bool_value_def)
next
  case (Blob x)
  then obtain c where "x = Some c" using assms(1,2) by (auto simp: field_ok_def has_value_def)
  then show ?thesis
    using Blob assms(1-3) append_blob_encodes [of e codes bits S p c n]
    by (auto simp: write_not_null_def field_payload_def field_bits_def bool_value_def add.assoc)
qed (use assms(1,2) in \<open>simp_all add: field_ok_def stores_def Let_def\<close>)

lemma write_nullable_encodes:
  assumes "field_ok t s" and "\<not> not_null t" and "encodes e codes bits S p (length (field_payload s) + n)"
    and "is_bool t \<Longrightarrow> nc + bi < 8 * length bits" and "nc + bi < 65536" and "ni < 8 * length bits" and "ni < 65536"
  shows "\<exists>e' bits'. write_nullable s (of_nat ni) (of_nat (nc + bi)) e = Some e' \<and> length bits' = length bits \<and>
    encodes e' codes bits' (S \<union> field_bits t s nc ni bi) (p @ field_payload s) n"
proof (cases "has_value s")
  case False
  then show ?thesis
    using assms(1-3)
    by (cases s)
      (auto simp: has_value_def write_nullable_def field_payload_def field_bits_def bool_value_def field_ok_def
        stores_def Let_def)
next
  case True
  obtain e1 bits1 where e1: "cql_setbit e (of_nat ni) = Some e1" "length bits1 = length bits"
    "encodes e1 codes bits1 (insert ni S) p (length (field_payload s) + n)"
    using setbit [OF assms(3,6,7)] by auto
  show ?thesis
  proof (cases s)
    case (NBool is_null v)
    then show ?thesis
      using True e1 assms set_if_encodes [of e1 codes bits1 "insert ni S" p n v "nc + bi"] field_ok_bool [OF assms(1)]
      by (simp add: write_nullable_def field_payload_def field_bits_def bool_value_def has_value_def)
  next
    case (Str x)
    then obtain c where "x = Some c" "0 \<notin> set c" using assms(1) True by (auto simp: field_ok_def has_value_def)
    then show ?thesis
      using Str e1 assms(1,2) append_cstr_encodes [of e1 codes bits1 "insert ni S" p c n]
      by (auto simp: write_nullable_def field_payload_def field_bits_def bool_value_def has_value_def)
  next
    case (Blob x)
    then obtain c where "x = Some c" using True by (auto simp: has_value_def)
    then show ?thesis
      using Blob e1 assms(1,2) append_blob_encodes [of e1 codes bits1 "insert ni S" p c n]
      by (auto simp: write_nullable_def field_payload_def field_bits_def bool_value_def has_value_def add.assoc)
  qed (use True e1 assms(1,2) varint_encodes [of e1 codes bits1 "insert ni S" p _ n] append_encodes in
      \<open>auto simp: field_ok_def stores_def Let_def write_nullable_def field_payload_def field_bits_def bool_value_def
        has_value_def cql_write_varint_32_def cql_write_varint_64_def\<close>)
qed

lemma write_row:
  assumes "list_all2 field_ok ts ss" and "encodes e codes bits S p (length (payload ss) + n)"
    and "ni + nulls ts \<le> nc" and "nc + bi + bools ts \<le> 8 * length bits" and "nc + bi + bools ts < 65536"
  shows "\<exists>e' bits'. write_fields_loop ts ss (of_nat nc) e (of_nat ni) (of_nat bi) = Some (e', of_nat (ni + nulls ts)) \<and>
    length bits' = length bits \<and> encodes e' codes bits' (S \<union> row_bits ts ss nc ni bi) (p @ payload ss) n"
  using assms
proof (induction ts ss arbitrary: e bits S p ni bi rule: list_all2_induct)
  case (Cons t ts s ss)
  have ok: "stores t s" using Cons.hyps(1) by (simp add: field_ok_def)
  let ?ni = "if not_null t then ni else Suc ni" and ?bi = "if is_bool t then Suc bi else bi"
  have enc: "encodes e codes bits S p (length (field_payload s) + (length (payload ss) + n))"
    using Cons.prems(1) by (simp add: add.assoc)
  have lim: "is_bool t \<Longrightarrow> nc + bi < 8 * length bits" "nc + bi < 65536"
    "\<not> not_null t \<Longrightarrow> ni < 8 * length bits" "\<not> not_null t \<Longrightarrow> ni < 65536"
    using Cons.prems by (auto split: if_splits)
  obtain e1 bits1 where e1: "length bits1 = length bits"
    "encodes e1 codes bits1 (S \<union> field_bits t s nc ni bi) (p @ field_payload s) (length (payload ss) + n)"
    "not_null t \<Longrightarrow> write_not_null s (of_nat (nc + bi)) e = Some e1"
    "\<not> not_null t \<Longrightarrow> write_nullable s (of_nat ni) (of_nat (nc + bi)) e = Some e1"
    using write_not_null_encodes [OF Cons.hyps(1) _ enc lim(1,2)]
      write_nullable_encodes [OF Cons.hyps(1) _ enc lim(1,2)] lim(3,4) by (cases "not_null t") blast+
  have "?ni + nulls ts \<le> nc" "nc + ?bi + bools ts \<le> 8 * length bits1" "nc + ?bi + bools ts < 65536"
    using Cons.prems e1(1) by (auto split: if_splits)
  from Cons.IH [OF e1(2) this] show ?case
    using ok e1 by (auto simp: is_bool_def Un_assoc add.commute)
qed auto

end
