(* ===== verification/Serialize_Read.thy ===== *)
theory Serialize_Read
  imports Serialize_Rows
begin

text \<open>
  The reading loops on an encoded row.  The cursor that is read into may have other columns than the
  one that was written: \<open>compatible\<close> says which, \<open>upgrade\<close> is the row it gets.
\<close>

section \<open>Cursors of another version\<close>

definition widen :: "u8 \<Rightarrow> cql_slot \<Rightarrow> cql_slot" where
  "widen t s =
     (if not_null t then s
      else case s of
        Int32 v \<Rightarrow> NInt32 False v | Int64 v \<Rightarrow> NInt64 False v | Double v \<Rightarrow> NDouble False v | Bool v \<Rightarrow> NBool False v
      | _ \<Rightarrow> s)"

text \<open>What a column holds that the encoding does not have.\<close>

definition null_slot :: "u8 \<Rightarrow> cql_slot" where
  "null_slot t = missing t (Blob None)"

text \<open>
  Reader types against writer types: the same core types in the same order, a not null column may
  become nullable, further columns of the reader are nullable, further columns of the writer are
  ignored.
\<close>

fun compatible :: "u8 list \<Rightarrow> u8 list \<Rightarrow> bool" where
  "compatible [] ws \<longleftrightarrow> True"
| "compatible (t # ts) [] \<longleftrightarrow> valid_type t \<and> \<not> not_null t \<and> compatible ts []"
| "compatible (t # ts) (w # ws) \<longleftrightarrow>
     CQL_CORE_DATA_TYPE_OF t = CQL_CORE_DATA_TYPE_OF w \<and> (not_null t \<longrightarrow> not_null w) \<and> compatible ts ws"

fun upgrade :: "u8 list \<Rightarrow> cql_slot list \<Rightarrow> cql_slot list" where
  "upgrade [] ss = []"
| "upgrade (t # ts) [] = null_slot t # upgrade ts []"
| "upgrade (t # ts) (s # ss) = widen t s # upgrade ts ss"

lemma compatible_refl: "compatible ts ts"
  by (induction ts) auto

lemma widen_same: "stores t s \<Longrightarrow> widen t s = s"
  by (auto simp: widen_def stores_def Let_def split: cql_slot.splits)

lemma upgrade_same: "list_all2 field_ok ts ss \<Longrightarrow> upgrade ts ss = ss"
  by (induction rule: list_all2_induct) (auto simp: widen_same field_ok_def)

lemma compatible_rest: "compatible ts ws \<Longrightarrow> t \<in> set (drop (min (length ws) (length ts)) ts) \<Longrightarrow> \<not> not_null t"
  by (induction ts ws rule: compatible.induct) auto

lemma missing_valid: "valid_type t \<Longrightarrow> missing t s = null_slot t"
  by (auto simp: null_slot_def missing_def valid_type_def core_defs Let_def)

section \<open>The type codes\<close>

lemma compatible_drop:
  "compatible (drop c ts) (w # ws) \<Longrightarrow> compatible (drop (Suc c) ts) ws"
  "compatible (drop c ts) (w # ws) \<Longrightarrow> c < length ts \<Longrightarrow>
     CQL_CORE_DATA_TYPE_OF (ts ! c) = CQL_CORE_DATA_TYPE_OF w \<and> (not_null (ts ! c) \<longrightarrow> not_null w)"
  by (cases "c < length ts"; simp add: Cons_nth_drop_Suc [symmetric])+

lemma read_codes:
  assumes "compatible (drop c ts) ws" and "list_all valid_type ws" and "c + length ws < 65536" and "length ts < 65536"
  shows "read_codes_loop ts (of_nat (length ts)) (map type_code ws @ 0 # rest)
      \<lparr>nullable_count = of_nat a, bool_count = of_nat b, actual_count = of_nat c, type_index = of_nat (min c (length ts))\<rparr> =
    Some (Inr (rest, \<lparr>nullable_count = of_nat (a + nulls ws), bool_count = of_nat (b + bools ws),
      actual_count = of_nat (c + length ws), type_index = of_nat (min (c + length ws) (length ts))\<rparr>))"
  using assms
proof (induction ws arbitrary: a b c)
  case (Cons w ws)
  have v: "valid_type w" "list_all valid_type ws" using Cons.prems(2) by simp_all
  note codes = code_facts [OF v(1)]
  let ?a = "if not_null w then a else Suc a" and ?b = "if is_bool w then Suc b else b"
  have le: "(of_nat c + 1 :: u16) \<le> of_nat (length ts) \<longleftrightarrow> c < length ts"
    using unat_u16 [of "Suc c"] unat_u16 [of "length ts"] Cons.prems by (simp add: word_le_nat_alt add.commute Suc_le_eq)
  have idx: "unat (of_nat (min c (length ts)) :: u16) = min c (length ts)"
    using Cons.prems by (intro unat_u16) simp
  have IH: "read_codes_loop ts (of_nat (length ts)) (map type_code ws @ 0 # rest)
      \<lparr>nullable_count = of_nat ?a, bool_count = of_nat ?b, actual_count = of_nat (Suc c),
       type_index = of_nat (min (Suc c) (length ts))\<rparr> =
    Some (Inr (rest, \<lparr>nullable_count = of_nat (?a + nulls ws), bool_count = of_nat (?b + bools ws),
      actual_count = of_nat (Suc c + length ws), type_index = of_nat (min (Suc c + length ws) (length ts))\<rparr>))"
    by (rule Cons.IH) (use Cons.prems v compatible_drop(1) in simp_all)
  show ?case
  proof (cases "c < length ts")
    case True
    then have m: "CQL_CORE_DATA_TYPE_OF (ts ! c) = CQL_CORE_DATA_TYPE_OF w" "not_null (ts ! c) \<longrightarrow> not_null w"
      using compatible_drop(2) [OF Cons.prems(1)] by simp_all
    have "min (Suc c) (length ts) = Suc c" "min c (length ts) = c" using True by simp_all
    then show ?thesis
      using IH True m le idx codes code_matches_code [OF v(1) m(1)]
      by (simp add: Let_def add.commute add.assoc split del: if_split) (auto split: if_splits simp: ac_simps)
  next
    case False
    then have "min (Suc c) (length ts) = min c (length ts)" by simp
    then show ?thesis
      using IH False le codes
      by (simp add: Let_def add.commute add.assoc split del: if_split) (auto split: if_splits simp: ac_simps)
  qed
qed simp

section \<open>The columns\<close>

lemma read_cstr:
  assumes "0 \<notin> set c"
  shows "cql_input_inline_str (c @ 0 # rest) = Some (c, rest)"
proof -
  have "takeWhile (\<lambda>x. x \<noteq> 0) (c @ 0 # rest) = c" using assms by (subst takeWhile_append2) auto
  then have "strlen (c @ 0 # rest) = length c" by (simp add: strlen_def)
  then show ?thesis by (simp add: cql_input_inline_str_def)
qed

lemma read_field_written:
  assumes "field_ok w s" and "has_value s" and "CQL_CORE_DATA_TYPE_OF t = CQL_CORE_DATA_TYPE_OF w"
    and "not_null t \<Longrightarrow> not_null w" and "is_bool t \<Longrightarrow> bb = Some (bool_value s)"
  shows "read_field t s0 bb (field_payload s @ rest) = Some (widen t s, Some rest)"
proof (cases s)
  case (Str x)
  then obtain c where "x = Some c" "0 \<notin> set c" using assms(1,2) by (auto simp: field_ok_def has_value_def)
  then show ?thesis
    using Str assms(1,3) read_cstr
    by (simp add: read_field_def field_payload_def widen_def field_ok_def stores_def core_defs Let_def)
next
  case (Blob x)
  then obtain c where c: "x = Some c" "length c < 2 ^ 31" using assms(1,2) by (auto simp: field_ok_def has_value_def)
  then have "unat (of_nat (length c) :: u32) = length c" by (intro unat_of_nat_u32) simp
  then show ?thesis
    using Blob c assms(1,3)
    by (simp add: read_field_def field_payload_def widen_def field_ok_def stores_def core_defs Let_def read_varint_32
        cql_input_inline_bytes_def)
next
  case (Double bs)
  then have "length bs = 8" using assms(1) by (simp add: field_ok_def stores_def Let_def)
  then show ?thesis
    using Double assms
    by (simp add: read_field_def field_payload_def widen_def field_ok_def stores_def core_defs Let_def cql_input_read_def)
next
  case (NDouble is_null bs)
  then have "length bs = 8" using assms(1) by (simp add: field_ok_def stores_def Let_def)
  then show ?thesis
    using NDouble assms
    by (auto simp: read_field_def field_payload_def widen_def field_ok_def stores_def core_defs Let_def cql_input_read_def
        has_value_def)
qed (use assms in \<open>auto simp: read_field_def field_payload_def widen_def field_ok_def stores_def core_defs Let_def
    has_value_def is_bool_def bool_value_def read_varint_32 read_varint_64\<close>)

lemma missing_null:
  assumes "field_ok w s" and "\<not> has_value s" and "CQL_CORE_DATA_TYPE_OF t = CQL_CORE_DATA_TYPE_OF w" and "\<not> not_null t"
  shows "missing t s0 = widen t s" "field_payload s = []"
  using assms
  by (cases s; auto simp: missing_def widen_def field_ok_def stores_def core_defs Let_def has_value_def field_payload_def)+

fun agree :: "nat set \<Rightarrow> u8 list \<Rightarrow> cql_slot list \<Rightarrow> nat \<Rightarrow> nat \<Rightarrow> nat \<Rightarrow> bool" where
  "agree S (w # ws) (s # ss) nc ni bi \<longleftrightarrow>
     (\<not> not_null w \<longrightarrow> (ni \<in> S \<longleftrightarrow> has_value s)) \<and> (is_bool w \<longrightarrow> (nc + bi \<in> S \<longleftrightarrow> bool_value s)) \<and>
     agree S ws ss nc (if not_null w then ni else Suc ni) (if is_bool w then Suc bi else bi)"
| "agree S _ _ nc ni bi \<longleftrightarrow> True"

lemma row_bits_range:
  assumes "list_all2 field_ok ws ss" and "ni + nulls ws \<le> nc" and "k \<in> row_bits ws ss nc ni bi"
  shows "ni \<le> k \<and> k < nc \<or> nc + bi \<le> k"
  using assms
proof (induction ws ss arbitrary: ni bi rule: list_all2_induct)
  case (Cons w ws s ss)
  let ?ni = "if not_null w then ni else Suc ni" and ?bi = "if is_bool w then Suc bi else bi"
  have "?ni + nulls ws \<le> nc" using Cons.prems(1) by (auto split: if_splits)
  note IH = Cons.IH [OF this, of ?bi]
  consider "k \<in> field_bits w s nc ni bi" | "k \<in> row_bits ws ss nc ?ni ?bi" using Cons.prems(2) by auto
  then show ?case
  proof cases
    case 1
    then show ?thesis using Cons.prems(1) by (auto simp: field_bits_def split: if_splits)
  next
    case 2
    then show ?thesis using IH by (auto split: if_splits)
  qed
qed simp

lemma row_bits_agree:
  assumes "list_all2 field_ok ws ss" and "ni + nulls ws \<le> nc"
    and "\<And>k. k \<in> A \<Longrightarrow> k < ni \<or> nc \<le> k \<and> k < nc + bi"
  shows "agree (A \<union> row_bits ws ss nc ni bi) ws ss nc ni bi"
  using assms
proof (induction ws ss arbitrary: A ni bi rule: list_all2_induct)
  case (Cons w ws s ss)
  let ?ni = "if not_null w then ni else Suc ni" and ?bi = "if is_bool w then Suc bi else bi"
  let ?A = "A \<union> field_bits w s nc ni bi"
  have le: "?ni + nulls ws \<le> nc" using Cons.prems(1) by (auto split: if_splits)
  note range = row_bits_range [OF Cons.hyps(2) le, of _ ?bi]
  have A: "k < ?ni \<or> nc \<le> k \<and> k < nc + ?bi" if "k \<in> ?A" for k
    using that Cons.prems field_ok_bool [OF Cons.hyps(1)] by (fastforce simp: field_bits_def split: if_splits)
  have rest: "agree (?A \<union> row_bits ws ss nc ?ni ?bi) ws ss nc ?ni ?bi" by (rule Cons.IH [OF le A])
  have null: "ni \<in> ?A \<union> row_bits ws ss nc ?ni ?bi \<longleftrightarrow> has_value s" if "\<not> not_null w"
  proof -
    have "ni < nc" "ni \<notin> A" using Cons.prems(1) Cons.prems(2) [of ni] that by auto
    moreover have "ni \<notin> row_bits ws ss nc ?ni ?bi" using range [of ni] that \<open>ni < nc\<close> by auto
    ultimately show ?thesis using that by (auto simp: field_bits_def)
  qed
  have bool: "nc + bi \<in> ?A \<union> row_bits ws ss nc ?ni ?bi \<longleftrightarrow> bool_value s" if "is_bool w"
  proof -
    have "nc + bi \<notin> A" using Cons.prems(1) Cons.prems(2) [of "nc + bi"] by auto
    moreover have "nc + bi \<notin> row_bits ws ss nc ?ni ?bi" using range [of "nc + bi"] that by auto
    moreover have "\<not> not_null w \<Longrightarrow> nc + bi \<noteq> ni" using Cons.prems(1) by auto
    ultimately show ?thesis by (auto simp: field_bits_def)
  qed
  show ?case using rest null bool by (simp add: Un_assoc)
qed simp

lemma read_added:
  assumes "compatible ts []" and "length s0 = length ts" and "unat (actual_count n) \<le> i"
  shows "read_fields_loop bytes bits n i ts s0 input ni bi = Some (True, upgrade ts [])"
  using assms
proof (induction ts arbitrary: s0 i bi)
  case (Cons t ts)
  then obtain x xs where "s0 = x # xs" by (cases s0) auto
  then show ?case using Cons by (auto simp: missing_valid)
qed simp

lemma read_step:
  assumes "\<not> unat (actual_count n) \<le> i" and "i < length bytes"
    and "(if notnull_code (bytes ! i) then Some (True, ni)
      else Option.bind (cql_getbit bits ni) (\<lambda>b. Some (b, ni + 1))) = Some (fetch, ni')"
    and "bi' = (if is_bool t then bi + 1 else bi)"
    and "read_fields_loop bytes bits n (Suc i) ts xs input' ni' bi' = Some (True, slots)"
    and "if fetch then read_field t x (cql_getbit bits (nullable_count n + bi)) input = Some (slot, Some input')
      else slot = missing t x \<and> input' = input"
  shows "read_fields_loop bytes bits n i (t # ts) (x # xs) input ni bi = Some (True, slot # slots)"
  using assms by (cases fetch) (simp_all add: is_bool_def)

lemma read_row:
  assumes "list_all2 field_ok ws ss" and "compatible ts ws" and "length s0 = length ts"
    and "drop i bytes = map type_code ws @ 0 # tail" and "i + length ws < 65536"
    and "actual_count n = of_nat (i + length ws)" and "nullable_count n = of_nat nc"
    and "bits_are bits S" and "agree S ws ss nc ni bi"
    and "ni + nulls ws \<le> nc" and "nc + bi + bools ws \<le> 8 * length bits" and "nc + bi + bools ws < 65536"
  shows "read_fields_loop bytes bits n i ts s0 (payload ss @ rest) (of_nat ni) (of_nat bi) = Some (True, upgrade ts ss)"
  using assms
proof (induction ws ss arbitrary: ts s0 i ni bi rule: list_all2_induct)
  case Nil
  then show ?case using unat_u16 [of i] by (simp add: read_added)
next
  case (Cons w ws s ss)
  show ?case
  proof (cases ts)
    case (Cons t ts')
    then obtain x xs where s0: "s0 = x # xs" "length xs = length ts'" using \<open>length s0 = length ts\<close> by (cases s0) auto
    have m: "CQL_CORE_DATA_TYPE_OF t = CQL_CORE_DATA_TYPE_OF w" "not_null t \<Longrightarrow> not_null w" "compatible ts' ws"
      using Cons \<open>compatible ts (w # ws)\<close> by simp_all
    have bool: "is_bool t \<longleftrightarrow> is_bool w" using m(1) by (simp add: is_bool_def)
    have v: "valid_type w" using field_ok_valid [OF Cons.hyps(1)] .
    let ?ni = "if not_null w then ni else Suc ni" and ?bi = "if is_bool w then Suc bi else bi"
    have len: "i < length bytes" "bytes ! i = type_code w" "drop (Suc i) bytes = map type_code ws @ 0 # tail"
      using Cons.prems(3)
      by (metis drop_all list.distinct(1) list.simps(9) append_Cons not_le,
        metis append_Cons list.simps(9) nth_via_drop,
        metis append_Cons drop_Suc list.sel(3) list.simps(9) tl_drop)
    have IH: "read_fields_loop bytes bits n (Suc i) ts' xs (payload ss @ rest) (of_nat ?ni) (of_nat ?bi) =
        Some (True, upgrade ts' ss)"
      by (rule Cons.IH [OF m(3) s0(2) len(3)]) (use Cons.prems in \<open>auto split: if_splits\<close>)
    have i: "\<not> unat (actual_count n) \<le> i" using Cons.prems(4,5) unat_u16 [of "i + length (w # ws)"] by simp
    have fetch: "(if notnull_code (type_code w) then Some (True, of_nat ni)
        else Option.bind (cql_getbit bits (of_nat ni)) (\<lambda>b. Some (b, of_nat ni + 1))) = Some (has_value s, of_nat ?ni :: u16)"
    proof (cases "not_null w")
      case True
      then show ?thesis using code_facts(4) [OF v] Cons.hyps(1) by (simp add: field_ok_def)
    next
      case False
      then have "cql_getbit bits (of_nat ni) = Some (has_value s)"
        using getbit [OF Cons.prems(7), of ni] Cons.prems(8-11) by simp
      then show ?thesis using False code_facts(4) [OF v] by (simp add: add.commute)
    qed
    have bit: "cql_getbit bits (of_nat nc + of_nat bi) = Some (bool_value s)" if "is_bool t"
      using getbit [OF Cons.prems(7), of "nc + bi"] Cons.prems(8-11) that bool by simp
    show ?thesis
    proof (cases "has_value s")
      case True
      have rf: "read_field t x (cql_getbit bits (of_nat nc + of_nat bi)) (field_payload s @ payload ss @ rest) =
          Some (widen t s, Some (payload ss @ rest))"
        by (rule read_field_written [OF Cons.hyps(1) True m(1,2) bit])
      show ?thesis
        unfolding \<open>ts = t # ts'\<close> s0(1) payload_simps append_assoc upgrade.simps
        by (rule read_step [OF i len(1) _ _ IH, where fetch = True])
          (use fetch rf True Cons.prems(6) bool len(2) in auto)
    next
      case False
      then have "\<not> not_null w" using Cons.hyps(1) by (auto simp: field_ok_def)
      then have nt: "\<not> not_null t" using m(2) by blast
      note null = missing_null [OF Cons.hyps(1) False m(1) nt]
      show ?thesis
        unfolding \<open>ts = t # ts'\<close> s0(1) payload_simps append_assoc upgrade.simps
        by (rule read_step [OF i len(1) _ _ IH, where fetch = False])
          (use fetch null False bool len(2) in auto)
    qed
  qed (use \<open>length s0 = length ts\<close> in simp)
qed

end
