(* ===== verification/Serialize_Props.thy ===== *)
theory Serialize_Props
  imports Serialize_Read
begin

text \<open>
  The round trip of cursors through blobs, and what happens when the buffer has to grow while the
  values are written.
\<close>

section \<open>Writing a whole cursor\<close>

definition encoded_size :: "u8 list \<Rightarrow> cql_slot list \<Rightarrow> nat" where
  "encoded_size ts ss = length ts + 1 + (nulls ts + bools ts + 7) div 8 + length (payload ss)"

lemma room_open: "n \<le> 1024 \<Longrightarrow> room \<lparr>enc_buf = cql_bytebuf_open, bits_at = k, bits_live = b\<rparr> [] n"
  using cql_bytebuf_open_ready [of n]
  by (simp add: room_def cql_bytebuf_ready_def) (simp add: cql_bytebuf_open_def BYTEBUF_GROWTH_SIZE_def)

lemma bitvector_counts:
  assumes "length ts < 32768"
  shows "bitvector_bytes (of_nat (nulls ts)) (of_nat (bools ts)) = (nulls ts + bools ts + 7) div 8"
  using counts_le [of ts] assms by (simp add: bitvector_bytes_def unat_u16)

lemma bitvector_covers: "(n :: nat) \<le> 8 * ((n + 7) div 8)"
  by simp

lemma field_ok_types: "list_all2 field_ok ts ss \<Longrightarrow> list_all valid_type ts"
  by (induction rule: list_all2_induct) (auto simp: field_ok_valid)

text \<open>The head of the encoding, up to the bit vector.\<close>

lemma write_head:
  assumes "list_all valid_type ts" and "length ts + 1 + (nulls ts + bools ts + 7) div 8 + n \<le> 1024"
  obtains e where "write_codes_loop ts \<lparr>enc_buf = cql_bytebuf_open, bits_at = 0, bits_live = False\<rparr> 0 0 =
      Some (e, of_nat (nulls ts), of_nat (bools ts))"
    "encodes (alloc_bits (enc_append e [0]) (bitvector_bytes (of_nat (nulls ts)) (of_nat (bools ts))))
       (map type_code ts @ [0]) (replicate ((nulls ts + bools ts + 7) div 8) 0) {} [] n"
proof -
  let ?k = "(nulls ts + bools ts + 7) div 8"
  have "room \<lparr>enc_buf = cql_bytebuf_open, bits_at = 0, bits_live = False\<rparr> [] (length ts + (1 + (?k + n)))"
    by (rule room_open) (use assms(2) in simp)
  from write_codes [OF assms(1) this, of 0 0] obtain e where
    e: "write_codes_loop ts \<lparr>enc_buf = cql_bytebuf_open, bits_at = 0, bits_live = False\<rparr> 0 0 =
      Some (e, of_nat (nulls ts), of_nat (bools ts))" "room e (map type_code ts) (1 + (?k + n))"
    by auto
  have "room (enc_append e [0]) (map type_code ts @ [0]) (?k + n)" by (rule enc_append_room) (use e(2) in simp)
  note enc = alloc_bits_encodes [OF this]
  have "bitvector_bytes (of_nat (nulls ts)) (of_nat (bools ts)) = ?k" by (rule bitvector_counts) (use assms(2) in simp)
  then show thesis using that [OF e(1)] enc by simp
qed

lemma write_cursor:
  assumes "cursor_has_row c" and "cursor_data_types c = ts" and "cursor_data c = ss"
    and "list_all2 field_ok ts ss" and "encoded_size ts ss \<le> 1024"
  obtains bits where "cql_cursor_to_blob c blob = Some (SQLITE_OK, Some (map type_code ts @ 0 # bits @ payload ss))"
    "length bits = (nulls ts + bools ts + 7) div 8" "bits_are bits (row_bits ts ss (nulls ts) 0 0)"
proof -
  let ?k = "(nulls ts + bools ts + 7) div 8"
  have fit: "length ts + 1 + ?k + length (payload ss) \<le> 1024" using assms(5) by (simp add: encoded_size_def)
  obtain e where e: "write_codes_loop ts \<lparr>enc_buf = cql_bytebuf_open, bits_at = 0, bits_live = False\<rparr> 0 0 =
      Some (e, of_nat (nulls ts), of_nat (bools ts))"
    "encodes (alloc_bits (enc_append e [0]) (bitvector_bytes (of_nat (nulls ts)) (of_nat (bools ts))))
       (map type_code ts @ [0]) (replicate ?k 0) {} [] (length (payload ss))"
    using write_head [OF field_ok_types [OF assms(4)] fit] .
  let ?e = "alloc_bits (enc_append e [0]) (bitvector_bytes (of_nat (nulls ts)) (of_nat (bools ts)))"
  have enc: "encodes ?e (map type_code ts @ [0]) (replicate ?k 0) {} [] (length (payload ss) + 0)" using e(2) by simp
  have "nulls ts + 0 + bools ts \<le> 8 * length (replicate ?k (0 :: u8))" "nulls ts + 0 + bools ts < 65536"
    using bitvector_covers [of "nulls ts + bools ts"] counts_le [of ts] fit by simp_all
  from write_row [OF assms(4) enc _ this, of 0] obtain e' bits where
    w: "write_fields_loop ts ss (of_nat (nulls ts)) ?e 0 0 = Some (e', of_nat (nulls ts))" "length bits = ?k"
      "encodes e' (map type_code ts @ [0]) bits (row_bits ts ss (nulls ts) 0 0) (payload ss) 0"
    by auto
  have "cql_cursor_to_blob c blob = Some (SQLITE_OK, Some (cql_bytebuf_contents (enc_buf e')))"
    using assms(1-3) e(1) w(1) by (simp add: cql_cursor_to_blob_def cql_cursor_to_bytebuf_def)
  then show thesis using that w(2,3) by (simp add: encodes_def room_def)
qed

section \<open>Reading a whole cursor\<close>

lemma read_cursor:
  assumes "list_all2 field_ok ws ss" and "compatible (cursor_data_types d) ws"
    and "length (cursor_data d) = length (cursor_data_types d)" and "length (cursor_data_types d) < 65536"
    and "length ws < 32768" and "length bits = (nulls ws + bools ws + 7) div 8"
    and "bits_are bits (row_bits ws ss (nulls ws) 0 0)"
  shows "cql_cursor_from_blob d (Some (map type_code ws @ 0 # bits @ payload ss)) =
    Some (SQLITE_OK, d\<lparr>cursor_has_row := True, cursor_data := upgrade (cursor_data_types d) ss\<rparr>)"
proof -
  let ?ts = "cursor_data_types d" and ?bytes = "map type_code ws @ 0 # bits @ payload ss"
  let ?n = "\<lparr>nullable_count = of_nat (nulls ws), bool_count = of_nat (bools ws), actual_count = of_nat (length ws),
    type_index = of_nat (min (length ws) (length ?ts))\<rparr> :: code_counts"
  have codes: "read_codes_loop ?ts (of_nat (length ?ts)) ?bytes
      \<lparr>nullable_count = 0, bool_count = 0, actual_count = 0, type_index = 0\<rparr> = Some (Inr (bits @ payload ss, ?n))"
    using read_codes [of 0 ?ts ws "bits @ payload ss" 0 0] assms(2,4,5) field_ok_types [OF assms(1)] by simp
  have "unat (type_index ?n) = min (length ws) (length ?ts)" using assms(4) by (simp add: unat_u16)
  then have rest: "\<not> (\<exists>t \<in> set (drop (unat (type_index ?n)) ?ts). not_null t)" using compatible_rest [OF assms(2)] by auto
  have bv: "bitvector_bytes (nullable_count ?n) (bool_count ?n) = length bits"
    using bitvector_counts [OF assms(5)] assms(6) by simp
  have "agree ({} \<union> row_bits ws ss (nulls ws) 0 0) ws ss (nulls ws) 0 0"
    by (rule row_bits_agree [OF assms(1)]) simp_all
  then have agree: "agree (row_bits ws ss (nulls ws) 0 0) ws ss (nulls ws) 0 0" by simp
  have fields: "read_fields_loop ?bytes bits ?n 0 ?ts (map clear_reference (cursor_data d)) (payload ss) 0 0 =
      Some (True, upgrade ?ts ss)"
    using read_row [OF assms(1,2) _ _ _ _ _ assms(7) agree, of "map clear_reference (cursor_data d)" 0 ?bytes
        "bits @ payload ss" ?n "[]"] assms(3,5,6) bitvector_covers [of "nulls ws + bools ws"] counts_le [of ws]
    by simp
  show ?thesis
    unfolding cql_cursor_from_blob_def cql_cursor_from_bytes_def Let_def option.case
      cql_clear_references_before_deserialization_def codes
    using rest bv fields codes by (simp add: cql_input_inline_bytes_def)
qed

section \<open>Round trips\<close>

text \<open>
  C2. Serialisation and deserialisation are inverse: a row that \<open>cql_cursor_to_blob\<close> encodes without
  growing its buffer comes back unchanged from \<open>cql_cursor_from_blob\<close>, in any cursor with the same
  columns, whatever that cursor and the blob variable held before.
\<close>

theorem cursor_round_trip:
  assumes "cursor_has_row c" and "list_all2 field_ok (cursor_data_types c) (cursor_data c)"
    and "encoded_size (cursor_data_types c) (cursor_data c) \<le> 1024"
    and "cursor_data_types d = cursor_data_types c" and "length (cursor_data d) = length (cursor_data_types d)"
  shows "\<exists>bytes. cql_cursor_to_blob c blob = Some (SQLITE_OK, Some bytes) \<and>
    cql_cursor_from_blob d (Some bytes) = Some (SQLITE_OK, c)"
proof -
  let ?ts = "cursor_data_types c" and ?ss = "cursor_data c"
  have len: "length ?ts < 1024" using assms(3) by (simp add: encoded_size_def)
  obtain bits where w: "cql_cursor_to_blob c blob = Some (SQLITE_OK, Some (map type_code ?ts @ 0 # bits @ payload ?ss))"
    "length bits = (nulls ?ts + bools ?ts + 7) div 8" "bits_are bits (row_bits ?ts ?ss (nulls ?ts) 0 0)"
    using write_cursor [OF assms(1) refl refl assms(2,3)] .
  have "cql_cursor_from_blob d (Some (map type_code ?ts @ 0 # bits @ payload ?ss)) =
      Some (SQLITE_OK, d\<lparr>cursor_has_row := True, cursor_data := upgrade (cursor_data_types d) ?ss\<rparr>)"
    by (rule read_cursor [OF assms(2) _ assms(5) _ _ w(2,3)]) (use len assms(4) compatible_refl in simp_all)
  moreover have "d\<lparr>cursor_has_row := True, cursor_data := upgrade (cursor_data_types d) ?ss\<rparr> = c"
    using assms(1,4) upgrade_same [OF assms(2)] by simp
  ultimately show ?thesis using w(1) by simp
qed

definition sample_cursor :: cql_dynamic_cursor where
  "sample_cursor =
     \<lparr>cursor_has_row = True, cursor_data_types = [0x81, 4, 0x85, 2, 6],
      cursor_data = [Int32 (- 5), NBool False True, Str (Some [104, 105]), NInt64 True 0, Blob (Some [0, 1])]\<rparr>"

definition blank_cursor :: "u8 list \<Rightarrow> cql_dynamic_cursor" where
  "blank_cursor ts = \<lparr>cursor_has_row = False, cursor_data_types = ts, cursor_data = replicate (length ts) (Str None)\<rparr>"

lemma sample_ok:
  "cursor_has_row sample_cursor" "list_all2 field_ok (cursor_data_types sample_cursor) (cursor_data sample_cursor)"
  "encoded_size (cursor_data_types sample_cursor) (cursor_data sample_cursor) \<le> 1024"
proof -
  show "cursor_has_row sample_cursor" by (simp add: sample_cursor_def)
  show "list_all2 field_ok (cursor_data_types sample_cursor) (cursor_data sample_cursor)"
    by (simp add: sample_cursor_def field_ok_def stores_def has_value_def not_null_def CQL_CORE_DATA_TYPE_OF_def
        CQL_DATA_TYPE_CORE_def CQL_DATA_TYPE_NOT_NULL_def core_defs)
  show "encoded_size (cursor_data_types sample_cursor) (cursor_data sample_cursor) \<le> 1024"
    using varint_length_32 [of "cql_zigzag_encode_32 (- 5)"] varint_length_32 [of "cql_zigzag_encode_32 2"]
    by (simp add: sample_cursor_def encoded_size_def field_payload_def not_null_def is_bool_def CQL_CORE_DATA_TYPE_OF_def
        CQL_DATA_TYPE_CORE_def CQL_DATA_TYPE_NOT_NULL_def core_defs)
qed

theorem cursor_round_trip_witness:
  "\<exists>bytes. cql_cursor_to_blob sample_cursor None = Some (SQLITE_OK, Some bytes) \<and>
     cql_cursor_from_blob (blank_cursor [0x81, 4, 0x85, 2, 6]) (Some bytes) = Some (SQLITE_OK, sample_cursor)"
  by (rule cursor_round_trip [OF sample_ok]) (simp_all add: sample_cursor_def blank_cursor_def)

text \<open>
  C18. The encoding of a row that takes at most 1024 bytes, the first buffer of the encoder, is versionable: a
  cursor with other columns can read it when the common columns
  have the same types, a not null column has at most become nullable and the added columns are
  nullable.  It gets the common columns, null for the added ones, and the rest is ignored.
\<close>

theorem cursor_versions:
  assumes "cursor_has_row c" and "list_all2 field_ok (cursor_data_types c) (cursor_data c)"
    and "encoded_size (cursor_data_types c) (cursor_data c) \<le> 1024"
    and "compatible (cursor_data_types d) (cursor_data_types c)"
    and "length (cursor_data d) = length (cursor_data_types d)" and "length (cursor_data_types d) < 65536"
  shows "\<exists>bytes. cql_cursor_to_blob c blob = Some (SQLITE_OK, Some bytes) \<and>
    cql_cursor_from_blob d (Some bytes) =
      Some (SQLITE_OK, d\<lparr>cursor_has_row := True, cursor_data := upgrade (cursor_data_types d) (cursor_data c)\<rparr>)"
proof -
  let ?ts = "cursor_data_types c" and ?ss = "cursor_data c"
  have len: "length ?ts < 32768" using assms(3) by (simp add: encoded_size_def)
  obtain bits where w: "cql_cursor_to_blob c blob = Some (SQLITE_OK, Some (map type_code ?ts @ 0 # bits @ payload ?ss))"
    "length bits = (nulls ?ts + bools ?ts + 7) div 8" "bits_are bits (row_bits ?ts ?ss (nulls ?ts) 0 0)"
    using write_cursor [OF assms(1) refl refl assms(2,3)] .
  show ?thesis using w(1) read_cursor [OF assms(2,4,5,6) len w(2,3)] by blast
qed

theorem cursor_versions_witness:
  "(\<exists>bytes. cql_cursor_to_blob sample_cursor None = Some (SQLITE_OK, Some bytes) \<and>
     cql_cursor_from_blob (blank_cursor [1, 4]) (Some bytes) =
       Some (SQLITE_OK, \<lparr>cursor_has_row = True, cursor_data_types = [1, 4],
         cursor_data = [NInt32 False (- 5), NBool False True]\<rparr>)) \<and>
   (\<exists>bytes. cql_cursor_to_blob sample_cursor None = Some (SQLITE_OK, Some bytes) \<and>
     cql_cursor_from_blob (blank_cursor [0x81, 4, 0x85, 2, 6, 3]) (Some bytes) =
       Some (SQLITE_OK, \<lparr>cursor_has_row = True, cursor_data_types = [0x81, 4, 0x85, 2, 6, 3],
         cursor_data = cursor_data sample_cursor @ [NDouble True (replicate 8 0)]\<rparr>))"
proof (rule conjI)
  have a: "compatible (cursor_data_types (blank_cursor [1, 4])) (cursor_data_types sample_cursor)" by code_simp
  have u: "upgrade [1, 4] (cursor_data sample_cursor) = [NInt32 False (- 5), NBool False True]" by code_simp
  show "\<exists>bytes. cql_cursor_to_blob sample_cursor None = Some (SQLITE_OK, Some bytes) \<and>
     cql_cursor_from_blob (blank_cursor [1, 4]) (Some bytes) =
       Some (SQLITE_OK, \<lparr>cursor_has_row = True, cursor_data_types = [1, 4],
         cursor_data = [NInt32 False (- 5), NBool False True]\<rparr>)"
    using cursor_versions [OF sample_ok a, of None] u by (simp add: blank_cursor_def)
next
  have a: "compatible (cursor_data_types (blank_cursor [0x81, 4, 0x85, 2, 6, 3])) (cursor_data_types sample_cursor)"
    by code_simp
  have u: "upgrade [0x81, 4, 0x85, 2, 6, 3] (cursor_data sample_cursor) =
      cursor_data sample_cursor @ [NDouble True (replicate 8 0)]" by code_simp
  show "\<exists>bytes. cql_cursor_to_blob sample_cursor None = Some (SQLITE_OK, Some bytes) \<and>
     cql_cursor_from_blob (blank_cursor [0x81, 4, 0x85, 2, 6, 3]) (Some bytes) =
       Some (SQLITE_OK, \<lparr>cursor_has_row = True, cursor_data_types = [0x81, 4, 0x85, 2, 6, 3],
         cursor_data = cursor_data sample_cursor @ [NDouble True (replicate 8 0)]\<rparr>)"
    using cursor_versions [OF sample_ok a, of None] u by (simp add: blank_cursor_def)
qed

end
