(* ===== verification/Serialize_Safety.thy ===== *)
theory Serialize_Safety
  imports Serialize_Props
begin

text \<open>
  Deserialisation of bytes from an untrusted source: below 65536 bytes it never leaves the arrays and
  a row it accepts is of the types of the cursor.  Two places where the code does leave its arrays:
  the 16-bit count of the type codes, and the pointer to the bit vector when the buffer grows.
\<close>

section \<open>The type codes of hostile bytes\<close>

definition lower :: "u8 list \<Rightarrow> nat" where
  "lower codes = length (filter nullable_code codes)"

definition flags :: "u8 list \<Rightarrow> nat" where
  "flags codes = length (filter (\<lambda>c. c = 102 \<or> c = 70) codes)"

lemma lower_flags_simps [simp]:
  "lower [] = 0" "lower (c # cs) = (if nullable_code c then Suc (lower cs) else lower cs)"
  "flags [] = 0" "flags (c # cs) = (if c = 102 \<or> c = 70 then Suc (flags cs) else flags cs)"
  by (simp_all add: lower_def flags_def)

lemma lower_flags_le: "lower cs \<le> length cs" "flags cs \<le> length cs"
  by (simp_all add: lower_def flags_def)

text \<open>The codes fit the columns as far as there are both.\<close>

fun fit :: "u8 list \<Rightarrow> u8 list \<Rightarrow> bool" where
  "fit (t # ts) (c # cs) \<longleftrightarrow> code_matches t c \<and> (not_null t \<longrightarrow> \<not> nullable_code c) \<and> fit ts cs"
| "fit _ _ \<longleftrightarrow> True"

lemma fit_drop:
  "fit (drop (Suc k) ts) cs \<Longrightarrow>
     (k < length ts \<Longrightarrow> code_matches (ts ! k) c \<and> (not_null (ts ! k) \<longrightarrow> \<not> nullable_code c)) \<Longrightarrow> fit (drop k ts) (c # cs)"
  by (cases "k < length ts") (auto simp: Cons_nth_drop_Suc [symmetric])

lemma read_codes_hostile:
  assumes "k + length input < 65536" and "length ts < 65536"
  shows "\<exists>r. read_codes_loop ts (of_nat (length ts)) input
      \<lparr>nullable_count = of_nat a, bool_count = of_nat b, actual_count = of_nat k, type_index = of_nat (min k (length ts))\<rparr> = Some r \<and>
    (\<forall>input' n'. r = Inr (input', n') \<longrightarrow> (\<exists>codes. input = codes @ 0 # input' \<and> fit (drop k ts) codes \<and>
       n' = \<lparr>nullable_count = of_nat (a + lower codes), bool_count = of_nat (b + flags codes),
         actual_count = of_nat (k + length codes), type_index = of_nat (min (k + length codes) (length ts))\<rparr>))"
  using assms
proof (induction input arbitrary: a b k)
  case (Cons c input)
  show ?case
  proof (cases "c = 0")
    case True
    then show ?thesis by (auto intro!: exI [of _ "[]"])
  next
    case False
    let ?a = "if nullable_code c then Suc a else a" and ?b = "if c = 102 \<or> c = 70 then Suc b else b"
    let ?loop = "read_codes_loop ts (of_nat (length ts))"
    let ?n = "\<lparr>nullable_count = of_nat a, bool_count = of_nat b, actual_count = of_nat k, type_index = of_nat (min k (length ts))\<rparr>
      :: code_counts"
    let ?n' = "\<lparr>nullable_count = of_nat ?a, bool_count = of_nat ?b, actual_count = of_nat (Suc k),
      type_index = of_nat (min (Suc k) (length ts))\<rparr> :: code_counts"
    let ?ok = "k < length ts \<longrightarrow> code_matches (ts ! k) c \<and> (not_null (ts ! k) \<longrightarrow> \<not> nullable_code c)"
    have le: "(of_nat k + 1 :: u16) \<le> of_nat (length ts) \<longleftrightarrow> k < length ts"
      using unat_u16 [of "Suc k"] unat_u16 [of "length ts"] Cons.prems by (simp add: word_le_nat_alt add.commute Suc_le_eq)
    have idx: "unat (of_nat (min k (length ts)) :: u16) = min k (length ts)" using Cons.prems by (intro unat_u16) simp
    have step: "?loop (c # input) ?n = (if ?ok then ?loop input ?n' else Some (Inl ()))"
    proof (cases "k < length ts")
      case True
      then show ?thesis using False le idx by (auto simp: Let_def add.commute)
    next
      case nk: False
      then have "min (Suc k) (length ts) = min k (length ts)" by simp
      then show ?thesis using False le nk by (auto simp: Let_def add.commute)
    qed
    have "Suc k + length input < 65536" using Cons.prems(1) by simp
    from Cons.IH [OF this Cons.prems(2), of ?a ?b] obtain r where r: "?loop input ?n' = Some r"
      "\<And>input' n'. r = Inr (input', n') \<Longrightarrow> \<exists>codes. input = codes @ 0 # input' \<and> fit (drop (Suc k) ts) codes \<and>
       n' = \<lparr>nullable_count = of_nat (?a + lower codes), bool_count = of_nat (?b + flags codes),
         actual_count = of_nat (Suc k + length codes), type_index = of_nat (min (Suc k + length codes) (length ts))\<rparr>"
      by blast
    show ?thesis
    proof (cases ?ok)
      case True
      have "\<exists>codes. c # input = codes @ 0 # input' \<and> fit (drop k ts) codes \<and>
          n' = \<lparr>nullable_count = of_nat (a + lower codes), bool_count = of_nat (b + flags codes),
            actual_count = of_nat (k + length codes), type_index = of_nat (min (k + length codes) (length ts))\<rparr>"
        if inr: "r = Inr (input', n')" for input' n'
      proof -
        obtain codes where cs: "input = codes @ 0 # input'" "fit (drop (Suc k) ts) codes"
          "n' = \<lparr>nullable_count = of_nat (?a + lower codes), bool_count = of_nat (?b + flags codes),
            actual_count = of_nat (Suc k + length codes), type_index = of_nat (min (Suc k + length codes) (length ts))\<rparr>"
          using r(2) [OF inr] by blast
        have "fit (drop k ts) (c # codes)" by (rule fit_drop [OF cs(2)]) (use True in simp)
        then show ?thesis using cs(1,3) by (intro exI [of _ "c # codes"]) auto
      qed
      then show ?thesis using step True r(1) by auto
    qed (use step in auto)
  qed
qed simp

section \<open>The columns of hostile bytes\<close>

definition well_typed :: "u8 \<Rightarrow> cql_slot \<Rightarrow> bool" where
  "well_typed t s \<longleftrightarrow> stores t s \<and> (not_null t \<longrightarrow> has_value s)"

lemma code_of_match:
  assumes "code_matches t c"
  shows "notnull_code c \<longleftrightarrow> \<not> nullable_code c" "is_bool t \<Longrightarrow> c = 102 \<or> c = 70"
proof -
  have "c \<in> {73, 76, 68, 70, 83, 66, 105, 108, 100, 102, 115, 98}"
    using assms by (auto simp: code_matches_def Let_def diff_eq_eq split: if_splits)
  then show "notnull_code c \<longleftrightarrow> \<not> nullable_code c" by (auto simp: notnull_code_def nullable_code_def)
  show "c = 102 \<or> c = 70" if "is_bool t"
    using assms that by (auto simp: code_matches_def is_bool_def core_defs Let_def diff_eq_eq split: if_splits)
qed

lemma cql_input_read_length: "cql_input_read buf n = Some (v, buf') \<Longrightarrow> length v = n"
  by (auto simp: cql_input_read_def split: if_splits)

lemma read_field_safe:
  assumes "valid_type t" and "is_bool t \<Longrightarrow> \<exists>b. bb = Some b"
  shows "\<exists>s r. read_field t s0 bb input = Some (s, r) \<and> (r \<noteq> None \<longrightarrow> well_typed t s)"
  using assms
  by (auto simp: valid_type_def is_bool_def read_field_def core_defs Let_def well_typed_def stores_def has_value_def
      dest: cql_input_read_length split: option.splits)

lemma missing_well_typed: "valid_type t \<Longrightarrow> \<not> not_null t \<Longrightarrow> well_typed t (missing t s)"
  by (auto simp: valid_type_def missing_def core_defs Let_def well_typed_def stores_def)

lemma getbit_defined:
  assumes "unat k < 8 * length bits"
  shows "\<exists>b. cql_getbit bits k = Some b"
  using assms by (simp add: cql_getbit_def less_mult_imp_div_less)

lemma unat_of_nat_le: "unat (of_nat k :: u16) \<le> k"
  by (simp add: unat_of_nat take_bit_nat_less_eq_self)

lemma unat_plus_le: "unat ((x :: u16) + of_nat k) \<le> unat x + k"
proof -
  have "unat (x + of_nat k) \<le> unat x + unat (of_nat k :: u16)" by (simp add: unat_word_ariths)
  then show ?thesis using unat_of_nat_le [of k] by linarith
qed

lemma compatible_added: "list_all valid_type ts \<Longrightarrow> (\<And>t. t \<in> set ts \<Longrightarrow> \<not> not_null t) \<Longrightarrow> compatible ts []"
  by (induction ts) auto

lemma added_well_typed: "compatible ts [] \<Longrightarrow> list_all2 well_typed ts (upgrade ts [])"
  by (induction ts) (auto simp: null_slot_def missing_well_typed)

lemma read_fields_hostile:
  assumes "list_all valid_type ts" and "length s0 = length ts" and "fit ts codes"
    and "drop i bytes = codes @ 0 # tail" and "i + length codes < 65536" and "actual_count n = of_nat (i + length codes)"
    and "\<And>t. t \<in> set (drop (length codes) ts) \<Longrightarrow> \<not> not_null t"
    and "ni + lower codes \<le> 8 * length bits" and "unat (nullable_count n) + bi + flags codes \<le> 8 * length bits"
  shows "\<exists>ok ss. read_fields_loop bytes bits n i ts s0 input (of_nat ni) (of_nat bi) = Some (ok, ss) \<and>
    length ss = length ts \<and> (ok \<longrightarrow> list_all2 well_typed ts ss)"
  using assms
proof (induction ts arbitrary: s0 codes i ni bi input)
  case (Cons t ts)
  obtain x xs where s0: "s0 = x # xs" "length xs = length ts" using Cons.prems(2) by (cases s0) auto
  have v: "valid_type t" "list_all valid_type ts" using Cons.prems(1) by simp_all
  have cnt: "unat (actual_count n) = i + length codes" using Cons.prems(5,6) unat_u16 by metis
  show ?case
  proof (cases codes)
    case Nil
    then have c: "compatible (t # ts) []" using Cons.prems(1,7) by (intro compatible_added) simp_all
    have "unat (actual_count n) \<le> i" using cnt Nil by simp
    note read_added [OF c Cons.prems(2) this, of bytes bits input "of_nat ni" "of_nat bi"]
    then show ?thesis using added_well_typed [OF c] list_all2_lengthD [OF added_well_typed [OF c]] by metis
  next
    case (Cons c cs)
    have f: "code_matches t c" "not_null t \<longrightarrow> \<not> nullable_code c" "fit ts cs" using Cons \<open>fit (t # ts) codes\<close> by simp_all
    note code = code_of_match [OF f(1)]
    have len: "i < length bytes" "bytes ! i = c" "drop (Suc i) bytes = cs @ 0 # tail"
      using Cons.prems(4) Cons
      by (metis append_Cons drop_all list.distinct(1) not_le, metis append_Cons nth_via_drop,
        metis append_Cons drop_Suc list.sel(3) tl_drop)
    let ?ni = "if nullable_code c then Suc ni else ni" and ?bi = "if is_bool t then Suc bi else bi"
    have i: "\<not> unat (actual_count n) \<le> i" using cnt Cons by simp
    have fetch: "\<exists>b. (if notnull_code (bytes ! i) then Some (True, of_nat ni)
        else Option.bind (cql_getbit bits (of_nat ni)) (\<lambda>b. Some (b, of_nat ni + 1))) = Some (b, of_nat ?ni :: u16) \<and>
        (\<not> b \<longrightarrow> nullable_code c)"
    proof (cases "nullable_code c")
      case True
      then have "unat (of_nat ni :: u16) < 8 * length bits"
        using Cons.prems(8) Cons unat_of_nat_le [of ni] by simp
      from getbit_defined [OF this] show ?thesis using True code(1) len(2) by (auto simp: add.commute)
    qed (use code(1) len(2) in auto)
    then obtain b where b: "(if notnull_code (bytes ! i) then Some (True, of_nat ni)
        else Option.bind (cql_getbit bits (of_nat ni)) (\<lambda>b. Some (b, of_nat ni + 1))) = Some (b, of_nat ?ni :: u16)"
      "\<not> b \<longrightarrow> nullable_code c" by blast
    have bb: "\<exists>b. cql_getbit bits (nullable_count n + of_nat bi) = Some b" if "is_bool t"
    proof (rule getbit_defined)
      have "unat (nullable_count n) + bi < 8 * length bits" using Cons.prems(9) Cons code(2) [OF that] by auto
      then show "unat (nullable_count n + of_nat bi) < 8 * length bits"
        using unat_plus_le [of "nullable_count n" bi] by linarith
    qed
    have IH: "\<exists>ok ss. read_fields_loop bytes bits n (Suc i) ts xs input' (of_nat ?ni) (of_nat ?bi) = Some (ok, ss) \<and>
        length ss = length ts \<and> (ok \<longrightarrow> list_all2 well_typed ts ss)" for input'
      by (rule Cons.IH [OF v(2) s0(2) f(3) len(3)]) (use Cons.prems Cons code(2) in \<open>auto split: if_splits\<close>)
    show ?thesis
    proof (cases b)
      case True
      obtain sl r where rf: "read_field t x (cql_getbit bits (nullable_count n + of_nat bi)) input = Some (sl, r)"
        "r \<noteq> None \<longrightarrow> well_typed t sl"
        using read_field_safe [OF v(1) bb] by blast
      show ?thesis
      proof (cases r)
        case None
        then show ?thesis using i len(1) b(1) True rf(1) s0 by auto
      next
        case (Some input')
        obtain ok ss where "read_fields_loop bytes bits n (Suc i) ts xs input' (of_nat ?ni) (of_nat ?bi) = Some (ok, ss)"
          "length ss = length ts" "ok \<longrightarrow> list_all2 well_typed ts ss" using IH by blast
        then show ?thesis using i len(1) b(1) True rf Some s0 by (auto simp: is_bool_def add.commute)
      qed
    next
      case False
      obtain ok ss where "read_fields_loop bytes bits n (Suc i) ts xs input (of_nat ?ni) (of_nat ?bi) = Some (ok, ss)"
        "length ss = length ts" "ok \<longrightarrow> list_all2 well_typed ts ss" using IH by blast
      moreover have "well_typed t (missing t x)" using missing_well_typed [OF v(1)] f(2) b(2) False by blast
      ultimately show ?thesis using i len(1) b(1) False s0 by (auto simp: is_bool_def add.commute)
    qed
  qed
qed auto

section \<open>Safety\<close>

lemma decode_failed_simps [simp]:
  "fst (decode_failed c) = SQLITE_ERROR" "cursor_data_types (snd (decode_failed c)) = cursor_data_types c"
  "length (cursor_data (snd (decode_failed c))) = length (cursor_data c)" "\<not> cursor_has_row (snd (decode_failed c))"
  by (simp_all add: decode_failed_def cql_clear_references_before_deserialization_def)

text \<open>The state of a cursor after deserialisation: a well-typed row, or an error and no row.\<close>

definition decoded :: "cql_dynamic_cursor \<Rightarrow> cql_code \<times> cql_dynamic_cursor \<Rightarrow> bool" where
  "decoded d r \<longleftrightarrow> cursor_data_types (snd r) = cursor_data_types d \<and> length (cursor_data (snd r)) = length (cursor_data d) \<and>
     (if fst r = SQLITE_OK then cursor_has_row (snd r) \<and> list_all2 well_typed (cursor_data_types d) (cursor_data (snd r))
      else \<not> cursor_has_row (snd r))"

lemma decoded_failed: "cursor_data_types c = cursor_data_types d \<Longrightarrow> length (cursor_data c) = length (cursor_data d) \<Longrightarrow>
    decoded d (decode_failed c)"
  by (simp add: decoded_def)

text \<open>
  C3. Deserialisation of arbitrary bytes is safe, up to 65535 of them: whatever they are,
  \<open>cql_cursor_from_bytes\<close> reads inside its arrays, returns, keeps the columns of the cursor, and either
  reports an error and leaves no row or leaves a row whose columns have their declared types, with a
  value in every not null column.
\<close>

theorem decode_hostile_bytes_safe:
  assumes "length bytes < 65536" and "list_all valid_type (cursor_data_types d)" and "length (cursor_data_types d) < 65536"
    and "length (cursor_data d) = length (cursor_data_types d)"
  shows "\<exists>r. cql_cursor_from_bytes d bytes = Some r \<and> decoded d r"
proof -
  let ?ts = "cursor_data_types d"
  let ?c = "cql_clear_references_before_deserialization (d\<lparr>cursor_has_row := False\<rparr>)"
  let ?n0 = "\<lparr>nullable_count = 0, bool_count = 0, actual_count = 0, type_index = 0\<rparr> :: code_counts"
  have c: "cursor_data_types ?c = ?ts" "length (cursor_data ?c) = length ?ts"
    using assms(4) by (simp_all add: cql_clear_references_before_deserialization_def)
  have failed: "decoded d (decode_failed ?c)" "\<And>ss. length ss = length ?ts \<Longrightarrow> decoded d (decode_failed (?c\<lparr>cursor_data := ss\<rparr>))"
    using c assms(4) by (auto intro!: decoded_failed)
  obtain r where r: "read_codes_loop ?ts (of_nat (length ?ts)) bytes ?n0 = Some r"
    "\<And>input n. r = Inr (input, n) \<Longrightarrow> \<exists>codes. bytes = codes @ 0 # input \<and> fit ?ts codes \<and>
       n = \<lparr>nullable_count = of_nat (lower codes), bool_count = of_nat (flags codes),
         actual_count = of_nat (length codes), type_index = of_nat (min (length codes) (length ?ts))\<rparr>"
    using read_codes_hostile [of 0 bytes ?ts 0 0] assms(1,3) by auto
  show ?thesis
  proof (cases r)
    case (Inl u)
    then show ?thesis using r(1) failed(1) by (simp add: cql_cursor_from_bytes_def Let_def)
  next
    case (Inr p)
    obtain input n where p: "p = (input, n)" by (cases p)
    from r(2) Inr p obtain codes where codes: "bytes = codes @ 0 # input" "fit ?ts codes"
      "n = \<lparr>nullable_count = of_nat (lower codes), bool_count = of_nat (flags codes),
         actual_count = of_nat (length codes), type_index = of_nat (min (length codes) (length ?ts))\<rparr>" by blast
    have small: "length codes < 65536" using assms(1) codes(1) by simp
    have ti: "unat (type_index n) = min (length codes) (length ?ts)" unfolding codes(3) using small assms(3) by (simp add: unat_u16)
    let ?k = "bitvector_bytes (nullable_count n) (bool_count n)"
    have k: "lower codes + flags codes \<le> 8 * ?k" "unat (nullable_count n) = lower codes"
      using small lower_flags_le [of codes] bitvector_covers [of "lower codes + flags codes"]
      unfolding codes(3) by (simp_all add: bitvector_bytes_def unat_u16)
    show ?thesis
    proof (cases "(\<exists>t \<in> set (drop (unat (type_index n)) ?ts). not_null t) \<or> length input < ?k")
      case True
      then have "cql_cursor_from_bytes d bytes = Some (decode_failed ?c)"
        using r(1) Inr p by (auto simp: cql_cursor_from_bytes_def Let_def cql_input_inline_bytes_def)
      then show ?thesis using failed(1) by blast
    next
      case False
      have rest: "\<not> not_null t" if "t \<in> set (drop (length codes) ?ts)" for t
        using that False ti by (cases "length codes \<le> length ?ts") auto
      have "length (take ?k input) = ?k" using False by simp
      then obtain ok ss where f: "read_fields_loop bytes (take ?k input) n 0 ?ts (cursor_data ?c) (drop ?k input) 0 0 = Some (ok, ss)"
        "length ss = length ?ts" "ok \<longrightarrow> list_all2 well_typed ?ts ss"
        using read_fields_hostile [OF assms(2) c(2) codes(2), of 0 bytes input n 0 "take ?k input" 0 "drop ?k input"]
          small k rest codes(1,3) by auto
      have "cql_cursor_from_bytes d bytes =
          Some (if ok then (SQLITE_OK, ?c\<lparr>cursor_data := ss, cursor_has_row := True\<rparr>) else decode_failed (?c\<lparr>cursor_data := ss\<rparr>))"
        using r(1) Inr p False f(1) by (simp add: cql_cursor_from_bytes_def Let_def cql_input_inline_bytes_def)
      moreover have "decoded d (SQLITE_OK, ?c\<lparr>cursor_data := ss, cursor_has_row := True\<rparr>)" if ok
        using that f(2,3) c assms(4) by (simp add: decoded_def)
      ultimately show ?thesis using failed(2) [OF f(2)] by auto
    qed
  qed
qed

theorem decode_hostile_bytes_safe_witness:
  "\<exists>r. cql_cursor_from_bytes (blank_cursor [0x81, 4]) [73, 102, 0, 255, 1] = Some r \<and> decoded (blank_cursor [0x81, 4]) r"
  by (rule decode_hostile_bytes_safe)
    (simp_all add: blank_cursor_def valid_type_def CQL_CORE_DATA_TYPE_OF_def CQL_DATA_TYPE_CORE_def)

section \<open>Where the code leaves its arrays\<close>

lemma codes_wrap:
  assumes "k + m = 65536" and "0 < k" and "0 < m" and "actual_count n = of_nat k" and "type_index n = 1"
  shows "read_codes_loop [t] 1 (replicate m 73 @ rest) n = None"
  using assms
proof (induction m arbitrary: k n)
  case (Suc m)
  show ?case
  proof (cases m)
    case 0
    then have k: "k = 65535" using Suc.prems(1) by simp
    then have "of_nat k + 1 = (0 :: u16)" by simp
    then show ?thesis using 0 Suc.prems(4,5) by (simp add: Let_def)
  next
    case (Suc j)
    let ?n = "n\<lparr>nullable_count := nullable_count n, actual_count := actual_count n + 1, bool_count := bool_count n\<rparr>"
    have "unat (of_nat k + 1 :: u16) = Suc k" using unat_u16 [of "Suc k"] Suc.prems(1) Suc by (simp add: add.commute)
    then have "\<not> (of_nat k + 1 :: u16) \<le> 1" using \<open>0 < k\<close> by (simp add: word_le_nat_alt)
    moreover have "read_codes_loop [t] 1 (replicate m 73 @ rest) ?n = None"
      by (rule Suc.IH [of "Suc k"]) (use Suc.prems Suc in \<open>simp_all add: add.commute\<close>)
    ultimately show ?thesis using Suc.prems(4) by (simp add: Let_def nullable_code_def)
  qed
qed simp

text \<open>
  C35. The bound of 65535 bytes is needed: the count of the type codes is a 16-bit number, so 65536
  codes bring it back to zero, and the code then compares with the column types again, behind the
  end of their array.  A blob of 65536 bytes \<open>I\<close> does this to a cursor of one integer column.
\<close>

theorem decode_count_wraps:
  "cql_cursor_from_bytes (blank_cursor [0x81]) (replicate 65536 73) = None"
proof -
  let ?n = "\<lparr>nullable_count = 0, bool_count = 0, actual_count = 1, type_index = 1\<rparr> :: code_counts"
  have rep: "replicate 65536 (73 :: u8) = 73 # replicate 65535 73" by (simp add: replicate_Suc [symmetric] del: replicate_Suc)
  have "read_codes_loop [0x81] 1 (replicate 65535 73) ?n = None"
    using codes_wrap [of 1 65535 ?n "0x81" "[]"] by simp
  moreover have "code_matches 0x81 73" by code_simp
  ultimately have "read_codes_loop [0x81] 1 (replicate 65536 73)
      \<lparr>nullable_count = 0, bool_count = 0, actual_count = 0, type_index = 0\<rparr> = None"
    unfolding rep by (simp add: Let_def nullable_code_def)
  then show ?thesis by (simp add: cql_cursor_from_bytes_def blank_cursor_def Let_def)
qed

lemma growth_dangles:
  assumes "room e xs n" and "1024 < length data" and "length data < 2 ^ 32"
  shows "cql_setbit (enc_append e data) k = None"
proof -
  have "unat (cb_max (enc_buf e)) = 1024" "unat (cb_used (enc_buf e)) \<le> unat (cb_max (enc_buf e))"
    using assms(1) room_used [OF assms(1)] by (simp_all add: room_def)
  then have "unat (cb_max (enc_buf e) - cb_used (enc_buf e)) \<le> 1024" by (simp add: unat_minus_u32)
  then have "(of_nat (length data) :: u32) > cb_max (enc_buf e) - cb_used (enc_buf e)"
    using assms(2) unat_of_nat_u32 [OF assms(3)] by (simp add: less_u32)
  then show ?thesis by (simp add: enc_append_def cql_setbit_def Let_def)
qed

text \<open>
  C36. The bound of the round trip on the encoded size is needed: \<open>cql_cursor_to_bytebuf\<close> keeps a pointer
  to the bit vector inside the buffer while it appends the values, and a buffer that grows is moved.
  A string of 1024 bytes or more before a nullable column with a value makes it set a bit in the
  block that was freed.
\<close>

theorem encode_growth_dangles:
  assumes "0 \<notin> set s" and "1024 \<le> length s" and "length s < 2 ^ 31"
  shows "cql_cursor_to_blob
    \<lparr>cursor_has_row = True, cursor_data_types = [0x85, 1], cursor_data = [Str (Some s), NInt32 False v]\<rparr> blob = None"
proof -
  let ?ts = "[0x85, 1] :: u8 list"
  have ty: "not_null 0x85" "\<not> not_null 1" "CQL_CORE_DATA_TYPE_OF 0x85 = 5" "CQL_CORE_DATA_TYPE_OF 1 = 1"
    by (simp_all add: not_null_def CQL_DATA_TYPE_NOT_NULL_def CQL_CORE_DATA_TYPE_OF_def CQL_DATA_TYPE_CORE_def)
  have n: "nulls ?ts = 1" "bools ?ts = 0" using ty by (simp_all add: is_bool_def core_defs)
  have v: "list_all valid_type ?ts" using ty by (simp add: valid_type_def)
  obtain e where e: "write_codes_loop ?ts \<lparr>enc_buf = cql_bytebuf_open, bits_at = 0, bits_live = False\<rparr> 0 0 = Some (e, 1, 0)"
    "encodes (alloc_bits (enc_append e [0]) (bitvector_bytes 1 0)) (map type_code ?ts @ [0]) (replicate 1 0) {} [] 0"
    using write_head [OF v, of 0] n by auto
  let ?e = "alloc_bits (enc_append e [0]) (bitvector_bytes 1 0)"
  have "cql_setbit (append_cstr ?e s) 0 = None"
    using growth_dangles [of ?e _ 0 "s @ [0]" 0] e(2) assms by (auto simp: append_cstr_def strlen_all encodes_def)
  then have "write_fields_loop ?ts [Str (Some s), NInt32 False v] 1 ?e 0 0 = None"
    using ty by (simp add: stores_def write_not_null_def write_nullable_def core_defs Let_def)
  then show ?thesis using e(1) by (simp add: cql_cursor_to_blob_def cql_cursor_to_bytebuf_def)
qed

theorem encode_growth_dangles_witness:
  "cql_cursor_to_blob
    \<lparr>cursor_has_row = True, cursor_data_types = [0x85, 1],
     cursor_data = [Str (Some (replicate 1100 97)), NInt32 False 7]\<rparr> None = None"
  by (rule encode_growth_dangles) simp_all

end
