(* ===== verification/Serialize_Stream.thy ===== *)
theory Serialize_Stream
  imports Serialize_Safety
begin

text \<open>
  Blob streams: the blobs that were put into a stream come out of it by their index.  The
  variable-length integers of the buffer read back, also when the buffer grows.
\<close>

section \<open>Integers in the buffer\<close>

lemma enc_append_emits: "enc_buf (enc_append e data) = cql_bytebuf_put (enc_buf e) data"
  by (simp add: enc_append_def Let_def cql_bytebuf_put_def)

lemma varint_contents:
  assumes "cql_bytebuf_ready (length (varint_bytes i)) (enc_buf e)"
  shows "cql_bytebuf_contents (enc_buf (write_varint_loop e i)) = cql_bytebuf_contents (enc_buf e) @ varint_bytes i"
  using assms
proof (induction i arbitrary: e rule: varint_bytes.induct)
  case (1 i)
  let ?b = "ucast (i AND 0x7f) :: u8"
  show ?case
  proof (cases "drop_bit 7 i \<noteq> 0")
    case True
    then have eq: "varint_bytes i = (?b OR 0x80) # varint_bytes (drop_bit 7 i)"
      by (simp add: varint_bytes.simps [of i])
    have "cql_bytebuf_ready (length [?b OR 0x80] + length (varint_bytes (drop_bit 7 i))) (enc_buf e)" using 1(2) eq by simp
    note put = rb.ready_put [OF this] rb.contents_put [OF rb.ready_mono [OF this], of "[?b OR 0x80]"]
    have "cql_bytebuf_contents (enc_buf (write_varint_loop (enc_append e [?b OR 0x80]) (drop_bit 7 i))) =
        cql_bytebuf_contents (enc_buf (enc_append e [?b OR 0x80])) @ varint_bytes (drop_bit 7 i)"
      by (rule 1(1) [OF True]) (use put(1) in \<open>simp add: enc_append_emits\<close>)
    then show ?thesis using True put(2) by (simp add: write_varint_loop.simps [of e i] eq Let_def enc_append_emits)
  next
    case False
    then have eq: "varint_bytes i = [?b]" by (simp add: varint_bytes.simps [of i])
    then show ?thesis
      using False rb.contents_put [of "[?b]" "enc_buf e"] 1(2)
      by (simp add: write_varint_loop.simps [of e i] Let_def enc_append_emits)
  qed
qed

text \<open>
  C22. Variable-length integers read back and are short: what \<open>cql_write_varint_32\<close> appends is at most
  five bytes, from which \<open>cql_read_varint_32\<close> recovers the integer and stops behind them, and the same
  holds with ten bytes for the 64-bit functions.
\<close>

theorem varint_round_trip:
  assumes "cql_bytebuf_ready 10 (enc_buf e)"
  shows "(\<exists>bs. length bs \<le> 5 \<and>
      cql_bytebuf_contents (enc_buf (cql_write_varint_32 e v)) = cql_bytebuf_contents (enc_buf e) @ bs \<and>
      (\<forall>rest. cql_read_varint_32 (bs @ rest) = Some (v, rest))) \<and>
    (\<exists>bs. length bs \<le> 10 \<and>
      cql_bytebuf_contents (enc_buf (cql_write_varint_64 e w)) = cql_bytebuf_contents (enc_buf e) @ bs \<and>
      (\<forall>rest. cql_read_varint_64 (bs @ rest) = Some (w, rest)))"
proof -
  let ?v = "varint_bytes (cql_zigzag_encode_32 v)" and ?w = "varint_bytes (cql_zigzag_encode_64 w)"
  have l: "length ?v \<le> 5" "length ?w \<le> 10" by (rule varint_length_32, rule varint_length_64)
  have "cql_bytebuf_ready (length ?v) (enc_buf e)" using assms l by (elim rb.ready_mono) simp
  then have "\<exists>bs. length bs \<le> 5 \<and>
      cql_bytebuf_contents (enc_buf (cql_write_varint_32 e v)) = cql_bytebuf_contents (enc_buf e) @ bs \<and>
      (\<forall>rest. cql_read_varint_32 (bs @ rest) = Some (v, rest))"
    using varint_contents read_varint_32 l by (intro exI [of _ ?v]) (simp add: cql_write_varint_32_def)
  moreover have "cql_bytebuf_ready (length ?w) (enc_buf e)" using assms l by (elim rb.ready_mono) simp
  then have "\<exists>bs. length bs \<le> 10 \<and>
      cql_bytebuf_contents (enc_buf (cql_write_varint_64 e w)) = cql_bytebuf_contents (enc_buf e) @ bs \<and>
      (\<forall>rest. cql_read_varint_64 (bs @ rest) = Some (w, rest))"
    using varint_contents read_varint_64 l by (intro exI [of _ ?w]) (simp add: cql_write_varint_64_def)
  ultimately show ?thesis ..
qed

theorem varint_round_trip_witness:
  "\<exists>bs. length bs \<le> 5 \<and>
      cql_bytebuf_contents (enc_buf (cql_write_varint_32 \<lparr>enc_buf = cql_bytebuf_open, bits_at = 0, bits_live = False\<rparr> (- 7))) = bs \<and>
      (\<forall>rest. cql_read_varint_32 (bs @ rest) = Some (- 7, rest))"
  using varint_round_trip [of "\<lparr>enc_buf = cql_bytebuf_open, bits_at = 0, bits_live = False\<rparr>" "- 7"]
    cql_bytebuf_open_ready [of 10] by simp

section \<open>The layout of a stream\<close>

lemma load_bytes_of: "load_u32 (xs @ bytes_of_u32 w @ ys) (length xs) = Some w"
proof -
  have "(ucast (ucast w :: u8) :: u32) OR push_bit 8 (ucast (ucast (drop_bit 8 w) :: u8)) OR
      push_bit 16 (ucast (ucast (drop_bit 16 w) :: u8)) OR push_bit 24 (ucast (ucast (drop_bit 24 w) :: u8)) = w"
  proof (rule bit_word_eqI)
    fix n assume n: "n < LENGTH(32)"
    consider "n < 8" | "8 \<le> n" "n < 16" | "16 \<le> n" "n < 24" | "24 \<le> n" "n < 32" using n by fastforce
    then show "bit ((ucast (ucast w :: u8) :: u32) OR push_bit 8 (ucast (ucast (drop_bit 8 w) :: u8)) OR
      push_bit 16 (ucast (ucast (drop_bit 16 w) :: u8)) OR push_bit 24 (ucast (ucast (drop_bit 24 w) :: u8))) n = bit w n"
      by cases (simp_all only: bit_or_iff bit_push_bit_iff bit_ucast_iff bit_drop_bit_eq comp_def, auto)
  qed
  then show ?thesis by (simp add: load_u32_def bytes_of_u32_def nth_append or.assoc)
qed

fun offsets :: "nat \<Rightarrow> u8 list list \<Rightarrow> nat list" where
  "offsets k [] = []"
| "offsets k (b # bs) = (k + length b) # offsets (k + length b) bs"

lemma offsets_nth: "i < length bs \<Longrightarrow> offsets k bs ! i = k + sum_list (map length (take (Suc i) bs))"
  by (induction bs arbitrary: i k) (auto simp: less_Suc_eq_0_disj)

lemma length_offsets [simp]: "length (offsets k bs) = length bs"
  by (induction bs arbitrary: k) auto

definition words :: "nat list \<Rightarrow> u8 list" where
  "words ks = concat (map (\<lambda>k. bytes_of_u32 (of_nat k)) ks)"

lemma words_simps [simp]:
  "words [] = []" "words (k # ks) = bytes_of_u32 (of_nat k) @ words ks" "words (ks @ ks') = words ks @ words ks'"
  by (simp_all add: words_def)

lemma length_bytes_of [simp]: "length (bytes_of_u32 w) = 4"
  by (simp add: bytes_of_u32_def)

lemma length_words [simp]: "length (words ks) = 4 * length ks"
  by (induction ks) auto

lemma load_word:
  assumes "i < length ks"
  shows "load_u32 (words ks @ ys) (4 * i) = Some (of_nat (ks ! i))"
proof -
  have "words ks @ ys = words (take i ks) @ bytes_of_u32 (of_nat (ks ! i)) @ words (drop (Suc i) ks) @ ys"
    using id_take_nth_drop [OF assms] by (metis append_assoc append_Cons words_simps(2,3))
  then show ?thesis using load_bytes_of [of "words (take i ks)"] assms by (simp add: min_def)
qed

lemma append_value_put: "append_value_u32 b w = cql_bytebuf_put b (bytes_of_u32 w)"
  by (simp add: append_value_u32_def cql_bytebuf_put_def)

lemma stream_offsets_emits: "rb.emits (stream_offsets_loop bs (of_nat k)) (words (offsets k bs))"
proof (induction bs arbitrary: k)
  case Nil
  have "stream_offsets_loop [] (of_nat k) = (\<lambda>b. b)" by (rule ext) simp
  then show ?case using rb.emits_id by simp
next
  case (Cons x bs)
  have "stream_offsets_loop (x # bs) (of_nat k) =
      (\<lambda>b. stream_offsets_loop bs (of_nat (k + length x)) (cql_bytebuf_put b (bytes_of_u32 (of_nat (k + length x)))))"
    by (rule ext) (simp add: Let_def append_value_put)
  then show ?case
    using rb.emits_comp [OF rb.emits_put Cons.IH [of "k + length x"] refl, of "bytes_of_u32 (of_nat (k + length x))"] by simp
qed

lemma stream_blobs_emits: "rb.emits (stream_blobs_loop bs) (concat bs)"
proof (induction bs)
  case Nil
  have "stream_blobs_loop [] = (\<lambda>b. b)" by (rule ext) simp
  then show ?case using rb.emits_id by simp
next
  case (Cons x bs)
  have "stream_blobs_loop (x # bs) = (\<lambda>b. stream_blobs_loop bs (cql_bytebuf_put b x))"
    by (rule ext) (simp add: cql_bytebuf_put_def)
  then show ?case using rb.emits_comp [OF rb.emits_put Cons.IH refl] by simp
qed

text \<open>The size of a stream, far below the limits of the buffer and of 32-bit offsets.\<close>

definition stream_size :: "u8 list list \<Rightarrow> nat" where
  "stream_size bs = 4 * (1 + length bs) + sum_list (map length bs)"

lemma stream_layout:
  assumes "stream_size bs < 2 ^ 30"
  shows "cql_make_blob_stream bs = words (length bs # offsets (4 * (1 + length bs)) bs) @ concat bs"
proof -
  let ?n = "length bs" and ?k = "4 * (1 + length bs)"
  have k: "(1 + of_nat ?n) * 4 = (of_nat ?k :: i32)" by simp
  have "rb.emits (\<lambda>b. stream_blobs_loop bs (stream_offsets_loop bs (of_nat ?k) (append_value_u32 b (of_nat ?n))))
      (words (?n # offsets ?k bs) @ concat bs)"
    unfolding append_value_put
    by (rule rb.emits_comp [OF rb.emits_comp [OF rb.emits_put stream_offsets_emits refl] stream_blobs_emits]) simp
  moreover have "cql_bytebuf_ready (length (words (?n # offsets ?k bs) @ concat bs)) cql_bytebuf_open"
    by (rule cql_bytebuf_open_ready) (use assms in \<open>simp add: stream_size_def length_concat\<close>)
  ultimately have "cql_bytebuf_contents (stream_blobs_loop bs (stream_offsets_loop bs (of_nat ?k)
      (append_value_u32 cql_bytebuf_open (of_nat ?n)))) = words (?n # offsets ?k bs) @ concat bs"
    using rb.emits_contents by fastforce
  then show ?thesis unfolding cql_make_blob_stream_def Let_def k .
qed

section \<open>Blobs by their index\<close>

lemma slice_concat:
  assumes "i < length bs" and "length pre = k"
  shows "take (length (bs ! i)) (drop (k + sum_list (map length (take i bs))) (pre @ concat bs)) = bs ! i"
proof -
  have "concat bs = concat (take i bs) @ bs ! i @ concat (drop (Suc i) bs)"
    using id_take_nth_drop [OF assms(1)] by (metis concat.simps(2) concat_append)
  then show ?thesis using assms by (simp add: length_concat)
qed

lemma sum_take_le: "sum_list (map length (take i bs)) \<le> sum_list (map length bs)"
  by (metis add.commute append_take_drop_id le_add2 map_append sum_list_append)

lemma sum_take_Suc: "i < length bs \<Longrightarrow>
    sum_list (map length (take (Suc i) bs)) = sum_list (map length (take i bs)) + length (bs ! i)"
  by (simp add: take_Suc_conv_app_nth)

lemma sint_of_nat_small: "m < 2 ^ 31 \<Longrightarrow> sint (of_nat m :: i32) = int m"
  by (simp add: signed_of_nat signed_take_bit_int_eq_self)

lemma of_nat_le_u32: "a < 2 ^ 31 \<Longrightarrow> b < 2 ^ 31 \<Longrightarrow> (of_nat a :: u32) \<le> of_nat b \<longleftrightarrow> a \<le> b"
  using unat_of_nat_u32 [of a] unat_of_nat_u32 [of b] by (simp add: word_le_nat_alt)

text \<open>The checks of \<open>cql_cursor_from_blob_stream\<close>, when all of them pass.\<close>

lemma stream_read:
  assumes "\<not> (of_nat (length b) :: u32) < 4" and "load_u32 b 0 = Some count" and "\<not> (sint index < 0 \<or> index \<ge> count)"
    and "(sint index + 2) * 4 < 2 ^ 31" and "\<not> (index + 2) * 4 > of_nat (length b)"
    and "load_u32 b (unat ((index + 1) * 4)) = Some e" and "\<not> e > of_nat (length b)"
    and "(if sint index > 0 then load_u32 b (unat (index * 4)) else Some ((count + 1) * 4)) = Some s"
    and "\<not> s > e" and "take (unat (e - s)) (drop (unat s) b) = x"
  shows "cql_cursor_from_blob_stream d b index = cql_cursor_from_bytes d x"
  unfolding cql_cursor_from_blob_stream_def Let_def using assms
  by (simp only: if_False if_True bind.bind_lunit bind_require simp_thms)

lemma index_u32:
  assumes "i < n" and "n < 2 ^ 28"
  shows "sint (of_nat i :: i32) = int i" "unat ((of_nat i + 1 :: u32) * 4) = 4 * Suc i" "unat (of_nat i * 4 :: u32) = 4 * i"
    "(of_nat i + 2 :: u32) * 4 = of_nat (4 * (i + 2))"
  using assms unat_of_nat_u32 [of "4 * Suc i"] unat_of_nat_u32 [of "4 * i"]
  by (simp_all add: sint_of_nat_small algebra_simps)

lemma stream_words:
  assumes "j \<le> length bs"
  shows "load_u32 (words (length bs # offsets k bs) @ rest) (4 * j) =
    Some (if j = 0 then of_nat (length bs) else of_nat (k + sum_list (map length (take j bs))))"
  using load_word [of j "length bs # offsets k bs" rest] offsets_nth [of "j - 1" bs k] assms by (cases j) auto

text \<open>
  C24. Blob streams are an array of blobs: the count is the number of blobs put in, and reading the
  cursor at index \<open>i\<close> of the stream is reading it from the \<open>i\<close>-th blob alone, errors included.
\<close>

theorem blob_stream_round_trip:
  assumes "stream_size bs < 2 ^ 30" and "i < length bs"
  shows "cql_blob_stream_count (cql_make_blob_stream bs) = Some (of_nat (length bs)) \<and>
    cql_cursor_from_blob_stream d (cql_make_blob_stream bs) (of_nat i) = cql_cursor_from_bytes d (bs ! i)"
proof -
  let ?n = "length bs" and ?k = "4 * (1 + length bs)"
  let ?b = "words (?n # offsets ?k bs) @ concat bs" and ?s = "\<lambda>j. ?k + sum_list (map length (take j bs))"
  have lay: "cql_make_blob_stream bs = ?b" by (rule stream_layout [OF assms(1)])
  have len: "length ?b = stream_size bs" by (simp add: stream_size_def length_concat)
  have n: "?n < 2 ^ 28" "stream_size bs < 2 ^ 31" using assms(1) by (simp_all add: stream_size_def)
  note idx = index_u32 [OF assms(2) n(1)]
  have s: "?s j < 2 ^ 31" "?s j \<le> stream_size bs" for j
    using n(2) sum_take_le [of j bs] by (simp_all add: stream_size_def)
  have s': "?s (Suc i) = ?s i + length (bs ! i)" using sum_take_Suc [OF assms(2)] by simp
  have count: "load_u32 ?b 0 = Some (of_nat ?n)" using stream_words [of 0 bs ?k "concat bs"] by simp
  have "cql_blob_stream_count (cql_make_blob_stream bs) = Some (of_nat ?n)"
    using count unfolding lay cql_blob_stream_count_def len by (simp add: stream_size_def)
  moreover have "cql_cursor_from_blob_stream d (cql_make_blob_stream bs) (of_nat i) = cql_cursor_from_bytes d (bs ! i)"
    unfolding lay
  proof (rule stream_read [OF _ count, unfolded len])
    show "\<not> (of_nat (stream_size bs) :: u32) < 4"
      using of_nat_le_u32 [of 4 "stream_size bs"] n(2) by (simp add: not_less stream_size_def)
    show "\<not> (sint (of_nat i :: i32) < 0 \<or> (of_nat i :: u32) \<ge> of_nat ?n)"
      using idx(1) of_nat_le_u32 [of ?n i] n(1) assms(2) by simp
    show "(sint (of_nat i :: i32) + 2) * 4 < 2 ^ 31" using idx(1) n(1) assms(2) by simp
    show "\<not> (of_nat i + 2 :: u32) * 4 > of_nat (stream_size bs)"
      unfolding idx(4) not_less
      by (subst of_nat_le_u32) (use n assms(2) in \<open>simp_all add: stream_size_def\<close>)
    show "load_u32 ?b (unat ((of_nat i + 1 :: u32) * 4)) = Some (of_nat (?s (Suc i)))"
      unfolding idx(2) using stream_words [of "Suc i" bs ?k "concat bs"] assms(2) by simp
    show "\<not> (of_nat (?s (Suc i)) :: u32) > of_nat (stream_size bs)"
      unfolding not_less of_nat_le_u32 [OF s(1) n(2)] by (rule s(2))
    show "(if sint (of_nat i :: i32) > 0 then load_u32 ?b (unat (of_nat i * 4 :: u32)) else Some ((of_nat ?n + 1) * 4)) =
        Some (of_nat (?s i))"
      unfolding idx(1,3) using stream_words [of i bs ?k "concat bs"] assms(2) by (cases "i = 0") (simp_all add: algebra_simps)
    show "\<not> (of_nat (?s i) :: u32) > of_nat (?s (Suc i))" 
      using of_nat_le_u32 [OF s(1) [of i] s(1) [of "Suc i"]] s' by (simp only: not_less le_add1)
    have "(of_nat (?s (Suc i)) - of_nat (?s i) :: u32) = of_nat (length (bs ! i))" unfolding s' by simp
    then have "unat (of_nat (?s (Suc i)) - of_nat (?s i) :: u32) = length (bs ! i)"
      using unat_of_nat_u32 [of "length (bs ! i)"] s(1) [of "Suc i"] s' by simp
    moreover have "unat (of_nat (?s i) :: u32) = ?s i" by (rule unat_of_nat_u32) (use s(1) [of i] in simp)
    ultimately show "take (unat (of_nat (?s (Suc i)) - of_nat (?s i) :: u32)) (drop (unat (of_nat (?s i) :: u32)) ?b) = bs ! i"
      using slice_concat [OF assms(2), of "words (?n # offsets ?k bs)" ?k] by simp
  qed
  ultimately show ?thesis ..
qed

theorem blob_stream_round_trip_witness:
  "cql_blob_stream_count (cql_make_blob_stream [[73, 0, 10], [73, 0, 7]]) = Some 2 \<and>
   cql_cursor_from_blob_stream (blank_cursor [0x81]) (cql_make_blob_stream [[73, 0, 10], [73, 0, 7]]) 1 =
     cql_cursor_from_bytes (blank_cursor [0x81]) [73, 0, 7]"
  using blob_stream_round_trip [of "[[73, 0, 10], [73, 0, 7]]" 1 "blank_cursor [0x81]"] by (simp add: stream_size_def)

end
