(* ===== verification/Blobs.thy ===== *)
theory Blobs
  imports CqlBase "HOL-Library.Monad_Syntax"
begin

text \<open>
  Key and value blobs of the runtime (\<open>sources/cqlrt_common.c\<close>): the SQL functions \<open>bcreatekey\<close>,
  \<open>bgetkey\<close>, \<open>bgetkey_type\<close>, \<open>bupdatekey\<close> and their counterparts for value blobs.  The arguments of a
  call are a list of SQL values; the call that a function makes to return its result is the value of
  the model.  A block of \<open>sqlite3_malloc\<close> has unwritten cells and faults on a store outside it; a
  failed \<open>cql_contract\<close> and an access outside a block give \<open>None\<close>.
\<close>

declare bind_require [simp]

section \<open>SQL values\<close>

text \<open>A double is its eight bytes; a text is its bytes without the terminating NUL.\<close>

datatype sqlite3_value = V_null | V_int i64 | V_float "u8 list" | V_text "u8 list" | V_blob "u8 list"

datatype value_type = SQLITE_INTEGER | SQLITE_FLOAT | SQLITE3_TEXT | SQLITE_BLOB | SQLITE_NULL

datatype sqlite_result =
  Result_error | Result_null | Result_int64 i64 | Result_double "u8 list" | Result_text "u8 list"
| Result_blob "u8 option list"

text \<open>The conversions that SQLite makes when a value is not of the type that is asked for.\<close>

record sqlite_conv =
  conv_int64 :: "sqlite3_value \<Rightarrow> i64"
  conv_double :: "sqlite3_value \<Rightarrow> u8 list"

definition sqlite3_value_type :: "sqlite3_value \<Rightarrow> value_type" where
  "sqlite3_value_type v =
     (case v of V_null \<Rightarrow> SQLITE_NULL | V_int _ \<Rightarrow> SQLITE_INTEGER | V_float _ \<Rightarrow> SQLITE_FLOAT
      | V_text _ \<Rightarrow> SQLITE3_TEXT | V_blob _ \<Rightarrow> SQLITE_BLOB)"

definition sqlite3_value_int64 :: "sqlite_conv \<Rightarrow> sqlite3_value \<Rightarrow> i64" where
  "sqlite3_value_int64 C v = (case v of V_int i \<Rightarrow> i | _ \<Rightarrow> conv_int64 C v)"

definition sqlite3_value_double :: "sqlite_conv \<Rightarrow> sqlite3_value \<Rightarrow> u8 list" where
  "sqlite3_value_double C v = (case v of V_float d \<Rightarrow> d | _ \<Rightarrow> conv_double C v)"

text \<open>The bytes of a text or a blob, which is what these functions are called on.\<close>

definition value_data :: "sqlite3_value \<Rightarrow> u8 list" where
  "value_data v = (case v of V_text s \<Rightarrow> s | V_blob b \<Rightarrow> b | _ \<Rightarrow> [])"

definition sqlite3_value_bytes :: "sqlite3_value \<Rightarrow> u32" where
  "sqlite3_value_bytes v = of_nat (length (value_data v))"

definition sqlite3_malloc :: "u64 \<Rightarrow> u8 mem option" where
  "sqlite3_malloc n = (if 0 < sint (ucast n :: i32) then Some (mem_alloc (unat (ucast n :: u32))) else None)"

definition result_blob :: "u8 mem \<Rightarrow> sqlite_result option" where
  "result_blob m = (case m of Mem cs \<Rightarrow> Some (Result_blob cs) | Fault \<Rightarrow> None)"

section \<open>Types and big endian numbers\<close>

definition CQL_BLOB_TYPE_BOOL :: u8 where "CQL_BLOB_TYPE_BOOL = 0"
definition CQL_BLOB_TYPE_INT32 :: u8 where "CQL_BLOB_TYPE_INT32 = 1"
definition CQL_BLOB_TYPE_INT64 :: u8 where "CQL_BLOB_TYPE_INT64 = 2"
definition CQL_BLOB_TYPE_FLOAT :: u8 where "CQL_BLOB_TYPE_FLOAT = 3"
definition CQL_BLOB_TYPE_STRING :: u8 where "CQL_BLOB_TYPE_STRING = 4"
definition CQL_BLOB_TYPE_BLOB :: u8 where "CQL_BLOB_TYPE_BLOB = 5"
definition CQL_BLOB_TYPE_DIRTY :: u8 where "CQL_BLOB_TYPE_DIRTY = 0x40"
definition CQL_BLOB_MAGIC :: u32 where "CQL_BLOB_MAGIC = 0x524d3030"

text \<open>Reading a byte of a block and copying bytes into one.\<close>

definition byte_at :: "u8 list \<Rightarrow> nat \<Rightarrow> u8 option" where
  "byte_at b i = (if i < length b then Some (b ! i) else None)"

definition put_bytes :: "u8 mem \<Rightarrow> nat \<Rightarrow> u8 list \<Rightarrow> u8 mem" where
  "put_bytes b at bytes = mem_store b at (Some (map Some bytes))"

definition slice :: "u8 list \<Rightarrow> nat \<Rightarrow> nat \<Rightarrow> u8 list option" where
  "slice b at n = (if at + n \<le> length b then Some (take n (drop at b)) else None)"

definition cql_write_big_endian_u16 :: "u8 mem \<Rightarrow> nat \<Rightarrow> u16 \<Rightarrow> u8 mem" where
  "cql_write_big_endian_u16 b at val =
     put_bytes (put_bytes b at [ucast (drop_bit 8 val)]) (at + 1) [ucast (val AND 0xff)]"

definition cql_write_big_endian_u32 :: "u8 mem \<Rightarrow> nat \<Rightarrow> u32 \<Rightarrow> u8 mem" where
  "cql_write_big_endian_u32 b at val =
     cql_write_big_endian_u16 (cql_write_big_endian_u16 b at (ucast (drop_bit 16 val))) (at + 2) (ucast val AND 0xffff)"

definition cql_write_big_endian_u64 :: "u8 mem \<Rightarrow> nat \<Rightarrow> u64 \<Rightarrow> u8 mem" where
  "cql_write_big_endian_u64 b at val =
     cql_write_big_endian_u32 (cql_write_big_endian_u32 b at (ucast (drop_bit 32 val))) (at + 4) (ucast val AND 0xffffffff)"

definition cql_read_big_endian_u32 :: "u8 list \<Rightarrow> nat \<Rightarrow> u32 option" where
  "cql_read_big_endian_u32 b at =
     do {
       b0 \<leftarrow> byte_at b at;
       b1 \<leftarrow> byte_at b (at + 1);
       b2 \<leftarrow> byte_at b (at + 2);
       b3 \<leftarrow> byte_at b (at + 3);
       let val = ucast b0;
       let val = push_bit 8 val OR ucast b1;
       let val = push_bit 8 val OR ucast b2;
       Some (push_bit 8 val OR ucast b3)
     }"

definition cql_read_big_endian_u64 :: "u8 list \<Rightarrow> nat \<Rightarrow> u64 option" where
  "cql_read_big_endian_u64 b at =
     do {
       hi \<leftarrow> cql_read_big_endian_u32 b at;
       lo \<leftarrow> cql_read_big_endian_u32 b (at + 4);
       Some (push_bit 32 (ucast hi) OR ucast lo)
     }"

section \<open>Headers and shapes\<close>

record cql_blob_header =
  magic :: u32
  column_count :: u32
  record_type :: u64

definition cql_read_blob_header :: "u8 list \<Rightarrow> u32 \<Rightarrow> cql_blob_header option" where
  "cql_read_blob_header blob original_bytes =
     (if original_bytes < 16 then Some \<lparr>magic = 0, column_count = 0, record_type = 0\<rparr>
      else do {
        r \<leftarrow> cql_read_big_endian_u64 blob 0;
        m \<leftarrow> cql_read_big_endian_u32 blob 8;
        n \<leftarrow> cql_read_big_endian_u32 blob 12;
        Some \<lparr>magic = m, column_count = n, record_type = r\<rparr>
      })"

definition cql_write_blob_header :: "u8 mem \<Rightarrow> cql_blob_header \<Rightarrow> u8 mem" where
  "cql_write_blob_header blob header =
     (let blob = cql_write_big_endian_u64 blob 0 (record_type header);
          blob = cql_write_big_endian_u32 blob 8 (magic header)
      in cql_write_big_endian_u32 blob 12 (column_count header))"

text \<open>
  The shapes of key and of value blobs; a key blob has no field ids.  The contract of the first
  compares with the total as \<open>cql_uint32\<close>, that of the second as \<open>cql_int32\<close>.
\<close>

record cql_key_blob_shape =
  header_size :: u64
  storage_size :: u64
  type_codes_size :: u64
  variable_size :: u64
  total_bytes :: u64
  storage_offset :: u64
  type_codes_offset :: u64
  variable_offset :: u64

record cql_val_blob_shape = cql_key_blob_shape +
  field_ids_size :: u64
  field_ids_offset :: u64

definition cql_compute_key_blob_shape :: "u64 \<Rightarrow> u64 \<Rightarrow> cql_key_blob_shape option" where
  "cql_compute_key_blob_shape columns var_size =
     (let hs = 16; ss = columns * 8; ts = columns;
          total = hs + ts + ss + var_size;
          so = hs; to = so + ss
      in do {
        require (total = ucast (ucast total :: u32));
        Some \<lparr>header_size = hs, storage_size = ss, type_codes_size = ts, variable_size = var_size, total_bytes = total,
              storage_offset = so, type_codes_offset = to, variable_offset = to + ts\<rparr>
      })"

definition cql_compute_val_blob_shape :: "u64 \<Rightarrow> u64 \<Rightarrow> cql_val_blob_shape option" where
  "cql_compute_val_blob_shape columns var_size =
     (let hs = 16; fs = columns * 8; ss = columns * 8; ts = columns;
          total = hs + fs + ts + ss + var_size;
          fo = hs; so = fo + fs; to = so + ss
      in do {
        require (total = scast (ucast total :: i32));
        Some \<lparr>header_size = hs, storage_size = ss, type_codes_size = ts, variable_size = var_size, total_bytes = total,
              storage_offset = so, type_codes_offset = to, variable_offset = to + ts,
              field_ids_size = fs, field_ids_offset = fo\<rparr>
      })"

text \<open>The length and the offset of a variable field, packed into its storage.\<close>

definition field_len :: "u64 \<Rightarrow> u64" where
  "field_len val = val AND 0xffffffff"

definition field_offset :: "u64 \<Rightarrow> u64" where
  "field_offset val = drop_bit 32 val"

definition field_info :: "nat \<Rightarrow> u32 \<Rightarrow> u64" where
  "field_info var_offset len = push_bit 32 (of_nat var_offset) OR ucast len"

fun validate_loop :: "u8 list \<Rightarrow> u64 \<Rightarrow> u64 \<Rightarrow> u64 \<Rightarrow> u64 \<Rightarrow> nat \<Rightarrow> nat \<Rightarrow> bool option" where
  "validate_loop b original_bytes so to vo icol 0 = Some True"
| "validate_loop b original_bytes so to vo icol (Suc n) =
     do {
       type \<leftarrow> byte_at b (unat to + icol);
       if type = CQL_BLOB_TYPE_BOOL \<or> type = CQL_BLOB_TYPE_INT32 \<or> type = CQL_BLOB_TYPE_INT64 \<or> type = CQL_BLOB_TYPE_FLOAT
       then validate_loop b original_bytes so to vo (Suc icol) n
       else if type = CQL_BLOB_TYPE_STRING then
         do {
           val \<leftarrow> cql_read_big_endian_u64 b (unat so + icol * 8);
           let len = field_len val;
           let offset = field_offset val;
           let bytes = len + 1;
           if offset < vo \<or> offset + bytes > original_bytes then Some False
           else do {
             last \<leftarrow> byte_at b (unat (offset + len));
             if last \<noteq> 0 then Some False else validate_loop b original_bytes so to vo (Suc icol) n
           }
         }
       else if type = CQL_BLOB_TYPE_BLOB then
         do {
           val \<leftarrow> cql_read_big_endian_u64 b (unat so + icol * 8);
           let len = field_len val;
           let offset = field_offset val;
           if offset < vo \<or> offset + len > original_bytes then Some False
           else validate_loop b original_bytes so to vo (Suc icol) n
         }
       else Some False
     }"

definition cql_validate_blob_variable_fields :: "u8 list \<Rightarrow> u64 \<Rightarrow> u64 \<Rightarrow> u64 \<Rightarrow> u64 \<Rightarrow> u64 \<Rightarrow> bool option" where
  "cql_validate_blob_variable_fields b original_bytes columns so to vo =
     validate_loop b original_bytes so to vo 0 (unat columns)"

text \<open>Whether a value fits a field type, with the variable size that it needs; \<open>None\<close> when it does not.\<close>

definition cql_blobtype_vs_argtype_compat :: "sqlite3_value \<Rightarrow> u8 \<Rightarrow> u64 option" where
  "cql_blobtype_vs_argtype_compat field_value_arg type =
     (let field_value_type = sqlite3_value_type field_value_arg in
      if type = CQL_BLOB_TYPE_BOOL \<or> type = CQL_BLOB_TYPE_INT32 \<or> type = CQL_BLOB_TYPE_INT64 then
        if field_value_type \<noteq> SQLITE_INTEGER then None else Some 0
      else if type = CQL_BLOB_TYPE_FLOAT then
        if field_value_type \<noteq> SQLITE_FLOAT \<and> field_value_type \<noteq> SQLITE_INTEGER then None else Some 0
      else if type = CQL_BLOB_TYPE_STRING then
        if field_value_type \<noteq> SQLITE3_TEXT then None else Some (ucast (sqlite3_value_bytes field_value_arg) + 1)
      else if type = CQL_BLOB_TYPE_BLOB then
        if field_value_type \<noteq> SQLITE_BLOB then None else Some (ucast (sqlite3_value_bytes field_value_arg))
      else None)"

section \<open>Creating key blobs\<close>

text \<open>The storage of one field: the new contents of the block and the next variable offset.\<close>

definition write_value :: "sqlite_conv \<Rightarrow> u8 mem \<Rightarrow> nat \<Rightarrow> nat \<Rightarrow> u8 \<Rightarrow> sqlite3_value \<Rightarrow> u8 mem \<times> nat" where
  "write_value C b so vo type v =
     (if type = CQL_BLOB_TYPE_BOOL then
        (cql_write_big_endian_u64 b so (if sqlite3_value_int64 C v \<noteq> 0 then 1 else 0), vo)
      else if type = CQL_BLOB_TYPE_INT64 \<or> type = CQL_BLOB_TYPE_INT32 then
        (cql_write_big_endian_u64 b so (sqlite3_value_int64 C v), vo)
      else if type = CQL_BLOB_TYPE_FLOAT then (put_bytes b so (sqlite3_value_double C v), vo)
      else if type = CQL_BLOB_TYPE_STRING then
        let len = sqlite3_value_bytes v;
            b = cql_write_big_endian_u64 b so (field_info vo len)
        in (put_bytes b vo (value_data v @ [0]), vo + unat len + 1)
      else if type = CQL_BLOB_TYPE_BLOB then
        let len = sqlite3_value_bytes v;
            b = cql_write_big_endian_u64 b so (field_info vo len)
        in (put_bytes b vo (value_data v), vo + unat len)
      else (b, vo))"

text \<open>The first pass over the pairs of values and types: the variable size, \<open>None\<close> on the error path.\<close>

fun key_args_size :: "sqlite_conv \<Rightarrow> sqlite3_value list \<Rightarrow> u64 \<Rightarrow> u64 option" where
  "key_args_size C (v # t # args) var_size =
     (if sqlite3_value_type t \<noteq> SQLITE_INTEGER then None
      else case cql_blobtype_vs_argtype_compat v (ucast (sqlite3_value_int64 C t)) of
          None \<Rightarrow> None
        | Some field_variable_size \<Rightarrow> key_args_size C args (var_size + field_variable_size))"
| "key_args_size C _ var_size = Some var_size"

text \<open>The second pass.\<close>

fun key_fill :: "sqlite_conv \<Rightarrow> sqlite3_value list \<Rightarrow> u8 mem \<Rightarrow> nat \<Rightarrow> nat \<Rightarrow> nat \<Rightarrow> u8 mem" where
  "key_fill C (v # t # args) b so to vo =
     (let type = ucast (sqlite3_value_int64 C t);
          b = put_bytes b to [type]
      in case write_value C b so vo type v of (b, vo) \<Rightarrow> key_fill C args b (so + 8) (to + 1) vo)"
| "key_fill C _ b so to vo = b"

definition bcreatekey :: "sqlite_conv \<Rightarrow> sqlite3_value list \<Rightarrow> sqlite_result option" where
  "bcreatekey C argv =
     (let argc = length argv in
      if argc < 3 \<or> argc mod 2 = 0 then Some Result_error
      else if sqlite3_value_type (argv ! 0) \<noteq> SQLITE_INTEGER then Some Result_error
      else
        let rtype = sqlite3_value_int64 C (argv ! 0);
            columns = of_nat ((argc - 1) div 2) :: u32
        in do {
          require (columns \<ge> 1);
          (case key_args_size C (tl argv) 0 of
             None \<Rightarrow> Some Result_error
           | Some var_size \<Rightarrow>
               do {
                 shape \<leftarrow> cql_compute_key_blob_shape (ucast columns) var_size;
                 b \<leftarrow> sqlite3_malloc (total_bytes shape);
                 let b = cql_write_blob_header b \<lparr>magic = CQL_BLOB_MAGIC, column_count = columns, record_type = rtype\<rparr>;
                 result_blob (key_fill C (tl argv) b (unat (storage_offset shape)) (unat (type_codes_offset shape))
                   (unat (variable_offset shape)))
               })
        })"

section \<open>Reading key blobs\<close>

text \<open>The result for a field of a validated blob.\<close>

definition field_result :: "u8 list \<Rightarrow> u32 \<Rightarrow> nat \<Rightarrow> u8 \<Rightarrow> sqlite_result option" where
  "field_result b original_bytes so type =
     (if type = CQL_BLOB_TYPE_BOOL then
        do { val \<leftarrow> cql_read_big_endian_u64 b so; Some (Result_int64 (if val \<noteq> 0 then 1 else 0)) }
      else if type = CQL_BLOB_TYPE_INT32 \<or> type = CQL_BLOB_TYPE_INT64 then
        do { val \<leftarrow> cql_read_big_endian_u64 b so; Some (Result_int64 val) }
      else if type = CQL_BLOB_TYPE_FLOAT then
        do { d \<leftarrow> slice b so 8; Some (Result_double d) }
      else if type = CQL_BLOB_TYPE_STRING \<or> type = CQL_BLOB_TYPE_BLOB then
        do {
          val \<leftarrow> cql_read_big_endian_u64 b so;
          let len = (ucast (field_len val) :: u32);
          let offset = (ucast (field_offset val) :: u32);
          if (ucast offset + ucast len :: u64) > ucast original_bytes then Some Result_error
          else do {
            data \<leftarrow> slice b (unat offset) (unat len);
            Some (if type = CQL_BLOB_TYPE_STRING then Result_text data else Result_blob (map Some data))
          }
        }
      else Some Result_error)"

definition bgetkey :: "sqlite_conv \<Rightarrow> sqlite3_value list \<Rightarrow> sqlite_result option" where
  "bgetkey C argv =
     (if length argv \<noteq> 2 \<or> sqlite3_value_type (argv ! 0) \<noteq> SQLITE_BLOB \<or> sqlite3_value_type (argv ! 1) \<noteq> SQLITE_INTEGER
      then Some Result_error
      else
        let icol = sqlite3_value_int64 C (argv ! 1);
            b = value_data (argv ! 0);
            original_bytes = sqlite3_value_bytes (argv ! 0)
        in do {
          header \<leftarrow> cql_read_blob_header b original_bytes;
          if icol \<ge> ucast (column_count header) \<or> magic header \<noteq> CQL_BLOB_MAGIC then Some Result_error
          else do {
            shape \<leftarrow> cql_compute_key_blob_shape (ucast (column_count header)) 0;
            if variable_offset shape > ucast original_bytes then Some Result_error
            else do {
              ok \<leftarrow> cql_validate_blob_variable_fields b (ucast original_bytes) (ucast (column_count header))
                      (storage_offset shape) (type_codes_offset shape) (variable_offset shape);
              if \<not> ok then Some Result_error
              else do {
                type \<leftarrow> byte_at b (unat (type_codes_offset shape + icol));
                field_result b original_bytes (unat (storage_offset shape + icol * 8)) type
              }
            }
          }
        })"

definition bgetkey_type :: "sqlite3_value list \<Rightarrow> sqlite_result option" where
  "bgetkey_type argv =
     (if length argv \<noteq> 1 \<or> sqlite3_value_type (argv ! 0) \<noteq> SQLITE_BLOB then Some Result_error
      else
        let b = value_data (argv ! 0);
            original_bytes = sqlite3_value_bytes (argv ! 0)
        in do {
          header \<leftarrow> cql_read_blob_header b original_bytes;
          if magic header \<noteq> CQL_BLOB_MAGIC then Some Result_error
          else do {
            shape \<leftarrow> cql_compute_key_blob_shape (ucast (column_count header)) 0;
            if variable_offset shape > ucast original_bytes then Some Result_error
            else do {
              ok \<leftarrow> cql_validate_blob_variable_fields b (ucast original_bytes) (ucast (column_count header))
                      (storage_offset shape) (type_codes_offset shape) (variable_offset shape);
              Some (if ok then Result_int64 (record_type header) else Result_error)
            }
          }
        })"

section \<open>Updating key blobs\<close>

text \<open>A 64-bit number in memory, lowest byte first.\<close>

definition bytes_of_u64 :: "u64 \<Rightarrow> u8 list" where
  "bytes_of_u64 w = map (\<lambda>i. ucast (drop_bit (8 * i) w)) [0..<8]"

definition u64_of_bytes :: "u8 list \<Rightarrow> u64" where
  "u64_of_bytes bs = foldr (\<lambda>b w. ucast b OR push_bit 8 w) bs 0"

definition load_u64 :: "u8 mem \<Rightarrow> nat \<Rightarrow> u64 option" where
  "load_u64 m at =
     (case mem_load m at 8 of
        Some cs \<Rightarrow> if None \<in> set cs then None else Some (u64_of_bytes (map the cs))
      | None \<Rightarrow> None)"

text \<open>
  The first pass over the updates marks the columns and adds up the change of the variable size;
  \<open>Inl ()\<close> is the error path.
\<close>

fun key_update_check ::
  "sqlite_conv \<Rightarrow> u32 \<Rightarrow> cql_key_blob_shape \<Rightarrow> sqlite3_value list \<Rightarrow> u8 list \<Rightarrow> i64 \<Rightarrow> (unit + u8 list \<times> i64) option" where
  "key_update_check C columns shape (i # v # args) b adjustment =
     (if sqlite3_value_type i \<noteq> SQLITE_INTEGER then Some (Inl ())
      else
        let icol = sqlite3_value_int64 C i in
        if icol \<ge> ucast columns then Some (Inl ())
        else
          let so = unat (storage_offset shape + icol * 8);
              to = unat (type_codes_offset shape + icol)
          in do {
            type \<leftarrow> byte_at b to;
            if type AND CQL_BLOB_TYPE_DIRTY \<noteq> 0 then Some (Inl ())
            else
              let b = b[to := type OR CQL_BLOB_TYPE_DIRTY] in
              (case cql_blobtype_vs_argtype_compat v type of
                 None \<Rightarrow> Some (Inl ())
               | Some field_variable_size \<Rightarrow>
                   let adjustment = adjustment + field_variable_size in
                   if type = CQL_BLOB_TYPE_STRING then
                     do {
                       val \<leftarrow> cql_read_big_endian_u64 b so;
                       key_update_check C columns shape args b (adjustment - (field_len val + 1))
                     }
                   else if type = CQL_BLOB_TYPE_BLOB then
                     do {
                       val \<leftarrow> cql_read_big_endian_u64 b so;
                       key_update_check C columns shape args b (adjustment - field_len val)
                     }
                   else key_update_check C columns shape args b adjustment)
          })"
| "key_update_check C columns shape _ b adjustment = Some (Inr (b, adjustment))"

text \<open>
  The second pass writes the fixed fields and, for a variable field, the index of its argument.
\<close>

fun key_update_fixed ::
  "sqlite_conv \<Rightarrow> cql_key_blob_shape \<Rightarrow> u8 list \<Rightarrow> sqlite3_value list \<Rightarrow> nat \<Rightarrow> u8 mem \<Rightarrow> u8 mem option" where
  "key_update_fixed C shape b (i # v # args) index result =
     (let icol = sqlite3_value_int64 C i;
          so = unat (storage_offset shape + icol * 8);
          to = unat (type_codes_offset shape + icol)
      in do {
        type \<leftarrow> byte_at b to;
        let type = type AND NOT CQL_BLOB_TYPE_DIRTY;
        let result = put_bytes result to [type];
        key_update_fixed C shape b args (index + 2)
          (if type = CQL_BLOB_TYPE_STRING \<or> type = CQL_BLOB_TYPE_BLOB
           then put_bytes result so (bytes_of_u64 (of_nat (index + 1)))
           else fst (write_value C result so 0 type v))
      })"
| "key_update_fixed C shape b _ index result = Some result"

text \<open>The third pass writes the variable fields in the order of the columns.\<close>

definition copy_variable :: "u8 list \<Rightarrow> nat \<Rightarrow> nat \<Rightarrow> u8 \<Rightarrow> u8 mem \<Rightarrow> nat \<Rightarrow> (u8 mem \<times> nat) option" where
  "copy_variable b from so type result vo =
     do {
       val \<leftarrow> cql_read_big_endian_u64 b from;
       let len = (ucast (field_len val) :: u32);
       let offset = (ucast (field_offset val) :: u32);
       let result = cql_write_big_endian_u64 result so (field_info vo len);
       let bytes = (if type = CQL_BLOB_TYPE_STRING then unat len + 1 else unat len);
       data \<leftarrow> slice b (unat offset) bytes;
       Some (put_bytes result vo data, vo + bytes)
     }"

fun key_update_variable ::
  "sqlite3_value list \<Rightarrow> cql_key_blob_shape \<Rightarrow> u8 list \<Rightarrow> nat \<Rightarrow> nat \<Rightarrow> u8 mem \<Rightarrow> nat \<Rightarrow> u8 mem option" where
  "key_update_variable argv shape b icol 0 result vo = Some result"
| "key_update_variable argv shape b icol (Suc n) result vo =
     (let so = unat (storage_offset shape) + icol * 8;
          to = unat (type_codes_offset shape) + icol
      in do {
        type \<leftarrow> byte_at b to;
        if type = CQL_BLOB_TYPE_STRING \<or> type = CQL_BLOB_TYPE_BLOB then
          do {
            (result, vo) \<leftarrow> copy_variable b so so type result vo;
            key_update_variable argv shape b (Suc icol) n result vo
          }
        else if type = CQL_BLOB_TYPE_STRING OR CQL_BLOB_TYPE_DIRTY \<or> type = CQL_BLOB_TYPE_BLOB OR CQL_BLOB_TYPE_DIRTY then
          do {
            iarg \<leftarrow> load_u64 result so;
            require (unat iarg < length argv);
            let v = argv ! unat iarg;
            let len = sqlite3_value_bytes v;
            let result = cql_write_big_endian_u64 result so (field_info vo len);
            if type = CQL_BLOB_TYPE_STRING OR CQL_BLOB_TYPE_DIRTY
            then key_update_variable argv shape b (Suc icol) n (put_bytes result vo (value_data v @ [0])) (vo + unat len + 1)
            else key_update_variable argv shape b (Suc icol) n (put_bytes result vo (value_data v)) (vo + unat len)
          }
        else key_update_variable argv shape b (Suc icol) n result vo
      })"

definition bupdatekey :: "sqlite_conv \<Rightarrow> sqlite3_value list \<Rightarrow> sqlite_result option" where
  "bupdatekey C argv =
     (let argc = length argv in
      if argc < 3 \<or> argc mod 2 = 0 then Some Result_error
      else if sqlite3_value_type (argv ! 0) \<noteq> SQLITE_BLOB then Some Result_error
      else
        let b = value_data (argv ! 0);
            original_bytes = sqlite3_value_bytes (argv ! 0)
        in do {
          header \<leftarrow> cql_read_blob_header b original_bytes;
          if magic header \<noteq> CQL_BLOB_MAGIC then Some Result_error
          else do {
            shape \<leftarrow> cql_compute_key_blob_shape (ucast (column_count header)) 0;
            if variable_offset shape > ucast original_bytes then Some Result_error
            else do {
              ok \<leftarrow> cql_validate_blob_variable_fields b (ucast original_bytes) (ucast (column_count header))
                      (storage_offset shape) (type_codes_offset shape) (variable_offset shape);
              if \<not> ok then Some Result_error
              else do {
                checked \<leftarrow> key_update_check C (column_count header) shape (tl argv) b 0;
                (case checked of
                   Inl _ \<Rightarrow> Some Result_error
                 | Inr (b, adjustment) \<Rightarrow>
                     let total = ucast original_bytes + adjustment in
                     do {
                       require (total = scast (ucast total :: i32));
                       result \<leftarrow> sqlite3_malloc total;
                       head \<leftarrow> slice b 0 (unat (variable_offset shape));
                       result \<leftarrow> key_update_fixed C shape b (tl argv) 1 (put_bytes result 0 head);
                       result \<leftarrow> key_update_variable argv shape b 0 (unat (column_count header)) result
                                   (unat (variable_offset shape));
                       result_blob result
                     })
              }
            }
          }
        })"

end
