(* ===== verification/Val_Blobs.thy ===== *)
theory Val_Blobs
  imports Blobs
begin

text \<open>
  Value blobs of the runtime (\<open>sources/cqlrt_common.c\<close>): the SQL functions \<open>bcreateval\<close>, \<open>bgetval\<close>,
  \<open>bgetval_type\<close> and \<open>bupdateval\<close>.  A field has an id and is found by it; a null value is not stored.
  The conventions are those of key blobs.
\<close>

section \<open>Creating value blobs\<close>

text \<open>
  The first pass over the triples of id, value and type gives the variable size and the number of
  stored columns, \<open>None\<close> on the error path.
\<close>

fun val_args_size :: "sqlite_conv \<Rightarrow> sqlite3_value list \<Rightarrow> u64 \<Rightarrow> u32 \<Rightarrow> (u64 \<times> u32) option" where
  "val_args_size C (i # v # t # args) var_size actual_cols =
     (if sqlite3_value_type t \<noteq> SQLITE_INTEGER then None
      else if sqlite3_value_type i \<noteq> SQLITE_INTEGER then None
      else if sqlite3_value_type v = SQLITE_NULL then val_args_size C args var_size actual_cols
      else case cql_blobtype_vs_argtype_compat v (ucast (sqlite3_value_int64 C t)) of
          None \<Rightarrow> None
        | Some field_variable_size \<Rightarrow> val_args_size C args (var_size + field_variable_size) (actual_cols + 1))"
| "val_args_size C _ var_size actual_cols = Some (var_size, actual_cols)"

text \<open>
  The second pass, with the next position in each of the four areas: field ids, storage, type codes
  and variable data.
\<close>

record positions =
  ids_at :: nat
  storage_at :: nat
  types_at :: nat
  variable_at :: nat

fun val_fill :: "sqlite_conv \<Rightarrow> sqlite3_value list \<Rightarrow> u8 mem \<Rightarrow> positions \<Rightarrow> u8 mem \<times> positions" where
  "val_fill C (i # v # t # args) b p =
     (if sqlite3_value_type v = SQLITE_NULL then val_fill C args b p
      else
        let type = ucast (sqlite3_value_int64 C t);
            b = put_bytes b (types_at p) [type];
            b = cql_write_big_endian_u64 b (ids_at p) (sqlite3_value_int64 C i)
        in case write_value C b (storage_at p) (variable_at p) type v of
             (b, vo) \<Rightarrow> val_fill C args b
                \<lparr>ids_at = ids_at p + 8, storage_at = storage_at p + 8, types_at = types_at p + 1, variable_at = vo\<rparr>)"
| "val_fill C _ b p = (b, p)"

definition first_positions :: "cql_val_blob_shape \<Rightarrow> positions" where
  "first_positions shape =
     \<lparr>ids_at = unat (field_ids_offset shape), storage_at = unat (storage_offset shape),
      types_at = unat (type_codes_offset shape), variable_at = unat (variable_offset shape)\<rparr>"

definition bcreateval :: "sqlite_conv \<Rightarrow> sqlite3_value list \<Rightarrow> sqlite_result option" where
  "bcreateval C argv =
     (let argc = length argv in
      if argc < 1 \<or> argc mod 3 \<noteq> 1 then Some Result_error
      else if sqlite3_value_type (argv ! 0) \<noteq> SQLITE_INTEGER then Some Result_error
      else
        let rtype = sqlite3_value_int64 C (argv ! 0) in
        (case val_args_size C (tl argv) 0 0 of
           None \<Rightarrow> Some Result_error
         | Some (var_size, actual_cols) \<Rightarrow>
             do {
               shape \<leftarrow> cql_compute_val_blob_shape (ucast actual_cols) var_size;
               b \<leftarrow> sqlite3_malloc (total_bytes shape);
               let b = cql_write_blob_header b \<lparr>magic = CQL_BLOB_MAGIC, column_count = actual_cols, record_type = rtype\<rparr>;
               result_blob (fst (val_fill C (tl argv) b (first_positions shape)))
             }))"

section \<open>Reading value blobs\<close>

text \<open>The column with a field id, or the column count when there is none.\<close>

fun find_field :: "u8 list \<Rightarrow> nat \<Rightarrow> i64 \<Rightarrow> nat \<Rightarrow> nat \<Rightarrow> nat option" where
  "find_field b fo field_id icol 0 = Some icol"
| "find_field b fo field_id icol (Suc n) =
     do {
       stored_field_id \<leftarrow> cql_read_big_endian_u64 b (fo + icol * 8);
       if stored_field_id = field_id then Some icol else find_field b fo field_id (Suc icol) n
     }"

definition bgetval :: "sqlite_conv \<Rightarrow> sqlite3_value list \<Rightarrow> sqlite_result option" where
  "bgetval C argv =
     (if length argv \<noteq> 2 \<or> sqlite3_value_type (argv ! 0) \<noteq> SQLITE_BLOB \<or> sqlite3_value_type (argv ! 1) \<noteq> SQLITE_INTEGER
      then Some Result_error
      else
        let field_id = sqlite3_value_int64 C (argv ! 1);
            b = value_data (argv ! 0);
            original_bytes = sqlite3_value_bytes (argv ! 0)
        in do {
          header \<leftarrow> cql_read_blob_header b original_bytes;
          if magic header \<noteq> CQL_BLOB_MAGIC then Some Result_error
          else do {
            shape \<leftarrow> cql_compute_val_blob_shape (ucast (column_count header)) 0;
            if variable_offset shape > ucast original_bytes then Some Result_error
            else do {
              ok \<leftarrow> cql_validate_blob_variable_fields b (ucast original_bytes) (ucast (column_count header))
                      (storage_offset shape) (type_codes_offset shape) (variable_offset shape);
              if \<not> ok then Some Result_error
              else do {
                icol \<leftarrow> find_field b (unat (field_ids_offset shape)) field_id 0 (unat (column_count header));
                if icol \<ge> unat (column_count header) then Some Result_null
                else do {
                  type \<leftarrow> byte_at b (unat (type_codes_offset shape) + icol);
                  field_result b original_bytes (unat (storage_offset shape) + icol * 8) type
                }
              }
            }
          }
        })"

definition bgetval_type :: "sqlite3_value list \<Rightarrow> sqlite_result option" where
  "bgetval_type argv =
     (if length argv \<noteq> 1 \<or> sqlite3_value_type (argv ! 0) \<noteq> SQLITE_BLOB then Some Result_error
      else
        let b = value_data (argv ! 0);
            original_bytes = sqlite3_value_bytes (argv ! 0)
        in do {
          header \<leftarrow> cql_read_blob_header b original_bytes;
          if magic header \<noteq> CQL_BLOB_MAGIC then Some Result_error
          else do {
            shape \<leftarrow> cql_compute_val_blob_shape (ucast (column_count header)) 0;
            if variable_offset shape > ucast original_bytes then Some Result_error
            else do {
              ok \<leftarrow> cql_validate_blob_variable_fields b (ucast original_bytes) (ucast (column_count header))
                      (storage_offset shape) (type_codes_offset shape) (variable_offset shape);
              Some (if ok then Result_int64 (record_type header) else Result_error)
            }
          }
        })"

section \<open>Updating value blobs\<close>

text \<open>The variable bytes that a stored column takes; the length is a 32-bit number in the code.\<close>

definition stored_size :: "u8 list \<Rightarrow> nat \<Rightarrow> u8 \<Rightarrow> u64 option" where
  "stored_size b so type =
     (if type = CQL_BLOB_TYPE_STRING then
        do { val \<leftarrow> cql_read_big_endian_u64 b so; Some (ucast ((ucast (field_len val) :: u32) + 1)) }
      else if type = CQL_BLOB_TYPE_BLOB then
        do { val \<leftarrow> cql_read_big_endian_u64 b so; Some (ucast (ucast (field_len val) :: u32)) }
      else Some 0)"

text \<open>
  The first pass over the updates: the columns that it marks, the change of the variable size and
  of the number of columns; \<open>Inl ()\<close> is the error path.
\<close>

fun val_update_check ::
  "sqlite_conv \<Rightarrow> nat \<Rightarrow> cql_val_blob_shape \<Rightarrow> sqlite3_value list \<Rightarrow> u8 list \<Rightarrow> i64 \<Rightarrow> i32 \<Rightarrow>
   (unit + u8 list \<times> i64 \<times> i32) option" where
  "val_update_check C n shape (i # v # t # args) b adjustment col_adjustment =
     (if sqlite3_value_type i \<noteq> SQLITE_INTEGER then Some (Inl ())
      else do {
        icol \<leftarrow> find_field b (unat (field_ids_offset shape)) (sqlite3_value_int64 C i) 0 n;
        let type = (ucast (sqlite3_value_int64 C t) :: u8);
        if icol \<ge> n then
          if sqlite3_value_type v \<noteq> SQLITE_NULL then
            (case cql_blobtype_vs_argtype_compat v type of
               None \<Rightarrow> Some (Inl ())
             | Some field_variable_size \<Rightarrow>
                 val_update_check C n shape args b (adjustment + field_variable_size) (col_adjustment + 1))
          else val_update_check C n shape args b adjustment col_adjustment
        else do {
          let to = unat (type_codes_offset shape) + icol;
          stored_type \<leftarrow> byte_at b to;
          if type \<noteq> stored_type then Some (Inl ())
          else
            let b = b[to := type OR CQL_BLOB_TYPE_DIRTY] in
            if sqlite3_value_type v \<noteq> SQLITE_NULL then
              (case cql_blobtype_vs_argtype_compat v type of
                 None \<Rightarrow> Some (Inl ())
               | Some variable_size_new \<Rightarrow>
                   do {
                     variable_size_stored \<leftarrow> stored_size b (unat (storage_offset shape) + icol * 8) type;
                     val_update_check C n shape args b (adjustment + (variable_size_new - variable_size_stored)) col_adjustment
                   })
            else val_update_check C n shape args b adjustment (col_adjustment - 1)
        }
      })"
| "val_update_check C n shape _ b adjustment col_adjustment = Some (Inr (b, adjustment, col_adjustment))"

text \<open>The second pass writes the new values as \<open>bcreateval\<close> does.\<close>

definition val_update_new :: "sqlite_conv \<Rightarrow> sqlite3_value list \<Rightarrow> u8 mem \<Rightarrow> positions \<Rightarrow> u8 mem \<times> positions" where
  "val_update_new C args result p = val_fill C args result p"

text \<open>The final pass copies the columns that are not marked.\<close>

fun val_update_copy :: "u8 list \<Rightarrow> cql_val_blob_shape \<Rightarrow> nat \<Rightarrow> nat \<Rightarrow> u8 mem \<Rightarrow> positions \<Rightarrow> u8 mem option" where
  "val_update_copy b shape icol 0 result p = Some result"
| "val_update_copy b shape icol (Suc n) result p =
     do {
       type \<leftarrow> byte_at b (unat (type_codes_offset shape) + icol);
       let data_at = unat (storage_offset shape) + icol * 8;
       let id_at = unat (field_ids_offset shape) + icol * 8;
       copied \<leftarrow>
         (if type = CQL_BLOB_TYPE_BOOL \<or> type = CQL_BLOB_TYPE_INT32 \<or> type = CQL_BLOB_TYPE_INT64 \<or> type = CQL_BLOB_TYPE_FLOAT
          then do { data \<leftarrow> slice b data_at 8; Some (Some (put_bytes result (storage_at p) data, variable_at p)) }
          else if type = CQL_BLOB_TYPE_STRING \<or> type = CQL_BLOB_TYPE_BLOB
          then do { r \<leftarrow> copy_variable b data_at (storage_at p) type result (variable_at p); Some (Some r) }
          else Some None);
       (case copied of
          None \<Rightarrow> val_update_copy b shape (Suc icol) n result p
        | Some (result, vo) \<Rightarrow>
            do {
              field_id \<leftarrow> slice b id_at 8;
              let result = put_bytes result (types_at p) [type];
              let result = put_bytes result (ids_at p) field_id;
              val_update_copy b shape (Suc icol) n result
                \<lparr>ids_at = ids_at p + 8, storage_at = storage_at p + 8, types_at = types_at p + 1, variable_at = vo\<rparr>
            })
     }"

definition bupdateval :: "sqlite_conv \<Rightarrow> sqlite3_value list \<Rightarrow> sqlite_result option" where
  "bupdateval C argv =
     (let argc = length argv in
      if argc < 4 \<or> argc mod 3 \<noteq> 1 then Some Result_error
      else if sqlite3_value_type (argv ! 0) \<noteq> SQLITE_BLOB then Some Result_error
      else
        let b = value_data (argv ! 0);
            original_bytes = sqlite3_value_bytes (argv ! 0)
        in do {
          header \<leftarrow> cql_read_blob_header b original_bytes;
          if magic header \<noteq> CQL_BLOB_MAGIC then Some Result_error
          else
            let column_count_original = ucast (column_count header) in
            do {
              original_shape \<leftarrow> cql_compute_val_blob_shape column_count_original 0;
              if variable_offset original_shape > ucast original_bytes then Some Result_error
              else do {
                ok \<leftarrow> cql_validate_blob_variable_fields b (ucast original_bytes) column_count_original
                        (storage_offset original_shape) (type_codes_offset original_shape) (variable_offset original_shape);
                if \<not> ok then Some Result_error
                else
                  let original_shape = original_shape\<lparr>total_bytes := ucast original_bytes,
                        variable_size := ucast original_bytes - variable_offset original_shape\<rparr>
                  in do {
                    checked \<leftarrow> val_update_check C (unat column_count_original) original_shape (tl argv) b 0 0;
                    (case checked of
                       Inl _ \<Rightarrow> Some Result_error
                     | Inr (b, variable_size_adjustment, col_adjustment) \<Rightarrow>
                         let column_count_new = column_count_original + scast col_adjustment;
                             new_variable_size = variable_size original_shape + variable_size_adjustment
                         in do {
                           new_shape \<leftarrow> cql_compute_val_blob_shape column_count_new new_variable_size;
                           result \<leftarrow> sqlite3_malloc (total_bytes new_shape);
                           (case val_update_new C (tl argv) result (first_positions new_shape) of
                              (result, p) \<Rightarrow>
                                do {
                                  result \<leftarrow> val_update_copy b original_shape 0 (unat column_count_original) result p;
                                  result_blob (cql_write_blob_header result (header\<lparr>column_count := ucast column_count_new\<rparr>))
                                })
                         })
                  }
              }
            }
        })"

end
