(* ===== verification/Blobs_Layout.thy ===== *)
theory Blobs_Layout
  imports Blobs
begin

text \<open>
  The layout of blobs: big endian numbers as byte lists, the packing of offsets and lengths, and the
  canonical encoding of a list of columns with the bytes of its fixed and variable parts.
\<close>

section \<open>Big endian numbers\<close>

definition be32 :: "u32 \<Rightarrow> u8 list" where
  "be32 w = [ucast (drop_bit 24 w), ucast (drop_bit 16 w), ucast (drop_bit 8 w), ucast w]"

definition be64 :: "u64 \<Rightarrow> u8 list" where
  "be64 w = be32 (ucast (drop_bit 32 w)) @ be32 (ucast w)"

lemma length_be [simp]: "length (be32 v) = 4" "length (be64 w) = 8"
  by (simp_all add: be32_def be64_def)

lemma put_put: "put_bytes (put_bytes m at xs) (at + length xs) ys = put_bytes m at (xs @ ys)"
  by (cases m) (auto simp: put_bytes_def ac_simps)

lemma ucast_mask:
  "ucast ((v :: u16) AND 0xff) = (ucast v :: u8)" "(ucast (w :: u32) AND 0xffff :: u16) = ucast w"
  "(ucast (x :: u64) AND 0xffffffff :: u32) = ucast x"
proof -
  have m: "(0xff :: u16) = mask 8" "(0xffff :: u16) = mask 16" "(0xffffffff :: u32) = mask 32"
    by (simp_all add: mask_eq_exp_minus_1)
  show "ucast (v AND 0xff) = (ucast v :: u8)"
    unfolding m by (rule bit_word_eqI) (auto simp: bit_ucast_iff bit_and_iff bit_mask_iff)
  show "(ucast w AND 0xffff :: u16) = ucast w"
    unfolding m by (rule bit_word_eqI) (auto simp: bit_ucast_iff bit_and_iff bit_mask_iff)
  show "(ucast x AND 0xffffffff :: u32) = ucast x"
    unfolding m by (rule bit_word_eqI) (auto simp: bit_ucast_iff bit_and_iff bit_mask_iff)
qed

lemma ucast_drop:
  "(ucast (drop_bit 8 (ucast (drop_bit 16 w) :: u16)) :: u8) = ucast (drop_bit 24 (w :: u32))"
  "(ucast (ucast (drop_bit 16 w) :: u16) :: u8) = ucast (drop_bit 16 w)"
  "(ucast (drop_bit 8 (ucast w :: u16)) :: u8) = ucast (drop_bit 8 w)"
  "(ucast (ucast w :: u16) :: u8) = ucast w"
  by (rule bit_word_eqI; auto simp: bit_ucast_iff bit_drop_bit_eq)+

lemma write_u16: "cql_write_big_endian_u16 m at v = put_bytes m at [ucast (drop_bit 8 v), ucast v]"
  using put_put [of m at "[ucast (drop_bit 8 v)]" "[ucast v]"] by (simp add: cql_write_big_endian_u16_def ucast_mask)

lemma write_u32: "cql_write_big_endian_u32 m at v = put_bytes m at (be32 v)"
  using put_put [of m at "[ucast (drop_bit 8 (ucast (drop_bit 16 v) :: u16)), ucast (ucast (drop_bit 16 v) :: u16)]"
      "[ucast (drop_bit 8 (ucast v :: u16)), ucast (ucast v :: u16)]"]
  by (simp add: cql_write_big_endian_u32_def write_u16 ucast_mask ucast_drop be32_def)

lemma write_u64: "cql_write_big_endian_u64 m at v = put_bytes m at (be64 v)"
  using put_put [of m at "be32 (ucast (drop_bit 32 v))" "be32 (ucast v)"]
  by (simp add: cql_write_big_endian_u64_def write_u32 ucast_mask be64_def)

lemma be32_value:
  fixes w :: u32
  shows "push_bit 8 (push_bit 8 (push_bit 8 (ucast (ucast (drop_bit 24 w) :: u8)) OR ucast (ucast (drop_bit 16 w) :: u8)) OR
      ucast (ucast (drop_bit 8 w) :: u8)) OR ucast (ucast w :: u8) = w"
proof (rule bit_word_eqI)
  fix n assume n: "n < LENGTH(32)"
  consider "n < 8" | "8 \<le> n" "n < 16" | "16 \<le> n" "n < 24" | "24 \<le> n" "n < 32" using n by fastforce
  then show "bit (push_bit 8 (push_bit 8 (push_bit 8 (ucast (ucast (drop_bit 24 w) :: u8) :: u32) OR
      ucast (ucast (drop_bit 16 w) :: u8)) OR ucast (ucast (drop_bit 8 w) :: u8)) OR ucast (ucast w :: u8)) n = bit w n"
    by cases (simp_all only: bit_or_iff bit_push_bit_iff bit_ucast_iff bit_drop_bit_eq comp_def, auto simp: diff_diff_left)
qed

lemma be64_value:
  fixes w :: u64
  shows "push_bit 32 (ucast (ucast (drop_bit 32 w) :: u32)) OR ucast (ucast w :: u32) = w"
proof (rule bit_word_eqI)
  fix n assume n: "n < LENGTH(64)"
  then consider "n < 32" | "32 \<le> n" "n < 64" by fastforce
  then show "bit (push_bit 32 (ucast (ucast (drop_bit 32 w) :: u32) :: u64) OR ucast (ucast w :: u32)) n = bit w n"
    by cases (simp_all only: bit_or_iff bit_push_bit_iff bit_ucast_iff bit_drop_bit_eq comp_def, auto)
qed

lemma byte_at_append:
  "byte_at (xs @ ys) (length xs + i) = byte_at ys i"
  by (simp add: byte_at_def)

lemma read_u32: "cql_read_big_endian_u32 (xs @ be32 v @ ys) (length xs) = Some v"
  using be32_value [of v]
  by (simp add: cql_read_big_endian_u32_def byte_at_def nth_append be32_def or.assoc)

lemma read_u64: "cql_read_big_endian_u64 (xs @ be64 v @ ys) (length xs) = Some v"
  using read_u32 [of xs "ucast (drop_bit 32 v)" "be32 (ucast v) @ ys"]
    read_u32 [of "xs @ be32 (ucast (drop_bit 32 v))" "ucast v" ys] be64_value [of v]
  by (simp add: cql_read_big_endian_u64_def be64_def)

section \<open>Offsets and lengths\<close>

lemma unat_ucast_64 [simp]: "unat (ucast (x :: u32) :: u64) = unat x"
proof -
  have "unat x < 2 ^ 64" using unat_u32_bound [of x] by simp
  then show ?thesis by (simp add: unsigned_ucast_eq take_bit_nat_eq_self)
qed

lemma unat_of_nat_u64: "n < 2 ^ 64 \<Longrightarrow> unat (of_nat n :: u64) = n"
  by (simp add: unat_of_nat take_bit_nat_eq_self)

lemma ucast_of_nat_64: "k < 2 ^ 32 \<Longrightarrow> (ucast (of_nat k :: u32) :: u64) = of_nat k"
  by (rule word_unat_eq_iff [THEN iffD2]) (simp add: unat_of_nat_u32 unat_of_nat_u64)

lemma field_info_parts:
  assumes "off < 2 ^ 32" and "len < 2 ^ 32"
  shows "field_len (field_info off (of_nat len)) = of_nat len" "field_offset (field_info off (of_nat len)) = of_nat off"
proof -
  have m: "(0xffffffff :: u64) = mask 32" by (simp add: mask_eq_exp_minus_1)
  have "field_len (field_info off x) = ucast x" for x
    unfolding field_len_def field_info_def m
    by (rule bit_word_eqI) (auto simp: bit_and_iff bit_or_iff bit_push_bit_iff bit_mask_iff bit_ucast_iff dest: bit_imp_le_length)
  then show "field_len (field_info off (of_nat len)) = of_nat len"
    using assms(2) ucast_of_nat_64 by simp
  have o: "\<not> bit (of_nat off :: u64) n" if "32 \<le> n" for n
    using assms(1) that by (metis bit_take_bit_iff linorder_not_le of_nat_take_bit take_bit_nat_eq_self_iff unsigned_take_bit_eq)
  have "field_offset (field_info off x) = of_nat off" for x
    unfolding field_offset_def field_info_def
  proof (rule bit_word_eqI)
    fix n assume "n < LENGTH(64)"
    show "bit (drop_bit 32 (push_bit 32 (of_nat off) OR (ucast x :: u64))) n = bit (of_nat off :: u64) n"
      using o [of n] bit_imp_le_length [of x "32 + n"]
      by (cases "n < 32") (auto simp: bit_drop_bit_eq bit_or_iff bit_push_bit_iff bit_ucast_iff)
  qed
  then show "field_offset (field_info off (of_nat len)) = of_nat off" .
qed

section \<open>Columns\<close>

text \<open>A column is a type with its value; \<open>col_ok\<close> is what \<open>cql_blobtype_vs_argtype_compat\<close> accepts.\<close>

type_synonym column = "u8 \<times> sqlite3_value"

definition conv_ok :: "sqlite_conv \<Rightarrow> bool" where
  "conv_ok C \<longleftrightarrow> (\<forall>v. length (conv_double C v) = 8)"

fun col_ok :: "column \<Rightarrow> bool" where
  "col_ok (t, v) \<longleftrightarrow>
     (case v of
        V_null \<Rightarrow> False
      | V_int _ \<Rightarrow> t \<in> {0, 1, 2, 3}
      | V_float d \<Rightarrow> t = 3 \<and> length d = 8
      | V_text _ \<Rightarrow> t = 4
      | V_blob _ \<Rightarrow> t = 5)"

fun col_var :: "column \<Rightarrow> u8 list" where
  "col_var (t, v) = (if t = 4 then value_data v @ [0] else if t = 5 then value_data v else [])"

fun col_storage :: "sqlite_conv \<Rightarrow> nat \<Rightarrow> column \<Rightarrow> u8 list" where
  "col_storage C off (t, v) =
     (if t = 0 then be64 (if sqlite3_value_int64 C v \<noteq> 0 then 1 else 0)
      else if t = 1 \<or> t = 2 then be64 (sqlite3_value_int64 C v)
      else if t = 3 then sqlite3_value_double C v
      else be64 (field_info off (sqlite3_value_bytes v)))"

fun storage :: "sqlite_conv \<Rightarrow> nat \<Rightarrow> column list \<Rightarrow> u8 list" where
  "storage C off [] = []"
| "storage C off (c # cs) = col_storage C off c @ storage C (off + length (col_var c)) cs"

definition var_bytes :: "column list \<Rightarrow> u8 list" where
  "var_bytes cs = concat (map col_var cs)"

text \<open>What reading a column returns.\<close>

fun col_result :: "sqlite_conv \<Rightarrow> column \<Rightarrow> sqlite_result" where
  "col_result C (t, v) =
     (if t = 0 then Result_int64 (if sqlite3_value_int64 C v \<noteq> 0 then 1 else 0)
      else if t = 1 \<or> t = 2 then Result_int64 (sqlite3_value_int64 C v)
      else if t = 3 then Result_double (sqlite3_value_double C v)
      else if t = 4 then Result_text (value_data v)
      else Result_blob (map Some (value_data v)))"

lemmas type_defs = CQL_BLOB_TYPE_BOOL_def CQL_BLOB_TYPE_INT32_def CQL_BLOB_TYPE_INT64_def CQL_BLOB_TYPE_FLOAT_def
  CQL_BLOB_TYPE_STRING_def CQL_BLOB_TYPE_BLOB_def CQL_BLOB_TYPE_DIRTY_def

lemma var_bytes_simps [simp]: "var_bytes [] = []" "var_bytes (c # cs) = col_var c @ var_bytes cs"
  "var_bytes (cs @ cs') = var_bytes cs @ var_bytes cs'"
  by (simp_all add: var_bytes_def)

lemma col_ok_type: "col_ok c \<Longrightarrow> fst c \<in> {0, 1, 2, 3, 4, 5}"
  by (cases c) (auto split: sqlite3_value.splits)

lemma length_col_storage: "conv_ok C \<Longrightarrow> col_ok c \<Longrightarrow> length (col_storage C off c) = 8"
  by (cases c) (auto simp: conv_ok_def sqlite3_value_double_def split: sqlite3_value.splits)

lemma length_storage: "conv_ok C \<Longrightarrow> list_all col_ok cs \<Longrightarrow> length (storage C off cs) = 8 * length cs"
  by (induction cs arbitrary: off) (auto simp: length_col_storage simp del: col_storage.simps col_ok.simps)

lemma storage_append: "storage C off (cs @ cs') = storage C off cs @ storage C (off + length (var_bytes cs)) cs'"
  by (induction cs arbitrary: off) (auto simp: add.assoc)

lemma compat_ok:
  "length (value_data v) < 2 ^ 31 \<Longrightarrow>
     cql_blobtype_vs_argtype_compat v t = Some n \<Longrightarrow> n = of_nat (length (col_var (t, v)))"
  by (auto simp: cql_blobtype_vs_argtype_compat_def type_defs Let_def sqlite3_value_bytes_def ucast_of_nat_64 split: if_splits)

lemma compat_iff:
  assumes "\<And>d. v = V_float d \<Longrightarrow> length d = 8"
  shows "cql_blobtype_vs_argtype_compat v t \<noteq> None \<longleftrightarrow> col_ok (t, v)"
  using assms
  by (cases v) (auto simp: cql_blobtype_vs_argtype_compat_def type_defs Let_def sqlite3_value_type_def)

text \<open>Writing a value is writing its storage and its variable bytes.\<close>

lemma write_value_spec:
  assumes "col_ok (t, v)" and "length (value_data v) < 2 ^ 31"
  shows "write_value C m so vo t v =
    (if t \<in> {4, 5} then put_bytes (put_bytes m so (col_storage C vo (t, v))) vo (col_var (t, v))
     else put_bytes m so (col_storage C vo (t, v)), vo + length (col_var (t, v)))"
proof -
  have "unat (sqlite3_value_bytes v) = length (value_data v)"
    using assms(2) by (simp add: sqlite3_value_bytes_def unat_of_nat_u32)
  then show ?thesis
    using col_ok_type [OF assms(1)] by (auto simp: write_value_def type_defs write_u64 Let_def)
qed

section \<open>The fields of an encoding\<close>

text \<open>
  Key and value blobs have the same layout behind a prefix \<open>h\<close>: storage, types, variable bytes.
\<close>

definition layout :: "sqlite_conv \<Rightarrow> u8 list \<Rightarrow> column list \<Rightarrow> u8 list" where
  "layout C h cs = h @ storage C (length h + 9 * length cs) cs @ map fst cs @ var_bytes cs"

definition var_at :: "u8 list \<Rightarrow> column list \<Rightarrow> nat \<Rightarrow> nat" where
  "var_at h cs i = length h + 9 * length cs + length (var_bytes (take i cs))"

lemma length_layout:
  "conv_ok C \<Longrightarrow> list_all col_ok cs \<Longrightarrow> length (layout C h cs) = length h + 9 * length cs + length (var_bytes cs)"
  by (simp add: layout_def length_storage)

lemma storage_at:
  assumes "conv_ok C" and "list_all col_ok cs" and "i < length cs"
  obtains pre post where "storage C off cs = pre @ col_storage C (off + length (var_bytes (take i cs))) (cs ! i) @ post"
    "length pre = 8 * i"
proof -
  have "cs = take i cs @ cs ! i # drop (Suc i) cs" using id_take_nth_drop [OF assms(3)] .
  then have "storage C off cs = storage C off (take i cs) @
      col_storage C (off + length (var_bytes (take i cs))) (cs ! i) @
      storage C (off + length (var_bytes (take i cs)) + length (col_var (cs ! i))) (drop (Suc i) cs)"
    using storage_append [of C off "take i cs" "cs ! i # drop (Suc i) cs"] by simp
  moreover have "length (storage C off (take i cs)) = 8 * i"
    using length_storage [OF assms(1), of "take i cs"] assms(2,3) by (simp add: list_all_length)
  ultimately show thesis using that by blast
qed

lemma layout_at:
  assumes "conv_ok C" and "list_all col_ok cs" and "i < length cs"
  obtains pre post where "layout C h cs = pre @ col_storage C (var_at h cs i) (cs ! i) @ post" "length pre = length h + 8 * i"
proof -
  obtain pre post where "storage C (length h + 9 * length cs) cs = pre @ col_storage C (var_at h cs i) (cs ! i) @ post"
    "length pre = 8 * i" using storage_at [OF assms] unfolding var_at_def .
  then show thesis using that [of "h @ pre" "post @ map fst cs @ var_bytes cs"] by (simp add: layout_def)
qed

lemma layout_type:
  assumes "conv_ok C" and "list_all col_ok cs" and "i < length cs"
  shows "byte_at (layout C h cs) (length h + 8 * length cs + i) = Some (fst (cs ! i))"
  using byte_at_append [of "h @ storage C (length h + 9 * length cs) cs" "map fst cs @ var_bytes cs" i] assms
  by (simp add: layout_def length_storage byte_at_def nth_append)

lemma var_split: "i < length cs \<Longrightarrow> var_bytes cs = var_bytes (take i cs) @ col_var (cs ! i) @ var_bytes (drop (Suc i) cs)"
  using id_take_nth_drop [of i cs] by (metis var_bytes_simps(2,3))

lemma var_at_bound:
  assumes "conv_ok C" and "list_all col_ok cs" and "i < length cs"
  shows "var_at h cs i + length (col_var (cs ! i)) \<le> length (layout C h cs)" "length h + 9 * length cs \<le> var_at h cs i"
  using length_layout [OF assms(1,2), of h] var_split [OF assms(3)] by (simp_all add: var_at_def del: col_var.simps)

lemma layout_slice:
  assumes "conv_ok C" and "list_all col_ok cs" and "i < length cs" and "n \<le> length (col_var (cs ! i))"
  shows "slice (layout C h cs) (var_at h cs i) n = Some (take n (col_var (cs ! i)))"
proof -
  let ?p = "h @ storage C (length h + 9 * length cs) cs @ map fst cs @ var_bytes (take i cs)"
  have l: "layout C h cs = ?p @ col_var (cs ! i) @ var_bytes (drop (Suc i) cs)"
    unfolding layout_def var_split [OF assms(3)] by simp
  have "length ?p = var_at h cs i" using assms(1,2) by (simp add: var_at_def length_storage)
  then show ?thesis unfolding l slice_def using assms(4) by simp
qed

end
