(* ===== verification/Blobs_Key.thy ===== *)
theory Blobs_Key
  imports Blobs_Layout
begin

text \<open>
  Key blobs: what \<open>bcreatekey\<close> creates is the canonical encoding of its columns, and the reading
  functions return the columns.
\<close>

section \<open>Sizes\<close>

lemma ucast_down_of_nat: "(ucast (of_nat k :: u64) :: u32) = of_nat k"
  by (rule word_unat_eq_iff [THEN iffD2]) (simp add: unsigned_ucast_eq unsigned_of_nat)

lemma sint_small_i32: "k < 2 ^ 31 \<Longrightarrow> sint (of_nat k :: i32) = int k"
  by (simp add: signed_of_nat signed_take_bit_int_eq_self)

lemma malloc_small: "0 < k \<Longrightarrow> k < 2 ^ 31 \<Longrightarrow> sqlite3_malloc (of_nat k) = Some (mem_alloc k)"
  by (simp add: sqlite3_malloc_def ucast_down_of_nat sint_small_i32 unat_of_nat_u32)

lemma key_shape:
  assumes "16 + 9 * n + v < 2 ^ 32"
  shows "cql_compute_key_blob_shape (of_nat n) (of_nat v) =
    Some \<lparr>header_size = 16, storage_size = of_nat (8 * n), type_codes_size = of_nat n, variable_size = of_nat v,
      total_bytes = of_nat (16 + 9 * n + v), storage_offset = 16, type_codes_offset = of_nat (16 + 8 * n),
      variable_offset = of_nat (16 + 9 * n)\<rparr>"
proof -
  have t: "(16 + of_nat n + of_nat n * 8 + of_nat v :: u64) = of_nat (16 + 9 * n + v)" by simp
  have "(of_nat (16 + 9 * n + v) :: u64) = ucast (ucast (of_nat (16 + 9 * n + v) :: u64) :: u32)"
    unfolding ucast_down_of_nat using ucast_of_nat_64 [OF assms] by simp
  then show ?thesis unfolding cql_compute_key_blob_shape_def Let_def t by (simp add: mult.commute)
qed

section \<open>Writing the regions of a block\<close>

lemma put_at:
  "length p = at \<Longrightarrow> length ys = length xs \<Longrightarrow> put_bytes (Mem (p @ ys @ q)) at xs = Mem (p @ map Some xs @ q)"
  by (auto simp: put_bytes_def)

definition header_bytes :: "u64 \<Rightarrow> nat \<Rightarrow> u8 list" where
  "header_bytes r n = be64 r @ be32 CQL_BLOB_MAGIC @ be32 (of_nat n)"

lemma length_header [simp]: "length (header_bytes r n) = 16"
  by (simp add: header_bytes_def)

lemma write_header:
  "cql_write_blob_header m \<lparr>magic = CQL_BLOB_MAGIC, column_count = of_nat n, record_type = r\<rparr> = put_bytes m 0 (header_bytes r n)"
  using put_put [of m 0 "be64 r" "be32 CQL_BLOB_MAGIC"] put_put [of m 0 "be64 r @ be32 CQL_BLOB_MAGIC" "be32 (of_nat n)"]
  by (simp add: cql_write_blob_header_def write_u32 write_u64 header_bytes_def)

lemma read_header:
  assumes "n < 2 ^ 32" and "length (header_bytes r n @ rest) < 2 ^ 32"
  shows "cql_read_blob_header (header_bytes r n @ rest) (of_nat (length (header_bytes r n @ rest))) =
    Some \<lparr>magic = CQL_BLOB_MAGIC, column_count = of_nat n, record_type = r\<rparr>"
proof -
  have "\<not> (of_nat (length (header_bytes r n @ rest)) :: u32) < 16"
    using unat_of_nat_u32 [OF assms(2)] by (simp add: less_u32)
  moreover have "cql_read_big_endian_u64 (header_bytes r n @ rest) 0 = Some r"
    using read_u64 [of "[]" r "be32 CQL_BLOB_MAGIC @ be32 (of_nat n) @ rest"] by (simp add: header_bytes_def)
  moreover have "cql_read_big_endian_u32 (header_bytes r n @ rest) 8 = Some CQL_BLOB_MAGIC"
    using read_u32 [of "be64 r" CQL_BLOB_MAGIC "be32 (of_nat n) @ rest"] by (simp add: header_bytes_def)
  moreover have "cql_read_big_endian_u32 (header_bytes r n @ rest) 12 = Some (of_nat n)"
    using read_u32 [of "be64 r @ be32 CQL_BLOB_MAGIC" "of_nat n" rest] by (simp add: header_bytes_def)
  ultimately show ?thesis by (simp add: cql_read_blob_header_def)
qed

lemma write_value_at:
  assumes "conv_ok C" and "col_ok (t, v)" and "length (value_data v) < 2 ^ 31"
    and "length s = 8" and "length x = length (col_var (t, v))" and "vo = length p + 8 + length q"
  shows "write_value C (Mem (p @ s @ q @ x @ r)) (length p) vo t v =
    (Mem (p @ map Some (col_storage C vo (t, v)) @ q @ map Some (col_var (t, v)) @ r), vo + length (col_var (t, v)))"
proof -
  let ?st = "col_storage C vo (t, v)"
  have l: "length ?st = 8" using length_col_storage [OF assms(1,2)] .
  have 1: "put_bytes (Mem (p @ s @ q @ x @ r)) (length p) ?st = Mem (p @ map Some ?st @ q @ x @ r)"
    by (rule put_at) (use l assms(4) in simp_all)
  have 2: "put_bytes (Mem (p @ map Some ?st @ q @ x @ r)) vo (col_var (t, v)) =
      Mem (p @ map Some ?st @ q @ map Some (col_var (t, v)) @ r)"
    using put_at [of "p @ map Some ?st @ q" vo x "col_var (t, v)" r] l assms(5,6) by simp
  have "x = []" if "t \<notin> {4, 5}" using that assms(5) by auto
  then show ?thesis
    unfolding write_value_spec [OF assms(2,3)] 1 using 2 by (cases "t \<in> {4, 5}") (auto simp del: col_storage.simps)
qed

section \<open>Creating\<close>

definition key_blob :: "sqlite_conv \<Rightarrow> u64 \<Rightarrow> column list \<Rightarrow> u8 list" where
  "key_blob C r cs =
     header_bytes r (length cs) @ storage C (16 + 9 * length cs) cs @ map fst cs @ var_bytes cs"

definition key_args :: "column list \<Rightarrow> sqlite3_value list" where
  "key_args cs = concat (map (\<lambda>(t, v). [v, V_int (ucast t)]) cs)"

definition key_size :: "column list \<Rightarrow> nat" where
  "key_size cs = 16 + 9 * length cs + length (var_bytes cs)"

lemma length_key_blob: "conv_ok C \<Longrightarrow> list_all col_ok cs \<Longrightarrow> length (key_blob C r cs) = key_size cs"
  by (simp add: key_blob_def key_size_def length_storage)

lemma key_args_simps [simp]: "key_args [] = []" "key_args ((t, v) # cs) = v # V_int (ucast t) # key_args cs"
  by (simp_all add: key_args_def)

lemma length_key_args [simp]: "length (key_args cs) = 2 * length cs"
  by (induction cs) auto

lemma type_arg [simp]: "sqlite3_value_type (V_int i) = SQLITE_INTEGER" "sqlite3_value_int64 C (V_int i) = i"
  "(ucast (ucast (t :: u8) :: u64) :: u8) = t"
proof -
  show "(ucast (ucast (t :: u8) :: u64) :: u8) = t" by (rule bit_word_eqI) (auto simp: bit_ucast_iff)
qed (simp_all add: sqlite3_value_type_def sqlite3_value_int64_def)

lemma compat_some:
  assumes "col_ok (t, v)" and "length (value_data v) < 2 ^ 31"
  shows "cql_blobtype_vs_argtype_compat v t = Some (of_nat (length (col_var (t, v))))"
proof -
  have "cql_blobtype_vs_argtype_compat v t \<noteq> None" by (rule compat_iff [THEN iffD2]) (use assms(1) in auto)
  then show ?thesis using compat_ok [OF assms(2), of t] by (metis option.exhaust)
qed

lemma value_data_var: "col_ok (t, v) \<Longrightarrow> length (value_data v) \<le> length (col_var (t, v))"
  by (auto simp: value_data_def split: sqlite3_value.splits)

lemma key_args_size_spec:
  assumes "list_all col_ok cs" and "length (var_bytes cs) < 2 ^ 31"
  shows "key_args_size C (key_args cs) acc = Some (acc + of_nat (length (var_bytes cs)))"
  using assms
proof (induction cs arbitrary: acc)
  case (Cons c cs)
  obtain t v where c: "c = (t, v)" by (cases c)
  have "col_ok (t, v)" "length (value_data v) < 2 ^ 31" using Cons.prems c value_data_var [of t v] by simp_all
  from compat_some [OF this] show ?case using Cons c by (simp add: add.assoc del: col_var.simps col_ok.simps)
qed simp

lemma key_fill_spec:
  assumes "conv_ok C" and "list_all col_ok cs" and "length (var_bytes cs) < 2 ^ 31"
    and "length s = 8 * length cs" and "length t = length cs" and "length x = length (var_bytes cs)"
    and "vo = length p + length s + length q + length t + length r"
  shows "key_fill C (key_args cs) (Mem (p @ s @ q @ t @ r @ x)) (length p) (length p + length s + length q) vo =
    Mem (p @ map Some (storage C vo cs) @ q @ map Some (map fst cs) @ r @ map Some (var_bytes cs))"
  using assms
proof (induction cs arbitrary: p s q t r x vo)
  case (Cons c cs)
  obtain ty v where c: "c = (ty, v)" by (cases c)
  have ok: "col_ok (ty, v)" "length (value_data v) < 2 ^ 31" "list_all col_ok cs" "length (var_bytes cs) < 2 ^ 31"
    using Cons.prems(2,3) c value_data_var [of ty v] by simp_all
  obtain s1 s2 where s: "s = s1 @ s2" "length s1 = 8" "length s2 = 8 * length cs"
    using Cons.prems(4) by (metis append_take_drop_id length_Cons length_append length_drop length_take
        add_diff_cancel_left' min.absorb2 mult_Suc_right le_add1)
  obtain t1 t2 where t: "t = t1 # t2" "length t2 = length cs" using Cons.prems(5) by (cases t) auto
  obtain x1 x2 where x: "x = x1 @ x2" "length x1 = length (col_var (ty, v))" "length x2 = length (var_bytes cs)"
    using Cons.prems(6) c
    by (metis append_take_drop_id length_append length_drop length_take add_diff_cancel_left' min.absorb2 le_add1 var_bytes_simps(2))
  let ?st = "col_storage C vo (ty, v)"
  have 1: "put_bytes (Mem (p @ s @ q @ t @ r @ x)) (length p + length s + length q) [ty] =
      Mem (p @ s1 @ (s2 @ q @ [Some ty] @ t2 @ r) @ x1 @ x2)"
    using put_at [of "p @ s @ q" "length p + length s + length q" "[t1]" "[ty]" "t2 @ r @ x"] s t x by simp
  have vo: "vo = length p + 8 + length (s2 @ q @ [Some ty] @ t2 @ r)" using Cons.prems(7) s t by simp
  note 2 = write_value_at [OF Cons.prems(1) ok(1,2) s(2) x(2) vo, of x2]
  have l: "length ?st = 8" by (rule length_col_storage [OF Cons.prems(1) ok(1)])
  have "key_fill C (key_args cs) (Mem ((p @ map Some ?st) @ s2 @ (q @ [Some ty]) @ t2 @ (r @ map Some (col_var (ty, v))) @ x2))
      (length (p @ map Some ?st)) (length (p @ map Some ?st) + length s2 + length (q @ [Some ty])) (vo + length (col_var (ty, v))) =
    Mem ((p @ map Some ?st) @ map Some (storage C (vo + length (col_var (ty, v))) cs) @ (q @ [Some ty]) @ map Some (map fst cs) @
      (r @ map Some (col_var (ty, v))) @ map Some (var_bytes cs))"
    by (rule Cons.IH [OF Cons.prems(1) ok(3,4) s(3) t(2) x(3)]) (use vo l in simp)
  then show ?case
    using 1 2 l s t c by (simp del: col_storage.simps col_var.simps)
qed simp

lemma create_key:
  assumes "conv_ok C" and "list_all col_ok cs" and "cs \<noteq> []" and "key_size cs < 2 ^ 31"
  shows "bcreatekey C (V_int r # key_args cs) = Some (Result_blob (map Some (key_blob C r cs)))"
proof -
  let ?n = "length cs" and ?v = "length (var_bytes cs)"
  have n: "0 < ?n" "?n < 2 ^ 32" "?v < 2 ^ 31" "16 + 9 * ?n + ?v < 2 ^ 32" using assms(3,4) by (simp_all add: key_size_def)
  have cnt: "unat (of_nat ?n :: u32) = ?n" "(ucast (of_nat ?n :: u32) :: u64) = of_nat ?n"
    using unat_of_nat_u32 ucast_of_nat_64 n(2) by blast+
  have offs: "unat (of_nat (16 + 8 * ?n) :: u64) = 16 + 8 * ?n" "unat (of_nat (16 + 9 * ?n) :: u64) = 16 + 9 * ?n"
    using n(4) by (intro unat_of_nat_u64; simp)+
  have alloc: "mem_alloc (16 + 9 * ?n + ?v) = Mem ([] @ replicate 16 None @ replicate (8 * ?n) None @ replicate ?n None @ replicate ?v None)"
    by (simp add: mem_alloc_def replicate_add [symmetric])
  have head: "put_bytes (mem_alloc (16 + 9 * ?n + ?v)) 0 (header_bytes r ?n) =
      Mem (map Some (header_bytes r ?n) @ replicate (8 * ?n) None @ [] @ replicate ?n None @ [] @ replicate ?v None)"
    unfolding alloc by (subst put_at) simp_all
  have fill: "key_fill C (key_args cs) (put_bytes (mem_alloc (16 + 9 * ?n + ?v)) 0 (header_bytes r ?n)) 16 (16 + 8 * ?n) (16 + 9 * ?n) =
      Mem (map Some (key_blob C r cs))"
    unfolding head
    using key_fill_spec [OF assms(1,2) n(3), of "replicate (8 * ?n) None" "replicate ?n None" "replicate ?v None" "16 + 9 * ?n"
        "map Some (header_bytes r ?n)" "[]" "[]"]
    by (simp add: key_blob_def)
  have one: "(1 :: u32) \<le> of_nat ?n" using cnt(1) n(1) by (simp add: word_le_nat_alt Suc_le_eq)
  show ?thesis
    using n(1) one key_shape [OF n(4)] key_args_size_spec [OF assms(2) n(3), of C 0] malloc_small [of "16 + 9 * ?n + ?v"] assms(4) fill offs
    by (simp add: bcreatekey_def Let_def cnt write_header key_size_def result_blob_def del: of_nat_add of_nat_mult)
qed

end
