(* ===== verification/Blobs_Read.thy ===== *)
theory Blobs_Read
  imports Blobs_Key
begin

text \<open>
  Reading blobs: the validation accepts every canonical encoding and reads inside the blob on any
  bytes, and the reading functions return the columns that were stored.
\<close>

section \<open>Validation\<close>

lemma less_u64: "a < 2 ^ 64 \<Longrightarrow> b < 2 ^ 64 \<Longrightarrow> (of_nat a :: u64) < of_nat b \<longleftrightarrow> a < b"
  by (simp add: word_less_nat_alt unat_of_nat_u64)

text \<open>The storage of a variable column, read back.\<close>

lemma read_info_at:
  assumes "conv_ok C" and "list_all col_ok cs" and "i < length cs" and "fst (cs ! i) \<in> {4, 5}"
    and "off + length (var_bytes cs) < 2 ^ 32"
  shows "\<exists>val. cql_read_big_endian_u64 (h @ storage C off cs @ rest) (length h + 8 * i) = Some val \<and>
    field_len val = of_nat (length (value_data (snd (cs ! i)))) \<and>
    field_offset val = of_nat (off + length (var_bytes (take i cs)))"
proof -
  obtain t v where c: "cs ! i = (t, v)" by (cases "cs ! i")
  have ok: "col_ok (t, v)" using assms(2,3) c by (metis list_all_length)
  let ?o = "off + length (var_bytes (take i cs))"
  obtain pre post where l: "storage C off cs = pre @ col_storage C ?o (cs ! i) @ post" "length pre = 8 * i"
    using storage_at [OF assms(1-3)] .
  let ?info = "field_info ?o (of_nat (length (value_data v)))"
  have "col_storage C ?o (cs ! i) = be64 ?info" using assms(4) c by (auto simp: sqlite3_value_bytes_def)
  then have "cql_read_big_endian_u64 (h @ storage C off cs @ rest) (length h + 8 * i) = Some ?info"
    using read_u64 [of "h @ pre" ?info "post @ rest"] l by simp
  moreover have "?o + length (value_data v) < 2 ^ 32"
    using var_split [OF assms(3)] value_data_var [OF ok] assms(5) c by simp
  ultimately show ?thesis using field_info_parts [of ?o "length (value_data v)"] c by simp
qed

lemma read_info:
  assumes "conv_ok C" and "list_all col_ok cs" and "i < length cs" and "fst (cs ! i) \<in> {4, 5}"
    and "length (layout C h cs) < 2 ^ 32"
  shows "\<exists>val. cql_read_big_endian_u64 (layout C h cs) (length h + 8 * i) = Some val \<and>
    field_len val = of_nat (length (value_data (snd (cs ! i)))) \<and> field_offset val = of_nat (var_at h cs i)"
  unfolding layout_def var_at_def
  by (rule read_info_at [OF assms(1-4)]) (use assms(5) length_layout [OF assms(1,2)] in simp)

lemma validate_layout:
  assumes "conv_ok C" and "list_all col_ok cs" and "length (layout C h cs) < 2 ^ 32" and "i + k = length cs"
  shows "validate_loop (layout C h cs) (of_nat (length (layout C h cs))) (of_nat (length h))
    (of_nat (length h + 8 * length cs)) (of_nat (length h + 9 * length cs)) i k = Some True"
  using assms(4)
proof (induction k arbitrary: i)
  case (Suc k)
  let ?b = "layout C h cs" and ?n = "length cs"
  have i: "i < ?n" using Suc.prems by simp
  obtain t v where c: "cs ! i = (t, v)" by (cases "cs ! i")
  have ok: "col_ok (t, v)" using assms(2) i c by (metis list_all_length)
  have small: "length h + 9 * ?n < 2 ^ 64" using length_layout [OF assms(1,2), of h] assms(3) by simp
  have offs: "unat (of_nat (length h + 8 * ?n) :: u64) = length h + 8 * ?n" "unat (of_nat (length h) :: u64) = length h"
    using small by (intro unat_of_nat_u64; simp)+
  have ty: "byte_at ?b (length h + 8 * ?n + i) = Some t" using layout_type [OF assms(1,2) i] c by simp
  have IH: "validate_loop ?b (of_nat (length ?b)) (of_nat (length h)) (of_nat (length h + 8 * ?n))
      (of_nat (length h + 9 * ?n)) (Suc i) k = Some True" by (rule Suc.IH) (use Suc.prems in simp)
  show ?case
  proof (cases "t \<in> {4, 5}")
    case False
    then show ?thesis using col_ok_type [OF ok] ty IH offs by (auto simp: type_defs simp del: of_nat_add of_nat_mult)
  next
    case True
    obtain val where val: "cql_read_big_endian_u64 ?b (length h + 8 * i) = Some val"
      "field_len val = of_nat (length (value_data v))" "field_offset val = of_nat (var_at h cs i)"
      using read_info [OF assms(1,2) i _ assms(3)] c True by auto
    let ?o = "var_at h cs i" and ?l = "length (value_data v)"
    have bound: "?o + length (col_var (t, v)) \<le> length ?b" "length h + 9 * ?n \<le> ?o"
      using var_at_bound [OF assms(1,2) i, of h] c by simp_all
    have lv: "?o + ?l < 2 ^ 32" using bound(1) value_data_var [OF ok] assms(3) by linarith
    have off: "\<not> (of_nat ?o :: u64) < of_nat (length h + 9 * ?n)"
      using less_u64 [of ?o "length h + 9 * ?n"] bound(2) lv small by simp
    have len: "(of_nat ?o + of_nat ?l :: u64) = of_nat (?o + ?l)" "(of_nat ?o + (of_nat ?l + 1) :: u64) = of_nat (?o + ?l + 1)"
      by simp_all
    have end4: "\<not> (of_nat ?o + (of_nat ?l + 1) :: u64) > of_nat (length ?b)" if "t = 4"
      unfolding len using less_u64 [of "length ?b" "?o + ?l + 1"] bound(1) assms(3) that lv by simp
    have end5: "\<not> (of_nat ?o + of_nat ?l :: u64) > of_nat (length ?b)" if "t = 5"
      unfolding len using less_u64 [of "length ?b" "?o + ?l"] bound(1) assms(3) that lv by simp
    have nul: "byte_at ?b (unat (of_nat ?o + of_nat ?l :: u64)) = Some 0" if "t = 4"
    proof -
      have "unat (of_nat ?o + of_nat ?l :: u64) = ?o + ?l" unfolding len using lv by (intro unat_of_nat_u64) simp
      moreover have "slice ?b ?o (?l + 1) = Some (value_data v @ [0])"
        using layout_slice [OF assms(1,2) i, of "?l + 1" h] c that by simp
      then have sl: "take (?l + 1) (drop ?o ?b) = value_data v @ [0]" "?o + ?l < length ?b"
        by (auto simp: slice_def split: if_splits)
      have nth: "?b ! (?o + ?l) = take (?l + 1) (drop ?o ?b) ! ?l" using sl(2) by simp
      have "?b ! (?o + ?l) = 0" unfolding nth sl(1) by simp
      ultimately show ?thesis using sl(2) by (simp add: byte_at_def)
    qed
    show ?thesis
      using True ty IH offs val off end4 end5 nul
      by (auto simp: type_defs mult.commute simp del: of_nat_add of_nat_mult)
  qed
qed simp

section \<open>Reading a field\<close>

lemma field_result_layout:
  assumes "conv_ok C" and "list_all col_ok cs" and "i < length cs" and "length (layout C h cs) < 2 ^ 32"
  shows "field_result (layout C h cs) (of_nat (length (layout C h cs))) (length h + 8 * i) (fst (cs ! i)) =
    Some (col_result C (cs ! i))"
proof -
  let ?b = "layout C h cs" and ?o = "var_at h cs i"
  obtain t v where c: "cs ! i = (t, v)" by (cases "cs ! i")
  have ok: "col_ok (t, v)" using assms(2,3) c by (metis list_all_length)
  obtain pre post where l: "?b = pre @ col_storage C ?o (t, v) @ post" "length pre = length h + 8 * i"
    using layout_at [OF assms(1-3)] c by metis
  have len: "length (col_storage C ?o (t, v)) = 8" using length_col_storage [OF assms(1) ok] .
  show ?thesis
  proof (cases "t \<in> {4, 5}")
    case False
    then consider (int) x where "t \<in> {0, 1, 2}" "col_storage C ?o (t, v) = be64 x"
        "x = (if t = 0 then (if sqlite3_value_int64 C v \<noteq> 0 then 1 else 0) else sqlite3_value_int64 C v)"
      | (float) "t = 3" using col_ok_type [OF ok] by auto
    then show ?thesis
    proof cases
      case int
      then have "cql_read_big_endian_u64 ?b (length h + 8 * i) = Some x" using read_u64 [of pre x post] l by simp
      then show ?thesis using int(1,3) c by (auto simp: field_result_def type_defs)
    next
      case float
      then have "slice ?b (length h + 8 * i) 8 = Some (sqlite3_value_double C v)" using l len by (simp add: slice_def)
      then show ?thesis using float c by (simp add: field_result_def type_defs)
    qed
  next
    case True
    let ?l = "length (value_data v)"
    obtain val where val: "cql_read_big_endian_u64 ?b (length h + 8 * i) = Some val"
      "field_len val = of_nat ?l" "field_offset val = of_nat ?o"
      using read_info [OF assms(1-3) _ assms(4)] c True by auto
    have bound: "?o + ?l \<le> length ?b"
      using var_at_bound(1) [OF assms(1-3), of h] value_data_var [OF ok] c by simp
    then have small: "?o < 2 ^ 32" "?l < 2 ^ 32" using assms(4) by simp_all
    have le: "\<not> (of_nat ?o + of_nat ?l :: u64) > of_nat (length ?b)"
      using less_u64 [of "length ?b" "?o + ?l"] bound assms(4) by simp
    have sl: "slice ?b ?o ?l = Some (value_data v)"
      using layout_slice [OF assms(1-3), of ?l h] c True value_data_var [OF ok] by auto
    have o: "unat (of_nat ?o :: u32) = ?o" "unat (of_nat ?l :: u32) = ?l" using small unat_of_nat_u32 by blast+
    show ?thesis
      using True val le sl o c small ucast_of_nat_64 [OF assms(4)]
      by (auto simp: field_result_def type_defs ucast_down_of_nat ucast_of_nat_64 Let_def)
  qed
qed

section \<open>Key blobs\<close>

lemma key_layout: "key_blob C r cs = layout C (header_bytes r (length cs)) cs"
  by (simp add: key_blob_def layout_def)

text \<open>The checks that the reading functions share, on a canonical key blob.\<close>

lemma key_checks:
  fixes r :: u64
  assumes "conv_ok C" and "list_all col_ok cs" and "key_size cs < 2 ^ 31"
  defines "b \<equiv> key_blob C r cs"
  shows "cql_read_blob_header b (of_nat (length b)) =
      Some \<lparr>magic = CQL_BLOB_MAGIC, column_count = of_nat (length cs), record_type = r\<rparr>"
    and "\<not> (of_nat (16 + 9 * length cs) :: u64) > ucast (of_nat (length b) :: u32)"
    and "cql_validate_blob_variable_fields b (ucast (of_nat (length b) :: u32)) (of_nat (length cs)) 16
      (of_nat (16 + 8 * length cs)) (of_nat (16 + 9 * length cs)) = Some True"
proof -
  have len: "length b = key_size cs" unfolding b_def by (rule length_key_blob [OF assms(1,2)])
  have small: "length b < 2 ^ 32" "length cs < 2 ^ 31" "16 + 9 * length cs \<le> length b"
    using assms(3) len by (simp_all add: key_size_def)
  show "cql_read_blob_header b (of_nat (length b)) =
      Some \<lparr>magic = CQL_BLOB_MAGIC, column_count = of_nat (length cs), record_type = r\<rparr>"
    using read_header [of "length cs" r "storage C (16 + 9 * length cs) cs @ map fst cs @ var_bytes cs"] small
    by (simp add: b_def key_blob_def)
  show "\<not> (of_nat (16 + 9 * length cs) :: u64) > ucast (of_nat (length b) :: u32)"
    unfolding ucast_of_nat_64 [OF small(1)] using less_u64 [of "length b" "16 + 9 * length cs"] small by simp
  have "unat (of_nat (length cs) :: u64) = length cs" using small(2) by (intro unat_of_nat_u64) simp
  then show "cql_validate_blob_variable_fields b (ucast (of_nat (length b) :: u32)) (of_nat (length cs)) 16
      (of_nat (16 + 8 * length cs)) (of_nat (16 + 9 * length cs)) = Some True"
    using validate_layout [OF assms(1,2), of "header_bytes r (length cs)" 0 "length cs"] small(1)
    unfolding b_def key_layout by (simp add: cql_validate_blob_variable_fields_def ucast_of_nat_64)
qed

lemma get_key:
  assumes "conv_ok C" and "list_all col_ok cs" and "key_size cs < 2 ^ 31"
  shows "bgetkey C [V_blob (key_blob C r cs), V_int i] =
    Some (if unat i < length cs then col_result C (cs ! unat i) else Result_error)"
proof -
  let ?b = "key_blob C r cs" and ?n = "length cs"
  note ch = key_checks [OF assms, of r]
  have len: "length ?b = key_size cs" by (rule length_key_blob [OF assms(1,2)])
  have small: "length ?b < 2 ^ 32" "?n < 2 ^ 31" "16 + 9 * ?n + 0 < 2 ^ 32" using assms(3) len by (simp_all add: key_size_def)
  have cnt: "(ucast (of_nat ?n :: u32) :: u64) = of_nat ?n" using small(2) by (intro ucast_of_nat_64) simp
  have le: "i \<ge> of_nat ?n \<longleftrightarrow> \<not> unat i < ?n" using small(2) by (simp add: word_le_nat_alt unat_of_nat_u64 not_less)
  have data: "value_data (V_blob ?b) = ?b" "sqlite3_value_bytes (V_blob ?b) = of_nat (length ?b)"
    "sqlite3_value_type (V_blob ?b) = SQLITE_BLOB"
    by (simp_all add: value_data_def sqlite3_value_bytes_def sqlite3_value_type_def)
  show ?thesis
  proof (cases "unat i < ?n")
    case False
    then show ?thesis using ch(1) le cnt data by (simp add: bgetkey_def)
  next
    case True
    have "(16 + i * 8 :: u64) = of_nat (16 + 8 * unat i)" "(of_nat (16 + 8 * ?n) + i :: u64) = of_nat (16 + 8 * ?n + unat i)"
      by (simp_all add: mult.commute)
    then have offs: "unat (16 + i * 8) = 16 + 8 * unat i" "unat (of_nat (16 + 8 * ?n) + i) = 16 + 8 * ?n + unat i"
      using True small(2) by (simp_all only:) (intro unat_of_nat_u64; simp)+
    have ty: "byte_at ?b (16 + 8 * ?n + unat i) = Some (fst (cs ! unat i))"
      using layout_type [OF assms(1,2) True, of "header_bytes r ?n"] by (simp add: key_layout)
    have res: "field_result ?b (of_nat (length ?b)) (16 + 8 * unat i) (fst (cs ! unat i)) = Some (col_result C (cs ! unat i))"
      using field_result_layout [OF assms(1,2) True, of "header_bytes r ?n"] small(1) by (simp add: key_layout)
    show ?thesis
      using True ch le cnt data ty res offs key_shape [OF small(3)]
      by (simp add: bgetkey_def del: of_nat_add of_nat_mult)
  qed
qed

end
