(* ===== verification/Blobs_Safe.thy ===== *)
theory Blobs_Safe
  imports Blobs_Read
begin

text \<open>
  Reading key blobs: the round trip, safety on hostile blobs, and the two ways in which a hostile
  blob still stops the process or overruns a buffer.
\<close>

section \<open>Hostile blobs\<close>

lemma read_u32_total: "at + 4 \<le> length b \<Longrightarrow> \<exists>v. cql_read_big_endian_u32 b at = Some v"
  by (simp add: cql_read_big_endian_u32_def byte_at_def)

lemma read_u64_total:
  assumes "at + 8 \<le> length b"
  shows "\<exists>v. cql_read_big_endian_u64 b at = Some v"
  using read_u32_total [of at b] read_u32_total [of "at + 4" b] assms by (auto simp: cql_read_big_endian_u64_def)

lemma field_bounds: "unat (field_len val) < 2 ^ 32" "unat (field_offset val) < 2 ^ 32"
proof -
  have m: "(0xffffffff :: u64) = mask 32" by (simp add: mask_eq_exp_minus_1)
  have "field_len val = take_bit 32 val" unfolding field_len_def m by (simp add: take_bit_eq_mask)
  then show "unat (field_len val) < 2 ^ 32" using take_bit_nat_less_exp [of 32 "unat val"] by (simp add: unsigned_take_bit_eq)
  have "unat val < 2 ^ 64" using unsigned_less [of val] by simp
  then show "unat (field_offset val) < 2 ^ 32"
    unfolding field_offset_def unat_drop_bit_eq by (simp add: drop_bit_eq_div less_mult_imp_div_less)
qed

lemma unat_plus_u64: "unat (a :: u64) + unat b < 2 ^ 64 \<Longrightarrow> unat (a + b) = unat a + unat b"
  by (simp add: unat_word_ariths)

lemma validate_total:
  assumes "length b < 2 ^ 32" and "unat so + 8 * (i + k) \<le> length b" and "unat to + i + k \<le> length b"
  shows "\<exists>ok. validate_loop b (of_nat (length b)) so to vo i k = Some ok"
  using assms(2,3)
proof (induction k arbitrary: i)
  case (Suc k)
  obtain ty where ty: "byte_at b (unat to + i) = Some ty" using Suc.prems by (simp add: byte_at_def)
  obtain val where val: "cql_read_big_endian_u64 b (unat so + i * 8) = Some val"
    using read_u64_total [of "unat so + i * 8" b] Suc.prems by auto
  have IH: "\<exists>ok. validate_loop b (of_nat (length b)) so to vo (Suc i) k = Some ok" by (rule Suc.IH) (use Suc.prems in simp_all)
  let ?o = "field_offset val" and ?l = "field_len val"
  have last: "\<exists>x. byte_at b (unat (?o + ?l)) = Some x" if "\<not> ?o + (?l + 1) > of_nat (length b)"
  proof -
    have 1: "unat (?l + 1) = unat ?l + 1" using unat_plus_u64 [of ?l 1] field_bounds(1) [of val] by simp
    have 2: "unat (?o + (?l + 1)) = unat ?o + unat ?l + 1" "unat (?o + ?l) = unat ?o + unat ?l"
      using unat_plus_u64 [of ?o "?l + 1"] unat_plus_u64 [of ?o ?l] 1 field_bounds [of val] by simp_all
    have "unat (of_nat (length b) :: u64) = length b" using assms(1) by (intro unat_of_nat_u64) simp
    then have "unat (?o + ?l) < length b" using that 2 by (simp add: word_less_nat_alt)
    then show ?thesis by (simp add: byte_at_def)
  qed
  show ?case
  proof (cases "?o + (?l + 1) > of_nat (length b)")
    case True
    then show ?thesis using ty val IH by (auto simp: Let_def type_defs)
  next
    case False
    then obtain x where "byte_at b (unat (?o + ?l)) = Some x" using last by blast
    then show ?thesis using ty val IH by (auto simp: Let_def type_defs)
  qed
qed auto

lemma field_result_total:
  assumes "length b < 2 ^ 32" and "so + 8 \<le> length b"
  shows "\<exists>r. field_result b (of_nat (length b)) so ty = Some r"
proof -
  obtain val where val: "cql_read_big_endian_u64 b so = Some val" using read_u64_total [OF assms(2)] by blast
  let ?o = "ucast (field_offset val) :: u32" and ?l = "ucast (field_len val) :: u32"
  have sl: "slice b (unat ?o) (unat ?l) \<noteq> None" if "\<not> (ucast ?o + ucast ?l :: u64) > ucast (of_nat (length b) :: u32)"
  proof -
    have "unat (ucast ?o + ucast ?l :: u64) = unat ?o + unat ?l"
      using unat_plus_u64 [of "ucast ?o" "ucast ?l"] unat_u32_bound [of ?o] unat_u32_bound [of ?l] by simp
    moreover have "unat (ucast (of_nat (length b) :: u32) :: u64) = length b" using unat_of_nat_u32 [OF assms(1)] by simp
    ultimately have "unat ?o + unat ?l \<le> length b" using that by (simp add: word_less_nat_alt not_less)
    then show ?thesis by (simp add: slice_def)
  qed
  have "slice b so 8 \<noteq> None" using assms(2) by (simp add: slice_def)
  then show ?thesis using val sl by (auto simp: field_result_def Let_def)
qed

lemma read_header_total: "length b < 2 ^ 32 \<Longrightarrow> \<exists>header. cql_read_blob_header b (of_nat (length b)) = Some header"
  using read_u64_total [of 0 b] read_u32_total [of 8 b] read_u32_total [of 12 b] unat_of_nat_u32 [of "length b"]
  by (auto simp: cql_read_blob_header_def less_u32 not_less)

section \<open>Properties\<close>

text \<open>
  C16. Key blobs keep their columns: the blob that \<open>bcreatekey\<close> makes is fully initialised,
  \<open>bgetkey\<close> returns every column from it, as stored, and an error for any other index, and
  \<open>bgetkey_type\<close> returns the record type.
\<close>

theorem key_blob_round_trip:
  assumes "conv_ok C" and "list_all col_ok cs" and "cs \<noteq> []" and "key_size cs < 2 ^ 31"
  shows "\<exists>b. bcreatekey C (V_int r # key_args cs) = Some (Result_blob (map Some b)) \<and>
    (\<forall>i. bgetkey C [V_blob b, V_int i] =
       Some (if unat i < length cs then col_result C (cs ! unat i) else Result_error)) \<and>
    bgetkey_type [V_blob b] = Some (Result_int64 r)"
proof -
  let ?b = "key_blob C r cs"
  note ch = key_checks [OF assms(1,2,4), of r]
  have small: "length cs < 2 ^ 32" "16 + 9 * length cs + 0 < 2 ^ 32" using assms(4) by (simp_all add: key_size_def)
  have data: "value_data (V_blob ?b) = ?b" "sqlite3_value_bytes (V_blob ?b) = of_nat (length ?b)"
    "sqlite3_value_type (V_blob ?b) = SQLITE_BLOB"
    by (simp_all add: value_data_def sqlite3_value_bytes_def sqlite3_value_type_def)
  have "bgetkey_type [V_blob ?b] = Some (Result_int64 r)"
    using ch data key_shape [OF small(2)] ucast_of_nat_64 [OF small(1)]
    by (simp add: bgetkey_type_def del: of_nat_add of_nat_mult)
  then show ?thesis using create_key [OF assms] get_key [OF assms(1,2,4)] by blast
qed

definition sample_conv :: sqlite_conv where
  "sample_conv = \<lparr>conv_int64 = (\<lambda>_. 0), conv_double = (\<lambda>_. replicate 8 0)\<rparr>"

definition sample_columns :: "column list" where
  "sample_columns = [(4, V_text [104, 105]), (0, V_int 7), (5, V_blob [9, 0]), (3, V_float [1, 2, 3, 4, 5, 6, 7, 8])]"

lemma sample_key_ok:
  "conv_ok sample_conv" "list_all col_ok sample_columns" "sample_columns \<noteq> []" "key_size sample_columns < 2 ^ 31"
  by (simp_all add: conv_ok_def sample_conv_def sample_columns_def key_size_def value_data_def)

theorem key_blob_round_trip_witness:
  "\<exists>b. bcreatekey sample_conv (V_int 77 # key_args sample_columns) = Some (Result_blob (map Some b)) \<and>
    (\<forall>i. bgetkey sample_conv [V_blob b, V_int i] =
       Some (if unat i < length sample_columns then col_result sample_conv (sample_columns ! unat i) else Result_error)) \<and>
    bgetkey_type [V_blob b] = Some (Result_int64 77)"
  by (rule key_blob_round_trip [OF sample_key_ok])

text \<open>
  C19. Reading a hostile key blob is safe: for any bytes whose header claims fewer than 477218587
  columns, the number from which the sizes leave 32 bits, \<open>bgetkey\<close> reads inside the blob and
  returns a value or an error.
\<close>

theorem get_key_hostile_safe:
  assumes "length b < 2 ^ 31" and "cql_read_blob_header b (of_nat (length b)) = Some header"
    and "unat (column_count header) < 477218587"
  shows "\<exists>r. bgetkey C [V_blob b, V_int i] = Some r"
proof -
  obtain n where n: "column_count header = of_nat n" "n < 477218587"
    using assms(3) by (metis of_nat_unat word_of_nat_eq_iff ucast_id)
  have small: "length b < 2 ^ 32" "16 + 9 * n + 0 < 2 ^ 32" using assms(1) n(2) by simp_all
  have cnt: "(ucast (column_count header) :: u64) = of_nat n" unfolding n(1) by (rule ucast_of_nat_64) (use n(2) in simp)
  have data: "value_data (V_blob b) = b" "sqlite3_value_bytes (V_blob b) = of_nat (length b)"
    "sqlite3_value_type (V_blob b) = SQLITE_BLOB"
    by (simp_all add: value_data_def sqlite3_value_bytes_def sqlite3_value_type_def)
  note sh = key_shape [OF small(2)]
  show ?thesis
  proof (cases "i \<ge> of_nat n \<or> magic header \<noteq> CQL_BLOB_MAGIC \<or> (of_nat (16 + 9 * n) :: u64) > ucast (of_nat (length b) :: u32)")
    case True
    then show ?thesis using assms(2) data cnt sh by (auto simp: bgetkey_def Let_def simp del: of_nat_add of_nat_mult)
  next
    case False
    have offs: "unat (of_nat (16 + 8 * n) :: u64) = 16 + 8 * n" "unat (of_nat (16 + 9 * n) :: u64) = 16 + 9 * n"
      "unat (of_nat n :: u64) = n"
      using small(2) by (intro unat_of_nat_u64; simp)+
    have fits: "16 + 9 * n \<le> length b"
      using False offs(2) unat_of_nat_u32 [OF small(1)] by (simp add: word_less_nat_alt not_less del: of_nat_add of_nat_mult)
    have i: "unat i < n" using False offs(3) by (simp add: word_le_nat_alt)
    obtain ok where ok: "cql_validate_blob_variable_fields b (ucast (of_nat (length b) :: u32)) (of_nat n) 16
        (of_nat (16 + 8 * n)) (of_nat (16 + 9 * n)) = Some ok"
      using validate_total [OF small(1), of 16 0 n "of_nat (16 + 8 * n)" "of_nat (16 + 9 * n)"] fits offs
        ucast_of_nat_64 [OF small(1)] by (auto simp: cql_validate_blob_variable_fields_def simp del: of_nat_add of_nat_mult)
    have at: "unat (of_nat (16 + 8 * n) + i :: u64) = 16 + 8 * n + unat i" "unat (16 + i * 8 :: u64) = 16 + 8 * unat i"
      using unat_of_nat_u64 [of "16 + 8 * n + unat i"] unat_of_nat_u64 [of "16 + 8 * unat i"] i small(2)
      by (simp_all add: mult.commute)
    obtain ty where ty: "byte_at b (16 + 8 * n + unat i) = Some ty" using i fits by (simp add: byte_at_def)
    obtain r where "field_result b (of_nat (length b)) (16 + 8 * unat i) ty = Some r"
      using field_result_total [OF small(1), of "16 + 8 * unat i" ty] i fits by auto
    then show ?thesis
      using False assms(2) data cnt sh ok at ty by (cases ok) (auto simp: bgetkey_def Let_def simp del: of_nat_add of_nat_mult)
  qed
qed

theorem get_key_hostile_safe_witness:
  "\<exists>r. bgetkey sample_conv [V_blob (header_bytes 5 3 @ [1, 2, 3]), V_int 1] = Some r"
proof -
  let ?b = "header_bytes 5 3 @ [1, 2, 3]"
  have "cql_read_blob_header ?b (of_nat (length ?b)) =
      Some \<lparr>magic = CQL_BLOB_MAGIC, column_count = of_nat 3, record_type = 5\<rparr>" by (rule read_header) simp_all
  then show ?thesis by (rule get_key_hostile_safe [rotated]) simp_all
qed

text \<open>
  The bound on the claimed columns is needed: sixteen bytes with a column count of
  \<open>0xffffffff\<close> make \<open>cql_compute_key_blob_shape\<close> fail its contract, which stops the process, where the
  reading functions mean to return an error for a bad blob.
\<close>

theorem key_count_contract_fails:
  "bgetkey C [V_blob (header_bytes r 0xffffffff), V_int 0] = None \<and> bgetkey_type [V_blob (header_bytes r 0xffffffff)] = None"
proof -
  let ?b = "header_bytes r 0xffffffff"
  have "cql_read_blob_header (?b @ []) (of_nat (length (?b @ []))) =
      Some \<lparr>magic = CQL_BLOB_MAGIC, column_count = of_nat 0xffffffff, record_type = r\<rparr>" by (rule read_header) simp_all
  then have h: "cql_read_blob_header ?b 16 = Some \<lparr>magic = CQL_BLOB_MAGIC, column_count = 0xffffffff, record_type = r\<rparr>" by simp
  have "cql_compute_key_blob_shape 0xffffffff 0 = None" by (simp add: cql_compute_key_blob_shape_def Let_def)
  moreover have "(ucast (0xffffffff :: u32) :: u64) = 0xffffffff" by simp
  ultimately show ?thesis
    using h by (simp add: bgetkey_def bgetkey_type_def value_data_def sqlite3_value_bytes_def sqlite3_value_type_def)
qed

end
