(* ===== verification/Blobs_Update.thy ===== *)
theory Blobs_Update
  imports Blobs_Safe
begin

text \<open>
  Updating key blobs: the result is the canonical encoding of the updated columns, whatever the
  order of the updates, so that equal keys are equal blobs.
\<close>

section \<open>Storage as chunks\<close>

lemma storage_concat:
  "storage C off cs = concat (map (\<lambda>j. col_storage C (off + length (var_bytes (take j cs))) (cs ! j)) [0..<length cs])"
proof (induction cs arbitrary: off)
  case (Cons c cs)
  have "[0..<length (c # cs)] = 0 # map Suc [0..<length cs]" by (simp add: map_Suc_upt upt_conv_Cons del: upt_Suc)
  then show ?case
    using Cons.IH [of "off + length (col_var c)"]
    by (simp add: comp_def add.assoc del: upt_Suc col_var.simps col_storage.simps)
qed simp

lemma length_concat_const: "(\<And>x. x \<in> set xs \<Longrightarrow> length x = k) \<Longrightarrow> length (concat xs) = k * length xs"
  by (induction xs) auto

lemma concat_split:
  assumes "\<And>x. x \<in> set xs \<Longrightarrow> length x = k" and "i < length xs"
  shows "concat xs = concat (take i xs) @ xs ! i @ concat (drop (Suc i) xs)" "length (concat (take i xs)) = k * i"
proof -
  show "concat xs = concat (take i xs) @ xs ! i @ concat (drop (Suc i) xs)"
    using id_take_nth_drop [OF assms(2)] by (metis concat.simps(2) concat_append)
  show "length (concat (take i xs)) = k * i"
    using length_concat_const [of "take i xs" k] assms in_set_takeD [of _ i xs] by simp
qed

lemma put_chunk:
  assumes "\<And>x. x \<in> set chunks \<Longrightarrow> length x = 8" and "i < length chunks" and "length x = 8"
  shows "put_bytes (Mem (map Some (h @ concat chunks) @ q)) (length h + 8 * i) x = Mem (map Some (h @ concat (chunks[i := x])) @ q)"
proof -
  note sp = concat_split [OF assms(1,2)]
  have "concat (chunks[i := x]) = concat (take i chunks) @ x @ concat (drop (Suc i) chunks)"
    using assms(2) by (simp add: upd_conv_take_nth_drop)
  then show ?thesis
    using put_at [of "map Some (h @ concat (take i chunks))" "length h + 8 * i" "map Some (chunks ! i)" x
        "map Some (concat (drop (Suc i) chunks)) @ q"] sp assms
    by simp
qed

lemma load_chunk:
  assumes "\<And>x. x \<in> set chunks \<Longrightarrow> length x = 8" and "i < length chunks"
  shows "load_u64 (Mem (map Some (h @ concat chunks) @ q)) (length h + 8 * i) = Some (u64_of_bytes (chunks ! i))"
proof -
  note sp = concat_split [OF assms]
  have l: "length (chunks ! i) = 8" using assms by simp
  have "mem_load (Mem (map Some (h @ concat chunks) @ q)) (length h + 8 * i) 8 = Some (map Some (chunks ! i))"
    using sp l by simp
  then show ?thesis by (simp add: load_u64_def comp_def)
qed

lemma bit_u64_of_bytes:
  "bit (u64_of_bytes bs) n \<longleftrightarrow> n < 64 \<and> n div 8 < length bs \<and> bit (bs ! (n div 8)) (n mod 8)"
proof (induction bs arbitrary: n)
  case (Cons b bs)
  have eq: "u64_of_bytes (b # bs) = ucast b OR push_bit 8 (u64_of_bytes bs)" by (simp add: u64_of_bytes_def)
  show ?case
  proof (cases "n < 8")
    case True
    then show ?thesis unfolding eq by (auto simp: bit_or_iff bit_push_bit_iff bit_ucast_iff)
  next
    case False
    then obtain m where m: "n = m + 8" by (metis add.commute le_add_diff_inverse not_less)
    have "\<not> bit b (m + 8)" using bit_imp_le_length [of b "m + 8"] by auto
    moreover have "(m + 8) div 8 = Suc (m div 8)" by simp
    ultimately show ?thesis
      unfolding eq m bit_or_iff bit_push_bit_iff bit_ucast_iff using Cons.IH [of m] by auto
  qed
qed (simp add: u64_of_bytes_def)

lemma bytes_of_u64 [simp]: "u64_of_bytes (bytes_of_u64 w) = w" "length (bytes_of_u64 w) = 8"
proof -
  show "u64_of_bytes (bytes_of_u64 w) = w"
  proof (rule bit_word_eqI)
    fix n assume "n < LENGTH(64)"
    then have n: "n < 64" "n div 8 < 8" by simp_all
    then have "bytes_of_u64 w ! (n div 8) = ucast (drop_bit (8 * (n div 8)) w)" by (simp add: bytes_of_u64_def del: upt_Suc)
    moreover have "8 * (n div 8) + n mod 8 = n" by simp
    ultimately show "bit (u64_of_bytes (bytes_of_u64 w)) n = bit w n"
      unfolding bit_u64_of_bytes using n by (simp add: bit_ucast_iff bit_drop_bit_eq) (simp add: bytes_of_u64_def)
  qed
qed (simp add: bytes_of_u64_def)

section \<open>Updates\<close>

text \<open>Updates of columns by their index, with the arguments of the SQL call.\<close>

type_synonym updates = "(nat \<times> sqlite3_value) list"

definition update_args :: "updates \<Rightarrow> sqlite3_value list" where
  "update_args us = concat (map (\<lambda>(i, v). [V_int (of_nat i), v]) us)"

fun updated :: "updates \<Rightarrow> column list \<Rightarrow> column list" where
  "updated [] cs = cs"
| "updated ((i, v) # us) cs = (updated us cs)[i := (fst (cs ! i), v)]"

definition updates_ok :: "updates \<Rightarrow> column list \<Rightarrow> bool" where
  "updates_ok us cs \<longleftrightarrow> distinct (map fst us) \<and> (\<forall>(i, v) \<in> set us. i < length cs \<and> col_ok (fst (cs ! i), v))"

lemma update_args_simps [simp]:
  "update_args [] = []" "update_args ((i, v) # us) = V_int (of_nat i) # v # update_args us"
  by (simp_all add: update_args_def)

lemma length_update_args [simp]: "length (update_args us) = 2 * length us"
  by (induction us) auto

lemma length_updated [simp]: "length (updated us cs) = length cs"
  by (induction us cs rule: updated.induct) auto

lemma updates_ok_Cons:
  "updates_ok ((i, v) # us) cs \<longleftrightarrow>
     i < length cs \<and> col_ok (fst (cs ! i), v) \<and> i \<notin> fst ` set us \<and> updates_ok us cs"
  by (auto simp: updates_ok_def)

lemma updated_nth:
  "j < length cs \<Longrightarrow> updates_ok us cs \<Longrightarrow>
     updated us cs ! j = (case map_of us j of None \<Rightarrow> cs ! j | Some v \<Rightarrow> (fst (cs ! j), v))"
  by (induction us) (auto simp: nth_list_update updates_ok_Cons simp del: col_ok.simps)

lemma updated_types: "updates_ok us cs \<Longrightarrow> map fst (updated us cs) = map fst cs"
  by (rule nth_equalityI) (auto simp: updated_nth split: option.splits)

lemma updated_col_ok:
  assumes "updates_ok us cs" and "list_all col_ok cs"
  shows "list_all col_ok (updated us cs)"
  unfolding list_all_length
proof (intro allI impI)
  fix j assume j: "j < length (updated us cs)"
  then have "col_ok (cs ! j)" using assms(2) by (simp add: list_all_length)
  moreover have "col_ok (fst (cs ! j), v)" if "map_of us j = Some v" for v
    using map_of_SomeD [OF that] assms(1) by (auto simp: updates_ok_def simp del: col_ok.simps)
  ultimately show "col_ok (updated us cs ! j)"
    using j updated_nth [OF _ assms(1), of j] by (auto split: option.splits simp del: col_ok.simps)
qed

lemma update_value_bound:
  assumes "updates_ok us cs" and "(i, v) \<in> set us"
  shows "length (value_data v) \<le> length (var_bytes (updated us cs))"
proof -
  have i: "i < length cs" "col_ok (fst (cs ! i), v)" using assms by (auto simp: updates_ok_def simp del: col_ok.simps)
  have "updated us cs ! i = (fst (cs ! i), v)"
    using updated_nth [OF i(1) assms(1)] assms by (simp add: updates_ok_def)
  then show ?thesis
    using value_data_var [OF i(2)] var_split [of i "updated us cs"] i(1) by simp
qed

text \<open>The change of the variable size, as the code adds it up.\<close>

definition size_change :: "updates \<Rightarrow> column list \<Rightarrow> i64" where
  "size_change us cs =
     (\<Sum>(i, v) \<leftarrow> us. of_nat (length (col_var (fst (cs ! i), v))) - of_nat (length (col_var (cs ! i))))"

lemma length_var_update:
  assumes "i < length cs"
  shows "(of_nat (length (var_bytes (cs[i := c]))) :: i64) =
    of_nat (length (var_bytes cs)) + of_nat (length (col_var c)) - of_nat (length (col_var (cs ! i)))"
  using var_split [OF assms] var_split [of i "cs[i := c]"] assms by (simp del: col_var.simps)

lemma size_change_total:
  assumes "updates_ok us cs"
  shows "(of_nat (length (var_bytes (updated us cs))) :: i64) = of_nat (length (var_bytes cs)) + size_change us cs"
  using assms
proof (induction us)
  case (Cons u us)
  obtain i v where u: "u = (i, v)" by (cases u)
  have ok: "i < length cs" "updates_ok us cs" "map_of us i = None"
    using Cons.prems u by (auto simp: updates_ok_Cons map_of_eq_None_iff simp del: col_ok.simps)
  have "updated us cs ! i = cs ! i" using updated_nth [OF ok(1,2)] ok(3) by simp
  then show ?case
    using Cons.IH [OF ok(2)] length_var_update [of i "updated us cs"] ok(1) u
    by (simp add: size_change_def del: col_var.simps)
qed (simp add: size_change_def)

section \<open>The first pass\<close>

definition mark :: "nat set \<Rightarrow> column list \<Rightarrow> u8 list" where
  "mark I cs = map (\<lambda>j. if j \<in> I then fst (cs ! j) OR CQL_BLOB_TYPE_DIRTY else fst (cs ! j)) [0..<length cs]"

definition marked :: "sqlite_conv \<Rightarrow> u8 list \<Rightarrow> nat set \<Rightarrow> column list \<Rightarrow> u8 list" where
  "marked C h I cs = h @ storage C (length h + 9 * length cs) cs @ mark I cs @ var_bytes cs"

lemma mark_empty: "mark {} cs = map fst cs"
  by (rule nth_equalityI) (simp_all add: mark_def)

lemma marked_empty: "marked C h {} cs = layout C h cs"
  by (simp add: marked_def layout_def mark_empty)

lemma length_mark [simp]: "length (mark I cs) = length cs"
  by (simp add: mark_def)

lemma mark_insert: "i < length cs \<Longrightarrow> (mark I cs)[i := fst (cs ! i) OR CQL_BLOB_TYPE_DIRTY] = mark (insert i I) cs"
  by (rule nth_equalityI) (auto simp: mark_def nth_list_update simp del: upt_Suc)

lemma marked_type:
  assumes "conv_ok C" and "list_all col_ok cs" and "i < length cs"
  shows "byte_at (marked C h I cs) (length h + 8 * length cs + i) =
      Some (if i \<in> I then fst (cs ! i) OR CQL_BLOB_TYPE_DIRTY else fst (cs ! i))"
    and "(marked C h I cs)[length h + 8 * length cs + i := fst (cs ! i) OR CQL_BLOB_TYPE_DIRTY] = marked C h (insert i I) cs"
proof -
  let ?p = "h @ storage C (length h + 9 * length cs) cs"
  have l: "length ?p = length h + 8 * length cs" using assms by (simp add: length_storage)
  have m: "marked C h I cs = ?p @ mark I cs @ var_bytes cs" by (simp add: marked_def)
  show "byte_at (marked C h I cs) (length h + 8 * length cs + i) =
      Some (if i \<in> I then fst (cs ! i) OR CQL_BLOB_TYPE_DIRTY else fst (cs ! i))"
    using byte_at_append [of ?p "mark I cs @ var_bytes cs" i] assms(3) unfolding m l [symmetric]
    by (simp add: byte_at_def nth_append) (simp add: mark_def)
  have "(?p @ mark I cs @ var_bytes cs)[length ?p + i := fst (cs ! i) OR CQL_BLOB_TYPE_DIRTY] =
      ?p @ (mark I cs)[i := fst (cs ! i) OR CQL_BLOB_TYPE_DIRTY] @ var_bytes cs"
    using assms(3) by (simp add: list_update_append del: append_assoc) 
  then show "(marked C h I cs)[length h + 8 * length cs + i := fst (cs ! i) OR CQL_BLOB_TYPE_DIRTY] = marked C h (insert i I) cs"
    unfolding m l [symmetric] mark_insert [OF assms(3)] by (simp add: marked_def)
qed

definition shape_of :: "nat \<Rightarrow> cql_key_blob_shape" where
  "shape_of n =
     \<lparr>header_size = 16, storage_size = of_nat (8 * n), type_codes_size = of_nat n, variable_size = 0,
      total_bytes = of_nat (16 + 9 * n), storage_offset = 16, type_codes_offset = of_nat (16 + 8 * n),
      variable_offset = of_nat (16 + 9 * n)\<rparr>"

lemma shape_offsets:
  assumes "i < n" and "16 + 9 * n < 2 ^ 32"
  shows "unat (storage_offset (shape_of n) + of_nat i * 8) = 16 + 8 * i"
    "unat (type_codes_offset (shape_of n) + of_nat i) = 16 + 8 * n + i"
  using unat_of_nat_u64 [of "16 + 8 * i"] unat_of_nat_u64 [of "16 + 8 * n + i"] assms
  by (simp_all add: shape_of_def mult.commute)

lemma clean_type: "t \<in> {0, 1, 2, 3, 4, 5} \<Longrightarrow> (t :: u8) AND CQL_BLOB_TYPE_DIRTY = 0"
  "t \<in> {0, 1, 2, 3, 4, 5} \<Longrightarrow> (t OR CQL_BLOB_TYPE_DIRTY) AND NOT CQL_BLOB_TYPE_DIRTY = t"
  by (auto simp: type_defs)

lemma update_check:
  assumes "conv_ok C" and "list_all col_ok cs" and "key_size cs < 2 ^ 31" and "length h = 16"
    and "updates_ok us cs" and "I \<inter> fst ` set us = {}" and "list_all (\<lambda>(i, v). length (value_data v) < 2 ^ 31) us"
  shows "key_update_check C (of_nat (length cs)) (shape_of (length cs)) (update_args us) (marked C h I cs) adj =
    Some (Inr (marked C h (I \<union> fst ` set us) cs, adj + size_change us cs))"
  using assms(5-7)
proof (induction us arbitrary: I adj)
  case (Cons u us)
  let ?n = "length cs"
  obtain i v where u: "u = (i, v)" by (cases u)
  obtain t w where c: "cs ! i = (t, w)" by (cases "cs ! i")
  have ok: "i < ?n" "col_ok (t, v)" "i \<notin> fst ` set us" "updates_ok us cs"
    using Cons.prems(1) u c by (simp_all add: updates_ok_Cons del: col_ok.simps)
  have ni: "i \<notin> I" and v: "length (value_data v) < 2 ^ 31" using Cons.prems u by auto
  have oldok: "col_ok (t, w)" using assms(2) ok(1) c by (metis list_all_length)
  have ty: "t \<in> {0, 1, 2, 3, 4, 5}" using col_ok_type [OF oldok] by simp
  have small: "16 + 9 * ?n < 2 ^ 32" "?n < 2 ^ 32" using assms(3) by (simp_all add: key_size_def)
  note at = shape_offsets [OF ok(1) small(1)]
  have in_range: "\<not> (of_nat i :: u64) \<ge> ucast (of_nat ?n :: u32)"
    unfolding ucast_of_nat_64 [OF small(2)] using less_u64 [of i ?n] ok(1) small(2) by (simp add: not_le)
  have tb: "byte_at (marked C h I cs) (16 + 8 * ?n + i) = Some t"
    and mk: "(marked C h I cs)[16 + 8 * ?n + i := t OR CQL_BLOB_TYPE_DIRTY] = marked C h (insert i I) cs"
    using marked_type [OF assms(1,2) ok(1), of h I] ni c assms(4) by simp_all
  have compat: "cql_blobtype_vs_argtype_compat v t = Some (of_nat (length (col_var (t, v))))" by (rule compat_some [OF ok(2) v])
  have IH: "key_update_check C (of_nat ?n) (shape_of ?n) (update_args us) (marked C h (insert i I) cs) a =
      Some (Inr (marked C h (I \<union> fst ` set (u # us)) cs, a + size_change us cs))" for a
    using Cons.IH [OF ok(4), of "insert i I" a] Cons.prems(2,3) ok(3) u by simp
  have change: "size_change (u # us) cs =
      of_nat (length (col_var (t, v))) - of_nat (length (col_var (t, w))) + size_change us cs"
    using u c by (simp add: size_change_def del: col_var.simps)
  have info: "\<exists>val. cql_read_big_endian_u64 (marked C h (insert i I) cs) (16 + 8 * i) = Some val \<and>
      field_len val = of_nat (length (value_data w))" if "t \<in> {4, 5}"
    using read_info_at [OF assms(1,2) ok(1), of "length h + 9 * ?n" h "mark (insert i I) cs @ var_bytes cs"] that c assms(3,4)
    by (auto simp: marked_def key_size_def)
  have step: "key_update_check C (of_nat ?n) (shape_of ?n) (V_int (of_nat i) # v # update_args us) (marked C h I cs) adj =
      key_update_check C (of_nat ?n) (shape_of ?n) (update_args us) (marked C h (insert i I) cs)
        (adj + of_nat (length (col_var (t, v))) - of_nat (length (col_var (t, w))))"
  proof (cases "t \<in> {4, 5}")
    case False
    then have "t \<noteq> 4" "t \<noteq> 5" by auto
    then show ?thesis
      using in_range tb mk compat clean_type(1) [OF ty]
      unfolding key_update_check.simps Let_def type_arg(2) at by (simp add: type_defs)
  next
    case True
    then obtain val where val: "cql_read_big_endian_u64 (marked C h (insert i I) cs) (16 + 8 * i) = Some val"
      "field_len val = of_nat (length (value_data w))" using info by blast
    show ?thesis
      using True in_range tb mk compat clean_type(1) [OF ty] val
      unfolding key_update_check.simps Let_def type_arg(2) at by (auto simp: type_defs algebra_simps)
  qed
  show ?case using step IH change u by (simp add: add.assoc add_diff_eq)
qed (simp add: size_change_def)

section \<open>The second pass\<close>

definition new_chunk :: "sqlite_conv \<Rightarrow> u8 \<Rightarrow> sqlite3_value \<Rightarrow> nat \<Rightarrow> u8 list" where
  "new_chunk C t v k = (if t \<in> {4, 5} then bytes_of_u64 (of_nat (k + 1)) else col_storage C 0 (t, v))"

fun fixed :: "sqlite_conv \<Rightarrow> column list \<Rightarrow> updates \<Rightarrow> nat \<Rightarrow> u8 list list \<Rightarrow> u8 list list" where
  "fixed C cs [] k chunks = chunks"
| "fixed C cs ((i, v) # us) k chunks = fixed C cs us (k + 2) (chunks[i := new_chunk C (fst (cs ! i)) v k])"

fun unmark :: "column list \<Rightarrow> updates \<Rightarrow> u8 list \<Rightarrow> u8 list" where
  "unmark cs [] ts = ts"
| "unmark cs ((i, v) # us) ts = unmark cs us (ts[i := fst (cs ! i)])"

lemma length_fixed [simp]: "length (fixed C cs us k chunks) = length chunks"
  by (induction C cs us k chunks rule: fixed.induct) auto

lemma length_unmark [simp]: "length (unmark cs us ts) = length ts"
  by (induction cs us ts rule: unmark.induct) auto

lemma unmark_nth: "j < length ts \<Longrightarrow> unmark cs us ts ! j = (if j \<in> fst ` set us then fst (cs ! j) else ts ! j)"
  by (induction cs us ts rule: unmark.induct) (auto simp: nth_list_update)

lemma unmark_all: "unmark cs us (mark (fst ` set us) cs) = map fst cs"
  by (rule nth_equalityI) (auto simp: unmark_nth mark_def)

lemma fixed_other: "j \<notin> fst ` set us \<Longrightarrow> fixed C cs us k chunks ! j = chunks ! j"
  by (induction C cs us k chunks rule: fixed.induct) auto

lemma length_new_chunk: "conv_ok C \<Longrightarrow> col_ok (t, v) \<Longrightarrow> length (new_chunk C t v k) = 8"
  by (simp add: new_chunk_def length_col_storage del: col_storage.simps)

lemma fixed_nth:
  assumes "updates_ok us cs" and "map_of us j = Some v" and "length chunks = length cs"
  shows "\<exists>q. fixed C cs us k chunks ! j = new_chunk C (fst (cs ! j)) v (k + q) \<and> q + 1 < length (update_args us) \<and>
    update_args us ! (q + 1) = v"
  using assms
proof (induction us arbitrary: k chunks)
  case (Cons u us)
  obtain i w where u: "u = (i, w)" by (cases u)
  have ok: "i < length cs" "i \<notin> fst ` set us" "updates_ok us cs"
    using Cons.prems(1) u by (simp_all add: updates_ok_Cons del: col_ok.simps)
  show ?case
  proof (cases "j = i")
    case True
    then have "v = w" using Cons.prems(2) u by simp
    then show ?thesis using True u ok fixed_other [of i us] Cons.prems(3) by (intro exI [of _ 0]) simp
  next
    case False
    then have "map_of us j = Some v" using Cons.prems(2) u by simp
    from Cons.IH [OF ok(3) this, of "chunks[i := new_chunk C (fst (cs ! i)) w k]" "k + 2"]
    obtain q where "fixed C cs us (k + 2) (chunks[i := new_chunk C (fst (cs ! i)) w k]) ! j = new_chunk C (fst (cs ! j)) v (k + 2 + q)"
      "q + 1 < length (update_args us)" "update_args us ! (q + 1) = v" using Cons.prems(3) by auto
    then show ?thesis using u by (intro exI [of _ "q + 2"]) (simp add: add.assoc)
  qed
qed simp

lemma fixed_lengths:
  assumes "conv_ok C" and "updates_ok us cs" and "\<And>x. x \<in> set chunks \<Longrightarrow> length x = 8"
  shows "x \<in> set (fixed C cs us k chunks) \<Longrightarrow> length x = 8"
  using assms(2,3)
proof (induction us arbitrary: k chunks)
  case (Cons u us)
  obtain i w where u: "u = (i, w)" by (cases u)
  have ok: "col_ok (fst (cs ! i), w)" "updates_ok us cs" using Cons.prems(2) u by (simp_all add: updates_ok_Cons del: col_ok.simps)
  show ?case
  proof (rule Cons.IH [OF _ ok(2)])
    show "x \<in> set (fixed C cs us (k + 2) (chunks[i := new_chunk C (fst (cs ! i)) w k]))" using Cons.prems(1) u by simp
    show "length y = 8" if "y \<in> set (chunks[i := new_chunk C (fst (cs ! i)) w k])" for y
      using set_update_subset_insert [of chunks i] that Cons.prems(3) length_new_chunk [OF assms(1) ok(1)] by blast
  qed
qed simp

lemma write_fixed:
  assumes "conv_ok C" and "col_ok (t, v)" and "length (value_data v) < 2 ^ 31"
  shows "(if t = CQL_BLOB_TYPE_STRING \<or> t = CQL_BLOB_TYPE_BLOB then put_bytes m so (bytes_of_u64 (of_nat (k + 1)))
      else fst (write_value C m so 0 t v)) = put_bytes m so (new_chunk C t v k)"
  using write_value_spec [OF assms(2,3), of C m so 0] by (auto simp: new_chunk_def type_defs simp del: col_storage.simps)

lemma update_fixed:
  assumes "conv_ok C" and "list_all col_ok cs" and "16 + 9 * length cs < 2 ^ 32" and "length h = 16"
    and "updates_ok us cs" and "fst ` set us \<subseteq> I" and "list_all (\<lambda>(i, v). length (value_data v) < 2 ^ 31) us"
    and "\<And>x. x \<in> set chunks \<Longrightarrow> length x = 8" and "length chunks = length cs" and "length ts = length cs"
  shows "key_update_fixed C (shape_of (length cs)) (marked C h I cs) (update_args us) k (Mem (map Some (h @ concat chunks @ ts) @ q)) =
    Some (Mem (map Some (h @ concat (fixed C cs us k chunks) @ unmark cs us ts) @ q))"
  using assms(5-10)
proof (induction us arbitrary: k chunks ts)
  case (Cons u us)
  let ?n = "length cs"
  obtain i v where u: "u = (i, v)" by (cases u)
  obtain t w where c: "cs ! i = (t, w)" by (cases "cs ! i")
  have ok: "i < ?n" "col_ok (t, v)" "updates_ok us cs"
    using Cons.prems(1) u c by (simp_all add: updates_ok_Cons del: col_ok.simps)
  have iI: "i \<in> I" "fst ` set us \<subseteq> I" and v: "length (value_data v) < 2 ^ 31" using Cons.prems(2,3) u by auto
  have ty: "t \<in> {0, 1, 2, 3, 4, 5}" using col_ok_type [OF ok(2)] by simp
  note at = shape_offsets [OF ok(1) assms(3)]
  have tb: "byte_at (marked C h I cs) (16 + 8 * ?n + i) = Some (t OR CQL_BLOB_TYPE_DIRTY)"
    using marked_type(1) [OF assms(1,2) ok(1), of h I] iI c assms(4) by simp
  have "length (concat chunks) = 8 * ?n" using length_concat_const [OF Cons.prems(4)] Cons.prems(5) by simp
  moreover obtain t1 t0 t2 where ts: "ts = t1 @ t0 # t2" "length t1 = i"
    using id_take_nth_drop [of i ts] ok(1) Cons.prems(6) by (metis length_take less_imp_le min.absorb2)
  ultimately have 1: "put_bytes (Mem (map Some (h @ concat chunks @ ts) @ q)) (16 + 8 * ?n + i) [t] =
      Mem (map Some (h @ concat chunks) @ map Some (ts[i := t]) @ q)"
    using put_at [of "map Some (h @ concat chunks @ t1)" "16 + 8 * ?n + i" "[Some t0]" "[t]" "map Some t2 @ q"] assms(4)
    by (simp add: list_update_append)
  have len: "length (new_chunk C t v k) = 8" by (rule length_new_chunk [OF assms(1) ok(2)])
  have 2: "put_bytes (Mem (map Some (h @ concat chunks) @ map Some (ts[i := t]) @ q)) (16 + 8 * i) (new_chunk C t v k) =
      Mem (map Some (h @ concat (chunks[i := new_chunk C t v k]) @ ts[i := t]) @ q)"
    using put_chunk [of chunks i "new_chunk C t v k" h "map Some (ts[i := t]) @ q", OF Cons.prems(4)] ok(1) Cons.prems(5) len assms(4)
    by simp
  have 3: "length y = 8" if "y \<in> set (chunks[i := new_chunk C t v k])" for y
    using set_update_subset_insert [of chunks i] that Cons.prems(4) len by blast
  have "list_all (\<lambda>(i, v). length (value_data v) < 2 ^ 31) us" using Cons.prems(3) by simp
  note IH = Cons.IH [where chunks = "chunks[i := new_chunk C t v k]" and ts = "ts[i := t]" and k = "k + 2", OF ok(3) iI(2) this 3]
  have "key_update_fixed C (shape_of ?n) (marked C h I cs) (V_int (of_nat i) # v # update_args us) k (Mem (map Some (h @ concat chunks @ ts) @ q)) =
      key_update_fixed C (shape_of ?n) (marked C h I cs) (update_args us) (k + 2)
        (Mem (map Some (h @ concat (chunks[i := new_chunk C t v k]) @ ts[i := t]) @ q))"
    unfolding key_update_fixed.simps Let_def type_arg(2) at tb bind.bind_lunit clean_type(2) [OF ty] write_fixed [OF assms(1) ok(2) v] 1 2 ..
  then show ?case using IH Cons.prems(5,6) u c by simp
qed simp

end
