(* ===== verification/Blobs_Canonical.thy ===== *)
theory Blobs_Canonical
  imports Blobs_Update
begin

text \<open>
  The third pass of \<open>bupdatekey\<close> and the canonical form of its result; the update of a hostile blob
  that overruns its buffer.
\<close>

section \<open>The third pass\<close>

definition old_chunks :: "sqlite_conv \<Rightarrow> column list \<Rightarrow> u8 list list" where
  "old_chunks C cs = map (\<lambda>j. col_storage C (16 + 9 * length cs + length (var_bytes (take j cs))) (cs ! j)) [0..<length cs]"

text \<open>The chunks after \<open>i\<close> columns, \<open>mid\<close> those of the second pass, and the block with them.\<close>

definition mixed :: "sqlite_conv \<Rightarrow> u8 list list \<Rightarrow> column list \<Rightarrow> nat \<Rightarrow> u8 list list" where
  "mixed C mid cs i = map (\<lambda>j. if j < i then old_chunks C cs ! j else mid ! j) [0..<length cs]"

definition block :: "sqlite_conv \<Rightarrow> u8 list \<Rightarrow> u8 list list \<Rightarrow> column list \<Rightarrow> nat \<Rightarrow> u8 mem" where
  "block C h mid cs i =
     Mem (map Some (h @ concat (mixed C mid cs i)) @ map Some (map fst cs @ var_bytes (take i cs)) @
          replicate (length (var_bytes (drop i cs))) None)"

lemma length_old_chunks [simp]: "length (old_chunks C cs) = length cs"
  by (simp add: old_chunks_def)

lemma old_chunk_nth: "j < length cs \<Longrightarrow> old_chunks C cs ! j = col_storage C (16 + 9 * length cs + length (var_bytes (take j cs))) (cs ! j)"
  by (simp add: old_chunks_def)

lemma old_chunk_length: "conv_ok C \<Longrightarrow> list_all col_ok cs \<Longrightarrow> x \<in> set (old_chunks C cs) \<Longrightarrow> length x = 8"
  by (auto simp: old_chunks_def length_col_storage list_all_length simp del: col_storage.simps)

lemma length_mixed [simp]: "length (mixed C mid cs i) = length cs"
  by (simp add: mixed_def)

lemma mixed_nth: "j < length cs \<Longrightarrow> mixed C mid cs i ! j = (if j < i then old_chunks C cs ! j else mid ! j)"
  by (simp add: mixed_def)

lemma mixed_length:
  assumes "conv_ok C" and "list_all col_ok cs" and "\<And>x. x \<in> set mid \<Longrightarrow> length x = 8" and "length mid = length cs"
    and "x \<in> set (mixed C mid cs i)"
  shows "length x = 8"
proof -
  obtain j where j: "j < length cs" "x = mixed C mid cs i ! j" using assms(5) by (auto simp: in_set_conv_nth)
  have "length (old_chunks C cs ! j) = 8" by (rule old_chunk_length [OF assms(1,2)]) (use j in simp)
  moreover have "length (mid ! j) = 8" by (rule assms(3)) (use j assms(4) in simp)
  ultimately show ?thesis using j by (simp add: mixed_nth)
qed

lemma mixed_Suc: "i < length cs \<Longrightarrow> (mixed C mid cs i)[i := old_chunks C cs ! i] = mixed C mid cs (Suc i)"
  by (rule nth_equalityI) (auto simp: mixed_nth nth_list_update less_Suc_eq)

lemma mixed_skip: "i < length cs \<Longrightarrow> mid ! i = old_chunks C cs ! i \<Longrightarrow> mixed C mid cs i = mixed C mid cs (Suc i)"
  by (rule nth_equalityI) (auto simp: mixed_nth less_Suc_eq)

lemma drop_var: "i < length cs \<Longrightarrow> var_bytes (drop i cs) = col_var (cs ! i) @ var_bytes (drop (Suc i) cs)"
  using Cons_nth_drop_Suc [of i cs] by (metis var_bytes_simps(2))

lemma take_var: "i < length cs \<Longrightarrow> var_bytes (take (Suc i) cs) = var_bytes (take i cs) @ col_var (cs ! i)"
  by (simp add: take_Suc_conv_app_nth del: col_var.simps)

lemma block_store:
  assumes "conv_ok C" and "list_all col_ok cs" and "\<And>x. x \<in> set mid \<Longrightarrow> length x = 8" and "length mid = length cs"
    and "i < length cs" and "length h = 16"
  shows "put_bytes (put_bytes (block C h mid cs i) (16 + 8 * i) (old_chunks C cs ! i))
      (16 + 9 * length cs + length (var_bytes (take i cs))) (col_var (cs ! i)) = block C h mid cs (Suc i)"
proof -
  let ?m = "mixed C mid cs" and ?v = "col_var (cs ! i)"
  have len: "\<And>x. x \<in> set (?m i) \<Longrightarrow> length x = 8" by (rule mixed_length [OF assms(1-4)])
  have new: "length (old_chunks C cs ! i) = 8" by (rule old_chunk_length [OF assms(1,2)]) (use assms(5) in simp)
  have lc: "length (concat (?m (Suc i))) = 8 * length cs"
    using length_concat_const [of "?m (Suc i)" 8] mixed_length [OF assms(1-4)] by simp
  have "put_bytes (block C h mid cs i) (16 + 8 * i) (old_chunks C cs ! i) =
      Mem (map Some (h @ concat (?m (Suc i)) @ map fst cs @ var_bytes (take i cs)) @
        replicate (length ?v) None @ replicate (length (var_bytes (drop (Suc i) cs))) None)"
    unfolding block_def
    using put_chunk [of "?m i" i "old_chunks C cs ! i" h, OF len] assms(5,6) new drop_var [OF assms(5)]
    by (simp add: mixed_Suc replicate_add)
  then show ?thesis
    using put_at [of "map Some (h @ concat (?m (Suc i)) @ map fst cs @ var_bytes (take i cs))"
        "16 + 9 * length cs + length (var_bytes (take i cs))" "replicate (length ?v) None" ?v
        "replicate (length (var_bytes (drop (Suc i) cs))) None"] assms(6) lc take_var [OF assms(5)]
    by (simp add: block_def)
qed

lemma block_skip:
  assumes "i < length cs" and "mid ! i = old_chunks C cs ! i" and "col_var (cs ! i) = []"
  shows "block C h mid cs i = block C h mid cs (Suc i)"
  using mixed_skip [OF assms(1,2)] drop_var [OF assms(1)] take_var [OF assms(1)] assms(3) by (simp add: block_def)

lemma storage_offset_irrelevant: "t \<notin> {4, 5} \<Longrightarrow> col_ok (t, v) \<Longrightarrow> col_storage C a (t, v) = col_storage C b (t, v)"
  using col_ok_type [of "(t, v)"] by auto

lemma marked_slice:
  assumes "conv_ok C" and "list_all col_ok cs" and "i < length cs"
  shows "slice (marked C h I cs) (length h + 9 * length cs + length (var_bytes (take i cs))) (length (col_var (cs ! i))) =
    Some (col_var (cs ! i))"
proof -
  let ?p = "h @ storage C (length h + 9 * length cs) cs @ mark I cs @ var_bytes (take i cs)"
  have l: "marked C h I cs = ?p @ col_var (cs ! i) @ var_bytes (drop (Suc i) cs)"
    unfolding marked_def var_split [OF assms(3)] by simp
  have "length ?p = length h + 9 * length cs + length (var_bytes (take i cs))" using assms(1,2) by (simp add: length_storage)
  then show ?thesis unfolding l slice_def by simp
qed

lemma copy_clean:
  assumes "conv_ok C" and "list_all col_ok cs" and "i < length cs" and "fst (cs ! i) \<in> {4, 5}"
    and "length h + 9 * length cs + length (var_bytes cs) < 2 ^ 31"
  shows "copy_variable (marked C h I cs) (length h + 8 * i) so (fst (cs ! i)) m vo =
    Some (put_bytes (put_bytes m so (col_storage C vo (cs ! i))) vo (col_var (cs ! i)), vo + length (col_var (cs ! i)))"
proof -
  obtain t v where c: "cs ! i = (t, v)" by (cases "cs ! i")
  let ?o = "length h + 9 * length cs + length (var_bytes (take i cs))" and ?l = "length (value_data v)"
  have ok: "col_ok (t, v)" using assms(2,3) c by (metis list_all_length)
  obtain val where val: "cql_read_big_endian_u64 (marked C h I cs) (length h + 8 * i) = Some val"
    "field_len val = of_nat ?l" "field_offset val = of_nat ?o"
    using read_info_at [OF assms(1-4), of "length h + 9 * length cs" h "mark I cs @ var_bytes cs"] assms(5) c
    by (auto simp: marked_def)
  have small: "?o < 2 ^ 32" "?l < 2 ^ 32"
    using var_split [OF assms(3)] value_data_var [OF ok] assms(5) c by simp_all
  have u: "unat (of_nat ?o :: u32) = ?o" "unat (of_nat ?l :: u32) = ?l" using small unat_of_nat_u32 by blast+
  have bytes: "(if t = CQL_BLOB_TYPE_STRING then ?l + 1 else ?l) = length (col_var (t, v))"
    using assms(4) c by (auto simp: type_defs)
  have sl: "slice (marked C h I cs) ?o (length (col_var (t, v))) = Some (col_var (t, v))"
    using marked_slice [OF assms(1-3)] c by simp
  have st: "col_storage C vo (t, v) = be64 (field_info vo (of_nat ?l))"
    using assms(4) c by (auto simp: sqlite3_value_bytes_def)
  show ?thesis
    using val sl unfolding copy_variable_def c fst_conv st
    by (simp only: bind.bind_lunit Let_def val ucast_down_of_nat u bytes sl write_u64)
qed

lemma update_variable:
  assumes "conv_ok C" and "list_all col_ok cs" and "updates_ok us cs" and "length h = 16"
    and "key_size cs < 2 ^ 31" and "key_size (updated us cs) < 2 ^ 31" and "i + k = length cs"
  defines "mid \<equiv> fixed C cs us 1 (old_chunks C cs)"
  shows "key_update_variable (x # update_args us) (shape_of (length cs)) (marked C h (fst ` set us) cs) i k
      (block C h mid (updated us cs) i) (16 + 9 * length cs + length (var_bytes (take i (updated us cs)))) =
    Some (block C h mid (updated us cs) (length cs))"
  using assms(7)
proof (induction k arbitrary: i)
  case (Suc k)
  let ?n = "length cs" and ?cs = "updated us cs" and ?I = "fst ` set us"
  let ?vo = "16 + 9 * ?n + length (var_bytes (take i ?cs))"
  have i: "i < ?n" "i < length ?cs" using Suc.prems by simp_all
  have newok: "list_all col_ok ?cs" by (rule updated_col_ok [OF assms(3,2)])
  have midlen: "\<And>y. y \<in> set mid \<Longrightarrow> length y = 8" "length mid = length ?cs"
    unfolding mid_def using fixed_lengths [OF assms(1,3) old_chunk_length [OF assms(1,2)]] by (blast, simp)
  note store = block_store [OF assms(1) newok midlen i(2) assms(4)]
  have small: "16 + 9 * ?n < 2 ^ 32" "length us \<le> ?n"
  proof -
    show "16 + 9 * ?n < 2 ^ 32" using assms(5) by (simp add: key_size_def)
    have "set (map fst us) \<subseteq> {..<?n}" "distinct (map fst us)" using assms(3) by (auto simp: updates_ok_def)
    then show "length us \<le> ?n" by (metis card_lessThan card_mono distinct_card finite_lessThan length_map)
  qed
  have offs: "unat (storage_offset (shape_of ?n)) = 16" "unat (type_codes_offset (shape_of ?n)) = 16 + 8 * ?n"
    using unat_of_nat_u64 [of "16 + 8 * ?n"] small(1) by (simp_all add: shape_of_def)
  obtain t w where c: "cs ! i = (t, w)" by (cases "cs ! i")
  have ty: "t \<in> {0, 1, 2, 3, 4, 5}" using col_ok_type assms(2) i(1) c by (metis fst_conv list_all_length)
  have tb: "byte_at (marked C h ?I cs) (16 + 8 * ?n + i) = Some (if i \<in> ?I then t OR CQL_BLOB_TYPE_DIRTY else t)"
    using marked_type(1) [OF assms(1,2) i(1), of h ?I] c assms(4) by simp
  have chunk: "old_chunks C ?cs ! i = col_storage C ?vo (?cs ! i)" using old_chunk_nth [OF i(2)] by simp
  have IH: "key_update_variable (x # update_args us) (shape_of ?n) (marked C h ?I cs) (Suc i) k
      (block C h mid ?cs (Suc i)) (?vo + length (col_var (?cs ! i))) = Some (block C h mid ?cs ?n)"
    using Suc.IH [of "Suc i"] Suc.prems take_var [OF i(2)] by (simp add: add.assoc)
  show ?case
  proof (cases "i \<in> ?I")
    case False
    then have "map_of us i = None" by (simp add: map_of_eq_None_iff)
    then have ci: "?cs ! i = (t, w)" using updated_nth [OF i(1) assms(3)] c by simp
    show ?thesis
    proof (cases "t \<in> {4, 5}")
      case True
      have "copy_variable (marked C h ?I cs) (16 + 8 * i) (16 + 8 * i) t (block C h mid ?cs i) ?vo =
          Some (block C h mid ?cs (Suc i), ?vo + length (col_var (?cs ! i)))"
        using copy_clean [OF assms(1,2) i(1), of h ?I] assms(4,5) True c ci store chunk by (simp add: key_size_def)
      then show ?thesis using tb False offs IH True by (auto simp: type_defs mult.commute)
    next
      case nv: False
      have "mid ! i = old_chunks C ?cs ! i"
        unfolding chunk ci mid_def fixed_other [OF False] old_chunk_nth [OF i(1)] c
        by (rule storage_offset_irrelevant [OF nv]) (use assms(2) i(1) c in \<open>metis list_all_length\<close>)
      moreover have "col_var (?cs ! i) = []" using nv ci by simp
      ultimately show ?thesis using tb False offs IH nv ty block_skip [OF i(2)] by (auto simp: type_defs)
    qed
  next
    case True
    then obtain v where v: "map_of us i = Some v" by (metis map_of_eq_None_iff option.exhaust)
    then have ci: "?cs ! i = (t, v)" using updated_nth [OF i(1) assms(3)] c by simp
    have okv: "col_ok (t, v)" using newok i(2) ci by (metis list_all_length)
    obtain q where q: "mid ! i = new_chunk C t v (1 + q)" "q + 1 < length (update_args us)" "update_args us ! (q + 1) = v"
      using fixed_nth [OF assms(3) v length_old_chunks, of C 1] c unfolding mid_def by auto
    show ?thesis
    proof (cases "t \<in> {4, 5}")
      case False
      have "mid ! i = old_chunks C ?cs ! i"
        unfolding chunk ci q(1) using storage_offset_irrelevant [OF False okv] False by (simp add: new_chunk_def del: col_storage.simps)
      moreover have "col_var (?cs ! i) = []" using False ci by simp
      ultimately show ?thesis using tb True offs IH False ty block_skip [OF i(2)] by (auto simp: type_defs)
    next
      case var: True
      have "load_u64 (block C h mid ?cs i) (16 + 8 * i) = Some (u64_of_bytes (mixed C mid ?cs i ! i))"
        unfolding block_def using load_chunk [of "mixed C mid ?cs i" i h, OF mixed_length [OF assms(1) newok midlen]] i(2) assms(4) by simp
      moreover have "mixed C mid ?cs i ! i = bytes_of_u64 (of_nat (q + 2))" using i(2) var q(1) by (simp add: mixed_nth new_chunk_def)
      ultimately have ld: "load_u64 (block C h mid ?cs i) (16 + 8 * i) = Some (of_nat (q + 2))" by simp
      have u: "unat (of_nat (q + 2) :: u64) = q + 2" using q(2) small by (intro unat_of_nat_u64) simp
      have arg: "(x # update_args us) ! (q + 2) = v" "q + 2 < length (x # update_args us)" using q(2,3) by simp_all
      have lv: "unat (sqlite3_value_bytes v) = length (value_data v)"
        using value_data_var [OF okv] var_split [OF i(2)] ci assms(6) unat_of_nat_u32 [of "length (value_data v)"]
        by (simp add: sqlite3_value_bytes_def key_size_def)
      have st: "old_chunks C ?cs ! i = be64 (field_info ?vo (sqlite3_value_bytes v))" unfolding chunk ci using var by auto
      have w: "put_bytes (cql_write_big_endian_u64 (block C h mid ?cs i) (16 + 8 * i) (field_info ?vo (sqlite3_value_bytes v))) ?vo
          (col_var (t, v)) = block C h mid ?cs (Suc i)"
        using store ci st by (simp add: write_u64)
      show ?thesis
        using tb True offs ld u arg lv IH ci w var
        by (auto simp: type_defs mult.commute Let_def simp del: of_nat_add)
    qed
  qed
qed simp

section \<open>Canonical updates\<close>

lemma mixed_ends:
  "length mid = length cs \<Longrightarrow> mixed C mid cs 0 = mid" "mixed C mid cs (length cs) = old_chunks C cs"
  by (rule nth_equalityI; simp add: mixed_nth)+

lemma storage_chunks: "storage C (16 + 9 * length cs) cs = concat (old_chunks C cs)"
  by (simp add: storage_concat old_chunks_def)

lemma scast_small: "k < 2 ^ 31 \<Longrightarrow> (of_nat k :: u64) = scast (ucast (of_nat k :: u64) :: i32)"
proof -
  assume "k < 2 ^ 31"
  then have "scast (of_nat k :: i32) = (word_of_int (int k) :: u64)" using sint_small_i32 [of k] by (metis of_int_sint)
  then show ?thesis unfolding ucast_down_of_nat by simp
qed

lemma update_key:
  assumes "conv_ok C" and "list_all col_ok cs" and "key_size cs < 2 ^ 31" and "us \<noteq> []" and "updates_ok us cs"
    and "key_size (updated us cs) < 2 ^ 31"
  shows "bupdatekey C (V_blob (key_blob C r cs) # update_args us) = Some (Result_blob (map Some (key_blob C r (updated us cs))))"
proof -
  let ?n = "length cs" and ?cs = "updated us cs" and ?I = "fst ` set us" and ?h = "header_bytes r (length cs)"
  let ?b = "key_blob C r cs" and ?mid = "fixed C cs us 1 (old_chunks C cs)" and ?v = "length (var_bytes (updated us cs))"
  note ch = key_checks [OF assms(1-3), of r]
  have small: "16 + 9 * ?n + 0 < 2 ^ 32" "?n < 2 ^ 32" "key_size ?cs = 16 + 9 * ?n + ?v" using assms(3) by (simp_all add: key_size_def)
  have data: "value_data (V_blob ?b) = ?b" "sqlite3_value_bytes (V_blob ?b) = of_nat (length ?b)"
    "sqlite3_value_type (V_blob ?b) = SQLITE_BLOB"
    by (simp_all add: value_data_def sqlite3_value_bytes_def sqlite3_value_type_def)
  have len: "length ?b = key_size cs" by (rule length_key_blob [OF assms(1,2)])
  have vals: "list_all (\<lambda>(i, v). length (value_data v) < 2 ^ 31) us"
    using update_value_bound [OF assms(5)] assms(6) small(3) by (fastforce simp: list_all_iff)
  have check: "key_update_check C (of_nat ?n) (shape_of ?n) (update_args us) ?b 0 = Some (Inr (marked C ?h ?I cs, size_change us cs))"
    using update_check [OF assms(1-3) length_header assms(5) _ vals, of "{}" r ?n 0] by (simp add: marked_empty key_layout)
  have "(ucast (of_nat (length ?b) :: u32) :: u64) = of_nat (length ?b)" using assms(3) len by (intro ucast_of_nat_64) simp
  then have total: "ucast (of_nat (length ?b) :: u32) + size_change us cs = of_nat (key_size ?cs)"
    using size_change_total [OF assms(5)] unfolding len small(3) by (simp add: key_size_def add.assoc)
  have lc: "length (concat (old_chunks C cs)) = 8 * ?n"
    using length_concat_const [OF old_chunk_length [OF assms(1,2)]] by simp
  have head: "slice (marked C ?h ?I cs) 0 (16 + 9 * ?n) = Some (?h @ concat (old_chunks C cs) @ mark ?I cs)"
    using lc by (simp add: slice_def marked_def storage_chunks)
  have start: "put_bytes (mem_alloc (key_size ?cs)) 0 (?h @ concat (old_chunks C cs) @ mark ?I cs) =
      Mem (map Some (?h @ concat (old_chunks C cs) @ mark ?I cs) @ replicate ?v None)"
    using lc by (simp add: put_bytes_def mem_alloc_def small(3))
  have fixd: "key_update_fixed C (shape_of ?n) (marked C ?h ?I cs) (update_args us) 1
      (Mem (map Some (?h @ concat (old_chunks C cs) @ mark ?I cs) @ replicate ?v None)) = Some (block C ?h ?mid ?cs 0)"
    using update_fixed [OF assms(1,2) _ length_header assms(5) subset_refl vals, of "old_chunks C cs"] small(1)
      old_chunk_length [OF assms(1,2)] updated_types [OF assms(5)] unmark_all [of cs us]
    by (simp add: block_def mixed_ends)
  have var: "key_update_variable (V_blob ?b # update_args us) (shape_of ?n) (marked C ?h ?I cs) 0 ?n (block C ?h ?mid ?cs 0) (16 + 9 * ?n) =
      Some (block C ?h ?mid ?cs ?n)"
    using update_variable [OF assms(1,2,5) length_header assms(3,6), of 0 ?n] by simp
  have fin: "result_blob (block C ?h ?mid ?cs ?n) = Some (Result_blob (map Some (key_blob C r ?cs)))"
    using mixed_ends(2) [of C ?mid ?cs] storage_chunks [of C ?cs] updated_types [OF assms(5)]
    by (simp add: result_blob_def block_def key_blob_def)
  have shape: "cql_compute_key_blob_shape (of_nat ?n) 0 = Some (shape_of ?n)"
    using key_shape [OF small(1)] by (simp add: shape_of_def)
  have vo: "variable_offset (shape_of ?n) = of_nat (16 + 9 * ?n)" "storage_offset (shape_of ?n) = 16"
    "type_codes_offset (shape_of ?n) = of_nat (16 + 8 * ?n)" "unat (of_nat (16 + 9 * ?n) :: u64) = 16 + 9 * ?n"
    using unat_of_nat_u64 [of "16 + 9 * ?n"] small(1) by (simp_all add: shape_of_def)
  have cnt: "(ucast (of_nat ?n :: u32) :: u64) = of_nat ?n" "unat (of_nat ?n :: u32) = ?n"
    using small(2) ucast_of_nat_64 unat_of_nat_u32 by blast+
  have malloc: "sqlite3_malloc (of_nat (key_size ?cs)) = Some (mem_alloc (key_size ?cs))"
    by (rule malloc_small) (use assms(6) small(3) in simp_all)
  have args: "\<not> (length (V_blob ?b # update_args us) < 3 \<or> length (V_blob ?b # update_args us) mod 2 = 0)"
    using assms(4) by (cases us) auto
  show ?thesis
    unfolding bupdatekey_def Let_def
    using args
    by (simp only: if_False nth_Cons_0 list.sel data simp_thms ch bind.bind_lunit cql_blob_header.simps cnt shape vo check sum.case
        prod.case total bind_require scast_small [OF assms(6), symmetric] malloc head start fixd var fin if_True)
qed

text \<open>
  C7. Key blobs are canonical: updating columns of a key blob, in any order of the arguments, gives
  byte for byte the blob that \<open>bcreatekey\<close> makes from the updated columns, so the primary key constraint
  on the blob is a constraint on the key values.
\<close>

theorem key_update_canonical:
  assumes "conv_ok C" and "list_all col_ok cs" and "cs \<noteq> []" and "key_size cs < 2 ^ 31"
    and "us \<noteq> []" and "updates_ok us cs" and "key_size (updated us cs) < 2 ^ 31"
    and "bcreatekey C (V_int r # key_args cs) = Some (Result_blob (map Some b))"
  shows "bupdatekey C (V_blob b # update_args us) = bcreatekey C (V_int r # key_args (updated us cs))"
proof -
  have "map Some b = map Some (key_blob C r cs)" using create_key [OF assms(1-4), of r] assms(8) by simp
  then have b: "b = key_blob C r cs" by (metis list.inj_map_strong option.inject)
  have "updated us cs \<noteq> []" using assms(3) by (metis length_0_conv length_updated)
  then show ?thesis
    unfolding b using update_key [OF assms(1,2,4-7)] create_key [OF assms(1) updated_col_ok [OF assms(6,2)] _ assms(7)] by simp
qed

theorem key_update_canonical_witness:
  "bupdatekey sample_conv (V_blob (key_blob sample_conv 77 sample_columns) # update_args [(2, V_blob [5, 6, 7]), (0, V_text [120])]) =
   bcreatekey sample_conv (V_int 77 # key_args [(4, V_text [120]), (0, V_int 7), (5, V_blob [5, 6, 7]),
     (3, V_float [1, 2, 3, 4, 5, 6, 7, 8])])"
proof -
  let ?us = "[(2, V_blob [5, 6, 7]), (0, V_text [120])]"
  have up: "updated ?us sample_columns = [(4, V_text [120]), (0, V_int 7), (5, V_blob [5, 6, 7]), (3, V_float [1, 2, 3, 4, 5, 6, 7, 8])]"
    by (simp add: sample_columns_def)
  have ok: "updates_ok ?us sample_columns" by (simp add: updates_ok_def sample_columns_def)
  have size: "key_size (updated ?us sample_columns) < 2 ^ 31" unfolding up by (simp add: key_size_def value_data_def)
  show ?thesis
    using key_update_canonical [OF sample_key_ok _ ok size create_key [OF sample_key_ok]] unfolding up by simp
qed

section \<open>Overlapping fields\<close>

text \<open>
  The validation does not see overlaps.  Here the two string columns of a key blob share their bytes: the blob is valid,
  an update of its third column, a number, passes the checks, leaves the size as it is and writes the fixed
  fields, and then the copy of the second string leaves the block.
\<close>

definition overlap_blob :: "u8 list" where
  "overlap_blob = header_bytes 77 3 @ [0, 0, 0, 43, 0, 0, 0, 2, 0, 0, 0, 43, 0, 0, 0, 2, 0, 0, 0, 0, 0, 0, 0, 1, 4, 4, 1, 104, 105, 0]"

lemma key_update_overlap_overruns:
  "case cql_compute_key_blob_shape 3 0 of None \<Rightarrow> False | Some shape \<Rightarrow>
     cql_validate_blob_variable_fields overlap_blob (of_nat (length overlap_blob)) 3 (storage_offset shape) (type_codes_offset shape)
       (variable_offset shape) = Some True \<and>
     (case key_update_check sample_conv 3 shape [V_int 2, V_int 9] overlap_blob 0 of Some (Inr (b, adjustment)) \<Rightarrow>
        adjustment = 0 \<and>
        (case key_update_fixed sample_conv shape b [V_int 2, V_int 9] 1
                (put_bytes (mem_alloc (length overlap_blob)) 0 (take (unat (variable_offset shape)) b)) of Some m \<Rightarrow>
           m \<noteq> Fault \<and>
           (case key_update_variable [V_blob overlap_blob, V_int 2, V_int 9] shape b 0 1 m (unat (variable_offset shape)) of
              Some m1 \<Rightarrow> m1 \<noteq> Fault | None \<Rightarrow> False) \<and>
           key_update_variable [V_blob overlap_blob, V_int 2, V_int 9] shape b 0 2 m (unat (variable_offset shape)) = Some Fault
         | None \<Rightarrow> False)
      | _ \<Rightarrow> False)"
  by code_simp

end
