(* ===== verification/Val_Blobs_Create.thy ===== *)
theory Val_Blobs_Create
  imports Val_Blobs Blobs_Canonical
begin

text \<open>
  Value blobs as encodings of a list of fields: what \<open>bcreateval\<close> creates, and what \<open>bgetval\<close> reads
  from an encoding, also when unused bytes follow it.
\<close>

section \<open>Fields\<close>

text \<open>A field is an id with a column; a null value stands for an absent field.\<close>

type_synonym field = "u64 \<times> column"

definition val_args :: "field list \<Rightarrow> sqlite3_value list" where
  "val_args fs = concat (map (\<lambda>(i, t, v). [V_int i, v, V_int (ucast t)]) fs)"

definition live :: "field list \<Rightarrow> field list" where
  "live fs = filter (\<lambda>f. snd (snd f) \<noteq> V_null) fs"

definition fields_ok :: "field list \<Rightarrow> bool" where
  "fields_ok fs \<longleftrightarrow> list_all (\<lambda>f. col_ok (snd f)) (live fs)"

definition ids :: "field list \<Rightarrow> u8 list" where
  "ids fs = concat (map (\<lambda>f. be64 (fst f)) fs)"

definition val_prefix :: "u64 \<Rightarrow> field list \<Rightarrow> u8 list" where
  "val_prefix r fs = header_bytes r (length fs) @ ids fs"

definition val_blob :: "sqlite_conv \<Rightarrow> u64 \<Rightarrow> field list \<Rightarrow> u8 list" where
  "val_blob C r fs = layout C (val_prefix r fs) (map snd fs)"

definition val_size :: "field list \<Rightarrow> nat" where
  "val_size fs = 16 + 17 * length fs + length (var_bytes (map snd fs))"

lemma val_args_simps [simp]: "val_args [] = []" "val_args ((i, t, v) # fs) = V_int i # v # V_int (ucast t) # val_args fs"
  by (simp_all add: val_args_def)

lemma length_val_args [simp]: "length (val_args fs) = 3 * length fs"
  by (induction fs) auto

lemma live_simps [simp]: "live [] = []" "live ((i, t, v) # fs) = (if v = V_null then live fs else (i, t, v) # live fs)"
  by (simp_all add: live_def)

lemma fields_ok_simps [simp]: "fields_ok []" "fields_ok ((i, t, v) # fs) \<longleftrightarrow> (v = V_null \<or> col_ok (t, v)) \<and> fields_ok fs"
  by (auto simp: fields_ok_def simp del: col_ok.simps)

lemma ids_simps [simp]: "ids [] = []" "ids (f # fs) = be64 (fst f) @ ids fs" "ids (fs @ gs) = ids fs @ ids gs"
  by (simp_all add: ids_def)

lemma length_ids [simp]: "length (ids fs) = 8 * length fs"
  by (induction fs) auto

lemma length_val_prefix [simp]: "length (val_prefix r fs) = 16 + 8 * length fs"
  by (simp add: val_prefix_def)

lemma length_val_blob: "conv_ok C \<Longrightarrow> list_all col_ok (map snd fs) \<Longrightarrow> length (val_blob C r fs) = val_size fs"
  by (simp add: val_blob_def length_layout val_size_def)

lemma fields_ok_live: "fields_ok fs \<longleftrightarrow> list_all col_ok (map snd (live fs))"
  by (simp add: fields_ok_def list.pred_map comp_def)

lemma null_type [simp]: "sqlite3_value_type v = SQLITE_NULL \<longleftrightarrow> v = V_null"
  by (cases v) (simp_all add: sqlite3_value_type_def)

section \<open>The four areas of a block\<close>

text \<open>A block that is being filled: in each area the bytes written so far and the free cells.\<close>

definition areas :: "u8 option list \<Rightarrow> u8 list \<Rightarrow> nat \<Rightarrow> u8 list \<Rightarrow> nat \<Rightarrow> u8 list \<Rightarrow> nat \<Rightarrow> u8 list \<Rightarrow> nat \<Rightarrow> u8 mem" where
  "areas hc a k b l c m d n =
     Mem (hc @ map Some a @ replicate k None @ map Some b @ replicate l None @ map Some c @ replicate m None @
          map Some d @ replicate n None)"

lemma put_area:
  "at = length hc + length a \<Longrightarrow>
     put_bytes (areas hc a (length x + k) b l c m d n) at x = areas hc (a @ x) k b l c m d n"
  "at = length hc + length a + k + length b \<Longrightarrow>
     put_bytes (areas hc a k b (length x + l) c m d n) at x = areas hc a k (b @ x) l c m d n"
  "at = length hc + length a + k + length b + l + length c \<Longrightarrow>
     put_bytes (areas hc a k b l c (length x + m) d n) at x = areas hc a k b l (c @ x) m d n"
  "at = length hc + length a + k + length b + l + length c + m + length d \<Longrightarrow>
     put_bytes (areas hc a k b l c m d (length x + n)) at x = areas hc a k b l c m (d @ x) n"
proof -
  let ?N = "replicate (length x) None :: u8 option list"
  show "at = length hc + length a \<Longrightarrow>
     put_bytes (areas hc a (length x + k) b l c m d n) at x = areas hc (a @ x) k b l c m d n"
    using put_at [of "hc @ map Some a" at ?N x] by (simp add: areas_def replicate_add)
  show "at = length hc + length a + k + length b \<Longrightarrow>
     put_bytes (areas hc a k b (length x + l) c m d n) at x = areas hc a k (b @ x) l c m d n"
    using put_at [of "hc @ map Some a @ replicate k None @ map Some b" at ?N x] by (simp add: areas_def replicate_add)
  show "at = length hc + length a + k + length b + l + length c \<Longrightarrow>
     put_bytes (areas hc a k b l c (length x + m) d n) at x = areas hc a k b l (c @ x) m d n"
    using put_at [of "hc @ map Some a @ replicate k None @ map Some b @ replicate l None @ map Some c" at ?N x]
    by (simp add: areas_def replicate_add)
  show "at = length hc + length a + k + length b + l + length c + m + length d \<Longrightarrow>
     put_bytes (areas hc a k b l c m d (length x + n)) at x = areas hc a k b l c m (d @ x) n"
    using put_at [of "hc @ map Some a @ replicate k None @ map Some b @ replicate l None @ map Some c @ replicate m None @ map Some d"
        at ?N x] by (simp add: areas_def replicate_add)
qed

text \<open>
  A block for \<open>n\<close> fields and \<open>w\<close> variable bytes that holds the fields \<open>fs\<close>, and the positions for the
  next field.
\<close>

definition partly :: "sqlite_conv \<Rightarrow> u8 option list \<Rightarrow> nat \<Rightarrow> nat \<Rightarrow> field list \<Rightarrow> u8 mem" where
  "partly C hc n w fs =
     areas hc (ids fs) (8 * (n - length fs)) (storage C (16 + 17 * n) (map snd fs)) (8 * (n - length fs))
       (map (fst \<circ> snd) fs) (n - length fs) (var_bytes (map snd fs)) (w - length (var_bytes (map snd fs)))"

definition next_at :: "nat \<Rightarrow> field list \<Rightarrow> positions" where
  "next_at n fs =
     \<lparr>ids_at = 16 + 8 * length fs, storage_at = 16 + 8 * n + 8 * length fs, types_at = 16 + 16 * n + length fs,
      variable_at = 16 + 17 * n + length (var_bytes (map snd fs))\<rparr>"

lemma next_at_append:
  "next_at n (fs @ [(i, c)]) =
     \<lparr>ids_at = ids_at (next_at n fs) + 8, storage_at = storage_at (next_at n fs) + 8, types_at = types_at (next_at n fs) + 1,
      variable_at = variable_at (next_at n fs) + length (col_var c)\<rparr>"
  by (simp add: next_at_def del: col_var.simps)

lemma put_nth:
  assumes "at + length x \<le> length cs"
  shows "put_bytes (Mem cs) at x = Mem (map (\<lambda>i. if at \<le> i \<and> i < at + length x then Some (x ! (i - at)) else cs ! i) [0..<length cs])"
  unfolding put_bytes_def using assms by (auto simp: nth_append intro!: nth_equalityI)

lemma put_commute:
  assumes "at + length x \<le> at'"
  shows "put_bytes (put_bytes m at x) at' y = put_bytes (put_bytes m at' y) at x"
proof (cases m)
  case (Mem cs)
  show ?thesis
  proof (cases "at + length x \<le> length cs \<and> at' + length y \<le> length cs")
    case True
    then show ?thesis unfolding Mem using assms by (auto simp: put_nth)
  next
    case False
    then show ?thesis unfolding Mem by (auto simp: put_bytes_def)
  qed
qed (simp add: put_bytes_def)

lemma put_empty: "put_bytes m at [] = partly C hc n w fs \<Longrightarrow> m = partly C hc n w fs"
  by (cases m) (auto simp: put_bytes_def partly_def areas_def split: if_splits)

text \<open>The four writes of a field, in the order of \<open>val_fill\<close> and in that of \<open>val_update_copy\<close>.\<close>

lemma add_field:
  fixes n w :: nat and fs :: "field list"
  assumes "conv_ok C" and "list_all col_ok (map snd fs)" and "col_ok c" and "length hc = 16" and "length fs < n"
    and "length (var_bytes (map snd fs)) + length (col_var c) \<le> w"
  defines "p \<equiv> next_at n fs"
  shows "put_bytes (put_bytes (put_bytes (put_bytes (partly C hc n w fs) (types_at p) [fst c]) (ids_at p) (be64 i))
      (storage_at p) (col_storage C (variable_at p) c)) (variable_at p) (col_var c) = partly C hc n w (fs @ [(i, c)])"
    and "put_bytes (put_bytes (put_bytes (put_bytes (partly C hc n w fs) (storage_at p) (col_storage C (variable_at p) c))
      (variable_at p) (col_var c)) (types_at p) [fst c]) (ids_at p) (be64 i) = partly C hc n w (fs @ [(i, c)])"
    and "col_var c = [] \<Longrightarrow> put_bytes (put_bytes (put_bytes (partly C hc n w fs) (storage_at p) (col_storage C (variable_at p) c))
      (types_at p) [fst c]) (ids_at p) (be64 i) = partly C hc n w (fs @ [(i, c)])"
proof -
  obtain k where k: "n = length fs + Suc k" using assms(5) less_imp_Suc_add by fastforce
  obtain u where u: "w = length (var_bytes (map snd fs)) + length (col_var c) + u" using assms(6) le_iff_add by blast
  define a b t v st where "a = ids fs" and "b = storage C (16 + 17 * n) (map snd fs)" and "t = map (fst \<circ> snd) fs"
    and "v = var_bytes (map snd fs)" and "st = col_storage C (variable_at p) c"
  have len: "length a = 8 * length fs" "length b = 8 * length fs" "length t = length fs" "length st = 8"
    using length_storage [OF assms(1,2)] length_col_storage [OF assms(1,3)] by (simp_all add: a_def b_def t_def st_def)
  have pos: "ids_at p = 16 + 8 * length fs" "storage_at p = 16 + 8 * n + 8 * length fs" "types_at p = 16 + 16 * n + length fs"
    "variable_at p = 16 + 17 * n + length v" by (simp_all add: p_def next_at_def v_def)
  have start: "partly C hc n w fs = areas hc a (length (be64 i) + 8 * k) b (length st + 8 * k) t (length [fst c] + k) v (length (col_var c) + u)"
    unfolding partly_def len(4) a_def b_def t_def v_def using k u by simp
  have fin: "partly C hc n w (fs @ [(i, c)]) = areas hc (a @ be64 i) (8 * k) (b @ st) (8 * k) (t @ [fst c]) k (v @ col_var c) u"
    unfolding partly_def a_def b_def t_def v_def st_def pos(4) using k u by (simp add: storage_append del: col_var.simps col_storage.simps)
  have 1: "put_bytes (partly C hc n w fs) (types_at p) [fst c] =
      areas hc a (length (be64 i) + 8 * k) b (length st + 8 * k) (t @ [fst c]) k v (length (col_var c) + u)"
    unfolding start by (rule put_area(3)) (simp add: pos len assms(4) k)
  have 2: "put_bytes (areas hc a (length (be64 i) + 8 * k) b (length st + 8 * k) (t @ [fst c]) k v (length (col_var c) + u)) (ids_at p) (be64 i) =
      areas hc (a @ be64 i) (8 * k) b (length st + 8 * k) (t @ [fst c]) k v (length (col_var c) + u)"
    by (rule put_area(1)) (simp add: pos len assms(4))
  have 3: "put_bytes (areas hc (a @ be64 i) (8 * k) b (length st + 8 * k) (t @ [fst c]) k v (length (col_var c) + u)) (storage_at p) st =
      areas hc (a @ be64 i) (8 * k) (b @ st) (8 * k) (t @ [fst c]) k v (length (col_var c) + u)"
    by (rule put_area(2)) (simp add: pos len assms(4) k)
  have 4: "put_bytes (areas hc (a @ be64 i) (8 * k) (b @ st) (8 * k) (t @ [fst c]) k v (length (col_var c) + u)) (variable_at p) (col_var c) =
      areas hc (a @ be64 i) (8 * k) (b @ st) (8 * k) (t @ [fst c]) k (v @ col_var c) u"
    by (rule put_area(4)) (simp add: pos len assms(4) k)
  show first: "put_bytes (put_bytes (put_bytes (put_bytes (partly C hc n w fs) (types_at p) [fst c]) (ids_at p) (be64 i))
      (storage_at p) (col_storage C (variable_at p) c)) (variable_at p) (col_var c) = partly C hc n w (fs @ [(i, c)])"
    unfolding st_def [symmetric] 1 2 3 4 fin ..
  have order: "storage_at p + length st \<le> types_at p" "ids_at p + length (be64 i) \<le> storage_at p"
    "types_at p + length [fst c] \<le> variable_at p" "ids_at p + length (be64 i) \<le> variable_at p" "ids_at p + length (be64 i) \<le> types_at p"
    "storage_at p + length st \<le> variable_at p"
    using assms(5) len by (simp_all add: pos)
  show "put_bytes (put_bytes (put_bytes (put_bytes (partly C hc n w fs) (storage_at p) (col_storage C (variable_at p) c))
      (variable_at p) (col_var c)) (types_at p) [fst c]) (ids_at p) (be64 i) = partly C hc n w (fs @ [(i, c)])"
    unfolding first [symmetric] st_def [symmetric]
    by (simp only: order [THEN put_commute])
  assume "col_var c = []"
  then have "put_bytes (put_bytes (put_bytes (partly C hc n w fs) (types_at p) [fst c]) (ids_at p) (be64 i)) (storage_at p) st =
      partly C hc n w (fs @ [(i, c)])"
    using first unfolding st_def by (auto dest: put_empty)
  then show "put_bytes (put_bytes (put_bytes (partly C hc n w fs) (storage_at p) (col_storage C (variable_at p) c))
      (types_at p) [fst c]) (ids_at p) (be64 i) = partly C hc n w (fs @ [(i, c)])"
    unfolding st_def [symmetric] by (simp only: order [THEN put_commute])
qed

section \<open>Creating\<close>

text \<open>The variable sizes stay below a bound that the values of all stored fields share.\<close>

lemma live_value_bound:
  "fields_ok ((i, t, v) # fs) \<Longrightarrow> v \<noteq> V_null \<Longrightarrow> length (value_data v) \<le> length (var_bytes (map snd (live ((i, t, v) # fs))))"
  using value_data_var [of t v] by (simp del: col_ok.simps col_var.simps)

lemma val_args_size_spec:
  assumes "fields_ok fs" and "length (var_bytes (map snd (live fs))) < 2 ^ 31"
  shows "val_args_size C (val_args fs) acc cols =
    Some (acc + of_nat (length (var_bytes (map snd (live fs)))), cols + of_nat (length (live fs)))"
  using assms
proof (induction fs arbitrary: acc cols)
  case (Cons f fs)
  obtain i t v where f: "f = (i, t, v)" by (cases f) auto
  show ?case
  proof (cases "v = V_null")
    case True
    then show ?thesis using Cons f by simp
  next
    case False
    have "col_ok (t, v)" "length (value_data v) < 2 ^ 31"
      using Cons.prems False live_value_bound [of i t v fs] f by (simp_all del: col_ok.simps)
    from compat_some [OF this] show ?thesis using Cons f False by (simp add: add.assoc del: col_var.simps col_ok.simps)
  qed
qed simp

lemma val_fill_spec:
  assumes "conv_ok C" and "length hc = 16" and "fields_ok fs" and "list_all col_ok (map snd gs)"
    and "length gs + length (live fs) \<le> n" and "length (var_bytes (map snd (gs @ live fs))) \<le> w" and "w < 2 ^ 31"
  shows "val_fill C (val_args fs) (partly C hc n w gs) (next_at n gs) = (partly C hc n w (gs @ live fs), next_at n (gs @ live fs))"
  using assms(3-6)
proof (induction fs arbitrary: gs)
  case (Cons f fs)
  obtain i t v where f: "f = (i, t, v)" by (cases f) auto
  show ?case
  proof (cases "v = V_null")
    case True
    then show ?thesis using Cons f by simp
  next
    case False
    let ?p = "next_at n gs"
    have ok: "col_ok (t, v)" "length (value_data v) < 2 ^ 31"
      using Cons.prems False live_value_bound [of i t v fs] assms(7) f by (simp_all del: col_ok.simps)
    have fits: "length gs < n" "length (var_bytes (map snd gs)) + length (col_var (t, v)) \<le> w"
      using Cons.prems(3,4) False f by (simp_all del: col_var.simps)
    note add = add_field(1) [OF assms(1) Cons.prems(2) ok(1) assms(2) fits, of i]
    have "write_value C (put_bytes (put_bytes (partly C hc n w gs) (types_at ?p) [t]) (ids_at ?p) (be64 i)) (storage_at ?p) (variable_at ?p) t v =
        (partly C hc n w (gs @ [(i, t, v)]), variable_at ?p + length (col_var (t, v)))"
      using add unfolding write_value_spec [OF ok] by (auto dest: put_empty simp del: col_storage.simps)
    moreover have "val_fill C (val_args fs) (partly C hc n w (gs @ [(i, t, v)])) (next_at n (gs @ [(i, t, v)])) =
        (partly C hc n w (gs @ live (f # fs)), next_at n (gs @ live (f # fs)))"
      using Cons.IH [of "gs @ [(i, t, v)]"] Cons.prems False f ok(1) by (simp del: col_ok.simps)
    ultimately show ?thesis using False f by (simp add: write_u64 next_at_append del: col_var.simps)
  qed
qed simp

lemma partly_empty: "length hc = 16 \<Longrightarrow> partly C hc n w [] = Mem (hc @ replicate (17 * n + w) None)"
  by (simp add: partly_def areas_def replicate_add [symmetric])

lemma partly_full:
  assumes "n = length fs" and "length (var_bytes (map snd fs)) + g = w"
  shows "partly C (map Some (header_bytes r n)) n w fs = Mem (map Some (val_blob C r fs) @ replicate g None)"
  using assms by (auto simp: partly_def areas_def val_blob_def val_prefix_def layout_def add.commute)

lemma val_shape:
  assumes "16 + 17 * n + v < 2 ^ 31"
  shows "cql_compute_val_blob_shape (of_nat n) (of_nat v) =
    Some \<lparr>header_size = 16, storage_size = of_nat (8 * n), type_codes_size = of_nat n, variable_size = of_nat v,
      total_bytes = of_nat (16 + 17 * n + v), storage_offset = of_nat (16 + 8 * n), type_codes_offset = of_nat (16 + 16 * n),
      variable_offset = of_nat (16 + 17 * n), field_ids_size = of_nat (8 * n), field_ids_offset = 16\<rparr>"
proof -
  have t: "(16 + of_nat n * 8 + of_nat n + of_nat n * 8 + of_nat v :: u64) = of_nat (16 + 17 * n + v)" by simp
  have "(of_nat (16 + 17 * n + v) :: u64) = scast (ucast (of_nat (16 + 17 * n + v) :: u64) :: i32)" by (rule scast_small [OF assms])
  then show ?thesis unfolding cql_compute_val_blob_shape_def Let_def t by (simp add: mult.commute)
qed

lemma first_positions_val:
  assumes "16 + 17 * n + v < 2 ^ 31" and "cql_compute_val_blob_shape (of_nat n) (of_nat v) = Some shape"
  shows "first_positions shape = next_at n []"
  using assms(2) unat_of_nat_u64 [of "16 + 8 * n"] unat_of_nat_u64 [of "16 + 16 * n"] unat_of_nat_u64 [of "16 + 17 * n"] assms(1)
  unfolding val_shape [OF assms(1)] by (auto simp: first_positions_def next_at_def)

lemma create_val:
  assumes "conv_ok C" and "fields_ok fs" and "val_size (live fs) < 2 ^ 31"
  shows "bcreateval C (V_int r # val_args fs) = Some (Result_blob (map Some (val_blob C r (live fs))))"
proof -
  let ?n = "length (live fs)" and ?w = "length (var_bytes (map snd (live fs)))"
  have small: "16 + 17 * ?n + ?w < 2 ^ 31" "?w < 2 ^ 31" "?n < 2 ^ 32" using assms(3) by (simp_all add: val_size_def)
  obtain shape where sh: "cql_compute_val_blob_shape (of_nat ?n) (of_nat ?w) = Some shape" "total_bytes shape = of_nat (16 + 17 * ?n + ?w)"
    using val_shape [OF small(1)] by simp
  have "put_bytes (mem_alloc (16 + 17 * ?n + ?w)) 0 (header_bytes r ?n) = partly C (map Some (header_bytes r ?n)) ?n ?w []"
    using put_at [of "[]" 0 "replicate 16 None" "header_bytes r ?n" "replicate (17 * ?n + ?w) None"]
    by (simp add: mem_alloc_def partly_empty replicate_add [symmetric] add.assoc)
  moreover have "val_fill C (val_args fs) (partly C (map Some (header_bytes r ?n)) ?n ?w []) (next_at ?n []) =
      (partly C (map Some (header_bytes r ?n)) ?n ?w (live fs), next_at ?n (live fs))"
    using val_fill_spec [OF assms(1) _ assms(2), of "map Some (header_bytes r ?n)" "[]" ?n ?w] small by simp
  ultimately show ?thesis
    using val_args_size_spec [OF assms(2) small(2), of C 0 0] sh malloc_small [of "16 + 17 * ?n + ?w"] small
      first_positions_val [OF small(1) sh(1)] ucast_of_nat_64 [OF small(3)] partly_full [of ?n "live fs" 0 ?w C r]
    by (simp add: bcreateval_def write_header result_blob_def del: of_nat_add of_nat_mult)
qed

end
