(* ===== verification/Val_Blobs_Read.thy ===== *)
theory Val_Blobs_Read
  imports Val_Blobs_Create
begin

text \<open>
  Reading value blobs: bytes after an encoding do not matter, and a field is found by its id.
\<close>

section \<open>Bytes after an encoding\<close>

lemma byte_at_ext: "byte_at b i = Some x \<Longrightarrow> byte_at (b @ junk) i = Some x"
  by (auto simp: byte_at_def nth_append split: if_splits)

lemma read_u32_ext: "cql_read_big_endian_u32 b at = Some x \<Longrightarrow> cql_read_big_endian_u32 (b @ junk) at = Some x"
  by (auto simp: cql_read_big_endian_u32_def bind_eq_Some_conv byte_at_ext Let_def)

lemma read_u64_ext: "cql_read_big_endian_u64 b at = Some x \<Longrightarrow> cql_read_big_endian_u64 (b @ junk) at = Some x"
  by (auto simp: cql_read_big_endian_u64_def bind_eq_Some_conv read_u32_ext)

lemma slice_ext: "slice b at n = Some x \<Longrightarrow> slice (b @ junk) at n = Some x"
  by (auto simp: slice_def split: if_splits)

lemma not_above_ext:
  "\<not> (x :: u64) > of_nat (length b) \<Longrightarrow> length (b @ junk) < 2 ^ 32 \<Longrightarrow> \<not> x > of_nat (length (b @ junk))"
  using unat_of_nat_u64 [of "length b"] unat_of_nat_u64 [of "length (b @ junk)"] by (simp add: word_less_nat_alt del: of_nat_add)

lemma validate_ext:
  assumes "length (b @ junk) < 2 ^ 32" and "validate_loop b (of_nat (length b)) so to vo i k = Some True"
  shows "validate_loop (b @ junk) (of_nat (length (b @ junk))) so to vo i k = Some True"
  using assms(2)
proof (induction k arbitrary: i)
  case (Suc k)
  obtain ty where ty: "byte_at b (unat to + i) = Some ty" using Suc.prems by (auto simp: bind_eq_Some_conv)
  note ext = byte_at_ext [OF ty, of junk] not_above_ext [OF _ assms(1)]
  consider "ty = 4" | "ty = 5" | "ty \<noteq> 4" "ty \<noteq> 5" by blast
  then show ?case
  proof cases
    case 1
    obtain val where val: "cql_read_big_endian_u64 b (unat so + i * 8) = Some val"
      "\<not> field_offset val < vo" "\<not> field_offset val + (field_len val + 1) > of_nat (length b)"
      "byte_at b (unat (field_offset val + field_len val)) = Some 0"
      "validate_loop b (of_nat (length b)) so to vo (Suc i) k = Some True"
      using Suc.prems ty 1 by (auto simp: bind_eq_Some_conv Let_def type_defs split: if_splits)
    then show ?thesis
      using Suc.IH ext 1 read_u64_ext [OF val(1)] byte_at_ext [OF val(4)] by (simp add: type_defs Let_def del: length_append)
  next
    case 2
    obtain val where val: "cql_read_big_endian_u64 b (unat so + i * 8) = Some val"
      "\<not> field_offset val < vo" "\<not> field_offset val + field_len val > of_nat (length b)"
      "validate_loop b (of_nat (length b)) so to vo (Suc i) k = Some True"
      using Suc.prems ty 2 by (auto simp: bind_eq_Some_conv Let_def type_defs split: if_splits)
    then show ?thesis
      using Suc.IH ext 2 read_u64_ext [OF val(1)] by (simp add: type_defs Let_def del: length_append)
  next
    case 3
    then show ?thesis using Suc.prems Suc.IH [of "Suc i"] ty ext(1) by (simp add: type_defs del: length_append split: if_splits)
  qed
qed simp

lemma field_result_ext:
  assumes "length (b @ junk) < 2 ^ 32" and "field_result b (of_nat (length b)) so ty = Some x" and "x \<noteq> Result_error"
  shows "field_result (b @ junk) (of_nat (length (b @ junk))) so ty = Some x"
proof -
  have len: "(ucast (of_nat (length b) :: u32) :: u64) = of_nat (length b)"
    "(ucast (of_nat (length (b @ junk)) :: u32) :: u64) = of_nat (length (b @ junk))"
    using assms(1) by (intro ucast_of_nat_64; simp)+
  consider (var) "ty \<in> {4, 5}" | (fixed) "ty \<in> {0, 1, 2, 3}" | (other) "ty \<notin> {0, 1, 2, 3, 4, 5}" by blast
  then show ?thesis
  proof cases
    case var
    then obtain val data where val: "cql_read_big_endian_u64 b so = Some val"
      "\<not> (ucast (ucast (field_offset val) :: u32) + ucast (ucast (field_len val) :: u32) :: u64) > of_nat (length b)"
      "slice b (unat (ucast (field_offset val) :: u32)) (unat (ucast (field_len val) :: u32)) = Some data"
      "x = (if ty = 4 then Result_text data else Result_blob (map Some data))"
      using assms(2,3) unfolding field_result_def len by (auto simp: bind_eq_Some_conv Let_def type_defs split: if_splits)
    have "ty = 4 \<or> ty = 5" using var by simp
    then show ?thesis
      using val(4) unfolding field_result_def len read_u64_ext [OF val(1)] bind.bind_lunit Let_def slice_ext [OF val(3)]
      using not_above_ext [OF val(2) assms(1)] by (auto simp: type_defs)
  next
    case fixed
    have "cql_read_big_endian_u64 (b @ junk) so = Some val" if "cql_read_big_endian_u64 b so = Some val" for val
      using that by (rule read_u64_ext)
    moreover have "slice (b @ junk) so 8 = Some d" if "slice b so 8 = Some d" for d using that by (rule slice_ext)
    ultimately show ?thesis
      using assms(2) fixed
      by (cases "cql_read_big_endian_u64 b so"; cases "slice b so 8") (auto simp: field_result_def type_defs)
  next
    case other
    then show ?thesis using assms(2,3) by (simp add: field_result_def type_defs)
  qed
qed

lemma col_result_no_error: "col_result C c \<noteq> Result_error"
  by (cases c) simp

section \<open>Finding a field\<close>

definition index_of :: "u64 \<Rightarrow> field list \<Rightarrow> nat" where
  "index_of i fs = length (takeWhile (\<lambda>f. fst f \<noteq> i) fs)"

lemma index_of_le: "index_of i fs \<le> length fs"
  by (simp add: index_of_def length_takeWhile_le)

lemma index_of_map: "map_of fs i = (if index_of i fs < length fs then Some (snd (fs ! index_of i fs)) else None)"
  by (induction fs) (auto simp: index_of_def)

lemma index_of_id: "index_of i fs < length fs \<Longrightarrow> fst (fs ! index_of i fs) = i"
  using nth_length_takeWhile [of "\<lambda>f. fst f \<noteq> i" fs] by (simp add: index_of_def)

lemma read_id:
  assumes "j < length fs"
  shows "cql_read_big_endian_u64 (val_prefix r fs @ rest) (16 + 8 * j) = Some (fst (fs ! j))"
proof -
  have "fs = take j fs @ fs ! j # drop (Suc j) fs" by (rule id_take_nth_drop [OF assms])
  then have "ids fs = ids (take j fs) @ be64 (fst (fs ! j)) @ ids (drop (Suc j) fs)" by (metis ids_simps(2,3))
  then show ?thesis
    using read_u64 [of "header_bytes r (length fs) @ ids (take j fs)" "fst (fs ! j)" "ids (drop (Suc j) fs) @ rest"] assms
    by (simp add: val_prefix_def)
qed

lemma find_field_spec:
  assumes "j + k = length fs"
  shows "find_field (val_prefix r fs @ rest) 16 i j k = Some (j + index_of i (drop j fs))"
  using assms
proof (induction k arbitrary: j)
  case (Suc k)
  then have j: "j < length fs" by simp
  then have "drop j fs = fs ! j # drop (Suc j) fs" by (simp add: Cons_nth_drop_Suc)
  then show ?case using Suc.IH [of "Suc j"] Suc.prems read_id [OF j, of r rest] by (simp add: index_of_def mult.commute)
qed (simp add: index_of_def)

section \<open>Reading\<close>

lemma val_checks:
  fixes r :: u64
  assumes "conv_ok C" and "list_all col_ok (map snd fs)" and "length b < 2 ^ 31" and "b = val_blob C r fs @ junk"
  defines "n \<equiv> length fs"
  shows "cql_read_blob_header b (of_nat (length b)) = Some \<lparr>magic = CQL_BLOB_MAGIC, column_count = of_nat n, record_type = r\<rparr>"
    and "\<not> (of_nat (16 + 17 * n) :: u64) > ucast (of_nat (length b) :: u32)"
    and "cql_validate_blob_variable_fields b (ucast (of_nat (length b) :: u32)) (of_nat n) (of_nat (16 + 8 * n))
      (of_nat (16 + 16 * n)) (of_nat (16 + 17 * n)) = Some True"
    and "cql_compute_val_blob_shape (of_nat n) 0 =
      Some \<lparr>header_size = 16, storage_size = of_nat (8 * n), type_codes_size = of_nat n, variable_size = 0,
      total_bytes = of_nat (16 + 17 * n), storage_offset = of_nat (16 + 8 * n), type_codes_offset = of_nat (16 + 16 * n),
      variable_offset = of_nat (16 + 17 * n), field_ids_size = of_nat (8 * n), field_ids_offset = 16\<rparr>"
    and "(ucast (of_nat n :: u32) :: u64) = of_nat n" "unat (of_nat n :: u32) = n"
proof -
  have len: "length (val_blob C r fs) = val_size fs" by (rule length_val_blob [OF assms(1,2)])
  have small: "length b < 2 ^ 32" "n < 2 ^ 31" "16 + 17 * n \<le> length b" "16 + 17 * n + 0 < 2 ^ 31"
    using assms(3,4) len by (simp_all add: val_size_def n_def)
  have b: "b = header_bytes r n @ drop 16 b" by (simp add: assms(4) val_blob_def layout_def val_prefix_def n_def)
  show "cql_read_blob_header b (of_nat (length b)) = Some \<lparr>magic = CQL_BLOB_MAGIC, column_count = of_nat n, record_type = r\<rparr>"
    using read_header [of n r "drop 16 b"] small b by simp
  show "\<not> (of_nat (16 + 17 * n) :: u64) > ucast (of_nat (length b) :: u32)"
    unfolding ucast_of_nat_64 [OF small(1)] using less_u64 [of "length b" "16 + 17 * n"] small by simp
  have u: "unat (of_nat n :: u64) = n" using small(2) by (intro unat_of_nat_u64) simp
  have "validate_loop (val_blob C r fs) (of_nat (length (val_blob C r fs))) (of_nat (16 + 8 * n)) (of_nat (16 + 16 * n))
      (of_nat (16 + 17 * n)) 0 n = Some True"
    using validate_layout [OF assms(1,2), of "val_prefix r fs" 0 n] small(1) assms(4) unfolding val_blob_def n_def by (simp add: add.commute)
  from validate_ext [OF _ this, of junk] show "cql_validate_blob_variable_fields b (ucast (of_nat (length b) :: u32)) (of_nat n)
      (of_nat (16 + 8 * n)) (of_nat (16 + 16 * n)) (of_nat (16 + 17 * n)) = Some True"
    using small(1) assms(4) u by (simp add: cql_validate_blob_variable_fields_def ucast_of_nat_64 del: length_append)
  show "cql_compute_val_blob_shape (of_nat n) 0 =
      Some \<lparr>header_size = 16, storage_size = of_nat (8 * n), type_codes_size = of_nat n, variable_size = 0,
      total_bytes = of_nat (16 + 17 * n), storage_offset = of_nat (16 + 8 * n), type_codes_offset = of_nat (16 + 16 * n),
      variable_offset = of_nat (16 + 17 * n), field_ids_size = of_nat (8 * n), field_ids_offset = 16\<rparr>"
    using val_shape [OF small(4)] by simp
  show "(ucast (of_nat n :: u32) :: u64) = of_nat n" "unat (of_nat n :: u32) = n"
    using small(2) by (auto intro: ucast_of_nat_64 unat_of_nat_u32)
qed

lemma blob_data: "value_data (V_blob b) = b" "sqlite3_value_bytes (V_blob b) = of_nat (length b)" "sqlite3_value_type (V_blob b) = SQLITE_BLOB"
  by (simp_all add: value_data_def sqlite3_value_bytes_def sqlite3_value_type_def)

definition field_value :: "sqlite_conv \<Rightarrow> column option \<Rightarrow> sqlite_result" where
  "field_value C c = (case c of None \<Rightarrow> Result_null | Some c \<Rightarrow> col_result C c)"

lemma get_val:
  assumes "conv_ok C" and "list_all col_ok (map snd fs)" and "length b < 2 ^ 31" and "b = val_blob C r fs @ junk"
  shows "bgetval C [V_blob b, V_int i] = Some (field_value C (map_of fs i))"
proof -
  let ?n = "length fs" and ?j = "index_of i fs"
  note ch = val_checks [OF assms]
  have small: "16 + 16 * ?n < 2 ^ 32" "length b < 2 ^ 32" using assms(3,4) length_val_blob [OF assms(1,2)] by (simp_all add: val_size_def)
  have offs: "unat (of_nat (16 + 8 * ?n) :: u64) = 16 + 8 * ?n" "unat (of_nat (16 + 16 * ?n) :: u64) = 16 + 16 * ?n"
    using small(1) by (intro unat_of_nat_u64; simp)+
  have find: "find_field b 16 i 0 ?n = Some ?j"
    using find_field_spec [of 0 ?n fs r] unfolding assms(4) val_blob_def layout_def by simp
  have ty: "byte_at b (16 + 16 * ?n + ?j) = Some (fst (snd (fs ! ?j)))"
    and res: "field_result b (of_nat (length b)) (16 + 8 * ?n + 8 * ?j) (fst (snd (fs ! ?j))) = Some (col_result C (snd (fs ! ?j)))"
    if "?j < ?n"
  proof -
    show "byte_at b (16 + 16 * ?n + ?j) = Some (fst (snd (fs ! ?j)))"
      using layout_type [OF assms(1,2), of ?j "val_prefix r fs"] that unfolding assms(4) val_blob_def
      by (intro byte_at_ext) (simp add: add.commute)
    show "field_result b (of_nat (length b)) (16 + 8 * ?n + 8 * ?j) (fst (snd (fs ! ?j))) = Some (col_result C (snd (fs ! ?j)))"
      using field_result_layout [OF assms(1,2), of ?j "val_prefix r fs"] that small(2) unfolding assms(4) val_blob_def
      by (intro field_result_ext col_result_no_error) auto
  qed
  show ?thesis
    using ch find offs ty res index_of_map [of fs i] index_of_le [of i fs] blob_data
    by (simp add: bgetval_def field_value_def mult.commute not_le del: of_nat_add of_nat_mult)
qed

lemma get_val_type:
  assumes "conv_ok C" and "list_all col_ok (map snd fs)" and "length b < 2 ^ 31" and "b = val_blob C r fs @ junk"
  shows "bgetval_type [V_blob b] = Some (Result_int64 r)"
  using val_checks [OF assms] blob_data by (simp add: bgetval_type_def del: of_nat_add of_nat_mult)

end
