(* ===== verification/Val_Blobs_Update.thy ===== *)
theory Val_Blobs_Update
  imports Val_Blobs_Read
begin

text \<open>
  Updating value blobs: the passes of \<open>bupdateval\<close>, and the fields of its result.
\<close>

section \<open>Updates\<close>

text \<open>
  Updates against the stored fields: the type of a stored field cannot change, a null value
  removes a field.
\<close>

definition val_updates_ok :: "(u64 \<rightharpoonup> column) \<Rightarrow> field list \<Rightarrow> bool" where
  "val_updates_ok m us \<longleftrightarrow> distinct (map fst us) \<and> fields_ok us \<and>
     list_all (\<lambda>(i, t, v). case m i of None \<Rightarrow> True | Some c \<Rightarrow> fst c = t) us"

definition kept :: "u64 set \<Rightarrow> field list \<Rightarrow> field list" where
  "kept M fs = filter (\<lambda>f. fst f \<notin> M) fs"

text \<open>The changes of the number of columns and of the variable bytes, and the bytes of removed columns.\<close>

fun col_change :: "(u64 \<rightharpoonup> column) \<Rightarrow> field list \<Rightarrow> int" where
  "col_change m [] = 0"
| "col_change m ((i, t, v) # us) =
     (if v = V_null then (if m i = None then 0 else -1) else (if m i = None then 1 else 0)) + col_change m us"

fun var_change :: "(u64 \<rightharpoonup> column) \<Rightarrow> field list \<Rightarrow> int" where
  "var_change m [] = 0"
| "var_change m ((i, t, v) # us) =
     (if v = V_null then 0
      else int (length (col_var (t, v))) - (case m i of None \<Rightarrow> 0 | Some c \<Rightarrow> int (length (col_var c)))) + var_change m us"

fun removed :: "(u64 \<rightharpoonup> column) \<Rightarrow> field list \<Rightarrow> nat" where
  "removed m [] = 0"
| "removed m ((i, t, v) # us) =
     (if v = V_null then (case m i of None \<Rightarrow> 0 | Some c \<Rightarrow> length (col_var c)) else 0) + removed m us"

lemma val_updates_ok_Cons:
  "val_updates_ok m ((i, t, v) # us) \<longleftrightarrow>
     i \<notin> fst ` set us \<and> (v = V_null \<or> col_ok (t, v)) \<and> (\<forall>c. m i = Some c \<longrightarrow> fst c = t) \<and> val_updates_ok m us"
  by (auto simp: val_updates_ok_def split: option.splits simp del: col_ok.simps)

lemma kept_simps [simp]: "kept M [] = []" "kept M (f # fs) = (if fst f \<in> M then kept M fs else f # kept M fs)"
  "kept M (fs @ gs) = kept M fs @ kept M gs" "kept {} fs = fs"
  by (simp_all add: kept_def)

lemma kept_cong: "(\<And>f. f \<in> set fs \<Longrightarrow> fst f \<in> M \<longleftrightarrow> fst f \<in> N) \<Longrightarrow> kept M fs = kept N fs"
  by (simp add: kept_def cong: filter_cong)

lemma kept_insert_new: "map_of fs i = None \<Longrightarrow> kept (insert i M) fs = kept M fs"
  by (rule kept_cong) (auto simp: map_of_eq_None_iff)

lemma kept_insert_old:
  assumes "distinct (map fst fs)" and "map_of fs i = Some c" and "i \<notin> M"
  shows "length (kept M fs) = Suc (length (kept (insert i M) fs))"
    and "length (var_bytes (map snd (kept M fs))) = length (col_var c) + length (var_bytes (map snd (kept (insert i M) fs)))"
  using assms
proof (induction fs)
  case (Cons f fs)
  {
    case 1
    then show ?case using Cons.IH(1) kept_insert_new [of fs i M] by (auto simp: map_of_eq_None_iff image_iff)
  next
    case 2
    then show ?case using Cons.IH(2) kept_insert_new [of fs i M] by (auto simp: map_of_eq_None_iff image_iff simp del: col_var.simps)
  }
qed simp_all

lemma change_total:
  assumes "distinct (map fst fs)" and "val_updates_ok (map_of fs) us" and "M \<inter> fst ` set us = {}"
  shows "int (length (live us)) + int (length (kept (M \<union> fst ` set us) fs)) = int (length (kept M fs)) + col_change (map_of fs) us \<and>
    int (length (var_bytes (map snd (live us)))) + int (length (var_bytes (map snd (kept (M \<union> fst ` set us) fs)))) +
      int (removed (map_of fs) us) = int (length (var_bytes (map snd (kept M fs)))) + var_change (map_of fs) us"
  using assms(2,3)
proof (induction us arbitrary: M)
  case (Cons u us)
  obtain i t v where u: "u = (i, t, v)" by (cases u) auto
  have i: "i \<notin> M" using Cons.prems u by auto
  have ok: "val_updates_ok (map_of fs) us" "insert i M \<inter> fst ` set us = {}"
    "M \<union> fst ` set (u # us) = insert i M \<union> fst ` set us"
    using Cons.prems u by (auto simp: val_updates_ok_Cons)
  show ?case
    using Cons.IH [OF ok(1,2)] kept_insert_old [OF assms(1) _ i] kept_insert_new [of fs i M] unfolding ok(3) u
    by (cases "map_of fs i") (auto simp del: col_var.simps)
qed simp

section \<open>The first pass\<close>

definition at_ids :: "u64 set \<Rightarrow> field list \<Rightarrow> nat set" where
  "at_ids M fs = {j. j < length fs \<and> fst (fs ! j) \<in> M}"

definition val_marked :: "sqlite_conv \<Rightarrow> u64 \<Rightarrow> u64 set \<Rightarrow> field list \<Rightarrow> u8 list \<Rightarrow> u8 list" where
  "val_marked C r M fs junk = marked C (val_prefix r fs) (at_ids M fs) (map snd fs) @ junk"

text \<open>Of a shape, the passes use the offsets only.\<close>

definition val_offsets :: "cql_val_blob_shape \<Rightarrow> nat \<Rightarrow> bool" where
  "val_offsets shape n \<longleftrightarrow> unat (field_ids_offset shape) = 16 \<and> unat (storage_offset shape) = 16 + 8 * n \<and>
     unat (type_codes_offset shape) = 16 + 16 * n"

lemma at_ids_simps [simp]: "at_ids {} fs = {}" "map_of fs i = None \<Longrightarrow> at_ids (insert i M) fs = at_ids M fs"
  by (auto simp: at_ids_def map_of_eq_None_iff) 

lemma at_ids_insert:
  assumes "distinct (map fst fs)" and "j < length fs"
  shows "at_ids (insert (fst (fs ! j)) M) fs = insert j (at_ids M fs)"
  using assms nth_eq_iff_index_eq [OF assms(1)] by (auto simp: at_ids_def)

lemma marked_find: "find_field (val_marked C r M fs junk) 16 i 0 (length fs) = Some (index_of i fs)"
  using find_field_spec [of 0 "length fs" fs r] by (simp add: val_marked_def marked_def)

lemma marked_field:
  assumes "conv_ok C" and "list_all col_ok (map snd fs)" and "distinct (map fst fs)" and "j < length fs"
  shows "byte_at (val_marked C r M fs junk) (16 + 16 * length fs + j) =
      Some (if fst (fs ! j) \<in> M then fst (snd (fs ! j)) OR CQL_BLOB_TYPE_DIRTY else fst (snd (fs ! j)))"
    and "(val_marked C r M fs junk)[16 + 16 * length fs + j := fst (snd (fs ! j)) OR CQL_BLOB_TYPE_DIRTY] =
      val_marked C r (insert (fst (fs ! j)) M) fs junk"
proof -
  let ?h = "val_prefix r fs" and ?cs = "map snd fs"
  have pos: "16 + 16 * length fs + j = length ?h + 8 * length ?cs + j" by simp
  have j: "j < length ?cs" using assms(4) by simp
  have at: "j \<in> at_ids M fs \<longleftrightarrow> fst (fs ! j) \<in> M" using assms(4) by (simp add: at_ids_def)
  show "byte_at (val_marked C r M fs junk) (16 + 16 * length fs + j) =
      Some (if fst (fs ! j) \<in> M then fst (snd (fs ! j)) OR CQL_BLOB_TYPE_DIRTY else fst (snd (fs ! j)))"
    unfolding val_marked_def pos using byte_at_ext [OF marked_type(1) [OF assms(1,2) j, of ?h "at_ids M fs"]] at assms(4) by simp
  have "16 + 16 * length fs + j < length (marked C ?h (at_ids M fs) ?cs)"
    using assms by (simp add: marked_def length_storage)
  then show "(val_marked C r M fs junk)[16 + 16 * length fs + j := fst (snd (fs ! j)) OR CQL_BLOB_TYPE_DIRTY] =
      val_marked C r (insert (fst (fs ! j)) M) fs junk"
    using marked_type(2) [OF assms(1,2) j, of ?h "at_ids M fs"] at_ids_insert [OF assms(3,4)] assms(4)
    unfolding val_marked_def pos by (simp add: list_update_append)
qed

lemma marked_stored_size:
  assumes "conv_ok C" and "list_all col_ok (map snd fs)" and "j < length fs" and "val_size fs < 2 ^ 31"
  shows "stored_size (val_marked C r M fs junk) (16 + 8 * length fs + j * 8) (fst (snd (fs ! j))) =
    Some (of_nat (length (col_var (snd (fs ! j)))))"
proof -
  let ?h = "val_prefix r fs" and ?cs = "map snd fs"
  obtain i t v where f: "fs ! j = (i, t, v)" by (cases "fs ! j") auto
  have j: "j < length ?cs" using assms(3) by simp
  have ok: "col_ok (t, v)" using assms(2) j f by (metis list_all_length nth_map snd_conv assms(3))
  show ?thesis
  proof (cases "t \<in> {4, 5}")
    case False
    then have "t \<noteq> 4" "t \<noteq> 5" by auto
    then show ?thesis using f by (simp add: stored_size_def type_defs)
  next
    case True
    let ?l = "length (value_data v)"
    obtain val where val: "cql_read_big_endian_u64 (val_marked C r M fs junk) (16 + 8 * length fs + j * 8) = Some val"
      "field_len val = of_nat ?l"
      using read_info_at [OF assms(1,2) j, of "length ?h + 9 * length ?cs" ?h "mark (at_ids M fs) ?cs @ var_bytes ?cs @ junk"] assms(3,4) f True
      by (auto simp: val_marked_def marked_def val_size_def mult.commute)
    have "?l \<le> length (col_var (t, v))" "length (col_var (t, v)) < 2 ^ 31"
      using value_data_var [OF ok] var_split [OF j] assms(3,4) f by (simp_all add: val_size_def del: col_var.simps)
    then have "?l < 2 ^ 31" by simp
    then have "(ucast (of_nat ?l + 1 :: u32) :: u64) = of_nat (?l + 1)" "(ucast (of_nat ?l :: u32) :: u64) = of_nat ?l"
      using ucast_of_nat_64 [of "?l + 1"] ucast_of_nat_64 [of ?l] by (simp_all add: add.commute)
    then show ?thesis using val f True by (auto simp: stored_size_def type_defs ucast_down_of_nat)
  qed
qed

lemma val_check:
  assumes "conv_ok C" and "list_all col_ok (map snd fs)" and "distinct (map fst fs)" and "val_size fs < 2 ^ 31"
    and "val_offsets shape (length fs)" and "val_updates_ok (map_of fs) us" and "M \<inter> fst ` set us = {}"
    and "length (var_bytes (map snd (live us))) < 2 ^ 31"
  shows "val_update_check C (length fs) shape (val_args us) (val_marked C r M fs junk) adj ca =
    Some (Inr (val_marked C r (M \<union> fst ` set us) fs junk, adj + of_int (var_change (map_of fs) us), ca + of_int (col_change (map_of fs) us)))"
  using assms(6-8)
proof (induction us arbitrary: M adj ca)
  case (Cons u us)
  let ?n = "length fs" and ?b = "val_marked C r M fs junk"
  obtain i t v where u: "u = (i, t, v)" by (cases u) auto
  let ?j = "index_of i fs"
  have ok: "v = V_null \<or> col_ok (t, v)" "val_updates_ok (map_of fs) us" "insert i M \<inter> fst ` set us = {}" "i \<notin> M"
    "M \<union> fst ` set (u # us) = insert i M \<union> fst ` set us" "\<And>c. map_of fs i = Some c \<Longrightarrow> fst c = t"
    using Cons.prems u by (auto simp: val_updates_ok_Cons simp del: col_ok.simps)
  have fok: "fields_ok (u # us)" using Cons.prems(1) by (simp add: val_updates_ok_def)
  have small: "length (var_bytes (map snd (live us))) < 2 ^ 31" using Cons.prems(3) u by (simp split: if_splits)
  have compat: "cql_blobtype_vs_argtype_compat v t = Some (of_nat (length (col_var (t, v))))" if "v \<noteq> V_null"
    by (rule compat_some) (use that ok(1) live_value_bound [of i t v us] fok u Cons.prems(3) in auto)
  note offs = assms(5) [unfolded val_offsets_def]
  note IH = Cons.IH [OF ok(2,3) small]
  have find: "find_field ?b (unat (field_ids_offset shape)) i 0 ?n = Some ?j" using offs marked_find by simp
  show ?case
  proof (cases "?j < ?n")
    case False
    then have m: "map_of fs i = None" by (simp add: index_of_map)
    then have "val_marked C r (insert i M) fs junk = ?b" by (simp add: val_marked_def)
    then show ?thesis
      using IH m find compat False u ok(5) by (simp add: index_of_le algebra_simps del: col_var.simps)
  next
    case True
    then have m: "map_of fs i = Some (snd (fs ! ?j))" by (simp add: index_of_map)
    then have t: "fst (snd (fs ! ?j)) = t" using ok(6) by simp
    have id: "fst (fs ! ?j) = i" by (rule index_of_id [OF True])
    have ty: "byte_at ?b (16 + 16 * ?n + ?j) = Some t" "?b[16 + 16 * ?n + ?j := t OR CQL_BLOB_TYPE_DIRTY] = val_marked C r (insert i M) fs junk"
      using marked_field [OF assms(1-3) True, of r M junk] t id ok(4) by simp_all
    have st: "stored_size (val_marked C r (insert i M) fs junk) (16 + 8 * ?n + ?j * 8) t = Some (of_nat (length (col_var (snd (fs ! ?j)))))"
      using marked_stored_size [OF assms(1,2) True assms(4)] t by simp
    show ?thesis
      using IH m find compat True u ok(5) offs ty st by (simp add: algebra_simps del: col_var.simps)
  qed
qed simp

section \<open>The final pass\<close>

lemma copy_variable_ext:
  assumes "copy_variable b from so t m vo = Some x"
  shows "copy_variable (b @ junk) from so t m vo = Some x"
proof -
  let ?bytes = "\<lambda>val. if t = CQL_BLOB_TYPE_STRING then unat (ucast (field_len val) :: u32) + 1 else unat (ucast (field_len val) :: u32)"
  obtain val data where val: "cql_read_big_endian_u64 b from = Some val"
    "slice b (unat (ucast (field_offset val) :: u32)) (?bytes val) = Some data"
    using assms by (auto simp: copy_variable_def bind_eq_Some_conv Let_def simp del: if_split)
  show ?thesis
    using assms unfolding copy_variable_def Let_def val(1) read_u64_ext [OF val(1)] bind.bind_lunit val(2) slice_ext [OF val(2)] .
qed

lemma marked_copy:
  assumes "conv_ok C" and "list_all col_ok (map snd fs)" and "j < length fs" and "val_size fs < 2 ^ 31"
  defines "c \<equiv> snd (fs ! j)"
  shows "fst c \<in> {4, 5} \<Longrightarrow> copy_variable (val_marked C r M fs junk) (16 + 8 * length fs + j * 8) so (fst c) m vo =
      Some (put_bytes (put_bytes m so (col_storage C vo c)) vo (col_var c), vo + length (col_var c))"
    and "fst c \<notin> {4, 5} \<Longrightarrow> slice (val_marked C r M fs junk) (16 + 8 * length fs + j * 8) 8 = Some (col_storage C vo c)"
    and "slice (val_marked C r M fs junk) (16 + j * 8) 8 = Some (be64 (fst (fs ! j)))"
proof -
  let ?h = "val_prefix r fs" and ?cs = "map snd fs"
  have j: "j < length ?cs" and c: "?cs ! j = c" using assms(3) by (simp_all add: c_def)
  have ok: "col_ok c" using assms(2) j c by (metis list_all_length)
  have size: "length ?h + 9 * length ?cs + length (var_bytes ?cs) < 2 ^ 31" using assms(4) by (simp add: val_size_def)
  show "copy_variable (val_marked C r M fs junk) (16 + 8 * length fs + j * 8) so (fst c) m vo =
      Some (put_bytes (put_bytes m so (col_storage C vo c)) vo (col_var c), vo + length (col_var c))" if "fst c \<in> {4, 5}"
    using copy_variable_ext [OF copy_clean [OF assms(1,2) j _ size, of "at_ids M fs" so m vo]] that c
    by (simp add: val_marked_def mult.commute)
  show "slice (val_marked C r M fs junk) (16 + 8 * length fs + j * 8) 8 = Some (col_storage C vo c)" if "fst c \<notin> {4, 5}"
  proof -
    let ?off = "length ?h + 9 * length ?cs"
    obtain pre post where st: "storage C ?off ?cs = pre @ col_storage C (?off + length (var_bytes (take j ?cs))) c @ post"
      "length pre = 8 * j" using storage_at [OF assms(1,2) j] c by metis
    have "col_storage C (?off + length (var_bytes (take j ?cs))) c = col_storage C vo c"
      using storage_offset_irrelevant [of "fst c" "snd c"] that ok by simp
    then show ?thesis
      unfolding val_marked_def marked_def st(1) slice_def using st(2) length_col_storage [OF assms(1) ok]
      by (simp add: mult.commute del: col_storage.simps)
  qed
  have "fs = take j fs @ fs ! j # drop (Suc j) fs" by (rule id_take_nth_drop [OF assms(3)])
  then have "ids fs = ids (take j fs) @ be64 (fst (fs ! j)) @ ids (drop (Suc j) fs)" by (metis ids_simps(2,3))
  then show "slice (val_marked C r M fs junk) (16 + j * 8) 8 = Some (be64 (fst (fs ! j)))"
    using assms(3) by (simp add: val_marked_def marked_def val_prefix_def slice_def mult.commute)
qed

lemma dirty_type: "t \<in> {0, 1, 2, 3, 4, 5} \<Longrightarrow> (t :: u8) OR CQL_BLOB_TYPE_DIRTY \<notin> {0, 1, 2, 3, 4, 5}"
  by (auto simp: type_defs)

lemma val_copy:
  assumes "conv_ok C" and "list_all col_ok (map snd fs)" and "distinct (map fst fs)" and "val_size fs < 2 ^ 31"
    and "val_offsets shape (length fs)" and "length hc = 16" and "list_all col_ok (map snd gs)"
    and "length (gs @ kept M fs) \<le> n" and "length (var_bytes (map snd (gs @ kept M fs))) \<le> w" and "j + k = length fs"
  shows "val_update_copy (val_marked C r M fs junk) shape j k (partly C hc n w (gs @ kept M (take j fs))) (next_at n (gs @ kept M (take j fs))) =
    Some (partly C hc n w (gs @ kept M fs))"
  using assms(10)
proof (induction k arbitrary: j)
  case (Suc k)
  let ?n = "length fs" and ?b = "val_marked C r M fs junk" and ?gs = "gs @ kept M (take j fs)"
  let ?p = "next_at n ?gs"
  have j: "j < ?n" using Suc.prems by simp
  obtain i c where f: "fs ! j = (i, c)" by (cases "fs ! j")
  have ok: "col_ok c" using assms(2) j f by (simp add: list_all_length) (metis snd_conv)
  have ty: "fst c \<in> {0, 1, 2, 3, 4, 5}" by (rule col_ok_type [OF ok])
  note offs = assms(5) [unfolded val_offsets_def]
  have tb: "byte_at ?b (16 + 16 * ?n + j) = Some (if i \<in> M then fst c OR CQL_BLOB_TYPE_DIRTY else fst c)"
    using marked_field(1) [OF assms(1-3) j] f by simp
  have tk: "take (Suc j) fs = take j fs @ [(i, c)]" using j f by (simp add: take_Suc_conv_app_nth)
  note IH = Suc.IH [of "Suc j", unfolded tk kept_simps fst_conv]
  show ?case
  proof (cases "i \<in> M")
    case True
    then show ?thesis using tb dirty_type [OF ty] offs IH Suc.prems by (simp add: type_defs)
  next
    case False
    have split: "fs = take (Suc j) fs @ drop (Suc j) fs" by simp
    have fs: "kept M fs = kept M (take j fs) @ (i, c) # kept M (drop (Suc j) fs)"
      using False unfolding arg_cong [OF split, of "kept M"] by (subst tk) simp
    have fits: "length ?gs < n" "length (var_bytes (map snd ?gs)) + length (col_var c) \<le> w"
      using assms(8,9) unfolding fs by (simp_all del: col_var.simps)
    have gs: "list_all col_ok (map snd ?gs)" using assms(2,7) by (fastforce simp: list_all_iff kept_def dest: in_set_takeD simp del: col_ok.simps)
    note add = add_field [OF assms(1) gs ok assms(6) fits, of i]
    have IH': "val_update_copy ?b shape (Suc j) k (partly C hc n w (?gs @ [(i, c)])) (next_at n (?gs @ [(i, c)])) =
        Some (partly C hc n w (gs @ kept M fs))" using IH False Suc.prems by simp
    note copy = marked_copy [OF assms(1,2) j assms(4), of r M junk, unfolded f snd_conv fst_conv]
    show ?thesis
    proof (cases "fst c \<in> {4, 5}")
      case True
      then show ?thesis
        using tb False offs copy(1) [OF True] copy(3) add(2) IH' unfolding next_at_append
        by (auto simp: type_defs simp del: col_storage.simps col_var.simps)
    next
      case fixed: False
      have "col_var c = []" using fixed by (cases c) auto
      then show ?thesis
        using tb False offs copy(2) [OF fixed, of "variable_at ?p"] copy(3) add(3) IH' ty fixed unfolding next_at_append
        by (auto simp: type_defs simp del: col_storage.simps col_var.simps)
    qed
  qed
qed simp

section \<open>The update\<close>

lemma count_change:
  assumes "int n + z = int m" and "n < 2 ^ 31" and "m < 2 ^ 31"
  shows "(of_nat n + scast (of_int z :: i32) :: u64) = of_nat m"
proof -
  have "sint (of_int z :: i32) = z" using assms by (simp add: signed_of_int signed_take_bit_int_eq_self)
  then have "(scast (of_int z :: i32) :: u64) = of_int z" by (metis of_int_sint)
  moreover have "(of_nat n + of_int z :: u64) = of_int (int n + z)" by simp
  ultimately show ?thesis using assms(1) by (metis of_int_of_nat_eq)
qed

lemma header_last:
  "put_bytes (partly C (replicate 16 None) n w fs) 0 (header_bytes r n) = partly C (map Some (header_bytes r n)) n w fs"
  unfolding partly_def areas_def using put_at [of "[]" 0 "replicate 16 None" "header_bytes r n"] by simp

lemma val_marked_none: "val_marked C r {} fs junk = val_blob C r fs @ junk"
  by (simp add: val_marked_def marked_empty val_blob_def)

definition val_updated :: "field list \<Rightarrow> field list \<Rightarrow> field list" where
  "val_updated us fs = live us @ kept (fst ` set us) fs"

text \<open>The size of the result, from the sums of the first pass.\<close>

lemma updated_sizes:
  assumes "conv_ok C" and "list_all col_ok (map snd fs)" and "distinct (map fst fs)" and "val_updates_ok (map_of fs) us"
    and "b = val_blob C r fs @ junk" and "length b + val_size (live us) < 2 ^ 31"
  defines "w \<equiv> length (var_bytes (map snd (val_updated us fs))) + (length junk + removed (map_of fs) us)"
  shows "int (length fs) + col_change (map_of fs) us = int (length (val_updated us fs))"
    and "int (length b) - int (16 + 17 * length fs) + var_change (map_of fs) us = int w"
    and "16 + 17 * length (val_updated us fs) + w < 2 ^ 31"
proof -
  note ch = change_total [OF assms(3,4), of "{}", simplified]
  have len: "length b = val_size fs + length junk" using length_val_blob [OF assms(1,2)] assms(5) by simp
  show "int (length fs) + col_change (map_of fs) us = int (length (val_updated us fs))" using ch by (simp add: val_updated_def)
  have vc: "int (length (var_bytes (map snd fs))) + var_change (map_of fs) us = int (w - length junk)"
    using ch by (simp add: w_def val_updated_def)
  then show "int (length b) - int (16 + 17 * length fs) + var_change (map_of fs) us = int w"
    using len by (simp add: val_size_def w_def)
  have "col_change m us \<le> int (length (live us)) \<and> var_change m us \<le> int (length (var_bytes (map snd (live us))))" for m
    by (induction us) (auto split: option.splits simp del: col_var.simps)
  from this [of "map_of fs"] have "length (val_updated us fs) \<le> length fs + length (live us)"
    "w - length junk \<le> length (var_bytes (map snd fs)) + length (var_bytes (map snd (live us)))"
    using ch vc by (simp_all add: val_updated_def)
  then show "16 + 17 * length (val_updated us fs) + w < 2 ^ 31" using assms(6) len by (simp add: val_size_def)
qed

lemma update_val:
  assumes "conv_ok C" and "list_all col_ok (map snd fs)" and "distinct (map fst fs)" and "val_updates_ok (map_of fs) us"
    and "b = val_blob C r fs @ junk" and "length b + val_size (live us) < 2 ^ 31" and "us \<noteq> []"
  shows "bupdateval C (V_blob b # val_args us) =
    Some (Result_blob (map Some (val_blob C r (val_updated us fs)) @ replicate (length junk + removed (map_of fs) us) None))"
proof -
  let ?fs = "val_updated us fs" and ?g = "length junk + removed (map_of fs) us"
  let ?n = "length fs" and ?m = "length ?fs" and ?w = "length (var_bytes (map snd (val_updated us fs))) + (length junk + removed (map_of fs) us)"
  let ?M = "fst ` set us" and ?N = "replicate 16 None :: u8 option list"
  note sz = updated_sizes [OF assms(1-6)]
  have len: "length b = val_size fs + length junk" using length_val_blob [OF assms(1,2)] assms(5) by simp
  have small: "length b < 2 ^ 31" "val_size fs < 2 ^ 31" "length b < 2 ^ 32" "?n < 2 ^ 31" "?m < 2 ^ 31" "?w < 2 ^ 31"
    using assms(6) len sz(3) by (simp_all add: val_size_def)
  have lw: "length (var_bytes (map snd (live us))) < 2 ^ 31" using assms(6) by (simp add: val_size_def)
  note ch = val_checks [OF assms(1,2) small(1) assms(5)]
  define S where "S = \<lparr>header_size = 16, storage_size = of_nat (8 * ?n), type_codes_size = of_nat ?n, variable_size = 0,
      total_bytes = of_nat (16 + 17 * ?n), storage_offset = of_nat (16 + 8 * ?n), type_codes_offset = of_nat (16 + 16 * ?n),
      variable_offset = of_nat (16 + 17 * ?n), field_ids_size = of_nat (8 * ?n), field_ids_offset = (16 :: u64)\<rparr>"
  have shape: "cql_compute_val_blob_shape (of_nat ?n) 0 = Some S" using ch(4) by (simp add: S_def)
  have offs: "val_offsets (S\<lparr>total_bytes := x, variable_size := y\<rparr>) ?n" for x y
    using unat_of_nat_u64 [of "16 + 8 * ?n"] unat_of_nat_u64 [of "16 + 16 * ?n"] small(4) by (simp add: val_offsets_def S_def)
  have So: "storage_offset S = of_nat (16 + 8 * ?n)" "type_codes_offset S = of_nat (16 + 16 * ?n)" "variable_offset S = of_nat (16 + 17 * ?n)"
    by (simp_all add: S_def)
  have Sv: "variable_size (S\<lparr>total_bytes := x, variable_size := y\<rparr>) = y" for x y by simp
  have un: "unat (of_nat ?n :: u64) = ?n" using small(4) by (intro unat_of_nat_u64) simp
  have check: "val_update_check C ?n (S\<lparr>total_bytes := x, variable_size := y\<rparr>) (val_args us) b 0 0 =
      Some (Inr (val_marked C r ?M fs junk, of_int (var_change (map_of fs) us), of_int (col_change (map_of fs) us)))" for x y
    using val_check [OF assms(1-3) small(2) offs [where x = x and y = y] assms(4) _ lw, of "{}" r junk 0 0] by (simp add: val_marked_none assms(5))
  have cnt: "(of_nat ?n + scast (of_int (col_change (map_of fs) us) :: i32) :: u64) = of_nat ?m"
    by (rule count_change [OF sz(1) small(4,5)])
  have var: "(ucast (of_nat (length b) :: u32) - of_nat (16 + 17 * ?n) + of_int (var_change (map_of fs) us) :: u64) = of_nat ?w"
    unfolding ucast_of_nat_64 [OF small(3)] using arg_cong [OF sz(2), of "of_int :: int \<Rightarrow> u64"] by simp
  obtain T where T: "cql_compute_val_blob_shape (of_nat ?m) (of_nat ?w) = Some T" "total_bytes T = of_nat (16 + 17 * ?m + ?w)"
    using val_shape [OF sz(3)] by simp
  have malloc: "sqlite3_malloc (total_bytes T) = Some (partly C ?N ?m ?w [])"
    using malloc_small [of "16 + 17 * ?m + ?w"] sz(3) unfolding T(2) by (simp add: partly_empty mem_alloc_def replicate_add [symmetric] add.assoc)
  have fill: "val_update_new C (val_args us) (partly C ?N ?m ?w []) (first_positions T) = (partly C ?N ?m ?w (live us), next_at ?m (live us))"
    using val_fill_spec [OF assms(1), of ?N us "[]" ?m ?w] assms(4) small(6) unfolding first_positions_val [OF sz(3) T(1)]
    by (simp add: val_update_new_def val_updates_ok_def val_updated_def)
  have liveok: "list_all col_ok (map snd (live us))" using assms(4) by (simp add: val_updates_ok_def fields_ok_live)
  have copy: "val_update_copy (val_marked C r ?M fs junk) (S\<lparr>total_bytes := x, variable_size := y\<rparr>) 0 ?n
      (partly C ?N ?m ?w (live us)) (next_at ?m (live us)) = Some (partly C ?N ?m ?w ?fs)" for x y
    using val_copy [OF assms(1-3) small(2) offs [where x = x and y = y], of ?N "live us" ?M ?m ?w 0 ?n r junk] liveok by (simp add: val_updated_def)
  have fin: "result_blob (cql_write_blob_header (partly C ?N ?m ?w ?fs) \<lparr>magic = CQL_BLOB_MAGIC, column_count = of_nat ?m, record_type = r\<rparr>) =
      Some (Result_blob (map Some (val_blob C r ?fs) @ replicate ?g None))"
    unfolding write_header header_last using partly_full [of ?m ?fs ?g ?w C r] by (simp add: result_blob_def)
  have args: "\<not> (length (V_blob b # val_args us) < 4 \<or> length (V_blob b # val_args us) mod 3 \<noteq> 1)"
    using assms(7) by (cases us) auto
  show ?thesis
    unfolding bupdateval_def Let_def
    using args
    by (simp only: if_False nth_Cons_0 list.sel blob_data simp_thms ch(1-3,5) bind.bind_lunit cql_blob_header.simps shape So un check sum.case
        prod.case Sv cnt var T(1) malloc fill copy cql_blob_header.update_convs ucast_down_of_nat fin if_True)
qed

end
