(* ===== verification/Val_Blobs_Props.thy ===== *)
theory Val_Blobs_Props
  imports Val_Blobs_Update
begin

text \<open>
  Value blobs as stores of fields: an interface for what reading and updating promise, with the
  facts about sequences of updates, and its interpretation on value blobs; their properties.
\<close>

section \<open>Stores of fields\<close>

text \<open>
  The blobs that updates lead to, with the fields that they should hold: \<open>admits\<close> is what an update
  must satisfy, \<open>upd\<close> the blobs that it may give, \<open>app\<close> its effect on the fields.
\<close>

inductive updated_by ::
  "('b \<Rightarrow> 'm \<Rightarrow> 'u \<Rightarrow> bool) \<Rightarrow> ('b \<Rightarrow> 'u \<Rightarrow> 'b \<Rightarrow> bool) \<Rightarrow> ('m \<Rightarrow> 'u \<Rightarrow> 'm) \<Rightarrow> 'b \<Rightarrow> 'm \<Rightarrow> 'b \<Rightarrow> 'm \<Rightarrow> bool"
  for admits upd app b m where
  none: "updated_by admits upd app b m b m"
| step: "updated_by admits upd app b m b1 m1 \<Longrightarrow> admits b1 m1 u \<Longrightarrow> upd b1 u b2 \<Longrightarrow> updated_by admits upd app b m b2 (app m1 u)"

locale field_store =
  fixes rep :: "'b \<Rightarrow> ('k \<rightharpoonup> 'v) \<Rightarrow> bool"
    and get :: "'b \<Rightarrow> 'k \<Rightarrow> 'r option"
    and shown :: "'v option \<Rightarrow> 'r"
    and admits :: "'b \<Rightarrow> ('k \<rightharpoonup> 'v) \<Rightarrow> 'u \<Rightarrow> bool"
    and upd :: "'b \<Rightarrow> 'u \<Rightarrow> 'b \<Rightarrow> bool"
    and app :: "('k \<rightharpoonup> 'v) \<Rightarrow> 'u \<Rightarrow> ('k \<rightharpoonup> 'v)"
  assumes get_rep: "rep b m \<Longrightarrow> get b k = Some (shown (m k))"
    and upd_total: "rep b m \<Longrightarrow> admits b m u \<Longrightarrow> \<exists>b'. upd b u b'"
    and upd_rep: "rep b m \<Longrightarrow> admits b m u \<Longrightarrow> upd b u b' \<Longrightarrow> rep b' (app m u)"
begin

lemma rep_after: "updated_by admits upd app b m b' m' \<Longrightarrow> rep b m \<Longrightarrow> rep b' m'"
  by (induction rule: updated_by.induct) (auto intro: upd_rep)

lemma reads_after: "updated_by admits upd app b m b' m' \<Longrightarrow> rep b m \<Longrightarrow> get b' k = Some (shown (m' k))"
  by (blast intro: rep_after get_rep)

lemma updates_after: "updated_by admits upd app b m b' m' \<Longrightarrow> rep b m \<Longrightarrow> admits b' m' u \<Longrightarrow> \<exists>b''. upd b' u b''"
  by (blast intro: rep_after upd_total)

end

section \<open>Value blobs\<close>

text \<open>An unwritten cell of a returned block may hold any byte.\<close>

definition fills :: "u8 option list \<Rightarrow> u8 list \<Rightarrow> bool" where
  "fills cells b \<longleftrightarrow> list_all2 (\<lambda>c x. c = None \<or> c = Some x) cells b"

definition val_rep :: "sqlite_conv \<Rightarrow> u64 \<Rightarrow> u8 list \<Rightarrow> (u64 \<rightharpoonup> column) \<Rightarrow> bool" where
  "val_rep C r b m \<longleftrightarrow> conv_ok C \<and> length b < 2 ^ 31 \<and>
     (\<exists>fs junk. b = val_blob C r fs @ junk \<and> list_all col_ok (map snd fs) \<and> distinct (map fst fs) \<and> m = map_of fs)"

definition val_admits :: "u8 list \<Rightarrow> (u64 \<rightharpoonup> column) \<Rightarrow> field list \<Rightarrow> bool" where
  "val_admits b m us \<longleftrightarrow> us \<noteq> [] \<and> val_updates_ok m us \<and> length b + val_size (live us) < 2 ^ 31"

definition val_upd :: "sqlite_conv \<Rightarrow> u8 list \<Rightarrow> field list \<Rightarrow> u8 list \<Rightarrow> bool" where
  "val_upd C b us b' \<longleftrightarrow> (\<exists>cells. bupdateval C (V_blob b # val_args us) = Some (Result_blob cells) \<and> fills cells b')"

definition val_app :: "(u64 \<rightharpoonup> column) \<Rightarrow> field list \<Rightarrow> (u64 \<rightharpoonup> column)" where
  "val_app m us = (\<lambda>i. case map_of us i of None \<Rightarrow> m i | Some c \<Rightarrow> if snd c = V_null then None else Some c)"

lemma fills_blob: "fills (map Some b @ replicate g None) b' \<longleftrightarrow> (\<exists>junk. b' = b @ junk \<and> length junk = g)"
proof (induction b arbitrary: b')
  case Nil
  then show ?case by (auto simp: fills_def list_all2_conv_all_nth)
next
  case (Cons x b)
  then show ?case by (cases b') (auto simp: fills_def)
qed

lemma live_set: "set (live us) \<subseteq> set us" "distinct (map fst us) \<Longrightarrow> distinct (map fst (live us))"
  by (auto simp: live_def distinct_map_filter)

lemma map_of_live:
  "distinct (map fst us) \<Longrightarrow> map_of (live us) i = (case map_of us i of None \<Rightarrow> None | Some c \<Rightarrow> if snd c = V_null then None else Some c)"
  by (induction us) (auto simp: map_of_eq_None_iff image_iff live_def split: option.splits if_splits)

lemma map_of_kept: "map_of (kept M fs) i = (if i \<in> M then None else map_of fs i)"
  by (induction fs) auto

lemma map_of_updated: "distinct (map fst us) \<Longrightarrow> map_of (val_updated us fs) = val_app (map_of fs) us"
proof (rule ext)
  fix i assume "distinct (map fst us)"
  moreover have "i \<in> fst ` set us \<longleftrightarrow> map_of us i \<noteq> None" by (auto simp: map_of_eq_None_iff)
  ultimately show "map_of (val_updated us fs) i = val_app (map_of fs) us i"
    by (cases "map_of us i") (simp_all add: val_updated_def val_app_def map_add_def map_of_live map_of_kept)
qed

lemma updated_ok:
  assumes "list_all col_ok (map snd fs)" and "distinct (map fst fs)" and "val_updates_ok m us"
  shows "list_all col_ok (map snd (val_updated us fs))" "distinct (map fst (val_updated us fs))"
proof -
  have us: "fields_ok us" "distinct (map fst us)" using assms(3) by (simp_all add: val_updates_ok_def)
  show "list_all col_ok (map snd (val_updated us fs))"
    using assms(1) us(1) by (auto simp: val_updated_def fields_ok_live list_all_iff kept_def simp del: col_ok.simps)
  show "distinct (map fst (val_updated us fs))"
    using assms(2) live_set [of us] us(2) by (force simp: val_updated_def kept_def distinct_map_filter)
qed

lemma val_rep_update:
  assumes "val_rep C r b m" and "val_admits b m us"
  shows "\<exists>cells. bupdateval C (V_blob b # val_args us) = Some (Result_blob cells)"
    and "val_upd C b us b' \<Longrightarrow> val_rep C r b' (val_app m us)"
proof -
  obtain fs junk where b: "conv_ok C" "length b < 2 ^ 31" "b = val_blob C r fs @ junk" "list_all col_ok (map snd fs)"
    "distinct (map fst fs)" "m = map_of fs" using assms(1) by (auto simp: val_rep_def)
  have us: "us \<noteq> []" "val_updates_ok (map_of fs) us" "length b + val_size (live us) < 2 ^ 31" "distinct (map fst us)"
    using assms(2) b(6) by (auto simp: val_admits_def val_updates_ok_def)
  note up = update_val [OF b(1,4,5) us(2) b(3) us(3,1)]
  show "\<exists>cells. bupdateval C (V_blob b # val_args us) = Some (Result_blob cells)" using up by blast
  note ok = updated_ok [OF b(4,5) us(2)]
  assume "val_upd C b us b'"
  then obtain junk' where b': "b' = val_blob C r (val_updated us fs) @ junk'" "length junk' = length junk + removed (map_of fs) us"
    using up by (auto simp: val_upd_def fills_blob)
  have "length b' < 2 ^ 31"
    using updated_sizes(3) [OF b(1,4,5) us(2) b(3) us(3)] length_val_blob [OF b(1) ok(1)] b' by (simp add: val_size_def)
  then show "val_rep C r b' (val_app m us)"
    using b(1) b'(1) ok map_of_updated [OF us(4), of fs] b(6) unfolding val_rep_def by metis
qed

lemma val_rep_get:
  assumes "val_rep C r b m"
  shows "bgetval C [V_blob b, V_int i] = Some (field_value C (m i))" "bgetval_type [V_blob b] = Some (Result_int64 r)"
  using assms get_val get_val_type by (auto simp: val_rep_def)

interpretation val_store: field_store "val_rep C r" "\<lambda>b i. bgetval C [V_blob b, V_int i]" "field_value C" val_admits "val_upd C" val_app
proof unfold_locales
  fix b m i us b'
  assume rep: "val_rep C r b m"
  show "bgetval C [V_blob b, V_int i] = Some (field_value C (m i))" by (rule val_rep_get [OF rep])
  assume ad: "val_admits b m us"
  obtain cells where "bupdateval C (V_blob b # val_args us) = Some (Result_blob cells)" using val_rep_update(1) [OF rep ad] by blast
  moreover have "fills cells (map (\<lambda>c. case c of None \<Rightarrow> 0 | Some x \<Rightarrow> x) cells)"
    by (auto simp: fills_def list_all2_conv_all_nth split: option.splits)
  ultimately show "\<exists>b'. val_upd C b us b'" unfolding val_upd_def by blast
  show "val_upd C b us b' \<Longrightarrow> val_rep C r b' (val_app m us)" by (rule val_rep_update(2) [OF rep ad])
qed

section \<open>Hostile value blobs\<close>

lemma find_field_total:
  assumes "fo + 8 * (j + k) \<le> length b"
  shows "\<exists>i \<le> j + k. find_field b fo field_id j k = Some i"
  using assms
proof (induction k arbitrary: j)
  case (Suc k)
  obtain x where "cql_read_big_endian_u64 b (fo + j * 8) = Some x" using read_u64_total [of "fo + j * 8" b] Suc.prems by auto
  moreover have "\<exists>i \<le> Suc j + k. find_field b fo field_id (Suc j) k = Some i" by (rule Suc.IH) (use Suc.prems in simp)
  ultimately show ?case by auto
qed simp

section \<open>Properties\<close>

text \<open>
  C17. Value blobs keep their fields: \<open>bcreateval\<close> makes a fully initialised blob, \<open>bgetval\<close> returns the
  first field with an id as stored, null for an id that is absent or was given a null value, and
  \<open>bgetval_type\<close> returns the record type.
\<close>

theorem val_blob_round_trip:
  assumes "conv_ok C" and "fields_ok fs" and "val_size (live fs) < 2 ^ 31"
  shows "\<exists>b. bcreateval C (V_int r # val_args fs) = Some (Result_blob (map Some b)) \<and>
    (\<forall>i. bgetval C [V_blob b, V_int i] = Some (field_value C (map_of (live fs) i))) \<and>
    bgetval_type [V_blob b] = Some (Result_int64 r)"
proof -
  let ?b = "val_blob C r (live fs)"
  have ok: "list_all col_ok (map snd (live fs))" using assms(2) by (simp add: fields_ok_live)
  have "length ?b < 2 ^ 31" using length_val_blob [OF assms(1) ok] assms(3) by simp
  then show ?thesis
    using create_val [OF assms] get_val [OF assms(1) ok] get_val_type [OF assms(1) ok] by (metis append_Nil2)
qed

definition sample_fields :: "field list" where
  "sample_fields = [(5, 4, V_text [104, 105]), (9, 1, V_null), (8, 2, V_int 3), (6, 5, V_blob [1, 2])]"

lemma sample_fields_ok:
  "conv_ok sample_conv" "fields_ok sample_fields" "val_size (live sample_fields) < 2 ^ 31"
  by (simp_all add: conv_ok_def sample_conv_def sample_fields_def val_size_def value_data_def)

theorem val_blob_round_trip_witness:
  "\<exists>b. bcreateval sample_conv (V_int 77 # val_args sample_fields) = Some (Result_blob (map Some b)) \<and>
    (\<forall>i. bgetval sample_conv [V_blob b, V_int i] = Some (field_value sample_conv (map_of (live sample_fields) i))) \<and>
    bgetval_type [V_blob b] = Some (Result_int64 77)"
  by (rule val_blob_round_trip [OF sample_fields_ok])

text \<open>
  C8. Value blobs are maps from field ids: after any sequence of updates of a created blob, \<open>bgetval\<close>
  reads the fields that the updates give, the record type is kept, and the next update succeeds,
  whatever the unwritten bytes of the blobs in between hold.
\<close>

theorem val_updates_read_back:
  assumes "conv_ok C" and "fields_ok fs" and "val_size (live fs) < 2 ^ 31" and "distinct (map fst fs)"
    and "bcreateval C (V_int r # val_args fs) = Some (Result_blob (map Some b))"
    and "updated_by val_admits (val_upd C) val_app b (map_of (live fs)) b' m"
  shows "(\<forall>i. bgetval C [V_blob b', V_int i] = Some (field_value C (m i))) \<and> bgetval_type [V_blob b'] = Some (Result_int64 r) \<and>
    (\<forall>us. val_admits b' m us \<longrightarrow> (\<exists>b''. val_upd C b' us b''))"
proof -
  have "map Some b = map Some (val_blob C r (live fs))" using create_val [OF assms(1-3), of r] assms(5) by simp
  then have b: "b = val_blob C r (live fs)" by (metis list.inj_map_strong option.inject)
  have ok: "list_all col_ok (map snd (live fs))" using assms(2) by (simp add: fields_ok_live)
  have "b = val_blob C r (live fs) @ []" "length b < 2 ^ 31" using length_val_blob [OF assms(1) ok] assms(3) b by simp_all
  then have rep: "val_rep C r b (map_of (live fs))"
    unfolding val_rep_def using assms(1) ok live_set(2) [OF assms(4)] by blast
  have "val_rep C r b' m" by (rule val_store.rep_after [OF assms(6) rep])
  then show ?thesis using val_store.reads_after [OF assms(6) rep] val_store.updates_after [OF assms(6) rep] val_rep_get(2) by blast
qed

theorem val_updates_read_back_witness:
  "\<exists>b b'. bcreateval sample_conv (V_int 77 # val_args sample_fields) = Some (Result_blob (map Some b)) \<and>
     val_upd sample_conv b [(8, 2, V_int 4), (5, 4, V_null)] b' \<and>
     bgetval sample_conv [V_blob b', V_int 8] = Some (Result_int64 4) \<and> bgetval sample_conv [V_blob b', V_int 5] = Some Result_null"
proof -
  let ?us = "[(8, 2, V_int 4), (5, 4, V_null)] :: field list" and ?m = "map_of (live sample_fields)"
  let ?b = "val_blob sample_conv 77 (live sample_fields)"
  note create = create_val [OF sample_fields_ok, of 77]
  have dist: "distinct (map fst sample_fields)" by (simp add: sample_fields_def)
  have ok: "list_all col_ok (map snd (live sample_fields))" using sample_fields_ok(2) by (simp add: fields_ok_live)
  have ad: "val_admits ?b ?m ?us"
    unfolding val_admits_def length_val_blob [OF sample_fields_ok(1) ok]
    by (simp add: val_updates_ok_def sample_fields_def val_size_def value_data_def)
  obtain b' where b': "val_upd sample_conv ?b ?us b'"
    using val_updates_read_back [OF sample_fields_ok dist create updated_by.none] ad by blast
  have "updated_by val_admits (val_upd sample_conv) val_app ?b ?m b' (val_app ?m ?us)"
    using updated_by.step [of val_admits "val_upd sample_conv" val_app ?b ?m ?b ?m ?us b', OF updated_by.none ad b'] .
  from val_updates_read_back [OF sample_fields_ok dist create this] create b' show ?thesis
    by (intro exI [of _ ?b] exI [of _ b']) (auto simp: val_app_def field_value_def)
qed

text \<open>
  C21. The result of an update, byte for byte: the new fields in the order of the arguments, then the
  fields that were not updated, then as many unwritten bytes as the removed text and blob columns
  had, because the size of a removed column is not taken off the variable size.
\<close>

theorem val_update_result:
  assumes "conv_ok C" and "list_all col_ok (map snd fs)" and "distinct (map fst fs)" and "val_updates_ok (map_of fs) us"
    and "length (val_blob C r fs) + val_size (live us) < 2 ^ 31" and "us \<noteq> []"
  shows "bupdateval C (V_blob (val_blob C r fs) # val_args us) =
    Some (Result_blob (map Some (val_blob C r (live us @ kept (fst ` set us) fs)) @ replicate (removed (map_of fs) us) None))"
  using update_val [OF assms(1-4) _ assms(5,6), where junk = "[]"] by (simp add: val_updated_def)

theorem val_update_result_witness:
  "bupdateval sample_conv (V_blob (val_blob sample_conv 77 [(5, 4, V_text [104, 105]), (8, 2, V_int 3)]) #
     [V_int 5, V_null, V_int 4, V_int 7, V_blob [1], V_int 5]) =
   Some (Result_blob (map Some (val_blob sample_conv 77 [(7, 5, V_blob [1]), (8, 2, V_int 3)]) @ [None, None, None]))"
proof -
  let ?fs = "[(5, 4, V_text [104, 105]), (8, 2, V_int 3)] :: field list" and ?us = "[(5, 4, V_null), (7, 5, V_blob [1])] :: field list"
  have ok: "list_all col_ok (map snd ?fs)" "distinct (map fst ?fs)" by simp_all
  have us: "val_updates_ok (map_of ?fs) ?us" by (simp add: val_updates_ok_def)
  have size: "length (val_blob sample_conv 77 ?fs) + val_size (live ?us) < 2 ^ 31"
    unfolding length_val_blob [OF sample_fields_ok(1) ok(1)] by (simp add: val_size_def value_data_def)
  show ?thesis
    using val_update_result [OF sample_fields_ok(1) ok us size] by (simp add: value_data_def)
qed

text \<open>
  C20. Reading a hostile value blob is safe: for any bytes whose header claims fewer than 126322567
  columns, the number from which the sizes leave 31 bits, \<open>bgetval\<close> reads inside the blob and
  returns a value, null or an error.
\<close>

theorem get_val_hostile_safe:
  assumes "length b < 2 ^ 31" and "cql_read_blob_header b (of_nat (length b)) = Some header"
    and "unat (column_count header) < 126322567"
  shows "\<exists>r. bgetval C [V_blob b, V_int i] = Some r"
proof -
  obtain n where n: "column_count header = of_nat n" "n < 126322567"
    using assms(3) by (metis of_nat_unat word_of_nat_eq_iff ucast_id)
  have small: "length b < 2 ^ 32" "16 + 17 * n + 0 < 2 ^ 31" using assms(1) n(2) by simp_all
  have cnt: "(ucast (column_count header) :: u64) = of_nat n" "unat (column_count header) = n"
    unfolding n(1) using n(2) by (intro ucast_of_nat_64 unat_of_nat_u32; simp)+
  note sh = val_shape [OF small(2)]
  show ?thesis
  proof (cases "magic header \<noteq> CQL_BLOB_MAGIC \<or> (of_nat (16 + 17 * n) :: u64) > ucast (of_nat (length b) :: u32)")
    case True
    then show ?thesis using assms(2) blob_data cnt sh by (auto simp: bgetval_def Let_def simp del: of_nat_add of_nat_mult)
  next
    case False
    have offs: "unat (of_nat (16 + 8 * n) :: u64) = 16 + 8 * n" "unat (of_nat (16 + 16 * n) :: u64) = 16 + 16 * n"
      "unat (of_nat (16 + 17 * n) :: u64) = 16 + 17 * n" "unat (of_nat n :: u64) = n"
      using small(2) by (intro unat_of_nat_u64; simp)+
    have fits: "16 + 17 * n \<le> length b"
      using False offs(3) unat_of_nat_u32 [OF small(1)] by (simp add: word_less_nat_alt not_less del: of_nat_add of_nat_mult)
    obtain ok where ok: "cql_validate_blob_variable_fields b (ucast (of_nat (length b) :: u32)) (of_nat n) (of_nat (16 + 8 * n))
        (of_nat (16 + 16 * n)) (of_nat (16 + 17 * n)) = Some ok"
      using validate_total [OF small(1), of "of_nat (16 + 8 * n)" 0 n "of_nat (16 + 16 * n)" "of_nat (16 + 17 * n)"] fits offs
        ucast_of_nat_64 [OF small(1)] by (auto simp: cql_validate_blob_variable_fields_def simp del: of_nat_add of_nat_mult)
    obtain j where j: "find_field b 16 i 0 n = Some j" "j \<le> n" using find_field_total [of 16 0 n b i] fits by auto
    show ?thesis
    proof (cases "j < n")
      case True
      obtain ty where ty: "byte_at b (16 + 16 * n + j) = Some ty" using True fits by (simp add: byte_at_def)
      obtain x where "field_result b (of_nat (length b)) (16 + 8 * n + j * 8) ty = Some x"
        using field_result_total [OF small(1), of "16 + 8 * n + j * 8" ty] True fits by auto
      then show ?thesis
        using False True assms(2) blob_data cnt sh ok offs j(1) ty
        by (cases ok) (auto simp: bgetval_def Let_def simp del: of_nat_add of_nat_mult)
    next
      case above: False
      then show ?thesis
        using False assms(2) blob_data cnt sh ok offs j(1)
        by (cases ok) (auto simp: bgetval_def Let_def simp del: of_nat_add of_nat_mult)
    qed
  qed
qed

theorem get_val_hostile_safe_witness:
  "\<exists>r. bgetval sample_conv [V_blob (header_bytes 5 2 @ [1, 2, 3]), V_int 1] = Some r"
proof -
  let ?b = "header_bytes 5 2 @ [1, 2, 3]"
  have "cql_read_blob_header ?b (of_nat (length ?b)) =
      Some \<lparr>magic = CQL_BLOB_MAGIC, column_count = of_nat 2, record_type = 5\<rparr>" by (rule read_header) simp_all
  then show ?thesis by (rule get_val_hostile_safe [rotated]) simp_all
qed

section \<open>A marked type\<close>

text \<open>
  The type that an update names for a stored field is compared with the stored type while that
  carries the mark of an earlier update: naming the marked type with a null value takes the field
  off the column count a second time.  Here the checks pass, the new blob of one field is given a block for none,
  and writing the field leaves the block.
\<close>

definition marked_args :: "sqlite3_value list" where
  "marked_args = [V_int 8, V_int 4, V_int 2, V_int 8, V_null, V_int 0x42]"

lemma val_update_marked_type_overruns:
  "case cql_compute_val_blob_shape 1 0 of None \<Rightarrow> False | Some shape \<Rightarrow>
     length (val_blob sample_conv 77 [(8, 2, V_int 3)]) = unat (total_bytes shape) \<and>
     (case val_update_check sample_conv 1 shape marked_args (val_blob sample_conv 77 [(8, 2, V_int 3)]) 0 0 of
        Some (Inr (b, adjustment, col_adjustment)) \<Rightarrow>
          adjustment = 0 \<and> col_adjustment = - 1 \<and>
          (case cql_compute_val_blob_shape (1 + scast col_adjustment) adjustment of None \<Rightarrow> False | Some new_shape \<Rightarrow>
             total_bytes new_shape = 16 \<and>
             fst (val_update_new sample_conv marked_args (mem_alloc (unat (total_bytes new_shape))) (first_positions new_shape)) = Fault)
      | _ \<Rightarrow> False)"
  by code_simp

end
