(* ===== verification/Refs.thy ===== *)
theory Refs
  imports "HOL-Library.Monad_Syntax" "HOL-Library.Multiset" Symtab
begin

text \<open>
  Reference-counted strings and blobs of the runtime (\<open>sources/cqlrt.c\<close>).  A reference is a 64-bit
  address, 0 is null.  The heap maps the address of a live object to its count and its data; an access
  to an address without an object is a use after free and gives \<open>None\<close>, as does a failed invariant.
\<close>

section \<open>Objects\<close>

datatype cql_data = String_data cstring | Blob_data "u8 list"

record cql_type =
  ref_count :: i32
  data :: cql_data

record cql_heap =
  objs :: "i64 \<rightharpoonup> cql_type"
  cql_outstanding_refs :: i32

definition cql_retain :: "i64 \<Rightarrow> cql_heap \<Rightarrow> cql_heap option" where
  "cql_retain ref h =
     (if ref \<noteq> 0 then
        do {
          obj \<leftarrow> objs h ref;
          Some (h\<lparr>objs := (objs h)(ref \<mapsto> obj\<lparr>ref_count := ref_count obj + 1\<rparr>),
                  cql_outstanding_refs := cql_outstanding_refs h + 1\<rparr>)
        }
      else Some h)"

text \<open>The finalizers of strings and blobs free the data; the object is freed with it.\<close>

definition cql_release :: "i64 \<Rightarrow> cql_heap \<Rightarrow> cql_heap option" where
  "cql_release ref h =
     (if ref \<noteq> 0 then
        do {
          obj \<leftarrow> objs h ref;
          let refs = ref_count obj - 1;
          let h = h\<lparr>objs := (objs h)(ref := if refs = 0 then None else Some (obj\<lparr>ref_count := refs\<rparr>))\<rparr>;
          let h = h\<lparr>cql_outstanding_refs := cql_outstanding_refs h - 1\<rparr>;
          require (sint (cql_outstanding_refs h) \<ge> 0);
          Some h
        }
      else Some h)"

text \<open>A new object at the address that \<open>malloc\<close> returns.\<close>

definition new_object :: "i64 \<Rightarrow> cql_data \<Rightarrow> cql_heap \<Rightarrow> cql_heap" where
  "new_object a d h = h\<lparr>objs := (objs h)(a \<mapsto> \<lparr>ref_count = 1, data = d\<rparr>), cql_outstanding_refs := cql_outstanding_refs h + 1\<rparr>"

definition cql_blob_ref_new :: "i64 \<Rightarrow> u8 list \<Rightarrow> cql_heap \<Rightarrow> cql_heap" where
  "cql_blob_ref_new a bytes h = new_object a (Blob_data bytes) h"

definition cql_string_ref_new :: "i64 \<Rightarrow> cstring \<Rightarrow> cql_heap \<Rightarrow> cql_heap" where
  "cql_string_ref_new a s h = new_object a (String_data (takeWhile (\<lambda>c. c \<noteq> NUL) s)) h"

section \<open>Hashing and comparison\<close>

definition string_at :: "cql_heap \<Rightarrow> i64 \<Rightarrow> cstring option" where
  "string_at h ref = (case objs h ref of Some obj \<Rightarrow> (case data obj of String_data s \<Rightarrow> Some s | _ \<Rightarrow> None) | None \<Rightarrow> None)"

definition blob_at :: "cql_heap \<Rightarrow> i64 \<Rightarrow> u8 list option" where
  "blob_at h ref = (case objs h ref of Some obj \<Rightarrow> (case data obj of Blob_data b \<Rightarrow> Some b | _ \<Rightarrow> None) | None \<Rightarrow> None)"

definition djb2_step :: "u64 \<Rightarrow> u8 \<Rightarrow> u64" where
  "djb2_step acc c = (push_bit 5 acc + acc) + ucast c"

fun blob_hash_loop :: "u8 list \<Rightarrow> u64 \<Rightarrow> u64" where
  "blob_hash_loop [] acc = acc"
| "blob_hash_loop (b # bytes) acc = blob_hash_loop bytes (djb2_step acc b)"

definition cql_blob_hash :: "cql_heap \<Rightarrow> i64 \<Rightarrow> u64 option" where
  "cql_blob_hash h blob = (if blob \<noteq> 0 then map_option (\<lambda>bytes. blob_hash_loop bytes 5381) (blob_at h blob) else Some 0)"

definition cql_blob_equal :: "cql_heap \<Rightarrow> i64 \<Rightarrow> i64 \<Rightarrow> bool option" where
  "cql_blob_equal h blob1 blob2 =
     (if blob1 = blob2 then Some True
      else if blob1 = 0 \<or> blob2 = 0 then Some False
      else do { bytes1 \<leftarrow> blob_at h blob1; bytes2 \<leftarrow> blob_at h blob2; Some (bytes1 = bytes2) })"

definition cql_string_compare :: "cql_heap \<Rightarrow> i64 \<Rightarrow> i64 \<Rightarrow> int option" where
  "cql_string_compare h s1 s2 =
     do {
       require (s1 \<noteq> 0);
       require (s2 \<noteq> 0);
       t1 \<leftarrow> string_at h s1;
       t2 \<leftarrow> string_at h s2;
       Some (strcmp t1 t2)
     }"

fun string_hash_loop :: "cstring \<Rightarrow> u64 \<Rightarrow> u64" where
  "string_hash_loop [] acc = acc"
| "string_hash_loop (c # s) acc = (if c = NUL then acc else string_hash_loop s (djb2_step acc (uchar c)))"

definition cql_string_hash :: "cql_heap \<Rightarrow> i64 \<Rightarrow> u64 option" where
  "cql_string_hash h str = (if str \<noteq> 0 then map_option (\<lambda>s. string_hash_loop s 5381) (string_at h str) else Some 0)"

definition cql_string_equal :: "cql_heap \<Rightarrow> i64 \<Rightarrow> i64 \<Rightarrow> bool option" where
  "cql_string_equal h s1 s2 =
     (if s1 = s2 then Some True
      else if s1 = 0 \<or> s2 = 0 then Some False
      else map_option (\<lambda>r. r = 0) (cql_string_compare h s1 s2))"

definition is_string :: "cql_type \<Rightarrow> bool" where
  "is_string obj = (case data obj of String_data _ \<Rightarrow> True | _ \<Rightarrow> False)"

definition cql_ref_hash :: "cql_heap \<Rightarrow> i64 \<Rightarrow> u64 option" where
  "cql_ref_hash h typeref =
     (if typeref = 0 then Some 0
      else do { obj \<leftarrow> objs h typeref; if is_string obj then cql_string_hash h typeref else cql_blob_hash h typeref })"

definition cql_ref_equal :: "cql_heap \<Rightarrow> i64 \<Rightarrow> i64 \<Rightarrow> bool option" where
  "cql_ref_equal h typeref1 typeref2 =
     (if typeref1 = typeref2 then Some True
      else if typeref1 = 0 \<or> typeref2 = 0 then Some False
      else do {
        obj1 \<leftarrow> objs h typeref1;
        obj2 \<leftarrow> objs h typeref2;
        require (is_string obj1 = is_string obj2);
        if is_string obj1 then cql_string_equal h typeref1 typeref2 else cql_blob_equal h typeref1 typeref2
      })"

section \<open>Counted references\<close>

text \<open>
  \<open>counted h R\<close>: the counts of the objects are those of the references \<open>R\<close> that exist, and every
  object with a reference is live.  The outstanding references are their number.
\<close>

definition counted :: "cql_heap \<Rightarrow> i64 multiset \<Rightarrow> bool" where
  "counted h R \<longleftrightarrow> 0 \<notin># R \<and> size R < 2 ^ 31 \<and> cql_outstanding_refs h = of_nat (size R) \<and> dom (objs h) = set_mset R \<and>
     (\<forall>a obj. objs h a = Some obj \<longrightarrow> ref_count obj = of_nat (Multiset.count R a))"

definition data_at :: "cql_heap \<Rightarrow> i64 \<Rightarrow> cql_data option" where
  "data_at h a = map_option data (objs h a)"

lemma counted_live: "counted h R \<Longrightarrow> a \<in># R \<Longrightarrow> \<exists>obj. objs h a = Some obj"
  unfolding counted_def by blast

lemma retain_counted:
  assumes "counted h R" and "a \<in># R" and "size R + 1 < 2 ^ 31"
  shows "\<exists>h'. cql_retain a h = Some h' \<and> counted h' (add_mset a R) \<and>
    (\<forall>b. data_at h' b = data_at h b)"
proof -
  obtain obj where obj: "objs h a = Some obj" using counted_live [OF assms(1,2)] by blast
  have "a \<noteq> 0" using assms(1,2) by (auto simp: counted_def)
  then show ?thesis using obj assms by (auto simp: cql_retain_def counted_def data_at_def split: if_splits)
qed

lemma sint_size: "k < 2 ^ 31 \<Longrightarrow> sint (of_nat k :: i32) = int k"
  by (simp add: signed_of_nat signed_take_bit_int_eq_self)

lemma count_small_zero: "k < 2 ^ 31 \<Longrightarrow> (of_nat k :: i32) = 0 \<longleftrightarrow> k = 0"
  by (auto simp: word_of_nat_eq_0_iff dest: dvd_imp_le)

lemma release_counted:
  assumes "counted h R" and "a \<in># R"
  shows "\<exists>h'. cql_release a h = Some h' \<and> counted h' (R - {#a#}) \<and>
    (\<forall>b. b \<in># R - {#a#} \<longrightarrow> data_at h' b = data_at h b)"
proof -
  obtain obj where obj: "objs h a = Some obj" using counted_live [OF assms] by blast
  have a: "a \<noteq> 0" using assms by (auto simp: counted_def)
  obtain n where n: "Multiset.count R a = Suc n" using assms(2) by (metis count_eq_zero_iff not0_implies_Suc)
  obtain k where k: "size R = Suc k" using assms(2) by (metis empty_iff not0_implies_Suc set_mset_empty size_eq_0_iff_empty)
  have small: "k < 2 ^ 31" "n < 2 ^ 31" using assms(1) k n count_le_size [of R a] by (auto simp: counted_def)
  have rc: "ref_count obj - 1 = of_nat n" using assms(1) obj n by (simp add: counted_def)
  have out: "cql_outstanding_refs h - 1 = of_nat k" using assms(1) k by (simp add: counted_def)
  have inv: "0 \<le> sint (of_nat k :: i32)" using sint_size [OF small(1)] by simp
  have mem: "b \<in># R - {#a#} \<longleftrightarrow> (if b = a then n \<noteq> 0 else b \<in># R)" for b
    using n by (auto simp: in_diff_count)
  let ?o = "(objs h)(a := if (of_nat n :: i32) = 0 then None else Some (obj\<lparr>ref_count := of_nat n\<rparr>))"
  have "counted (h\<lparr>objs := ?o, cql_outstanding_refs := of_nat k\<rparr>) (R - {#a#})"
    using assms k n mem count_small_zero [OF small(2)] unfolding counted_def
    by (auto simp: size_Diff_singleton dom_def split: if_splits)
  then show ?thesis using obj a rc out inv mem count_small_zero [OF small(2)]
    by (auto simp: cql_release_def Let_def bind_require data_at_def)
qed

end
