(* ===== verification/Hashtab.thy ===== *)
theory Hashtab
  imports Refs
begin

text \<open>
  The hash table of the runtime (\<open>sources/cqlrt_common.c\<close>) with the facets and dictionaries that are
  made from it.  Its functions for hashing, comparing, retaining and releasing are fields of the
  table; they work on a heap \<open>'h\<close>, and \<open>None\<close> is a fault.  The object that wraps a table is the
  table itself.
\<close>

section \<open>The table\<close>

record cql_hashtab_entry =
  entry_key :: i64
  entry_val :: i64

record 'h cql_hashtab =
  ht_count :: u32
  ht_capacity :: u32
  ht_payload :: "cql_hashtab_entry list"
  hash_key :: "i64 \<Rightarrow> 'h \<Rightarrow> u64 option"
  compare_keys :: "i64 \<Rightarrow> i64 \<Rightarrow> 'h \<Rightarrow> bool option"
  retain_key :: "i64 \<Rightarrow> 'h \<Rightarrow> 'h option"
  retain_val :: "i64 \<Rightarrow> 'h \<Rightarrow> 'h option"
  release_key :: "i64 \<Rightarrow> 'h \<Rightarrow> 'h option"
  release_val :: "i64 \<Rightarrow> 'h \<Rightarrow> 'h option"

definition HASHTAB_INIT_SIZE :: u32 where
  "HASHTAB_INIT_SIZE = 4"

text \<open>The load factor is the double 0.75, as in the symbol table of the compiler.\<close>

definition over_hashtab_load :: "u32 \<Rightarrow> u32 \<Rightarrow> bool" where
  "over_hashtab_load cnt cap \<longleftrightarrow> 4 * unat cnt > 3 * unat cap"

definition cql_hashtab_set_payload :: "'h cql_hashtab \<Rightarrow> 'h cql_hashtab" where
  "cql_hashtab_set_payload ht = ht\<lparr>ht_payload := replicate (unat (ht_capacity ht)) \<lparr>entry_key = 0, entry_val = 0\<rparr>\<rparr>"

definition cql_hashtab_new ::
  "(i64 \<Rightarrow> 'h \<Rightarrow> u64 option) \<Rightarrow> (i64 \<Rightarrow> i64 \<Rightarrow> 'h \<Rightarrow> bool option) \<Rightarrow> (i64 \<Rightarrow> 'h \<Rightarrow> 'h option) \<Rightarrow> (i64 \<Rightarrow> 'h \<Rightarrow> 'h option) \<Rightarrow>
   (i64 \<Rightarrow> 'h \<Rightarrow> 'h option) \<Rightarrow> (i64 \<Rightarrow> 'h \<Rightarrow> 'h option) \<Rightarrow> 'h cql_hashtab" where
  "cql_hashtab_new hk ck rk rv lk lv = cql_hashtab_set_payload
     \<lparr>ht_count = 0, ht_capacity = HASHTAB_INIT_SIZE, ht_payload = [], hash_key = hk, compare_keys = ck,
      retain_key = rk, retain_val = rv, release_key = lk, release_val = lv\<rparr>"

text \<open>
  The loop \<open>for (;;)\<close> of \<open>cql_hashtab_add\<close> and \<open>cql_hashtab_find\<close>, with one step per slot; when these are
  used up the C loop does not end.
\<close>

fun hashtab_loop :: "'h cql_hashtab \<Rightarrow> i64 \<Rightarrow> 'h \<Rightarrow> nat \<Rightarrow> nat \<Rightarrow> nat option" where
  "hashtab_loop ht key_needed h 0 off = None"
| "hashtab_loop ht key_needed h (Suc fuel) off =
     (if off < length (ht_payload ht) then
        let key = entry_key (ht_payload ht ! off) in
        if key = 0 then Some off
        else do {
          eq \<leftarrow> compare_keys ht key key_needed h;
          if eq then Some off
          else hashtab_loop ht key_needed h fuel (if off + 1 \<ge> unat (ht_capacity ht) then 0 else off + 1)
        }
      else None)"

definition hashtab_slot :: "'h cql_hashtab \<Rightarrow> i64 \<Rightarrow> 'h \<Rightarrow> nat option" where
  "hashtab_slot ht key h =
     do {
       hc \<leftarrow> hash_key ht key h;
       hashtab_loop ht key h (unat (ht_capacity ht)) (unat ((ucast hc :: u32) mod ht_capacity ht))
     }"

text \<open>
  \<open>cql_hashtab_add\<close> may rehash and \<open>cql_hashtab_rehash\<close> adds, so the addition takes the rehash that it
  calls as an argument.
\<close>

definition cql_hashtab_add_with ::
  "('h cql_hashtab \<Rightarrow> 'h \<Rightarrow> ('h cql_hashtab \<times> 'h) option) \<Rightarrow> 'h cql_hashtab \<Rightarrow> i64 \<Rightarrow> i64 \<Rightarrow> 'h \<Rightarrow>
   (bool \<times> 'h cql_hashtab \<times> 'h) option" where
  "cql_hashtab_add_with rehash ht key_new val_new h =
     do {
       offset \<leftarrow> hashtab_slot ht key_new h;
       if entry_key (ht_payload ht ! offset) = 0 then
         do {
           h \<leftarrow> retain_key ht key_new h;
           h \<leftarrow> retain_val ht val_new h;
           let ht = ht\<lparr>ht_payload := (ht_payload ht)[offset := \<lparr>entry_key = key_new, entry_val = val_new\<rparr>],
                       ht_count := ht_count ht + 1\<rparr>;
           if over_hashtab_load (ht_count ht) (ht_capacity ht)
           then map_option (Pair True) (rehash ht h)
           else Some (True, ht, h)
         }
       else Some (False, ht, h)
     }"

fun hashtab_readd ::
  "('h cql_hashtab \<Rightarrow> 'h \<Rightarrow> ('h cql_hashtab \<times> 'h) option) \<Rightarrow> cql_hashtab_entry list \<Rightarrow> 'h cql_hashtab \<Rightarrow> 'h \<Rightarrow>
   ('h cql_hashtab \<times> 'h) option" where
  "hashtab_readd rehash [] ht h = Some (ht, h)"
| "hashtab_readd rehash (e # es) ht h =
     (if entry_key e \<noteq> 0 then
        do {
          (added, ht, h) \<leftarrow> cql_hashtab_add_with rehash ht (entry_key e) (entry_val e) h;
          h \<leftarrow> release_key ht (entry_key e) h;
          h \<leftarrow> release_val ht (entry_val e) h;
          hashtab_readd rehash es ht h
        }
      else hashtab_readd rehash es ht h)"

text \<open>The first argument bounds how deep a rehash may be nested in the additions of another one.\<close>

primrec cql_hashtab_rehash :: "nat \<Rightarrow> 'h cql_hashtab \<Rightarrow> 'h \<Rightarrow> ('h cql_hashtab \<times> 'h) option" where
  "cql_hashtab_rehash 0 ht h = None"
| "cql_hashtab_rehash (Suc d) ht h =
     hashtab_readd (cql_hashtab_rehash d) (ht_payload ht)
       (cql_hashtab_set_payload (ht\<lparr>ht_count := 0, ht_capacity := ht_capacity ht * 2\<rparr>)) h"

definition cql_hashtab_add :: "'h cql_hashtab \<Rightarrow> i64 \<Rightarrow> i64 \<Rightarrow> 'h \<Rightarrow> (bool \<times> 'h cql_hashtab \<times> 'h) option" where
  "cql_hashtab_add ht key_new val_new h = cql_hashtab_add_with (cql_hashtab_rehash 1) ht key_new val_new h"

text \<open>The slot of a key, \<open>Some None\<close> for the null pointer.\<close>

definition cql_hashtab_find :: "'h cql_hashtab \<Rightarrow> i64 \<Rightarrow> 'h \<Rightarrow> nat option option" where
  "cql_hashtab_find ht key_needed h =
     do {
       offset \<leftarrow> hashtab_slot ht key_needed h;
       Some (if entry_key (ht_payload ht ! offset) = 0 then None else Some offset)
     }"

fun hashtab_release_loop :: "'h cql_hashtab \<Rightarrow> cql_hashtab_entry list \<Rightarrow> 'h \<Rightarrow> 'h option" where
  "hashtab_release_loop ht [] h = Some h"
| "hashtab_release_loop ht (e # es) h =
     do {
       h \<leftarrow> (if entry_key e \<noteq> 0 then release_key ht (entry_key e) h else Some h);
       h \<leftarrow> (if entry_val e \<noteq> 0 then release_val ht (entry_val e) h else Some h);
       hashtab_release_loop ht es h
     }"

definition cql_hashtab_delete :: "'h cql_hashtab \<Rightarrow> 'h \<Rightarrow> 'h option" where
  "cql_hashtab_delete ht h = hashtab_release_loop ht (ht_payload ht) h"

text \<open>Writing the value of an entry in place.\<close>

definition set_entry_val :: "'h cql_hashtab \<Rightarrow> nat \<Rightarrow> i64 \<Rightarrow> 'h cql_hashtab" where
  "set_entry_val ht i v = ht\<lparr>ht_payload := (ht_payload ht)[i := (ht_payload ht ! i)\<lparr>entry_val := v\<rparr>]\<rparr>"

section \<open>Facets\<close>

definition cql_no_op_retain_release :: "i64 \<Rightarrow> 'h \<Rightarrow> 'h option" where
  "cql_no_op_retain_release d h = Some h"

definition cql_key_retain :: "i64 \<Rightarrow> cql_heap \<Rightarrow> cql_heap option" where
  "cql_key_retain key h = (if key \<noteq> 0 then cql_retain key h else Some h)"

definition cql_key_release :: "i64 \<Rightarrow> cql_heap \<Rightarrow> cql_heap option" where
  "cql_key_release key h = (if key \<noteq> 0 then cql_release key h else Some h)"

definition cql_key_str_hash :: "i64 \<Rightarrow> cql_heap \<Rightarrow> u64 option" where
  "cql_key_str_hash key h = cql_string_hash h key"

definition cql_key_str_eq :: "i64 \<Rightarrow> i64 \<Rightarrow> cql_heap \<Rightarrow> bool option" where
  "cql_key_str_eq key1 key2 h = cql_string_equal h key1 key2"

definition cql_facets_create :: "cql_heap cql_hashtab" where
  "cql_facets_create =
     cql_hashtab_new cql_key_str_hash cql_key_str_eq cql_key_retain cql_no_op_retain_release cql_key_release cql_no_op_retain_release"

definition cql_facets_finalize :: "cql_heap cql_hashtab \<Rightarrow> cql_heap \<Rightarrow> cql_heap option" where
  "cql_facets_finalize self h = cql_hashtab_delete self h"

text \<open>A null facets object is \<open>None\<close>.\<close>

definition cql_facet_add ::
  "cql_heap cql_hashtab option \<Rightarrow> i64 \<Rightarrow> i64 \<Rightarrow> cql_heap \<Rightarrow> (bool \<times> cql_heap cql_hashtab option \<times> cql_heap) option" where
  "cql_facet_add facets name crc h =
     (case facets of
        None \<Rightarrow> Some (False, facets, h)
      | Some self \<Rightarrow> map_option (\<lambda>(result, self, h). (result, Some self, h)) (cql_hashtab_add self name crc h))"

definition cql_facet_find :: "cql_heap cql_hashtab option \<Rightarrow> i64 \<Rightarrow> cql_heap \<Rightarrow> i64 option" where
  "cql_facet_find facets name h =
     (case facets of
        None \<Rightarrow> Some (- 1)
      | Some self \<Rightarrow>
          do {
            entry \<leftarrow> cql_hashtab_find self name h;
            Some (case entry of None \<Rightarrow> - 1 | Some i \<Rightarrow> entry_val (ht_payload self ! i))
          })"

definition cql_facet_upsert ::
  "cql_heap cql_hashtab option \<Rightarrow> i64 \<Rightarrow> i64 \<Rightarrow> cql_heap \<Rightarrow> (bool \<times> cql_heap cql_hashtab option \<times> cql_heap) option" where
  "cql_facet_upsert facets name crc h =
     (case facets of
        None \<Rightarrow> Some (False, facets, h)
      | Some self \<Rightarrow>
          do {
            entry \<leftarrow> cql_hashtab_find self name h;
            (case entry of
               None \<Rightarrow> map_option (\<lambda>(result, self, h). (result, Some self, h)) (cql_hashtab_add self name crc h)
             | Some i \<Rightarrow> Some (False, Some (set_entry_val self i crc), h))
          })"

section \<open>Dictionaries\<close>

definition cql_string_dictionary_create :: "cql_heap cql_hashtab" where
  "cql_string_dictionary_create =
     cql_hashtab_new cql_key_str_hash cql_key_str_eq cql_key_retain cql_key_retain cql_key_release cql_key_release"

definition cql_string_dictionary_finalize :: "cql_heap cql_hashtab \<Rightarrow> cql_heap \<Rightarrow> cql_heap option" where
  "cql_string_dictionary_finalize self h = cql_hashtab_delete self h"

definition cql_string_dictionary_add ::
  "cql_heap cql_hashtab \<Rightarrow> i64 \<Rightarrow> i64 \<Rightarrow> cql_heap \<Rightarrow> (bool \<times> cql_heap cql_hashtab \<times> cql_heap) option" where
  "cql_string_dictionary_add self key v h =
     do {
       require (key \<noteq> 0);
       require (v \<noteq> 0);
       entry \<leftarrow> cql_hashtab_find self key h;
       (case entry of
          Some i \<Rightarrow>
            do {
              h \<leftarrow> cql_retain v h;
              h \<leftarrow> cql_release (entry_val (ht_payload self ! i)) h;
              Some (False, set_entry_val self i v, h)
            }
        | None \<Rightarrow> cql_hashtab_add self key v h)
     }"

text \<open>The result 0 is the null reference.\<close>

definition cql_string_dictionary_find :: "cql_heap cql_hashtab \<Rightarrow> i64 \<Rightarrow> cql_heap \<Rightarrow> i64 option" where
  "cql_string_dictionary_find self key h =
     (if key = 0 then Some 0
      else do {
        entry \<leftarrow> cql_hashtab_find self key h;
        Some (case entry of Some i \<Rightarrow> entry_val (ht_payload self ! i) | None \<Rightarrow> 0)
      })"

definition cql_long_dictionary_create :: "cql_heap cql_hashtab" where
  "cql_long_dictionary_create =
     cql_hashtab_new cql_key_str_hash cql_key_str_eq cql_key_retain cql_no_op_retain_release cql_key_release cql_no_op_retain_release"

definition cql_long_dictionary_add ::
  "cql_heap cql_hashtab \<Rightarrow> i64 \<Rightarrow> i64 \<Rightarrow> cql_heap \<Rightarrow> (bool \<times> cql_heap cql_hashtab \<times> cql_heap) option" where
  "cql_long_dictionary_add self key v h =
     do {
       require (key \<noteq> 0);
       entry \<leftarrow> cql_hashtab_find self key h;
       (case entry of
          Some i \<Rightarrow> Some (False, set_entry_val self i v, h)
        | None \<Rightarrow> cql_hashtab_add self key v h)
     }"

text \<open>A nullable number is an option; a double is its 64 bits.\<close>

definition cql_long_dictionary_find :: "cql_heap cql_hashtab \<Rightarrow> i64 \<Rightarrow> cql_heap \<Rightarrow> i64 option option" where
  "cql_long_dictionary_find self key h =
     (if key \<noteq> 0 then
        do {
          entry \<leftarrow> cql_hashtab_find self key h;
          Some (map_option (\<lambda>i. entry_val (ht_payload self ! i)) entry)
        }
      else Some None)"

definition cql_real_dictionary_create :: "cql_heap cql_hashtab" where
  "cql_real_dictionary_create =
     cql_hashtab_new cql_key_str_hash cql_key_str_eq cql_key_retain cql_no_op_retain_release cql_key_release cql_no_op_retain_release"

definition cql_real_dictionary_add ::
  "cql_heap cql_hashtab \<Rightarrow> i64 \<Rightarrow> u64 \<Rightarrow> cql_heap \<Rightarrow> (bool \<times> cql_heap cql_hashtab \<times> cql_heap) option" where
  "cql_real_dictionary_add self key bits h =
     do {
       require (key \<noteq> 0);
       entry \<leftarrow> cql_hashtab_find self key h;
       (case entry of
          Some i \<Rightarrow> Some (False, set_entry_val self i bits, h)
        | None \<Rightarrow> cql_hashtab_add self key bits h)
     }"

definition cql_real_dictionary_find :: "cql_heap cql_hashtab \<Rightarrow> i64 \<Rightarrow> cql_heap \<Rightarrow> u64 option option" where
  "cql_real_dictionary_find self key h =
     (if key \<noteq> 0 then
        do {
          entry \<leftarrow> cql_hashtab_find self key h;
          Some (map_option (\<lambda>i. entry_val (ht_payload self ! i)) entry)
        }
      else Some None)"

text \<open>Dictionaries of objects and of blobs are string dictionaries.\<close>

definition cql_object_dictionary_create :: "cql_heap cql_hashtab" where
  "cql_object_dictionary_create = cql_string_dictionary_create"

definition cql_object_dictionary_add ::
  "cql_heap cql_hashtab \<Rightarrow> i64 \<Rightarrow> i64 \<Rightarrow> cql_heap \<Rightarrow> (bool \<times> cql_heap cql_hashtab \<times> cql_heap) option" where
  "cql_object_dictionary_add dict key v h = cql_string_dictionary_add dict key v h"

definition cql_object_dictionary_find :: "cql_heap cql_hashtab \<Rightarrow> i64 \<Rightarrow> cql_heap \<Rightarrow> i64 option" where
  "cql_object_dictionary_find dict key h = cql_string_dictionary_find dict key h"

definition cql_blob_dictionary_create :: "cql_heap cql_hashtab" where
  "cql_blob_dictionary_create = cql_string_dictionary_create"

definition cql_blob_dictionary_add ::
  "cql_heap cql_hashtab \<Rightarrow> i64 \<Rightarrow> i64 \<Rightarrow> cql_heap \<Rightarrow> (bool \<times> cql_heap cql_hashtab \<times> cql_heap) option" where
  "cql_blob_dictionary_add dict key v h = cql_string_dictionary_add dict key v h"

definition cql_blob_dictionary_find :: "cql_heap cql_hashtab \<Rightarrow> i64 \<Rightarrow> cql_heap \<Rightarrow> i64 option" where
  "cql_blob_dictionary_find dict key h = cql_string_dictionary_find dict key h"

end
