(* ===== verification/Hashtab_Correct.thy ===== *)
theory Hashtab_Correct
  imports Hashtab Symtab_Correct
begin

text \<open>
  The hash table with string keys: seen through the texts of its keys it is a symbol table, so the
  facts about probing and rehashing carry over; beyond them, the references that the table holds are
  counted exactly.
\<close>

section \<open>The table as a symbol table\<close>

definition text_of :: "cql_heap \<Rightarrow> i64 \<Rightarrow> cstring" where
  "text_of h k = the (string_at h k)"

definition str_key :: "cql_heap \<Rightarrow> i64 \<Rightarrow> bool" where
  "str_key h k \<longleftrightarrow> k \<noteq> 0 \<and> (\<exists>s. string_at h k = Some s \<and> cstr s)"

definition ht_hash :: "cstring \<Rightarrow> u32" where
  "ht_hash s = ucast (string_hash_loop s 5381)"

definition abs_entry :: "cql_heap \<Rightarrow> cql_hashtab_entry \<Rightarrow> (i64 \<times> i64) symtab_entry" where
  "abs_entry h e = (if entry_key e = 0 then empty_entry
     else \<lparr>sym = Some (text_of h (entry_key e)), val = Some (entry_key e, entry_val e)\<rparr>)"

definition ht_abs :: "cql_heap \<Rightarrow> cql_heap cql_hashtab \<Rightarrow> (i64 \<times> i64, unit) symtab" where
  "ht_abs h ht = \<lparr>count = ht_count ht, capacity = ht_capacity ht, payload = map (abs_entry h) (ht_payload ht),
     hash = ht_hash, cmp = strcmp, teardown = None\<rparr>"

interpretation string_keys: hashed_keys ht_hash "\<lambda>a b. strcmp a b = 0" cstr
  by unfold_locales (auto simp: strcmp_eq_0)

text \<open>The functions of a dictionary; \<open>rv\<close> says whether the values are references.\<close>

definition str_table :: "bool \<Rightarrow> cql_heap cql_hashtab \<Rightarrow> bool" where
  "str_table rv ht \<longleftrightarrow> hash_key ht = cql_key_str_hash \<and> compare_keys ht = cql_key_str_eq \<and>
     retain_key ht = cql_key_retain \<and> release_key ht = cql_key_release \<and>
     retain_val ht = (if rv then cql_key_retain else cql_no_op_retain_release) \<and>
     release_val ht = (if rv then cql_key_release else cql_no_op_retain_release)"

definition entry_ok :: "bool \<Rightarrow> cql_heap \<Rightarrow> cql_hashtab_entry \<Rightarrow> bool" where
  "entry_ok rv h e \<longleftrightarrow>
     (if entry_key e = 0 then entry_val e = 0 else str_key h (entry_key e) \<and> (rv \<longrightarrow> entry_val e \<noteq> 0))"

definition entry_refs :: "bool \<Rightarrow> cql_hashtab_entry \<Rightarrow> i64 multiset" where
  "entry_refs rv e = (if entry_key e = 0 then {#} else add_mset (entry_key e) (if rv then {#entry_val e#} else {#}))"

definition slots_refs :: "bool \<Rightarrow> cql_hashtab_entry list \<Rightarrow> i64 multiset" where
  "slots_refs rv es = sum_list (map (entry_refs rv) es)"

lemma slots_refs_simps [simp]: "slots_refs rv [] = {#}" "slots_refs rv (e # es) = entry_refs rv e + slots_refs rv es"
  by (simp_all add: slots_refs_def)

lemma slots_refs_update:
  "j < length es \<Longrightarrow> slots_refs rv (es[j := e]) + entry_refs rv (es ! j) = slots_refs rv es + entry_refs rv e"
proof (induction es arbitrary: j)
  case (Cons d es)
  then show ?case by (cases j) (auto simp: ac_simps)
qed simp

lemma key_in_refs: "e \<in> set es \<Longrightarrow> entry_key e \<noteq> 0 \<Longrightarrow> entry_key e \<in># slots_refs rv es"
  by (induction es) (auto simp: entry_refs_def)

lemma str_key_heap: "string_at h' k = string_at h k \<Longrightarrow> str_key h' k = str_key h k"
  by (simp add: str_key_def)

lemma string_at_data: "data_at h' a = data_at h a \<Longrightarrow> string_at h' a = string_at h a"
  by (auto simp: string_at_def data_at_def split: option.splits)

lemma abs_entries_heap:
  assumes "\<And>a. a \<in># slots_refs rv es \<Longrightarrow> data_at h' a = data_at h a"
  shows "map (abs_entry h') es = map (abs_entry h) es" and "list_all (entry_ok rv h) es \<Longrightarrow> list_all (entry_ok rv h') es"
proof -
  have s: "string_at h' (entry_key e) = string_at h (entry_key e)" if "e \<in> set es" "entry_key e \<noteq> 0" for e
    by (rule string_at_data [OF assms]) (rule key_in_refs [OF that])
  have "abs_entry h' e = abs_entry h e" if "e \<in> set es" for e
    using s [OF that] by (cases "entry_key e = 0") (simp_all add: abs_entry_def text_of_def)
  then show "map (abs_entry h') es = map (abs_entry h) es" by (rule map_cong [OF refl])
  assume "list_all (entry_ok rv h) es"
  moreover have "entry_ok rv h' e = entry_ok rv h e" if "e \<in> set es" for e
    using s [OF that] by (cases "entry_key e = 0") (simp_all add: entry_ok_def str_key_def)
  ultimately show "list_all (entry_ok rv h') es" by (simp add: list_all_iff)
qed

lemma abs_heap:
  assumes "\<And>a. a \<in># slots_refs rv (ht_payload ht) \<Longrightarrow> data_at h' a = data_at h a"
  shows "ht_abs h' ht = ht_abs h ht"
  using abs_entries_heap(1) [OF assms] unfolding ht_abs_def by (simp only:)

section \<open>Probing\<close>

lemma str_eq:
  assumes "str_key h k" and "str_key h k'"
  shows "cql_key_str_eq k k' h = Some (strcmp (text_of h k) (text_of h k') = 0)"
  using assms by (auto simp: cql_key_str_eq_def cql_string_equal_def cql_string_compare_def str_key_def text_of_def bind_require strcmp_eq_0)

lemma str_hash: "str_key h k \<Longrightarrow> map_option ucast (cql_key_str_hash k h) = Some (ht_hash (text_of h k))"
  by (auto simp: cql_key_str_hash_def cql_string_hash_def str_key_def ht_hash_def text_of_def)

lemma loop_is_probe:
  assumes "str_table rv ht" and "list_all (entry_ok rv h) (ht_payload ht)" and "str_key h k"
    and "length (ht_payload ht) = unat (ht_capacity ht)"
  shows "hashtab_loop ht k h fuel off = probe (\<lambda>s. strcmp s (text_of h k) = 0) (symtab_keys (ht_abs h ht)) fuel off"
proof (induction fuel arbitrary: off)
  case (Suc fuel)
  show ?case
  proof (cases "off < length (ht_payload ht)")
    case True
    let ?e = "ht_payload ht ! off"
    have e: "entry_ok rv h ?e" using assms(2) True by (simp add: list_all_length)
    have k: "symtab_keys (ht_abs h ht) ! off = (if entry_key ?e = 0 then None else Some (text_of h (entry_key ?e)))"
      using True by (simp add: symtab_keys_def ht_abs_def abs_entry_def empty_entry_def)
    have eq: "compare_keys ht (entry_key ?e) k h = Some (strcmp (text_of h (entry_key ?e)) (text_of h k) = 0)" if "entry_key ?e \<noteq> 0"
      using assms(1,3) e that str_eq by (simp add: str_table_def entry_ok_def)
    show ?thesis
      using True k eq Suc.IH assms(4) by (auto simp: probe.simps Let_def symtab_keys_def ht_abs_def)
  next
    case False
    then show ?thesis by (simp add: probe.simps symtab_keys_def ht_abs_def)
  qed
qed simp

lemma slot_is_probe:
  assumes "str_table rv ht" and "list_all (entry_ok rv h) (ht_payload ht)" and "str_key h k"
    and "length (ht_payload ht) = unat (ht_capacity ht)"
  shows "hashtab_slot ht k h = symtab_probe (ht_abs h ht) (text_of h k)"
proof -
  obtain hc where "cql_key_str_hash k h = Some hc" "(ucast hc :: u32) = ht_hash (text_of h k)" using str_hash [OF assms(3)] by auto
  then show ?thesis
    using loop_is_probe [OF assms] assms(1) by (simp add: hashtab_slot_def symtab_probe_def str_table_def ht_abs_def Let_def)
qed

section \<open>The invariant\<close>

text \<open>
  The table is a symbol table, and the references that exist are \<open>E\<close>, held by others, and those of its
  slots.
\<close>

abbreviation table_refs :: "bool \<Rightarrow> 'h cql_hashtab \<Rightarrow> i64 multiset" where
  "table_refs rv ht \<equiv> slots_refs rv (ht_payload ht)"

definition ht_inv :: "bool \<Rightarrow> i64 multiset \<Rightarrow> cql_heap cql_hashtab \<Rightarrow> cql_heap \<Rightarrow> bool" where
  "ht_inv rv E ht h \<longleftrightarrow> str_table rv ht \<and> symtab_inv (ht_abs h ht) \<and> list_all (entry_ok rv h) (ht_payload ht) \<and>
     counted h (E + table_refs rv ht)"

lemma ht_invD:
  assumes "ht_inv rv E ht h"
  shows "str_table rv ht" "symtab_inv (ht_abs h ht)" "list_all (entry_ok rv h) (ht_payload ht)" "counted h (E + table_refs rv ht)"
    "length (ht_payload ht) = unat (ht_capacity ht)"
  using assms symtab_invD(2) [of "ht_abs h ht"] by (auto simp: ht_inv_def ht_abs_def)

text \<open>Changing the heap around a table.\<close>

lemma ht_inv_heap:
  assumes "ht_inv rv E ht h" and "counted h' (E' + table_refs rv ht)"
    and "\<And>a. a \<in># table_refs rv ht \<Longrightarrow> data_at h' a = data_at h a"
  shows "ht_inv rv E' ht h'" and "ht_abs h' ht = ht_abs h ht"
proof -
  show abs: "ht_abs h' ht = ht_abs h ht" by (rule abs_heap [OF assms(3)])
  show "ht_inv rv E' ht h'"
    using assms(1,2) abs_entries_heap(2) [OF assms(3)] unfolding ht_inv_def abs by blast
qed

section \<open>Retaining and releasing entries\<close>

definition new_entry :: "i64 \<Rightarrow> i64 \<Rightarrow> cql_hashtab_entry" where
  "new_entry k v = \<lparr>entry_key = k, entry_val = v\<rparr>"

lemma new_entry_simps [simp]: "entry_key (new_entry k v) = k" "entry_val (new_entry k v) = v"
  by (simp_all add: new_entry_def)

lemma retain_entry:
  assumes "counted h R" and "k \<in># R" and "rv \<longrightarrow> v \<in># R" and "size R + 2 < 2 ^ 31" and "str_table rv ht"
  shows "\<exists>h1 h2. retain_key ht k h = Some h1 \<and> retain_val ht v h1 = Some h2 \<and>
    counted h2 (R + entry_refs rv (new_entry k v)) \<and> (\<forall>a. data_at h2 a = data_at h a)"
proof -
  have k: "k \<noteq> 0" using assms(1,2) by (auto simp: counted_def)
  obtain h1 where h1: "cql_retain k h = Some h1" "counted h1 (add_mset k R)"
    "\<And>b. data_at h1 b = data_at h b"
    using retain_counted [OF assms(1,2)] assms(4) by auto
  show ?thesis
  proof (cases rv)
    case False
    then show ?thesis
      using h1 k assms(5)
      by (auto simp: str_table_def cql_key_retain_def cql_no_op_retain_release_def entry_refs_def)
  next
    case True
    then have v: "v \<noteq> 0" "v \<in># add_mset k R" using assms(1,3) by (auto simp: counted_def)
    obtain h2 where h2: "cql_retain v h1 = Some h2" "counted h2 (add_mset v (add_mset k R))"
      "\<And>b. data_at h2 b = data_at h1 b"
      using retain_counted [OF h1(2) v(2)] assms(4) by auto
    then show ?thesis
      using h1 k v True assms(5) h2(3)
      by (auto simp: str_table_def cql_key_retain_def entry_refs_def add_mset_commute)
  qed
qed

lemma release_entry:
  assumes "counted h (R + entry_refs rv e)" and "entry_key e \<noteq> 0" and "str_table rv ht"
  shows "\<exists>h1 h2. release_key ht (entry_key e) h = Some h1 \<and> release_val ht (entry_val e) h1 = Some h2 \<and>
    counted h2 R \<and> (\<forall>a \<in># R. data_at h2 a = data_at h a)"
proof -
  let ?k = "entry_key e" and ?v = "entry_val e"
  let ?V = "if rv then {#?v#} else {#}"
  have refs: "entry_refs rv e = add_mset ?k ?V" using assms(2) by (simp add: entry_refs_def)
  have d: "?k \<in># R + entry_refs rv e" "R + entry_refs rv e - {#?k#} = R + ?V" by (simp_all add: refs)
  obtain h1 where h1: "cql_release ?k h = Some h1" "counted h1 (R + ?V)"
    "\<And>b. b \<in># R + ?V \<Longrightarrow> data_at h1 b = data_at h b"
    using release_counted [OF assms(1) d(1)] unfolding d(2) by blast
  show ?thesis
  proof (cases rv)
    case False
    then have "data_at h1 a = data_at h a" if "a \<in># R" for a using h1(3) that by simp
    then show ?thesis
      using h1(1,2) False assms(2,3) by (auto simp: str_table_def cql_key_release_def cql_no_op_retain_release_def)
  next
    case True
    then have c: "counted h1 (add_mset ?v R)" using h1(2) by simp
    then have v: "?v \<noteq> 0" by (auto simp: counted_def)
    obtain h2 where h2: "cql_release ?v h1 = Some h2" "counted h2 R"
      "\<And>b. b \<in># R \<Longrightarrow> data_at h2 b = data_at h1 b"
      using release_counted [OF c, of ?v] by auto
    have "data_at h2 a = data_at h a" if "a \<in># R" for a
      using h2(3) h1(3) that by simp
    then show ?thesis
      using h1(1) h2(1,2) assms(2,3) v True by (auto simp: str_table_def cql_key_release_def)
  qed
qed

section \<open>Adding\<close>

definition put :: "'h cql_hashtab \<Rightarrow> nat \<Rightarrow> i64 \<Rightarrow> i64 \<Rightarrow> 'h cql_hashtab" where
  "put ht j k v = ht\<lparr>ht_payload := (ht_payload ht)[j := new_entry k v], ht_count := ht_count ht + 1\<rparr>"

lemma put_fields [simp]:
  "ht_capacity (put ht j k v) = ht_capacity ht" "ht_count (put ht j k v) = ht_count ht + 1"
  "ht_payload (put ht j k v) = (ht_payload ht)[j := new_entry k v]" "str_table rv (put ht j k v) = str_table rv ht"
  by (simp_all add: put_def str_table_def)

lemma empty_slot: "entry_key e = 0 \<Longrightarrow> entry_refs rv e = {#}"
  by (simp add: entry_refs_def)

text \<open>The state after a new key is stored, before the load factor is tested.\<close>

lemma add_slot:
  assumes "ht_inv rv E ht h" and "str_key h k" and "k \<in># E" and "rv \<longrightarrow> v \<in># E" and "size (E + table_refs rv ht) + 2 < 2 ^ 31"
    and "\<forall>(s, x) \<in> symtab_entries (ht_abs h ht). strcmp s (text_of h k) \<noteq> 0"
  obtains j h1 h2 where "j < length (ht_payload ht)" "hashtab_slot ht k h = Some j" "entry_key (ht_payload ht ! j) = 0"
    "retain_key ht k h = Some h1" "retain_val ht v h1 = Some h2" "\<forall>a. data_at h2 a = data_at h a"
    "counted h2 (E + table_refs rv (put ht j k v))" "list_all (entry_ok rv h2) (ht_payload (put ht j k v))"
    "symtab_probe (ht_abs h ht) (text_of h k) = Some j" "sym (payload (ht_abs h ht) ! j) = None"
    "ht_abs h2 (put ht j k v) = put_entry (ht_abs h ht) j (text_of h k) (Some (k, v))"
proof -
  note d = ht_invD [OF assms(1)]
  have cs: "cstr (text_of h k)" using assms(2) by (auto simp: str_key_def text_of_def)
  obtain j where j: "j < length (payload (ht_abs h ht))" "symtab_probe (ht_abs h ht) (text_of h k) = Some j" "sym (payload (ht_abs h ht) ! j) = None"
    using fresh_slot [OF d(2) cs] assms(6) by (auto simp: ht_abs_def)
  have jl: "j < length (ht_payload ht)" using j(1) by (simp add: ht_abs_def)
  have free: "entry_key (ht_payload ht ! j) = 0" using j(3) jl by (simp add: ht_abs_def abs_entry_def split: if_splits)
  have refs: "E + table_refs rv ht + entry_refs rv (new_entry k v) = E + table_refs rv (put ht j k v)"
    using slots_refs_update [OF jl, of rv "new_entry k v"] empty_slot [OF free, of rv] by (simp add: add.assoc)
  obtain h1 h2 where h: "retain_key ht k h = Some h1" "retain_val ht v h1 = Some h2"
    "counted h2 (E + table_refs rv (put ht j k v))" "\<And>a. data_at h2 a = data_at h a"
    using retain_entry [OF d(4) _ _ assms(5) d(1), of k v] assms(3,4) unfolding refs by auto
  have k: "k \<noteq> 0" using assms(2) by (simp add: str_key_def)
  have v: "rv \<longrightarrow> v \<noteq> 0" using assms(4) d(4) by (auto simp: counted_def)
  note st = string_at_data [OF h(4)]
  have abs2: "abs_entry h2 = abs_entry h" "entry_ok rv h2 = entry_ok rv h"
    using st by (simp_all add: fun_eq_iff abs_entry_def text_of_def entry_ok_def str_key_def)
  have "ht_abs h2 (put ht j k v) = put_entry (ht_abs h ht) j (text_of h k) (Some (k, v))"
    using k by (simp add: ht_abs_def put_entry_def map_update abs2) (simp add: abs_entry_def)
  moreover have "list_all (entry_ok rv h2) (ht_payload (put ht j k v))"
    using d(3) assms(2) k v set_update_subset_insert [of "ht_payload ht" j "new_entry k v"]
    by (auto simp: list_all_iff abs2 entry_ok_def)
  moreover have "hashtab_slot ht k h = Some j" using slot_is_probe [OF d(1,3) assms(2) d(5)] j(2) by simp
  ultimately show thesis using that jl free h j(2,3) by blast
qed

lemma over_load_same: "over_hashtab_load = over_load_factor"
  by (simp add: fun_eq_iff over_hashtab_load_def over_load_factor_def)

lemma add_low:
  assumes "ht_inv rv E ht h" and "str_key h k" and "k \<in># E" and "rv \<longrightarrow> v \<in># E" and "size (E + table_refs rv ht) + 2 < 2 ^ 31"
    and "\<forall>(s, x) \<in> symtab_entries (ht_abs h ht). strcmp s (text_of h k) \<noteq> 0"
    and "4 * (unat (ht_count ht) + 1) \<le> 3 * unat (ht_capacity ht)"
  shows "\<exists>ht' h'. cql_hashtab_add_with rh ht k v h = Some (True, ht', h') \<and> ht_inv rv E ht' h' \<and>
    symtab_entries (ht_abs h' ht') = insert (text_of h k, Some (k, v)) (symtab_entries (ht_abs h ht)) \<and>
    ht_capacity ht' = ht_capacity ht \<and> unat (ht_count ht') = unat (ht_count ht) + 1 \<and> (\<forall>a. data_at h' a = data_at h a) \<and>
    table_refs rv ht' = table_refs rv ht + entry_refs rv (new_entry k v)"
proof -
  note d = ht_invD [OF assms(1)]
  have cs: "cstr (text_of h k)" using assms(2) by (auto simp: str_key_def text_of_def)
  obtain j h1 h2 where j: "j < length (ht_payload ht)" "hashtab_slot ht k h = Some j" "entry_key (ht_payload ht ! j) = 0"
    "retain_key ht k h = Some h1" "retain_val ht v h1 = Some h2" "\<forall>a. data_at h2 a = data_at h a"
    "counted h2 (E + table_refs rv (put ht j k v))" "list_all (entry_ok rv h2) (ht_payload (put ht j k v))"
    "symtab_probe (ht_abs h ht) (text_of h k) = Some j" "sym (payload (ht_abs h ht) ! j) = None"
    "ht_abs h2 (put ht j k v) = put_entry (ht_abs h ht) j (text_of h k) (Some (k, v))"
    using add_slot [OF assms(1-6)] by blast
  have jl: "j < length (payload (ht_abs h ht))" using j(1) by (simp add: ht_abs_def)
  have cnt: "unat (ht_count ht + 1) = unat (ht_count ht) + 1"
    using count_after_put(1) [OF d(2) jl j(10)] by (simp add: ht_abs_def put_entry_def)
  have room: "4 * (unat (count (ht_abs h ht)) + 1) \<le> 3 * unat (capacity (ht_abs h ht))" using assms(7) by (simp add: ht_abs_def)
  have low: "\<not> over_hashtab_load (ht_count ht + 1) (ht_capacity ht)" using assms(7) cnt by (simp add: over_hashtab_load_def)
  have "symtab_inv (ht_abs h2 (put ht j k v))" unfolding j(11) by (rule put_entry_inv [OF d(2) cs jl j(9,10) room])
  then have inv: "ht_inv rv E (put ht j k v) h2" using d(1) j(7,8) cnt by (simp add: ht_inv_def)
  have ent: "symtab_entries (ht_abs h2 (put ht j k v)) = insert (text_of h k, Some (k, v)) (symtab_entries (ht_abs h ht))"
    unfolding j(11) using live_update [OF jl j(10)] by (simp add: symtab_entries_def put_entry_def)
  have refs: "table_refs rv (put ht j k v) = table_refs rv ht + entry_refs rv (new_entry k v)"
    using slots_refs_update [OF j(1), of rv "new_entry k v"] empty_slot [OF j(3), of rv] by simp
  have "cql_hashtab_add_with rh ht k v h = Some (True, put ht j k v, h2)"
    using j(2-5) low by (simp add: cql_hashtab_add_with_def put_def new_entry_def Let_def)
  then show ?thesis using inv ent cnt j(6) refs by simp
qed

text \<open>
  The loop of a rehash moves the references of the old slots \<open>es\<close> to the new table: every reference
  that it takes is released once.
\<close>

lemma readd:
  assumes "ht_inv rv (E + slots_refs rv es) ht h" and "list_all (entry_ok rv h) es"
    and "\<forall>(s, x) \<in> set (live (map (abs_entry h) es)). \<forall>(s', x') \<in> symtab_entries (ht_abs h ht). strcmp s' s \<noteq> 0"
    and "sorted_wrt (\<lambda>e f. \<forall>x y. sym e = Some x \<longrightarrow> sym f = Some y \<longrightarrow> strcmp x y \<noteq> 0) (map (abs_entry h) es)"
    and "4 * (unat (ht_count ht) + length (live (map (abs_entry h) es))) \<le> 3 * unat (ht_capacity ht)"
    and "size (E + slots_refs rv es + table_refs rv ht) + 2 < 2 ^ 31"
  shows "\<exists>ht' h'. hashtab_readd rh es ht h = Some (ht', h') \<and> ht_inv rv E ht' h' \<and>
    symtab_entries (ht_abs h' ht') = symtab_entries (ht_abs h ht) \<union> set (live (map (abs_entry h) es)) \<and>
    ht_capacity ht' = ht_capacity ht \<and> unat (ht_count ht') = unat (ht_count ht) + length (live (map (abs_entry h) es)) \<and>
    (\<forall>a \<in># E. data_at h' a = data_at h a) \<and> table_refs rv ht' = table_refs rv ht + slots_refs rv es"
  using assms
proof (induction es arbitrary: ht h)
  case (Cons e es)
  show ?case
  proof (cases "entry_key e = 0")
    case True
    then show ?thesis using Cons.IH [of ht h] Cons.prems by (simp add: empty_slot abs_entry_def empty_entry_def)
  next
    case False
    let ?k = "entry_key e" and ?v = "entry_val e"
    let ?E = "E + entry_refs rv e + slots_refs rv es"
    have e: "str_key h ?k" "rv \<longrightarrow> ?v \<noteq> 0" using Cons.prems(2) False by (simp_all add: entry_ok_def)
    have abs: "abs_entry h e = \<lparr>sym = Some (text_of h ?k), val = Some (?k, ?v)\<rparr>" using False by (simp add: abs_entry_def)
    have new: "new_entry ?k ?v = e" by (simp add: new_entry_def)
    have inv: "ht_inv rv ?E ht h" and size: "size (?E + table_refs rv ht) + 2 < 2 ^ 31"
      using Cons.prems(1,6) by (simp_all add: add.assoc)
    have mem: "?k \<in># ?E" "rv \<longrightarrow> ?v \<in># ?E" using False by (auto simp: entry_refs_def)
    obtain ht1 h1 where 1: "cql_hashtab_add_with rh ht ?k ?v h = Some (True, ht1, h1)" "ht_inv rv ?E ht1 h1"
      "symtab_entries (ht_abs h1 ht1) = insert (text_of h ?k, Some (?k, ?v)) (symtab_entries (ht_abs h ht))"
      "ht_capacity ht1 = ht_capacity ht" "unat (ht_count ht1) = unat (ht_count ht) + 1" "\<forall>a. data_at h1 a = data_at h a"
      "table_refs rv ht1 = table_refs rv ht + entry_refs rv e"
      using add_low [OF inv e(1) mem size, of rh] Cons.prems(3,5) by (auto simp: abs new)
    let ?R = "E + slots_refs rv es + table_refs rv ht1"
    have "counted h1 (?R + entry_refs rv e)" using ht_invD(4) [OF 1(2)] by (simp add: ac_simps)
    from release_entry [OF this False ht_invD(1) [OF 1(2)]]
    obtain h2 h3 where 3: "release_key ht1 ?k h1 = Some h2" "release_val ht1 ?v h2 = Some h3" "counted h3 ?R"
      "\<forall>a \<in># ?R. data_at h3 a = data_at h1 a" by blast
    have same: "data_at h3 a = data_at h a" if "a \<in># ?R" for a using 1(6) 3(4) that by simp
    have inv3: "ht_inv rv (E + slots_refs rv es) ht1 h3" "ht_abs h3 ht1 = ht_abs h1 ht1"
      by (rule ht_inv_heap [OF 1(2) 3(3)]; use 3(4) in simp)+
    have es: "map (abs_entry h3) es = map (abs_entry h) es" "list_all (entry_ok rv h3) es"
      using abs_entries_heap [of rv es h3 h] same Cons.prems(2) by simp_all
    have "\<exists>ht' h'. hashtab_readd rh es ht1 h3 = Some (ht', h') \<and> ht_inv rv E ht' h' \<and>
      symtab_entries (ht_abs h' ht') = symtab_entries (ht_abs h3 ht1) \<union> set (live (map (abs_entry h3) es)) \<and>
      ht_capacity ht' = ht_capacity ht1 \<and> unat (ht_count ht') = unat (ht_count ht1) + length (live (map (abs_entry h3) es)) \<and>
      (\<forall>a \<in># E. data_at h' a = data_at h3 a) \<and> table_refs rv ht' = table_refs rv ht1 + slots_refs rv es"
    proof (rule Cons.IH [OF inv3(1) es(2)])
      have "strcmp (text_of h ?k) x \<noteq> 0" if "(x, y) \<in> set (live (map (abs_entry h) es))" for x y
        using Cons.prems(4) that by (fastforce simp: abs live_iff)
      then show "\<forall>(s, x) \<in> set (live (map (abs_entry h3) es)). \<forall>(s', x') \<in> symtab_entries (ht_abs h3 ht1). strcmp s' s \<noteq> 0"
        using Cons.prems(3) unfolding es(1) inv3(2) 1(3) by (auto simp: abs)
      show "sorted_wrt (\<lambda>e f. \<forall>x y. sym e = Some x \<longrightarrow> sym f = Some y \<longrightarrow> strcmp x y \<noteq> 0) (map (abs_entry h3) es)"
        using Cons.prems(4) unfolding es(1) by simp
      show "4 * (unat (ht_count ht1) + length (live (map (abs_entry h3) es))) \<le> 3 * unat (ht_capacity ht1)"
        using Cons.prems(5) 1(4,5) unfolding es(1) by (simp add: abs)
      show "size (E + slots_refs rv es + table_refs rv ht1) + 2 < 2 ^ 31" using Cons.prems(6) 1(7) by simp
    qed
    then obtain ht' h' where 4: "hashtab_readd rh es ht1 h3 = Some (ht', h')" "ht_inv rv E ht' h'"
      "symtab_entries (ht_abs h' ht') = symtab_entries (ht_abs h3 ht1) \<union> set (live (map (abs_entry h) es))"
      "ht_capacity ht' = ht_capacity ht1" "unat (ht_count ht') = unat (ht_count ht1) + length (live (map (abs_entry h) es))"
      "\<forall>a \<in># E. data_at h' a = data_at h3 a" "table_refs rv ht' = table_refs rv ht1 + slots_refs rv es"
      unfolding es(1) by blast
    have "hashtab_readd rh (e # es) ht h = Some (ht', h')" using False 1(1) 3(1,2) 4(1) by simp
    moreover have "\<forall>a \<in># E. data_at h' a = data_at h a" using 4(6) same by simp
    ultimately show ?thesis
      using 4(2-5,7) 1(3-5,7) inv3(2) by (intro exI [of _ ht'] exI [of _ h']) (simp add: abs ac_simps)
  qed
qed (auto simp: ht_inv_def)

section \<open>The table as a map\<close>

definition ht_map :: "cql_heap \<Rightarrow> cql_heap cql_hashtab \<Rightarrow> (cstring \<rightharpoonup> i64)" where
  "ht_map h ht = map_of (map (\<lambda>(s, x). (s, snd (the x))) (live (map (abs_entry h) (ht_payload ht))))"

lemma entries_Some: "(s, x) \<in> symtab_entries (ht_abs h ht) \<Longrightarrow> \<exists>k v. x = Some (k, v)"
  by (auto simp: symtab_entries_def live_iff ht_abs_def abs_entry_def empty_entry_def split: if_splits)

lemma ht_map_iff:
  assumes "ht_inv rv E ht h"
  shows "ht_map h ht s = Some v \<longleftrightarrow> (\<exists>k. (s, Some (k, v)) \<in> symtab_entries (ht_abs h ht))"
proof -
  let ?l = "live (payload (ht_abs h ht))"
  have l: "live (map (abs_entry h) (ht_payload ht)) = ?l" by (simp add: ht_abs_def)
  have "distinct (map fst ?l)" by (rule live_distinct [OF names_distinct [OF ht_invD(2) [OF assms]]])
  then have "distinct (map fst (map (\<lambda>(s, x). (s, snd (the x))) ?l))" by (simp add: comp_def case_prod_unfold)
  then have "ht_map h ht s = Some v \<longleftrightarrow> (s, v) \<in> set (map (\<lambda>(s, x). (s, snd (the x))) ?l)"
    unfolding ht_map_def l by (rule map_of_eq_Some_iff)
  also have "\<dots> \<longleftrightarrow> (\<exists>k. (s, Some (k, v)) \<in> symtab_entries (ht_abs h ht))"
    using entries_Some [of s _ h ht] by (force simp: symtab_entries_def)
  finally show ?thesis .
qed

lemma stored_text_cstr: "ht_inv rv E ht h \<Longrightarrow> (s, x) \<in> symtab_entries (ht_abs h ht) \<Longrightarrow> cstr s"
  using stored_cstr ht_invD(2) by blast

lemma key_cstr: "str_key h k \<Longrightarrow> cstr (text_of h k)"
  by (auto simp: str_key_def text_of_def)

lemma hashtab_find_none:
  assumes "ht_inv rv E ht h" and "str_key h k" and "ht_map h ht (text_of h k) = None"
  shows "cql_hashtab_find ht k h = Some None"
    and "\<forall>(s, x) \<in> symtab_entries (ht_abs h ht). strcmp s (text_of h k) \<noteq> 0"
proof -
  note d = ht_invD [OF assms(1)]
  show fresh: "\<forall>(s, x) \<in> symtab_entries (ht_abs h ht). strcmp s (text_of h k) \<noteq> 0"
  proof (clarify)
    fix s x assume e: "(s, x) \<in> symtab_entries (ht_abs h ht)" "strcmp s (text_of h k) = 0"
    then have "s = text_of h k" using strcmp_eq_0 stored_text_cstr [OF assms(1)] key_cstr [OF assms(2)] by blast
    moreover obtain k' v' where "x = Some (k', v')" using entries_Some [OF e(1)] by blast
    ultimately have "ht_map h ht (text_of h k) = Some v'" using e(1) by (intro ht_map_iff [OF assms(1), THEN iffD2]) blast
    then show False using assms(3) by simp
  qed
  obtain j where "symtab_probe (ht_abs h ht) (text_of h k) = Some j" "j < length (ht_payload ht)" "sym (payload (ht_abs h ht) ! j) = None"
    using fresh_slot [OF d(2) key_cstr [OF assms(2)]] fresh by (auto simp: ht_abs_def)
  then show "cql_hashtab_find ht k h = Some None"
    using slot_is_probe [OF d(1,3) assms(2) d(5)] by (simp add: cql_hashtab_find_def ht_abs_def abs_entry_def split: if_splits)
qed

lemma hashtab_find_some:
  assumes "ht_inv rv E ht h" and "str_key h k" and "ht_map h ht (text_of h k) = Some v"
  shows "\<exists>i. cql_hashtab_find ht k h = Some (Some i) \<and> i < length (ht_payload ht) \<and> entry_key (ht_payload ht ! i) \<noteq> 0 \<and>
    entry_val (ht_payload ht ! i) = v \<and> text_of h (entry_key (ht_payload ht ! i)) = text_of h k"
proof -
  note d = ht_invD [OF assms(1)]
  obtain j where j: "j < length (payload (ht_abs h ht))" "symtab_probe (ht_abs h ht) (text_of h k) = Some j"
    using symtab_probe_ends [OF d(2)] by blast
  obtain k' where "(text_of h k, Some (k', v)) \<in> symtab_entries (ht_abs h ht)" using ht_map_iff [OF assms(1)] assms(3) by blast
  moreover have "strcmp (text_of h k) (text_of h k) = 0" using strcmp_eq_0 key_cstr [OF assms(2)] by blast
  ultimately have look: "symtab_lookup (ht_abs h ht) (text_of h k) = Some (Some (k', v))"
    using symtab_lookup_iff [OF d(2) key_cstr [OF assms(2)]] by (auto simp: ht_abs_def)
  have jl: "j < length (ht_payload ht)" using j(1) by (simp add: ht_abs_def)
  have e: "entry_key (ht_payload ht ! j) \<noteq> 0" "entry_key (ht_payload ht ! j) = k'" "entry_val (ht_payload ht ! j) = v"
    using look j(2) jl by (auto simp: symtab_lookup_def symtab_find_def ht_abs_def abs_entry_def empty_entry_def split: if_splits)
  have stored: "symtab_keys (ht_abs h ht) ! j = Some (text_of h (entry_key (ht_payload ht ! j)))"
    using jl e(1) by (simp add: symtab_keys_def ht_abs_def abs_entry_def)
  have "text_of h (entry_key (ht_payload ht ! j)) = text_of h k"
  proof -
    have "hashed_keys.seek ht_hash (\<lambda>a b. strcmp a b = 0) (symtab_keys (ht_abs h ht)) (text_of h k) = Some j"
      using probe_is_seek [OF symtab_invD(1,2) [OF d(2)], of "text_of h k"] j(2) by (simp add: ht_abs_def)
    then have "strcmp (text_of h (entry_key (ht_payload ht ! j))) (text_of h k) = 0"
      using string_keys.seek_stored [OF _ _ stored key_cstr [OF assms(2)]] symtab_invD(4) [OF d(2)] j(1) by (simp add: ht_abs_def)
    moreover have "cstr (text_of h (entry_key (ht_payload ht ! j)))"
      using d(3) jl e(1) key_cstr by (simp add: list_all_length entry_ok_def)
    ultimately show ?thesis using strcmp_eq_0 key_cstr [OF assms(2)] by blast
  qed
  then show ?thesis
    using slot_is_probe [OF d(1,3) assms(2) d(5)] j(2) jl e by (simp add: cql_hashtab_find_def)
qed

end
