(* ===== verification/Hashtab_Props.thy ===== *)
theory Hashtab_Props
  imports Hashtab_Correct
begin

text \<open>
  Facets and dictionaries as maps from texts to values, with balanced references: every operation on a
  table returns, and its references are exactly those of its entries until it is finalized.
\<close>

section \<open>Adding to the table\<close>

lemma refs_at_least: "length (live (map (abs_entry h) es)) \<le> size (slots_refs rv es)"
  by (induction es) (auto simp: abs_entry_def empty_entry_def entry_refs_def)

lemma count_refs: "ht_inv rv E ht h \<Longrightarrow> unat (ht_count ht) \<le> size (table_refs rv ht)"
  using ht_invD(2) [of rv E ht h] refs_at_least [of h "ht_payload ht" rv]
  by (simp add: symtab_inv_def symtab_keys_def ht_abs_def length_live)

lemma empty_slots [simp]:
  "slots_refs rv (replicate n \<lparr>entry_key = 0, entry_val = 0\<rparr>) = {#}"
  "list_all (entry_ok rv h) (replicate n \<lparr>entry_key = 0, entry_val = 0\<rparr>)"
  by (induction n) (simp_all add: entry_refs_def entry_ok_def)

lemma abs_cfg [simp]: "symtab_cfg (ht_abs h ht)"
  by (simp add: symtab_cfg_def ht_abs_def string_keys.hashed_keys_axioms)

text \<open>A table of empty slots, as \<open>cql_hashtab_new\<close> and \<open>cql_hashtab_rehash\<close> make it.\<close>

lemma empty_inv:
  assumes "str_table rv ht" and "ht_count ht = 0" and "4 \<le> unat (ht_capacity ht)" and "counted h E"
  shows "ht_inv rv E (cql_hashtab_set_payload ht) h" and "symtab_entries (ht_abs h (cql_hashtab_set_payload ht)) = {}"
proof -
  let ?t = "ht_abs h (cql_hashtab_set_payload ht)"
  have p: "payload ?t = replicate (unat (capacity ?t)) empty_entry" "count ?t = 0" "4 \<le> unat (capacity ?t)"
    using assms(2,3) by (simp_all add: ht_abs_def cql_hashtab_set_payload_def abs_entry_def)
  from empty_table_inv [OF abs_cfg p]
  show "ht_inv rv E (cql_hashtab_set_payload ht) h" "symtab_entries ?t = {}"
    using assms by (simp_all add: ht_inv_def) (simp_all add: cql_hashtab_set_payload_def str_table_def)
qed

lemma str_table_update [simp]: "str_table rv (ht\<lparr>ht_count := a, ht_capacity := b\<rparr>) = str_table rv ht"
  by (simp add: str_table_def)

text \<open>
  A rehash keeps the entries of an overfull table and its references; the additions that it makes do
  not rehash again.
\<close>

lemma rehash_moves:
  assumes "str_table rv ht" and "counted h (E + table_refs rv ht)" and "list_all (entry_ok rv h) (ht_payload ht)"
    and "sorted_wrt (\<lambda>e f. \<forall>x y. sym e = Some x \<longrightarrow> sym f = Some y \<longrightarrow> strcmp x y \<noteq> 0) (map (abs_entry h) (ht_payload ht))"
    and "4 \<le> unat (ht_capacity ht)" and "2 * unat (ht_capacity ht) < 2 ^ 32"
    and "4 * length (live (map (abs_entry h) (ht_payload ht))) \<le> 6 * unat (ht_capacity ht)"
    and "size (E + table_refs rv ht) + 2 < 2 ^ 31"
  shows "\<exists>ht' h'. cql_hashtab_rehash (Suc d) ht h = Some (ht', h') \<and> ht_inv rv E ht' h' \<and>
    symtab_entries (ht_abs h' ht') = set (live (map (abs_entry h) (ht_payload ht))) \<and>
    (\<forall>a \<in># E. data_at h' a = data_at h a) \<and> table_refs rv ht' = table_refs rv ht"
proof -
  let ?e = "cql_hashtab_set_payload (ht\<lparr>ht_count := 0, ht_capacity := ht_capacity ht * 2\<rparr>)"
  have cap: "unat (ht_capacity ht * 2) = 2 * unat (ht_capacity ht)" using assms(6) by (simp add: unat_word_ariths)
  have ei: "ht_inv rv (E + table_refs rv ht) ?e h" "symtab_entries (ht_abs h ?e) = {}"
    by (rule empty_inv; use assms(1,2,5) cap in simp)+
  have fields: "ht_count ?e = 0" "unat (ht_capacity ?e) = 2 * unat (ht_capacity ht)" "table_refs rv ?e = {#}"
    using cap by (simp_all add: cql_hashtab_set_payload_def)
  have fresh: "\<forall>(s, x) \<in> set (live (map (abs_entry h) (ht_payload ht))). \<forall>(s', x') \<in> symtab_entries (ht_abs h ?e). strcmp s' s \<noteq> 0"
    unfolding ei(2) by simp
  have room: "4 * (unat (ht_count ?e) + length (live (map (abs_entry h) (ht_payload ht)))) \<le> 3 * unat (ht_capacity ?e)"
    unfolding fields using assms(7) by simp
  have size: "size (E + table_refs rv ht + table_refs rv ?e) + 2 < 2 ^ 31" unfolding fields using assms(8) by simp
  from readd [OF ei(1) assms(3) fresh assms(4) room size, of "cql_hashtab_rehash d"]
  show ?thesis unfolding ei(2) fields by auto
qed

lemma add_rehash:
  assumes "ht_inv rv E ht h" and "str_key h k" and "k \<in># E" and "rv \<longrightarrow> v \<in># E" and "size (E + table_refs rv ht) < 2 ^ 30"
    and "\<forall>(s, x) \<in> symtab_entries (ht_abs h ht). strcmp s (text_of h k) \<noteq> 0"
    and "\<not> 4 * (unat (ht_count ht) + 1) \<le> 3 * unat (ht_capacity ht)"
  shows "\<exists>ht' h'. cql_hashtab_add ht k v h = Some (True, ht', h') \<and> ht_inv rv E ht' h' \<and>
    symtab_entries (ht_abs h' ht') = insert (text_of h k, Some (k, v)) (symtab_entries (ht_abs h ht)) \<and>
    (\<forall>a \<in># E. data_at h' a = data_at h a) \<and> table_refs rv ht' = table_refs rv ht + entry_refs rv (new_entry k v)"
proof -
  note d = ht_invD [OF assms(1)]
  have size: "size (E + table_refs rv ht) + 2 < 2 ^ 31" using assms(5) by simp
  obtain j h1 h2 where j: "j < length (ht_payload ht)" "hashtab_slot ht k h = Some j" "entry_key (ht_payload ht ! j) = 0"
    "retain_key ht k h = Some h1" "retain_val ht v h1 = Some h2" "\<forall>a. data_at h2 a = data_at h a"
    "counted h2 (E + table_refs rv (put ht j k v))" "list_all (entry_ok rv h2) (ht_payload (put ht j k v))"
    "symtab_probe (ht_abs h ht) (text_of h k) = Some j" "sym (payload (ht_abs h ht) ! j) = None"
    "ht_abs h2 (put ht j k v) = put_entry (ht_abs h ht) j (text_of h k) (Some (k, v))"
    using add_slot [OF assms(1-4) size assms(6)] by blast
  have jl: "j < length (payload (ht_abs h ht))" using j(1) by (simp add: ht_abs_def)
  let ?p = "put ht j k v"
  have pay: "map (abs_entry h2) (ht_payload ?p) = payload (put_entry (ht_abs h ht) j (text_of h k) (Some (k, v)))"
    unfolding j(11) [symmetric] by (simp add: ht_abs_def)
  note cnt = count_after_put [OF d(2) jl j(10), of "text_of h k" "Some (k, v)"]
  have count: "unat (ht_count ht + 1) = unat (ht_count ht) + 1" using cnt(1) by (simp add: ht_abs_def put_entry_def)
  have refs: "table_refs rv ?p = table_refs rv ht + entry_refs rv (new_entry k v)"
    using slots_refs_update [OF j(1), of rv "new_entry k v"] empty_slot [OF j(3), of rv] by simp
  have live: "set (live (map (abs_entry h2) (ht_payload ?p))) = insert (text_of h k, Some (k, v)) (symtab_entries (ht_abs h ht))"
    unfolding pay using live_update [OF jl j(10)] by (simp add: symtab_entries_def put_entry_def)
  have len: "length (live (map (abs_entry h2) (ht_payload ?p))) = unat (ht_count ht) + 1"
    unfolding pay using cnt by (simp add: length_live symtab_keys_def) (simp add: ht_abs_def)
  have cap: "4 \<le> unat (ht_capacity ht)" "4 * unat (ht_count ht) \<le> 3 * unat (ht_capacity ht)" "unat (ht_count ht) < 2 ^ 30"
    using symtab_invD(3,6) [OF d(2)] count_refs [OF assms(1)] assms(5) by (simp_all add: ht_abs_def)
  have "\<exists>ht' h'. cql_hashtab_rehash (Suc 0) ?p h2 = Some (ht', h') \<and> ht_inv rv E ht' h' \<and>
    symtab_entries (ht_abs h' ht') = set (live (map (abs_entry h2) (ht_payload ?p))) \<and>
    (\<forall>a \<in># E. data_at h' a = data_at h2 a) \<and> table_refs rv ht' = table_refs rv ?p"
  proof (rule rehash_moves [OF _ j(7,8)])
    show "sorted_wrt (\<lambda>e f. \<forall>x y. sym e = Some x \<longrightarrow> sym f = Some y \<longrightarrow> strcmp x y \<noteq> 0) (map (abs_entry h2) (ht_payload ?p))"
      unfolding pay using put_entry_distinct [OF d(2) key_cstr [OF assms(2)] jl j(10), of "Some (k, v)"] assms(6) by (simp add: ht_abs_def)
    show "size (E + table_refs rv ?p) + 2 < 2 ^ 31" unfolding refs using assms(5) by (cases rv) (simp_all add: entry_refs_def)
  qed (use d(1) cap assms(7) len in simp_all)
  then obtain ht' h' where r: "cql_hashtab_rehash (Suc 0) ?p h2 = Some (ht', h')" "ht_inv rv E ht' h'"
    "symtab_entries (ht_abs h' ht') = set (live (map (abs_entry h2) (ht_payload ?p)))" "\<forall>a \<in># E. data_at h' a = data_at h2 a"
    "table_refs rv ht' = table_refs rv ?p" by blast
  have "over_hashtab_load (ht_count ht + 1) (ht_capacity ht)" using assms(7) count by (simp add: over_hashtab_load_def)
  then have "cql_hashtab_add ht k v h = Some (True, ht', h')"
    using j(2-5) r(1) by (simp add: cql_hashtab_add_def cql_hashtab_add_with_def put_def new_entry_def Let_def del: cql_hashtab_rehash.simps)
  then show ?thesis using r(2-5) j(6) live refs by auto
qed

text \<open>The contract of \<open>cql_hashtab_add\<close>.\<close>

lemma hashtab_add:
  assumes "ht_inv rv E ht h" and "str_key h k" and "k \<in># E" and "rv \<longrightarrow> v \<in># E" and "size (E + table_refs rv ht) < 2 ^ 30"
  shows "\<exists>ht' h'. cql_hashtab_add ht k v h = Some (ht_map h ht (text_of h k) = None, ht', h') \<and> ht_inv rv E ht' h' \<and>
    ht_map h' ht' = (if ht_map h ht (text_of h k) = None then (ht_map h ht)(text_of h k \<mapsto> v) else ht_map h ht) \<and>
    (\<forall>a \<in># E. data_at h' a = data_at h a) \<and>
    table_refs rv ht' = table_refs rv ht + (if ht_map h ht (text_of h k) = None then entry_refs rv (new_entry k v) else {#})"
proof (cases "ht_map h ht (text_of h k)")
  case None
  note fresh = hashtab_find_none(2) [OF assms(1,2) None]
  have size: "size (E + table_refs rv ht) + 2 < 2 ^ 31" using assms(5) by simp
  obtain ht' h' where r: "cql_hashtab_add ht k v h = Some (True, ht', h')" "ht_inv rv E ht' h'"
    "symtab_entries (ht_abs h' ht') = insert (text_of h k, Some (k, v)) (symtab_entries (ht_abs h ht))"
    "\<forall>a \<in># E. data_at h' a = data_at h a" "table_refs rv ht' = table_refs rv ht + entry_refs rv (new_entry k v)"
    using add_low [OF assms(1-4) size fresh, of "cql_hashtab_rehash 1"] add_rehash [OF assms fresh]
    unfolding cql_hashtab_add_def by blast
  have "ht_map h' ht' s = Some w \<longleftrightarrow> ((ht_map h ht)(text_of h k \<mapsto> v)) s = Some w" for s w
    using ht_map_iff [OF r(2), of s w] ht_map_iff [OF assms(1), of s w] None unfolding r(3) by auto
  then have "ht_map h' ht' = (ht_map h ht)(text_of h k \<mapsto> v)" by (intro ext option_eqI)
  then show ?thesis using r None by simp
next
  case (Some w)
  obtain i where "cql_hashtab_find ht k h = Some (Some i)" "i < length (ht_payload ht)" "entry_key (ht_payload ht ! i) \<noteq> 0"
    using hashtab_find_some [OF assms(1,2) Some] by blast
  then have "cql_hashtab_add ht k v h = Some (False, ht, h)"
    by (cases "hashtab_slot ht k h") (auto simp: cql_hashtab_find_def cql_hashtab_add_def cql_hashtab_add_with_def split: if_splits)
  then show ?thesis using assms(1) Some by simp
qed

section \<open>Writing a value in place\<close>

lemma abs_nth:
  assumes "n < length (ht_payload ht)"
  shows "sym (payload (ht_abs h ht) ! n) = Some s \<longleftrightarrow> entry_key (ht_payload ht ! n) \<noteq> 0 \<and> text_of h (entry_key (ht_payload ht ! n)) = s"
    and "val (payload (ht_abs h ht) ! n) = Some (k, v) \<longleftrightarrow>
      entry_key (ht_payload ht ! n) \<noteq> 0 \<and> entry_key (ht_payload ht ! n) = k \<and> entry_val (ht_payload ht ! n) = v"
  using assms by (auto simp: ht_abs_def abs_entry_def empty_entry_def)

lemma length_abs [simp]: "length (payload (ht_abs h ht)) = length (ht_payload ht)"
  by (simp add: ht_abs_def)

lemma ht_map_nth:
  assumes "ht_inv rv E ht h"
  shows "ht_map h ht s = Some v \<longleftrightarrow> (\<exists>n < length (ht_payload ht). entry_key (ht_payload ht ! n) \<noteq> 0 \<and>
    text_of h (entry_key (ht_payload ht ! n)) = s \<and> entry_val (ht_payload ht ! n) = v)"
  unfolding ht_map_iff [OF assms] symtab_entries_def live_iff length_abs
  by (auto simp: abs_nth cong: conj_cong)

lemma same_text_same_slot:
  assumes "ht_inv rv E ht h" and "m < length (ht_payload ht)" and "n < length (ht_payload ht)"
    and "entry_key (ht_payload ht ! m) \<noteq> 0" and "entry_key (ht_payload ht ! n) \<noteq> 0"
    and "text_of h (entry_key (ht_payload ht ! m)) = text_of h (entry_key (ht_payload ht ! n))"
  shows "m = n"
proof (rule ccontr)
  let ?s = "text_of h (entry_key (ht_payload ht ! n))"
  note apart = names_distinct [OF ht_invD(2) [OF assms(1)], unfolded sorted_wrt_iff_nth_less length_abs]
  have "sym (payload (ht_abs h ht) ! m) = Some ?s" "sym (payload (ht_abs h ht) ! n) = Some ?s" using assms(2-6) by (simp_all add: abs_nth)
  moreover assume "m \<noteq> n"
  ultimately show False using apart assms(2,3) nat_neq_iff by metis
qed

lemma symtab_inv_keys:
  assumes "symtab_keys t = symtab_keys s" and "count t = count s" and "capacity t = capacity s" and "hash t = hash s" and "cmp t = cmp s"
  shows "symtab_inv t = symtab_inv s"
proof -
  have "length (payload t) = length (payload s)" using arg_cong [OF assms(1), of length] by simp
  then show ?thesis unfolding symtab_inv_def symtab_cfg_def using assms by simp
qed

lemma set_entry_val_fields [simp]:
  "ht_count (set_entry_val ht i v) = ht_count ht" "ht_capacity (set_entry_val ht i v) = ht_capacity ht"
  "ht_payload (set_entry_val ht i v) = (ht_payload ht)[i := new_entry (entry_key (ht_payload ht ! i)) v]"
  "str_table rv (set_entry_val ht i v) = str_table rv ht"
  by (cases "ht_payload ht ! i"; simp add: set_entry_val_def new_entry_def str_table_def)+

text \<open>The new value may replace a reference, which \<open>h'\<close> must account for.\<close>

lemma set_entry_val_inv:
  assumes "ht_inv rv E ht h" and "i < length (ht_payload ht)" and "entry_key (ht_payload ht ! i) \<noteq> 0" and "rv \<longrightarrow> v \<noteq> 0"
    and "counted h' (E + table_refs rv (set_entry_val ht i v))"
    and "\<And>a. a \<in># table_refs rv (set_entry_val ht i v) \<Longrightarrow> data_at h' a = data_at h a"
  shows "ht_inv rv E (set_entry_val ht i v) h'"
    and "ht_map h' (set_entry_val ht i v) = (ht_map h ht)(text_of h (entry_key (ht_payload ht ! i)) \<mapsto> v)"
proof -
  let ?t = "set_entry_val ht i v"
  note d = ht_invD [OF assms(1)]
  have same: "ht_abs h' ?t = ht_abs h ?t" by (rule abs_heap [OF assms(6)])
  have keys: "symtab_keys (ht_abs h ?t) = symtab_keys (ht_abs h ht)"
    using assms(2,3) by (intro nth_equalityI) (auto simp: symtab_keys_def ht_abs_def abs_entry_def nth_list_update)
  have ok: "list_all (entry_ok rv h) (ht_payload ?t)"
    using d(3) assms(2-4) by (auto simp: list_all_length nth_list_update entry_ok_def)
  have inv: "symtab_inv (ht_abs h' ?t)"
    using d(2) symtab_inv_keys [OF keys] unfolding same by (simp add: ht_abs_def)
  then show i': "ht_inv rv E ?t h'" using d(1) assms(5) abs_entries_heap(2) [OF assms(6) ok] by (simp add: ht_inv_def)
  have same_text: "text_of h' (entry_key (ht_payload ht ! n)) = text_of h (entry_key (ht_payload ht ! n))"
    if n: "n < length (ht_payload ht)" "entry_key (ht_payload ht ! n) \<noteq> 0" for n
  proof -
    let ?e = "ht_payload ?t ! n"
    have "entry_key ?e = entry_key (ht_payload ht ! n)" "?e \<in> set (ht_payload ?t)"
      using n(1) nth_mem [of n "ht_payload ?t"] by (cases "n = i"; simp)+
    then have "entry_key (ht_payload ht ! n) \<in># table_refs rv ?t" using key_in_refs [of ?e "ht_payload ?t" rv] n(2) by simp
    then show ?thesis using string_at_data [OF assms(6)] by (simp add: text_of_def)
  qed
  have "ht_map h' ?t s = Some w \<longleftrightarrow> ((ht_map h ht)(text_of h (entry_key (ht_payload ht ! i)) \<mapsto> v)) s = Some w" for s w
    using ht_map_nth [OF i', of s w] ht_map_nth [OF assms(1), of s w] assms(2,3) same_text same_text_same_slot [OF assms(1) assms(2) _ assms(3)]
    by (auto simp: nth_list_update split: if_splits)
  then show "ht_map h' ?t = (ht_map h ht)(text_of h (entry_key (ht_payload ht ! i)) \<mapsto> v)" by (intro ext option_eqI)
qed

section \<open>Dictionaries\<close>

text \<open>The contract of an addition, which all dictionaries and the facets share.\<close>

definition adds_to :: "bool \<Rightarrow> i64 multiset \<Rightarrow> cql_heap cql_hashtab \<Rightarrow> cql_heap \<Rightarrow> i64 \<Rightarrow> i64 \<Rightarrow> (bool \<times> cql_heap cql_hashtab \<times> cql_heap) option \<Rightarrow> bool" where
  "adds_to rv E ht h k v r \<longleftrightarrow> (\<exists>ht' h'. r = Some (ht_map h ht (text_of h k) = None, ht', h') \<and> ht_inv rv E ht' h' \<and>
     ht_map h' ht' = (ht_map h ht)(text_of h k \<mapsto> v) \<and> (\<forall>a \<in># E. data_at h' a = data_at h a) \<and>
     size (table_refs rv ht') \<le> size (table_refs rv ht) + 2)"

lemma fresh_adds:
  assumes "ht_inv rv E ht h" and "str_key h k" and "k \<in># E" and "rv \<longrightarrow> v \<in># E" and "size (E + table_refs rv ht) < 2 ^ 30"
    and "ht_map h ht (text_of h k) = None"
  shows "adds_to rv E ht h k v (cql_hashtab_add ht k v h)"
proof -
  have "size (entry_refs rv (new_entry k v)) \<le> 2" by (simp add: entry_refs_def)
  then show ?thesis using hashtab_add [OF assms(1-5)] assms(6) by (auto simp: adds_to_def)
qed

lemma set_adds:
  assumes "ht_inv False E ht h" and "i < length (ht_payload ht)" and "entry_key (ht_payload ht ! i) \<noteq> 0"
    and "ht_map h ht (text_of h k) = Some w" and "text_of h (entry_key (ht_payload ht ! i)) = text_of h k"
  shows "adds_to False E ht h k v (Some (False, set_entry_val ht i v, h))"
proof -
  have "entry_refs False (new_entry (entry_key (ht_payload ht ! i)) v) = entry_refs False (ht_payload ht ! i)"
    by (simp add: entry_refs_def)
  then have refs: "table_refs False (set_entry_val ht i v) = table_refs False ht"
    using slots_refs_update [OF assms(2), of False "new_entry (entry_key (ht_payload ht ! i)) v"] by simp
  show ?thesis
    using set_entry_val_inv [OF assms(1-3), of v h] ht_invD(4) [OF assms(1)] assms(4,5) refs by (auto simp: adds_to_def)
qed

text \<open>Replacing a reference: the new value is retained before the old one is released.\<close>

lemma replace_adds:
  assumes "ht_inv True E ht h" and "i < length (ht_payload ht)" and "entry_key (ht_payload ht ! i) \<noteq> 0" and "v \<in># E"
    and "ht_map h ht (text_of h k) = Some w" and "text_of h (entry_key (ht_payload ht ! i)) = text_of h k"
    and "size (E + table_refs True ht) < 2 ^ 30"
  shows "adds_to True E ht h k v
    (do { h \<leftarrow> cql_retain v h; h \<leftarrow> cql_release (entry_val (ht_payload ht ! i)) h; Some (False, set_entry_val ht i v, h) })"
proof -
  let ?t = "set_entry_val ht i v" and ?k = "entry_key (ht_payload ht ! i)" and ?old = "entry_val (ht_payload ht ! i)"
  note c = ht_invD(4) [OF assms(1)]
  have v: "v \<noteq> 0" using c assms(4) by (auto simp: counted_def)
  have "entry_refs True (new_entry ?k v) = {#?k, v#}" "entry_refs True (ht_payload ht ! i) = {#?k, ?old#}"
    using assms(3) by (simp_all add: entry_refs_def)
  then have refs: "add_mset ?old (table_refs True ?t) = add_mset v (table_refs True ht)"
    using slots_refs_update [OF assms(2), of True "new_entry ?k v"] by simp
  obtain h1 where h1: "cql_retain v h = Some h1" "counted h1 (add_mset v (E + table_refs True ht))" "\<forall>b. data_at h1 b = data_at h b"
    using retain_counted [OF c, of v] assms(4,7) by auto
  have c1: "counted h1 (add_mset ?old (E + table_refs True ?t))" using h1(2) refs by (metis union_mset_add_mset_right)
  obtain h2 where h2: "cql_release ?old h1 = Some h2" "counted h2 (E + table_refs True ?t)"
    "\<forall>b. b \<in># E + table_refs True ?t \<longrightarrow> data_at h2 b = data_at h1 b"
    using release_counted [OF c1, of ?old] by auto
  have "size (table_refs True ?t) = size (table_refs True ht)" using arg_cong [OF refs, of size] by simp
  then show ?thesis
    using set_entry_val_inv [OF assms(1-3) _ h2(2)] v h1 h2 assms(5,6) by (auto simp: adds_to_def)
qed

lemma string_dictionary_add_ok:
  assumes "ht_inv True E ht h" and "str_key h k" and "k \<in># E" and "v \<in># E" and "size (E + table_refs True ht) < 2 ^ 30"
  shows "adds_to True E ht h k v (cql_string_dictionary_add ht k v h)"
proof -
  have nz: "k \<noteq> 0" "v \<noteq> 0" using ht_invD(4) [OF assms(1)] assms(3,4) by (auto simp: counted_def)
  show ?thesis
  proof (cases "ht_map h ht (text_of h k)")
    case None
    then show ?thesis
      using fresh_adds [OF assms(1-3) _ assms(5) None] hashtab_find_none(1) [OF assms(1,2) None] assms(4) nz
      by (simp add: cql_string_dictionary_add_def bind_require)
  next
    case (Some w)
    obtain i where i: "cql_hashtab_find ht k h = Some (Some i)" "i < length (ht_payload ht)" "entry_key (ht_payload ht ! i) \<noteq> 0"
      "text_of h (entry_key (ht_payload ht ! i)) = text_of h k"
      using hashtab_find_some [OF assms(1,2) Some] by blast
    show ?thesis
      using replace_adds [OF assms(1) i(2,3) assms(4) Some i(4) assms(5)] nz
      by (simp only: cql_string_dictionary_add_def bind_require i(1) bind.bind_lunit option.case simp_thms if_True)
  qed
qed

lemma long_dictionary_add_ok:
  assumes "ht_inv False E ht h" and "str_key h k" and "k \<in># E" and "size (E + table_refs False ht) < 2 ^ 30"
  shows "adds_to False E ht h k v (cql_long_dictionary_add ht k v h)"
proof (cases "ht_map h ht (text_of h k)")
  case None
  then show ?thesis
    using fresh_adds [OF assms(1-3) _ assms(4) None, of v] hashtab_find_none(1) [OF assms(1,2) None] assms(2)
    by (simp add: cql_long_dictionary_add_def bind_require str_key_def)
next
  case (Some w)
  then show ?thesis
    using hashtab_find_some [OF assms(1,2) Some] set_adds [OF assms(1)] assms(2)
    by (auto simp: cql_long_dictionary_add_def bind_require str_key_def)
qed

text \<open>A lookup reads the map.\<close>

lemma find_reads:
  assumes "ht_inv rv E ht h" and "str_key h k"
  shows "\<exists>e. cql_hashtab_find ht k h = Some e \<and> map_option (\<lambda>i. entry_val (ht_payload ht ! i)) e = ht_map h ht (text_of h k)"
  using hashtab_find_none(1) [OF assms] hashtab_find_some [OF assms] by (cases "ht_map h ht (text_of h k)") auto

lemma string_dictionary_find_ok:
  assumes "ht_inv True E ht h" and "str_key h k"
  shows "cql_string_dictionary_find ht k h = Some (case ht_map h ht (text_of h k) of Some v \<Rightarrow> v | None \<Rightarrow> 0)"
  using find_reads [OF assms] assms(2) by (auto simp: cql_string_dictionary_find_def str_key_def split: option.splits)

lemma long_dictionary_find_ok:
  assumes "ht_inv False E ht h" and "str_key h k"
  shows "cql_long_dictionary_find ht k h = Some (ht_map h ht (text_of h k))"
  using find_reads [OF assms] assms(2) by (auto simp: cql_long_dictionary_find_def str_key_def)

lemma real_dictionary_is_long:
  "cql_real_dictionary_add = cql_long_dictionary_add" "cql_real_dictionary_find = cql_long_dictionary_find"
  "cql_real_dictionary_create = cql_long_dictionary_create"
  by (simp_all add: fun_eq_iff cql_real_dictionary_add_def cql_long_dictionary_add_def cql_real_dictionary_find_def
      cql_long_dictionary_find_def cql_real_dictionary_create_def cql_long_dictionary_create_def)

lemma facet_find_ok:
  assumes "ht_inv False E ht h" and "str_key h k"
  shows "cql_facet_find (Some ht) k h = Some (case ht_map h ht (text_of h k) of Some v \<Rightarrow> v | None \<Rightarrow> - 1)"
  using find_reads [OF assms] by (auto simp: cql_facet_find_def split: option.splits)

lemma facet_upsert_is_add:
  assumes "k \<noteq> 0"
  shows "cql_facet_upsert (Some ht) k v h = map_option (\<lambda>(r, ht, h). (r, Some ht, h)) (cql_long_dictionary_add ht k v h)"
  using assms by (auto simp: cql_facet_upsert_def cql_long_dictionary_add_def bind_require map_option_bind split: option.splits Option.bind_splits)

section \<open>Deleting a table\<close>

lemma release_all:
  assumes "str_table rv ht" and "list_all (entry_ok rv h0) es" and "counted h (E + slots_refs rv es)"
  shows "\<exists>h'. hashtab_release_loop ht es h = Some h' \<and> counted h' E \<and> (\<forall>a \<in># E. data_at h' a = data_at h a)"
  using assms(2,3)
proof (induction es arbitrary: h)
  case (Cons e es)
  show ?case
  proof (cases "entry_key e = 0")
    case True
    then show ?thesis using Cons by (simp add: empty_slot entry_ok_def)
  next
    case False
    have "counted h (E + slots_refs rv es + entry_refs rv e)" using Cons.prems(2) by (simp add: ac_simps)
    from release_entry [OF this False assms(1)] obtain h1 h2
      where r: "release_key ht (entry_key e) h = Some h1" "release_val ht (entry_val e) h1 = Some h2" "counted h2 (E + slots_refs rv es)"
        "\<forall>a \<in># E + slots_refs rv es. data_at h2 a = data_at h a" by blast
    obtain h' where h': "hashtab_release_loop ht es h2 = Some h'" "counted h' E" "\<forall>a \<in># E. data_at h' a = data_at h2 a"
      using Cons.IH [OF _ r(3)] Cons.prems(1) by auto
    have "entry_val e = 0 \<Longrightarrow> h2 = h1"
      using r(2) Cons.prems(1) assms(1) False by (auto simp: entry_ok_def str_table_def cql_no_op_retain_release_def split: if_splits)
    then show ?thesis using r h' False by (cases "entry_val e = 0") auto
  qed
qed simp

lemma hashtab_delete:
  assumes "ht_inv rv E ht h"
  shows "\<exists>h'. cql_hashtab_delete ht h = Some h' \<and> counted h' E \<and> (\<forall>a \<in># E. data_at h' a = data_at h a)"
  using release_all [OF ht_invD(1,3,4) [OF assms]] by (simp add: cql_hashtab_delete_def)

text \<open>A heap is determined by its references and the data behind them.\<close>

lemma counted_same:
  assumes "counted h R" and "counted h' R" and "\<forall>a \<in># R. data_at h' a = data_at h a"
  shows "h' = h"
proof -
  have "objs h' a = objs h a" for a
  proof (cases "a \<in># R")
    case True
    obtain x y where xy: "objs h a = Some x" "objs h' a = Some y" using counted_live [OF _ True] assms(1,2) by blast
    moreover have "ref_count y = ref_count x" using assms(1,2) xy by (simp add: counted_def)
    moreover have "data y = data x" using bspec [OF assms(3) True] xy by (simp add: data_at_def)
    ultimately show ?thesis by (cases x; cases y) simp
  next
    case False
    then show ?thesis using assms(1,2) unfolding counted_def by (metis domIff)
  qed
  then show ?thesis using assms(1,2) by (cases h; cases h') (simp add: counted_def fun_eq_iff)
qed

section \<open>Life of a dictionary\<close>

fun dict_add_all ::
  "('t \<Rightarrow> i64 \<Rightarrow> i64 \<Rightarrow> cql_heap \<Rightarrow> (bool \<times> 't \<times> cql_heap) option) \<Rightarrow> 't \<Rightarrow> (i64 \<times> i64) list \<Rightarrow> cql_heap \<Rightarrow> ('t \<times> cql_heap) option" where
  "dict_add_all add dict [] h = Some (dict, h)"
| "dict_add_all add dict ((k, v) # kvs) h = do { (added, dict, h) \<leftarrow> add dict k v h; dict_add_all add dict kvs h }"

text \<open>The last addition of a text counts.\<close>

definition last_value :: "cql_heap \<Rightarrow> (i64 \<times> i64) list \<Rightarrow> (cstring \<rightharpoonup> i64)" where
  "last_value h kvs = map_of (rev (map (\<lambda>(k, v). (text_of h k, v)) kvs))"

locale dictionary =
  fixes rv :: bool and create :: "cql_heap cql_hashtab"
    and add :: "cql_heap cql_hashtab \<Rightarrow> i64 \<Rightarrow> i64 \<Rightarrow> cql_heap \<Rightarrow> (bool \<times> cql_heap cql_hashtab \<times> cql_heap) option"
  assumes create_ok: "counted h E \<Longrightarrow> ht_inv rv E create h \<and> ht_map h create = Map.empty \<and> table_refs rv create = {#}"
    and add_ok: "ht_inv rv E ht h \<Longrightarrow> str_key h k \<Longrightarrow> k \<in># E \<Longrightarrow> rv \<longrightarrow> v \<in># E \<Longrightarrow> size (E + table_refs rv ht) < 2 ^ 30 \<Longrightarrow>
      adds_to rv E ht h k v (add ht k v h)"
begin

lemma add_all:
  assumes "ht_inv rv E ht h" and "\<forall>(k, v) \<in> set kvs. str_key h k \<and> k \<in># E \<and> (rv \<longrightarrow> v \<in># E)"
    and "size (E + table_refs rv ht) + 2 * length kvs \<le> 2 ^ 30"
  shows "\<exists>ht' h'. dict_add_all add ht kvs h = Some (ht', h') \<and> ht_inv rv E ht' h' \<and>
    ht_map h' ht' = ht_map h ht ++ last_value h kvs \<and> (\<forall>a \<in># E. data_at h' a = data_at h a)"
  using assms
proof (induction kvs arbitrary: ht h)
  case Nil
  then show ?case by (simp add: last_value_def)
next
  case (Cons kv kvs)
  obtain k v where kv: "kv = (k, v)" by force
  have "adds_to rv E ht h k v (add ht k v h)" using Cons.prems kv by (intro add_ok) auto
  then obtain added ht1 h1 where 1: "add ht k v h = Some (added, ht1, h1)" "ht_inv rv E ht1 h1"
    "ht_map h1 ht1 = (ht_map h ht)(text_of h k \<mapsto> v)" "\<forall>a \<in># E. data_at h1 a = data_at h a"
    "size (table_refs rv ht1) \<le> size (table_refs rv ht) + 2" unfolding adds_to_def by blast
  have st: "string_at h1 a = string_at h a" if "a \<in># E" for a using string_at_data 1(4) that by blast
  have keys: "\<forall>(k, v) \<in> set kvs. str_key h1 k \<and> k \<in># E \<and> (rv \<longrightarrow> v \<in># E)"
    using Cons.prems(2) st by (auto simp: str_key_def)
  have lv: "last_value h1 kvs = last_value h kvs"
  proof -
    have "map (\<lambda>(k, v). (text_of h1 k, v)) kvs = map (\<lambda>(k, v). (text_of h k, v)) kvs"
      using Cons.prems(2) st by (intro map_cong refl) (auto simp: text_of_def)
    then show ?thesis unfolding last_value_def by (simp only:)
  qed
  obtain ht' h' where "dict_add_all add ht1 kvs h1 = Some (ht', h')" "ht_inv rv E ht' h'"
    "ht_map h' ht' = ht_map h1 ht1 ++ last_value h1 kvs" "\<forall>a \<in># E. data_at h' a = data_at h1 a"
    using Cons.IH [OF 1(2) keys] Cons.prems(3) 1(5) by auto
  then show ?case using 1 kv lv by (simp add: last_value_def map_add_assoc)
qed

lemma life:
  assumes "counted h E" and "\<forall>(k, v) \<in> set kvs. str_key h k \<and> k \<in># E \<and> (rv \<longrightarrow> v \<in># E)" and "size E + 2 * length kvs \<le> 2 ^ 30"
  shows "\<exists>ht h'. dict_add_all add create kvs h = Some (ht, h') \<and> ht_inv rv E ht h' \<and> ht_map h' ht = last_value h kvs \<and>
    (\<forall>a \<in># E. data_at h' a = data_at h a) \<and> cql_hashtab_delete ht h' = Some h"
proof -
  note c = create_ok [OF assms(1)]
  obtain ht h' where a: "dict_add_all add create kvs h = Some (ht, h')" "ht_inv rv E ht h'" "ht_map h' ht = last_value h kvs"
    "\<forall>a \<in># E. data_at h' a = data_at h a"
    using add_all [of E create h kvs] c assms(2,3) by auto
  obtain h2 where d: "cql_hashtab_delete ht h' = Some h2" "counted h2 E" "\<forall>a \<in># E. data_at h2 a = data_at h' a"
    using hashtab_delete [OF a(2)] by blast
  have "h2 = h" using counted_same [OF assms(1) d(2)] d(3) a(4) by simp
  then show ?thesis using a d(1) by blast
qed

end

lemma new_table:
  assumes "counted h E"
  shows "ht_inv True E cql_string_dictionary_create h \<and> ht_map h cql_string_dictionary_create = Map.empty \<and>
      table_refs True cql_string_dictionary_create = {#}"
    and "ht_inv False E cql_long_dictionary_create h \<and> ht_map h cql_long_dictionary_create = Map.empty \<and>
      table_refs False cql_long_dictionary_create = {#}"
proof -
  have *: "ht_inv rv E (cql_hashtab_set_payload t) h \<and> ht_map h (cql_hashtab_set_payload t) = Map.empty \<and>
      table_refs rv (cql_hashtab_set_payload t) = {#}"
    if t: "str_table rv t" "ht_count t = 0" "ht_capacity t = 4" for rv and t :: "cql_heap cql_hashtab"
  proof -
    have cap: "4 \<le> unat (ht_capacity t)" using t(3) by simp
    note e = empty_inv [OF t(1,2) cap assms]
    have "ht_map h (cql_hashtab_set_payload t) s \<noteq> Some w" for s w using ht_map_iff [OF e(1), of s w] unfolding e(2) by simp
    then have "ht_map h (cql_hashtab_set_payload t) = Map.empty" by (intro ext) (metis not_Some_eq)
    then show ?thesis using e(1) by (simp add: cql_hashtab_set_payload_def)
  qed
  show "ht_inv True E cql_string_dictionary_create h \<and> ht_map h cql_string_dictionary_create = Map.empty \<and>
      table_refs True cql_string_dictionary_create = {#}"
    "ht_inv False E cql_long_dictionary_create h \<and> ht_map h cql_long_dictionary_create = Map.empty \<and>
      table_refs False cql_long_dictionary_create = {#}"
    unfolding cql_string_dictionary_create_def cql_long_dictionary_create_def cql_hashtab_new_def
    by (rule *; simp add: str_table_def HASHTAB_INIT_SIZE_def)+
qed

interpretation string_dict: dictionary True cql_string_dictionary_create cql_string_dictionary_add
  using new_table(1) string_dictionary_add_ok by unfold_locales blast+

interpretation long_dict: dictionary False cql_long_dictionary_create cql_long_dictionary_add
  using new_table(2) long_dictionary_add_ok by unfold_locales blast+

section \<open>Properties\<close>

text \<open>
  C10. A string dictionary implements a map from texts to references.  \<open>cql_string_dictionary_add\<close>
  returns, also when it grows the table; it maps the text of the key to the new value, which replaces
  an earlier one, reports true when the text was new, and keeps the invariant: the counts of all
  objects stay equal to the number of references that exist, so that nothing that the table holds is
  freed early and nothing that it drops is leaked.  A lookup through any string with the same text
  returns the new value.
\<close>

theorem string_dictionary_add_find:
  assumes "ht_inv True E dict h" and "str_key h key" and "key \<in># E" and "v \<in># E" and "size (E + table_refs True dict) < 2 ^ 30"
  shows "\<exists>dict' h'. cql_string_dictionary_add dict key v h = Some (ht_map h dict (text_of h key) = None, dict', h') \<and>
    ht_inv True E dict' h' \<and> ht_map h' dict' = (ht_map h dict)(text_of h key \<mapsto> v) \<and>
    (\<forall>a. str_key h' a \<longrightarrow> cql_string_dictionary_find dict' a h' =
       Some (case ht_map h' dict' (text_of h' a) of Some w \<Rightarrow> w | None \<Rightarrow> 0))"
  using string_dictionary_add_ok [OF assms] string_dictionary_find_ok unfolding adds_to_def by blast

definition hello_heap :: cql_heap where
  "hello_heap = cql_string_ref_new 48 ''hi'' (cql_string_ref_new 32 ''yo'' (cql_string_ref_new 16 ''hi'' \<lparr>objs = Map.empty, cql_outstanding_refs = 0\<rparr>))"

lemma hello_counted: "counted hello_heap {#16, 32, 48#}"
  by (auto simp: hello_heap_def cql_string_ref_new_def new_object_def counted_def)

lemma hello_texts:
  "str_key hello_heap 16" "str_key hello_heap 32" "str_key hello_heap 48"
  "text_of hello_heap 16 = ''hi''" "text_of hello_heap 32 = ''yo''" "text_of hello_heap 48 = ''hi''"
  by (simp_all add: str_key_def text_of_def string_at_def hello_heap_def cql_string_ref_new_def new_object_def cstr_def)

theorem string_dictionary_add_find_witness:
  "\<exists>dict' h'. cql_string_dictionary_add cql_string_dictionary_create 16 32 hello_heap = Some (True, dict', h') \<and>
     ht_map h' dict' ''hi'' = Some 32"
proof -
  let ?E = "{#16, 32, 48#} :: i64 multiset"
  note n = new_table(1) [OF hello_counted]
  have inv: "ht_inv True ?E cql_string_dictionary_create hello_heap" using n by blast
  have size: "size (?E + table_refs True cql_string_dictionary_create) < 2 ^ 30" using n by simp
  show ?thesis using string_dictionary_add_find [OF inv hello_texts(1) _ _ size, of 32] n hello_texts(4) by fastforce
qed

text \<open>
  C11. The life of a string dictionary is balanced.  From its creation through any additions to its
  finalizer every call returns; before the finalizer a lookup gives the value added last for the text
  of the key, and after it the heap is exactly the one before the creation: every count, every object
  and the number of outstanding references.
\<close>

theorem string_dictionary_life:
  assumes "counted h E" and "\<forall>(k, v) \<in> set kvs. str_key h k \<and> k \<in># E \<and> v \<in># E" and "size E + 2 * length kvs \<le> 2 ^ 30"
  shows "\<exists>dict h'. dict_add_all cql_string_dictionary_add cql_string_dictionary_create kvs h = Some (dict, h') \<and>
    (\<forall>a. a \<in># E \<longrightarrow> str_key h a \<longrightarrow>
       cql_string_dictionary_find dict a h' = Some (case last_value h kvs (text_of h a) of Some w \<Rightarrow> w | None \<Rightarrow> 0)) \<and>
    cql_string_dictionary_finalize dict h' = Some h"
proof -
  obtain dict h' where a: "dict_add_all cql_string_dictionary_add cql_string_dictionary_create kvs h = Some (dict, h')"
    "ht_inv True E dict h'" "ht_map h' dict = last_value h kvs" "\<forall>a \<in># E. data_at h' a = data_at h a" "cql_hashtab_delete dict h' = Some h"
    using string_dict.life [OF assms(1) _ assms(3)] assms(2) by blast
  have "cql_string_dictionary_find dict k h' = Some (case last_value h kvs (text_of h k) of Some w \<Rightarrow> w | None \<Rightarrow> 0)"
    if k: "k \<in># E" "str_key h k" for k
  proof -
    have "string_at h' k = string_at h k" using string_at_data a(4) k(1) by blast
    then have "str_key h' k" "text_of h' k = text_of h k" using k(2) by (simp_all add: str_key_def text_of_def)
    then show ?thesis using string_dictionary_find_ok [OF a(2)] a(3) by simp
  qed
  then show ?thesis using a(1,5) by (auto simp: cql_string_dictionary_finalize_def)
qed

theorem string_dictionary_life_witness:
  "\<exists>dict h'. dict_add_all cql_string_dictionary_add cql_string_dictionary_create [(16, 32), (48, 16)] hello_heap = Some (dict, h') \<and>
     cql_string_dictionary_find dict 16 h' = Some 16 \<and> cql_string_dictionary_find dict 32 h' = Some 0 \<and>
     cql_string_dictionary_finalize dict h' = Some hello_heap"
proof -
  have pre: "\<forall>(k, v) \<in> set [(16, 32), (48, 16 :: i64)]. str_key hello_heap k \<and> k \<in># {#16, 32, 48#} \<and> v \<in># {#16, 32, 48#}"
    "size {#16, 32, 48 :: i64#} + 2 * length [(16 :: i64, 32 :: i64), (48, 16)] \<le> 2 ^ 30"
    by (simp_all add: hello_texts)
  have "last_value hello_heap [(16, 32), (48, 16)] ''hi'' = Some 16" "last_value hello_heap [(16, 32), (48, 16)] ''yo'' = None"
    by (simp_all add: last_value_def hello_texts)
  then show ?thesis using string_dictionary_life [OF hello_counted pre] hello_texts by fastforce
qed

text \<open>
  The same for dictionaries of numbers, whose values are not references: a number that looks like
  an address is never retained or released, and a lookup tells a missing key from every number.
\<close>

theorem long_dictionary_life:
  assumes "counted h E" and "\<forall>(k, v) \<in> set kvs. str_key h k \<and> k \<in># E" and "size E + 2 * length kvs \<le> 2 ^ 30"
  shows "\<exists>dict h'. dict_add_all cql_long_dictionary_add cql_long_dictionary_create kvs h = Some (dict, h') \<and>
    (\<forall>a. a \<in># E \<longrightarrow> str_key h a \<longrightarrow> cql_long_dictionary_find dict a h' = Some (last_value h kvs (text_of h a))) \<and>
    cql_hashtab_delete dict h' = Some h"
proof -
  obtain dict h' where a: "dict_add_all cql_long_dictionary_add cql_long_dictionary_create kvs h = Some (dict, h')"
    "ht_inv False E dict h'" "ht_map h' dict = last_value h kvs" "\<forall>a \<in># E. data_at h' a = data_at h a" "cql_hashtab_delete dict h' = Some h"
    using long_dict.life [OF assms(1) _ assms(3)] assms(2) by blast
  have "cql_long_dictionary_find dict k h' = Some (last_value h kvs (text_of h k))" if k: "k \<in># E" "str_key h k" for k
  proof -
    have "string_at h' k = string_at h k" using string_at_data a(4) k(1) by blast
    then have "str_key h' k" "text_of h' k = text_of h k" using k(2) by (simp_all add: str_key_def text_of_def)
    then show ?thesis using long_dictionary_find_ok [OF a(2)] a(3) by simp
  qed
  then show ?thesis using a(1,5) by blast
qed

theorem long_dictionary_life_witness:
  "\<exists>dict h'. dict_add_all cql_long_dictionary_add cql_long_dictionary_create [(16, 32), (48, 0)] hello_heap = Some (dict, h') \<and>
     cql_long_dictionary_find dict 16 h' = Some (Some 0) \<and> cql_long_dictionary_find dict 32 h' = Some None"
proof -
  have pre: "\<forall>(k, v) \<in> set [(16, 32), (48, 0 :: i64)]. str_key hello_heap k \<and> k \<in># {#16, 32, 48#}"
    "size {#16, 32, 48 :: i64#} + 2 * length [(16 :: i64, 32 :: i64), (48, 0)] \<le> 2 ^ 30"
    by (simp_all add: hello_texts)
  have "last_value hello_heap [(16, 32), (48, 0)] ''hi'' = Some 0" "last_value hello_heap [(16, 32), (48, 0)] ''yo'' = None"
    by (simp_all add: last_value_def hello_texts)
  then show ?thesis using long_dictionary_life [OF hello_counted pre] hello_texts by fastforce
qed

end
