(* ===== verification/C_Literals.thy ===== *)
theory C_Literals
  imports Encoders_Correct
begin

text \<open>
  How a C compiler reads the string literals that the code generator prints: escape sequences, of
  which a hexadecimal one takes all hexadecimal digits that follow, adjacent literals, white space and
  line comments.  Trigraphs are off, as is the default of the compilers in use.
\<close>

section \<open>Reading literals\<close>

definition hexval :: "char \<Rightarrow> nat" where
  "hexval c = (let n = of_char c in if n \<le> 57 then n - 48 else if n \<le> 70 then n - 55 else n - 87)"

definition number :: "nat \<Rightarrow> cstring \<Rightarrow> nat" where
  "number b ds = foldl (\<lambda>n c. b * n + hexval c) 0 ds"

definition octal :: "char \<Rightarrow> bool" where
  "octal c \<longleftrightarrow> of_char c \<in> {48..55 :: nat}"

definition simple_escape :: "char \<Rightarrow> char option" where
  "simple_escape = map_of [(DQUOTE, DQUOTE), (SQUOTE, SQUOTE), (CHR ''?'', CHR ''?''), (BSLASH, BSLASH), (CHR ''a'', CHR 0x07),
     (CHR ''b'', CHR 0x08), (CHR ''f'', CHR 0x0C), (CHR ''n'', CHR 0x0A), (CHR ''r'', CHR 0x0D), (CHR ''t'', CHR 0x09), (CHR ''v'', CHR 0x0B)]"

text \<open>The character of an escape sequence and the text behind it; a value above 255 is an error.\<close>

definition c_escape_seq :: "cstring \<Rightarrow> (char \<times> cstring) option" where
  "c_escape_seq s =
     (if chead s = CHR ''x'' then
        let ds = takeWhile IsXDigit (tl s) in
        if ds = [] \<or> number 16 ds \<ge> 256 then None else Some (char_of (number 16 ds), drop (length ds) (tl s))
      else if s \<noteq> [] \<and> octal (hd s) then
        let ds = takeWhile octal (take 3 s) in
        if number 8 ds \<ge> 256 then None else Some (char_of (number 8 ds), drop (length ds) s)
      else if s \<noteq> [] then map_option (\<lambda>c. (c, tl s)) (simple_escape (hd s))
      else None)"

lemma escape_shrinks: "c_escape_seq s = Some (c, r) \<Longrightarrow> length r < Suc (length s)"
  by (auto simp: c_escape_seq_def Let_def split: if_splits)

text \<open>A literal behind its opening quote: its characters and the text behind its closing quote.\<close>

function c_literal :: "cstring \<Rightarrow> (cstring \<times> cstring) option" where
  "c_literal [] = None"
| "c_literal (c # s) =
     (if c = DQUOTE then Some ([], s)
      else if c = NEWLINE then None
      else if c = BSLASH then
        (case c_escape_seq s of
           None \<Rightarrow> None
         | Some (d, r) \<Rightarrow> map_option (\<lambda>(t, u). (d # t, u)) (c_literal r))
      else map_option (\<lambda>(t, u). (c # t, u)) (c_literal s))"
  by pat_completeness auto
termination
  by (relation "measure length") (auto dest: escape_shrinks)

lemma literal_shrinks: "c_literal s = Some (t, r) \<Longrightarrow> length r < length s"
proof (induction s arbitrary: t r rule: c_literal.induct)
  case (2 c s)
  then show ?case by (fastforce split: if_splits option.splits dest!: escape_shrinks)
qed simp

text \<open>The characters of a sequence of literals.\<close>

function c_strings :: "cstring \<Rightarrow> cstring option" where
  "c_strings s =
     (if s = [] then Some []
      else if hd s = CHR '' '' \<or> hd s = NEWLINE then c_strings (tl s)
      else if hd s = CHR ''/'' \<and> chead (tl s) = CHR ''/'' then c_strings (dropWhile (\<lambda>c. c \<noteq> NEWLINE) (tl s))
      else if hd s = DQUOTE then
        (case c_literal (tl s) of
           None \<Rightarrow> None
         | Some (t, r) \<Rightarrow> map_option ((@) t) (c_strings r))
      else None)"
  by pat_completeness auto
termination
proof (relation "measure length")
  show "(dropWhile (\<lambda>c. c \<noteq> NEWLINE) (tl s), s) \<in> measure length" if "s \<noteq> []" for s
    using length_dropWhile_le [of "\<lambda>c. c \<noteq> NEWLINE" "tl s"] that by (cases s) (auto simp: less_Suc_eq_le)
qed (auto dest!: literal_shrinks simp: less_imp_diff_less)

declare c_strings.simps [simp del]

section \<open>Reading what the encoder writes\<close>

text \<open>Characters that \<open>cg_encode_char_as_c_string_literal\<close> writes in hexadecimal.\<close>

definition hexed :: "char \<Rightarrow> bool" where
  "hexed c \<longleftrightarrow> c_special c = None \<and> schar c < 32"

text \<open>No such character stands right before a hexadecimal digit.\<close>

fun hex_safe :: "cstring \<Rightarrow> bool" where
  "hex_safe (c # d # s) \<longleftrightarrow> (hexed c \<longrightarrow> \<not> IsXDigit d) \<and> hex_safe (d # s)"
| "hex_safe s \<longleftrightarrow> True"

lemma hexval_hexd: "n < 16 \<Longrightarrow> hexval (hexd n) = n"
  by (simp add: hexval_def hexd_def Let_def)

lemma hex2_digits: "number 16 (hex2 c) = of_char c" "list_all IsXDigit (hex2 c)" "length (hex2 c) = 2"
  using hexval_hexd of_char_div_16 [of c] hexd_props by (simp_all add: number_def hex2_def)

lemma digits_end: "list_all P ds \<Longrightarrow> r = [] \<or> \<not> P (hd r) \<Longrightarrow> takeWhile P (ds @ r) = ds"
  by (cases r) (auto simp: list_all_iff takeWhile_append2)

lemma escape_hex2:
  assumes "r = [] \<or> \<not> IsXDigit (hd r)"
  shows "c_escape_seq (CHR ''x'' # hex2 c @ r) = Some (c, r)"
proof -
  have "takeWhile IsXDigit (hex2 c @ r) = hex2 c" by (rule digits_end [OF hex2_digits(2) assms])
  moreover have "hex2 c \<noteq> []" using hex2_digits(3) [of c] by auto
  moreover have "\<not> 256 \<le> number 16 (hex2 c)" unfolding hex2_digits(1) by (simp add: not_le)
  ultimately show ?thesis using hex2_digits(1) [of c] by (simp add: c_escape_seq_def Let_def)
qed

lemma special_escape: "c_special c = Some e \<Longrightarrow> c_escape_seq (e # r) = Some (c, r)"
  by (auto simp: c_special_def c_escape_seq_def octal_def simple_escape_def split: if_splits)

lemma literal_c_lit:
  assumes "hexed c \<Longrightarrow> r = [] \<or> \<not> IsXDigit (hd r)"
  shows "c_literal (c_lit c @ r) = map_option (\<lambda>(t, u). (c # t, u)) (c_literal r)"
proof (cases "c_special c")
  case (Some e)
  then show ?thesis using special_escape [OF Some] by (simp add: c_lit_def)
next
  case None
  then have "c \<noteq> DQUOTE" "c \<noteq> BSLASH" "c \<noteq> NEWLINE" by (auto simp: c_special_def split: if_splits)
  then show ?thesis using None escape_hex2 [of r c] assms by (simp add: c_lit_def hexed_def)
qed

lemma literal_c_lits:
  assumes "hex_safe s" and "r \<noteq> []" and "\<not> IsXDigit (hd r)"
  shows "c_literal (concat (map c_lit s) @ r) = map_option (\<lambda>(t, u). (s @ t, u)) (c_literal r)"
  using assms(1)
proof (induction s)
  case (Cons c s)
  show ?case
  proof (cases s)
    case Nil
    then show ?thesis using literal_c_lit [of c r] assms(2,3) by simp
  next
    case (Cons d s')
    have head: "hd (c_lit d @ x) = d \<or> hd (c_lit d @ x) = BSLASH" for x by (simp add: c_lit_def split: option.splits)
    have "\<not> IsXDigit BSLASH" by code_simp
    then have "hexed c \<Longrightarrow> \<not> IsXDigit (hd (c_lit d @ concat (map c_lit s') @ r))"
      using Cons.prems Cons head [of "concat (map c_lit s') @ r"] by auto
    then show ?thesis
      using Cons.IH Cons.prems Cons literal_c_lit [of c "concat (map c_lit (d # s')) @ r"] by (simp add: option.map_comp comp_def case_prod_unfold)
  qed
qed (simp add: option.map_ident case_prod_unfold)

end
