(* ===== verification/Pieces.thy ===== *)
theory Pieces
  imports Eval Encoders
begin

text \<open>
  Compressed SQL text.  With the option \<open>--compress\<close> the compiler breaks the text of a statement into
  pieces, keeps every piece once in one array and emits the variable-length numbers of the pieces
  (\<open>cg_statement_pieces\<close> and its helpers in \<open>sources/cg_c.c\<close>); the runtime puts the text together again
  (\<open>cql_decode\<close>, \<open>cql_expand_frags\<close> and their callers in \<open>sources/cqlrt_common.c\<close>).  Statements that are
  assembled from shared fragments go through \<open>cql_vconcat\<close>.
\<close>

section \<open>The compiler\<close>

text \<open>The value of a piece in the table is its offset in the array, stored as a pointer.\<close>

record pieces_state =
  text_pieces :: "(i32, unit) symtab"
  piece_last_offset :: i32
  cg_pieces_output :: charbuf

definition piece_line :: "cstring \<Rightarrow> i32 \<Rightarrow> cstring" where
  "piece_line str result =
     ''  '' @ [DQUOTE] @ str @ [BSLASH, CHR ''0'', DQUOTE] @ '' // '' @ show_int (sint result) @ [NEWLINE]"

definition cg_intern_piece :: "cstring \<Rightarrow> i32 \<Rightarrow> pieces_state \<Rightarrow> (i32 \<times> pieces_state) option" where
  "cg_intern_piece str len st =
     do {
       entry \<leftarrow> symtab_find (Some (text_pieces st)) str;
       (case entry of
          Some i \<Rightarrow> do { v \<leftarrow> val (payload (text_pieces st) ! i); Some (v, st) }
        | None \<Rightarrow>
            do {
              let result = piece_last_offset st;
              (added, syms) \<leftarrow> symtab_add (text_pieces st) str (Some (piece_last_offset st));
              Some (result, st\<lparr>text_pieces := syms, piece_last_offset := piece_last_offset st + (len + 1),
                               cg_pieces_output := bprintf (cg_pieces_output st) (piece_line str result)\<rparr>)
            })
     }"

text \<open>The text of \<open>printf\<close> for \<open>\x%02x\<close> and a number below 256.\<close>

definition hex_escape :: "u32 \<Rightarrow> cstring" where
  "hex_escape byte =
     (let digit = (\<lambda>n :: nat. if n < 10 then char_of (n + 48) else char_of (n - 10 + 97))
      in [BSLASH, CHR ''x'', digit (unat byte div 16), digit (unat byte mod 16)])"

lemma shift7: "signed_drop_bit 7 (w :: i32) AND 0x01ffffff = drop_bit 7 w"
proof -
  have m: "(0x01ffffff :: i32) = mask 25" by (simp add: mask_eq_exp_minus_1)
  show ?thesis unfolding m by (rule bit_word_eqI) (auto simp: bit_simps dest: bit_imp_le_length)
qed

lemma drop7_less: "drop_bit 7 w \<noteq> 0 \<Longrightarrow> unat (drop_bit 7 w) < unat (w :: i32)"
proof -
  assume "drop_bit 7 w \<noteq> 0"
  then have "0 < unat w" by (auto simp: unat_gt_0)
  then show ?thesis by (simp add: drop_bit_eq_div unat_div)
qed

function cg_varinteger :: "i32 \<Rightarrow> charbuf \<Rightarrow> charbuf" where
  "cg_varinteger v out =
     (let byte = v AND 0x7f;
          byte = (if sint v > 0x7f then byte OR 0x80 else byte);
          v = signed_drop_bit 7 v;
          v = v AND 0x01ffffff;
          out = bprintf out (hex_escape byte)
      in if v \<noteq> 0 then cg_varinteger v out else out)"
  by pat_completeness auto

termination
  by (relation "measure (\<lambda>(v, out). unat v)") (auto simp: shift7 intro!: drop7_less)

declare cg_varinteger.simps [simp del]

text \<open>\<open>run\<close> are the characters from \<open>start\<close> up to \<open>cur\<close>.\<close>

fun encode_run :: "cstring \<Rightarrow> charbuf \<Rightarrow> charbuf" where
  "encode_run [] temp = temp"
| "encode_run (c # run) temp = encode_run run (cg_encode_char_as_c_string_literal c temp)"

definition cg_flush_piece :: "cstring \<Rightarrow> charbuf \<Rightarrow> pieces_state \<Rightarrow> (charbuf \<times> pieces_state) option" where
  "cg_flush_piece run out st =
     do {
       let len = of_nat (length run);
       let temp = encode_run run (snd (bopen 0 raw_charbuf));
       (offset, st) \<leftarrow> cg_intern_piece (buf_text temp) len st;
       Some (cg_varinteger (offset + 1) out, st)
     }"

definition alphaish :: "char \<Rightarrow> bool" where
  "alphaish ch \<longleftrightarrow> (schar ch \<ge> schar CHR ''a'' \<and> schar ch \<le> schar CHR ''z'') \<or>
     (schar ch \<ge> schar CHR ''@'' \<and> schar ch \<le> schar CHR ''Z'') \<or> (schar ch \<ge> schar CHR ''0'' \<and> schar ch \<le> schar CHR ''9'')"

definition run_state :: "char \<Rightarrow> nat" where
  "run_state ch = (if ch = CHR '' '' \<or> ch = NEWLINE then 0 else if alphaish ch then 1 else 2)"

text \<open>The loop of \<open>cg_statement_pieces\<close>; the result has the characters that are still pending.\<close>

function statement_loop ::
  "cstring \<Rightarrow> cstring \<Rightarrow> nat \<Rightarrow> u32 \<Rightarrow> charbuf \<Rightarrow> pieces_state \<Rightarrow> (cstring \<times> u32 \<times> charbuf \<times> pieces_state) option" where
  "statement_loop run cur prev_state cnt out st =
     (if chead cur = NUL then Some (run, cnt, out, st)
      else
        let ch = chead cur; cur_state = run_state ch in
        if prev_state = cur_state then statement_loop (run @ [ch]) (tl cur) cur_state cnt out st
        else if length run \<le> 4 \<and> cur_state = 0 then statement_loop (run @ [ch]) (tl cur) cur_state cnt out st
        else
          let (run, cur, cur_state) =
                (if cur_state = 0 then
                   (run @ [ch], tl cur, if alphaish (chead (tl cur)) \<or> chead (tl cur) = CHR ''_'' then 1 else cur_state)
                 else (run, cur, cur_state))
          in
            if run \<noteq> [] then
              do {
                (out, st) \<leftarrow> cg_flush_piece run out st;
                (if chead cur = NUL then Some ([], cnt + 1, out, st)
                 else statement_loop [chead cur] (tl cur) cur_state (cnt + 1) out st)
              }
            else statement_loop [chead cur] (tl cur) cur_state cnt out st)"
  by pat_completeness auto
termination
  by (relation "measure (\<lambda>(run, cur, s, n, out, st). length cur)")
    (auto dest!: chead_nonNUL split: if_splits simp: less_Suc_eq_le)

declare statement_loop.simps [simp del]

definition cg_statement_pieces :: "cstring \<Rightarrow> charbuf \<Rightarrow> pieces_state \<Rightarrow> (u32 \<times> charbuf \<times> pieces_state) option" where
  "cg_statement_pieces str out st =
     do {
       let len = (of_nat (length (cview str)) :: i32);
       require (len \<noteq> 0);
       let out = bputc out DQUOTE;
       let out = cg_varinteger (len + 1) out;
       (run, cnt, out, st) \<leftarrow> statement_loop [] str 0 0 out st;
       (cnt, out, st) \<leftarrow> (if run \<noteq> [] then map_option (\<lambda>(out, st). (cnt + 1, out, st)) (cg_flush_piece run out st)
                            else Some (cnt, out, st));
       Some (cnt, bputc out DQUOTE, st)
     }"

section \<open>The runtime\<close>

text \<open>
  Constant arrays are lists of characters with their terminating NUL; a read behind the end is \<open>None\<close>,
  and so is a shift whose result is not an \<open>int\<close>.
\<close>

fun cql_decode_loop :: "char list \<Rightarrow> i32 \<Rightarrow> nat \<Rightarrow> (i32 \<times> char list) option" where
  "cql_decode_loop [] out offset = None"
| "cql_decode_loop (c # data) out offset =
     (let byte = (word_of_int (schar c) :: i32);
          bits = byte AND 0x7f
      in if offset \<ge> 32 \<or> unat bits * 2 ^ offset \<ge> 2 ^ 31 then None
         else let out = out OR push_bit offset bits in
           if byte AND 0x80 \<noteq> 0 then cql_decode_loop data out (offset + 7) else Some (out, data))"

definition cql_decode :: "char list \<Rightarrow> (i32 \<times> char list) option" where
  "cql_decode data = cql_decode_loop data 0 0"

lemma decode_loop_shrinks: "cql_decode_loop data out offset = Some (r, rest) \<Longrightarrow> length rest < length data"
  by (induction data out offset rule: cql_decode_loop.induct) (auto simp: Let_def less_Suc_eq split: if_splits)

fun copy_piece :: "char list \<Rightarrow> char mem \<Rightarrow> nat \<Rightarrow> (char mem \<times> nat) option" where
  "copy_piece [] result pos = None"
| "copy_piece (c # src) result pos =
     (if c = NUL then Some (result, pos) else copy_piece src (mem_store result pos (Some [Some c])) (pos + 1))"

function expand_loop :: "char list \<Rightarrow> char list \<Rightarrow> char mem \<Rightarrow> nat \<Rightarrow> (char mem \<times> nat) option" where
  "expand_loop base frags result pos =
     (case cql_decode frags of
        None \<Rightarrow> None
      | Some (offset, frags) \<Rightarrow>
          if offset = 0 then Some (result, pos)
          else if sint offset < 0 then None
          else (case copy_piece (drop (unat (offset - 1)) base) result pos of
                  None \<Rightarrow> None
                | Some (result, pos) \<Rightarrow> expand_loop base frags result pos))"
  by pat_completeness auto
termination
  by (relation "measure (\<lambda>(base, frags, result, pos). length frags)") (auto simp: cql_decode_def dest: decode_loop_shrinks)

declare expand_loop.simps [simp del]

definition cql_expand_frags :: "char mem \<Rightarrow> char list \<Rightarrow> char list \<Rightarrow> char mem option" where
  "cql_expand_frags result base frags =
     map_option (\<lambda>(result, pos). mem_store result pos (Some [Some NUL])) (expand_loop base frags result 0)"

text \<open>The C string in a block.\<close>

definition block_cstr :: "char mem \<Rightarrow> cstring option" where
  "block_cstr m = (case m of Mem cs \<Rightarrow> cells_cstr cs | Fault \<Rightarrow> None)"

definition cql_uncompress :: "char list \<Rightarrow> char list \<Rightarrow> cstring option" where
  "cql_uncompress base frags =
     do {
       require (chead frags \<noteq> NUL);
       (len, frags) \<leftarrow> cql_decode frags;
       str \<leftarrow> cql_expand_frags (mem_alloc (nat (sint len))) base frags;
       block_cstr str
     }"

text \<open>
  SQLite is a parameter: \<open>exec\<close> and \<open>prepare\<close> are what its calls do with a text on the database \<open>'db\<close>,
  \<open>finalize\<close> what it does with a statement.
\<close>

definition cql_finalize_stmt :: "('s \<Rightarrow> 'db \<Rightarrow> 'db) \<Rightarrow> 's option \<Rightarrow> 'db \<Rightarrow> 's option \<times> 'db" where
  "cql_finalize_stmt finalize pstmt db = (case pstmt of None \<Rightarrow> (pstmt, db) | Some s \<Rightarrow> (None, finalize s db))"

definition cql_prepare_frags ::
  "('s \<Rightarrow> 'db \<Rightarrow> 'db) \<Rightarrow> (cstring \<Rightarrow> i32 \<Rightarrow> 'db \<Rightarrow> 'r) \<Rightarrow> 's option \<Rightarrow> char list \<Rightarrow> char list \<Rightarrow> 'db \<Rightarrow> 'r option" where
  "cql_prepare_frags finalize prepare pstmt base frags db =
     do {
       let (pstmt, db) = cql_finalize_stmt finalize pstmt db;
       (len, frags) \<leftarrow> cql_decode frags;
       block \<leftarrow> cql_expand_frags (mem_alloc (nat (sint len))) base frags;
       sql \<leftarrow> block_cstr block;
       Some (prepare sql len db)
     }"

definition cql_exec_frags :: "(cstring \<Rightarrow> 'db \<Rightarrow> 'r) \<Rightarrow> char list \<Rightarrow> char list \<Rightarrow> 'db \<Rightarrow> 'r option" where
  "cql_exec_frags exec base frags db =
     do {
       (len, frags) \<leftarrow> cql_decode frags;
       block \<leftarrow> cql_expand_frags (mem_alloc (nat (sint len))) base frags;
       sql \<leftarrow> block_cstr block;
       Some (exec sql db)
     }"

section \<open>Concatenation of fragments\<close>

text \<open>\<open>preds\<close> is null (\<open>None\<close>) or has one flag per string.\<close>

definition selected :: "bool list option \<Rightarrow> nat \<Rightarrow> bool" where
  "selected preds istr = (case preds of None \<Rightarrow> True | Some ps \<Rightarrow> ps ! istr)"

fun concat_size :: "bool list option \<Rightarrow> nat \<Rightarrow> cstring list \<Rightarrow> u32 \<Rightarrow> u32" where
  "concat_size preds istr [] bytes = bytes"
| "concat_size preds istr (str # strs) bytes =
     concat_size preds (istr + 1) strs (if selected preds istr then bytes + of_nat (length str) else bytes)"

fun concat_copy :: "bool list option \<Rightarrow> nat \<Rightarrow> cstring list \<Rightarrow> char mem \<Rightarrow> i32 \<Rightarrow> char mem" where
  "concat_copy preds istr [] result offset = result"
| "concat_copy preds istr (str # strs) result offset =
     (if selected preds istr
      then let result = (if sint offset < 0 then Fault else mem_store result (nat (sint offset)) (Some (map Some (str @ [NUL]))))
           in concat_copy preds (istr + 1) strs result (offset + of_nat (length str))
      else concat_copy preds (istr + 1) strs result offset)"

definition cql_vconcat :: "bool list option \<Rightarrow> cstring list \<Rightarrow> char mem" where
  "cql_vconcat preds strs =
     (let bytes = concat_size preds 0 strs 0
      in concat_copy preds 0 strs (mem_alloc (unat (bytes + 1))) 0)"

definition cql_prepare_var ::
  "('s \<Rightarrow> 'db \<Rightarrow> 'db) \<Rightarrow> (cstring \<Rightarrow> i32 \<Rightarrow> 'db \<Rightarrow> 'r) \<Rightarrow> 's option \<Rightarrow> bool list option \<Rightarrow> cstring list \<Rightarrow> 'db \<Rightarrow> 'r option" where
  "cql_prepare_var finalize prepare pstmt preds strs db =
     do {
       let (pstmt, db) = cql_finalize_stmt finalize pstmt db;
       sql \<leftarrow> block_cstr (cql_vconcat preds strs);
       Some (prepare sql (- 1) db)
     }"

definition cql_exec_var :: "(cstring \<Rightarrow> 'db \<Rightarrow> 'r) \<Rightarrow> bool list option \<Rightarrow> cstring list \<Rightarrow> 'db \<Rightarrow> 'r option" where
  "cql_exec_var exec preds strs db = map_option (\<lambda>sql. exec sql db) (block_cstr (cql_vconcat preds strs))"

end
