(* ===== verification/Pieces_Correct.thy ===== *)
theory Pieces_Correct
  imports "HOL-Library.Sublist" C_Literals Pieces Symtab_Correct
begin

text \<open>
  Compression and decompression are inverse.  The numbers of pieces are read back by \<open>cql_decode\<close>; the
  array of the pieces is the concatenation of all distinct pieces, each with its terminating NUL; and a
  statement is spelled by the pieces whose offsets the compiler emits.
\<close>

section \<open>Variable-length numbers\<close>

text \<open>The bytes of a number, and their text in a C literal.\<close>

fun num_bytes :: "nat \<Rightarrow> nat list" where
  "num_bytes n = (if n > 127 then (n mod 128 + 128) # num_bytes (n div 128) else [n])"

declare num_bytes.simps [simp del]

definition num_chars :: "nat \<Rightarrow> char list" where
  "num_chars n = map char_of (num_bytes n)"

definition hex_text :: "char list \<Rightarrow> cstring" where
  "hex_text cs = concat (map (\<lambda>c. BSLASH # CHR ''x'' # hex2 c) cs)"

lemma hex_text_simps [simp]: "hex_text [] = []" "hex_text (c # cs) = BSLASH # CHR ''x'' # hex2 c @ hex_text cs"
  "hex_text (cs @ ds) = hex_text cs @ hex_text ds"
  by (simp_all add: hex_text_def)

lemma hex_text_length: "length (hex_text cs) = 4 * length cs"
  by (induction cs) (simp_all add: hex2_def)

lemma num_bytes_less: "b \<in> set (num_bytes n) \<Longrightarrow> b < 256"
  by (induction n rule: num_bytes.induct) (subst (asm) num_bytes.simps, auto split: if_splits)

lemma num_bytes_length: "n < 2 ^ (7 * k) \<Longrightarrow> 0 < k \<Longrightarrow> length (num_bytes n) \<le> k"
proof (induction k arbitrary: n)
  case (Suc k)
  show ?case
  proof (cases "n > 127")
    case True
    then have "0 < k" using Suc.prems(1) by (cases k) auto
    moreover have "n div 128 < 2 ^ (7 * k)" using Suc.prems(1) by (simp add: power_add div_less_iff_less_mult)
    ultimately show ?thesis using Suc.IH True by (subst num_bytes.simps) simp
  qed (subst num_bytes.simps, simp)
qed simp

lemma hex_escape_hex2: "unat byte < 256 \<Longrightarrow> hex_escape byte = BSLASH # CHR ''x'' # hex2 (char_of (unat byte))"
  by (simp add: hex_escape_def hex2_def hexd_def Let_def)

lemma or_0x80: "n < 128 \<Longrightarrow> (of_nat n :: i32) OR 0x80 = of_nat (n + 128)"
proof -
  assume n: "n < 128"
  have t: "take_bit 7 (of_nat n :: i32) = of_nat n" using n by (simp add: take_bit_of_nat take_bit_nat_eq_self)
  have b7: "bit (0x80 :: i32) m \<Longrightarrow> m = 7" for m using bit_exp_iff [of 7 m, where 'a = i32] by simp
  have "take_bit 7 (of_nat n :: i32) AND 0x80 = 0" 
  proof (rule bit_word_eqI)
    fix m assume "m < LENGTH(32)"
    show "bit (take_bit 7 (of_nat n :: i32) AND 0x80) m = bit (0 :: i32) m" using b7 [of m] by (auto simp: bit_take_bit_iff bit_and_iff)
  qed
  then have "(of_nat n :: i32) AND 0x80 = 0" unfolding t .
  then show ?thesis by (simp add: disjunctive_add_eq_or [symmetric])
qed

lemma sint_of_small: "n < 2 ^ 31 \<Longrightarrow> sint (of_nat n :: i32) = int n"
  by (simp add: signed_of_nat signed_take_bit_int_eq_self)

lemma sint_small: "unat (v :: i32) < 2 ^ 31 \<Longrightarrow> sint v = int (unat v)"
  using sint_of_small [of "unat v"] by simp

lemma varinteger_emits: "unat v < 2 ^ 31 \<Longrightarrow> cb.emits (cg_varinteger v) (hex_text (num_chars (unat v)))"
proof (induction "unat v" arbitrary: v rule: less_induct)
  case less
  let ?n = "unat v"
  have m: "(0x7f :: i32) = mask 7" by (simp add: mask_eq_exp_minus_1)
  have low: "v AND 0x7f = of_nat (?n mod 128)"
    unfolding m by (simp add: take_bit_eq_mask [symmetric] word_unat_eq_iff unsigned_take_bit_eq take_bit_eq_mod unat_of_nat unat_mod_distrib)
  have s: "sint v > 0x7f \<longleftrightarrow> ?n > 127" using sint_small [OF less.prems] by (simp only:) linarith
  have rest2: "unat (drop_bit 7 v) = ?n div 128" by (simp add: drop_bit_eq_div unat_div)
  note rest = u32_of_unat [OF rest2] rest2
  show ?case
  proof (cases "?n > 127")
    case True
    have "unat (of_nat (?n mod 128 + 128) :: i32) = ?n mod 128 + 128" by (intro unat_of_nat_u32) (auto intro: order_less_trans [of _ 256])
    then have "hex_escape (of_nat (?n mod 128 + 128)) = hex_text [char_of (?n mod 128 + 128)]"
      by (simp add: hex_escape_hex2)
    then have b: "hex_escape (of_nat (?n mod 128) OR 0x80) = hex_text [char_of (?n mod 128 + 128)]"
      using or_0x80 [of "?n mod 128"] by simp
    have nz: "drop_bit 7 v \<noteq> 0" using True rest(2) by (auto simp: unat_eq_0)
    have cv: "cg_varinteger v = (\<lambda>out. cg_varinteger (drop_bit 7 v) (bprintf out (hex_text [char_of (?n mod 128 + 128)])))"
      using True nz by (intro ext, subst cg_varinteger.simps) (simp only: s low shift7 b Let_def if_True simp_thms)
    have sub: "cb.emits (cg_varinteger (drop_bit 7 v)) (hex_text (num_chars (?n div 128)))"
      using less.hyps [of "drop_bit 7 v"] less.prems True rest(2) by simp
    have tx: "hex_text (num_chars ?n) = hex_text [char_of (?n mod 128 + 128)] @ hex_text (num_chars (?n div 128))"
      using True by (simp add: num_chars_def num_bytes.simps [of ?n])
    show ?thesis unfolding tx by (subst cv) (rule cb.emits_comp [OF cb.emits_put sub refl])
  next
    case False
    have "unat (of_nat ?n :: i32) = ?n" by simp
    then have b: "hex_escape (of_nat ?n) = hex_text [char_of ?n]" using False by (simp add: hex_escape_hex2)
    then have b': "hex_escape (of_nat (?n mod 128)) = hex_text [char_of ?n]" using False by simp
    have z: "drop_bit 7 v = 0" using False rest(1) by simp
    have "cg_varinteger v = (\<lambda>out. bprintf out (hex_text [char_of ?n]))"
      using False z b' by (intro ext, subst cg_varinteger.simps) (simp only: s low shift7 Let_def if_False simp_thms)
    moreover have "hex_text (num_chars ?n) = hex_text [char_of ?n]" using False by (simp add: num_chars_def num_bytes.simps [of ?n])
    ultimately show ?thesis using cb.emits_put [of "hex_text [char_of ?n]"] by (simp only:)
  qed
qed

lemma schar_low: "b < 256 \<Longrightarrow> take_bit 8 (word_of_int (schar (char_of b)) :: i32) = of_nat b"
proof -
  assume b: "b < 256"
  have m: "(0xff :: u32) = mask 8" by (simp add: mask_eq_exp_minus_1)
  have "(of_char (char_of b :: char) :: nat) = b" using b by simp
  then show ?thesis using char_u32_of_char [of "char_of b"] unfolding char_u32_def m take_bit_eq_mask [symmetric] by (simp only:)
qed

lemma schar_bits:
  assumes "b < 256"
  shows "(word_of_int (schar (char_of b)) :: i32) AND 0x7f = of_nat (b mod 128)"
    and "(word_of_int (schar (char_of b)) :: i32) AND 0x80 \<noteq> 0 \<longleftrightarrow> 128 \<le> b"
proof -
  let ?x = "word_of_int (schar (char_of b)) :: i32"
  have m: "(0x7f :: i32) = mask 7" by (simp add: mask_eq_exp_minus_1)
  have "take_bit 7 ?x = take_bit 7 (take_bit 8 ?x)" by (simp only: take_bit_take_bit) simp
  also have "\<dots> = of_nat (b mod 128)" unfolding schar_low [OF assms] by (simp only: take_bit_of_nat) (simp add: take_bit_eq_mod)
  finally show "?x AND 0x7f = of_nat (b mod 128)" unfolding m take_bit_eq_mask .
  have "?x AND 2 ^ 7 \<noteq> 0 \<longleftrightarrow> bit ?x 7" by (simp only: and_exp_eq_0_iff_not_bit not_not)
  also have "\<dots> \<longleftrightarrow> bit (take_bit 8 ?x) 7" by (simp only: bit_take_bit_iff) simp
  also have "\<dots> \<longleftrightarrow> bit b 7" unfolding schar_low [OF assms] by (simp only: bit_of_nat_iff) simp
  also have "\<dots> \<longleftrightarrow> 128 \<le> b" using assms by (auto simp: bit_iff_odd odd_iff_mod_2_eq_one)
  finally show "?x AND 0x80 \<noteq> 0 \<longleftrightarrow> 128 \<le> b" by simp
qed

lemma split7:
  assumes "n < 2 ^ 32"
  shows "(of_nat n :: i32) = of_nat (n mod 128) OR push_bit 7 (of_nat (n div 128))"
proof -
  let ?w = "of_nat n :: i32"
  have "?w = take_bit 7 ?w OR push_bit 7 (drop_bit 7 ?w)" by (rule bit_word_eqI) (auto simp: bit_simps)
  moreover have "take_bit 7 ?w = of_nat (n mod 128)" by (simp only: take_bit_of_nat) (simp add: take_bit_eq_mod)
  moreover have "drop_bit 7 ?w = of_nat (n div 128)"
    using assms by (intro u32_of_unat) (simp add: drop_bit_eq_div unat_div unat_of_nat take_bit_nat_eq_self)
  ultimately show ?thesis by simp
qed

lemma decode_num:
  "n * 2 ^ off < 2 ^ 31 \<Longrightarrow> off < 32 \<Longrightarrow>
     cql_decode_loop (num_chars n @ rest) out off = Some (out OR push_bit off (of_nat n), rest)"
proof (induction n arbitrary: off out rule: num_bytes.induct)
  case (1 n)
  have mn: "n mod 128 * 2 ^ off < 2 ^ 31" using 1(2) by (rule order_le_less_trans [rotated]) simp
  have um: "unat (of_nat (n mod 128) :: i32) = n mod 128" by (intro unat_of_nat_u32) (simp add: order_less_trans [of _ 128])
  have "n < 2 ^ 31" using 1(2) by (rule order_le_less_trans [rotated]) simp
  then have n32: "n < 2 ^ 32" by simp
  show ?case
  proof (cases "n > 127")
    case True
    have b: "n mod 128 + 128 < 256" by simp
    have "2 ^ (off + 7) \<le> n * 2 ^ off" using True by (simp add: power_add)
    then have "(2 :: nat) ^ (off + 7) < 2 ^ 31" using 1(2) by (rule order_le_less_trans)
    then have off: "off + 7 < 32" using power_less_imp_less_exp [of "2 :: nat" "off + 7" 31] by simp
    have "n div 128 * 2 ^ (off + 7) \<le> n * 2 ^ off" by (simp add: power_add)
    then have le: "n div 128 * 2 ^ (off + 7) < 2 ^ 31" using 1(2) by (rule order_le_less_trans)
    have "cql_decode_loop (num_chars n @ rest) out off =
        cql_decode_loop (num_chars (n div 128) @ rest) (out OR push_bit off (of_nat (n mod 128))) (off + 7)"
      using True schar_bits [OF b] mn um 1(3) by (simp add: num_chars_def num_bytes.simps [of n] Let_def)
    also have "\<dots> = Some ((out OR push_bit off (of_nat (n mod 128))) OR push_bit (off + 7) (of_nat (n div 128)), rest)"
      by (rule 1(1) [OF True le off])
    also have "(out OR push_bit off (of_nat (n mod 128))) OR push_bit (off + 7) (of_nat (n div 128)) =
        out OR push_bit off (of_nat n :: i32)"
      by (subst split7 [OF n32]) (simp only: push_bit_or push_bit_push_bit or.assoc add.commute [of off])
    finally show ?thesis .
  next
    case False
    then have b: "n < 256" "n mod 128 = n" by simp_all
    show ?thesis
      using False schar_bits [OF b(1)] mn um 1(3) b(2) by (simp add: num_chars_def num_bytes.simps [of n] Let_def)
  qed
qed

lemma cql_decode_num: "n < 2 ^ 31 \<Longrightarrow> cql_decode (num_chars n @ rest) = Some (of_nat n, rest)"
  using decode_num [of n 0 rest 0] by (simp add: cql_decode_def)

section \<open>What the C compiler reads\<close>

lemma not_xdigit: "\<not> IsXDigit BSLASH" "\<not> IsXDigit DQUOTE"
  by code_simp+

lemma literal_hex_text:
  assumes "r \<noteq> []" and "\<not> IsXDigit (hd r)"
  shows "c_literal (hex_text cs @ r) = map_option (\<lambda>(t, u). (cs @ t, u)) (c_literal r)"
proof (induction cs)
  case (Cons c cs)
  have "\<not> IsXDigit (hd (hex_text cs @ r))" using assms not_xdigit(1) by (cases cs) simp_all
  then have "c_escape_seq (CHR ''x'' # hex2 c @ hex_text cs @ r) = Some (c, hex_text cs @ r)" by (intro escape_hex2) simp
  then show ?case using Cons.IH by (simp add: option.map_comp comp_def case_prod_unfold)
qed (simp add: option.map_ident case_prod_unfold)

lemma strings_hex_text: "c_strings (DQUOTE # hex_text cs @ [DQUOTE]) = Some cs"
  using literal_hex_text [of "[DQUOTE]" cs] not_xdigit(2) by (simp add: c_strings.simps)

definition lit :: "cstring \<Rightarrow> cstring" where
  "lit s = concat (map c_lit s)"

lemma literal_lit: "hex_safe s \<Longrightarrow> r \<noteq> [] \<Longrightarrow> \<not> IsXDigit (hd r) \<Longrightarrow> c_literal (lit s @ r) = map_option (\<lambda>(t, u). (s @ t, u)) (c_literal r)"
  unfolding lit_def by (rule literal_c_lits)

lemma literal_whole:
  assumes "hex_safe s"
  shows "c_literal (lit s @ [DQUOTE]) = Some (s, [])"
  by (subst literal_lit [OF assms]) (simp_all add: not_xdigit)

lemma lit_inj: "hex_safe s \<Longrightarrow> hex_safe t \<Longrightarrow> lit s = lit t \<Longrightarrow> s = t"
  by (metis literal_whole option.inject prod.inject)

lemma lit_cstr: "cstr s \<Longrightarrow> cstr (lit s)"
proof (induction s)
  case (Cons c s)
  have "cstr (c_lit c)"
  proof (cases "c_special c")
    case (Some e)
    then show ?thesis using c_special_Some [OF Some] by (simp add: c_lit_def)
  next
    case None
    then show ?thesis using Cons.prems hexd_props(3) of_char_div_16 [of c] by (simp add: c_lit_def hex2_def)
  qed
  then show ?case using Cons by (simp add: lit_def)
qed (simp add: lit_def)

lemma lit_length: "length (lit s) \<le> 4 * length s"
proof (induction s)
  case (Cons c s)
  have "length (c_lit c) \<le> 4" by (simp add: c_lit_def hex2_def split: option.splits)
  then show ?case using Cons.IH by (simp add: lit_def)
qed (simp add: lit_def)

lemma shown_digits: "c \<in> set (show_nat n) \<Longrightarrow> \<exists>d < 10. c = digit_char d"
proof (induction n rule: show_nat.induct)
  case (1 n)
  have "n mod 10 < 10" by simp
  then show ?case using 1 by (subst (asm) (2) show_nat.simps) (auto split: if_splits intro: exI [of _ "n mod 10"])
qed

lemma shown_length: "n < 10 ^ k \<Longrightarrow> 0 < k \<Longrightarrow> length (show_nat n) \<le> k"
proof (induction k arbitrary: n)
  case (Suc k)
  show ?case
  proof (cases "n < 10")
    case False
    then have "0 < k" using Suc.prems(1) by (cases k) auto
    moreover have "n div 10 < 10 ^ k" using Suc.prems(1) by (simp add: div_less_iff_less_mult mult.commute)
    ultimately show ?thesis using Suc.IH False by (subst show_nat.simps) simp
  qed (subst show_nat.simps, simp)
qed simp

lemma no_newline: "n < 2 ^ 31 \<Longrightarrow> NEWLINE \<notin> set (show_int (sint (of_nat n :: i32)))"
proof
  assume "n < 2 ^ 31" "NEWLINE \<in> set (show_int (sint (of_nat n :: i32)))"
  then obtain d where "d < 10" "NEWLINE = digit_char d" using shown_digits [of NEWLINE n] by (auto simp: sint_of_small show_int_def)
  then have "of_char NEWLINE = 48 + d" by (simp add: digit_char_def)
  then show False by simp
qed

lemma piece_line_length:
  assumes "n < 2 ^ 31"
  shows "length (piece_line (lit s) (of_nat n)) \<le> 4 * length s + 21"
  using lit_length [of s] shown_length [of n 10] assms by (simp add: piece_line_def sint_of_small show_int_def)

lemma strings_piece_line:
  assumes "hex_safe s" and "n < 2 ^ 31"
  shows "c_strings (piece_line (lit s) (of_nat n) @ u) = map_option ((@) (s @ [NUL])) (c_strings u)"
proof -
  let ?n = "show_int (sint (of_nat n :: i32))"
  have z: "char_of (0 :: nat) = NUL" by code_simp
  have esc: "c_escape_seq (CHR ''0'' # DQUOTE # x) = Some (NUL, DQUOTE # x)" for x
    by (simp add: c_escape_seq_def octal_def number_def hexval_def Let_def z)
  have l: "c_literal (lit s @ BSLASH # CHR ''0'' # DQUOTE # x) = Some (s @ [NUL], x)" for x
    using literal_lit [OF assms(1), of "BSLASH # CHR ''0'' # DQUOTE # x"] not_xdigit(1) esc by simp
  have skip: "dropWhile (\<lambda>c. c \<noteq> NEWLINE) (?n @ NEWLINE # u) = NEWLINE # u"
    using no_newline [OF assms(2)] by (subst dropWhile_append2) auto
  have "c_strings (CHR ''/'' # CHR ''/'' # CHR '' '' # ?n @ NEWLINE # u) = c_strings u"
    using skip by (subst c_strings.simps) (simp add: c_strings.simps [of "NEWLINE # u"])
  then have "c_strings (CHR '' '' # CHR ''/'' # CHR ''/'' # CHR '' '' # ?n @ NEWLINE # u) = c_strings u"
    by (subst c_strings.simps) simp
  then have "c_strings (DQUOTE # lit s @ BSLASH # CHR ''0'' # DQUOTE # CHR '' '' # CHR ''/'' # CHR ''/'' # CHR '' '' # ?n @ NEWLINE # u) =
      map_option ((@) (s @ [NUL])) (c_strings u)"
    by (subst c_strings.simps) (simp add: l)
  then show ?thesis by (simp add: piece_line_def c_strings.simps [of "CHR '' '' # x" for x])
qed

section \<open>The array of the pieces\<close>

definition base :: "cstring list \<Rightarrow> char list" where
  "base ps = concat (map (\<lambda>p. p @ [NUL]) ps)"

definition offset_of :: "cstring list \<Rightarrow> nat \<Rightarrow> nat" where
  "offset_of ps i = length (base (take i ps))"

lemma base_simps [simp]: "base [] = []" "base (p # ps) = p @ NUL # base ps" "base (ps @ qs) = base ps @ base qs"
  by (simp_all add: base_def)

lemma base_split: "i < length ps \<Longrightarrow> base ps = base (take i ps) @ ps ! i @ NUL # base (drop (Suc i) ps)"
  by (subst id_take_nth_drop [of i ps]) simp_all

lemma offset_less: "i < length ps \<Longrightarrow> offset_of ps i + length (ps ! i) < length (base ps)"
  by (simp add: offset_of_def base_split)

lemma offset_mono: "prefix ps qs \<Longrightarrow> i < length ps \<Longrightarrow> offset_of qs i = offset_of ps i \<and> qs ! i = ps ! i \<and> i < length qs"
  by (auto simp: prefix_def offset_of_def nth_append)

text \<open>A piece that can be printed and read back.\<close>

definition good :: "cstring \<Rightarrow> bool" where
  "good p \<longleftrightarrow> p \<noteq> [] \<and> cstr p \<and> hex_safe p"

definition piece_entry :: "cstring list \<Rightarrow> nat \<Rightarrow> cstring \<times> i32 option" where
  "piece_entry ps i = (lit (ps ! i), Some (of_nat (offset_of ps i)))"

text \<open>
  The state after the pieces \<open>ps\<close>, with room for the pieces of \<open>n\<close> more characters: the table has their
  offsets, and the text that was printed is read as the array \<open>base ps\<close>.
\<close>

definition pieces_ok :: "nat \<Rightarrow> pieces_state \<Rightarrow> cstring list \<Rightarrow> bool" where
  "pieces_ok n st ps \<longleftrightarrow> symtab_inv (text_pieces st) \<and> cmp (text_pieces st) = cmp_case_sens \<and>
     symtab_entries (text_pieces st) = piece_entry ps ` {..<length ps} \<and>
     3 * unat (capacity (text_pieces st)) \<le> 12 + 8 * card (symtab_entries (text_pieces st)) \<and>
     list_all good ps \<and> length (base ps) + 2 * n < 2 ^ 29 \<and>
     piece_last_offset st = of_nat (length (base ps)) \<and> charbuf_ready (26 * n) (cg_pieces_output st) \<and>
     (\<forall>u. c_strings (buf_text (cg_pieces_output st) @ u) = map_option ((@) (base ps)) (c_strings u))"

lemma pieces_okD:
  assumes "pieces_ok n st ps"
  shows "symtab_inv (text_pieces st)" "cmp (text_pieces st) = cmp_case_sens"
    "symtab_entries (text_pieces st) = piece_entry ps ` {..<length ps}"
    "3 * unat (capacity (text_pieces st)) \<le> 12 + 8 * card (symtab_entries (text_pieces st))"
    "list_all good ps" "length (base ps) + 2 * n < 2 ^ 29" "piece_last_offset st = of_nat (length (base ps))"
    "charbuf_ready (26 * n) (cg_pieces_output st)"
    "\<And>u. c_strings (buf_text (cg_pieces_output st) @ u) = map_option ((@) (base ps)) (c_strings u)"
  using assms unfolding pieces_ok_def by blast+

lemma card_pieces: "card (piece_entry ps ` {..<length ps}) \<le> length ps"
  using card_image_le [of "{..<length ps}" "piece_entry ps"] by simp

lemma pieces_length: "list_all good ps \<Longrightarrow> 2 * length ps \<le> length (base ps)"
  by (induction ps) (auto simp: good_def neq_Nil_conv)

lemma piece_capacity: "pieces_ok n st ps \<Longrightarrow> unat (capacity (text_pieces st)) < 2 ^ 31"
  using pieces_okD(3-6) [of n st ps] card_pieces [of ps] pieces_length [of ps] by simp

lemma lookup_piece:
  assumes "pieces_ok n st ps" and "good run"
  shows "symtab_lookup (text_pieces st) (lit run) = Some v \<longleftrightarrow> (\<exists>i < length ps. ps ! i = run \<and> v = Some (of_nat (offset_of ps i)))"
proof -
  note d = pieces_okD [OF assms(1)]
  have c: "cstr (lit run)" using assms(2) by (simp add: good_def lit_cstr)
  have "cmp_case_sens (lit (ps ! i)) (lit run) = 0 \<longleftrightarrow> ps ! i = run" if "i < length ps" for i
  proof -
    have g: "good (ps ! i)" using d(5) that by (simp add: list_all_length)
    then have "cmp_case_sens (lit (ps ! i)) (lit run) = 0 \<longleftrightarrow> lit (ps ! i) = lit run"
      using strcmp_eq_0 [of "lit (ps ! i)" "lit run"] c by (simp add: cmp_case_sens_def good_def lit_cstr)
    then show ?thesis using g assms(2) lit_inj by (auto simp: good_def)
  qed
  then show ?thesis
    unfolding symtab_lookup_iff [OF d(1) c] d(2,3) piece_entry_def by (auto simp: image_iff) 
qed

section \<open>Flushing a piece\<close>

lemma encode_run_emits: "cb.emits (encode_run run) (lit run)"
proof (induction run)
  case Nil
  have "encode_run [] = (\<lambda>b. b)" by (rule ext) simp
  then show ?case by (simp add: lit_def cb.emits_id)
next
  case (Cons c run)
  have "encode_run (c # run) = (\<lambda>b. encode_run run (cg_encode_char_as_c_string_literal c b))" by (rule ext) simp
  then show ?case using cb.emits_comp [OF encode_c_char_emits [of c] Cons.IH] by (simp add: lit_def)
qed

lemma encoded_text: "length run < 2 ^ 29 - 256 \<Longrightarrow> buf_text (encode_run run (snd (bopen 0 raw_charbuf))) = lit run"
  using cb.emits_contents [OF encode_run_emits] fresh_ready [of "length (lit run)" 0] lit_length [of run]
  by (simp add: fresh_text)

text \<open>A piece that is in the array already keeps its offset; a new one goes to its end.\<close>

lemma intern_known:
  assumes "pieces_ok (length run + n) st ps" and "good run" and "i < length ps" and "ps ! i = run"
  shows "\<exists>i < length ps. ps ! i = run \<and> cg_intern_piece (lit run) len st = Some (of_nat (offset_of ps i), st) \<and> pieces_ok n st ps"
proof -
  note d = pieces_okD [OF assms(1)]
  have "symtab_lookup (text_pieces st) (lit run) = Some (Some (of_nat (offset_of ps i)))"
    using lookup_piece [OF assms(1,2)] assms(3,4) by blast
  then have "cg_intern_piece (lit run) len st = Some (of_nat (offset_of ps i), st)"
    by (auto simp: symtab_lookup_def cg_intern_piece_def split: option.splits)
  moreover have "charbuf_ready (26 * n) (cg_pieces_output st)" by (rule cb.ready_mono [OF d(8)]) simp
  ultimately show ?thesis using assms unfolding pieces_ok_def by (intro exI [of _ i]) auto
qed

lemma intern_new:
  assumes "pieces_ok (length run + n) st ps" and "good run" and "run \<notin> set ps" and "len = of_nat (length run)"
  shows "\<exists>st'. cg_intern_piece (lit run) len st = Some (of_nat (length (base ps)), st') \<and> pieces_ok n st' (ps @ [run])"
proof -
  note d = pieces_okD [OF assms(1)]
  let ?o = "of_nat (length (base ps)) :: i32" and ?line = "piece_line (lit run) (of_nat (length (base ps)))"
  have g: "run \<noteq> []" "hex_safe run" "cstr (lit run)" using assms(2) by (simp_all add: good_def lit_cstr)
  have small: "length (base ps) < 2 ^ 31" using d(6) by simp
  have none: "symtab_lookup (text_pieces st) (lit run) = None"
    using lookup_piece [OF assms(1,2)] assms(3) by (metis nth_mem not_Some_eq)
  obtain t where t: "symtab_add (text_pieces st) (lit run) (Some ?o) = Some (True, t)" "symtab_inv t" "same_table (text_pieces st) t"
    "symtab_entries t = insert (lit run, Some ?o) (symtab_entries (text_pieces st))"
    "3 * unat (capacity t) \<le> max (3 * unat (capacity (text_pieces st))) (8 * card (symtab_entries t))"
    using symtab_add_lookup [OF d(1) g(3) piece_capacity [OF assms(1)], of "Some ?o"] none by auto
  let ?st = "st\<lparr>text_pieces := t, piece_last_offset := piece_last_offset st + (len + 1),
      cg_pieces_output := bprintf (cg_pieces_output st) ?line\<rparr>"
  have find: "symtab_find (Some (text_pieces st)) (lit run) = Some None"
    using symtab_find_returns [OF d(1), of "lit run"] none by (auto simp: symtab_lookup_def split: option.splits)
  have eq: "cg_intern_piece (lit run) len st = Some (?o, ?st)" using find t(1) d(7) by (simp add: cg_intern_piece_def Let_def)
  have room: "charbuf_ready (length ?line + 26 * n) (cg_pieces_output st)"
    using cb.ready_mono [OF d(8)] piece_line_length [OF small, of run] g(1) by (cases run) simp_all
  have out: "charbuf_ready (26 * n) (bprintf (cg_pieces_output st) ?line)" "buf_text (bprintf (cg_pieces_output st) ?line) = buf_text (cg_pieces_output st) @ ?line"
    using cb.emits_ready [OF cb.emits_put room] cb.emits_contents [OF cb.emits_put cb.ready_mono [OF room]] by simp_all
  have read: "c_strings (buf_text (bprintf (cg_pieces_output st) ?line) @ u) = map_option ((@) (base (ps @ [run]))) (c_strings u)" for u
    using d(9) [of "?line @ u"] strings_piece_line [OF g(2) small, of u] by (cases "c_strings u") (simp_all add: out(2))
  have old: "piece_entry (ps @ [run]) i = piece_entry ps i" if "i < length ps" for i
    using that by (simp add: piece_entry_def nth_append offset_of_def)
  have "piece_entry (ps @ [run]) (length ps) = (lit run, Some ?o)" by (simp add: piece_entry_def offset_of_def)
  then have ent: "symtab_entries t = piece_entry (ps @ [run]) ` {..<length (ps @ [run])}"
    using t(4) d(3) image_cong [OF refl old, of "{..<length ps}"] by (simp add: lessThan_Suc)
  have "card (symtab_entries (text_pieces st)) \<le> card (symtab_entries t)"
    unfolding t(4) by (rule card_mono) (auto simp: d(3))
  then have cap: "3 * unat (capacity t) \<le> 12 + 8 * card (symtab_entries t)" using t(5) d(4) by linarith
  have off: "piece_last_offset st + (len + 1) = of_nat (length (base (ps @ [run])))" using d(7) assms(4) by simp
  have "length (base (ps @ [run])) + 2 * n < 2 ^ 29" using d(6) g(1) by (cases run) simp_all
  then have "pieces_ok n ?st (ps @ [run])"
    unfolding pieces_ok_def using t(2,3) d(2,5) ent cap off out(1) read assms(2) by (simp add: same_table_def)
  then show ?thesis using eq by blast
qed

lemma flush_ok:
  assumes "pieces_ok (length run + n) st ps" and "good run" and "charbuf_ready (20 * length run + m) out"
  shows "\<exists>i ps' out' st'. cg_flush_piece run out st = Some (out', st') \<and> prefix ps ps' \<and> i < length ps' \<and> ps' ! i = run \<and>
    pieces_ok n st' ps' \<and> charbuf_ready m out' \<and> buf_text out' = buf_text out @ hex_text (num_chars (Suc (offset_of ps' i)))"
proof -
  note d = pieces_okD [OF assms(1)]
  have temp: "buf_text (encode_run run (snd (bopen 0 raw_charbuf))) = lit run"
    using d(6) by (intro encoded_text) simp
  obtain i ps' st' where i: "i < length ps'" "ps' ! i = run" "prefix ps ps'" "pieces_ok n st' ps'"
    "cg_intern_piece (lit run) (of_nat (length run)) st = Some (of_nat (offset_of ps' i), st')"
  proof (cases "run \<in> set ps")
    case True
    then obtain j where "j < length ps" "ps ! j = run" by (auto simp: in_set_conv_nth)
    then show ?thesis using intern_known [OF assms(1,2)] that by blast
  next
    case False
    then show ?thesis
      using intern_new [OF assms(1,2) False refl] that [of "length ps" "ps @ [run]"] by (auto simp: offset_of_def)
  qed
  have o: "Suc (offset_of ps' i) < 2 ^ 31" using offset_less [OF i(1)] pieces_okD(6) [OF i(4)] by simp
  have u: "unat (of_nat (offset_of ps' i) + 1 :: i32) = Suc (offset_of ps' i)" using o by (simp add: unat_word_ariths unat_of_nat take_bit_nat_eq_self)
  have em: "cb.emits (cg_varinteger (of_nat (offset_of ps' i) + 1)) (hex_text (num_chars (Suc (offset_of ps' i))))"
    using varinteger_emits [of "of_nat (offset_of ps' i) + 1"] o unfolding u by blast
  have "length (num_chars (Suc (offset_of ps' i))) \<le> 5" using num_bytes_length [of "Suc (offset_of ps' i)" 5] o by (simp add: num_chars_def)
  then have "length (hex_text (num_chars (Suc (offset_of ps' i)))) \<le> 20" by (simp add: hex_text_length)
  then have room: "charbuf_ready (length (hex_text (num_chars (Suc (offset_of ps' i)))) + m) out"
    using assms(2,3) cb.ready_mono [OF assms(3)] by (cases run) (simp_all add: good_def)
  have "cg_flush_piece run out st = Some (cg_varinteger (of_nat (offset_of ps' i) + 1) out, st')"
    using i(5) by (simp add: cg_flush_piece_def temp Let_def)
  then show ?thesis
    using i cb.emits_ready [OF em room] cb.emits_contents [OF em cb.ready_mono [OF room]] by auto
qed

section \<open>Breaking a statement into pieces\<close>

definition spell :: "cstring list \<Rightarrow> nat list \<Rightarrow> cstring" where
  "spell ps js = concat (map ((!) ps) js)"

definition frags_of :: "cstring list \<Rightarrow> nat list \<Rightarrow> char list" where
  "frags_of ps js = concat (map (\<lambda>i. num_chars (Suc (offset_of ps i))) js)"

lemma spell_simps [simp]:
  "spell ps [] = []" "spell ps (j # js) = ps ! j @ spell ps js" "spell ps (js @ ks) = spell ps js @ spell ps ks"
  "frags_of ps [] = []" "frags_of ps (j # js) = num_chars (Suc (offset_of ps j)) @ frags_of ps js"
  "frags_of ps (js @ ks) = frags_of ps js @ frags_of ps ks"
  by (simp_all add: spell_def frags_of_def)

lemma spell_mono: "prefix ps qs \<Longrightarrow> \<forall>j \<in> set js. j < length ps \<Longrightarrow>
    spell qs js = spell ps js \<and> frags_of qs js = frags_of ps js \<and> (\<forall>j \<in> set js. j < length qs)"
  by (induction js) (auto dest: offset_mono)

lemma classes:
  "IsXDigit c \<Longrightarrow> run_state c = 1" "hexed c \<Longrightarrow> run_state c = 2" "hexed c \<Longrightarrow> \<not> alphaish c \<and> c \<noteq> CHR ''_''"
proof -
  have s: "schar (CHR ''a'') = 97" "schar (CHR ''z'') = 122" "schar (CHR ''@'') = 64" "schar (CHR ''Z'') = 90"
    "schar (CHR ''0'') = 48" "schar (CHR ''9'') = 57" "schar (CHR ''_'') = 95" "schar (CHR '' '') = 32" "schar (CHR ''A'') = 65"
    "schar (CHR ''F'') = 70" "schar (CHR ''f'') = 102" "schar NEWLINE = 10"
    by (simp_all add: schar_def)
  show "IsXDigit c \<Longrightarrow> run_state c = 1"
    using s by (auto simp: IsXDigit_def IsDigit_def run_state_def alphaish_def)
  show h: "hexed c \<Longrightarrow> \<not> alphaish c \<and> c \<noteq> CHR ''_''" using s by (auto simp: hexed_def alphaish_def)
  show "hexed c \<Longrightarrow> run_state c = 2"
    using h s by (auto simp: run_state_def hexed_def c_special_def)
qed

lemma hex_safe_snoc: "hex_safe run \<Longrightarrow> (run \<noteq> [] \<Longrightarrow> hexed (last run) \<Longrightarrow> \<not> IsXDigit c) \<Longrightarrow> hex_safe (run @ [c])"
  by (induction run rule: hex_safe.induct) auto

text \<open>The result of the loop on the rest \<open>txt\<close> of a statement.\<close>

definition spelled :: "nat \<Rightarrow> nat \<Rightarrow> cstring \<Rightarrow> cstring list \<Rightarrow> charbuf \<Rightarrow> (cstring \<times> u32 \<times> charbuf \<times> pieces_state) option \<Rightarrow> bool" where
  "spelled n m txt ps out r \<longleftrightarrow> (\<exists>run cnt out' st' qs js. r = Some (run, cnt, out', st') \<and> prefix ps qs \<and>
     (\<forall>j \<in> set js. j < length qs) \<and> txt = spell qs js @ run \<and> buf_text out' = buf_text out @ hex_text (frags_of qs js) \<and>
     cstr run \<and> hex_safe run \<and> pieces_ok (length run + n) st' qs \<and> charbuf_ready (20 * length run + m) out')"

lemma spelled_pending:
  "cstr run \<Longrightarrow> hex_safe run \<Longrightarrow> pieces_ok (length run + n) st ps \<Longrightarrow> charbuf_ready (20 * length run + m) out \<Longrightarrow>
     spelled n m run ps out (Some (run, cnt, out, st))"
  unfolding spelled_def by (intro exI [of _ run] exI [of _ cnt] exI [of _ out] exI [of _ st] exI [of _ ps] exI [of _ "[]"]) simp

lemma spelled_flush:
  assumes "spelled n m txt ps' out' r" and "prefix ps ps'" and "i < length ps'" and "ps' ! i = run"
    and "buf_text out' = buf_text out @ hex_text (num_chars (Suc (offset_of ps' i)))"
  shows "spelled n m (run @ txt) ps out r"
proof -
  obtain run' cnt out2 st' qs js where r: "r = Some (run', cnt, out2, st')" "prefix ps' qs" "\<forall>j \<in> set js. j < length qs"
    "txt = spell qs js @ run'" "buf_text out2 = buf_text out' @ hex_text (frags_of qs js)"
    "cstr run'" "hex_safe run'" "pieces_ok (length run' + n) st' qs" "charbuf_ready (20 * length run' + m) out2"
    using assms(1) unfolding spelled_def by blast
  have i: "offset_of qs i = offset_of ps' i" "qs ! i = ps' ! i" "i < length qs" using offset_mono [OF r(2) assms(3)] by auto
  show ?thesis
    unfolding spelled_def using r i assms(2,4,5) prefix_order.trans [OF assms(2) r(2)]
    by (intro exI [of _ run'] exI [of _ cnt] exI [of _ out2] exI [of _ st'] exI [of _ qs] exI [of _ "i # js"]) simp
qed

lemma statement_loop_spells:
  assumes "pieces_ok (length run + length cur + n) st ps" and "cstr (run @ cur)" and "hex_safe run"
    and "run \<noteq> [] \<Longrightarrow> hexed (last run) \<Longrightarrow> prev \<noteq> 1" and "charbuf_ready (20 * (length run + length cur) + m) out"
  shows "spelled n m (run @ cur) ps out (statement_loop run cur prev cnt out st)"
  using assms
proof (induction "length cur" arbitrary: run cur prev cnt out st ps rule: less_induct)
  case less
  show ?case
  proof (cases cur)
    case Nil
    then show ?thesis using less.prems spelled_pending [of run n st ps m out cnt] by (subst statement_loop.simps) simp
  next
    case (Cons ch rest)
    then have ch: "ch \<noteq> NUL" "cstr run" "cstr rest" using less.prems(2) by auto
    let ?s = "run_state ch"
    have app: "spelled n m (run @ cur) ps out (statement_loop (run @ [ch]) rest ?s cnt out st)"
      if "hexed ch \<Longrightarrow> ?s \<noteq> 1" "run \<noteq> [] \<Longrightarrow> hexed (last run) \<Longrightarrow> \<not> IsXDigit ch"
      using less.hyps [of rest "run @ [ch]" st ps ?s out cnt] less.prems ch Cons that hex_safe_snoc [OF less.prems(3) that(2)] by simp
    have go: "spelled n m (run2 @ cur2) ps out
        (do { (out, st) \<leftarrow> cg_flush_piece run2 out st;
              (if chead cur2 = NUL then Some ([], cnt + 1, out, st) else statement_loop [chead cur2] (tl cur2) state2 (cnt + 1) out st) })"
      if "run2 @ cur2 = run @ cur" "run2 \<noteq> []" "hex_safe run2" "length cur2 \<le> length cur" "cur2 \<noteq> [] \<Longrightarrow> hexed (hd cur2) \<Longrightarrow> state2 \<noteq> 1" for run2 cur2 state2
    proof -
      note split = that
      have len: "length run2 + length cur2 = length run + length cur" using arg_cong [OF split(1), of length] by simp
      have c: "cstr run2" "cstr cur2" using less.prems(2) unfolding split(1) [symmetric] by simp_all
      have inv: "pieces_ok (length run2 + (length cur2 + n)) st ps" using less.prems(1) len by (simp add: add.assoc [symmetric])
      have room: "charbuf_ready (20 * length run2 + (20 * length cur2 + m)) out"
        using less.prems(5) arg_cong [OF len, of "\<lambda>x. 20 * x + m"] by (simp only: add.assoc [symmetric] distrib_left)
      obtain i ps' out' st' where f: "cg_flush_piece run2 out st = Some (out', st')" "prefix ps ps'" "i < length ps'" "ps' ! i = run2"
        "pieces_ok (length cur2 + n) st' ps'" "charbuf_ready (20 * length cur2 + m) out'"
        "buf_text out' = buf_text out @ hex_text (num_chars (Suc (offset_of ps' i)))"
        using flush_ok [OF inv _ room] split(2,3) c(1) by (auto simp: good_def)
      have "spelled n m cur2 ps' out' (if chead cur2 = NUL then Some ([], cnt + 1, out', st')
          else statement_loop [chead cur2] (tl cur2) state2 (cnt + 1) out' st')"
      proof (cases cur2)
        case Nil
        then show ?thesis using f(5,6) spelled_pending [of "[]" n st' ps' m out' "cnt + 1"] by simp
      next
        case (Cons d tail)
        then show ?thesis using less.hyps [of tail "[d]" st' ps' state2 out' "cnt + 1"] f(5,6) c(2) split(4,5) by (simp add: add.commute)
      qed
      from spelled_flush [OF this f(2-4,7)] show ?thesis using f(1) by (simp add: split(1))
    qed
    note step = statement_loop.simps [of run cur prev cnt out st]
    show ?thesis
    proof (cases "prev = ?s \<or> length run \<le> 4 \<and> ?s = 0")
      case True
      then have "statement_loop run cur prev cnt out st = statement_loop (run @ [ch]) rest ?s cnt out st"
        using ch(1) Cons by (subst step) (auto simp: Let_def)
      moreover have "hexed ch \<Longrightarrow> ?s \<noteq> 1" using classes(2) by simp
      moreover have "\<not> IsXDigit ch" if "run \<noteq> []" "hexed (last run)"
        using True classes(1) [of ch] less.prems(4) [OF that] by auto
      ultimately show ?thesis using app by simp
    next
      case False
      show ?thesis
      proof (cases "?s = 0")
        case True
        let ?s2 = "if alphaish (chead rest) \<or> chead rest = CHR ''_'' then 1 else ?s"
        have "statement_loop run cur prev cnt out st =
            (do { (out, st) \<leftarrow> cg_flush_piece (run @ [ch]) out st;
              (if chead rest = NUL then Some ([], cnt + 1, out, st) else statement_loop [chead rest] (tl rest) ?s2 (cnt + 1) out st) })"
          using ch(1) Cons False True by (subst step) (simp add: Let_def)
        moreover have "hex_safe (run @ [ch])" using hex_safe_snoc [OF less.prems(3)] classes(1) [of ch] True by auto
        moreover have "rest \<noteq> [] \<Longrightarrow> hexed (hd rest) \<Longrightarrow> ?s2 \<noteq> 1" using classes(3) [of "hd rest"] True by (cases rest) auto
        ultimately show ?thesis using go [of "run @ [ch]" rest ?s2] Cons by simp
      next
        case s: False
        show ?thesis
        proof (cases "run = []")
          case True
          then have "statement_loop run cur prev cnt out st = statement_loop (run @ [ch]) rest ?s cnt out st"
            using ch(1) Cons False s by (subst step) (simp add: Let_def)
          then show ?thesis using app classes(2) [of ch] True by auto
        next
          case run: False
          have "statement_loop run cur prev cnt out st =
              (do { (out, st) \<leftarrow> cg_flush_piece run out st;
                (if chead cur = NUL then Some ([], cnt + 1, out, st) else statement_loop [chead cur] (tl cur) ?s (cnt + 1) out st) })"
            using ch(1) Cons False s run by (subst step) (simp add: Let_def)
          then show ?thesis using go [of run cur ?s] run less.prems(3) Cons classes(2) [of ch] by auto
        qed
      qed
    qed
  qed
qed

section \<open>A compressed statement\<close>

lemma statement_pieces_ok:
  assumes "pieces_ok (length s + n) st ps" and "cstr s" and "s \<noteq> []" and "charbuf_ready (20 * length s + 22) out"
  shows "\<exists>cnt out' st' qs js. cg_statement_pieces s out st = Some (cnt, out', st') \<and> prefix ps qs \<and> pieces_ok n st' qs \<and>
    (\<forall>j \<in> set js. j < length qs) \<and> s = spell qs js \<and>
    buf_text out' = buf_text out @ DQUOTE # hex_text (num_chars (Suc (length s)) @ frags_of qs js) @ [DQUOTE]"
proof -
  let ?len = "of_nat (length s) :: i32" and ?num = "num_chars (Suc (length s))"
  have l: "length s < 2 ^ 28" using pieces_okD(6) [OF assms(1)] by simp
  then have len: "?len \<noteq> 0" "unat (?len + 1) = Suc (length s)"
    using assms(3) unat_of_nat_u32 [of "length s"] by (auto simp: unat_plus_u32 unat_eq_0 [symmetric])
  have em: "cb.emits (cg_varinteger (?len + 1)) (hex_text ?num)"
    using varinteger_emits [of "?len + 1"] l unfolding len(2) by simp
  have "length (hex_text ?num) \<le> 20"
    using num_bytes_length [of "Suc (length s)" 5] l by (simp add: hex_text_length num_chars_def)
  define out1 where "out1 = cg_varinteger (?len + 1) (bputc out DQUOTE)"
  have e1: "cb.emits (\<lambda>b. cg_varinteger (?len + 1) (bputc b DQUOTE)) (DQUOTE # hex_text ?num)"
    by (rule cb.emits_comp [OF bputc_emits em]) simp
  have "charbuf_ready (length (DQUOTE # hex_text ?num) + (20 * length s + 1)) out"
    by (rule cb.ready_mono [OF assms(4)]) (use \<open>length (hex_text ?num) \<le> 20\<close> in simp)
  then have out1: "charbuf_ready (20 * (length [] + length s) + 1) out1" "buf_text out1 = buf_text out @ DQUOTE # hex_text ?num"
    using cb.emits_ready [OF e1] cb.emits_contents [OF e1] cb.ready_mono unfolding out1_def by fastforce+
  have "spelled n 1 ([] @ s) ps out1 (statement_loop [] s 0 0 out1 st)"
    by (rule statement_loop_spells) (use assms out1(1) in simp_all)
  then obtain run cnt out2 st2 qs js where r: "statement_loop [] s 0 0 out1 st = Some (run, cnt, out2, st2)" "prefix ps qs"
    "\<forall>j \<in> set js. j < length qs" "s = spell qs js @ run" "buf_text out2 = buf_text out1 @ hex_text (frags_of qs js)"
    "cstr run" "hex_safe run" "pieces_ok (length run + n) st2 qs" "charbuf_ready (20 * length run + 1) out2"
    unfolding spelled_def by auto
  note unf = cg_statement_pieces_def Let_def bind_require cview_cstr [OF assms(2)] len(1) out1_def [symmetric]
  show ?thesis
  proof (cases "run = []")
    case True
    have "cg_statement_pieces s out st = Some (cnt, bputc out2 DQUOTE, st2)" using r(1) True by (simp add: unf)
    then show ?thesis
      using r True out1(2) cb.emits_contents [OF bputc_emits [of DQUOTE], of out2] by (intro exI [of _ cnt] exI [of _ "bputc out2 DQUOTE"] exI [of _ st2] exI [of _ qs] exI [of _ js]) simp
  next
    case False
    then obtain i qs' out3 st3 where f: "cg_flush_piece run out2 st2 = Some (out3, st3)" "prefix qs qs'" "i < length qs'" "qs' ! i = run"
      "pieces_ok n st3 qs'" "charbuf_ready 1 out3" "buf_text out3 = buf_text out2 @ hex_text (num_chars (Suc (offset_of qs' i)))"
      using flush_ok [OF r(8) _ r(9)] r(6,7) by (auto simp: good_def)
    note mono = spell_mono [OF f(2) r(3)]
    have "cg_statement_pieces s out st = Some (cnt + 1, bputc out3 DQUOTE, st3)" using r(1) f(1) False by (simp add: unf)
    then show ?thesis
      using r(4,5) f(3-7) mono prefix_order.trans [OF r(2) f(2)] out1(2) cb.emits_contents [OF bputc_emits [of DQUOTE], of out3]
      by (intro exI [of _ "cnt + 1"] exI [of _ "bputc out3 DQUOTE"] exI [of _ st3] exI [of _ qs'] exI [of _ "js @ [i]"]) auto
  qed
qed

section \<open>Decompression\<close>

lemma copy_piece_ok:
  "cstr p \<Longrightarrow> mem_holds m d \<Longrightarrow> length d + length p \<le> mem_size m \<Longrightarrow>
     \<exists>m'. copy_piece (p @ NUL # rest) m (length d) = Some (m', length d + length p) \<and> mem_holds m' (d @ p) \<and> mem_size m' = mem_size m"
proof (induction p arbitrary: m d)
  case (Cons c p)
  let ?m = "mem_store m (length d) (Some [Some c])"
  have "mem_holds ?m (d @ [c])" "mem_size ?m = mem_size m"
    using mem_holds_store_end [OF Cons.prems(2), of "[c]"] mem_holds_store(2) [OF Cons.prems(2), of "length d" "[c]"] Cons.prems(3) by simp_all
  then show ?case using Cons.IH [of ?m "d @ [c]"] Cons.prems by simp
qed simp

lemma num_zero: "num_chars 0 = [NUL]"
  by code_simp

lemma expand_ok:
  assumes "\<forall>j \<in> set js. j < length ps" and "list_all good ps" and "length (base ps) < 2 ^ 30"
    and "mem_holds m d" and "length d + length (spell ps js) \<le> mem_size m"
  shows "\<exists>m'. expand_loop (base ps @ tail) (frags_of ps js @ [NUL]) m (length d) = Some (m', length d + length (spell ps js)) \<and>
    mem_holds m' (d @ spell ps js) \<and> mem_size m' = mem_size m"
  using assms(1,4,5)
proof (induction js arbitrary: m d)
  case Nil
  have "cql_decode [NUL] = Some (0, [])" using cql_decode_num [of 0 "[]"] by (simp add: num_zero)
  then show ?case using Nil by (subst expand_loop.simps) simp
next
  case (Cons j js)
  have j: "j < length ps" "cstr (ps ! j)" using Cons.prems(1) assms(2) by (auto simp: list_all_length good_def)
  have o: "Suc (offset_of ps j) < 2 ^ 31" using offset_less [OF j(1)] assms(3) by simp
  have dec: "cql_decode (num_chars (Suc (offset_of ps j)) @ frags_of ps js @ [NUL]) = Some (of_nat (Suc (offset_of ps j)), frags_of ps js @ [NUL])"
    by (rule cql_decode_num [OF o])
  have nz: "(of_nat (Suc (offset_of ps j)) :: i32) \<noteq> 0" "\<not> sint (of_nat (Suc (offset_of ps j)) :: i32) < 0"
    "unat (of_nat (Suc (offset_of ps j)) - 1 :: i32) = offset_of ps j"
  proof -
    have u: "unat (of_nat (Suc (offset_of ps j)) :: i32) = Suc (offset_of ps j)" using o by (intro unat_of_nat_u32) simp
    show "(of_nat (Suc (offset_of ps j)) :: i32) \<noteq> 0" using arg_cong [of _ 0 unat] u by fastforce
    show "\<not> sint (of_nat (Suc (offset_of ps j)) :: i32) < 0" using sint_of_small [OF o] by (simp only: not_less)
    show "unat (of_nat (Suc (offset_of ps j)) - 1 :: i32) = offset_of ps j" using u by (subst unat_minus_u32) (simp_all del: of_nat_Suc)
  qed
  have src: "drop (offset_of ps j) (base ps @ tail) = ps ! j @ NUL # base (drop (Suc j) ps) @ tail"
    by (simp add: base_split [OF j(1)] offset_of_def)
  obtain m1 where m1: "copy_piece (drop (offset_of ps j) (base ps @ tail)) m (length d) = Some (m1, length d + length (ps ! j))"
    "mem_holds m1 (d @ ps ! j)" "mem_size m1 = mem_size m"
    using copy_piece_ok [OF j(2) Cons.prems(2)] Cons.prems(3) unfolding src by auto
  show ?case
    using Cons.IH [of m1 "d @ ps ! j"] Cons.prems(1,3) m1 dec nz by (subst expand_loop.simps) (simp add: add.assoc)
qed

lemma block_cstr_text: "mem_holds m (s @ [NUL]) \<Longrightarrow> cstr s \<Longrightarrow> block_cstr m = Some s"
proof (cases m)
  case (Mem cs)
  assume h: "mem_holds m (s @ [NUL])" "cstr s"
  then have "cs = map Some (s @ [NUL]) @ drop (length (s @ [NUL])) cs" using Mem by (metis append_take_drop_id mem_holds.simps(1))
  then show ?thesis using cells_cstr_holds [OF h(2)] Mem by (metis block_cstr_def mem.case(1))
qed simp

lemma num_head: "0 < n \<Longrightarrow> chead (num_chars n @ r) \<noteq> NUL"
proof
  assume n: "0 < n" "chead (num_chars n @ r) = NUL"
  then have "of_char (chead (num_chars n @ r)) = (0 :: nat)" by simp
  moreover have "chead (num_chars n @ r) = char_of (if n > 127 then n mod 128 + 128 else n)"
    unfolding num_chars_def by (subst num_bytes.simps) simp
  ultimately show False using n(1) by (simp split: if_splits)
qed

text \<open>What all readers of fragments do: the size, the block, the text in it.\<close>

lemma expand_frags_ok:
  assumes "\<forall>j \<in> set js. j < length ps" and "list_all good ps" and "length (base ps) < 2 ^ 30" and "s = spell ps js" and "cstr s"
    and "length s < 2 ^ 30"
  shows "\<exists>frags block. cql_decode (num_chars (Suc (length s)) @ frags_of ps js @ [NUL]) = Some (of_nat (Suc (length s)), frags) \<and>
    cql_expand_frags (mem_alloc (nat (sint (of_nat (Suc (length s)) :: i32)))) (base ps @ tail) frags = Some block \<and> block_cstr block = Some s"
proof -
  have dec: "cql_decode (num_chars (Suc (length s)) @ frags_of ps js @ [NUL]) = Some (of_nat (Suc (length s)), frags_of ps js @ [NUL])"
    using assms(6) by (intro cql_decode_num) simp
  have size: "nat (sint (of_nat (Suc (length s)) :: i32)) = Suc (length s)" using assms(6) sint_of_small [of "Suc (length s)"] by (simp del: of_nat_Suc)
  obtain m' where m': "expand_loop (base ps @ tail) (frags_of ps js @ [NUL]) (mem_alloc (Suc (length s))) 0 = Some (m', length s)"
    "mem_holds m' s" "mem_size m' = Suc (length s)"
    using expand_ok [OF assms(1-3), of "mem_alloc (Suc (length s))" "[]" tail] assms(4) by auto
  have "mem_holds (mem_store m' (length s) (Some [Some NUL])) (s @ [NUL])"
    using mem_holds_store_end [OF m'(2), of "[NUL]"] m'(3) by simp
  then show ?thesis using dec m'(1) assms(5) unfolding size by (simp add: cql_expand_frags_def block_cstr_text del: of_nat_Suc)
qed

lemma readers_ok:
  assumes "\<forall>j \<in> set js. j < length ps" and "list_all good ps" and "length (base ps) < 2 ^ 30" and "s = spell ps js" and "cstr s"
    and "length s < 2 ^ 30" and "fs = num_chars (Suc (length s)) @ frags_of ps js @ [NUL]"
  shows "cql_uncompress (base ps @ tail) fs = Some s" and "cql_exec_frags exec (base ps @ tail) fs db = Some (exec s db)"
    and "cql_prepare_frags finalize prepare pstmt (base ps @ tail) fs db =
      Some (prepare s (of_nat (Suc (length s))) (snd (cql_finalize_stmt finalize pstmt db)))"
  using expand_frags_ok [OF assms(1-6), of tail] num_head [of "Suc (length s)"]
  by (auto simp: assms(7) cql_uncompress_def cql_exec_frags_def cql_prepare_frags_def bind_require case_prod_unfold simp del: of_nat_Suc)

end
