(* ===== verification/Pieces_Props.thy ===== *)
theory Pieces_Props
  imports Pieces_Correct
begin

text \<open>
  Properties of compressed statements, of the concatenation of fragments, and of C string literals as a
  C compiler reads them.
\<close>

section \<open>All statements of one compilation\<close>

text \<open>The start of a compilation, as \<open>cg_c_main\<close> sets it up.\<close>

definition pieces_init :: pieces_state where
  "pieces_init = \<lparr>text_pieces = symtab_new_case_sens, piece_last_offset = 0, cg_pieces_output = snd (bopen 0 raw_charbuf)\<rparr>"

text \<open>Every statement is printed as a literal of its own.\<close>

fun compress_all :: "cstring list \<Rightarrow> pieces_state \<Rightarrow> (cstring list \<times> pieces_state) option" where
  "compress_all [] st = Some ([], st)"
| "compress_all (s # ss) st =
     do {
       (cnt, out, st) \<leftarrow> cg_statement_pieces s (snd (bopen 0 raw_charbuf)) st;
       (texts, st) \<leftarrow> compress_all ss st;
       Some (buf_text out # texts, st)
     }"

lemma init_ok:
  assumes "n < 2 ^ 26"
  shows "pieces_ok n pieces_init []"
proof -
  let ?t = "symtab_new_case_sens :: (i32, unit) symtab"
  have cfg: "symtab_cfg ?t" by (simp add: symtab_new_case_sens_def symtab_cfg_def sens.hashed_keys_axioms)
  have e: "symtab_inv ?t" "symtab_entries ?t = {}"
    by (rule empty_table_inv [OF cfg]; simp add: symtab_new_case_sens_def symtab_new_def set_payload_def SYMTAB_INIT_SIZE_def)+
  have "charbuf_ready (26 * n) (snd (bopen 0 raw_charbuf))" using assms by (intro fresh_ready) simp
  moreover have "map_option ((@) []) x = x" for x :: "char list option" by (cases x) simp_all
  ultimately show ?thesis
    using e assms
    by (auto simp: pieces_ok_def pieces_init_def fresh_text symtab_new_case_sens_def symtab_new_def set_payload_def SYMTAB_INIT_SIZE_def)
qed

text \<open>The literal of a statement that the pieces \<open>ps\<close> spell.\<close>

definition printed :: "cstring list \<Rightarrow> cstring \<Rightarrow> cstring \<Rightarrow> bool" where
  "printed ps s txt \<longleftrightarrow> (\<exists>js. (\<forall>j \<in> set js. j < length ps) \<and> s = spell ps js \<and>
     txt = DQUOTE # hex_text (num_chars (Suc (length s)) @ frags_of ps js) @ [DQUOTE])"

lemma printed_mono: "printed ps s txt \<Longrightarrow> prefix ps qs \<Longrightarrow> printed qs s txt"
  unfolding printed_def using spell_mono by metis

lemma compress_all_ok:
  assumes "pieces_ok (sum_list (map length ss) + n) st ps" and "\<forall>s \<in> set ss. cstr s \<and> s \<noteq> []" and "\<forall>s \<in> set ss. length s < 2 ^ 25"
  shows "\<exists>texts st' qs. compress_all ss st = Some (texts, st') \<and> prefix ps qs \<and> pieces_ok n st' qs \<and> list_all2 (printed qs) ss texts"
  using assms
proof (induction ss arbitrary: st ps)
  case Nil
  then show ?case by (intro exI [of _ "[]"] exI [of _ st] exI [of _ ps]) simp
next
  case (Cons s ss)
  have inv: "pieces_ok (length s + (sum_list (map length ss) + n)) st ps" using Cons.prems(1) by (simp add: add.assoc)
  have room: "charbuf_ready (20 * length s + 22) (snd (bopen 0 raw_charbuf))" using Cons.prems(3) by (intro fresh_ready) simp
  obtain cnt out st1 qs js where 1: "cg_statement_pieces s (snd (bopen 0 raw_charbuf)) st = Some (cnt, out, st1)" "prefix ps qs"
    "pieces_ok (sum_list (map length ss) + n) st1 qs" "\<forall>j \<in> set js. j < length qs" "s = spell qs js"
    "buf_text out = DQUOTE # hex_text (num_chars (Suc (length s)) @ frags_of qs js) @ [DQUOTE]"
    using statement_pieces_ok [OF inv _ _ room] Cons.prems(2) by (auto simp: fresh_text)
  have "printed qs s (buf_text out)" unfolding printed_def using 1(4-6) by blast
  moreover obtain texts st' qs' where "compress_all ss st1 = Some (texts, st')" "prefix qs qs'" "pieces_ok n st' qs'" "list_all2 (printed qs') ss texts"
    using Cons.IH [OF 1(3)] Cons.prems(2,3) by auto
  ultimately show ?case
    using 1(1,2) printed_mono prefix_order.trans
    by (intro exI [of _ "buf_text out # texts"] exI [of _ st'] exI [of _ qs']) auto
qed

text \<open>
  C9. Compression is lossless from the compiler to the runtime.  For all statements of a compilation, what
  the C compiler reads from the printed array of pieces and from the printed fragments of a statement
  gives back exactly that statement in \<open>cql_uncompress\<close>, \<open>cql_exec_frags\<close> and \<open>cql_prepare_frags\<close>, inside
  the block that they allocate; this includes texts with bytes that the printer writes in hexadecimal.
\<close>

theorem compressed_statements_read_back:
  assumes "\<forall>s \<in> set ss. cstr s \<and> s \<noteq> []" and "sum_list (map length ss) < 2 ^ 25"
  shows "\<exists>texts st pieces. compress_all ss pieces_init = Some (texts, st) \<and>
    c_strings (buf_text (cg_pieces_output st)) = Some pieces \<and>
    list_all2 (\<lambda>s txt. \<exists>frags. c_strings txt = Some frags \<and>
      cql_uncompress (pieces @ [NUL]) (frags @ [NUL]) = Some s \<and>
      (\<forall>exec db. cql_exec_frags exec (pieces @ [NUL]) (frags @ [NUL]) db = Some (exec s db :: 'r)) \<and>
      (\<forall>finalize prepare pstmt db. cql_prepare_frags finalize prepare pstmt (pieces @ [NUL]) (frags @ [NUL]) db =
         Some (prepare s (of_nat (Suc (length s))) (snd (cql_finalize_stmt finalize pstmt db)) :: 'r))) ss texts"
    (is "\<exists>texts st pieces. _ \<and> _ \<and> list_all2 (?R pieces) ss texts")
proof -
  have len: "\<forall>s \<in> set ss. length s < 2 ^ 25" using assms(2) member_le_sum_list [of _ "map length ss"] by fastforce
  have start: "pieces_ok (sum_list (map length ss) + 0) pieces_init []" using assms(2) by (intro init_ok) simp
  obtain texts st ps where c: "compress_all ss pieces_init = Some (texts, st)" "pieces_ok 0 st ps" "list_all2 (printed ps) ss texts"
    using compress_all_ok [OF start assms(1) len] by blast
  note d = pieces_okD [OF c(2)]
  have arr: "c_strings (buf_text (cg_pieces_output st)) = Some (base ps)" using d(9) [of "[]"] by (simp add: c_strings.simps)
  have small: "length (base ps) < 2 ^ 30" using d(6) by simp
  have "list_all2 (?R (base ps)) ss texts"
  proof (rule list.rel_mono_strong [OF c(3)])
    fix s t assume s: "s \<in> set ss" "t \<in> set texts" "printed ps s t"
    then obtain js where js: "\<forall>j \<in> set js. j < length ps" "s = spell ps js" "t = DQUOTE # hex_text (num_chars (Suc (length s)) @ frags_of ps js) @ [DQUOTE]"
      unfolding printed_def by blast
    have l: "cstr s" "length s < 2 ^ 30" using s(1) assms(1) len by fastforce+
    let ?f = "num_chars (Suc (length s)) @ frags_of ps js"
    have f: "?f @ [NUL] = num_chars (Suc (length s)) @ frags_of ps js @ [NUL]" by simp
    have "c_strings t = Some ?f" unfolding js(3) by (rule strings_hex_text)
    then show "?R (base ps) s t"
      by (intro exI [of _ ?f] conjI allI) (assumption | rule readers_ok [OF js(1) d(5) small js(2) l f])+
  qed
  then show ?thesis using c(1) arr by blast
qed

theorem compressed_statements_read_back_witness:
  "\<exists>t1 t2 st pieces f2. compress_all [''SELECT a FROM t'', ''SELECT b''] pieces_init = Some ([t1, t2], st) \<and>
     c_strings (buf_text (cg_pieces_output st)) = Some pieces \<and> c_strings t2 = Some f2 \<and>
     cql_uncompress (pieces @ [NUL]) (f2 @ [NUL]) = Some ''SELECT b''"
proof -
  have "\<forall>s \<in> set [''SELECT a FROM t'', ''SELECT b'']. cstr s \<and> s \<noteq> []"
    "sum_list (map length [''SELECT a FROM t'', ''SELECT b'']) < 2 ^ 25" by (simp_all add: cstr_def)
  from compressed_statements_read_back [OF this] show ?thesis
    by (elim exE conjE, unfold list_all2_Cons1 list_all2_Nil, elim exE conjE, hypsubst) (intro exI conjI, assumption+)
qed

section \<open>Concatenation of fragments\<close>

fun kept :: "bool list option \<Rightarrow> nat \<Rightarrow> cstring list \<Rightarrow> cstring list" where
  "kept preds i [] = []"
| "kept preds i (s # strs) = (if selected preds i then s # kept preds (Suc i) strs else kept preds (Suc i) strs)"

lemma kept_subset: "set (kept preds i strs) \<subseteq> set strs"
  by (induction strs arbitrary: i) (auto split: if_splits)

lemma concat_size_kept:
  "concat_size preds i strs b = b + of_nat (length (concat (kept preds i strs)))"
  by (induction strs arbitrary: i b) (simp_all add: add.assoc)

lemma concat_copy_kept:
  assumes "mem_holds m d" and "length d + length (concat (kept preds i strs)) < mem_size m" and "mem_size m < 2 ^ 31"
    and "off = of_nat (length d)" and "kept preds i strs \<noteq> []"
  shows "mem_holds (concat_copy preds i strs m off) (d @ concat (kept preds i strs) @ [NUL])"
  using assms
proof (induction strs arbitrary: i m d off)
  case (Cons s strs)
  show ?case
  proof (cases "selected preds i")
    case False
    then show ?thesis using Cons.IH [of m d "Suc i" off] Cons.prems by simp
  next
    case True
    let ?m = "mem_store m (length d) (Some (map Some (s @ [NUL])))"
    have fit: "length d + length (s @ [NUL]) \<le> mem_size m" using Cons.prems(2) True by simp
    have m: "mem_holds ?m (d @ s @ [NUL])" "mem_size ?m = mem_size m"
      using mem_holds_store_end [OF Cons.prems(1) fit] mem_holds_store(2) [OF Cons.prems(1) _ fit refl] by simp_all
    have d31: "length d < 2 ^ 31" using Cons.prems(2,3) by simp
    have step: "concat_copy preds i (s # strs) m off = concat_copy preds (Suc i) strs ?m (off + of_nat (length s))"
      using True sint_of_small [OF d31] Cons.prems(4) by (simp add: Let_def)
    show ?thesis
    proof (cases "kept preds (Suc i) strs = []")
      case True
      have "concat_copy preds (Suc i) strs x o' = x" for x o'
        using True by (induction strs arbitrary: i x o') (auto split: if_splits)
      then show ?thesis using step m(1) True \<open>selected preds i\<close> by simp
    next
      case False
      have "mem_holds ?m (d @ s)" using mem_holds_prefix [of ?m "d @ s" "[NUL]"] m(1) by simp
      then have "mem_holds (concat_copy preds (Suc i) strs ?m (off + of_nat (length s))) ((d @ s) @ concat (kept preds (Suc i) strs) @ [NUL])"
        using Cons.prems(2-4) True False m(2) by (intro Cons.IH) simp_all
      then show ?thesis using step True by simp
    qed
  qed
qed simp

lemma concat_copy_none: "kept preds i strs = [] \<Longrightarrow> concat_copy preds i strs m off = m"
  by (induction strs arbitrary: i) (auto split: if_splits)

lemma concat_copy_fault: "concat_copy preds i strs Fault off = Fault"
  by (induction strs arbitrary: i off) (simp_all add: Let_def)

lemma concat_copy_size:
  "concat_copy preds i strs m off \<noteq> Fault \<Longrightarrow> mem_size (concat_copy preds i strs m off) = mem_size m"
proof (induction strs arbitrary: i m off)
  case (Cons s strs)
  let ?m = "mem_store m (nat (sint off)) (Some (map Some (s @ [NUL])))"
  show ?case
  proof (cases "selected preds i")
    case True
    then have "\<not> sint off < 0" "concat_copy preds (i + 1) strs ?m (off + of_nat (length s)) \<noteq> Fault"
      using Cons.prems by (auto simp: Let_def concat_copy_fault split: if_splits)
    moreover from this have "?m \<noteq> Fault" using concat_copy_fault by metis
    ultimately show ?thesis using True Cons.IH [of "i + 1" ?m] mem_size_store [of m "nat (sint off)" "map Some (s @ [NUL])"] by (simp add: Let_def)
  qed (use Cons in simp)
qed simp

text \<open>
  C38. \<open>cql_vconcat\<close> sizes its block exactly: for texts whose sum is below 2 ^ 31 - 1 it allocates one byte
  more than the sum of the lengths of the selected texts, no copy leaves the block, and the result is the
  concatenation of these texts, whose NUL is the last byte.  When nothing is selected the block
  is returned without its terminating NUL, so that it holds no string at all.
\<close>

theorem vconcat_concatenates:
  assumes "\<forall>s \<in> set strs. cstr s" and "length (concat (kept preds 0 strs)) + 1 < 2 ^ 31"
  shows "mem_size (cql_vconcat preds strs) = length (concat (kept preds 0 strs)) + 1 \<and> cql_vconcat preds strs \<noteq> Fault \<and>
    block_cstr (cql_vconcat preds strs) = (if kept preds 0 strs = [] then None else Some (concat (kept preds 0 strs)))"
proof -
  let ?k = "kept preds 0 strs"
  have size: "unat (concat_size preds 0 strs 0 + 1) = length (concat ?k) + 1"
    using assms(2) unat_of_nat_u32 [of "length (concat ?k) + 1"] by (simp add: concat_size_kept add.commute)
  have k: "\<forall>s \<in> set ?k. cstr s" using assms(1) kept_subset by blast
  then have c: "cstr (concat ?k)" by (auto simp: cstr_def)
  show ?thesis
  proof (cases "?k = []")
    case True
    then show ?thesis using concat_copy_none [OF True] size by (simp add: cql_vconcat_def Let_def block_cstr_def mem_alloc_def)
  next
    case False
    have "mem_holds (cql_vconcat preds strs) ([] @ concat ?k @ [NUL])"
      unfolding cql_vconcat_def Let_def size by (rule concat_copy_kept) (use assms(2) False in simp_all)
    moreover from this have "cql_vconcat preds strs \<noteq> Fault" by auto
    then have "mem_size (cql_vconcat preds strs) = length (concat ?k) + 1"
      using concat_copy_size [of preds 0 strs "mem_alloc (length (concat ?k) + 1)" 0] size by (simp add: cql_vconcat_def Let_def)
    ultimately show ?thesis using block_cstr_text [OF _ c] False by (cases "cql_vconcat preds strs") auto
  qed
qed

theorem vconcat_concatenates_witness:
  "mem_size (cql_vconcat (Some [True, False, True]) [''a'', ''b'', ''c'']) = 3 \<and> block_cstr (cql_vconcat (Some [True, False, True]) [''a'', ''b'', ''c'']) = Some ''ac''"
proof -
  have "\<forall>s \<in> set [''a'', ''b'', ''c'']. cstr s" by simp
  moreover have "length (concat (kept (Some [True, False, True]) 0 [''a'', ''b'', ''c''])) + 1 < 2 ^ 31" by (simp add: selected_def)
  ultimately have "mem_size (cql_vconcat (Some [True, False, True]) [''a'', ''b'', ''c'']) = length (concat (kept (Some [True, False, True]) 0 [''a'', ''b'', ''c''])) + 1"
    "block_cstr (cql_vconcat (Some [True, False, True]) [''a'', ''b'', ''c'']) =
      (if kept (Some [True, False, True]) 0 [''a'', ''b'', ''c''] = [] then None else Some (concat (kept (Some [True, False, True]) 0 [''a'', ''b'', ''c''])))"
    using vconcat_concatenates by blast+
  then show ?thesis by (simp add: selected_def)
qed

section \<open>Literals that a C compiler misreads\<close>

lemma xdigit_lit:
  assumes "IsXDigit d"
  shows "c_lit d = [d]"
proof -
  have "\<not> hexed d" using classes(1) [OF assms] classes(2) [of d] by auto
  moreover have "list_all (\<lambda>c. \<not> IsXDigit c) [DQUOTE, CHR 0x07, CHR 0x08, CHR 0x0C, CHR 0x0A, CHR 0x0D, CHR 0x09, CHR 0x0B, BSLASH]" by code_simp
  then have "c_special d = None" using assms by (auto simp: c_special_def)
  ultimately show ?thesis by (simp add: c_lit_def hexed_def)
qed

lemma lit_digits: "list_all IsXDigit ds \<Longrightarrow> lit (ds @ s) = ds @ lit s"
  by (induction ds) (simp_all add: lit_def xdigit_lit)

lemma lit_head:
  assumes "s = [] \<or> \<not> IsXDigit (hd s)"
  shows "\<not> IsXDigit (hd (lit s @ [DQUOTE]))"
proof (cases s)
  case (Cons c r)
  have "hd (c_lit c @ x) = c \<or> hd (c_lit c @ x) = BSLASH" for x by (simp add: c_lit_def split: option.splits)
  then show ?thesis using Cons assms not_xdigit(1) by (simp add: lit_def) metis
qed (simp add: lit_def not_xdigit)

lemma read_length:
  "c_literal (lit s @ [DQUOTE]) = Some (t, r) \<Longrightarrow> r = [] \<and> length t \<le> length s \<and> (length t = length s \<longrightarrow> hex_safe s)"
proof (induction "length s" arbitrary: s t rule: less_induct)
  case less
  show ?case
  proof (cases s)
    case Nil
    then show ?thesis using less.prems by (auto simp: lit_def)
  next
    case (Cons c s')
    show ?thesis
    proof (cases "hexed c \<and> s' \<noteq> [] \<and> IsXDigit (hd s')")
      case False
      have "c_literal (c_lit c @ lit s' @ [DQUOTE]) = map_option (\<lambda>(t, u). (c # t, u)) (c_literal (lit s' @ [DQUOTE]))"
        by (rule literal_c_lit) (use False lit_head in blast)
      then obtain t' where t': "c_literal (lit s' @ [DQUOTE]) = Some (t', r)" "t = c # t'"
        using less.prems Cons by (auto simp: lit_def)
      have "hex_safe (c # s')" if "hex_safe s'" using that False by (cases s') auto
      then show ?thesis using less.hyps [OF _ t'(1)] t'(2) Cons by auto
    next
      case True
      define ds where "ds = takeWhile IsXDigit s'"
      define rest where "rest = dropWhile IsXDigit s'"
      have s': "s' = ds @ rest" by (simp add: ds_def rest_def)
      have ds: "list_all IsXDigit ds" "ds \<noteq> []" using True by (cases s'; auto simp: ds_def list_all_iff dest: set_takeWhileD)+
      have "rest = [] \<or> \<not> IsXDigit (hd rest)" unfolding rest_def using hd_dropWhile by blast
      then have "takeWhile IsXDigit ((hex2 c @ ds) @ lit rest @ [DQUOTE]) = hex2 c @ ds"
        using hex2_digits(2) [of c] ds(1) lit_head by (intro digits_end) auto
      then have esc: "c_escape_seq (CHR ''x'' # hex2 c @ ds @ lit rest @ [DQUOTE]) =
          (if number 16 (hex2 c @ ds) \<ge> 256 then None else Some (char_of (number 16 (hex2 c @ ds)), lit rest @ [DQUOTE]))"
        using ds(2) by (simp add: c_escape_seq_def Let_def)
      have "lit s = BSLASH # CHR ''x'' # hex2 c @ ds @ lit rest"
        using True lit_digits [OF ds(1), of rest] unfolding Cons s' by (simp add: lit_def c_lit_def hexed_def)
      then obtain t' d where t': "c_literal (lit rest @ [DQUOTE]) = Some (t', r)" "t = d # t'"
        using less.prems esc by (auto split: if_splits option.splits)
      have "length rest < length s" "Suc (length rest) < length s" using ds(2) unfolding Cons s' by (cases ds; simp)+
      then show ?thesis using less.hyps [OF _ t'(1)] t'(2) by auto
    qed
  qed
qed

text \<open>
  C37. The literal that \<open>cg_encode_c_string_literal\<close> prints is read back by a C compiler exactly when no
  character that it prints in hexadecimal stands before a hexadecimal digit: a C hexadecimal escape
  has no fixed length and swallows the digits that follow.
\<close>

theorem c_literal_reads_back_iff:
  assumes "cstr s" and "length s < 2 ^ 28"
  shows "c_strings (buf_text (cg_encode_c_string_literal s (snd (bopen 0 raw_charbuf)))) = Some s \<longleftrightarrow> hex_safe s"
proof -
  have "charbuf_ready (length (DQUOTE # concat (map c_lit s) @ [DQUOTE])) (snd (bopen 0 raw_charbuf))"
    using lit_length [of s] assms(2) by (intro fresh_ready) (simp add: lit_def)
  then have b: "buf_text (cg_encode_c_string_literal s (snd (bopen 0 raw_charbuf))) = DQUOTE # lit s @ [DQUOTE]"
    using cb.emits_contents [OF cg_encode_c_string_literal_emits [OF assms(1)]] by (simp add: fresh_text lit_def)
  have "c_strings (DQUOTE # lit s @ [DQUOTE]) = map_option fst (c_literal (lit s @ [DQUOTE]))"
    using read_length [of s] by (subst c_strings.simps) (auto simp: c_strings.simps [of "[]"] split: option.splits)
  then show ?thesis using literal_whole [of s] read_length [of s] unfolding b by (cases "c_literal (lit s @ [DQUOTE])") auto
qed

theorem c_literal_reads_back_iff_witness:
  "c_strings (buf_text (cg_encode_c_string_literal [CHR 0x01, CHR ''b''] (snd (bopen 0 raw_charbuf)))) \<noteq> Some [CHR 0x01, CHR ''b'']"
proof -
  have "cstr [CHR 0x01, CHR ''b'']" "length [CHR 0x01, CHR ''b''] < 2 ^ 28" by simp_all
  moreover have "\<not> hex_safe [CHR 0x01, CHR ''b'']" by code_simp
  ultimately show ?thesis using c_literal_reads_back_iff by blast
qed

end
