(* ===== verification/Rows.thy ===== *)
theory Rows
  imports Refs Blobs Serialize
begin

text \<open>
  Rows, result sets and dynamic cursors of the runtime (\<open>sources/cqlrt_common.c\<close>) as bytes: a row is a
  C struct whose references, 64-bit addresses, follow each other at the end.  A pointer into a block is
  the list of the bytes from there to the end of the block; an access past it is \<open>None\<close>, like a failed
  contract and an access to an address without an object.
\<close>

section \<open>References in a row\<close>

definition load_ref :: "u8 list \<Rightarrow> u16 \<Rightarrow> i64 option" where
  "load_ref base refs_offset = map_option u64_of_bytes (slice base (unat refs_offset) 8)"

definition store_ref :: "u8 list \<Rightarrow> u16 \<Rightarrow> i64 \<Rightarrow> u8 list option" where
  "store_ref base refs_offset ref =
     (if unat refs_offset + 8 \<le> length base
      then Some (take (unat refs_offset) base @ bytes_of_u64 ref @ drop (unat refs_offset + 8) base)
      else None)"

fun release_offsets_loop :: "nat \<Rightarrow> u16 \<Rightarrow> u8 list \<Rightarrow> cql_heap \<Rightarrow> (u8 list \<times> cql_heap) option" where
  "release_offsets_loop 0 refs_offset base h = Some (base, h)"
| "release_offsets_loop (Suc n) refs_offset base h =
     do {
       ref \<leftarrow> load_ref base refs_offset;
       h \<leftarrow> cql_release ref h;
       base \<leftarrow> store_ref base refs_offset 0;
       release_offsets_loop n (refs_offset + 8) base h
     }"

definition cql_release_offsets :: "u8 list \<Rightarrow> u16 \<Rightarrow> u16 \<Rightarrow> cql_heap \<Rightarrow> (u8 list \<times> cql_heap) option" where
  "cql_release_offsets pv refs_count refs_offset h =
     (if refs_count \<noteq> 0 then release_offsets_loop (unat refs_count) refs_offset pv h else Some (pv, h))"

fun retain_offsets_loop :: "nat \<Rightarrow> u16 \<Rightarrow> u8 list \<Rightarrow> cql_heap \<Rightarrow> cql_heap option" where
  "retain_offsets_loop 0 refs_offset base h = Some h"
| "retain_offsets_loop (Suc n) refs_offset base h =
     do {
       ref \<leftarrow> load_ref base refs_offset;
       h \<leftarrow> cql_retain ref h;
       retain_offsets_loop n (refs_offset + 8) base h
     }"

definition cql_retain_offsets :: "u8 list \<Rightarrow> u16 \<Rightarrow> u16 \<Rightarrow> cql_heap \<Rightarrow> cql_heap option" where
  "cql_retain_offsets pv refs_count refs_offset h =
     (if refs_count \<noteq> 0 then retain_offsets_loop (unat refs_count) refs_offset pv h else Some h)"

section \<open>Hash and equality of the bytes of a row\<close>

fun hash_refs_loop :: "cql_heap \<Rightarrow> u8 list \<Rightarrow> nat \<Rightarrow> u16 \<Rightarrow> u64 \<Rightarrow> u64 option" where
  "hash_refs_loop h base 0 refs_offset acc = Some acc"
| "hash_refs_loop h base (Suc n) refs_offset acc =
     do {
       ref \<leftarrow> load_ref base refs_offset;
       ref_hash \<leftarrow> cql_ref_hash h ref;
       hash_refs_loop h base n (refs_offset + 8) ((push_bit 5 acc + acc) + ref_hash)
     }"

definition cql_hash_buffer :: "cql_heap \<Rightarrow> u8 list \<Rightarrow> u64 \<Rightarrow> u16 \<Rightarrow> u16 \<Rightarrow> u64 option" where
  "cql_hash_buffer h base row_size refs_count refs_offset =
     do {
       bytes \<leftarrow> slice base 0 (if refs_count \<noteq> 0 then unat refs_offset else unat row_size);
       let acc = foldl djb2_step 5381 bytes;
       if refs_count \<noteq> 0 then hash_refs_loop h base (unat refs_count) refs_offset acc else Some acc
     }"

fun equal_refs_loop :: "cql_heap \<Rightarrow> u8 list \<Rightarrow> u8 list \<Rightarrow> nat \<Rightarrow> u16 \<Rightarrow> bool option" where
  "equal_refs_loop h data1 data2 0 refs_offset = Some True"
| "equal_refs_loop h data1 data2 (Suc n) refs_offset =
     do {
       ref1 \<leftarrow> load_ref data1 refs_offset;
       ref2 \<leftarrow> load_ref data2 refs_offset;
       eq \<leftarrow> cql_ref_equal h ref1 ref2;
       if \<not> eq then Some False else equal_refs_loop h data1 data2 n (refs_offset + 8)
     }"

definition memcmp_eq :: "u8 list \<Rightarrow> nat \<Rightarrow> u8 list \<Rightarrow> nat \<Rightarrow> nat \<Rightarrow> bool option" where
  "memcmp_eq data1 at1 data2 at2 n = do { b1 \<leftarrow> slice data1 at1 n; b2 \<leftarrow> slice data2 at2 n; Some (b1 = b2) }"

definition cql_buffers_equal :: "cql_heap \<Rightarrow> u8 list \<Rightarrow> u8 list \<Rightarrow> u64 \<Rightarrow> u16 \<Rightarrow> u16 \<Rightarrow> bool option" where
  "cql_buffers_equal h data1 data2 row_size refs_count refs_offset =
     do {
       eq \<leftarrow> memcmp_eq data1 0 data2 0 (if refs_count \<noteq> 0 then unat refs_offset else unat row_size);
       if \<not> eq then Some False
       else if refs_count \<noteq> 0 then equal_refs_loop h data1 data2 (unat refs_count) refs_offset
       else Some True
     }"

section \<open>Result sets\<close>

text \<open>
  The tables of a shape are static arrays, an address and the cells there.  Of the metadata the pointers to the
  shared functions (teardown, hash, comparisons, copy), the same for every result set, are left out.
\<close>

record 'a static_array =
  array_at :: i64
  cells :: "'a list"

definition array_get :: "'a static_array \<Rightarrow> nat \<Rightarrow> 'a option" where
  "array_get a i = (if i < length (cells a) then Some (cells a ! i) else None)"

record cql_fetch_info =
  data_types :: "u8 static_array"
  col_offsets :: "u16 static_array"
  refs_count :: u16
  refs_offset :: u16
  identity_columns :: "u16 static_array option"
  info_rowsize :: u32

record cql_result_set_meta =
  refsCount :: u16
  refsOffset :: u16
  columnOffsets :: "u16 static_array"
  rowsize :: u64
  columnCount :: i32
  identityColumns :: "u16 static_array option"
  dataTypes :: "u8 static_array"

definition cql_initialize_meta :: "cql_fetch_info \<Rightarrow> cql_result_set_meta option" where
  "cql_initialize_meta info =
     do {
       cols \<leftarrow> array_get (col_offsets info) 0;
       Some \<lparr>refsCount = refs_count info, refsOffset = refs_offset info, columnOffsets = col_offsets info,
             rowsize = ucast (info_rowsize info), columnCount = ucast cols, identityColumns = identity_columns info,
             dataTypes = data_types info\<rparr>
     }"

record cql_result_set =
  rs_meta :: cql_result_set_meta
  rs_count :: i32
  rs_data :: "u8 list"

text \<open>The new object has one reference.\<close>

definition cql_result_set_create :: "u8 list \<Rightarrow> i32 \<Rightarrow> cql_result_set_meta \<Rightarrow> cql_heap \<Rightarrow> cql_result_set \<times> cql_heap" where
  "cql_result_set_create bytes cnt meta h =
     (\<lparr>rs_meta = meta, rs_count = cnt, rs_data = bytes\<rparr>, h\<lparr>cql_outstanding_refs := cql_outstanding_refs h + 1\<rparr>)"

text \<open>The pointer \<open>data + (size_t)row * row_size\<close>.\<close>

definition row_at :: "cql_result_set \<Rightarrow> i32 \<Rightarrow> u8 list option" where
  "row_at rs row =
     (let off = unat (scast row * rowsize (rs_meta rs)) in
      if off \<le> length (rs_data rs) then Some (drop off (rs_data rs)) else None)"

fun release_rows_loop :: "nat \<Rightarrow> u16 \<Rightarrow> u16 \<Rightarrow> u64 \<Rightarrow> u8 list \<Rightarrow> cql_heap \<Rightarrow> cql_heap option" where
  "release_rows_loop 0 rc ro size_of_row row h = Some h"
| "release_rows_loop (Suc n) rc ro size_of_row row h =
     do {
       (row, h) \<leftarrow> cql_release_offsets row rc ro h;
       release_rows_loop n rc ro size_of_row (drop (unat size_of_row) row) h
     }"

definition cql_result_set_teardown :: "cql_result_set \<Rightarrow> cql_heap \<Rightarrow> cql_heap option" where
  "cql_result_set_teardown rs h =
     (let meta = rs_meta rs in
      if refsCount meta \<noteq> 0 \<and> rs_count rs \<noteq> 0
      then release_rows_loop (nat (sint (rs_count rs))) (refsCount meta) (refsOffset meta) (rowsize meta) (rs_data rs) h
      else Some h)"

definition cql_row_hash :: "cql_heap \<Rightarrow> cql_result_set \<Rightarrow> i32 \<Rightarrow> u64 option" where
  "cql_row_hash h rs row =
     do {
       require (sint row < sint (rs_count rs));
       let meta = rs_meta rs;
       base \<leftarrow> row_at rs row;
       cql_hash_buffer h base (rowsize meta) (refsCount meta) (refsOffset meta)
     }"

definition cql_rows_equal :: "cql_heap \<Rightarrow> cql_result_set \<Rightarrow> i32 \<Rightarrow> cql_result_set \<Rightarrow> i32 \<Rightarrow> bool option" where
  "cql_rows_equal h rs1 row1 rs2 row2 =
     do {
       require (sint row1 < sint (rs_count rs1));
       require (sint row2 < sint (rs_count rs2));
       let meta1 = rs_meta rs1;
       let meta2 = rs_meta rs2;
       require (refsCount meta2 = refsCount meta1);
       require (refsOffset meta2 = refsOffset meta1);
       data1 \<leftarrow> row_at rs1 row1;
       data2 \<leftarrow> (let off = unat (scast row2 * rowsize meta1) in
                 if off \<le> length (rs_data rs2) then Some (drop off (rs_data rs2)) else None);
       cql_buffers_equal h data1 data2 (rowsize meta1) (refsCount meta1) (refsOffset meta1)
     }"

definition normal_datasizes :: "nat list" where
  "normal_datasizes = [0, 4, 8, 8, 1]"

definition nullable_datasizes :: "nat list" where
  "nullable_datasizes = [0, 8, 16, 16, 2]"

fun rows_same_loop :: "cql_heap \<Rightarrow> cql_result_set_meta \<Rightarrow> u16 static_array \<Rightarrow> u8 list \<Rightarrow> u8 list \<Rightarrow> nat \<Rightarrow> nat \<Rightarrow> bool option" where
  "rows_same_loop h meta ids data1 data2 0 i = Some True"
| "rows_same_loop h meta ids data1 data2 (Suc n) i =
     do {
       col \<leftarrow> array_get ids (i + 1);
       offset \<leftarrow> array_get (columnOffsets meta) (unat col + 1);
       eq \<leftarrow> (if offset < refsOffset meta then
                do {
                  type \<leftarrow> array_get (dataTypes meta) (unat col);
                  let core = unat (type AND CQL_DATA_TYPE_CORE);
                  require (core < 5);
                  let n_bytes = (if not_null type then normal_datasizes ! core else nullable_datasizes ! core);
                  memcmp_eq data1 (unat offset) data2 (unat offset) n_bytes
                }
              else
                do {
                  ref1 \<leftarrow> load_ref data1 offset;
                  ref2 \<leftarrow> load_ref data2 offset;
                  cql_ref_equal h ref1 ref2
                });
       if \<not> eq then Some False else rows_same_loop h meta ids data1 data2 n (i + 1)
     }"

definition cql_rows_same :: "cql_heap \<Rightarrow> cql_result_set \<Rightarrow> i32 \<Rightarrow> cql_result_set \<Rightarrow> i32 \<Rightarrow> bool option" where
  "cql_rows_same h rs1 row1 rs2 row2 =
     do {
       require (sint row1 < sint (rs_count rs1));
       require (sint row2 < sint (rs_count rs2));
       require (rs_meta rs1 = rs_meta rs2);
       ids \<leftarrow> identityColumns (rs_meta rs1);
       identityColumnCount \<leftarrow> array_get ids 0;
       require (identityColumnCount > 0);
       data1 \<leftarrow> row_at rs1 row1;
       data2 \<leftarrow> row_at rs2 row2;
       rows_same_loop h (rs_meta rs1) ids data1 data2 (unat identityColumnCount) 0
     }"

fun retain_rows_loop :: "nat \<Rightarrow> cql_result_set_meta \<Rightarrow> u8 list \<Rightarrow> cql_heap \<Rightarrow> cql_heap option" where
  "retain_rows_loop 0 meta row h = Some h"
| "retain_rows_loop (Suc n) meta row h =
     do {
       h \<leftarrow> cql_retain_offsets row (refsCount meta) (refsOffset meta) h;
       retain_rows_loop n meta (drop (unat (rowsize meta)) row) h
     }"

text \<open>The block of \<open>calloc\<close> is overwritten by the copy of the rows.\<close>

definition cql_rowset_copy :: "cql_result_set \<Rightarrow> i32 \<Rightarrow> i32 \<Rightarrow> cql_heap \<Rightarrow> (cql_result_set \<times> cql_heap) option" where
  "cql_rowset_copy rs from cnt h =
     do {
       require (sint from \<ge> 0);
       require (sint from + sint cnt \<le> sint (rs_count rs));
       let meta = rs_meta rs;
       new_data \<leftarrow> slice (rs_data rs) (unat (rowsize meta * scast from)) (unat (scast cnt * rowsize meta));
       h \<leftarrow> retain_rows_loop (nat (sint cnt)) meta new_data h;
       Some (cql_result_set_create new_data cnt meta h)
     }"

section \<open>Dynamic cursors\<close>

text \<open>
  A cursor over the bytes of its row; the names of its fields are not read here.
\<close>

record cql_row_cursor =
  cur_data :: "u8 list"
  cur_has_row :: bool
  cur_col_offsets :: "u16 static_array"
  cur_data_types :: "u8 static_array"
  cur_size :: u64
  cur_refs_count :: u16
  cur_refs_offset :: u16

definition cql_cursor_hash :: "cql_heap \<Rightarrow> cql_row_cursor \<Rightarrow> u64 option" where
  "cql_cursor_hash h c =
     (if \<not> cur_has_row c then Some 0 else cql_hash_buffer h (cur_data c) (cur_size c) (cur_refs_count c) (cur_refs_offset c))"

definition cql_cursors_equal :: "cql_heap \<Rightarrow> cql_row_cursor \<Rightarrow> cql_row_cursor \<Rightarrow> bool option" where
  "cql_cursors_equal h c1 c2 =
     (if cur_size c1 \<noteq> cur_size c2 \<or> cur_refs_count c1 \<noteq> cur_refs_count c2 \<or> cur_refs_offset c1 \<noteq> cur_refs_offset c2 \<or>
         cur_has_row c1 \<noteq> cur_has_row c2
      then Some False
      else if \<not> cur_has_row c1 then Some True
      else cql_buffers_equal h (cur_data c1) (cur_data c2) (cur_size c1) (cur_refs_count c1) (cur_refs_offset c1))"

end
