(* ===== verification/Partition.thy ===== *)
theory Partition
  imports Rows Hashtab
begin

text \<open>
  Partitions of the runtime (\<open>sources/cqlrt_common.c\<close>): rows are grouped by the columns of a key in a
  hash table whose keys are copies of key rows and whose values are byte buffers of rows; extracting a
  group turns its buffer into a result set, which is kept for the next request.  The hash table works on
  the memory \<open>part_mem\<close>; the pointers are addresses in its maps.
\<close>

section \<open>Memory and objects\<close>

text \<open>
  The blocks are the copies of keys and the rows of the cursors of the caller; the result sets have their reference
  counts.  The cursors are those of the struct \<open>cql_partition\<close>, to which the functions of the hash table have
  access through their context; the data pointers in them are written before every use and are arguments
  here.
\<close>

record part_mem =
  pm_refs :: cql_heap
  pm_blocks :: "i64 \<rightharpoonup> u8 list"
  pm_bufs :: "i64 \<rightharpoonup> cql_bytebuf"
  pm_sets :: "i64 \<rightharpoonup> i32 \<times> cql_result_set"
  c_key :: cql_row_cursor
  c_key2 :: cql_row_cursor
  c_val :: cql_row_cursor

record cql_partition =
  part_ht :: "part_mem cql_hashtab"
  empty_result :: i64
  did_extract :: bool

text \<open>A cursor of the caller with the address of its row.\<close>

record cql_cursor_at = cql_row_cursor +
  cur_at :: i64

text \<open>Retaining and releasing a result set; the last release tears it down.\<close>

definition cql_object_retain :: "i64 \<Rightarrow> part_mem \<Rightarrow> part_mem option" where
  "cql_object_retain obj mem =
     (if obj \<noteq> 0 then
        do {
          (n, rs) \<leftarrow> pm_sets mem obj;
          let refs = pm_refs mem;
          Some (mem\<lparr>pm_sets := (pm_sets mem)(obj \<mapsto> (n + 1, rs)),
                    pm_refs := refs\<lparr>cql_outstanding_refs := cql_outstanding_refs refs + 1\<rparr>\<rparr>)
        }
      else Some mem)"

definition cql_object_release :: "i64 \<Rightarrow> part_mem \<Rightarrow> part_mem option" where
  "cql_object_release obj mem =
     (if obj \<noteq> 0 then
        do {
          (n, rs) \<leftarrow> pm_sets mem obj;
          refs \<leftarrow> (if n - 1 = 0 then cql_result_set_teardown rs (pm_refs mem) else Some (pm_refs mem));
          let refs = refs\<lparr>cql_outstanding_refs := cql_outstanding_refs refs - 1\<rparr>;
          require (sint (cql_outstanding_refs refs) \<ge> 0);
          Some (mem\<lparr>pm_sets := (pm_sets mem)(obj := if n - 1 = 0 then None else Some (n - 1, rs)), pm_refs := refs\<rparr>)
        }
      else Some mem)"

text \<open>A new result set object at the address that \<open>malloc\<close> returns.\<close>

definition new_result_set :: "i64 \<Rightarrow> u8 list \<Rightarrow> i32 \<Rightarrow> cql_result_set_meta \<Rightarrow> part_mem \<Rightarrow> part_mem" where
  "new_result_set a bytes cnt meta mem =
     (let (rs, refs) = cql_result_set_create bytes cnt meta (pm_refs mem)
      in mem\<lparr>pm_sets := (pm_sets mem)(a \<mapsto> (1, rs)), pm_refs := refs\<rparr>)"

section \<open>The functions of the hash table\<close>

definition cql_key_cursor_hash :: "i64 \<Rightarrow> part_mem \<Rightarrow> u64 option" where
  "cql_key_cursor_hash key mem =
     do {
       bytes \<leftarrow> pm_blocks mem key;
       cql_cursor_hash (pm_refs mem) ((c_key mem)\<lparr>cur_data := bytes\<rparr>)
     }"

definition cql_key_cursor_eq :: "i64 \<Rightarrow> i64 \<Rightarrow> part_mem \<Rightarrow> bool option" where
  "cql_key_cursor_eq key1 key2 mem =
     do {
       bytes1 \<leftarrow> pm_blocks mem key1;
       bytes2 \<leftarrow> pm_blocks mem key2;
       cql_cursors_equal (pm_refs mem) ((c_key mem)\<lparr>cur_data := bytes1\<rparr>) ((c_key2 mem)\<lparr>cur_data := bytes2\<rparr>)
     }"

definition cql_partition_key_release :: "i64 \<Rightarrow> part_mem \<Rightarrow> part_mem option" where
  "cql_partition_key_release key mem =
     do {
       pv \<leftarrow> pm_blocks mem key;
       (pv, refs) \<leftarrow> (if cur_refs_count (c_key mem) \<noteq> 0
                     then cql_release_offsets pv (cur_refs_count (c_key mem)) (cur_refs_offset (c_key mem)) (pm_refs mem)
                     else Some (pv, pm_refs mem));
       Some (mem\<lparr>pm_blocks := (pm_blocks mem)(key := None), pm_refs := refs\<rparr>)
     }"

text \<open>The value of an entry whose rows were extracted is the address of the result set with the lowest bit set.\<close>

definition harvested :: "i64 \<Rightarrow> bool" where
  "harvested v \<longleftrightarrow> v AND 1 \<noteq> 0"

definition untag :: "i64 \<Rightarrow> i64" where
  "untag v = v AND NOT 1"

text \<open>The division \<open>buffer->used / rowsize\<close>, of \<open>size_t\<close> width.\<close>

definition rows_in :: "cql_bytebuf \<Rightarrow> u64 \<Rightarrow> u64" where
  "rows_in buf size_of_row = ucast (cb_used buf) div size_of_row"

definition cql_partition_val_release :: "i64 \<Rightarrow> part_mem \<Rightarrow> part_mem option" where
  "cql_partition_val_release v mem =
     (if harvested v then cql_object_release (untag v) mem
      else do {
        buffer \<leftarrow> pm_bufs mem v;
        let rc = cur_refs_count (c_val mem);
        refs \<leftarrow> (if rc \<noteq> 0
                then release_rows_loop (unat (ucast (rows_in buffer (cur_size (c_val mem))) :: u32)) rc (cur_refs_offset (c_val mem))
                       (cur_size (c_val mem)) (cql_bytebuf_contents buffer) (pm_refs mem)
                else Some (pm_refs mem));
        Some (mem\<lparr>pm_bufs := (pm_bufs mem)(v := None), pm_refs := refs\<rparr>)
      })"

section \<open>Partitions\<close>

definition cql_partition_create :: cql_partition where
  "cql_partition_create =
     \<lparr>part_ht = cql_hashtab_new cql_key_cursor_hash cql_key_cursor_eq cql_no_op_retain_release cql_no_op_retain_release
                  cql_no_op_retain_release cql_no_op_retain_release,
      empty_result = 0, did_extract = False\<rparr>"

text \<open>The \<open>calloc\<close> of a partition clears its cursors.\<close>

definition no_cursor :: cql_row_cursor where
  "no_cursor = \<lparr>cur_data = [], cur_has_row = False, cur_col_offsets = \<lparr>array_at = 0, cells = []\<rparr>, cur_data_types = \<lparr>array_at = 0, cells = []\<rparr>,
     cur_size = 0, cur_refs_count = 0, cur_refs_offset = 0\<rparr>"

definition cql_partition_finalize :: "cql_partition \<Rightarrow> part_mem \<Rightarrow> part_mem option" where
  "cql_partition_finalize self mem =
     do {
       let ht = (part_ht self)\<lparr>release_key := cql_partition_key_release, release_val := cql_partition_val_release\<rparr>;
       mem \<leftarrow> (if empty_result self \<noteq> 0 then cql_object_release (empty_result self) mem else Some mem);
       cql_hashtab_delete ht mem
     }"

text \<open>The addresses that the calls of \<open>malloc\<close> return, and those of the two static tables.\<close>

record part_addrs =
  key_at :: i64
  buf_at :: i64
  result_at :: i64
  empty_at :: i64
  empty_types_at :: i64
  empty_offsets_at :: i64

definition same_shape :: "cql_row_cursor \<Rightarrow> cql_cursor_at \<Rightarrow> bool" where
  "same_shape c d \<longleftrightarrow> cur_size c = cur_size d \<and> cur_refs_count c = cur_refs_count d \<and> cur_refs_offset c = cur_refs_offset d"

text \<open>The copies of the cursors share the flag \<open>has_row\<close> of the partition, which is always true.\<close>

definition cursor_shape :: "cql_cursor_at \<Rightarrow> cql_row_cursor" where
  "cursor_shape c = (cql_row_cursor.truncate c)\<lparr>cur_has_row := True, cur_data := []\<rparr>"

definition partition_shapes :: "cql_cursor_at \<Rightarrow> cql_cursor_at \<Rightarrow> part_mem \<Rightarrow> part_mem option" where
  "partition_shapes key v mem =
     (if cur_size (c_key mem) \<noteq> 0 then
        do { require (same_shape (c_key mem) key); require (same_shape (c_val mem) v); Some mem }
      else
        Some (mem\<lparr>c_key := cursor_shape key, c_key2 := cursor_shape key, c_val := cursor_shape v\<rparr>))"

definition partition_new_group :: "part_addrs \<Rightarrow> cql_cursor_at \<Rightarrow> cql_partition \<Rightarrow> part_mem \<Rightarrow> (i64 \<times> cql_partition \<times> part_mem) option" where
  "partition_new_group al key self mem =
     do {
       let mem = mem\<lparr>pm_bufs := (pm_bufs mem)(buf_at al \<mapsto> cql_bytebuf_open)\<rparr>;
       row \<leftarrow> pm_blocks mem (cur_at key);
       k \<leftarrow> slice row 0 (unat (cur_size key));
       let mem = mem\<lparr>pm_blocks := (pm_blocks mem)(key_at al \<mapsto> k)\<rparr>;
       refs \<leftarrow> cql_retain_offsets k (cur_refs_count key) (cur_refs_offset key) (pm_refs mem);
       let mem = mem\<lparr>pm_refs := refs\<rparr>;
       (added, ht, mem) \<leftarrow> cql_hashtab_add (part_ht self) (key_at al) (buf_at al) mem;
       require added;
       Some (buf_at al, self\<lparr>part_ht := ht\<rparr>, mem)
     }"

text \<open>The copy of a row to the end of a buffer.\<close>

definition partition_append :: "i64 \<Rightarrow> cql_cursor_at \<Rightarrow> part_mem \<Rightarrow> part_mem option" where
  "partition_append b v mem =
     do {
       buf \<leftarrow> pm_bufs mem b;
       row \<leftarrow> pm_blocks mem (cur_at v);
       bytes \<leftarrow> slice row 0 (unat (cur_size v));
       let (new_data, buf) = cql_bytebuf_alloc buf (ucast (cur_size v));
       let buf = buf\<lparr>cb_ptr := Some (mem_store (block_of (cb_ptr buf)) new_data (Some (map Some bytes)))\<rparr>;
       refs \<leftarrow> cql_retain_offsets bytes (cur_refs_count v) (cur_refs_offset v) (pm_refs mem);
       Some (mem\<lparr>pm_bufs := (pm_bufs mem)(b \<mapsto> buf), pm_refs := refs\<rparr>)
     }"

definition cql_partition_cursor ::
  "part_addrs \<Rightarrow> cql_partition \<Rightarrow> cql_cursor_at \<Rightarrow> cql_cursor_at \<Rightarrow> part_mem \<Rightarrow> (bool \<times> cql_partition \<times> part_mem) option" where
  "cql_partition_cursor al self key v mem =
     do {
       require (\<not> did_extract self);
       mem \<leftarrow> partition_shapes key v mem;
       if \<not> cur_has_row key \<or> \<not> cur_has_row v then Some (False, self, mem)
       else do {
         entry \<leftarrow> cql_hashtab_find (part_ht self) (cur_at key) mem;
         (buf, self, mem) \<leftarrow> (case entry of
            Some i \<Rightarrow> Some (entry_val (ht_payload (part_ht self) ! i), self, mem)
          | None \<Rightarrow> partition_new_group al key self mem);
         require (buf \<noteq> 0);
         mem \<leftarrow> partition_append buf v mem;
         Some (True, self, mem)
       }
     }"

text \<open>The empty result set, made when it is first needed.\<close>

definition partition_empty :: "part_addrs \<Rightarrow> cql_partition \<Rightarrow> part_mem \<Rightarrow> (i64 \<times> cql_partition \<times> part_mem) option" where
  "partition_empty al self mem =
     do {
       (self, mem) \<leftarrow> (if empty_result self = 0 then
            do {
              meta \<leftarrow> cql_initialize_meta
                \<lparr>data_types = \<lparr>array_at = empty_types_at al, cells = []\<rparr>, col_offsets = \<lparr>array_at = empty_offsets_at al, cells = [0]\<rparr>,
                 refs_count = 0, refs_offset = 0, identity_columns = None, info_rowsize = 0\<rparr>;
              Some (self\<lparr>empty_result := empty_at al\<rparr>, new_result_set (empty_at al) [] 0 meta mem)
            }
          else Some (self, mem));
       require (empty_result self \<noteq> 0);
       mem \<leftarrow> cql_object_retain (empty_result self) mem;
       Some (empty_result self, self, mem)
     }"

text \<open>The buffer of a group becomes the block of a result set, which the entry keeps with its lowest bit set.\<close>

definition partition_harvest :: "part_addrs \<Rightarrow> nat \<Rightarrow> cql_partition \<Rightarrow> part_mem \<Rightarrow> (i64 \<times> cql_partition \<times> part_mem) option" where
  "partition_harvest al i self mem =
     do {
       let v = entry_val (ht_payload (part_ht self) ! i);
       require (v \<noteq> 0);
       buf \<leftarrow> pm_bufs mem v;
       let cnt = ucast (rows_in buf (cur_size (c_val mem)));
       meta \<leftarrow> cql_initialize_meta
         \<lparr>data_types = cur_data_types (c_val mem), col_offsets = cur_col_offsets (c_val mem), refs_count = cur_refs_count (c_val mem),
          refs_offset = cur_refs_offset (c_val mem), identity_columns = None, info_rowsize = ucast (cur_size (c_val mem))\<rparr>;
       let mem = mem\<lparr>pm_bufs := (pm_bufs mem)(v := None)\<rparr>;
       let mem = new_result_set (result_at al) (cql_bytebuf_contents buf) cnt meta mem;
       mem \<leftarrow> cql_object_retain (result_at al) mem;
       Some (result_at al, self\<lparr>part_ht := set_entry_val (part_ht self) i (1 OR result_at al)\<rparr>, mem)
     }"

definition cql_extract_partition ::
  "part_addrs \<Rightarrow> cql_partition \<Rightarrow> cql_cursor_at \<Rightarrow> part_mem \<Rightarrow> (i64 \<times> cql_partition \<times> part_mem) option" where
  "cql_extract_partition al self key mem =
     do {
       let self = self\<lparr>did_extract := True\<rparr>;
       if cur_size (c_key mem) \<noteq> 0 then
         do {
           require (same_shape (c_key mem) key);
           require (cur_size (c_val mem) \<noteq> 0);
           entry \<leftarrow> cql_hashtab_find (part_ht self) (cur_at key) mem;
           (case entry of
              Some i \<Rightarrow>
                let v = entry_val (ht_payload (part_ht self) ! i) in
                if harvested v then
                  do {
                    let result_set = untag v;
                    mem \<leftarrow> cql_object_retain result_set mem;
                    Some (result_set, self, mem)
                  }
                else partition_harvest al i self mem
            | None \<Rightarrow> partition_empty al self mem)
         }
       else partition_empty al self mem
     }"

end
