(* ===== verification/Rows_Correct.thy ===== *)
theory Rows_Correct
  imports Rows Hashtab_Correct
begin

text \<open>
  What the bytes of a row mean: the part before the references, and the data of the objects that the
  references point to.  Hashing and comparing rows is hashing and comparing this meaning; retaining
  and releasing the references of rows keeps the counts exact.
\<close>

section \<open>The references of a row\<close>

fun row_refs :: "u8 list \<Rightarrow> nat \<Rightarrow> u16 \<Rightarrow> i64 list" where
  "row_refs base 0 off = []"
| "row_refs base (Suc n) off = the (load_ref base off) # row_refs base n (off + 8)"

definition refs_fit :: "u8 list \<Rightarrow> nat \<Rightarrow> u16 \<Rightarrow> bool" where
  "refs_fit base n off \<longleftrightarrow> unat off + 8 * n \<le> length base \<and> unat off + 8 * n < 2 ^ 16"

lemma length_row_refs [simp]: "length (row_refs base n off) = n"
  by (induction n arbitrary: off) auto

lemma refs_fit_Suc: "refs_fit base (Suc n) off \<Longrightarrow> unat (off + 8) = unat off + 8"
  by (simp add: refs_fit_def unat_word_ariths)

lemma refs_fit_next: "refs_fit base (Suc n) off \<Longrightarrow> refs_fit base n (off + 8)"
  using refs_fit_Suc [of base n off] by (simp add: refs_fit_def)

lemma refs_fit_load: "refs_fit base (Suc n) off \<Longrightarrow> \<exists>ref. load_ref base off = Some ref"
  by (simp add: refs_fit_def load_ref_def slice_def)

lemma refs_fit_store:
  assumes "refs_fit base (Suc n) off"
  obtains base' where "store_ref base off ref = Some base'" "length base' = length base" "row_refs base' n (off + 8) = row_refs base n (off + 8)"
    "\<And>k. unat off + 8 \<le> k \<Longrightarrow> drop k base' = drop k base"
proof -
  let ?o = "unat off" and ?base' = "take (unat off) base @ bytes_of_u64 ref @ drop (unat off + 8) base"
  have o: "?o + 8 \<le> length base" using assms by (simp add: refs_fit_def)
  have l8: "length (bytes_of_u64 ref) = 8" by (simp add: bytes_of_u64_def)
  have len: "length ?base' = length base" using o l8 by simp
  have tail: "drop k ?base' = drop k base" if "?o + 8 \<le> k" for k
    using that o l8 by (simp add: add.commute)
  have "row_refs ?base' m p = row_refs base m p" if "refs_fit base m p" "?o + 8 \<le> unat p" for m p
    using that
  proof (induction m arbitrary: p)
    case (Suc m)
    have "load_ref ?base' p = load_ref base p"
      using tail [OF Suc.prems(2)] len by (simp add: load_ref_def slice_def)
    moreover have "row_refs ?base' m (p + 8) = row_refs base m (p + 8)"
      using Suc.IH [OF refs_fit_next [OF Suc.prems(1)]] refs_fit_Suc [OF Suc.prems(1)] Suc.prems(2) by simp
    ultimately show ?case by simp
  qed simp
  then have "row_refs ?base' n (off + 8) = row_refs base n (off + 8)"
    using refs_fit_next [OF assms] refs_fit_Suc [OF assms] by simp
  moreover have "store_ref base off ref = Some ?base'" using o by (simp add: store_ref_def)
  ultimately show thesis using that len tail by blast
qed

fun retain_all :: "i64 list \<Rightarrow> cql_heap \<Rightarrow> cql_heap option" where
  "retain_all [] h = Some h"
| "retain_all (a # as) h = Option.bind (cql_retain a h) (retain_all as)"

fun release_all :: "i64 list \<Rightarrow> cql_heap \<Rightarrow> cql_heap option" where
  "release_all [] h = Some h"
| "release_all (a # as) h = Option.bind (cql_release a h) (release_all as)"

lemma retain_all_append: "retain_all (as @ bs) h = Option.bind (retain_all as h) (retain_all bs)"
  by (induction as arbitrary: h) (auto simp: bind_eq_None_conv split: Option.bind_split)

lemma release_all_append: "release_all (as @ bs) h = Option.bind (release_all as h) (release_all bs)"
  by (induction as arbitrary: h) (auto simp: bind_eq_None_conv split: Option.bind_split)

lemma retain_loop_all: "refs_fit base n off \<Longrightarrow> retain_offsets_loop n off base h = retain_all (row_refs base n off) h"
proof (induction n arbitrary: off h)
  case (Suc n)
  have "(\<lambda>h. retain_offsets_loop n (off + 8) base h) = retain_all (row_refs base n (off + 8))"
    using Suc.IH [OF refs_fit_next [OF Suc.prems]] by (simp add: fun_eq_iff)
  moreover obtain ref where "load_ref base off = Some ref" using refs_fit_load [OF Suc.prems] by blast
  ultimately show ?case by simp
qed simp

lemma release_loop_all:
  "refs_fit base n off \<Longrightarrow> release_all (row_refs base n off) h = Some h' \<Longrightarrow>
   \<exists>base'. release_offsets_loop n off base h = Some (base', h') \<and> length base' = length base \<and>
     (\<forall>k. unat off + 8 * n \<le> k \<longrightarrow> drop k base' = drop k base)"
proof (induction n arbitrary: off base h)
  case (Suc n)
  obtain h1 where h1: "cql_release (the (load_ref base off)) h = Some h1" "release_all (row_refs base n (off + 8)) h1 = Some h'"
    using Suc.prems(2) by (auto simp: bind_eq_Some_conv)
  obtain base1 where b1: "store_ref base off 0 = Some base1" "length base1 = length base" "row_refs base1 n (off + 8) = row_refs base n (off + 8)"
    "\<And>k. unat off + 8 \<le> k \<Longrightarrow> drop k base1 = drop k base"
    using refs_fit_store [OF Suc.prems(1)] by metis
  have fit: "refs_fit base1 n (off + 8)" using refs_fit_next [OF Suc.prems(1)] b1(2) by (simp add: refs_fit_def)
  obtain base' where b: "release_offsets_loop n (off + 8) base1 h1 = Some (base', h')" "length base' = length base1"
    "\<forall>k. unat (off + 8) + 8 * n \<le> k \<longrightarrow> drop k base' = drop k base1"
    using Suc.IH [OF fit, of h1] h1(2) b1(3) by auto
  have "release_offsets_loop (Suc n) off base h = Some (base', h')"
    using refs_fit_load [OF Suc.prems(1)] h1(1) b1(1) b(1) by auto
  then show ?case using b(2,3) b1(2,4) refs_fit_Suc [OF Suc.prems(1)] by auto
qed simp

lemma retain_offsets_all:
  "refs_fit base (unat rc) ro \<Longrightarrow> cql_retain_offsets base rc ro h = retain_all (row_refs base (unat rc) ro) h"
  using retain_loop_all by (auto simp: cql_retain_offsets_def)

lemma release_offsets_all:
  "refs_fit base (unat rc) ro \<Longrightarrow> release_all (row_refs base (unat rc) ro) h = Some h' \<Longrightarrow>
   \<exists>base'. cql_release_offsets base rc ro h = Some (base', h') \<and> length base' = length base \<and>
     (\<forall>k. unat ro + 8 * unat rc \<le> k \<longrightarrow> drop k base' = drop k base)"
  using release_loop_all by (cases "rc = 0") (auto simp: cql_release_offsets_def)

section \<open>Counting\<close>

text \<open>
  \<open>owned h R m\<close>: the objects are counted by the references \<open>R\<close>, and \<open>m\<close> references to objects of other
  kinds (result sets) are outstanding too.
\<close>

definition owned :: "cql_heap \<Rightarrow> i64 multiset \<Rightarrow> nat \<Rightarrow> bool" where
  "owned h R m \<longleftrightarrow> 0 \<notin># R \<and> size R + m < 2 ^ 31 \<and> cql_outstanding_refs h = of_nat (size R + m) \<and> dom (objs h) = set_mset R \<and>
     (\<forall>a obj. objs h a = Some obj \<longrightarrow> ref_count obj = of_nat (Multiset.count R a))"

lemma owned_null: "owned h R m \<Longrightarrow> objs h 0 = None"
  unfolding owned_def by (metis domIff)

lemma owned_live: "owned h R m \<Longrightarrow> a \<in># R \<Longrightarrow> \<exists>obj. objs h a = Some obj"
  unfolding owned_def by blast

lemma owned_count: "owned h R m \<Longrightarrow> objs h a = Some obj \<Longrightarrow> ref_count obj = of_nat (Multiset.count R a)"
  unfolding owned_def by blast

lemma owned_retain:
  assumes "owned h R m" and "a \<in># R" and "size R + m + 1 < 2 ^ 31"
  shows "\<exists>h'. cql_retain a h = Some h' \<and> owned h' (add_mset a R) m \<and> (\<forall>b. data_at h' b = data_at h b)"
proof -
  obtain obj where obj: "objs h a = Some obj" using owned_live [OF assms(1,2)] by blast
  have "a \<noteq> 0" using assms(1,2) by (auto simp: owned_def)
  moreover from this have "cql_retain a h = Some (h\<lparr>objs := (objs h)(a \<mapsto> obj\<lparr>ref_count := ref_count obj + 1\<rparr>), cql_outstanding_refs := cql_outstanding_refs h + 1\<rparr>)"
    (is "_ = Some ?h") using obj by (simp add: cql_retain_def)
  moreover have "data_at ?h b = data_at h b" for b using obj by (simp add: data_at_def)
  moreover have "owned ?h (add_mset a R) m"
    unfolding owned_def
  proof (intro conjI allI impI)
    show "0 \<notin># add_mset a R" "size (add_mset a R) + m < 2 ^ 31" using assms \<open>a \<noteq> 0\<close> by (simp_all add: owned_def)
    show "cql_outstanding_refs ?h = of_nat (size (add_mset a R) + m)" using assms(1) by (simp add: owned_def)
    show "dom (objs ?h) = set_mset (add_mset a R)" using assms(1) by (simp add: owned_def)
    fix b ob assume "objs ?h b = Some ob"
    then show "ref_count ob = of_nat (Multiset.count (add_mset a R) b)"
      using owned_count [OF assms(1)] obj by (cases "b = a") auto
  qed
  ultimately show ?thesis by blast
qed

lemma owned_release:
  assumes "owned h (add_mset a R) m"
  shows "\<exists>h'. cql_release a h = Some h' \<and> owned h' R m \<and> (\<forall>b. b \<in># R \<longrightarrow> data_at h' b = data_at h b)"
proof -
  have ain: "a \<in># add_mset a R" by simp
  obtain obj where obj: "objs h a = Some obj" using owned_live [OF assms ain] by blast
  have a: "a \<noteq> 0" using assms by (auto simp: owned_def)
  let ?n = "Multiset.count R a" and ?k = "size R + m"
  have small: "?k < 2 ^ 31" "?n < 2 ^ 31" using assms count_le_size [of R a] by (auto simp: owned_def)
  have rc: "ref_count obj - 1 = of_nat ?n" using assms obj by (simp add: owned_def)
  have out: "cql_outstanding_refs h - 1 = of_nat ?k" using assms by (simp add: owned_def)
  have inv: "0 \<le> sint (of_nat ?k :: i32)" using sint_size [OF small(1)] by simp
  let ?o = "(objs h)(a := if (of_nat ?n :: i32) = 0 then None else Some (obj\<lparr>ref_count := of_nat ?n\<rparr>))"
  have "owned (h\<lparr>objs := ?o, cql_outstanding_refs := of_nat ?k\<rparr>) R m"
    unfolding owned_def
  proof (intro conjI allI impI)
    show "0 \<notin># R" "size R + m < 2 ^ 31" using assms by (simp_all add: owned_def)
    have "dom (objs h) = insert a (set_mset R)" using assms by (simp add: owned_def)
    moreover have "(of_nat ?n :: i32) = 0 \<longleftrightarrow> a \<notin># R" using count_small_zero [OF small(2)] by (simp add: not_in_iff)
    ultimately show "dom (objs (h\<lparr>objs := ?o, cql_outstanding_refs := of_nat ?k\<rparr>)) = set_mset R" by auto
    fix b ob assume "objs (h\<lparr>objs := ?o, cql_outstanding_refs := of_nat ?k\<rparr>) b = Some ob"
    then show "ref_count ob = of_nat (Multiset.count R b)"
      using owned_count [OF assms, of b] by (cases "b = a") (auto split: if_splits)
  qed simp
  then show ?thesis using obj a rc out inv count_small_zero [OF small(2)]
    by (auto simp: cql_release_def Let_def bind_require data_at_def not_in_iff)
qed

lemma owned_same:
  assumes "owned h R m" and "owned h' R m" and "\<forall>a \<in># R. data_at h' a = data_at h a"
  shows "h' = h"
proof -
  have "objs h' a = objs h a" for a
  proof (cases "a \<in># R")
    case True
    obtain x y where xy: "objs h a = Some x" "objs h' a = Some y" using owned_live [OF _ True] assms(1,2) by blast
    moreover have "ref_count y = ref_count x" using assms(1,2) xy by (simp add: owned_def)
    moreover have "data y = data x" using bspec [OF assms(3) True] xy by (simp add: data_at_def)
    ultimately show ?thesis by (cases x; cases y) simp
  next
    case False
    then show ?thesis using assms(1,2) unfolding owned_def by (metis domIff)
  qed
  then show ?thesis using assms(1,2) by (cases h; cases h') (simp add: owned_def fun_eq_iff)
qed

text \<open>The references in a list that are not null.\<close>

definition live_refs :: "i64 list \<Rightarrow> i64 multiset" where
  "live_refs as = filter_mset (\<lambda>a. a \<noteq> 0) (mset as)"

lemma live_refs_simps [simp]:
  "live_refs [] = {#}" "live_refs (a # as) = (if a = 0 then live_refs as else add_mset a (live_refs as))"
  "live_refs (as @ bs) = live_refs as + live_refs bs"
  by (simp_all add: live_refs_def)

lemma size_live_refs: "size (live_refs as) \<le> length as"
  by (induction as) auto

lemma in_live_refs: "a \<in># live_refs as \<longleftrightarrow> a \<in> set as \<and> a \<noteq> 0"
  by (auto simp: live_refs_def)

lemma retain_all_owned:
  "owned h R m \<Longrightarrow> set_mset (live_refs as) \<subseteq> set_mset R \<Longrightarrow> size R + m + length as < 2 ^ 31 \<Longrightarrow>
   \<exists>h'. retain_all as h = Some h' \<and> owned h' (R + live_refs as) m \<and> (\<forall>b. data_at h' b = data_at h b)"
proof (induction as arbitrary: h R)
  case (Cons a as)
  show ?case
  proof (cases "a = 0")
    case True
    then show ?thesis using Cons.IH [OF Cons.prems(1)] Cons.prems(2,3) by (simp add: cql_retain_def)
  next
    case False
    then have a: "a \<in># R" using Cons.prems(2) by auto
    obtain h1 where h1: "cql_retain a h = Some h1" "owned h1 (add_mset a R) m" "\<forall>b. data_at h1 b = data_at h b"
      using owned_retain [OF Cons.prems(1) a] Cons.prems(3) by auto
    obtain h' where "retain_all as h1 = Some h'" "owned h' (add_mset a R + live_refs as) m" "\<forall>b. data_at h' b = data_at h1 b"
      using Cons.IH [OF h1(2)] Cons.prems(2,3) False by auto
    then show ?thesis using h1 False by simp
  qed
qed simp

lemma release_all_owned:
  "owned h (R + live_refs as) m \<Longrightarrow>
   \<exists>h'. release_all as h = Some h' \<and> owned h' R m \<and> (\<forall>b. b \<in># R \<longrightarrow> data_at h' b = data_at h b)"
proof (induction as arbitrary: h)
  case (Cons a as)
  show ?case
  proof (cases "a = 0")
    case True
    then show ?thesis using Cons by (simp add: cql_release_def)
  next
    case False
    then obtain h1 where h1: "cql_release a h = Some h1" "owned h1 (R + live_refs as) m" "\<forall>b. b \<in># R + live_refs as \<longrightarrow> data_at h1 b = data_at h b"
      using owned_release [of h a "R + live_refs as" m] Cons.prems by auto
    obtain h' where "release_all as h1 = Some h'" "owned h' R m" "\<forall>b. b \<in># R \<longrightarrow> data_at h' b = data_at h1 b"
      using Cons.IH [OF h1(2)] by blast
    then show ?thesis using h1 by simp
  qed
qed simp

section \<open>Hash and equality\<close>

text \<open>\<open>ref_ok h t a\<close>: a reference of a text column (\<open>t\<close>) or of a blob column, null or to a live object of that kind.\<close>

definition ref_ok :: "cql_heap \<Rightarrow> bool \<Rightarrow> i64 \<Rightarrow> bool" where
  "ref_ok h t a \<longleftrightarrow> a = 0 \<or> (\<exists>obj. objs h a = Some obj \<and> (case data obj of String_data s \<Rightarrow> t \<and> cstr s | Blob_data b \<Rightarrow> \<not> t))"

definition data_hash :: "cql_data option \<Rightarrow> u64" where
  "data_hash d = (case d of None \<Rightarrow> 0 | Some (String_data s) \<Rightarrow> string_hash_loop s 5381 | Some (Blob_data b) \<Rightarrow> blob_hash_loop b 5381)"

lemma ref_ok_cases:
  assumes "ref_ok h t a" and "objs h 0 = None"
  obtains "a = 0" "data_at h a = None" | obj s where "a \<noteq> 0" "objs h a = Some obj" "data obj = String_data s" "cstr s" "t"
  | obj b where "a \<noteq> 0" "objs h a = Some obj" "data obj = Blob_data b" "\<not> t"
proof (cases "a = 0")
  case True
  then show thesis using that(1) assms(2) by (simp add: data_at_def)
next
  case False
  then obtain obj where obj: "objs h a = Some obj" "case data obj of String_data s \<Rightarrow> t \<and> cstr s | Blob_data b \<Rightarrow> \<not> t"
    using assms(1) by (auto simp: ref_ok_def)
  then show thesis using that(2,3) False by (cases "data obj") auto
qed

lemma ref_equal_data:
  assumes "ref_ok h t a" and "ref_ok h t b" and "objs h 0 = None"
  shows "cql_ref_equal h a b = Some (data_at h a = data_at h b)"
  using assms(1,3)
proof (cases rule: ref_ok_cases)
  case 1
  then show ?thesis using assms(2,3) by (auto simp: cql_ref_equal_def data_at_def ref_ok_def)
next
  case (2 obj s)
  from assms(2,3) show ?thesis
    by (cases rule: ref_ok_cases)
      (use 2 assms(3) in \<open>auto simp: cql_ref_equal_def cql_string_equal_def cql_string_compare_def data_at_def is_string_def string_at_def strcmp_eq_0\<close>)
next
  case (3 obj s)
  from assms(2,3) show ?thesis
    by (cases rule: ref_ok_cases)
      (use 3 assms(3) in \<open>auto simp: cql_ref_equal_def cql_blob_equal_def data_at_def is_string_def blob_at_def\<close>)
qed

lemma ref_hash_data:
  assumes "ref_ok h t a" and "objs h 0 = None"
  shows "cql_ref_hash h a = Some (data_hash (data_at h a))"
  using assms
  by (cases rule: ref_ok_cases)
    (auto simp: cql_ref_hash_def cql_string_hash_def cql_blob_hash_def data_at_def data_hash_def is_string_def string_at_def blob_at_def)

lemma ref_ok_data: "data_at h' a = data_at h a \<Longrightarrow> ref_ok h' t a = ref_ok h t a"
  by (auto simp: ref_ok_def data_at_def map_option_case split: option.splits)

type_synonym row_contents = "u8 list \<times> cql_data option list"

definition row_contents :: "cql_heap \<Rightarrow> u8 list \<Rightarrow> u64 \<Rightarrow> u16 \<Rightarrow> u16 \<Rightarrow> row_contents" where
  "row_contents h base row_size rc ro =
     (take (if rc \<noteq> 0 then unat ro else unat row_size) base, map (data_at h) (row_refs base (unat rc) ro))"

definition contents_hash :: "row_contents \<Rightarrow> u64" where
  "contents_hash c = foldl (\<lambda>acc d. (push_bit 5 acc + acc) + data_hash d) (foldl djb2_step 5381 (fst c)) (snd c)"

text \<open>A row of \<open>row_size\<close> bytes with references of the kinds \<open>ks\<close> at its end.\<close>

definition row_ok :: "cql_heap \<Rightarrow> bool list \<Rightarrow> u8 list \<Rightarrow> u64 \<Rightarrow> u16 \<Rightarrow> u16 \<Rightarrow> bool" where
  "row_ok h ks base row_size rc ro \<longleftrightarrow> unat row_size \<le> length base \<and> (rc \<noteq> 0 \<longrightarrow> unat ro + 8 * unat rc \<le> unat row_size \<and> unat row_size < 2 ^ 16) \<and>
     list_all2 (ref_ok h) ks (row_refs base (unat rc) ro)"

lemma row_ok_fit: "row_ok h ks base row_size rc ro \<Longrightarrow> rc \<noteq> 0 \<Longrightarrow> refs_fit base (unat rc) ro"
  by (auto simp: row_ok_def refs_fit_def)

lemma equal_refs:
  assumes "refs_fit b1 n off" and "refs_fit b2 n off" and "objs h 0 = None"
    and "list_all2 (ref_ok h) ks (row_refs b1 n off)" and "list_all2 (ref_ok h) ks (row_refs b2 n off)"
  shows "equal_refs_loop h b1 b2 n off = Some (map (data_at h) (row_refs b1 n off) = map (data_at h) (row_refs b2 n off))"
  using assms(1,2,4,5)
proof (induction n arbitrary: off ks)
  case (Suc n)
  obtain r1 r2 where r: "load_ref b1 off = Some r1" "load_ref b2 off = Some r2"
    using refs_fit_load Suc.prems(1,2) by meson
  obtain t ts where ks: "ks = t # ts" "ref_ok h t r1" "ref_ok h t r2"
    "list_all2 (ref_ok h) ts (row_refs b1 n (off + 8))" "list_all2 (ref_ok h) ts (row_refs b2 n (off + 8))"
    using Suc.prems(3,4) r by (cases ks) auto
  show ?case
    using r ref_equal_data [OF ks(2,3) assms(3)] Suc.IH [OF refs_fit_next refs_fit_next ks(4,5)] Suc.prems(1,2) by auto
qed simp

lemma hash_refs:
  assumes "refs_fit base n off" and "objs h 0 = None" and "list_all2 (ref_ok h) ks (row_refs base n off)"
  shows "hash_refs_loop h base n off acc = Some (foldl (\<lambda>acc d. (push_bit 5 acc + acc) + data_hash d) acc (map (data_at h) (row_refs base n off)))"
  using assms(1,3)
proof (induction n arbitrary: off ks acc)
  case (Suc n)
  obtain r where r: "load_ref base off = Some r" using refs_fit_load [OF Suc.prems(1)] by blast
  obtain t ts where ks: "ks = t # ts" "ref_ok h t r" "list_all2 (ref_ok h) ts (row_refs base n (off + 8))"
    using Suc.prems(2) r by (cases ks) auto
  show ?case
    using r ref_hash_data [OF ks(2) assms(2)] Suc.IH [OF refs_fit_next [OF Suc.prems(1)] ks(3)] by simp
qed simp

lemma slice_0: "n \<le> length base \<Longrightarrow> slice base 0 n = Some (take n base)"
  by (simp add: slice_def)

lemma buffers_equal_contents:
  assumes "row_ok h ks b1 row_size rc ro" and "row_ok h ks b2 row_size rc ro" and "objs h 0 = None"
  shows "cql_buffers_equal h b1 b2 row_size rc ro = Some (row_contents h b1 row_size rc ro = row_contents h b2 row_size rc ro)"
proof (cases "rc = 0")
  case True
  then show ?thesis using assms(1,2) by (simp add: cql_buffers_equal_def memcmp_eq_def slice_0 row_ok_def row_contents_def)
next
  case False
  have "unat ro \<le> length b1" "unat ro \<le> length b2" using assms(1,2) False by (auto simp: row_ok_def)
  then show ?thesis
    using False equal_refs [OF row_ok_fit [OF assms(1) False] row_ok_fit [OF assms(2) False] assms(3)] assms(1,2)
    by (auto simp: cql_buffers_equal_def memcmp_eq_def slice_0 row_ok_def row_contents_def)
qed

lemma hash_buffer_contents:
  assumes "row_ok h ks base row_size rc ro" and "objs h 0 = None"
  shows "cql_hash_buffer h base row_size rc ro = Some (contents_hash (row_contents h base row_size rc ro))"
proof (cases "rc = 0")
  case True
  then show ?thesis using assms(1) by (simp add: cql_hash_buffer_def slice_0 row_ok_def row_contents_def contents_hash_def)
next
  case False
  have "unat ro \<le> length base" using assms(1) False by (auto simp: row_ok_def)
  then show ?thesis
    using False hash_refs [OF row_ok_fit [OF assms(1) False] assms(2)] assms(1)
    by (auto simp: cql_hash_buffer_def slice_0 row_ok_def row_contents_def contents_hash_def)
qed

section \<open>Result sets\<close>

fun block_refs :: "nat \<Rightarrow> cql_result_set_meta \<Rightarrow> u8 list \<Rightarrow> i64 list" where
  "block_refs 0 meta base = []"
| "block_refs (Suc n) meta base =
     row_refs base (unat (refsCount meta)) (refsOffset meta) @ block_refs n meta (drop (unat (rowsize meta)) base)"

fun block_ok :: "nat \<Rightarrow> cql_heap \<Rightarrow> bool list \<Rightarrow> cql_result_set_meta \<Rightarrow> u8 list \<Rightarrow> bool" where
  "block_ok 0 h ks meta base \<longleftrightarrow> True"
| "block_ok (Suc n) h ks meta base \<longleftrightarrow> row_ok h ks base (rowsize meta) (refsCount meta) (refsOffset meta) \<and>
     block_ok n h ks meta (drop (unat (rowsize meta)) base)"

definition rs_refs :: "cql_result_set \<Rightarrow> i64 list" where
  "rs_refs rs = block_refs (nat (sint (rs_count rs))) (rs_meta rs) (rs_data rs)"

definition rows_ok :: "cql_heap \<Rightarrow> bool list \<Rightarrow> cql_result_set \<Rightarrow> bool" where
  "rows_ok h ks rs \<longleftrightarrow> 0 \<le> sint (rs_count rs) \<and> length (rs_data rs) = nat (sint (rs_count rs)) * unat (rowsize (rs_meta rs)) \<and>
     length (rs_data rs) < 2 ^ 64 \<and> block_ok (nat (sint (rs_count rs))) h ks (rs_meta rs) (rs_data rs)"

definition rs_contents :: "cql_heap \<Rightarrow> cql_result_set \<Rightarrow> nat \<Rightarrow> row_contents" where
  "rs_contents h rs i = row_contents h (drop (i * unat (rowsize (rs_meta rs))) (rs_data rs))
     (rowsize (rs_meta rs)) (refsCount (rs_meta rs)) (refsOffset (rs_meta rs))"

lemma block_row:
  "block_ok n h ks meta base \<Longrightarrow> i < n \<Longrightarrow>
   row_ok h ks (drop (i * unat (rowsize meta)) base) (rowsize meta) (refsCount meta) (refsOffset meta)"
proof (induction n arbitrary: i base)
  case (Suc n)
  show ?case
  proof (cases i)
    case (Suc j)
    then show ?thesis using Suc.IH [of "drop (unat (rowsize meta)) base" j] Suc.prems by (simp add: add.commute)
  qed (use Suc.prems in simp)
qed simp

lemma retain_rows_all: "block_ok n h0 ks meta base \<Longrightarrow> retain_rows_loop n meta base h = retain_all (block_refs n meta base) h"
proof (induction n arbitrary: base h)
  case (Suc n)
  then have row: "row_ok h0 ks base (rowsize meta) (refsCount meta) (refsOffset meta)" by simp
  have "cql_retain_offsets base (refsCount meta) (refsOffset meta) h = retain_all (row_refs base (unat (refsCount meta)) (refsOffset meta)) h"
    using retain_offsets_all [OF row_ok_fit [OF row]] by (cases "refsCount meta = 0") (simp_all add: cql_retain_offsets_def)
  moreover have "(\<lambda>h. retain_rows_loop n meta (drop (unat (rowsize meta)) base) h) = retain_all (block_refs n meta (drop (unat (rowsize meta)) base))"
    using Suc by (simp add: fun_eq_iff)
  ultimately show ?case by (simp add: retain_all_append)
qed simp

lemma release_rows_all:
  "block_ok n h0 ks meta base \<Longrightarrow> refsCount meta \<noteq> 0 \<Longrightarrow> release_all (block_refs n meta base) h = Some h' \<Longrightarrow>
   release_rows_loop n (refsCount meta) (refsOffset meta) (rowsize meta) base h = Some h'"
proof (induction n arbitrary: base h)
  case (Suc n)
  then have row: "row_ok h0 ks base (rowsize meta) (refsCount meta) (refsOffset meta)" by simp
  obtain h1 where h1: "release_all (row_refs base (unat (refsCount meta)) (refsOffset meta)) h = Some h1"
    "release_all (block_refs n meta (drop (unat (rowsize meta)) base)) h1 = Some h'"
    using Suc.prems(3) by (auto simp: release_all_append bind_eq_Some_conv)
  obtain base' where b: "cql_release_offsets base (refsCount meta) (refsOffset meta) h = Some (base', h1)"
    "\<forall>k. unat (refsOffset meta) + 8 * unat (refsCount meta) \<le> k \<longrightarrow> drop k base' = drop k base"
    using release_offsets_all [OF row_ok_fit [OF row Suc.prems(2)] h1(1)] by blast
  have "drop (unat (rowsize meta)) base' = drop (unat (rowsize meta)) base" using b(2) row Suc.prems(2) by (simp add: row_ok_def)
  then show ?case using Suc.IH [OF _ Suc.prems(2) h1(2)] Suc.prems(1) b(1) by simp
qed simp

lemma no_refs: "refsCount meta = 0 \<Longrightarrow> block_refs n meta base = []"
  by (induction n arbitrary: base) auto

lemma teardown_all:
  assumes "rows_ok h0 ks rs" and "release_all (rs_refs rs) h = Some h'"
  shows "cql_result_set_teardown rs h = Some h'"
proof (cases "refsCount (rs_meta rs) = 0 \<or> rs_count rs = 0")
  case True
  then have "rs_refs rs = []" by (auto simp: rs_refs_def no_refs)
  then show ?thesis using True assms(2) by (auto simp: cql_result_set_teardown_def Let_def)
next
  case False
  then show ?thesis using release_rows_all assms by (auto simp: cql_result_set_teardown_def Let_def rows_ok_def rs_refs_def)
qed

text \<open>Contents only depend on the bytes of the row and on the data of its references.\<close>

lemma load_ref_take: "unat off + 8 \<le> k \<Longrightarrow> load_ref (take k base) off = load_ref base off"
  by (auto simp: load_ref_def slice_def drop_take min_def)

lemma row_refs_take: "unat off + 8 * n \<le> k \<Longrightarrow> k < 2 ^ 16 \<Longrightarrow> row_refs (take k base) n off = row_refs base n off"
proof (induction n arbitrary: off)
  case (Suc n)
  have "unat (off + 8) = unat off + 8" using Suc.prems by (simp add: unat_word_ariths)
  then show ?case using Suc by (simp add: load_ref_take)
qed simp

lemma row_take:
  assumes "row_ok h ks base row_size rc ro" and "take (unat row_size) base' = take (unat row_size) base" and "unat row_size \<le> length base'"
  shows "row_ok h ks base' row_size rc ro" and "row_contents h base' row_size rc ro = row_contents h base row_size rc ro"
    and "row_refs base' (unat rc) ro = row_refs base (unat rc) ro"
proof -
  let ?k = "unat row_size"
  show refs: "row_refs base' (unat rc) ro = row_refs base (unat rc) ro"
  proof (cases "rc = 0")
    case False
    then have "unat ro + 8 * unat rc \<le> ?k" "?k < 2 ^ 16" using assms(1) by (auto simp: row_ok_def)
    then show ?thesis using row_refs_take [of ro "unat rc" ?k] assms(2) by metis
  qed simp
  then show "row_ok h ks base' row_size rc ro" using assms(1,3) by (simp add: row_ok_def)
  have "(if rc \<noteq> 0 then unat ro else ?k) \<le> ?k" using assms(1) by (auto simp: row_ok_def)
  then have "take (if rc \<noteq> 0 then unat ro else ?k) base' = take (if rc \<noteq> 0 then unat ro else ?k) base"
    using assms(2) by (metis min.absorb1 take_take)
  then show "row_contents h base' row_size rc ro = row_contents h base row_size rc ro" using refs by (simp add: row_contents_def)
qed

lemma list_all2_cong_right: "(\<And>x y. y \<in> set ys \<Longrightarrow> P x y \<Longrightarrow> Q x y) \<Longrightarrow> list_all2 P xs ys \<Longrightarrow> list_all2 Q xs ys"
  by (auto simp: list_all2_conv_all_nth)

lemma row_heap:
  assumes "\<forall>a \<in> set (row_refs base (unat rc) ro). a \<noteq> 0 \<longrightarrow> data_at h' a = data_at h a" and "objs h 0 = None" and "objs h' 0 = None"
  shows "row_ok h ks base row_size rc ro \<Longrightarrow> row_ok h' ks base row_size rc ro"
    and "row_contents h' base row_size rc ro = row_contents h base row_size rc ro"
proof -
  have d: "data_at h' a = data_at h a" if "a \<in> set (row_refs base (unat rc) ro)" for a
    using assms that by (cases "a = 0") (auto simp: data_at_def)
  then show "row_contents h' base row_size rc ro = row_contents h base row_size rc ro" by (simp add: row_contents_def)
  show "row_ok h ks base row_size rc ro \<Longrightarrow> row_ok h' ks base row_size rc ro"
    unfolding row_ok_def using list_all2_cong_right [of _ "ref_ok h" "ref_ok h'"] ref_ok_data [OF d] by blast
qed

lemma block_refs_row: "i < n \<Longrightarrow> set (row_refs (drop (i * unat (rowsize meta)) base) (unat (refsCount meta)) (refsOffset meta)) \<subseteq> set (block_refs n meta base)"
proof (induction n arbitrary: i base)
  case (Suc n)
  show ?case
  proof (cases i)
    case (Suc j)
    then show ?thesis using Suc.IH [of j "drop (unat (rowsize meta)) base"] Suc.prems by (auto simp: add.commute)
  qed simp
qed simp

lemma block_okI:
  "(\<And>i. i < n \<Longrightarrow> row_ok h ks (drop (i * unat (rowsize meta)) base) (rowsize meta) (refsCount meta) (refsOffset meta)) \<Longrightarrow>
   block_ok n h ks meta base"
proof (induction n arbitrary: base)
  case (Suc n)
  have "block_ok n h ks meta (drop (unat (rowsize meta)) base)"
    by (rule Suc.IH) (use Suc.prems [of "Suc _"] in \<open>auto simp: add.commute\<close>)
  then show ?case using Suc.prems [of 0] by simp
qed simp

lemma rows_heap:
  assumes "rows_ok h ks rs" and "\<forall>a \<in># live_refs (rs_refs rs). data_at h' a = data_at h a" and "objs h 0 = None" and "objs h' 0 = None"
  shows "rows_ok h' ks rs" and "i < nat (sint (rs_count rs)) \<Longrightarrow> rs_contents h' rs i = rs_contents h rs i"
proof -
  let ?m = "rs_meta rs"
  have row: "\<forall>a \<in> set (row_refs (drop (i * unat (rowsize ?m)) (rs_data rs)) (unat (refsCount ?m)) (refsOffset ?m)). a \<noteq> 0 \<longrightarrow> data_at h' a = data_at h a"
    if i: "i < nat (sint (rs_count rs))" for i
  proof (intro ballI impI)
    fix a assume "a \<in> set (row_refs (drop (i * unat (rowsize ?m)) (rs_data rs)) (unat (refsCount ?m)) (refsOffset ?m))" "a \<noteq> 0"
    then have "a \<in># live_refs (rs_refs rs)"
      unfolding in_live_refs rs_refs_def using subsetD [OF block_refs_row [OF i]] by blast
    then show "data_at h' a = data_at h a" using assms(2) by (rule bspec [rotated])
  qed
  show "i < nat (sint (rs_count rs)) \<Longrightarrow> rs_contents h' rs i = rs_contents h rs i"
    using row_heap(2) [OF row assms(3,4)] by (simp add: rs_contents_def)
  show "rows_ok h' ks rs"
    unfolding rows_ok_def
  proof (intro conjI)
    have "block_ok (nat (sint (rs_count rs))) h ks ?m (rs_data rs)" using assms(1) by (simp add: rows_ok_def)
    from row_heap(1) [OF row assms(3,4) block_row [OF this]] show "block_ok (nat (sint (rs_count rs))) h' ks ?m (rs_data rs)"
      by (intro block_okI)
  qed (use assms(1) in \<open>simp_all add: rows_ok_def\<close>)
qed

end
