(* ===== verification/Rows_Props.thy ===== *)
theory Rows_Props
  imports Rows_Correct
begin

text \<open>
  Properties of rows and result sets: equality and hash of rows, identity columns, copies.
\<close>

section \<open>Finding a row\<close>

lemma unat_scast_i32: "0 \<le> sint (row :: i32) \<Longrightarrow> unat (scast row :: u64) = nat (sint row)"
proof -
  assume nonneg: "0 \<le> sint row"
  have lt: "sint row < 2 ^ 31" using sint_lt [of row] by simp
  have "(scast row :: u64) = word_of_int (sint row)" by (rule scast_eq)
  then have "uint (scast row :: u64) = sint row mod 2 ^ 64" by (simp only: uint_word_of_int) simp
  also have "\<dots> = sint row" using nonneg less_trans [OF lt, of "2 ^ 64"] by (intro mod_pos_pos_trivial) simp_all
  finally show ?thesis by (simp only: unat_eq_nat_uint)
qed

lemma rows_length:
  assumes "rows_ok h ks rs" and "i \<le> nat (sint (rs_count rs))"
  shows "i * unat (rowsize (rs_meta rs)) \<le> length (rs_data rs)" and "length (rs_data rs) < 2 ^ 64"
  using assms by (auto simp: rows_ok_def)

lemma unat_times:
  assumes "0 \<le> sint (row :: i32)" and "nat (sint row) * unat (w :: u64) < 2 ^ 64"
  shows "unat (scast row * w) = nat (sint row) * unat w" and "unat (w * scast row) = nat (sint row) * unat w"
  using assms(2) unat_scast_i32 [OF assms(1)] by (simp_all add: unat_word_ariths mult.commute)

lemma row_at_ok:
  assumes "rows_ok h ks rs" and "0 \<le> sint row" and "sint row < sint (rs_count rs)"
  shows "row_at rs row = Some (drop (nat (sint row) * unat (rowsize (rs_meta rs))) (rs_data rs))"
proof -
  have "nat (sint row) * unat (rowsize (rs_meta rs)) \<le> length (rs_data rs)" using rows_length(1) [OF assms(1)] assms(2,3) by simp
  then show ?thesis using rows_length(2) [OF assms(1), of 0] unat_times(1) [OF assms(2), of "rowsize (rs_meta rs)"]
    by (simp add: row_at_def)
qed

lemma rs_row:
  assumes "rows_ok h ks rs" and "0 \<le> sint row" and "sint row < sint (rs_count rs)"
  shows "row_ok h ks (drop (nat (sint row) * unat (rowsize (rs_meta rs))) (rs_data rs)) (rowsize (rs_meta rs))
    (refsCount (rs_meta rs)) (refsOffset (rs_meta rs))"
  using block_row assms by (auto simp: rows_ok_def)

section \<open>Identity columns\<close>

definition column_size :: "u8 \<Rightarrow> nat" where
  "column_size t = (let core = unat (t AND CQL_DATA_TYPE_CORE) in if not_null t then normal_datasizes ! core else nullable_datasizes ! core)"

text \<open>
  The tables of a shape, as the compiler emits them: every column is one of the references at the end of the
  row or a value of its type before them.
\<close>

definition shape_ok :: "cql_result_set_meta \<Rightarrow> bool" where
  "shape_ok m \<longleftrightarrow> (\<forall>col < length (cells (dataTypes m)). col + 1 < length (cells (columnOffsets m)) \<and>
     (let off = unat (cells (columnOffsets m) ! (col + 1)); t = cells (dataTypes m) ! col in
      (\<exists>j < unat (refsCount m). off = unat (refsOffset m) + 8 * j) \<or>
      (unat (t AND CQL_DATA_TYPE_CORE) < 5 \<and> 0 < column_size t \<and>
       off + column_size t \<le> (if refsCount m \<noteq> 0 then unat (refsOffset m) else unat (rowsize m)))))"

definition column_contents :: "cql_heap \<Rightarrow> cql_result_set_meta \<Rightarrow> u8 list \<Rightarrow> u16 \<Rightarrow> u8 list + cql_data option" where
  "column_contents h m base col =
     (let off = cells (columnOffsets m) ! (unat col + 1) in
      if off < refsOffset m then Inl (take (column_size (cells (dataTypes m) ! unat col)) (drop (unat off) base))
      else Inr (data_at h (the (load_ref base off))))"

definition identity_contents :: "cql_heap \<Rightarrow> cql_result_set \<Rightarrow> nat \<Rightarrow> u16 list \<Rightarrow> (u8 list + cql_data option) list" where
  "identity_contents h rs i cols = map (column_contents h (rs_meta rs) (drop (i * unat (rowsize (rs_meta rs))) (rs_data rs))) cols"

lemma row_refs_nth:
  "refs_fit base n off \<Longrightarrow> j < n \<Longrightarrow> unat p = unat off + 8 * j \<Longrightarrow> load_ref base p = Some (row_refs base n off ! j)"
proof (induction n arbitrary: off j)
  case (Suc n)
  show ?case
  proof (cases j)
    case 0
    then have "p = off" using Suc.prems(3) by (simp add: word_unat_eq_iff)
    then show ?thesis using 0 refs_fit_load [OF Suc.prems(1)] by auto
  next
    case (Suc i)
    then show ?thesis
      using Suc.IH [OF refs_fit_next [OF Suc.prems(1)], of i] Suc.prems refs_fit_Suc [OF Suc.prems(1)] by simp
  qed
qed simp

lemma column_same:
  assumes "shape_ok m" and "refsCount m \<noteq> 0" and "unat col < length (cells (dataTypes m))"
    and "row_ok h ks b1 (rowsize m) (refsCount m) (refsOffset m)" and "row_ok h ks b2 (rowsize m) (refsCount m) (refsOffset m)"
    and "objs h 0 = None" and "cells ids ! (i + 1) = col" and "i + 1 < length (cells ids)"
  shows "rows_same_loop h m ids b1 b2 (Suc n) i =
    (if column_contents h m b1 col = column_contents h m b2 col then rows_same_loop h m ids b1 b2 n (i + 1) else Some False)"
proof -
  let ?off = "cells (columnOffsets m) ! (unat col + 1)" and ?t = "cells (dataTypes m) ! unat col"
  have cols: "unat col + 1 < length (cells (columnOffsets m))" and
    kind: "(\<exists>j < unat (refsCount m). unat ?off = unat (refsOffset m) + 8 * j) \<or>
      (unat (?t AND CQL_DATA_TYPE_CORE) < 5 \<and> 0 < column_size ?t \<and> unat ?off + column_size ?t \<le> unat (refsOffset m))"
    using assms(1-3) by (auto simp: shape_ok_def Let_def)
  have get: "array_get ids (i + 1) = Some col" "array_get (columnOffsets m) (unat col + 1) = Some ?off" "array_get (dataTypes m) (unat col) = Some ?t"
    using assms(3,7,8) cols by (simp_all add: array_get_def)
  show ?thesis
  proof (cases "?off < refsOffset m")
    case True
    then have k: "unat (?t AND CQL_DATA_TYPE_CORE) < 5" "unat ?off + column_size ?t \<le> unat (refsOffset m)"
      using kind by (auto simp: word_less_nat_alt)
    have "unat (refsOffset m) \<le> length b1" "unat (refsOffset m) \<le> length b2" using assms(2,4,5) by (auto simp: row_ok_def)
    then have "memcmp_eq b1 (unat ?off) b2 (unat ?off) (column_size ?t) = Some (column_contents h m b1 col = column_contents h m b2 col)"
      using k(2) True by (simp add: memcmp_eq_def slice_def column_contents_def Let_def)
    then show ?thesis using get True k(1) by (simp add: Let_def column_size_def)
  next
    case False
    then obtain j where j: "j < unat (refsCount m)" "unat ?off = unat (refsOffset m) + 8 * j"
      using kind by (auto simp: word_less_nat_alt)
    let ?r1 = "row_refs b1 (unat (refsCount m)) (refsOffset m) ! j" and ?r2 = "row_refs b2 (unat (refsCount m)) (refsOffset m) ! j"
    have l: "load_ref b1 ?off = Some ?r1" "load_ref b2 ?off = Some ?r2"
      using row_refs_nth [OF row_ok_fit [OF assms(4,2)] j] row_refs_nth [OF row_ok_fit [OF assms(5,2)] j] by simp_all
    have "ref_ok h (ks ! j) ?r1" "ref_ok h (ks ! j) ?r2"
      using assms(4,5) j(1) by (auto simp: row_ok_def list_all2_conv_all_nth)
    then have "cql_ref_equal h ?r1 ?r2 = Some (column_contents h m b1 col = column_contents h m b2 col)"
      using ref_equal_data assms(6) False l by (simp add: column_contents_def Let_def)
    then show ?thesis using get False l by simp
  qed
qed

lemma rows_same_cols:
  assumes "shape_ok m" and "refsCount m \<noteq> 0"
    and "row_ok h ks b1 (rowsize m) (refsCount m) (refsOffset m)" and "row_ok h ks b2 (rowsize m) (refsCount m) (refsOffset m)"
    and "objs h 0 = None"
  shows "i + 1 + n \<le> length (cells ids) \<Longrightarrow> \<forall>col \<in> set (take n (drop (i + 1) (cells ids))). unat col < length (cells (dataTypes m)) \<Longrightarrow>
    rows_same_loop h m ids b1 b2 n i = Some (map (column_contents h m b1) (take n (drop (i + 1) (cells ids))) =
      map (column_contents h m b2) (take n (drop (i + 1) (cells ids))))"
proof (induction n arbitrary: i)
  case (Suc n)
  have i: "i + 1 < length (cells ids)" using Suc.prems(1) by simp
  then have d: "take (Suc n) (drop (i + 1) (cells ids)) = (cells ids ! (i + 1)) # take n (drop (i + 1 + 1) (cells ids))"
    by (metis Cons_nth_drop_Suc Suc_eq_plus1 take_Suc_Cons)
  have c: "unat (cells ids ! (i + 1)) < length (cells (dataTypes m))" using Suc.prems(2) d by simp
  have "rows_same_loop h m ids b1 b2 n (i + 1) = Some (map (column_contents h m b1) (take n (drop (i + 1 + 1) (cells ids))) =
      map (column_contents h m b2) (take n (drop (i + 1 + 1) (cells ids))))"
    using Suc.IH [of "i + 1"] Suc.prems d by simp
  then show ?case unfolding d using column_same [OF assms(1,2) c assms(3,4,5) refl i] by simp
qed simp

section \<open>Copies\<close>

lemma rows_all:
  assumes "rows_ok h ks rs"
  shows "block_ok (nat (sint (rs_count rs))) h ks (rs_meta rs) (rs_data rs)" "0 \<le> sint (rs_count rs)"
    "length (rs_data rs) = nat (sint (rs_count rs)) * unat (rowsize (rs_meta rs))"
  using assms by (simp_all add: rows_ok_def)

lemma take_of_rows:
  assumes "(i :: nat) < c" and "(f + c) * w \<le> length xs"
  shows "take w (drop (i * w) (take (c * w) (drop (f * w) xs))) = take w (drop ((f + i) * w) xs)"
    and "w \<le> length (drop (i * w) (take (c * w) (drop (f * w) xs)))"
proof -
  have iw: "i * w + w \<le> c * w" using mult_le_mono1 [of "Suc i" c w] assms(1) by simp
  then have "w \<le> c * w - i * w" by simp
  then show "take w (drop (i * w) (take (c * w) (drop (f * w) xs))) = take w (drop ((f + i) * w) xs)"
    by (simp add: drop_take min_absorb1 algebra_simps)
  show "w \<le> length (drop (i * w) (take (c * w) (drop (f * w) xs)))"
    using assms(2) iw by (simp add: algebra_simps)
qed

text \<open>The rows that a copy holds, before the references are retained.\<close>

lemma copied_rows:
  assumes "rows_ok h ks rs" and "0 \<le> sint (from :: i32)" and "0 \<le> sint cnt" and "sint from + sint cnt \<le> sint (rs_count rs)"
    and "w = unat (rowsize (rs_meta rs))" and "new = take (nat (sint cnt) * w) (drop (nat (sint from) * w) (rs_data rs))"
  shows "slice (rs_data rs) (unat (rowsize (rs_meta rs) * scast from)) (unat (scast cnt * rowsize (rs_meta rs))) = Some new"
    and "rows_ok h ks \<lparr>rs_meta = rs_meta rs, rs_count = cnt, rs_data = new\<rparr>"
    and "i < nat (sint cnt) \<Longrightarrow>
      rs_contents h \<lparr>rs_meta = rs_meta rs, rs_count = cnt, rs_data = new\<rparr> i = rs_contents h rs (nat (sint from) + i)"
    and "i < nat (sint cnt) \<Longrightarrow> set (row_refs (drop (i * w) new) (unat (refsCount (rs_meta rs))) (refsOffset (rs_meta rs))) \<subseteq> set (rs_refs rs)"
proof -
  let ?f = "nat (sint from)" and ?c = "nat (sint cnt)" and ?n = "nat (sint (rs_count rs))" and ?m = "rs_meta rs"
  note r = rows_all [OF assms(1)]
  have le: "?f + ?c \<le> ?n" using assms(2-4) by simp
  then have all: "(?f + ?c) * w \<le> length (rs_data rs)" using mult_le_mono1 [OF le, of w] r(3) assms(5) by simp
  have len: "length new = ?c * w" using all by (simp add: assms(6) algebra_simps)
  have small: "?f * w < 2 ^ 64" "?c * w < 2 ^ 64" using all rows_length(2) [OF assms(1), of 0] by (simp_all add: algebra_simps)
  show "slice (rs_data rs) (unat (rowsize ?m * scast from)) (unat (scast cnt * rowsize ?m)) = Some new"
    using all unfolding unat_times(2) [OF assms(2) small(1) [unfolded assms(5)]] unat_times(1) [OF assms(3) small(2) [unfolded assms(5)]]
    by (simp add: slice_def assms(5,6) add_mult_distrib)
  have row: "row_ok h ks (drop (i * w) new) (rowsize ?m) (refsCount ?m) (refsOffset ?m)"
    "row_contents h (drop (i * w) new) (rowsize ?m) (refsCount ?m) (refsOffset ?m) = rs_contents h rs (?f + i)"
    "row_refs (drop (i * w) new) (unat (refsCount ?m)) (refsOffset ?m) = row_refs (drop ((?f + i) * w) (rs_data rs)) (unat (refsCount ?m)) (refsOffset ?m)"
    if i: "i < ?c" for i
  proof -
    note t = take_of_rows [OF i all, folded assms(6)]
    have fi: "?f + i < ?n" using i le by simp
    show "row_ok h ks (drop (i * w) new) (rowsize ?m) (refsCount ?m) (refsOffset ?m)"
      "row_contents h (drop (i * w) new) (rowsize ?m) (refsCount ?m) (refsOffset ?m) = rs_contents h rs (?f + i)"
      "row_refs (drop (i * w) new) (unat (refsCount ?m)) (refsOffset ?m) = row_refs (drop ((?f + i) * w) (rs_data rs)) (unat (refsCount ?m)) (refsOffset ?m)"
      using row_take [OF block_row [OF r(1) fi], of "drop (i * w) new"] t unfolding assms(5) rs_contents_def by simp_all
  qed
  show "i < nat (sint cnt) \<Longrightarrow> rs_contents h \<lparr>rs_meta = ?m, rs_count = cnt, rs_data = new\<rparr> i = rs_contents h rs (?f + i)"
    using row(2) by (simp add: rs_contents_def assms(5))
  show "i < nat (sint cnt) \<Longrightarrow> set (row_refs (drop (i * w) new) (unat (refsCount ?m)) (refsOffset ?m)) \<subseteq> set (rs_refs rs)"
    using row(3) block_refs_row [of "?f + i" ?n ?m "rs_data rs"] le unfolding rs_refs_def assms(5) by simp
  have "block_ok ?c h ks ?m new" using row(1) unfolding assms(5) by (intro block_okI)
  then show "rows_ok h ks \<lparr>rs_meta = ?m, rs_count = cnt, rs_data = new\<rparr>"
    using assms(3) len small(2) assms(5) by (simp add: rows_ok_def)
qed

lemma block_refs_subset:
  "(\<And>i. i < n \<Longrightarrow> set (row_refs (drop (i * unat (rowsize meta)) base) (unat (refsCount meta)) (refsOffset meta)) \<subseteq> A) \<Longrightarrow>
   set (block_refs n meta base) \<subseteq> A"
proof (induction n arbitrary: base)
  case (Suc n)
  have "set (block_refs n meta (drop (unat (rowsize meta)) base)) \<subseteq> A"
    by (rule Suc.IH) (use Suc.prems [of "Suc _"] in \<open>auto simp: add.commute\<close>)
  then show ?case using Suc.prems [of 0] by simp
qed simp

lemma length_block_refs [simp]: "length (block_refs n meta base) = n * unat (refsCount meta)"
  by (induction n arbitrary: base) auto

lemma copy_ok:
  assumes "rows_ok h ks rs" and "owned h (R + live_refs (rs_refs rs)) m"
    and "0 \<le> sint from" and "0 \<le> sint cnt" and "sint from + sint cnt \<le> sint (rs_count rs)"
    and "size (R + live_refs (rs_refs rs)) + m + nat (sint cnt) * unat (refsCount (rs_meta rs)) + 1 < 2 ^ 31"
  shows "\<exists>rs' h'. cql_rowset_copy rs from cnt h = Some (rs', h') \<and> rows_ok h' ks rs' \<and> rs_count rs' = cnt \<and> rs_meta rs' = rs_meta rs \<and>
    (\<forall>i < nat (sint cnt). rs_contents h' rs' i = rs_contents h rs (nat (sint from) + i)) \<and>
    owned h' (R + live_refs (rs_refs rs) + live_refs (rs_refs rs')) (m + 1) \<and> (\<forall>a. data_at h' a = data_at h a)"
proof -
  let ?m = "rs_meta rs" and ?c = "nat (sint cnt)"
  define w where "w = unat (rowsize ?m)"
  define new where "new = take (?c * w) (drop (nat (sint from) * w) (rs_data rs))"
  let ?rs = "\<lparr>rs_meta = ?m, rs_count = cnt, rs_data = new\<rparr>"
  note c = copied_rows [OF assms(1,3,4,5) w_def new_def]
  have sub: "set (rs_refs ?rs) \<subseteq> set (rs_refs rs)"
    unfolding rs_refs_def using block_refs_subset [OF c(4) [unfolded w_def rs_refs_def]] by simp
  have n: "length (rs_refs ?rs) = ?c * unat (refsCount ?m)" by (simp add: rs_refs_def)
  have "set_mset (live_refs (rs_refs ?rs)) \<subseteq> set_mset (R + live_refs (rs_refs rs))"
    using sub by (auto simp: in_live_refs)
  then obtain h1 where h1: "retain_all (rs_refs ?rs) h = Some h1" "owned h1 (R + live_refs (rs_refs rs) + live_refs (rs_refs ?rs)) m"
    "\<forall>b. data_at h1 b = data_at h b"
    using retain_all_owned [OF assms(2), of "rs_refs ?rs"] assms(6) n by auto
  have "retain_rows_loop ?c ?m new h = Some h1"
    using retain_rows_all rows_all(1) [OF c(2)] h1(1) by (simp add: rs_refs_def)
  moreover define h' where "h' = h1\<lparr>cql_outstanding_refs := cql_outstanding_refs h1 + 1\<rparr>"
  ultimately have copy: "cql_rowset_copy rs from cnt h = Some (?rs, h')"
    using c(1) assms(3,5) by (simp add: cql_rowset_copy_def bind_require cql_result_set_create_def Let_def)
  have d: "data_at h' a = data_at h a" for a using h1(3) by (simp add: h'_def data_at_def)
  have le: "size (R + live_refs (rs_refs rs) + live_refs (rs_refs ?rs)) + (m + 1) < 2 ^ 31"
    using assms(6) size_live_refs [of "rs_refs ?rs"] n by simp
  have own: "owned h' (R + live_refs (rs_refs rs) + live_refs (rs_refs ?rs)) (m + 1)"
    using h1(2) le unfolding owned_def h'_def by simp
  note heap = rows_heap [OF c(2) _ owned_null [OF assms(2)] owned_null [OF own]]
  show ?thesis using copy own d heap c(3) by (intro exI [of _ ?rs] exI [of _ h']) simp
qed

lemma teardown_ok:
  assumes "rows_ok h0 ks rs" and "owned h (R + live_refs (rs_refs rs)) m"
  shows "\<exists>h'. cql_result_set_teardown rs h = Some h' \<and> owned h' R m \<and> (\<forall>b. b \<in># R \<longrightarrow> data_at h' b = data_at h b)"
  using release_all_owned [OF assms(2)] teardown_all [OF assms(1)] by blast

section \<open>Properties\<close>

text \<open>
  C12. Two rows are equal exactly when they mean the same: the same bytes before the references and, at every
  reference, both null or objects with the same text or the same bytes, at whatever addresses.  Equal rows have the same hash,
  so that a hash table keyed by rows finds a row through any row that is equal to it.
\<close>

theorem rows_equal_hash:
  assumes "rows_ok h ks rs1" and "rows_ok h ks rs2" and "rs_meta rs1 = rs_meta rs2" and "objs h 0 = None"
    and "0 \<le> sint row1" and "sint row1 < sint (rs_count rs1)" and "0 \<le> sint row2" and "sint row2 < sint (rs_count rs2)"
  shows "cql_rows_equal h rs1 row1 rs2 row2 = Some (rs_contents h rs1 (nat (sint row1)) = rs_contents h rs2 (nat (sint row2))) \<and>
    (\<exists>hc. cql_row_hash h rs1 row1 = Some hc \<and>
      (rs_contents h rs1 (nat (sint row1)) = rs_contents h rs2 (nat (sint row2)) \<longrightarrow> cql_row_hash h rs2 row2 = Some hc))"
proof -
  note a = row_at_ok [OF assms(1,5,6)] row_at_ok [OF assms(2,7,8)]
  note r = rs_row [OF assms(1,5,6)] rs_row [OF assms(2,7,8), folded assms(3)]
  have "cql_rows_equal h rs1 row1 rs2 row2 = Some (rs_contents h rs1 (nat (sint row1)) = rs_contents h rs2 (nat (sint row2)))"
    using a buffers_equal_contents [OF r assms(4)] assms(3,6,8)
    by (simp add: cql_rows_equal_def bind_require rs_contents_def flip: row_at_def [unfolded Let_def]) (simp add: row_at_def Let_def split: if_splits)
  moreover have "cql_row_hash h rs1 row1 = Some (contents_hash (rs_contents h rs1 (nat (sint row1))))"
    "cql_row_hash h rs2 row2 = Some (contents_hash (rs_contents h rs2 (nat (sint row2))))"
    using a hash_buffer_contents [OF r(1) assms(4)] hash_buffer_contents [OF r(2) assms(4)] assms(3,6,8)
    by (simp_all add: cql_row_hash_def bind_require rs_contents_def Let_def)
  ultimately show ?thesis by simp
qed

text \<open>A heap and a result set of two rows, each an integer and a text, for the witnesses.\<close>

definition word_heap :: cql_heap where
  "word_heap = cql_string_ref_new 48 ''hi'' (cql_string_ref_new 16 ''hi'' \<lparr>objs = Map.empty, cql_outstanding_refs = 0\<rparr>)"

definition note_info :: cql_fetch_info where
  "note_info = \<lparr>data_types = \<lparr>array_at = 4096, cells = [0x82, 0x05]\<rparr>, col_offsets = \<lparr>array_at = 4104, cells = [2, 0, 8]\<rparr>,
     refs_count = 1, refs_offset = 8, identity_columns = Some \<lparr>array_at = 4112, cells = [1, 1]\<rparr>, info_rowsize = 16\<rparr>"

definition note_rows :: cql_result_set where
  "note_rows = \<lparr>rs_meta = the (cql_initialize_meta note_info), rs_count = 2,
     rs_data = [1, 0, 0, 0, 0, 0, 0, 0, 16, 0, 0, 0, 0, 0, 0, 0, 1, 0, 0, 0, 0, 0, 0, 0, 48, 0, 0, 0, 0, 0, 0, 0]\<rparr>"

lemma word_heap: "owned word_heap ({#} + {#16, 48#}) 0" "objs word_heap 0 = None"
  by (auto simp: word_heap_def cql_string_ref_new_def new_object_def owned_def)

lemma two_rows:
  "block_refs 2 meta base = row_refs base (unat (refsCount meta)) (refsOffset meta) @
     row_refs (drop (unat (rowsize meta)) base) (unat (refsCount meta)) (refsOffset meta)"
  "block_ok 2 h ks meta base \<longleftrightarrow> row_ok h ks base (rowsize meta) (refsCount meta) (refsOffset meta) \<and>
     row_ok h ks (drop (unat (rowsize meta)) base) (rowsize meta) (refsCount meta) (refsOffset meta)"
  "row_refs base 1 off = [the (load_ref base off)]"
  by (simp_all add: numeral_2_eq_2)

lemma all_less_two: "(\<forall>i < Suc (Suc 0). P i) \<longleftrightarrow> P 0 \<and> P 1"
  by (auto simp: less_Suc_eq)

lemma note_meta:
  "rs_meta note_rows = \<lparr>refsCount = 1, refsOffset = 8, columnOffsets = \<lparr>array_at = 4104, cells = [2, 0, 8]\<rparr>, rowsize = 16, columnCount = 2,
     identityColumns = Some \<lparr>array_at = 4112, cells = [1, 1]\<rparr>, dataTypes = \<lparr>array_at = 4096, cells = [0x82, 0x05]\<rparr>\<rparr>"
  by (simp add: note_rows_def note_info_def cql_initialize_meta_def array_get_def)

lemma note_data:
  "rs_count note_rows = 2"
  "rs_data note_rows = [1, 0, 0, 0, 0, 0, 0, 0, 16, 0, 0, 0, 0, 0, 0, 0, 1, 0, 0, 0, 0, 0, 0, 0, 48, 0, 0, 0, 0, 0, 0, 0]"
  by (simp_all add: note_rows_def)

lemma note_refs:
  "load_ref (rs_data note_rows) 8 = Some 16" "load_ref (drop 16 (rs_data note_rows)) 8 = Some 48"
  by (simp_all add: note_data load_ref_def slice_def u64_of_bytes_def)

lemma word_refs: "ref_ok word_heap True 16" "ref_ok word_heap True 48"
  by (simp_all add: ref_ok_def word_heap_def cql_string_ref_new_def new_object_def cstr_def)

lemma note_rows:
  "rows_ok word_heap [True] note_rows" "rs_refs note_rows = [16, 48]" "shape_ok (rs_meta note_rows)"
proof -
  have "length (rs_data note_rows) = 32" by (simp add: note_data)
  then show "rows_ok word_heap [True] note_rows"
    by (simp add: rows_ok_def note_meta note_data(1) two_rows row_ok_def note_refs word_refs)
  show "rs_refs note_rows = [16, 48]" by (simp add: rs_refs_def note_meta note_data(1) two_rows note_refs)
  show "shape_ok (rs_meta note_rows)"
    by (simp add: shape_ok_def note_meta all_less_two column_size_def not_null_def CQL_DATA_TYPE_CORE_def
        CQL_DATA_TYPE_NOT_NULL_def normal_datasizes_def)
qed

theorem rows_equal_hash_witness:
  "cql_rows_equal word_heap note_rows 0 note_rows 1 = Some True \<and> cql_row_hash word_heap note_rows 0 = cql_row_hash word_heap note_rows 1"
proof -
  have "rs_contents word_heap note_rows 0 = rs_contents word_heap note_rows 1"
    by (simp add: rs_contents_def row_contents_def note_meta note_refs) (simp add: note_data data_at_def word_heap_def cql_string_ref_new_def new_object_def)
  then show ?thesis
    using rows_equal_hash [OF note_rows(1) note_rows(1) refl word_heap(2), of 0 1] note_data(1) by auto
qed

text \<open>
  C39. For shapes with a reference column, two rows are the same exactly when their identity columns mean the
  same, whatever the other columns hold: the bytes of a value, the text or the bytes behind a reference.  Columns may be
  listed in any order.
\<close>

theorem rows_same_identity:
  assumes "rows_ok h ks rs1" and "rows_ok h ks rs2" and "rs_meta rs1 = rs_meta rs2" and "objs h 0 = None"
    and "0 \<le> sint row1" and "sint row1 < sint (rs_count rs1)" and "0 \<le> sint row2" and "sint row2 < sint (rs_count rs2)"
    and "shape_ok (rs_meta rs1)" and "refsCount (rs_meta rs1) \<noteq> 0" and "identityColumns (rs_meta rs1) = Some ids"
    and "cells ids = n # cols" and "n \<noteq> 0" and "length cols = unat n" and "\<forall>col \<in> set cols. unat col < length (cells (dataTypes (rs_meta rs1)))"
  shows "cql_rows_same h rs1 row1 rs2 row2 =
    Some (identity_contents h rs1 (nat (sint row1)) cols = identity_contents h rs2 (nat (sint row2)) cols)"
proof -
  note a = row_at_ok [OF assms(1,5,6)] row_at_ok [OF assms(2,7,8), folded assms(3)]
  note r = rs_row [OF assms(1,5,6)] rs_row [OF assms(2,7,8), folded assms(3)]
  have cols: "take (unat n) (drop (0 + 1) (cells ids)) = cols" using assms(12,14) by simp
  have l: "0 + 1 + unat n \<le> length (cells ids)" using assms(12,14) by simp
  have "n > 0" using assms(13) by (simp add: word_neq_0_conv)
  then show ?thesis
    using a rows_same_cols [OF assms(9,10) r assms(4) l] cols assms(3,6,8,11,12,15)
    by (simp add: cql_rows_same_def bind_require array_get_def identity_contents_def)
qed

theorem rows_same_identity_witness:
  "cql_rows_same word_heap note_rows 0 note_rows 1 = Some True"
proof -
  have "identity_contents word_heap note_rows 0 [1] = identity_contents word_heap note_rows 1 [1]"
    by (simp add: identity_contents_def column_contents_def note_meta note_refs) (simp add: data_at_def word_heap_def cql_string_ref_new_def new_object_def)
  then show ?thesis
    using rows_same_identity [OF note_rows(1) note_rows(1) refl word_heap(2), of 0 1 "\<lparr>array_at = 4112, cells = [1, 1]\<rparr>" 1 "[1]"] note_rows(3)
    by (simp add: note_meta note_data(1))
qed

text \<open>
  C40. For shapes without a reference column the comparison is undefined.  The compiler does not set the offset
  of the references of such a shape, so it stays 0, no column lies before it, and the first identity column is
  taken for a reference: eight bytes of values of the rows are used as addresses as soon as they differ.
\<close>

theorem rows_same_without_references:
  assumes "rows_ok h ks rs1" and "rows_ok h ks rs2"
    and "0 \<le> sint row1" and "sint row1 < sint (rs_count rs1)" and "0 \<le> sint row2" and "sint row2 < sint (rs_count rs2)"
    and "refsOffset (rs_meta rs1) = 0" and "identityColumns (rs_meta rs1) = Some ids" and "cells ids = n # col # cols"
    and "off = cells (columnOffsets (rs_meta rs1)) ! (unat col + 1)"
    and "load_ref (drop (nat (sint row1) * unat (rowsize (rs_meta rs1))) (rs_data rs1)) off = Some a"
    and "load_ref (drop (nat (sint row2) * unat (rowsize (rs_meta rs2))) (rs_data rs2)) off = Some b"
    and "a \<noteq> b" and "a \<noteq> 0" and "b \<noteq> 0" and "objs h a = None"
    and "rs_meta rs1 = rs_meta rs2" and "n \<noteq> 0" and "shape_ok (rs_meta rs1)" and "refsCount (rs_meta rs1) = 0"
  shows "cql_rows_same h rs1 row1 rs2 row2 = None"
proof -
  from assms(18) obtain k where k: "unat n = Suc k" by (metis not0_implies_Suc unat_eq_zero)
  have "cql_ref_equal h a b = None" using assms(13-16) by (simp add: cql_ref_equal_def)
  then have "rows_same_loop h (rs_meta rs1) ids (drop (nat (sint row1) * unat (rowsize (rs_meta rs1))) (rs_data rs1))
      (drop (nat (sint row2) * unat (rowsize (rs_meta rs2))) (rs_data rs2)) (unat n) 0 = None"
    using assms(7,9-12) k by (simp add: array_get_def)
  then show ?thesis
    using row_at_ok [OF assms(1,3,4)] row_at_ok [OF assms(2,5,6)] assms(8,9,17)
    by (simp add: cql_rows_same_def bind_require array_get_def)
qed

definition plain_info :: cql_fetch_info where
  "plain_info = \<lparr>data_types = \<lparr>array_at = 4096, cells = [0x82]\<rparr>, col_offsets = \<lparr>array_at = 4104, cells = [1, 0]\<rparr>,
     refs_count = 0, refs_offset = 0, identity_columns = Some \<lparr>array_at = 4112, cells = [1, 0]\<rparr>, info_rowsize = 8\<rparr>"

definition plain_rows :: cql_result_set where
  "plain_rows = \<lparr>rs_meta = the (cql_initialize_meta plain_info), rs_count = 2, rs_data = [1, 0, 0, 0, 0, 0, 0, 0, 2, 0, 0, 0, 0, 0, 0, 0]\<rparr>"

lemma plain_rows:
  "rs_meta plain_rows = \<lparr>refsCount = 0, refsOffset = 0, columnOffsets = \<lparr>array_at = 4104, cells = [1, 0]\<rparr>, rowsize = 8, columnCount = 1,
     identityColumns = Some \<lparr>array_at = 4112, cells = [1, 0]\<rparr>, dataTypes = \<lparr>array_at = 4096, cells = [0x82]\<rparr>\<rparr>"
  "rs_count plain_rows = 2" "rs_data plain_rows = [1, 0, 0, 0, 0, 0, 0, 0, 2, 0, 0, 0, 0, 0, 0, 0]"
  by (simp_all add: plain_rows_def plain_info_def cql_initialize_meta_def array_get_def)

lemma plain_rows_ok: "rows_ok h [] plain_rows"
proof -
  have "length (rs_data plain_rows) = 16" by (simp add: plain_rows(3))
  then show ?thesis by (simp add: rows_ok_def plain_rows(1,2) two_rows row_ok_def)
qed

lemma shape_ok_plain: "shape_ok (rs_meta plain_rows)"
  by (simp add: shape_ok_def plain_rows(1) column_size_def not_null_def CQL_DATA_TYPE_CORE_def CQL_DATA_TYPE_NOT_NULL_def normal_datasizes_def)

theorem rows_same_without_references_witness:
  "cql_rows_same word_heap plain_rows 0 plain_rows 1 = None"
proof -
  have "load_ref (rs_data plain_rows) 0 = Some 1" "load_ref (drop 8 (rs_data plain_rows)) 0 = Some 2"
    by (simp_all add: plain_rows(3) load_ref_def slice_def u64_of_bytes_def)
  then show ?thesis
    using rows_same_without_references [OF plain_rows_ok plain_rows_ok, of 0 1 "\<lparr>array_at = 4112, cells = [1, 0]\<rparr>" 1 0 "[]" 0 1 2 word_heap]
      shape_ok_plain by (simp add: plain_rows(1,2)) (simp add: word_heap_def cql_string_ref_new_def new_object_def)
qed

text \<open>
  C13. A copy of some rows of a result set lives on its own.  The copy returns, each of its rows means
  what the row it was copied from means, and this stays so when the original is torn down; tearing down the copy
  then gives back every reference that either of them held.
\<close>

theorem rowset_copy_independent:
  assumes "rows_ok h ks rs" and "owned h (R + live_refs (rs_refs rs)) m"
    and "0 \<le> sint from" and "0 \<le> sint cnt" and "sint from + sint cnt \<le> sint (rs_count rs)"
    and "size (R + live_refs (rs_refs rs)) + m + nat (sint cnt) * unat (refsCount (rs_meta rs)) + 1 < 2 ^ 31"
  shows "\<exists>rs' h1 h2 h3. cql_rowset_copy rs from cnt h = Some (rs', h1) \<and> cql_result_set_teardown rs h1 = Some h2 \<and>
    rs_count rs' = cnt \<and> (\<forall>i < nat (sint cnt). rs_contents h2 rs' i = rs_contents h rs (nat (sint from) + i)) \<and>
    cql_result_set_teardown rs' h2 = Some h3 \<and> owned h3 R (m + 1) \<and> (\<forall>a \<in># R. data_at h3 a = data_at h a)"
proof -
  obtain rs' h1 where c: "cql_rowset_copy rs from cnt h = Some (rs', h1)" "rows_ok h1 ks rs'" "rs_count rs' = cnt"
    "\<forall>i < nat (sint cnt). rs_contents h1 rs' i = rs_contents h rs (nat (sint from) + i)"
    "owned h1 (R + live_refs (rs_refs rs) + live_refs (rs_refs rs')) (m + 1)" "\<forall>a. data_at h1 a = data_at h a"
    using copy_ok [OF assms] by blast
  have "owned h1 (R + live_refs (rs_refs rs') + live_refs (rs_refs rs)) (m + 1)" using c(5) by (simp add: ac_simps)
  from teardown_ok [OF assms(1) this] obtain h2 where t: "cql_result_set_teardown rs h1 = Some h2"
    "owned h2 (R + live_refs (rs_refs rs')) (m + 1)" "\<forall>b. b \<in># R + live_refs (rs_refs rs') \<longrightarrow> data_at h2 b = data_at h1 b" by blast
  note heap = rows_heap [OF c(2) _ owned_null [OF c(5)] owned_null [OF t(2)]]
  obtain h3 where u: "cql_result_set_teardown rs' h2 = Some h3" "owned h3 R (m + 1)" "\<forall>b. b \<in># R \<longrightarrow> data_at h3 b = data_at h2 b"
    using teardown_ok [OF c(2) t(2)] by blast
  show ?thesis using c(1,3,4,6) t u heap by (intro exI [of _ rs'] exI [of _ h1] exI [of _ h2] exI [of _ h3]) simp
qed

theorem rowset_copy_independent_witness:
  "\<exists>rs' h1 h2 h3. cql_rowset_copy note_rows 1 1 word_heap = Some (rs', h1) \<and> cql_result_set_teardown note_rows h1 = Some h2 \<and>
     rs_contents h2 rs' 0 = rs_contents word_heap note_rows 1 \<and> cql_result_set_teardown rs' h2 = Some h3 \<and> cql_outstanding_refs h3 = 1"
proof -
  have own: "owned word_heap ({#} + live_refs (rs_refs note_rows)) 0" using word_heap(1) by (simp add: note_rows(2))
  have s: "size ({#} + live_refs (rs_refs note_rows)) + 0 + nat (sint (1 :: i32)) * unat (refsCount (rs_meta note_rows)) + 1 < 2 ^ 31"
    by (simp add: note_rows(2) note_meta)
  obtain rs' h1 h2 h3 where "cql_rowset_copy note_rows 1 1 word_heap = Some (rs', h1)" "cql_result_set_teardown note_rows h1 = Some h2"
    "\<forall>i < nat (sint (1 :: i32)). rs_contents h2 rs' i = rs_contents word_heap note_rows (nat (sint (1 :: i32)) + i)"
    "cql_result_set_teardown rs' h2 = Some h3" "owned h3 {#} (0 + 1)"
    using rowset_copy_independent [OF note_rows(1) own _ _ _ s, of 1] by (auto simp: note_data(1))
  then show ?thesis by (intro exI [of _ rs'] exI [of _ h1] exI [of _ h2] exI [of _ h3]) (simp add: owned_def)
qed

end
