(* ===== verification/Hashtab_Views.thy ===== *)
theory Hashtab_Views
  imports Hashtab
begin

text \<open>
  The hash table with keys that the table does not count: retaining and releasing do nothing, and the
  memory stays as it is.  A key counts by what its address shows, its view; the table is seen as the multiset
  of its entries, with at most one for each view.
\<close>

definition viewed :: "'h cql_hashtab \<Rightarrow> 'h \<Rightarrow> i64 set \<Rightarrow> (i64 \<Rightarrow> 'k) \<Rightarrow> ('k \<Rightarrow> u64) \<Rightarrow> bool" where
  "viewed ht h K view hc \<longleftrightarrow> (\<forall>k \<in> K. hash_key ht k h = Some (hc (view k))) \<and>
     (\<forall>k \<in> K. \<forall>k' \<in> K. compare_keys ht k k' h = Some (view k = view k')) \<and>
     retain_key ht = cql_no_op_retain_release \<and> retain_val ht = cql_no_op_retain_release \<and>
     release_key ht = cql_no_op_retain_release \<and> release_val ht = cql_no_op_retain_release"

interpretation viewed_keys: hashed_keys "\<lambda>k. ucast (hc k :: u64) :: u32" "(=)" "\<lambda>_. True" for hc
  by unfold_locales auto

definition slot_view :: "(i64 \<Rightarrow> 'k) \<Rightarrow> cql_hashtab_entry \<Rightarrow> 'k option" where
  "slot_view view e = (if entry_key e = 0 then None else Some (view (entry_key e)))"

definition slot_views :: "(i64 \<Rightarrow> 'k) \<Rightarrow> 'h cql_hashtab \<Rightarrow> 'k option list" where
  "slot_views view ht = map (slot_view view) (ht_payload ht)"

definition table_entries :: "'h cql_hashtab \<Rightarrow> cql_hashtab_entry list" where
  "table_entries ht = filter (\<lambda>e. entry_key e \<noteq> 0) (ht_payload ht)"

definition table_inv :: "(i64 \<Rightarrow> 'k) \<Rightarrow> ('k \<Rightarrow> u64) \<Rightarrow> 'h cql_hashtab \<Rightarrow> bool" where
  "table_inv view hc ht \<longleftrightarrow> length (ht_payload ht) = unat (ht_capacity ht) \<and> 4 \<le> unat (ht_capacity ht) \<and>
     viewed_keys.keys_inv hc (slot_views view ht) \<and> unat (ht_count ht) = length (table_entries ht) \<and>
     4 * unat (ht_count ht) \<le> 3 * unat (ht_capacity ht) \<and> (\<forall>e \<in> set (ht_payload ht). entry_key e = 0 \<longrightarrow> entry_val e = 0)"

lemma table_invD:
  assumes "table_inv view hc ht"
  shows "length (ht_payload ht) = unat (ht_capacity ht)" "4 \<le> unat (ht_capacity ht)" "viewed_keys.keys_inv hc (slot_views view ht)"
    "unat (ht_count ht) = length (table_entries ht)" "4 * unat (ht_count ht) \<le> 3 * unat (ht_capacity ht)"
    "\<forall>e \<in> set (ht_payload ht). entry_key e = 0 \<longrightarrow> entry_val e = 0"
  using assms by (simp_all add: table_inv_def)

lemma slot_views_nth: "i < length (ht_payload ht) \<Longrightarrow> slot_views view ht ! i = slot_view view (ht_payload ht ! i)"
  by (simp add: slot_views_def)

lemma slot_views_length [simp]: "length (slot_views view ht) = length (ht_payload ht)"
  by (simp add: slot_views_def)

lemma entries_nth: "e \<in> set (table_entries ht) \<longleftrightarrow> (\<exists>i < length (ht_payload ht). ht_payload ht ! i = e \<and> entry_key e \<noteq> 0)"
  by (auto simp: table_entries_def in_set_conv_nth)

lemma views_used: "used_slots (slot_views view ht) = length (table_entries ht)"
proof -
  have "length (filter (\<lambda>c. c \<noteq> None) (map (slot_view view) es)) = length (filter (\<lambda>e. entry_key e \<noteq> 0) es)" for es
    by (induction es) (auto simp: slot_view_def)
  then show ?thesis by (simp add: used_slots_def slot_views_def table_entries_def)
qed

section \<open>Probing\<close>

lemma view_loop:
  assumes "viewed ht h K view hc" and "entry_key ` set (table_entries ht) \<subseteq> K" and "k \<in> K"
    and "length (ht_payload ht) = unat (ht_capacity ht)"
  shows "hashtab_loop ht k h fuel off = probe (\<lambda>x. x = view k) (slot_views view ht) fuel off"
proof (induction fuel arbitrary: off)
  case (Suc fuel)
  show ?case
  proof (cases "off < length (ht_payload ht)")
    case True
    let ?e = "ht_payload ht ! off"
    have "entry_key ?e \<noteq> 0 \<Longrightarrow> entry_key ?e \<in> K" using assms(2) True entries_nth by blast
    then have eq: "entry_key ?e \<noteq> 0 \<Longrightarrow> compare_keys ht (entry_key ?e) k h = Some (view (entry_key ?e) = view k)"
      using assms(1,3) by (simp add: viewed_def)
    have sv: "slot_views view ht ! off = slot_view view ?e" by (rule slot_views_nth [OF True])
    show ?thesis
    proof (cases "entry_key ?e = 0")
      case 0: True
      then show ?thesis using True sv by (simp add: probe.simps slot_view_def)
    next
      case False
      then show ?thesis using True sv eq Suc.IH assms(4) by (simp add: probe.simps slot_view_def Let_def)
    qed
  next
    case False
    then show ?thesis by (simp add: probe.simps)
  qed
qed simp

lemma view_slot:
  assumes "viewed ht h K view hc" and "entry_key ` set (table_entries ht) \<subseteq> K" and "k \<in> K"
    and "length (ht_payload ht) = unat (ht_capacity ht)"
  shows "hashtab_slot ht k h = viewed_keys.seek hc (slot_views view ht) (view k)"
proof -
  have "hash_key ht k h = Some (hc (view k))" using assms(1,3) by (simp add: viewed_def)
  then show ?thesis
    using view_loop [OF assms] assms(4) by (simp add: hashtab_slot_def viewed_keys.seek_def viewed_keys.home_def unat_mod_distrib)
qed

lemma table_find:
  assumes "table_inv view hc ht" and "viewed ht h K view hc" and "entry_key ` set (table_entries ht) \<subseteq> K" and "k \<in> K"
  obtains (found) i where "i < length (ht_payload ht)" "ht_payload ht ! i \<in> set (table_entries ht)" "view (entry_key (ht_payload ht ! i)) = view k"
      "cql_hashtab_find ht k h = Some (Some i)"
  | (absent) j where "j < length (ht_payload ht)" "entry_key (ht_payload ht ! j) = 0" "hashtab_slot ht k h = Some j"
      "viewed_keys.seek hc (slot_views view ht) (view k) = Some j" "cql_hashtab_find ht k h = Some None"
      "\<forall>e \<in> set (table_entries ht). view (entry_key e) \<noteq> view k"
proof -
  note d = table_invD [OF assms(1)]
  note slot = view_slot [OF assms(2-4) d(1)]
  obtain j where j: "j < length (ht_payload ht)" "viewed_keys.seek hc (slot_views view ht) (view k) = Some j"
    using viewed_keys.seek_ends [OF d(3)] by auto
  show thesis
  proof (cases "entry_key (ht_payload ht ! j) = 0")
    case True
    have free: "slot_views view ht ! j = None" using True j(1) by (simp add: slot_views_nth slot_view_def)
    have "view (entry_key e) \<noteq> view k" if e: "e \<in> set (table_entries ht)" for e
    proof -
      have "Some (view (entry_key e)) \<in> set (slot_views view ht)"
        using e by (force simp: slot_views_def table_entries_def slot_view_def)
      then show ?thesis using viewed_keys.seek_free [OF d(3) j(2) free] by blast
    qed
    then show thesis using absent [OF j(1) True] slot j(2) True by (simp add: cql_hashtab_find_def)
  next
    case False
    then have "slot_views view ht ! j = Some (view (entry_key (ht_payload ht ! j)))" using j(1) by (simp add: slot_views_nth slot_view_def)
    then have "view (entry_key (ht_payload ht ! j)) = view k" using viewed_keys.seek_stored [OF d(3)] j by simp
    then show thesis using found [OF j(1)] False slot j entries_nth by (auto simp: cql_hashtab_find_def)
  qed
qed

text \<open>At most one entry for each view.\<close>

lemma table_one_entry:
  assumes "table_inv view hc ht" and "d \<in> set (table_entries ht)" and "e \<in> set (table_entries ht)" and "view (entry_key d) = view (entry_key e)"
  shows "d = e"
proof -
  obtain i j where ij: "i < length (ht_payload ht)" "ht_payload ht ! i = d" "entry_key d \<noteq> 0"
    "j < length (ht_payload ht)" "ht_payload ht ! j = e" "entry_key e \<noteq> 0"
    using assms(2,3) entries_nth by metis
  have "i = j"
    using viewed_keys.keys_distinct [OF table_invD(3) [OF assms(1)], of i "view (entry_key d)" j "view (entry_key e)"] ij assms(4)
    by (simp add: slot_views_nth slot_view_def)
  then show ?thesis using ij by simp
qed

section \<open>Adding\<close>

definition table_put :: "'h cql_hashtab \<Rightarrow> nat \<Rightarrow> i64 \<Rightarrow> i64 \<Rightarrow> 'h cql_hashtab" where
  "table_put ht j k v = ht\<lparr>ht_payload := (ht_payload ht)[j := \<lparr>entry_key = k, entry_val = v\<rparr>], ht_count := ht_count ht + 1\<rparr>"

lemma filter_update:
  "j < length xs \<Longrightarrow> \<not> P (xs ! j) \<Longrightarrow> P y \<Longrightarrow> mset (filter P (xs[j := y])) = add_mset y (mset (filter P xs))"
proof (induction xs arbitrary: j)
  case (Cons x xs)
  then show ?case by (cases j) auto
qed simp

lemma put_entries:
  assumes "j < length (ht_payload ht)" and "entry_key (ht_payload ht ! j) = 0" and "k \<noteq> 0"
  shows "mset (table_entries (table_put ht j k v)) = add_mset \<lparr>entry_key = k, entry_val = v\<rparr> (mset (table_entries ht))"
  using filter_update [OF assms(1), of "\<lambda>e. entry_key e \<noteq> 0" "\<lparr>entry_key = k, entry_val = v\<rparr>"] assms(2,3)
  by (simp add: table_entries_def table_put_def)

text \<open>An addition that stays below the load factor.\<close>

lemma table_add_low:
  assumes "table_inv view hc ht" and "viewed ht h K view hc" and "entry_key ` set (table_entries ht) \<subseteq> K" and "k \<in> K" and "k \<noteq> 0"
    and "\<forall>e \<in> set (table_entries ht). view (entry_key e) \<noteq> view k"
    and "4 * (unat (ht_count ht) + 1) \<le> 3 * unat (ht_capacity ht)"
  shows "\<exists>j. cql_hashtab_add_with rh ht k v h = Some (True, table_put ht j k v, h) \<and> table_inv view hc (table_put ht j k v) \<and>
    viewed (table_put ht j k v) h K view hc \<and> ht_capacity (table_put ht j k v) = ht_capacity ht \<and>
    mset (table_entries (table_put ht j k v)) = add_mset \<lparr>entry_key = k, entry_val = v\<rparr> (mset (table_entries ht))"
  using assms(1-4)
proof (cases rule: table_find)
  case (found i)
  then show ?thesis using assms(6) by blast
next
  case (absent j)
  let ?ht = "table_put ht j k v"
  note d = table_invD [OF assms(1)]
  have fields: "ht_capacity ?ht = ht_capacity ht" "ht_count ?ht = ht_count ht + 1" "length (ht_payload ?ht) = length (ht_payload ht)"
    by (simp_all add: table_put_def)
  note ent = put_entries [OF absent(1,2) assms(5), of v]
  have "unat (ht_count ht) + 1 < 2 ^ 32" using assms(7) unat_u32_bound [of "ht_capacity ht"] by simp
  then have cnt: "unat (ht_count ht + 1) = unat (ht_count ht) + 1" by (simp add: unat_word_ariths)
  have views: "slot_views view ?ht = (slot_views view ht)[j := Some (view k)]"
    using assms(5) by (simp add: slot_views_def table_put_def map_update slot_view_def)
  have "length (table_entries ?ht) = length (table_entries ht) + 1" using arg_cong [OF ent, of size] by simp
  moreover from this have "used_slots (slot_views view ?ht) < length (slot_views view ?ht)"
    using cnt d(1,4) assms(7) fields by (simp add: views_used)
  then have "None \<in> set (slot_views view ?ht)" by (rule used_slots_free)
  then have "viewed_keys.keys_inv hc (slot_views view ?ht)"
    using viewed_keys.keys_inv_insert [OF d(3) absent(4)] absent(1,2) unfolding views by (simp add: slot_views_nth slot_view_def)
  moreover have "\<forall>e \<in> set (ht_payload ?ht). entry_key e = 0 \<longrightarrow> entry_val e = 0"
    using d(6) assms(5) set_update_subset_insert [of "ht_payload ht" j "\<lparr>entry_key = k, entry_val = v\<rparr>"] by (auto simp: table_put_def)
  ultimately have inv: "table_inv view hc ?ht" using d(1,2,4) fields cnt assms(7) by (simp add: table_inv_def)
  have low: "\<not> over_hashtab_load (ht_count ht + 1) (ht_capacity ht)" using assms(7) cnt by (simp add: over_hashtab_load_def)
  have "cql_hashtab_add_with rh ht k v h = Some (True, ?ht, h)"
    using absent(2,3) low assms(2) by (simp add: cql_hashtab_add_with_def table_put_def viewed_def cql_no_op_retain_release_def Let_def)
  moreover have "viewed ?ht h K view hc" using assms(2) by (simp add: viewed_def table_put_def)
  ultimately show ?thesis using inv ent fields(1) by blast
qed

lemma table_readd:
  assumes "table_inv view hc ht" and "viewed ht h K view hc" and "entry_key ` set (table_entries ht) \<subseteq> K"
    and "entry_key ` set (filter (\<lambda>e. entry_key e \<noteq> 0) es) \<subseteq> K"
    and "distinct (map (view \<circ> entry_key) (table_entries ht @ filter (\<lambda>e. entry_key e \<noteq> 0) es))"
    and "4 * (unat (ht_count ht) + length (filter (\<lambda>e. entry_key e \<noteq> 0) es)) \<le> 3 * unat (ht_capacity ht)"
  shows "\<exists>ht'. hashtab_readd rh es ht h = Some (ht', h) \<and> table_inv view hc ht' \<and> viewed ht' h K view hc \<and>
    mset (table_entries ht') = mset (table_entries ht) + mset (filter (\<lambda>e. entry_key e \<noteq> 0) es)"
  using assms
proof (induction es arbitrary: ht)
  case (Cons e es)
  show ?case
  proof (cases "entry_key e = 0")
    case True
    then show ?thesis using Cons.IH [of ht] Cons.prems by simp
  next
    case False
    have new: "\<forall>d \<in> set (table_entries ht). view (entry_key d) \<noteq> view (entry_key e)" using Cons.prems(5) False unfolding filter.simps map_append list.map distinct_append by (simp add: disjoint_iff)
    have k: "entry_key e \<in> K" using Cons.prems(4) False by simp
    obtain j where j: "cql_hashtab_add_with rh ht (entry_key e) (entry_val e) h = Some (True, table_put ht j (entry_key e) (entry_val e), h)"
      "table_inv view hc (table_put ht j (entry_key e) (entry_val e))" "viewed (table_put ht j (entry_key e) (entry_val e)) h K view hc"
      "ht_capacity (table_put ht j (entry_key e) (entry_val e)) = ht_capacity ht"
      "mset (table_entries (table_put ht j (entry_key e) (entry_val e))) = add_mset e (mset (table_entries ht))"
      using table_add_low [OF Cons.prems(1-3) k False new, of rh "entry_val e"] Cons.prems(6) False by auto
    let ?ht = "table_put ht j (entry_key e) (entry_val e)"
    have s: "set (table_entries ?ht) = insert e (set (table_entries ht))" using arg_cong [OF j(5), of set_mset] by simp
    have cnt: "unat (ht_count ?ht) = unat (ht_count ht) + 1"
      using table_invD(4) [OF j(2)] table_invD(4) [OF Cons.prems(1)] arg_cong [OF j(5), of size] by simp
    have dist: "distinct (map (view \<circ> entry_key) (table_entries ?ht @ filter (\<lambda>e. entry_key e \<noteq> 0) es))"
    proof -
      have "mset (map (view \<circ> entry_key) (table_entries ?ht @ filter (\<lambda>e. entry_key e \<noteq> 0) es)) =
        mset (map (view \<circ> entry_key) (table_entries ht @ filter (\<lambda>e. entry_key e \<noteq> 0) (e # es)))"
        using j(5) False by simp
      then show ?thesis using Cons.prems(5) mset_eq_imp_distinct_iff by blast
    qed
    obtain ht' where "hashtab_readd rh es ?ht h = Some (ht', h)" "table_inv view hc ht'" "viewed ht' h K view hc"
      "mset (table_entries ht') = mset (table_entries ?ht) + mset (filter (\<lambda>e. entry_key e \<noteq> 0) es)"
      using Cons.IH [OF j(2,3) _ _ dist] Cons.prems(3,4,6) s k cnt j(4) False by auto
    moreover have "release_key ?ht = cql_no_op_retain_release" "release_val ?ht = cql_no_op_retain_release"
      using j(3) by (simp_all add: viewed_def)
    ultimately show ?thesis using j(1,5) False by (simp add: cql_no_op_retain_release_def)
  qed
qed simp

lemma entries_distinct_views:
  assumes "table_inv view hc ht"
  shows "distinct (map (view \<circ> entry_key) (table_entries ht))"
proof -
  have "distinct (map (view \<circ> entry_key) (filter (\<lambda>e. entry_key e \<noteq> 0) es))"
    if "\<And>i j. i < length es \<Longrightarrow> j < length es \<Longrightarrow> entry_key (es ! i) \<noteq> 0 \<Longrightarrow> entry_key (es ! j) \<noteq> 0 \<Longrightarrow>
      view (entry_key (es ! i)) = view (entry_key (es ! j)) \<Longrightarrow> i = j" for es
    using that
  proof (induction es)
    case (Cons e es)
    have "distinct (map (view \<circ> entry_key) (filter (\<lambda>e. entry_key e \<noteq> 0) es))"
    proof (rule Cons.IH)
      fix i j assume a: "i < length es" "j < length es" "entry_key (es ! i) \<noteq> 0" "entry_key (es ! j) \<noteq> 0"
        "view (entry_key (es ! i)) = view (entry_key (es ! j))"
      have "Suc i = Suc j" by (rule Cons.prems) (simp_all only: nth_Cons_Suc length_Cons Suc_less_eq a not_False_eq_True)
      then show "i = j" by simp
    qed
    moreover have "view (entry_key d) \<noteq> view (entry_key e)" if d: "d \<in> set es" "entry_key d \<noteq> 0" "entry_key e \<noteq> 0" for d
    proof
      assume eq: "view (entry_key d) = view (entry_key e)"
      obtain i where i: "i < length es" "es ! i = d" using d(1) unfolding in_set_conv_nth by blast
      have "Suc i = 0" by (rule Cons.prems) (simp_all add: i d eq)
      then show False by simp
    qed
    ultimately show ?case by (cases "entry_key e = 0") (auto simp: comp_def dest!: sym [of "view (entry_key e)"])
  qed simp
  moreover have "i = j" if "i < length (ht_payload ht)" "j < length (ht_payload ht)" "entry_key (ht_payload ht ! i) \<noteq> 0"
    "entry_key (ht_payload ht ! j) \<noteq> 0" "view (entry_key (ht_payload ht ! i)) = view (entry_key (ht_payload ht ! j))" for i j
    using viewed_keys.keys_distinct [OF table_invD(3) [OF assms], of i "view (entry_key (ht_payload ht ! i))" j "view (entry_key (ht_payload ht ! j))"] that
    by (simp add: slot_views_nth slot_view_def)
  ultimately show ?thesis unfolding table_entries_def by blast
qed

lemma table_rehash:
  assumes "length (ht_payload ht) = unat (ht_capacity ht)" and "4 \<le> unat (ht_capacity ht)" and "unat (ht_capacity ht) < 2 ^ 31"
    and "viewed ht h K view hc" and "entry_key ` set (table_entries ht) \<subseteq> K" and "distinct (map (view \<circ> entry_key) (table_entries ht))"
    and "4 * length (table_entries ht) \<le> 6 * unat (ht_capacity ht)"
  shows "\<exists>ht'. cql_hashtab_rehash (Suc d) ht h = Some (ht', h) \<and> table_inv view hc ht' \<and> viewed ht' h K view hc \<and>
    mset (table_entries ht') = mset (table_entries ht)"
proof -
  let ?ht = "cql_hashtab_set_payload (ht\<lparr>ht_count := 0, ht_capacity := ht_capacity ht * 2\<rparr>)"
  have cap: "unat (ht_capacity ht * 2) = 2 * unat (ht_capacity ht)" using assms(3) by (simp add: unat_word_ariths)
  have none: "table_entries ?ht = []" by (simp add: table_entries_def cql_hashtab_set_payload_def)
  have views: "slot_views view ?ht = replicate (unat (ht_capacity ht * 2)) None"
    by (simp add: slot_views_def cql_hashtab_set_payload_def slot_view_def)
  have "0 < unat (ht_capacity ht * 2)" using cap assms(2) by simp
  from viewed_keys.keys_inv_empty [OF this, of hc] have inv: "table_inv view hc ?ht"
    using cap assms(2) none unfolding table_inv_def views by (simp add: cql_hashtab_set_payload_def)
  have v: "viewed ?ht h K view hc" using assms(4) by (simp add: viewed_def cql_hashtab_set_payload_def)
  have "unat (ht_count ?ht) = 0" "unat (ht_capacity ?ht) = 2 * unat (ht_capacity ht)" using cap by (simp_all add: cql_hashtab_set_payload_def)
  then obtain ht' where "hashtab_readd (cql_hashtab_rehash d) (ht_payload ht) ?ht h = Some (ht', h)" "table_inv view hc ht'" "viewed ht' h K view hc"
    "mset (table_entries ht') = mset (table_entries ?ht) + mset (table_entries ht)"
    using table_readd [OF inv v, of "ht_payload ht" "cql_hashtab_rehash d", folded table_entries_def] assms(5-7)
    unfolding none by auto
  then show ?thesis using none by simp
qed

lemma table_add:
  assumes "table_inv view hc ht" and "viewed ht h K view hc" and "entry_key ` set (table_entries ht) \<subseteq> K" and "k \<in> K" and "k \<noteq> 0"
    and "\<forall>e \<in> set (table_entries ht). view (entry_key e) \<noteq> view k" and "unat (ht_count ht) < 2 ^ 29"
  shows "\<exists>ht'. cql_hashtab_add ht k v h = Some (True, ht', h) \<and> table_inv view hc ht' \<and> viewed ht' h K view hc \<and>
    mset (table_entries ht') = add_mset \<lparr>entry_key = k, entry_val = v\<rparr> (mset (table_entries ht))"
proof (cases "4 * (unat (ht_count ht) + 1) \<le> 3 * unat (ht_capacity ht)")
  case True
  then show ?thesis using table_add_low [OF assms(1-6), of "cql_hashtab_rehash 1" v] unfolding cql_hashtab_add_def by blast
next
  case False
  from assms(1-4) show ?thesis
  proof (cases rule: table_find)
    case (found i)
    then show ?thesis using assms(6) by blast
  next
    case (absent j)
    let ?ht = "table_put ht j k v"
    note d = table_invD [OF assms(1)]
    note ent = put_entries [OF absent(1,2) assms(5), of v]
    have s: "set (table_entries ?ht) = insert \<lparr>entry_key = k, entry_val = v\<rparr> (set (table_entries ht))" using arg_cong [OF ent, of set_mset] by simp
    have cnt: "unat (ht_count ht + 1) = unat (ht_count ht) + 1" using assms(7) by (simp add: unat_word_ariths)
    have over: "over_hashtab_load (ht_count ht + 1) (ht_capacity ht)" using False cnt by (simp add: over_hashtab_load_def)
    have l: "length (table_entries ?ht) = unat (ht_count ht) + 1" using arg_cong [OF ent, of size] d(4) by simp
    have small: "unat (ht_capacity ht) < 2 ^ 31" using False assms(7) by simp
    have "mset (map (view \<circ> entry_key) (table_entries ?ht)) = mset (view k # map (view \<circ> entry_key) (table_entries ht))"
      using ent by simp
    moreover have "distinct (view k # map (view \<circ> entry_key) (table_entries ht))"
      using entries_distinct_views [OF assms(1)] assms(6) by auto
    ultimately have dist: "distinct (map (view \<circ> entry_key) (table_entries ?ht))" using mset_eq_imp_distinct_iff by blast
    have v: "viewed ?ht h K view hc" using assms(2) by (simp add: viewed_def table_put_def)
    obtain ht' where r: "cql_hashtab_rehash (Suc 0) ?ht h = Some (ht', h)" "table_inv view hc ht'" "viewed ht' h K view hc"
      "mset (table_entries ht') = mset (table_entries ?ht)"
      using table_rehash [OF _ _ _ v _ dist, of 0] d small s assms(3,4) l by (auto simp: table_put_def)
    have "cql_hashtab_add ht k v h = Some (True, ht', h)"
      using absent(2,3) over assms(2) r(1)
      by (simp add: cql_hashtab_add_def cql_hashtab_add_with_def viewed_def cql_no_op_retain_release_def table_put_def Let_def del: cql_hashtab_rehash.simps)
    then show ?thesis using r ent by simp
  qed
qed

section \<open>Changing the memory and the values\<close>

lemma table_inv_cong:
  assumes "table_inv view hc ht" and "\<forall>e \<in> set (table_entries ht). view' (entry_key e) = view (entry_key e)"
  shows "table_inv view' hc ht"
proof -
  have "slot_view view' e = slot_view view e" if "e \<in> set (ht_payload ht)" for e
    using assms(2) that by (simp add: slot_view_def table_entries_def)
  then have "slot_views view' ht = slot_views view ht" by (simp add: slot_views_def)
  then show ?thesis using assms(1) by (simp add: table_inv_def)
qed

lemma set_val_entries:
  assumes "i < length (ht_payload ht)" and "entry_key (ht_payload ht ! i) \<noteq> 0" and "e = ht_payload ht ! i"
  shows "add_mset e (mset (table_entries (set_entry_val ht i v))) = add_mset (e\<lparr>entry_val := v\<rparr>) (mset (table_entries ht))"
proof -
  have "add_mset (es ! i) (mset (filter (\<lambda>e. entry_key e \<noteq> 0) (es[i := (es ! i)\<lparr>entry_val := v\<rparr>]))) =
      add_mset ((es ! i)\<lparr>entry_val := v\<rparr>) (mset (filter (\<lambda>e. entry_key e \<noteq> 0) es))"
    if "i < length es" "entry_key (es ! i) \<noteq> 0" for es i
    using that
  proof (induction es arbitrary: i)
    case (Cons d es)
    show ?case
    proof (cases i)
      case (Suc j)
      then show ?thesis using Cons.IH [of j] Cons.prems by (auto simp: add_mset_commute)
    qed (use Cons.prems in \<open>simp add: add_mset_commute\<close>)
  qed simp
  then show ?thesis using assms by (simp add: table_entries_def set_entry_val_def)
qed

lemma set_val_inv:
  assumes "table_inv view hc ht" and "i < length (ht_payload ht)" and "entry_key (ht_payload ht ! i) \<noteq> 0"
  shows "table_inv view hc (set_entry_val ht i v)"
proof -
  let ?ht = "set_entry_val ht i v"
  have "slot_views view ?ht = slot_views view ht"
    by (rule nth_equalityI) (use assms(2) in \<open>auto simp: slot_views_def set_entry_val_def slot_view_def nth_list_update\<close>)
  moreover have "length (table_entries ?ht) = length (table_entries ht)"
    using arg_cong [OF set_val_entries [OF assms(2,3) refl, of v], of size] by simp
  moreover have "ht_count ?ht = ht_count ht" "ht_capacity ?ht = ht_capacity ht" "length (ht_payload ?ht) = length (ht_payload ht)"
    by (simp_all add: set_entry_val_def)
  moreover have "\<forall>e \<in> set (ht_payload ?ht). entry_key e = 0 \<longrightarrow> entry_val e = 0"
    using table_invD(6) [OF assms(1)] assms(3) set_update_subset_insert [of "ht_payload ht" i "(ht_payload ht ! i)\<lparr>entry_val := v\<rparr>"]
    by (auto simp: set_entry_val_def)
  ultimately show ?thesis using assms(1) by (simp add: table_inv_def)
qed

lemma new_table_inv:
  "table_inv view hc (cql_hashtab_new hk ck rk rv lk lv)" "table_entries (cql_hashtab_new hk ck rk rv lk lv) = []"
proof -
  let ?ht = "cql_hashtab_new hk ck rk rv lk lv"
  have views: "slot_views view ?ht = replicate 4 None"
    by (simp add: slot_views_def cql_hashtab_new_def cql_hashtab_set_payload_def slot_view_def HASHTAB_INIT_SIZE_def)
  show e: "table_entries ?ht = []" by (simp add: table_entries_def cql_hashtab_new_def cql_hashtab_set_payload_def)
  have "0 < (4 :: nat)" by simp
  from viewed_keys.keys_inv_empty [OF this, of hc] show "table_inv view hc ?ht"
    unfolding table_inv_def views e by (simp add: cql_hashtab_new_def cql_hashtab_set_payload_def HASHTAB_INIT_SIZE_def)
qed

text \<open>The loop of \<open>cql_hashtab_delete\<close>, when only the values of entries are not null.\<close>

fun release_entries :: "'h cql_hashtab \<Rightarrow> cql_hashtab_entry list \<Rightarrow> 'h \<Rightarrow> 'h option" where
  "release_entries ht [] h = Some h"
| "release_entries ht (e # es) h =
     do { h \<leftarrow> release_key ht (entry_key e) h; h \<leftarrow> release_val ht (entry_val e) h; release_entries ht es h }"

lemma delete_entries:
  assumes "\<forall>e \<in> set (ht_payload ht). entry_key e = 0 \<longleftrightarrow> entry_val e = 0"
  shows "cql_hashtab_delete ht h = release_entries ht (table_entries ht) h"
proof -
  have "hashtab_release_loop ht es h = release_entries ht (filter (\<lambda>e. entry_key e \<noteq> 0) es) h"
    if "\<forall>e \<in> set es. entry_key e = 0 \<longleftrightarrow> entry_val e = 0" for es
    using that by (induction es arbitrary: h) (auto cong: Option.bind_cong)
  then show ?thesis using assms by (simp add: cql_hashtab_delete_def table_entries_def)
qed

section \<open>The functions of a table\<close>

definition same_functions :: "'h cql_hashtab \<Rightarrow> 'h cql_hashtab \<Rightarrow> bool" where
  "same_functions ht ht' \<longleftrightarrow> hash_key ht' = hash_key ht \<and> compare_keys ht' = compare_keys ht \<and>
     retain_key ht' = retain_key ht \<and> retain_val ht' = retain_val ht \<and> release_key ht' = release_key ht \<and> release_val ht' = release_val ht"

lemma same_functions_trans: "same_functions a b \<Longrightarrow> same_functions b c \<Longrightarrow> same_functions a c"
  by (simp add: same_functions_def)

lemma add_with_functions:
  assumes "\<And>t h t' h'. rehash t h = Some (t', h') \<Longrightarrow> same_functions t t'" and "cql_hashtab_add_with rehash ht k v h = Some (b, ht', h')"
  shows "same_functions ht ht'"
proof -
  have "same_functions ht t' \<Longrightarrow> same_functions t' u \<Longrightarrow> same_functions ht u" for t' u by (rule same_functions_trans)
  moreover have "same_functions ht (ht\<lparr>ht_payload := p, ht_count := c\<rparr>)" for p c by (simp add: same_functions_def)
  ultimately show ?thesis using assms(2)
    by (auto simp: cql_hashtab_add_with_def bind_eq_Some_conv Let_def same_functions_def split: if_splits dest!: assms(1))
qed

lemma readd_functions:
  assumes "\<And>t h t' h'. rehash t h = Some (t', h') \<Longrightarrow> same_functions t t'"
  shows "hashtab_readd rehash es ht h = Some (ht', h') \<Longrightarrow> same_functions ht ht'"
proof (induction es arbitrary: ht h)
  case (Cons e es)
  show ?case
  proof (cases "entry_key e = 0")
    case False
    then obtain b t h1 h2 where t: "cql_hashtab_add_with rehash ht (entry_key e) (entry_val e) h = Some (b, t, h1)" "hashtab_readd rehash es t h2 = Some (ht', h')"
      using Cons.prems by (auto simp: bind_eq_Some_conv)
    have "same_functions ht t" by (rule add_with_functions [OF _ t(1)]) (rule assms)
    then show ?thesis using Cons.IH [OF t(2)] same_functions_trans by blast
  qed (use Cons in simp)
qed (simp add: same_functions_def)

lemma rehash_functions: "cql_hashtab_rehash d ht h = Some (ht', h') \<Longrightarrow> same_functions ht ht'"
proof (induction d arbitrary: ht h ht' h')
  case (Suc d)
  let ?t = "cql_hashtab_set_payload (ht\<lparr>ht_count := 0, ht_capacity := ht_capacity ht * 2\<rparr>)"
  have "same_functions ?t ht'" using readd_functions [OF Suc.IH] Suc.prems by simp
  then show ?case by (simp add: same_functions_def cql_hashtab_set_payload_def)
qed simp

lemma add_functions: "cql_hashtab_add ht k v h = Some (b, ht', h') \<Longrightarrow> same_functions ht ht'"
  unfolding cql_hashtab_add_def by (rule add_with_functions [OF rehash_functions])

end
