(* ===== verification/Partition_Correct.thy ===== *)
theory Partition_Correct
  imports Partition Rows_Props Hashtab_Views
begin

text \<open>
  Partitions keep what they are given: the groups in the hash table are the groups of the rows added, and
  the references of keys, buffers and result sets are counted exactly.
\<close>

section \<open>Counted result sets\<close>

definition set_at :: "part_mem \<Rightarrow> i64 \<Rightarrow> cql_result_set" where
  "set_at mem a = snd (the (pm_sets mem a))"

definition set_refs :: "part_mem \<Rightarrow> i64 multiset \<Rightarrow> i64 multiset" where
  "set_refs mem T = (\<Sum>a \<in> set_mset T. live_refs (rs_refs (set_at mem a)))"

text \<open>
  \<open>mem_ok mem R T m\<close>: the result sets are counted by the references \<open>T\<close> to them, and the strings and blobs by
  the references \<open>R\<close> and those in the result sets; \<open>m\<close> further references are outstanding.
\<close>

definition mem_ok :: "part_mem \<Rightarrow> i64 multiset \<Rightarrow> i64 multiset \<Rightarrow> nat \<Rightarrow> bool" where
  "mem_ok mem R T m \<longleftrightarrow> owned (pm_refs mem) (R + set_refs mem T) (m + size T) \<and> 0 \<notin># T \<and> dom (pm_sets mem) = set_mset T \<and>
     (\<forall>a n rs. pm_sets mem a = Some (n, rs) \<longrightarrow> n = of_nat (Multiset.count T a) \<and> (\<exists>h ks. rows_ok h ks rs))"

definition same_data :: "i64 multiset \<Rightarrow> part_mem \<Rightarrow> part_mem \<Rightarrow> bool" where
  "same_data R mem mem' \<longleftrightarrow> (\<forall>a \<in># R. data_at (pm_refs mem') a = data_at (pm_refs mem) a)"

lemma mem_okD:
  assumes "mem_ok mem R T m"
  shows "owned (pm_refs mem) (R + set_refs mem T) (m + size T)" "0 \<notin># T" "dom (pm_sets mem) = set_mset T"
    "pm_sets mem a = Some (n, rs) \<Longrightarrow> n = of_nat (Multiset.count T a)" "pm_sets mem a = Some (n, rs) \<Longrightarrow> \<exists>h ks. rows_ok h ks rs"
  using assms unfolding mem_ok_def by blast+

lemma mem_okI:
  assumes "owned (pm_refs mem) (R + set_refs mem T) (m + size T)" and "0 \<notin># T" and "dom (pm_sets mem) = set_mset T"
    and "\<And>a n rs. pm_sets mem a = Some (n, rs) \<Longrightarrow> n = of_nat (Multiset.count T a) \<and> (\<exists>h ks. rows_ok h ks rs)"
  shows "mem_ok mem R T m"
  unfolding mem_ok_def using assms by blast

lemma mem_ok_set:
  assumes "mem_ok mem R T m" and "a \<in># T"
  shows "pm_sets mem a = Some (of_nat (Multiset.count T a), set_at mem a)" and "\<exists>h ks. rows_ok h ks (set_at mem a)"
proof -
  obtain n rs where n: "pm_sets mem a = Some (n, rs)" using mem_okD(3) [OF assms(1)] assms(2) by fastforce
  then show "pm_sets mem a = Some (of_nat (Multiset.count T a), set_at mem a)" "\<exists>h ks. rows_ok h ks (set_at mem a)"
    using mem_okD(4,5) [OF assms(1) n] by (simp_all add: set_at_def)
qed

lemma owned_plus:
  "owned h R m \<Longrightarrow> size R + m + 1 < 2 ^ 31 \<Longrightarrow> owned (h\<lparr>cql_outstanding_refs := cql_outstanding_refs h + 1\<rparr>) R (m + 1)"
  by (simp add: owned_def)

lemma owned_minus:
  assumes "owned h R (Suc m)"
  shows "owned (h\<lparr>cql_outstanding_refs := cql_outstanding_refs h - 1\<rparr>) R m" and "0 \<le> sint (cql_outstanding_refs h - 1)"
proof -
  have "cql_outstanding_refs h - 1 = of_nat (size R + m)" and small: "size R + m < 2 ^ 31" using assms by (simp_all add: owned_def)
  then show "0 \<le> sint (cql_outstanding_refs h - 1)" using sint_size [OF small] by (simp only:)
  show "owned (h\<lparr>cql_outstanding_refs := cql_outstanding_refs h - 1\<rparr>) R m" using assms by (simp add: owned_def)
qed

lemma set_refs_cong: "(\<And>a. a \<in># T \<Longrightarrow> set_at mem' a = set_at mem a) \<Longrightarrow> set_refs mem' T = set_refs mem T"
  unfolding set_refs_def by (rule sum.cong) simp_all

lemma set_refs_same [simp]: "set_refs (mem\<lparr>pm_refs := x\<rparr>) T = set_refs mem T" "set_refs (mem\<lparr>pm_blocks := y\<rparr>) T = set_refs mem T"
  "set_refs (mem\<lparr>pm_bufs := z\<rparr>) T = set_refs mem T" "set_at (mem\<lparr>pm_refs := x\<rparr>) a = set_at mem a"
  by (simp_all add: set_refs_def set_at_def)

lemma object_retain_ok:
  assumes "mem_ok mem R T m" and "a \<in># T" and "size (R + set_refs mem T) + m + size T + 1 < 2 ^ 31"
  shows "\<exists>h s. cql_object_retain a mem = Some (mem\<lparr>pm_sets := s, pm_refs := h\<rparr>) \<and> mem_ok (mem\<lparr>pm_sets := s, pm_refs := h\<rparr>) R (add_mset a T) m \<and>
    (\<forall>b. data_at h b = data_at (pm_refs mem) b) \<and> (\<forall>b. set_at (mem\<lparr>pm_sets := s, pm_refs := h\<rparr>) b = set_at mem b)"
proof -
  note at = mem_ok_set [OF assms(1,2)]
  have a: "a \<noteq> 0" using mem_okD(2) [OF assms(1)] assms(2) by blast
  let ?h = "pm_refs mem\<lparr>cql_outstanding_refs := cql_outstanding_refs (pm_refs mem) + 1\<rparr>"
  let ?s = "(pm_sets mem)(a \<mapsto> (of_nat (Multiset.count T a) + 1, set_at mem a))"
  let ?mem = "mem\<lparr>pm_sets := ?s, pm_refs := ?h\<rparr>"
  have same: "set_at ?mem b = set_at mem b" for b by (simp add: set_at_def)
  have refs: "set_refs ?mem (add_mset a T) = set_refs mem T"
    unfolding set_refs_def same using assms(2) by (simp add: insert_absorb)
  have "mem_ok ?mem R (add_mset a T) m"
  proof (rule mem_okI)
    have "owned ?h (R + set_refs mem T) (m + size T + 1)" using owned_plus [OF mem_okD(1) [OF assms(1)]] assms(3) by (simp add: add.assoc)
    then show "owned (pm_refs ?mem) (R + set_refs ?mem (add_mset a T)) (m + size (add_mset a T))" unfolding refs by simp
    show "0 \<notin># add_mset a T" using a mem_okD(2) [OF assms(1)] by simp
    show "dom (pm_sets ?mem) = set_mset (add_mset a T)" using mem_okD(3) [OF assms(1)] by simp
    fix b n rs assume "pm_sets ?mem b = Some (n, rs)"
    then show "n = of_nat (Multiset.count (add_mset a T) b) \<and> (\<exists>h ks. rows_ok h ks rs)"
      using at(2) mem_okD(4,5) [OF assms(1), of b n rs] by (cases "b = a") auto
  qed
  moreover have "cql_object_retain a mem = Some ?mem" using a at(1) by (simp add: cql_object_retain_def Let_def)
  moreover have "data_at ?h b = data_at (pm_refs mem) b" for b by (simp add: data_at_def)
  ultimately show ?thesis using same by blast
qed

lemma set_refs_remove:
  "a \<notin># T \<Longrightarrow> set_refs mem (add_mset a T) = live_refs (rs_refs (set_at mem a)) + set_refs mem T"
  by (simp add: set_refs_def)

lemma object_release_ok:
  assumes "mem_ok mem R (add_mset a T) m"
  shows "\<exists>h s. cql_object_release a mem = Some (mem\<lparr>pm_sets := s, pm_refs := h\<rparr>) \<and> mem_ok (mem\<lparr>pm_sets := s, pm_refs := h\<rparr>) R T m \<and>
    same_data (R + set_refs mem T) mem (mem\<lparr>pm_sets := s, pm_refs := h\<rparr>) \<and> (\<forall>b \<in># T. set_at (mem\<lparr>pm_sets := s, pm_refs := h\<rparr>) b = set_at mem b)"
proof -
  let ?n = "Multiset.count T a"
  have ain: "a \<in># add_mset a T" by simp
  note at = mem_ok_set [OF assms ain]
  have a: "a \<noteq> 0" using mem_okD(2) [OF assms] by auto
  have own: "owned (pm_refs mem) (R + set_refs mem (add_mset a T)) (Suc (m + size T))" using mem_okD(1) [OF assms] by simp
  have small: "?n < 2 ^ 31" using own count_le_size [of T a] by (simp add: owned_def)
  have n: "of_nat (Multiset.count (add_mset a T) a) - 1 = (of_nat ?n :: i32)" by simp
  have zero: "(of_nat ?n :: i32) = 0 \<longleftrightarrow> a \<notin># T" using count_small_zero [OF small] by (simp add: not_in_iff)
  obtain h1 where h1: "(if (of_nat ?n :: i32) = 0 then cql_result_set_teardown (set_at mem a) (pm_refs mem) else Some (pm_refs mem)) = Some h1"
    "owned h1 (R + set_refs mem T) (Suc (m + size T))" "\<forall>b \<in># R + set_refs mem T. data_at h1 b = data_at (pm_refs mem) b"
  proof (cases "a \<in># T")
    case True
    then have "set_refs mem (add_mset a T) = set_refs mem T" by (simp add: set_refs_def insert_absorb)
    then show thesis using that own zero True by auto
  next
    case False
    obtain h0 ks where "rows_ok h0 ks (set_at mem a)" using at(2) by blast
    moreover have "owned (pm_refs mem) (R + set_refs mem T + live_refs (rs_refs (set_at mem a))) (Suc (m + size T))"
      using own set_refs_remove [OF False] by (simp add: ac_simps)
    ultimately show thesis using teardown_ok that zero False by metis
  qed
  let ?h = "h1\<lparr>cql_outstanding_refs := cql_outstanding_refs h1 - 1\<rparr>"
  let ?s = "(pm_sets mem)(a := if (of_nat ?n :: i32) = 0 then None else Some (of_nat ?n, set_at mem a))"
  let ?mem = "mem\<lparr>pm_sets := ?s, pm_refs := ?h\<rparr>"
  have same: "set_at ?mem b = set_at mem b" if "b \<in># T" for b using that zero by (auto simp: set_at_def)
  have refs: "set_refs ?mem T = set_refs mem T" by (rule set_refs_cong [OF same])
  have "mem_ok ?mem R T m"
  proof (rule mem_okI)
    show "owned (pm_refs ?mem) (R + set_refs ?mem T) (m + size T)" unfolding refs using owned_minus(1) [OF h1(2)] by simp
    show "0 \<notin># T" using mem_okD(2) [OF assms] by simp
    show "dom (pm_sets ?mem) = set_mset T"
    proof (cases "a \<in># T")
      case True
      then show ?thesis using mem_okD(3) [OF assms] zero by (simp add: insert_absorb)
    next
      case False
      then show ?thesis using mem_okD(3) [OF assms] zero by simp
    qed
    fix b k rs assume "pm_sets ?mem b = Some (k, rs)"
    then show "k = of_nat (Multiset.count T b) \<and> (\<exists>h ks. rows_ok h ks rs)"
      using at(2) mem_okD(4,5) [OF assms, of b k rs] by (cases "b = a") (auto split: if_splits)
  qed
  moreover have "cql_object_release a mem = Some ?mem"
    using a at(1) h1(1) n owned_minus(2) [OF h1(2)] by (simp add: cql_object_release_def Let_def bind_require)
  moreover have "same_data (R + set_refs mem T) mem ?mem" using h1(3) by (simp add: same_data_def data_at_def)
  ultimately show ?thesis using same by blast
qed

lemma new_set_ok:
  assumes "mem_ok mem (R + live_refs (rs_refs rs)) T m" and "a \<notin># T" and "a \<noteq> 0" and "rows_ok h0 ks rs"
    and "rs = \<lparr>rs_meta = meta, rs_count = cnt, rs_data = bytes\<rparr>"
    and "size (R + live_refs (rs_refs rs) + set_refs mem T) + m + size T + 1 < 2 ^ 31"
  shows "\<exists>h. new_result_set a bytes cnt meta mem = mem\<lparr>pm_sets := (pm_sets mem)(a \<mapsto> (1, rs)), pm_refs := h\<rparr> \<and>
    mem_ok (mem\<lparr>pm_sets := (pm_sets mem)(a \<mapsto> (1, rs)), pm_refs := h\<rparr>) R (add_mset a T) m \<and>
    (\<forall>b. data_at h b = data_at (pm_refs mem) b) \<and> (\<forall>b \<in># T. set_at (mem\<lparr>pm_sets := (pm_sets mem)(a \<mapsto> (1, rs)), pm_refs := h\<rparr>) b = set_at mem b)"
proof -
  let ?h = "pm_refs mem\<lparr>cql_outstanding_refs := cql_outstanding_refs (pm_refs mem) + 1\<rparr>"
  let ?mem = "mem\<lparr>pm_sets := (pm_sets mem)(a \<mapsto> (1, rs)), pm_refs := ?h\<rparr>"
  have same: "set_at ?mem b = set_at mem b" if "b \<in># T" for b using that assms(2) by (auto simp: set_at_def)
  have refs: "set_refs ?mem (add_mset a T) = live_refs (rs_refs rs) + set_refs mem T"
    unfolding set_refs_remove [OF assms(2)] using set_refs_cong [OF same] by (simp add: set_at_def)
  have "owned ?h (R + live_refs (rs_refs rs) + set_refs mem T) (m + size T + 1)"
    using owned_plus [OF mem_okD(1) [OF assms(1)]] assms(6) by (simp add: add.assoc)
  then have own: "owned ?h (R + set_refs ?mem (add_mset a T)) (m + size (add_mset a T))" unfolding refs by (simp add: add.assoc)
  have "mem_ok ?mem R (add_mset a T) m"
  proof (rule mem_okI)
    show "owned (pm_refs ?mem) (R + set_refs ?mem (add_mset a T)) (m + size (add_mset a T))" using own by simp
    show "0 \<notin># add_mset a T" using assms(3) mem_okD(2) [OF assms(1)] by simp
    show "dom (pm_sets ?mem) = set_mset (add_mset a T)" using mem_okD(3) [OF assms(1)] by simp
    fix b n rs' assume "pm_sets ?mem b = Some (n, rs')"
    then show "n = of_nat (Multiset.count (add_mset a T) b) \<and> (\<exists>h ks. rows_ok h ks rs')"
      using assms(2,4) mem_okD(4,5) [OF assms(1), of b n rs'] by (cases "b = a") (auto simp: not_in_iff)
  qed
  moreover have "new_result_set a bytes cnt meta mem = ?mem" by (simp add: new_result_set_def cql_result_set_create_def assms(5))
  moreover have "data_at ?h b = data_at (pm_refs mem) b" for b by (simp add: data_at_def)
  ultimately show ?thesis using same by blast
qed

lemma mem_ok_same [simp]:
  "mem_ok (mem\<lparr>pm_blocks := x\<rparr>) R T m = mem_ok mem R T m" "mem_ok (mem\<lparr>pm_bufs := y\<rparr>) R T m = mem_ok mem R T m"
  "mem_ok (mem\<lparr>c_key := k, c_key2 := k2, c_val := v\<rparr>) R T m = mem_ok mem R T m"
  "set_at (mem\<lparr>pm_blocks := x\<rparr>) a = set_at mem a" "set_at (mem\<lparr>pm_bufs := y\<rparr>) a = set_at mem a"
  "set_at (mem\<lparr>c_key := k, c_key2 := k2, c_val := v\<rparr>) a = set_at mem a"
  by (simp_all add: mem_ok_def set_refs_def set_at_def)

lemma mem_ok_null: "mem_ok mem R T m \<Longrightarrow> objs (pm_refs mem) 0 = None"
  using mem_okD(1) owned_null by blast

lemma mem_retain:
  assumes "mem_ok mem R T m" and "set_mset (live_refs as) \<subseteq> set_mset R" and "size (R + set_refs mem T) + m + size T + length as < 2 ^ 31"
  shows "\<exists>h. retain_all as (pm_refs mem) = Some h \<and> mem_ok (mem\<lparr>pm_refs := h\<rparr>) (R + live_refs as) T m \<and> (\<forall>a. data_at h a = data_at (pm_refs mem) a)"
proof -
  have "set_mset (live_refs as) \<subseteq> set_mset (R + set_refs mem T)" using assms(2) by auto
  then obtain h where h: "retain_all as (pm_refs mem) = Some h" "owned h (R + set_refs mem T + live_refs as) (m + size T)"
    "\<forall>b. data_at h b = data_at (pm_refs mem) b"
    using retain_all_owned [OF mem_okD(1) [OF assms(1)], of as] assms(3) by (auto simp: add.assoc)
  have "mem_ok (mem\<lparr>pm_refs := h\<rparr>) (R + live_refs as) T m"
  proof (rule mem_okI)
    show "owned (pm_refs (mem\<lparr>pm_refs := h\<rparr>)) (R + live_refs as + set_refs (mem\<lparr>pm_refs := h\<rparr>) T) (m + size T)"
      using h(2) by (simp add: ac_simps)
  qed (use mem_okD [OF assms(1)] in auto)
  then show ?thesis using h by blast
qed

lemma mem_release:
  assumes "mem_ok mem (R + live_refs as) T m"
  shows "\<exists>h. release_all as (pm_refs mem) = Some h \<and> mem_ok (mem\<lparr>pm_refs := h\<rparr>) R T m \<and> same_data (R + set_refs mem T) mem (mem\<lparr>pm_refs := h\<rparr>)"
proof -
  have "owned (pm_refs mem) (R + set_refs mem T + live_refs as) (m + size T)" using mem_okD(1) [OF assms] by (simp add: ac_simps)
  then obtain h where h: "release_all as (pm_refs mem) = Some h" "owned h (R + set_refs mem T) (m + size T)"
    "\<forall>b. b \<in># R + set_refs mem T \<longrightarrow> data_at h b = data_at (pm_refs mem) b"
    using release_all_owned by blast
  have "mem_ok (mem\<lparr>pm_refs := h\<rparr>) R T m"
  proof (rule mem_okI)
    show "owned (pm_refs (mem\<lparr>pm_refs := h\<rparr>)) (R + set_refs (mem\<lparr>pm_refs := h\<rparr>) T) (m + size T)" using h(2) by simp
  qed (use mem_okD [OF assms] in auto)
  then show ?thesis using h by (auto simp: same_data_def)
qed

section \<open>Keys\<close>

definition key_view :: "cql_row_cursor \<Rightarrow> part_mem \<Rightarrow> i64 \<Rightarrow> row_contents" where
  "key_view K mem a = row_contents (pm_refs mem) (the (pm_blocks mem a)) (cur_size K) (cur_refs_count K) (cur_refs_offset K)"

definition row_good :: "cql_row_cursor \<Rightarrow> bool list \<Rightarrow> part_mem \<Rightarrow> u8 list \<Rightarrow> bool" where
  "row_good K ks mem b \<longleftrightarrow> row_ok (pm_refs mem) ks b (cur_size K) (cur_refs_count K) (cur_refs_offset K)"

definition key_cell :: "cql_row_cursor \<Rightarrow> bool list \<Rightarrow> part_mem \<Rightarrow> i64 \<Rightarrow> bool" where
  "key_cell K ks mem a \<longleftrightarrow> (\<exists>b. pm_blocks mem a = Some b \<and> row_good K ks mem b)"

definition cursor_refs :: "cql_row_cursor \<Rightarrow> u8 list \<Rightarrow> i64 list" where
  "cursor_refs K b = row_refs b (unat (cur_refs_count K)) (cur_refs_offset K)"

definition part_table :: "part_mem cql_hashtab \<Rightarrow> bool" where
  "part_table ht \<longleftrightarrow> hash_key ht = cql_key_cursor_hash \<and> compare_keys ht = cql_key_cursor_eq \<and>
     retain_key ht = cql_no_op_retain_release \<and> retain_val ht = cql_no_op_retain_release \<and>
     release_key ht = cql_no_op_retain_release \<and> release_val ht = cql_no_op_retain_release"

lemma part_viewed:
  assumes "part_table ht" and "c_key mem = K" and "c_key2 mem = K" and "cur_has_row K" and "objs (pm_refs mem) 0 = None"
  shows "viewed ht mem {a. key_cell K ks mem a} (key_view K mem) contents_hash"
  using assms hash_buffer_contents [OF _ assms(5), of ks] buffers_equal_contents [OF _ _ assms(5), of ks]
  by (auto simp: viewed_def part_table_def key_cell_def row_good_def key_view_def cql_key_cursor_hash_def cql_cursor_hash_def
      cql_key_cursor_eq_def cql_cursors_equal_def)

lemma retain_cursor: "row_good K ks mem b \<Longrightarrow>
  cql_retain_offsets b (cur_refs_count K) (cur_refs_offset K) h = retain_all (cursor_refs K b) h"
  using retain_offsets_all [OF row_ok_fit] by (cases "cur_refs_count K = 0") (auto simp: row_good_def cursor_refs_def cql_retain_offsets_def)

lemma row_good_take:
  assumes "row_good K ks mem b" and "k = take (unat (cur_size K)) b"
  shows "slice b 0 (unat (cur_size K)) = Some k" and "row_good K ks mem k" and "cursor_refs K k = cursor_refs K b"
    and "row_contents h k (cur_size K) (cur_refs_count K) (cur_refs_offset K) = row_contents h b (cur_size K) (cur_refs_count K) (cur_refs_offset K)"
    and "length k = unat (cur_size K)"
proof -
  have l: "unat (cur_size K) \<le> length b" using assms(1) by (simp add: row_good_def row_ok_def)
  then show "slice b 0 (unat (cur_size K)) = Some k" "length k = unat (cur_size K)" by (simp_all add: slice_def assms(2))
  have t: "take (unat (cur_size K)) k = take (unat (cur_size K)) b" "unat (cur_size K) \<le> length k" using l by (simp_all add: assms(2))
  note r = row_take [OF assms(1) [unfolded row_good_def] t]
  show "row_good K ks mem k" "cursor_refs K k = cursor_refs K b" using r(1,3) by (simp_all add: row_good_def cursor_refs_def)
  show "row_contents h k (cur_size K) (cur_refs_count K) (cur_refs_offset K) = row_contents h b (cur_size K) (cur_refs_count K) (cur_refs_offset K)"
    using r(2,3) by (simp add: row_contents_def split: if_splits)
qed

text \<open>Retaining moves nothing.\<close>

lemma all_data:
  assumes "\<forall>a. data_at (pm_refs mem') a = data_at (pm_refs mem) a"
  shows "row_good K ks mem' b = row_good K ks mem b"
    and "row_contents (pm_refs mem') b n rc ro = row_contents (pm_refs mem) b n rc ro"
proof -
  have "ref_ok (pm_refs mem') = ref_ok (pm_refs mem)" using ref_ok_data assms by (intro ext) metis
  then show "row_good K ks mem' b = row_good K ks mem b" by (simp add: row_good_def row_ok_def)
  show "row_contents (pm_refs mem') b n rc ro = row_contents (pm_refs mem) b n rc ro" using assms by (simp add: row_contents_def)
qed

section \<open>Blocks of rows\<close>

definition val_meta :: "cql_row_cursor \<Rightarrow> cql_result_set_meta" where
  "val_meta V = \<lparr>refsCount = cur_refs_count V, refsOffset = cur_refs_offset V, columnOffsets = cur_col_offsets V, rowsize = cur_size V,
     columnCount = ucast (cells (cur_col_offsets V) ! 0), identityColumns = None, dataTypes = cur_data_types V\<rparr>"

definition rows_good :: "cql_row_cursor \<Rightarrow> bool list \<Rightarrow> part_mem \<Rightarrow> u8 list list \<Rightarrow> bool" where
  "rows_good V vks mem rows \<longleftrightarrow> (\<forall>r \<in> set rows. length r = unat (cur_size V) \<and> row_good V vks mem r)"

definition group_refs :: "cql_row_cursor \<Rightarrow> u8 list list \<Rightarrow> i64 list" where
  "group_refs V rows = concat (map (cursor_refs V) rows)"

lemma rows_block:
  assumes "rows_good V vks mem rows"
  shows "block_ok (length rows) (pm_refs mem) vks (val_meta V) (concat rows)" and "block_refs (length rows) (val_meta V) (concat rows) = group_refs V rows"
    and "length (concat rows) = length rows * unat (cur_size V)"
proof -
  have "block_ok (length rows) (pm_refs mem) vks (val_meta V) (concat rows) \<and> block_refs (length rows) (val_meta V) (concat rows) = group_refs V rows \<and>
    length (concat rows) = length rows * unat (cur_size V)"
    using assms
  proof (induction rows)
    case (Cons r rows)
    have r: "length r = unat (cur_size V)" "row_ok (pm_refs mem) vks r (cur_size V) (cur_refs_count V) (cur_refs_offset V)"
      using Cons.prems by (simp_all add: rows_good_def row_good_def)
    have t: "take (unat (cur_size V)) (r @ concat rows) = take (unat (cur_size V)) r" "unat (cur_size V) \<le> length (r @ concat rows)"
      using r(1) by simp_all
    have "rows_good V vks mem rows" using Cons.prems by (simp add: rows_good_def)
    then show ?case using Cons.IH r row_take [OF r(2) t] by (simp add: val_meta_def group_refs_def cursor_refs_def)
  qed (simp add: group_refs_def)
  then show "block_ok (length rows) (pm_refs mem) vks (val_meta V) (concat rows)" "block_refs (length rows) (val_meta V) (concat rows) = group_refs V rows"
    "length (concat rows) = length rows * unat (cur_size V)" by simp_all
qed

lemma rows_in_count:
  assumes "cql_bytebuf_inv buf" and "cql_bytebuf_contents buf = concat rows" and "length (concat rows) = length rows * unat w" and "w \<noteq> 0"
  shows "unat (rows_in buf w) = length rows" and "unat (ucast (rows_in buf w) :: u32) = length rows"
proof -
  have w: "0 < unat w" using assms(4) by (simp add: unat_gt_0)
  have used: "unat (cb_used buf) = length rows * unat w"
    using assms(1-3) unfolding cql_bytebuf_inv_def by auto
  have "unat (ucast (cb_used buf) :: u64) = unat (cb_used buf)" using unat_u32_bound [of "cb_used buf"] by (simp add: unsigned_ucast_eq take_bit_nat_eq_self)
  then show n: "unat (rows_in buf w) = length rows" using used w by (simp add: rows_in_def unat_div_distrib)
  have "length rows \<le> unat (cb_used buf)" using used w by simp
  then have "length rows < 2 ^ 32" using unat_u32_bound [of "cb_used buf"] by linarith
  moreover have "unat (ucast (rows_in buf w) :: u32) = unat (rows_in buf w) mod 2 ^ 32" by (simp add: unsigned_ucast_eq take_bit_eq_mod)
  ultimately show "unat (ucast (rows_in buf w) :: u32) = length rows" using n by simp
qed

end
