(* ===== verification/Partition_Rep.thy ===== *)
theory Partition_Rep
  imports Partition_Correct
begin

text \<open>
  The representation invariant of a partition and its preservation: what the entries of the hash table hold
  for the rows that were added, and who owns which references.
\<close>

section \<open>The invariant\<close>

text \<open>
  What stays fixed while a partition is used: the kinds of the references in keys and rows, the shapes of both
  cursors, the references and blocks of the caller, and the number of other outstanding references.
\<close>

record part_env =
  pe_kinds :: "bool list"
  pe_val_kinds :: "bool list"
  pe_key :: cql_row_cursor
  pe_val :: cql_row_cursor
  pe_refs :: "i64 multiset"
  pe_others :: nat
  pe_blocks :: "i64 \<rightharpoonup> u8 list"

definition env_ok :: "part_env \<Rightarrow> bool" where
  "env_ok P \<longleftrightarrow> cur_has_row (pe_key P) \<and> cur_size (pe_key P) \<noteq> 0 \<and> cur_size (pe_val P) \<noteq> 0 \<and> unat (cur_size (pe_val P)) < 2 ^ 32 \<and>
     cells (cur_col_offsets (pe_val P)) \<noteq> []"

type_synonym additions = "(row_contents \<times> u8 list) list"

definition group_of :: "additions \<Rightarrow> row_contents \<Rightarrow> u8 list list" where
  "group_of adds c = map snd (filter (\<lambda>x. fst x = c) adds)"

definition group_set :: "cql_row_cursor \<Rightarrow> u8 list list \<Rightarrow> cql_result_set" where
  "group_set V rows = \<lparr>rs_meta = val_meta V, rs_count = of_nat (length rows), rs_data = concat rows\<rparr>"

definition val_holds :: "cql_row_cursor \<Rightarrow> part_mem \<Rightarrow> i64 \<Rightarrow> u8 list list \<Rightarrow> bool" where
  "val_holds V mem v rows \<longleftrightarrow> v \<noteq> 0 \<and>
     (if harvested v then set_at mem (untag v) = group_set V rows
      else \<exists>buf. pm_bufs mem v = Some buf \<and> cql_bytebuf_inv buf \<and> cql_bytebuf_contents buf = concat rows)"

abbreviation entry_view :: "part_env \<Rightarrow> part_mem \<Rightarrow> cql_hashtab_entry \<Rightarrow> row_contents" where
  "entry_view P mem e \<equiv> key_view (pe_key P) mem (entry_key e)"

text \<open>The references that an entry holds to strings and blobs, and to its result set.\<close>

definition entry_cost :: "part_env \<Rightarrow> part_mem \<Rightarrow> additions \<Rightarrow> cql_hashtab_entry \<Rightarrow> i64 multiset" where
  "entry_cost P mem adds e = live_refs (cursor_refs (pe_key P) (the (pm_blocks mem (entry_key e)))) +
     (if harvested (entry_val e) then {#} else live_refs (group_refs (pe_val P) (group_of adds (entry_view P mem e))))"

definition entry_sets :: "cql_hashtab_entry \<Rightarrow> i64 multiset" where
  "entry_sets e = (if harvested (entry_val e) then {#untag (entry_val e)#} else {#})"

definition empty_sets :: "cql_partition \<Rightarrow> i64 multiset" where
  "empty_sets self = (if empty_result self = 0 then {#} else {#empty_result self#})"

definition part_refs :: "part_env \<Rightarrow> part_mem \<Rightarrow> additions \<Rightarrow> cql_partition \<Rightarrow> i64 multiset" where
  "part_refs P mem adds self = pe_refs P + (\<Sum>e \<in># mset (table_entries (part_ht self)). entry_cost P mem adds e)"

definition part_sets :: "i64 multiset \<Rightarrow> cql_partition \<Rightarrow> i64 multiset" where
  "part_sets S self = S + (\<Sum>e \<in># mset (table_entries (part_ht self)). entry_sets e) + empty_sets self"

definition entry_holds :: "part_env \<Rightarrow> part_mem \<Rightarrow> additions \<Rightarrow> cql_hashtab_entry \<Rightarrow> bool" where
  "entry_holds P mem adds e \<longleftrightarrow> key_cell (pe_key P) (pe_kinds P) mem (entry_key e) \<and> entry_key e \<notin> dom (pe_blocks P) \<and>
     val_holds (pe_val P) mem (entry_val e) (group_of adds (entry_view P mem e))"

definition shapes_known :: "part_env \<Rightarrow> part_mem \<Rightarrow> bool" where
  "shapes_known P mem \<longleftrightarrow> c_key mem = pe_key P \<and> c_key2 mem = pe_key P \<and> c_val mem = pe_val P"

definition adds_ok :: "part_env \<Rightarrow> part_mem \<Rightarrow> additions \<Rightarrow> bool" where
  "adds_ok P mem adds \<longleftrightarrow> rows_good (pe_val P) (pe_val_kinds P) mem (map snd adds) \<and> length (concat (map snd adds)) < 2 ^ 29"

text \<open>
  \<open>part_core P S N self mem adds\<close>: what the entries of the partition \<open>self\<close> in the memory \<open>mem\<close> hold belongs
  to the rows \<open>adds\<close>; the caller holds the references \<open>S\<close> to result sets, and at most \<open>N\<close> references of any
  kind are outstanding.  In \<open>part_rep\<close> the keys of the entries are those of the rows.
\<close>

definition part_core :: "part_env \<Rightarrow> i64 multiset \<Rightarrow> nat \<Rightarrow> cql_partition \<Rightarrow> part_mem \<Rightarrow> additions \<Rightarrow> bool" where
  "part_core P S N self mem adds \<longleftrightarrow>
     part_table (part_ht self) \<and> (cur_size (c_key mem) = 0 \<and> adds = [] \<or> shapes_known P mem) \<and>
     table_inv (key_view (pe_key P) mem) contents_hash (part_ht self) \<and>
     (\<forall>e \<in> set (table_entries (part_ht self)). entry_holds P mem adds e) \<and>
     inj_on entry_val (set (table_entries (part_ht self))) \<and>
     mem_ok mem (part_refs P mem adds self) (part_sets S self) (pe_others P) \<and>
     size (part_refs P mem adds self + set_refs mem (part_sets S self)) + pe_others P + size (part_sets S self) \<le> N \<and>
     dom (pm_blocks mem) = dom (pe_blocks P) \<union> entry_key ` set (table_entries (part_ht self)) \<and>
     (\<forall>a \<in> dom (pe_blocks P). pm_blocks mem a = pe_blocks P a) \<and>
     dom (pm_bufs mem) = {v \<in> entry_val ` set (table_entries (part_ht self)). \<not> harvested v} \<and>
     adds_ok P mem adds \<and>
     (empty_result self \<noteq> 0 \<longrightarrow> rs_count (set_at mem (empty_result self)) = 0 \<and> rs_data (set_at mem (empty_result self)) = []) \<and>
     (\<not> did_extract self \<longrightarrow> (\<forall>e \<in> set (table_entries (part_ht self)). \<not> harvested (entry_val e)))"

definition part_rep :: "part_env \<Rightarrow> i64 multiset \<Rightarrow> nat \<Rightarrow> cql_partition \<Rightarrow> part_mem \<Rightarrow> additions \<Rightarrow> bool" where
  "part_rep P S N self mem adds \<longleftrightarrow> part_core P S N self mem adds \<and>
     entry_view P mem ` set (table_entries (part_ht self)) = fst ` set adds"

lemma part_coreD:
  assumes "part_core P S N self mem adds"
  shows "part_table (part_ht self)" "cur_size (c_key mem) = 0 \<and> adds = [] \<or> shapes_known P mem"
    "table_inv (key_view (pe_key P) mem) contents_hash (part_ht self)"
    "\<forall>e \<in> set (table_entries (part_ht self)). entry_holds P mem adds e"
    "inj_on entry_val (set (table_entries (part_ht self)))"
    "mem_ok mem (part_refs P mem adds self) (part_sets S self) (pe_others P)"
    "size (part_refs P mem adds self + set_refs mem (part_sets S self)) + pe_others P + size (part_sets S self) \<le> N"
    "dom (pm_blocks mem) = dom (pe_blocks P) \<union> entry_key ` set (table_entries (part_ht self))"
    "\<forall>a \<in> dom (pe_blocks P). pm_blocks mem a = pe_blocks P a"
    "dom (pm_bufs mem) = {v \<in> entry_val ` set (table_entries (part_ht self)). \<not> harvested v}"
    "adds_ok P mem adds"
    "empty_result self \<noteq> 0 \<longrightarrow> rs_count (set_at mem (empty_result self)) = 0 \<and> rs_data (set_at mem (empty_result self)) = []"
    "\<not> did_extract self \<longrightarrow> (\<forall>e \<in> set (table_entries (part_ht self)). \<not> harvested (entry_val e))"
  by (insert assms, unfold part_core_def, (elim conjE, assumption)+)

lemma harvested_bit: "harvested v \<longleftrightarrow> bit v 0"
  by (simp add: harvested_def and_one_eq mod_2_eq_odd bit_0)

lemma harvested_tag:
  assumes "\<not> harvested v"
  shows "harvested (1 OR v)" and "untag (1 OR v) = v"
proof -
  show "harvested (1 OR v)" by (simp add: harvested_bit bit_or_iff)
  show "untag (1 OR v) = v"
    unfolding untag_def
  proof (rule bit_word_eqI)
    fix n assume "n < LENGTH(64)"
    then show "bit ((1 OR v) AND NOT 1) n = bit v n" using assms by (cases n) (auto simp: harvested_bit bit_and_iff bit_or_iff bit_not_iff bit_1_iff)
  qed
qed

lemma group_of_snoc: "group_of (adds @ [(c, r)]) d = group_of adds d @ (if c = d then [r] else [])"
  by (simp add: group_of_def)

lemma group_refs_append [simp]: "group_refs V (rows @ rows') = group_refs V rows @ group_refs V rows'"
  by (simp add: group_refs_def)

lemma group_subset: "set (group_of adds c) \<subseteq> snd ` set adds"
  by (auto simp: group_of_def)

lemma group_length: "length (concat (group_of adds c)) \<le> length (concat (map snd adds))"
  by (induction adds) (auto simp: group_of_def)

lemma group_good: "adds_ok P mem adds \<Longrightarrow> rows_good (pe_val P) (pe_val_kinds P) mem (group_of adds c)"
  using group_subset [of adds c] by (auto simp: adds_ok_def rows_good_def)

section \<open>Appending a row\<close>

lemma shape_fields:
  assumes "cursor_shape c = K"
  shows "cur_size c = cur_size K" "cur_refs_count c = cur_refs_count K" "cur_refs_offset c = cur_refs_offset K" "cur_has_row K"
  by (simp_all add: assms [symmetric] cursor_shape_def cql_row_cursor.truncate_def)

text \<open>A cursor of the caller: its shape, its row, and that the caller owns the references of the row.\<close>

definition cursor_ok :: "part_env \<Rightarrow> part_mem \<Rightarrow> cql_row_cursor \<Rightarrow> bool list \<Rightarrow> cql_cursor_at \<Rightarrow> bool" where
  "cursor_ok P mem K ks c \<longleftrightarrow> cur_has_row c \<and> cursor_shape c = K \<and>
     (\<exists>b. pe_blocks P (cur_at c) = Some b \<and> row_good K ks mem b \<and> set_mset (live_refs (cursor_refs K b)) \<subseteq> set_mset (pe_refs P))"

definition cursor_bytes :: "part_env \<Rightarrow> cql_row_cursor \<Rightarrow> cql_cursor_at \<Rightarrow> u8 list" where
  "cursor_bytes P K c = take (unat (cur_size K)) (the (pe_blocks P (cur_at c)))"

lemma length_group_refs: "length (cursor_refs K b) = unat (cur_refs_count K)"
  by (simp add: cursor_refs_def)

lemma append_row:
  assumes "pm_bufs mem b = Some buf" and "cql_bytebuf_inv buf" and "cql_bytebuf_contents buf = old"
    and "length old + unat (cur_size V) < 2 ^ 29" and "unat (cur_size V) < 2 ^ 32"
    and "pm_blocks mem (cur_at c) = Some row" and "row_good V vks mem row" and "cursor_shape c = V"
    and "mem_ok mem R T m" and "set_mset (live_refs (cursor_refs V row)) \<subseteq> set_mset R"
    and "size (R + set_refs mem T) + m + size T + unat (cur_refs_count V) < 2 ^ 31"
  shows "\<exists>buf' h. partition_append b c mem = Some (mem\<lparr>pm_bufs := (pm_bufs mem)(b \<mapsto> buf'), pm_refs := h\<rparr>) \<and> cql_bytebuf_inv buf' \<and>
    cql_bytebuf_contents buf' = old @ take (unat (cur_size V)) row \<and>
    mem_ok (mem\<lparr>pm_refs := h\<rparr>) (R + live_refs (cursor_refs V row)) T m \<and> (\<forall>a. data_at h a = data_at (pm_refs mem) a)"
proof -
  let ?n = "ucast (cur_size V) :: u32" and ?k = "take (unat (cur_size V)) row"
  note f = shape_fields [OF assms(8)]
  note r = row_good_take [OF assms(7) refl]
  have n: "unat ?n = length ?k" using r(5) assms(5) by (simp add: unsigned_ucast_eq take_bit_nat_eq_self)
  have used: "unat (cb_used buf) = length old" using assms(2,3) by (auto simp: cql_bytebuf_inv_def)
  have ready: "cql_bytebuf_ready (unat ?n) buf" using assms(2,4) used n r(5) by (simp add: cql_bytebuf_ready_def)
  obtain off b1 where al: "cql_bytebuf_alloc buf ?n = (off, b1)" by force
  define b2 where "b2 = b1\<lparr>cb_ptr := Some (mem_store (block_of (cb_ptr b1)) off (Some (map Some ?k)))\<rparr>"
  note w = cql_bytebuf_write_spec [OF ready al n b2_def]
  obtain h where h: "retain_all (cursor_refs V row) (pm_refs mem) = Some h" "mem_ok (mem\<lparr>pm_refs := h\<rparr>) (R + live_refs (cursor_refs V row)) T m"
    "\<forall>a. data_at h a = data_at (pm_refs mem) a"
    using mem_retain [OF assms(9,10)] assms(11) by (auto simp: length_group_refs)
  have "partition_append b c mem = Some (mem\<lparr>pm_bufs := (pm_bufs mem)(b \<mapsto> b2), pm_refs := h\<rparr>)"
    using assms(1,6) f r(1,3) retain_cursor [OF r(2)] h(1) al by (simp add: partition_append_def b2_def Let_def)
  then show ?thesis using w(1,2) assms(3) h(2,3) by (intro exI [of _ b2] exI [of _ h]) simp
qed

lemma sum_update:
  fixes f g :: "'a \<Rightarrow> 'b multiset"
  assumes "distinct xs" and "e \<in> set xs" and "\<And>x. x \<in> set xs \<Longrightarrow> x \<noteq> e \<Longrightarrow> g x = f x" and "g e = f e + d"
  shows "(\<Sum>x \<in># mset xs. g x) = (\<Sum>x \<in># mset xs. f x) + d"
  using assms
proof (induction xs)
  case (Cons y xs)
  show ?case
  proof (cases "y = e")
    case True
    then have "(\<Sum>x \<in># mset xs. g x) = (\<Sum>x \<in># mset xs. f x)" using Cons.prems(1,3) by (intro arg_cong [of _ _ sum_mset] image_mset_cong) auto
    then show ?thesis using True Cons.prems(4) by simp
  next
    case False
    then show ?thesis using Cons by simp
  qed
qed simp

lemma sum_same: "(\<And>x. x \<in> set xs \<Longrightarrow> f x = g x) \<Longrightarrow> (\<Sum>x \<in># mset xs. f x :: 'b multiset) = (\<Sum>x \<in># mset xs. g x)"
  by (induction xs) auto

lemma core_distinct: "part_core P S N self mem adds \<Longrightarrow> distinct (table_entries (part_ht self))"
  using entries_distinct_views [OF part_coreD(3)] by (metis distinct_map)

lemma view_same:
  assumes "\<forall>a. data_at (pm_refs mem') a = data_at (pm_refs mem) a" and "pm_blocks mem' k = pm_blocks mem k"
  shows "key_view K mem' k = key_view K mem k" and "key_cell K ks mem' k = key_cell K ks mem k"
  using all_data [OF assms(1)] assms(2) by (simp_all add: key_view_def key_cell_def)

lemma core_entry:
  assumes "part_core P S N self mem adds" and "e \<in> set (table_entries (part_ht self))"
  shows "key_cell (pe_key P) (pe_kinds P) mem (entry_key e)" "entry_key e \<notin> dom (pe_blocks P)"
    "val_holds (pe_val P) mem (entry_val e) (group_of adds (entry_view P mem e))"
  using part_coreD(4) [OF assms(1)] assms(2) by (auto simp: entry_holds_def)

lemma adds_ok_snoc:
  assumes "adds_ok P mem adds" and "\<forall>a. data_at (pm_refs mem') a = data_at (pm_refs mem) a" and "row_good (pe_val P) (pe_val_kinds P) mem r"
    and "length r = unat (cur_size (pe_val P))" and "length (concat (map snd adds)) + length r < 2 ^ 29"
  shows "adds_ok P mem' (adds @ [(c, r)])"
  using assms all_data(1) [OF assms(2)] by (simp add: adds_ok_def rows_good_def)

lemma core_append:
  assumes "part_core P S N self mem adds" and "env_ok P" and "shapes_known P mem" and "e \<in> set (table_entries (part_ht self))"
    and "\<not> harvested (entry_val e)" and "cursor_ok P mem (pe_val P) (pe_val_kinds P) c"
    and "length (concat (map snd adds)) + unat (cur_size (pe_val P)) < 2 ^ 29" and "N + unat (cur_refs_count (pe_val P)) < 2 ^ 31"
  shows "\<exists>mem'. partition_append (entry_val e) c mem = Some mem' \<and> shapes_known P mem' \<and>
    part_core P S (N + unat (cur_refs_count (pe_val P))) self mem' (adds @ [(entry_view P mem e, cursor_bytes P (pe_val P) c)]) \<and>
    (\<forall>a. data_at (pm_refs mem') a = data_at (pm_refs mem) a) \<and> (\<forall>k. key_view (pe_key P) mem' k = key_view (pe_key P) mem k) \<and>
    pm_sets mem' = pm_sets mem"
proof -
  let ?V = "pe_val P" and ?es = "table_entries (part_ht self)" and ?view = "entry_view P mem"
  let ?adds = "adds @ [(?view e, cursor_bytes P ?V c)]"
  note d = part_coreD [OF assms(1)]
  obtain row where row: "pe_blocks P (cur_at c) = Some row" "row_good ?V (pe_val_kinds P) mem row"
    "set_mset (live_refs (cursor_refs ?V row)) \<subseteq> set_mset (pe_refs P)" and shape: "cursor_shape c = ?V"
    using assms(6) by (auto simp: cursor_ok_def)
  have row_at: "pm_blocks mem (cur_at c) = Some row" using d(9) row(1) by (auto simp: domIff)
  have bytes: "cursor_bytes P ?V c = take (unat (cur_size ?V)) row" using row(1) by (simp add: cursor_bytes_def)
  note good = row_good_take [OF row(2) refl]
  obtain buf where buf: "pm_bufs mem (entry_val e) = Some buf" "cql_bytebuf_inv buf" "cql_bytebuf_contents buf = concat (group_of adds (?view e))"
    using core_entry(3) [OF assms(1,4)] assms(5) by (auto simp: val_holds_def)
  have V: "unat (cur_size ?V) < 2 ^ 32" using assms(2) by (simp add: env_ok_def)
  have room: "length (concat (group_of adds (?view e))) + unat (cur_size ?V) < 2 ^ 29" using group_length [of adds "?view e"] assms(7) by simp
  have sub: "set_mset (live_refs (cursor_refs ?V row)) \<subseteq> set_mset (part_refs P mem adds self)" using row(3) by (auto simp: part_refs_def)
  have bound: "size (part_refs P mem adds self + set_refs mem (part_sets S self)) + pe_others P + size (part_sets S self) + unat (cur_refs_count ?V) < 2 ^ 31"
    using d(7) assms(8) by simp
  obtain buf' h where a: "partition_append (entry_val e) c mem = Some (mem\<lparr>pm_bufs := (pm_bufs mem)(entry_val e \<mapsto> buf'), pm_refs := h\<rparr>)"
    "cql_bytebuf_inv buf'" "cql_bytebuf_contents buf' = concat (group_of adds (?view e)) @ take (unat (cur_size ?V)) row"
    "mem_ok (mem\<lparr>pm_refs := h\<rparr>) (part_refs P mem adds self + live_refs (cursor_refs ?V row)) (part_sets S self) (pe_others P)"
    "\<forall>a. data_at h a = data_at (pm_refs mem) a"
    using append_row [OF buf room V row_at row(2) shape d(6) sub bound] by blast
  let ?mem = "mem\<lparr>pm_bufs := (pm_bufs mem)(entry_val e \<mapsto> buf'), pm_refs := h\<rparr>"
  have data: "\<forall>a. data_at (pm_refs ?mem) a = data_at (pm_refs mem) a" using a(5) by simp
  have view: "key_view K ?mem k = key_view K mem k" "key_cell K ks ?mem k = key_cell K ks mem k" for K ks k
    by (rule view_same [OF data], simp)+
  have other: "?view x \<noteq> ?view e" if "x \<in> set ?es" "x \<noteq> e" for x using table_one_entry [OF d(3)] that assms(4) by blast
  have grp: "group_of ?adds (?view x) = group_of adds (?view x) @ (if x = e then [cursor_bytes P ?V c] else [])" if "x \<in> set ?es" for x
    using other [OF that] by (cases "x = e") (auto simp: group_of_snoc)
  have sets: "set_at ?mem a = set_at mem a" for a by (simp add: set_at_def)
  have cost: "(\<Sum>x \<in># mset ?es. entry_cost P ?mem ?adds x) = (\<Sum>x \<in># mset ?es. entry_cost P mem adds x) + live_refs (cursor_refs ?V row)"
    by (rule sum_update [OF core_distinct [OF assms(1)] assms(4)])
      (use assms(5) good(3) in \<open>auto simp: entry_cost_def view grp [unfolded bytes] assms(4) bytes group_refs_def\<close>)
  have refs: "part_refs P ?mem ?adds self = part_refs P mem adds self + live_refs (cursor_refs ?V row)"
    unfolding part_refs_def cost by (simp add: add.assoc)
  have "set_refs ?mem (part_sets S self) = set_refs mem (part_sets S self)" using sets by (intro set_refs_cong)
  moreover have "size (live_refs (cursor_refs ?V row)) \<le> unat (cur_refs_count ?V)" using size_live_refs length_group_refs by metis
  ultimately have size: "size (part_refs P ?mem ?adds self + set_refs ?mem (part_sets S self)) + pe_others P + size (part_sets S self) \<le> N + unat (cur_refs_count ?V)"
    using d(7) unfolding refs by simp
  have ok: "mem_ok ?mem (part_refs P ?mem ?adds self) (part_sets S self) (pe_others P)"
    using a(4) unfolding refs by (simp add: mem_ok_def set_refs_def set_at_def)
  have ent: "entry_holds P ?mem ?adds x" if x: "x \<in> set ?es" for x
  proof -
    have "val_holds ?V ?mem (entry_val x) (group_of ?adds (?view x))"
    proof (cases "x = e")
      case True
      then show ?thesis using a(2,3) assms(5) grp [OF x] bytes core_entry(3) [OF assms(1) x] by (simp add: val_holds_def)
    next
      case False
      then have "entry_val x \<noteq> entry_val e" using d(5) x assms(4) by (auto simp: inj_on_def)
      then show ?thesis using core_entry(3) [OF assms(1) x] False grp [OF x] by (simp add: val_holds_def sets)
    qed
    then show ?thesis using core_entry [OF assms(1) x] by (simp add: entry_holds_def view)
  qed
  have "part_core P S (N + unat (cur_refs_count ?V)) self ?mem ?adds"
    unfolding part_core_def
  proof (intro conjI)
    show "part_table (part_ht self)" by (rule d(1))
    show "cur_size (c_key ?mem) = 0 \<and> ?adds = [] \<or> shapes_known P ?mem" using assms(3) by (simp add: shapes_known_def)
    show "table_inv (key_view (pe_key P) ?mem) contents_hash (part_ht self)" using d(3) by (rule table_inv_cong) (simp add: view)
    show "dom (pm_bufs ?mem) = {v \<in> entry_val ` set ?es. \<not> harvested v}" using d(10) assms(4,5) by auto
    show "adds_ok P ?mem ?adds" using adds_ok_snoc [OF d(11) data] good(2,5) assms(7) bytes by simp
  qed (use d ent ok size sets in \<open>simp_all add: view\<close>)
  then show ?thesis using a(1) view assms(3) data by (intro exI [of _ ?mem]) (simp add: shapes_known_def)
qed

section \<open>Finding and making groups\<close>

definition with_shapes :: "part_env \<Rightarrow> part_mem \<Rightarrow> part_mem" where
  "with_shapes P mem = mem\<lparr>c_key := pe_key P, c_key2 := pe_key P, c_val := pe_val P\<rparr>"

lemma with_shapes_fields [simp]:
  "pm_refs (with_shapes P mem) = pm_refs mem" "pm_blocks (with_shapes P mem) = pm_blocks mem" "pm_bufs (with_shapes P mem) = pm_bufs mem"
  "pm_sets (with_shapes P mem) = pm_sets mem" "shapes_known P (with_shapes P mem)"
  by (simp_all add: with_shapes_def shapes_known_def)

lemma core_with_shapes:
  assumes "part_core P S N self mem adds"
  shows "part_core P S N self (with_shapes P mem) adds"
proof -
  let ?mem = "with_shapes P mem"
  have view: "key_view K ?mem k = key_view K mem k" "key_cell K ks ?mem k = key_cell K ks mem k" "row_good K ks ?mem b = row_good K ks mem b" for K ks k b
    by (simp_all add: key_view_def key_cell_def row_good_def)
  have sets: "set_at ?mem a = set_at mem a" "set_refs ?mem T = set_refs mem T" "mem_ok ?mem R T m = mem_ok mem R T m" for a T R m
    by (simp_all add: set_at_def set_refs_def mem_ok_def)
  have "entry_cost P ?mem adds x = entry_cost P mem adds x" for x by (simp add: entry_cost_def view)
  then have "part_refs P ?mem adds self = part_refs P mem adds self" unfolding part_refs_def using sum_same by metis
  moreover have "entry_holds P ?mem adds e = entry_holds P mem adds e"
    "adds_ok P ?mem adds = adds_ok P mem adds" for e
    by (simp_all add: entry_holds_def val_holds_def adds_ok_def rows_good_def view sets)
  ultimately have refs: "part_refs P ?mem adds self = part_refs P mem adds self" "entry_holds P ?mem adds e = entry_holds P mem adds e"
    "adds_ok P ?mem adds = adds_ok P mem adds" for e by blast+
  have v: "key_view (pe_key P) ?mem = key_view (pe_key P) mem" by (rule ext) (rule view(1))
  show ?thesis using assms unfolding part_core_def sets refs v with_shapes_fields by (elim conjE, intro conjI) simp_all
qed

lemma shapes_step:
  assumes "part_core P S N self mem adds" and "cursor_shape key = pe_key P" and "cursor_shape v = pe_val P" and "env_ok P"
  shows "partition_shapes key v mem = Some (with_shapes P mem)"
proof (cases "cur_size (c_key mem) = 0")
  case True
  then show ?thesis using assms(2,3) by (simp add: partition_shapes_def with_shapes_def)
next
  case False
  then have k: "shapes_known P mem" using part_coreD(2) [OF assms(1)] by blast
  then have "with_shapes P mem = mem" by (simp add: with_shapes_def shapes_known_def)
  then show ?thesis using False k shape_fields [OF assms(2)] shape_fields [OF assms(3)]
    by (simp add: partition_shapes_def same_shape_def shapes_known_def bind_require)
qed

lemma core_keys: "part_core P S N self mem adds \<Longrightarrow> entry_key ` set (table_entries (part_ht self)) \<subseteq> {a. key_cell (pe_key P) (pe_kinds P) mem a}"
  using core_entry(1) by blast

lemma core_viewed:
  assumes "part_core P S N self mem adds" and "env_ok P" and "shapes_known P mem"
  shows "viewed (part_ht self) mem {a. key_cell (pe_key P) (pe_kinds P) mem a} (key_view (pe_key P) mem) contents_hash"
  using part_viewed [OF part_coreD(1) [OF assms(1)], of mem "pe_key P"] assms(2,3) mem_ok_null [OF part_coreD(6) [OF assms(1)]]
  by (simp add: shapes_known_def env_ok_def)

lemma cursor_cell:
  assumes "part_core P S N self mem adds" and "cursor_ok P mem (pe_key P) (pe_kinds P) c"
  shows "key_cell (pe_key P) (pe_kinds P) mem (cur_at c)" and "pm_blocks mem (cur_at c) = pe_blocks P (cur_at c)"
  using assms(2) part_coreD(9) [OF assms(1)] by (auto simp: cursor_ok_def key_cell_def domIff)

text \<open>The key that a cursor shows.\<close>

definition cursor_view :: "part_env \<Rightarrow> part_mem \<Rightarrow> cql_cursor_at \<Rightarrow> row_contents" where
  "cursor_view P mem c = row_contents (pm_refs mem) (the (pe_blocks P (cur_at c))) (cur_size (pe_key P)) (cur_refs_count (pe_key P)) (cur_refs_offset (pe_key P))"

lemma cursor_key_view:
  assumes "part_core P S N self mem adds" and "cursor_ok P mem (pe_key P) (pe_kinds P) c"
  shows "key_view (pe_key P) mem (cur_at c) = cursor_view P mem c"
  using cursor_cell(2) [OF assms] by (simp add: key_view_def cursor_view_def)

lemma core_find:
  assumes "part_core P S N self mem adds" and "env_ok P" and "shapes_known P mem" and "cursor_ok P mem (pe_key P) (pe_kinds P) key"
  obtains (found) i where "i < length (ht_payload (part_ht self))" "ht_payload (part_ht self) ! i \<in> set (table_entries (part_ht self))"
      "entry_view P mem (ht_payload (part_ht self) ! i) = cursor_view P mem key" "cql_hashtab_find (part_ht self) (cur_at key) mem = Some (Some i)"
  | (absent) "cql_hashtab_find (part_ht self) (cur_at key) mem = Some None"
      "\<forall>e \<in> set (table_entries (part_ht self)). entry_view P mem e \<noteq> cursor_view P mem key"
proof -
  have k: "cur_at key \<in> {a. key_cell (pe_key P) (pe_kinds P) mem a}" using cursor_cell(1) [OF assms(1,4)] by simp
  from part_coreD(3) [OF assms(1)] core_viewed [OF assms(1-3)] core_keys [OF assms(1)] k show thesis
    by (cases rule: table_find) (use that cursor_key_view [OF assms(1,4)] in auto)
qed

lemma core_new_group:
  assumes "part_core P S N self mem adds" and "env_ok P" and "shapes_known P mem" and "cursor_ok P mem (pe_key P) (pe_kinds P) key"
    and "\<forall>e \<in> set (table_entries (part_ht self)). entry_view P mem e \<noteq> cursor_view P mem key"
    and "group_of adds (cursor_view P mem key) = []" and "length (table_entries (part_ht self)) < 2 ^ 29"
    and "key_at al \<notin> dom (pm_blocks mem)" and "key_at al \<noteq> 0" and "buf_at al \<notin> dom (pm_bufs mem)" and "buf_at al \<noteq> 0" and "\<not> harvested (buf_at al)"
    and "N + unat (cur_refs_count (pe_key P)) < 2 ^ 31"
  shows "\<exists>ht mem' e. partition_new_group al key self mem = Some (buf_at al, self\<lparr>part_ht := ht\<rparr>, mem') \<and> shapes_known P mem' \<and>
    part_core P S (N + unat (cur_refs_count (pe_key P))) (self\<lparr>part_ht := ht\<rparr>) mem' adds \<and>
    set (table_entries ht) = insert e (set (table_entries (part_ht self))) \<and> entry_key e = key_at al \<and> entry_val e = buf_at al \<and> pm_sets mem' = pm_sets mem \<and> entry_view P mem' e = cursor_view P mem key \<and>
    (\<forall>a. data_at (pm_refs mem') a = data_at (pm_refs mem) a) \<and> (\<forall>d \<in> set (table_entries (part_ht self)). entry_view P mem' d = entry_view P mem d)"
proof -
  let ?K = "pe_key P" and ?es = "table_entries (part_ht self)" and ?e = "\<lparr>entry_key = key_at al, entry_val = buf_at al\<rparr>"
  note d = part_coreD [OF assms(1)]
  obtain row where row: "pe_blocks P (cur_at key) = Some row" "row_good ?K (pe_kinds P) mem row"
    "set_mset (live_refs (cursor_refs ?K row)) \<subseteq> set_mset (pe_refs P)" and shape: "cursor_shape key = ?K"
    using assms(4) by (auto simp: cursor_ok_def)
  have row_at: "pm_blocks mem (cur_at key) = Some row" using d(9) row(1) by (auto simp: domIff)
  define k where "k = take (unat (cur_size ?K)) row"
  note good = row_good_take [OF row(2) k_def]
  note f = shape_fields [OF shape]
  have sub: "set_mset (live_refs (cursor_refs ?K row)) \<subseteq> set_mset (part_refs P mem adds self)" using row(3) by (auto simp: part_refs_def)
  obtain h where h: "retain_all (cursor_refs ?K row) (pm_refs mem) = Some h"
    "mem_ok (mem\<lparr>pm_refs := h\<rparr>) (part_refs P mem adds self + live_refs (cursor_refs ?K row)) (part_sets S self) (pe_others P)"
    "\<forall>a. data_at h a = data_at (pm_refs mem) a"
    using mem_retain [OF d(6) sub] d(7) assms(13) by (auto simp: length_group_refs)
  define mem' where "mem' = mem\<lparr>pm_bufs := (pm_bufs mem)(buf_at al \<mapsto> cql_bytebuf_open), pm_blocks := (pm_blocks mem)(key_at al \<mapsto> k), pm_refs := h\<rparr>"
  have mem': "pm_refs mem' = h" "pm_blocks mem' = (pm_blocks mem)(key_at al \<mapsto> k)" "pm_bufs mem' = (pm_bufs mem)(buf_at al \<mapsto> cql_bytebuf_open)"
    "pm_sets mem' = pm_sets mem" "c_key mem' = c_key mem" "c_key2 mem' = c_key2 mem" "c_val mem' = c_val mem" by (simp_all add: mem'_def)
  have data: "\<forall>a. data_at (pm_refs mem') a = data_at (pm_refs mem) a" using h(3) by (simp add: mem')
  have old: "x \<noteq> key_at al" if "x \<in> dom (pm_blocks mem)" for x using that assms(8) by blast
  have key_old: "entry_key x \<in> dom (pm_blocks mem)" if "x \<in> set ?es" for x using d(8) that by blast
  have view: "key_view ?K mem' x = key_view ?K mem x" "key_cell ?K (pe_kinds P) mem' x = key_cell ?K (pe_kinds P) mem x" if "x \<in> dom (pm_blocks mem)" for x
    by (rule view_same [OF data], use old [OF that] in \<open>simp add: mem'\<close>)+
  have new: "key_view ?K mem' (key_at al) = cursor_view P mem key" "key_cell ?K (pe_kinds P) mem' (key_at al)"
    using good(2,4) all_data [OF data] row(1) by (simp_all add: key_view_def key_cell_def cursor_view_def mem')
  have K: "shapes_known P mem'" using assms(3) by (simp add: shapes_known_def mem')
  have t: "table_inv (key_view ?K mem') contents_hash (part_ht self)" using d(3) by (rule table_inv_cong) (use view(1) key_old in blast)
  have ok_null: "objs (pm_refs mem') 0 = None" using mem_ok_null [OF h(2)] by (simp add: mem')
  have v: "viewed (part_ht self) mem' {a. key_cell ?K (pe_kinds P) mem' a} (key_view ?K mem') contents_hash"
    using part_viewed [OF d(1) _ _ _ ok_null] K assms(2) by (simp add: shapes_known_def env_ok_def)
  have keys: "entry_key ` set ?es \<subseteq> {a. key_cell ?K (pe_kinds P) mem' a}" using core_entry(1) [OF assms(1)] view(2) key_old by blast
  have fresh: "\<forall>e \<in> set ?es. key_view ?K mem' (entry_key e) \<noteq> key_view ?K mem' (key_at al)" using assms(5) view(1) key_old new(1) by simp
  have cnt: "unat (ht_count (part_ht self)) < 2 ^ 29" using table_invD(4) [OF d(3)] assms(7) by simp
  have kin: "key_at al \<in> {a. key_cell ?K (pe_kinds P) mem' a}" using new(2) by simp
  obtain ht where ht: "cql_hashtab_add (part_ht self) (key_at al) (buf_at al) mem' = Some (True, ht, mem')" "table_inv (key_view ?K mem') contents_hash ht"
    "viewed ht mem' {a. key_cell ?K (pe_kinds P) mem' a} (key_view ?K mem') contents_hash" "mset (table_entries ht) = add_mset ?e (mset ?es)"
    using table_add [OF t v keys kin assms(9) fresh cnt] by blast
  have es: "set (table_entries ht) = insert ?e (set ?es)" using arg_cong [OF ht(4), of set_mset] by simp
  let ?self = "self\<lparr>part_ht := ht\<rparr>"
  have run: "partition_new_group al key self mem = Some (buf_at al, ?self, mem')"
    using row_at good(1) f retain_cursor [OF good(2)] good(3) h(1) ht(1)
    by (simp add: partition_new_group_def bind_require Let_def mem'_def k_def)
  have sets: "set_at mem' a = set_at mem a" for a by (simp add: set_at_def mem')
  have cost: "entry_cost P mem' adds x = entry_cost P mem adds x" if "x \<in> set ?es" for x
    using view(1) key_old [OF that] old by (simp add: entry_cost_def mem')
  have cost_new: "entry_cost P mem' adds ?e = live_refs (cursor_refs ?K row)"
    using assms(6,12) new(1) good(3) by (simp add: entry_cost_def mem' group_refs_def)
  have "(\<Sum>x \<in># mset (table_entries ht). entry_cost P mem' adds x) = live_refs (cursor_refs ?K row) + (\<Sum>x \<in># mset ?es. entry_cost P mem adds x)"
    unfolding ht(4) using sum_same [OF cost] by (simp add: cost_new)
  then have refs: "part_refs P mem' adds ?self = part_refs P mem adds self + live_refs (cursor_refs ?K row)"
    by (simp add: part_refs_def ac_simps)
  have psets: "part_sets S ?self = part_sets S self" using assms(12) by (simp add: part_sets_def ht(4) entry_sets_def empty_sets_def)
  have ok: "mem_ok mem' (part_refs P mem' adds ?self) (part_sets S ?self) (pe_others P)"
    using h(2) unfolding refs psets by (simp add: mem_ok_def set_refs_def set_at_def mem')
  have "set_refs mem' (part_sets S self) = set_refs mem (part_sets S self)" using sets by (intro set_refs_cong)
  moreover have "size (live_refs (cursor_refs ?K row)) \<le> unat (cur_refs_count ?K)" using size_live_refs length_group_refs by metis
  ultimately have size: "size (part_refs P mem' adds ?self + set_refs mem' (part_sets S ?self)) + pe_others P + size (part_sets S ?self) \<le> N + unat (cur_refs_count ?K)"
    using d(7) unfolding refs psets by simp
  have buf_new: "entry_val x \<noteq> buf_at al" if "x \<in> set ?es" for x
  proof
    assume "entry_val x = buf_at al"
    then have "buf_at al \<in> dom (pm_bufs mem)" using that assms(12) unfolding d(10) by force
    then show False using assms(10) by blast
  qed
  have ent: "entry_holds P mem' adds x" if x: "x \<in> set (table_entries ht)" for x
  proof (cases "x = ?e")
    case True
    then show ?thesis using new assms(6,8,11,12) d(8) cql_bytebuf_open_ready [of 0]
      by (auto simp: entry_holds_def val_holds_def mem' cql_bytebuf_ready_def cql_bytebuf_contents_def cql_bytebuf_open_def mem_alloc_def)
  next
    case False
    then have x: "x \<in> set ?es" using x es by blast
    then show ?thesis using core_entry [OF assms(1) x] view [OF key_old [OF x]] buf_new [OF x]
      by (simp add: entry_holds_def val_holds_def sets mem')
  qed
  have "part_core P S (N + unat (cur_refs_count ?K)) ?self mem' adds"
    unfolding part_core_def
  proof (intro conjI)
    show "part_table (part_ht ?self)" using add_functions [OF ht(1)] d(1) by (simp add: part_table_def same_functions_def)
    show "cur_size (c_key mem') = 0 \<and> adds = [] \<or> shapes_known P mem'" using K by simp
    show "table_inv (key_view ?K mem') contents_hash (part_ht ?self)" using ht(2) by simp
    show "\<forall>e \<in> set (table_entries (part_ht ?self)). entry_holds P mem' adds e" using ent by simp
    show "inj_on entry_val (set (table_entries (part_ht ?self)))" using d(5) not_sym [OF buf_new] by (simp add: es) blast
    show "dom (pm_blocks mem') = dom (pe_blocks P) \<union> entry_key ` set (table_entries (part_ht ?self))" using d(8) by (auto simp: es mem')
    show "\<forall>a \<in> dom (pe_blocks P). pm_blocks mem' a = pe_blocks P a" using d(8,9) assms(8) by (auto simp: mem')
    show "dom (pm_bufs mem') = {v \<in> entry_val ` set (table_entries (part_ht ?self)). \<not> harvested v}" using d(10) assms(12) by (auto simp: es mem')
    show "adds_ok P mem' adds" using d(11) all_data(1) [OF data] by (simp add: adds_ok_def rows_good_def)
    show "empty_result ?self \<noteq> 0 \<longrightarrow> rs_count (set_at mem' (empty_result ?self)) = 0 \<and> rs_data (set_at mem' (empty_result ?self)) = []"
      using d(12) by (simp add: sets)
    show "\<not> did_extract ?self \<longrightarrow> (\<forall>e \<in> set (table_entries (part_ht ?self)). \<not> harvested (entry_val e))" using d(13) assms(12) by (simp add: es)
  qed (use ok size in simp_all)
  then show ?thesis using run K es view(1) key_old new(1) data mem'(4) by (intro exI [of _ ht] exI [of _ mem'] exI [of _ ?e]) simp
qed

section \<open>Adding a row\<close>

lemma part_repD:
  assumes "part_rep P S N self mem adds"
  shows "part_core P S N self mem adds" "entry_view P mem ` set (table_entries (part_ht self)) = fst ` set adds"
  using assms by (simp_all add: part_rep_def)

lemma cursor_ok_data:
  assumes "\<forall>a. data_at (pm_refs mem') a = data_at (pm_refs mem) a"
  shows "cursor_ok P mem' K ks c = cursor_ok P mem K ks c" and "cursor_view P mem' c = cursor_view P mem c"
  using all_data [OF assms] by (simp_all add: cursor_ok_def cursor_view_def)

lemma length_adds:
  assumes "adds_ok P mem adds" and "env_ok P"
  shows "length adds \<le> length (concat (map snd adds))"
proof -
  have "0 < unat (cur_size (pe_val P))" using assms(2) by (simp add: env_ok_def unat_gt_0)
  moreover have "length (concat (map snd adds)) = length adds * unat (cur_size (pe_val P))"
    using rows_block(3) [of "pe_val P" "pe_val_kinds P" mem "map snd adds"] assms(1) by (simp add: adds_ok_def)
  ultimately show ?thesis by simp
qed

lemma rep_entries_le:
  assumes "part_rep P S N self mem adds" and "env_ok P"
  shows "length (table_entries (part_ht self)) < 2 ^ 29"
proof -
  note d = part_coreD [OF part_repD(1) [OF assms(1)]]
  have "distinct (map (entry_view P mem) (table_entries (part_ht self)))" using entries_distinct_views [OF d(3)] by (simp add: comp_def)
  then have "length (table_entries (part_ht self)) = card (entry_view P mem ` set (table_entries (part_ht self)))"
    using distinct_card by fastforce
  also have "\<dots> \<le> length adds" unfolding part_repD(2) [OF assms(1)] by (metis card_length length_map set_map)
  also have "\<dots> \<le> length (concat (map snd adds))" by (rule length_adds [OF d(11) assms(2)])
  also have "\<dots> < 2 ^ 29" using d(11) by (simp add: adds_ok_def)
  finally show ?thesis .
qed

text \<open>What \<open>malloc\<close> promises of the addresses for a new group.\<close>

definition group_fresh :: "part_addrs \<Rightarrow> part_mem \<Rightarrow> bool" where
  "group_fresh al mem \<longleftrightarrow> key_at al \<notin> dom (pm_blocks mem) \<and> key_at al \<noteq> 0 \<and>
     buf_at al \<notin> dom (pm_bufs mem) \<and> buf_at al \<noteq> 0 \<and> \<not> harvested (buf_at al)"

definition row_cost :: "part_env \<Rightarrow> nat" where
  "row_cost P = unat (cur_refs_count (pe_key P)) + unat (cur_refs_count (pe_val P))"

lemma core_more: "part_core P S N self mem adds \<Longrightarrow> N \<le> N' \<Longrightarrow> part_core P S N' self mem adds"
  unfolding part_core_def by (elim conjE, intro conjI) (assumption | simp)+

lemma rep_add:
  assumes "part_rep P S N self mem adds" and "env_ok P" and "\<not> did_extract self"
    and "cursor_ok P mem (pe_key P) (pe_kinds P) key" and "cursor_ok P mem (pe_val P) (pe_val_kinds P) v" and "group_fresh al mem"
    and "length (concat (map snd adds)) + unat (cur_size (pe_val P)) < 2 ^ 29" and "N + row_cost P < 2 ^ 31"
  shows "\<exists>self' mem'. cql_partition_cursor al self key v mem = Some (True, self', mem') \<and>
    part_rep P S (N + row_cost P) self' mem' (adds @ [(cursor_view P mem key, cursor_bytes P (pe_val P) v)]) \<and> \<not> did_extract self' \<and>
    (\<forall>a. data_at (pm_refs mem') a = data_at (pm_refs mem) a) \<and> dom (pm_blocks mem') \<subseteq> insert (key_at al) (dom (pm_blocks mem)) \<and>
    dom (pm_bufs mem') \<subseteq> insert (buf_at al) (dom (pm_bufs mem)) \<and> pm_sets mem' = pm_sets mem"
proof -
  let ?es = "table_entries (part_ht self)"
  let ?m = "with_shapes P mem" and ?c = "cursor_view P mem key" and ?rc = "unat (cur_refs_count (pe_key P))"
  have core: "part_core P S N self ?m adds" by (rule core_with_shapes [OF part_repD(1) [OF assms(1)]])
  have data0: "\<forall>a. data_at (pm_refs ?m) a = data_at (pm_refs mem) a" by simp
  note cur0 = cursor_ok_data [OF data0]
  have key: "cursor_ok P ?m (pe_key P) (pe_kinds P) key" and val: "cursor_ok P ?m (pe_val P) (pe_val_kinds P) v" using assms(4,5) cur0(1) by simp_all
  have sh: "partition_shapes key v mem = Some ?m"
    using shapes_step [OF part_repD(1) [OF assms(1)] _ _ assms(2)] assms(4,5) by (simp add: cursor_ok_def)
  have flags: "cur_has_row key" "cur_has_row v" using assms(4,5) by (simp_all add: cursor_ok_def)
  have view0: "entry_view P ?m e = entry_view P mem e" for e by (simp add: key_view_def)
  have dom: "entry_view P ?m ` set (table_entries (part_ht self)) = fst ` set adds" using part_repD(2) [OF assms(1)] by (simp add: view0)
  have "\<exists>e self1 mem1. (do { entry \<leftarrow> cql_hashtab_find (part_ht self) (cur_at key) ?m;
        case entry of Some i \<Rightarrow> Some (entry_val (ht_payload (part_ht self) ! i), self, ?m) | None \<Rightarrow> partition_new_group al key self ?m }) = Some (entry_val e, self1, mem1) \<and>
      part_core P S (N + ?rc) self1 mem1 adds \<and> shapes_known P mem1 \<and> e \<in> set (table_entries (part_ht self1)) \<and> entry_view P mem1 e = ?c \<and>
      (\<forall>a. data_at (pm_refs mem1) a = data_at (pm_refs mem) a) \<and> \<not> did_extract self1 \<and>
      entry_view P mem1 ` set (table_entries (part_ht self1)) = insert ?c (fst ` set adds) \<and> pm_sets mem1 = pm_sets mem \<and>
      entry_key ` set (table_entries (part_ht self1)) \<subseteq> insert (key_at al) (entry_key ` set ?es) \<and>
      entry_val ` set (table_entries (part_ht self1)) \<subseteq> insert (buf_at al) (entry_val ` set ?es)"
  proof -
    from core assms(2) with_shapes_fields(5) key show ?thesis
    proof (cases rule: core_find)
      case (found i)
      let ?e = "ht_payload (part_ht self) ! i"
      have "entry_view P ?m ?e = ?c" using found(3) cur0(2) by simp
      moreover from this have "?c \<in> fst ` set adds" using found(2) unfolding dom [symmetric] by force
      ultimately show ?thesis
        using found(2,4) core_more [OF core] assms(3) dom
        by (intro exI [of _ ?e] exI [of _ self] exI [of _ ?m]) (simp add: insert_absorb subset_insertI)
    next
      case absent
      have grp: "group_of adds ?c = []"
      proof -
        have "?c \<notin> fst ` set adds" using absent(2) cur0(2) unfolding dom [symmetric] by auto
        then show ?thesis unfolding group_of_def by (metis (mono_tags, lifting) filter_False image_eqI list.map(1))
      qed
      have len: "length (table_entries (part_ht self)) < 2 ^ 29" by (rule rep_entries_le [OF assms(1,2)])
      have fresh: "key_at al \<notin> dom (pm_blocks ?m)" "key_at al \<noteq> 0" "buf_at al \<notin> dom (pm_bufs ?m)" "buf_at al \<noteq> 0" "\<not> harvested (buf_at al)"
        using assms(6) by (simp_all add: group_fresh_def)
      have N: "N + ?rc < 2 ^ 31" using assms(8) by (simp add: row_cost_def)
      obtain ht mem1 e where n: "partition_new_group al key self ?m = Some (buf_at al, self\<lparr>part_ht := ht\<rparr>, mem1)" "shapes_known P mem1"
        "part_core P S (N + ?rc) (self\<lparr>part_ht := ht\<rparr>) mem1 adds" "set (table_entries ht) = insert e (set (table_entries (part_ht self)))"
        "entry_view P mem1 e = cursor_view P ?m key" "\<forall>a. data_at (pm_refs mem1) a = data_at (pm_refs ?m) a"
        "\<forall>d \<in> set (table_entries (part_ht self)). entry_view P mem1 d = entry_view P ?m d" "entry_key e = key_at al" "entry_val e = buf_at al" "pm_sets mem1 = pm_sets ?m"
        using core_new_group [OF core assms(2) with_shapes_fields(5) key absent(2) _ len fresh N] grp cur0(2) by auto
      have "entry_view P mem1 ` set (table_entries ht) = insert ?c (fst ` set adds)"
        using n(4,5,7) dom cur0(2) by simp
      then show ?thesis using n absent(1) assms(3) cur0(2)
        by (intro exI [of _ e] exI [of _ "self\<lparr>part_ht := ht\<rparr>"] exI [of _ mem1]) simp
    qed
  qed
  then obtain e self1 mem1 where g: "(do { entry \<leftarrow> cql_hashtab_find (part_ht self) (cur_at key) ?m;
        case entry of Some i \<Rightarrow> Some (entry_val (ht_payload (part_ht self) ! i), self, ?m) | None \<Rightarrow> partition_new_group al key self ?m }) = Some (entry_val e, self1, mem1)"
      "part_core P S (N + ?rc) self1 mem1 adds" "shapes_known P mem1" "e \<in> set (table_entries (part_ht self1))" "entry_view P mem1 e = ?c"
      "\<forall>a. data_at (pm_refs mem1) a = data_at (pm_refs mem) a" "\<not> did_extract self1"
      "entry_view P mem1 ` set (table_entries (part_ht self1)) = insert ?c (fst ` set adds)" "pm_sets mem1 = pm_sets mem"
      "entry_key ` set (table_entries (part_ht self1)) \<subseteq> insert (key_at al) (entry_key ` set ?es)"
      "entry_val ` set (table_entries (part_ht self1)) \<subseteq> insert (buf_at al) (entry_val ` set ?es)" by blast
  have nh: "\<not> harvested (entry_val e)" using part_coreD(13) [OF g(2)] g(4,7) by blast
  have nz: "entry_val e \<noteq> 0" using core_entry(3) [OF g(2,4)] by (simp add: val_holds_def)
  have val1: "cursor_ok P mem1 (pe_val P) (pe_val_kinds P) v" using assms(5) cursor_ok_data(1) [OF g(6)] by simp
  have N: "N + ?rc + unat (cur_refs_count (pe_val P)) < 2 ^ 31" using assms(8) by (simp add: row_cost_def)
  obtain mem' where a: "partition_append (entry_val e) v mem1 = Some mem'" "shapes_known P mem'"
    "part_core P S (N + row_cost P) self1 mem' (adds @ [(?c, cursor_bytes P (pe_val P) v)])"
    "\<forall>a. data_at (pm_refs mem') a = data_at (pm_refs mem1) a" "\<forall>k. key_view (pe_key P) mem' k = key_view (pe_key P) mem1 k" "pm_sets mem' = pm_sets mem1"
    using core_append [OF g(2) assms(2) g(3,4) nh val1 assms(7) N] unfolding g(5) by (auto simp: row_cost_def add.assoc)
  have "part_rep P S (N + row_cost P) self1 mem' (adds @ [(?c, cursor_bytes P (pe_val P) v)])"
    using a(3,5) g(8) by (simp add: part_rep_def)
  moreover have "cql_partition_cursor al self key v mem = Some (True, self1, mem')"
  proof -
    obtain y where "cql_hashtab_find (part_ht self) (cur_at key) ?m = Some y"
      "(case y of Some i \<Rightarrow> Some (entry_val (ht_payload (part_ht self) ! i), self, ?m) | None \<Rightarrow> partition_new_group al key self ?m) =
        Some (entry_val e, self1, mem1)"
      using g(1) by (cases "cql_hashtab_find (part_ht self) (cur_at key) ?m") simp_all
    then show ?thesis using assms(3) sh flags nz a(1) by (cases y) (auto simp: cql_partition_cursor_def bind_require)
  qed
  moreover note new = part_coreD [OF a(3)] and old = part_coreD [OF part_repD(1) [OF assms(1)]]
  have "dom (pm_blocks mem') \<subseteq> insert (key_at al) (dom (pm_blocks mem))" unfolding new(8) old(8) using g(10) by auto
  moreover have "dom (pm_bufs mem') \<subseteq> insert (buf_at al) (dom (pm_bufs mem))" unfolding new(10) old(10) using g(11) by auto
  ultimately show ?thesis using a(4,6) g(6,7,9) by auto
qed

end
