(* ===== verification/Partition_Extract.thy ===== *)
theory Partition_Extract
  imports Partition_Rep
begin

text \<open>
  Extracting groups from a partition: the first request for a group hands its buffer over to a result set, later
  ones give the same object, and requests for groups that do not exist share one empty result set.
\<close>

section \<open>Creation\<close>

lemma rep_create:
  assumes "mem_ok mem (pe_refs P) S (pe_others P)" and "size (pe_refs P + set_refs mem S) + pe_others P + size S \<le> N"
    and "pm_bufs mem = Map.empty" and "pm_blocks mem = pe_blocks P" and "cur_size (c_key mem) = 0"
  shows "part_rep P S N cql_partition_create mem []"
proof -
  have e: "table_entries (part_ht cql_partition_create) = []" by (simp add: cql_partition_create_def new_table_inv)
  have t: "part_table (part_ht cql_partition_create)"
    by (simp add: cql_partition_create_def part_table_def cql_hashtab_new_def cql_hashtab_set_payload_def)
  have i: "table_inv view hc (part_ht cql_partition_create)" for view hc by (simp add: cql_partition_create_def new_table_inv)
  have s: "part_sets S cql_partition_create = S" "part_refs P mem [] cql_partition_create = pe_refs P"
    unfolding part_sets_def part_refs_def e by (simp_all add: empty_sets_def cql_partition_create_def)
  have "part_core P S N cql_partition_create mem []"
    unfolding part_core_def s e using assms t i
    by (simp add: adds_ok_def rows_good_def) (simp add: cql_partition_create_def)
  then show ?thesis unfolding part_rep_def e by simp
qed

section \<open>The empty result set and repeated requests\<close>

text \<open>A step that only changes result sets and leaves the objects of the invariant alone.\<close>

lemma core_sets_step:
  assumes "part_core P S N self mem adds" and "mem' = mem\<lparr>pm_sets := s, pm_refs := h\<rparr>"
    and "\<forall>a. data_at h a = data_at (pm_refs mem) a" and "\<forall>a \<in># part_sets S self. set_at mem' a = set_at mem a"
    and "self' = self\<lparr>empty_result := x, did_extract := True\<rparr>"
    and "x = empty_result self \<or> rs_count (set_at mem' x) = 0 \<and> rs_data (set_at mem' x) = []"
    and "mem_ok mem' (part_refs P mem adds self) (part_sets S' self') (pe_others P)"
    and "size (part_refs P mem adds self + set_refs mem' (part_sets S' self')) + pe_others P + size (part_sets S' self') \<le> N'"
  shows "part_core P S' N' self' mem' adds" and "part_refs P mem' adds self' = part_refs P mem adds self"
    and "\<forall>e. entry_view P mem' e = entry_view P mem e"
proof -
  note d = part_coreD [OF assms(1)]
  have data: "\<forall>a. data_at (pm_refs mem') a = data_at (pm_refs mem) a" using assms(2,3) by simp
  have mem': "pm_blocks mem' = pm_blocks mem" "pm_bufs mem' = pm_bufs mem" "c_key mem' = c_key mem" "c_key2 mem' = c_key2 mem" "c_val mem' = c_val mem"
    by (simp_all add: assms(2))
  have view: "key_view K mem' k = key_view K mem k" "key_cell K ks mem' k = key_cell K ks mem k" for K ks k
    by (rule view_same [OF data], simp add: mem')+
  show "\<forall>e. entry_view P mem' e = entry_view P mem e" using view(1) by simp
  have ht: "part_ht self' = part_ht self" by (simp add: assms(5))
  have "entry_cost P mem' adds e = entry_cost P mem adds e" for e by (simp add: entry_cost_def view mem')
  then show refs: "part_refs P mem' adds self' = part_refs P mem adds self" unfolding part_refs_def ht using sum_same by metis
  have ent: "entry_holds P mem' adds e" if e: "e \<in> set (table_entries (part_ht self))" for e
  proof -
    have "set_at mem' (untag (entry_val e)) = set_at mem (untag (entry_val e))" if "harvested (entry_val e)"
    proof -
      have "untag (entry_val e) \<in># (\<Sum>e \<in># mset (table_entries (part_ht self)). entry_sets e)" using e that by (force simp: entry_sets_def)
      then show ?thesis using assms(4) by (simp add: part_sets_def)
    qed
    then show ?thesis using core_entry [OF assms(1) e] by (simp add: entry_holds_def val_holds_def view mem')
  qed
  have emp: "empty_result self' \<noteq> 0 \<longrightarrow> rs_count (set_at mem' (empty_result self')) = 0 \<and> rs_data (set_at mem' (empty_result self')) = []"
  proof (cases "x = empty_result self")
    case True
    then show ?thesis using d(12) assms(4) by (simp add: assms(5) part_sets_def empty_sets_def)
  next
    case False
    then show ?thesis using assms(5,6) by simp
  qed
  show "part_core P S' N' self' mem' adds"
    unfolding part_core_def ht refs
  proof (intro conjI)
    show "cur_size (c_key mem') = 0 \<and> adds = [] \<or> shapes_known P mem'" using d(2) by (simp add: shapes_known_def mem')
    show "table_inv (key_view (pe_key P) mem') contents_hash (part_ht self)" using d(3) by (rule table_inv_cong) (simp add: view)
    show "\<forall>e \<in> set (table_entries (part_ht self)). entry_holds P mem' adds e" using ent by blast
    show "adds_ok P mem' adds" using d(11) all_data(1) [OF data] by (simp add: adds_ok_def rows_good_def)
    show "\<not> did_extract self' \<longrightarrow> (\<forall>e \<in> set (table_entries (part_ht self)). \<not> harvested (entry_val e))" by (simp add: assms(5))
  qed (use d emp assms(7,8) in \<open>simp_all add: mem'\<close>)
qed

lemma rep_sets_step:
  assumes "part_rep P S N self mem adds" and "part_core P S' N' self' mem' adds" and "\<forall>e. entry_view P mem' e = entry_view P mem e"
    and "part_ht self' = part_ht self"
  shows "part_rep P S' N' self' mem' adds"
  using assms by (simp add: part_rep_def)

definition sets_fresh :: "part_addrs \<Rightarrow> part_mem \<Rightarrow> bool" where
  "sets_fresh al mem \<longleftrightarrow> result_at al \<notin> dom (pm_sets mem) \<and> result_at al \<noteq> 0 \<and> \<not> harvested (result_at al) \<and>
     empty_at al \<notin> dom (pm_sets mem) \<and> empty_at al \<noteq> 0"

text \<open>What extracting a group gives: an object of the caller that holds exactly these rows.\<close>

definition extracts ::
  "part_env \<Rightarrow> i64 multiset \<Rightarrow> nat \<Rightarrow> additions \<Rightarrow> part_mem \<Rightarrow> u8 list list \<Rightarrow> (i64 \<times> cql_partition \<times> part_mem) option \<Rightarrow> bool" where
  "extracts P S N adds mem rows res \<longleftrightarrow> (\<exists>r self' mem'. res = Some (r, self', mem') \<and> part_rep P (add_mset r S) (N + 2) self' mem' adds \<and>
     rs_data (set_at mem' r) = concat rows \<and> rs_count (set_at mem' r) = of_nat (length rows) \<and> did_extract self' \<and>
     (rows \<noteq> [] \<longrightarrow> set_at mem' r = group_set (pe_val P) rows) \<and>
     (\<forall>a. data_at (pm_refs mem') a = data_at (pm_refs mem) a) \<and> (\<forall>a \<in># S. set_at mem' a = set_at mem a))"

lemma extracting_sets [simp]:
  "part_sets S (self\<lparr>did_extract := b\<rparr>) = part_sets S self" "part_refs P mem adds (self\<lparr>did_extract := b\<rparr>) = part_refs P mem adds self"
  by (simp_all add: part_sets_def empty_sets_def part_refs_def)

lemma extract_again:
  assumes "part_rep P S N self mem adds" and "e \<in> set (table_entries (part_ht self))" and "harvested (entry_val e)" and "N + 2 < 2 ^ 31"
    and "r = untag (entry_val e)"
  shows "extracts P S N adds mem (group_of adds (entry_view P mem e))
    (do { mem \<leftarrow> cql_object_retain r mem; Some (r, self\<lparr>did_extract := True\<rparr>, mem) })"
proof -
  note core = part_repD(1) [OF assms(1)]
  note d = part_coreD [OF core]
  let ?T = "part_sets S self" and ?self = "self\<lparr>empty_result := empty_result self, did_extract := True\<rparr>"
  have "r \<in># (\<Sum>e \<in># mset (table_entries (part_ht self)). entry_sets e)" using assms(2,3,5) by (force simp: entry_sets_def)
  then have r: "r \<in># ?T" by (simp add: part_sets_def)
  have bound: "size (part_refs P mem adds self + set_refs mem ?T) + pe_others P + size ?T + 1 < 2 ^ 31" using d(7) assms(4) by simp
  obtain h s where k: "cql_object_retain r mem = Some (mem\<lparr>pm_sets := s, pm_refs := h\<rparr>)"
    "mem_ok (mem\<lparr>pm_sets := s, pm_refs := h\<rparr>) (part_refs P mem adds self) (add_mset r ?T) (pe_others P)"
    "\<forall>b. data_at h b = data_at (pm_refs mem) b" "\<forall>b. set_at (mem\<lparr>pm_sets := s, pm_refs := h\<rparr>) b = set_at mem b"
    using object_retain_ok [OF d(6) r bound] by blast
  define mem' where "mem' = mem\<lparr>pm_sets := s, pm_refs := h\<rparr>"
  have T: "part_sets (add_mset r S) ?self = add_mset r ?T" by (simp add: part_sets_def empty_sets_def)
  have same: "\<forall>a \<in># ?T. set_at mem' a = set_at mem a" using k(4) by (simp add: mem'_def)
  have "set_refs mem' (add_mset r ?T) = set_refs mem ?T"
    using k(4) r unfolding set_refs_def mem'_def by (simp add: insert_absorb)
  then have size: "size (part_refs P mem adds self + set_refs mem' (part_sets (add_mset r S) ?self)) + pe_others P + size (part_sets (add_mset r S) ?self) \<le> N + 2"
    using d(7) unfolding T by simp
  have ok: "mem_ok mem' (part_refs P mem adds self) (part_sets (add_mset r S) ?self) (pe_others P)" unfolding T mem'_def by (rule k(2))
  note step = core_sets_step [OF core mem'_def k(3) same refl disjI1 [OF refl] ok size]
  have rep: "part_rep P (add_mset r S) (N + 2) ?self mem' adds" by (rule rep_sets_step [OF assms(1) step(1,3)]) simp
  have "set_at mem r = group_set (pe_val P) (group_of adds (entry_view P mem e))"
    using core_entry(3) [OF core assms(2)] assms(3,5) by (simp add: val_holds_def)
  then have "set_at mem' r = group_set (pe_val P) (group_of adds (entry_view P mem e))" using k(4) by (simp add: mem'_def)
  moreover have "\<forall>a \<in># S. set_at mem' a = set_at mem a" using k(4) by (simp add: mem'_def)
  ultimately show ?thesis
    unfolding extracts_def using rep k(1,3)
    by (intro exI [of _ r] exI [of _ ?self] exI [of _ mem']) (simp add: mem'_def [symmetric] group_set_def, simp add: mem'_def)
qed

definition empty_set_of :: "part_addrs \<Rightarrow> cql_result_set" where
  "empty_set_of al = \<lparr>rs_meta = \<lparr>refsCount = 0, refsOffset = 0, columnOffsets = \<lparr>array_at = empty_offsets_at al, cells = [0]\<rparr>, rowsize = 0,
     columnCount = 0, identityColumns = None, dataTypes = \<lparr>array_at = empty_types_at al, cells = []\<rparr>\<rparr>, rs_count = 0, rs_data = []\<rparr>"

lemma empty_set_ok: "rows_ok h [] (empty_set_of al)" "rs_refs (empty_set_of al) = []"
  by (simp_all add: rows_ok_def empty_set_of_def rs_refs_def)

lemma extract_empty:
  assumes "part_rep P S N self mem adds" and "sets_fresh al mem" and "N + 2 < 2 ^ 31"
  shows "extracts P S N adds mem [] (partition_empty al (self\<lparr>did_extract := True\<rparr>) mem)"
proof -
  note core = part_repD(1) [OF assms(1)]
  note d = part_coreD [OF core]
  let ?T = "part_sets S self" and ?R = "part_refs P mem adds self"
  define x where "x = (if empty_result self = 0 then empty_at al else empty_result self)"
  let ?self = "self\<lparr>empty_result := x, did_extract := True\<rparr>"
  have x: "x \<noteq> 0" using assms(2) by (simp add: x_def sets_fresh_def)
  have "\<exists>mem1. (if empty_result self = 0 then Some (new_result_set (empty_at al) [] 0 (rs_meta (empty_set_of al)) mem) else Some mem) = Some mem1 \<and>
      (\<exists>s h. mem1 = mem\<lparr>pm_sets := s, pm_refs := h\<rparr>) \<and> (\<forall>b. data_at (pm_refs mem1) b = data_at (pm_refs mem) b) \<and>
      (\<forall>b \<in># ?T. set_at mem1 b = set_at mem b) \<and> mem_ok mem1 ?R (part_sets S ?self) (pe_others P) \<and> x \<in># part_sets S ?self \<and>
      rs_data (set_at mem1 x) = [] \<and> rs_count (set_at mem1 x) = 0 \<and> size (?R + set_refs mem1 (part_sets S ?self)) + pe_others P + size (part_sets S ?self) \<le> N + 1"
  proof (cases "empty_result self = 0")
    case True
    let ?a = "empty_at al" and ?rs = "empty_set_of al"
    have fresh: "?a \<notin># ?T" "?a \<noteq> 0" using assms(2) mem_okD(3) [OF d(6)] by (auto simp: sets_fresh_def)
    have ok: "mem_ok mem (?R + live_refs (rs_refs ?rs)) ?T (pe_others P)" using d(6) by (simp add: empty_set_ok(2))
    have b: "size (?R + live_refs (rs_refs ?rs) + set_refs mem ?T) + pe_others P + size ?T + 1 < 2 ^ 31" using d(7) assms(3) by (simp add: empty_set_ok(2))
    have rs: "?rs = \<lparr>rs_meta = rs_meta ?rs, rs_count = 0, rs_data = []\<rparr>" by (simp add: empty_set_of_def)
    obtain h where h: "new_result_set ?a [] 0 (rs_meta ?rs) mem = mem\<lparr>pm_sets := (pm_sets mem)(?a \<mapsto> (1, ?rs)), pm_refs := h\<rparr>"
      "mem_ok (mem\<lparr>pm_sets := (pm_sets mem)(?a \<mapsto> (1, ?rs)), pm_refs := h\<rparr>) ?R (add_mset ?a ?T) (pe_others P)"
      "\<forall>b. data_at h b = data_at (pm_refs mem) b" "\<forall>b \<in># ?T. set_at (mem\<lparr>pm_sets := (pm_sets mem)(?a \<mapsto> (1, ?rs)), pm_refs := h\<rparr>) b = set_at mem b"
      using new_set_ok [OF ok fresh empty_set_ok(1) rs b] by blast
    let ?m = "mem\<lparr>pm_sets := (pm_sets mem)(?a \<mapsto> (1, ?rs)), pm_refs := h\<rparr>"
    have T: "part_sets S ?self = add_mset ?a ?T" using True fresh(2) by (simp add: part_sets_def empty_sets_def x_def)
    have T2: "part_sets S (self\<lparr>empty_result := ?a\<rparr>) = add_mset ?a ?T" using True fresh(2) by (simp add: part_sets_def empty_sets_def)
    have new: "set_at ?m ?a = ?rs" by (simp add: set_at_def)
    have "set_refs ?m (add_mset ?a ?T) = set_refs ?m ?T" unfolding set_refs_remove [OF fresh(1)] new by (simp add: empty_set_ok(2))
    also have "\<dots> = set_refs mem ?T" using h(4) by (intro set_refs_cong) blast
    finally have sz: "size (?R + set_refs ?m (part_sets S ?self)) + pe_others P + size (part_sets S ?self) \<le> N + 1" using d(7) unfolding T by simp
    have "rs_data (set_at ?m x) = []" "rs_count (set_at ?m x) = 0" using True new by (simp_all add: x_def empty_set_of_def)
    then show ?thesis using True h sz by (intro exI [of _ ?m]) (auto simp: T T2 x_def)
  next
    case False
    have T: "part_sets S ?self = ?T" using False by (simp add: part_sets_def empty_sets_def x_def)
    have "x \<in># ?T" using False by (simp add: part_sets_def empty_sets_def x_def)
    moreover have "\<exists>s h. mem = mem\<lparr>pm_sets := s, pm_refs := h\<rparr>" by (rule exI [of _ "pm_sets mem"], rule exI [of _ "pm_refs mem"]) simp
    ultimately show ?thesis using False d(6,7,12) by (auto simp: T x_def)
  qed
  then obtain mem1 s1 h1 where m1: "(if empty_result self = 0 then Some (new_result_set (empty_at al) [] 0 (rs_meta (empty_set_of al)) mem) else Some mem) = Some mem1"
    "mem1 = mem\<lparr>pm_sets := s1, pm_refs := h1\<rparr>" "\<forall>b. data_at (pm_refs mem1) b = data_at (pm_refs mem) b"
    "\<forall>b \<in># ?T. set_at mem1 b = set_at mem b" "mem_ok mem1 ?R (part_sets S ?self) (pe_others P)" "x \<in># part_sets S ?self"
    "rs_data (set_at mem1 x) = []" "rs_count (set_at mem1 x) = 0" "size (?R + set_refs mem1 (part_sets S ?self)) + pe_others P + size (part_sets S ?self) \<le> N + 1"
    by blast
  have bound: "size (?R + set_refs mem1 (part_sets S ?self)) + pe_others P + size (part_sets S ?self) + 1 < 2 ^ 31" using m1(9) assms(3) by simp
  obtain h s where k: "cql_object_retain x mem1 = Some (mem1\<lparr>pm_sets := s, pm_refs := h\<rparr>)"
    "mem_ok (mem1\<lparr>pm_sets := s, pm_refs := h\<rparr>) ?R (add_mset x (part_sets S ?self)) (pe_others P)"
    "\<forall>b. data_at h b = data_at (pm_refs mem1) b" "\<forall>b. set_at (mem1\<lparr>pm_sets := s, pm_refs := h\<rparr>) b = set_at mem1 b"
    using object_retain_ok [OF m1(5,6) bound] by blast
  define mem' where "mem' = mem\<lparr>pm_sets := s, pm_refs := h\<rparr>"
  have mem': "mem1\<lparr>pm_sets := s, pm_refs := h\<rparr> = mem'" by (simp add: mem'_def m1(2))
  have T: "part_sets (add_mset x S) ?self = add_mset x (part_sets S ?self)" by (simp add: part_sets_def empty_sets_def)
  have at: "set_at mem' b = set_at mem1 b" for b using k(4) unfolding mem' by blast
  have data: "\<forall>a. data_at h a = data_at (pm_refs mem) a" using k(3) m1(3) by simp
  have same: "\<forall>a \<in># ?T. set_at mem' a = set_at mem a" using at m1(4) by simp
  have "set_refs mem' (add_mset x (part_sets S ?self)) = set_refs mem1 (part_sets S ?self)"
    using at m1(6) unfolding set_refs_def by (simp add: insert_absorb)
  then have size: "size (?R + set_refs mem' (part_sets (add_mset x S) ?self)) + pe_others P + size (part_sets (add_mset x S) ?self) \<le> N + 2"
    using m1(9) unfolding T by simp
  have ok: "mem_ok mem' ?R (part_sets (add_mset x S) ?self) (pe_others P)" unfolding T using k(2) by (simp add: mem')
  have emp: "x = empty_result self \<or> rs_count (set_at mem' x) = 0 \<and> rs_data (set_at mem' x) = []" using at m1(7,8) by simp
  note step = core_sets_step [OF core mem'_def data same refl emp ok size]
  have rep: "part_rep P (add_mset x S) (N + 2) ?self mem' adds" by (rule rep_sets_step [OF assms(1) step(1,3)]) simp
  have "partition_empty al (self\<lparr>did_extract := True\<rparr>) mem = Some (x, ?self, mem')"
    using m1(1) k(1) x by (auto simp: partition_empty_def cql_initialize_meta_def array_get_def empty_set_of_def mem' x_def bind_require split: if_splits)
  moreover have "\<forall>a \<in># S. set_at mem' a = set_at mem a" using same by (simp add: part_sets_def)
  ultimately show ?thesis
    unfolding extracts_def using rep at m1(7,8) data by (intro exI [of _ x] exI [of _ ?self] exI [of _ mem']) (simp, simp add: mem'_def)
qed

end
