(* ===== verification/Partition_Harvest.thy ===== *)
theory Partition_Harvest
  imports Partition_Extract
begin

text \<open>
  The first request for a group: its buffer becomes a result set that the entry keeps.
\<close>

lemma group_set_ok:
  assumes "rows_good V vks mem rows" and "length rows < 2 ^ 31" and "length (concat rows) < 2 ^ 64"
  shows "rows_ok (pm_refs mem) vks (group_set V rows)" and "rs_refs (group_set V rows) = group_refs V rows"
proof -
  note b = rows_block [OF assms(1)]
  have n: "nat (sint (of_nat (length rows) :: i32)) = length rows" "0 \<le> sint (of_nat (length rows) :: i32)"
    using sint_size [OF assms(2)] by simp_all
  show "rows_ok (pm_refs mem) vks (group_set V rows)" "rs_refs (group_set V rows) = group_refs V rows"
    using b n assms(3) by (simp_all add: rows_ok_def rs_refs_def group_set_def val_meta_def)
qed

lemma harvest_meta:
  assumes "env_ok P" and "V = pe_val P"
  shows "cql_initialize_meta \<lparr>data_types = cur_data_types V, col_offsets = cur_col_offsets V, refs_count = cur_refs_count V,
      refs_offset = cur_refs_offset V, identity_columns = None, info_rowsize = ucast (cur_size V)\<rparr> = Some (val_meta V)"
proof -
  have "(ucast (ucast (cur_size V) :: u32) :: u64) = cur_size V"
    using assms by (intro word_unat_eq_iff [THEN iffD2]) (simp add: env_ok_def unsigned_ucast_eq unsigned_take_bit_eq take_bit_nat_eq_self)
  then show ?thesis using assms by (simp add: cql_initialize_meta_def array_get_def val_meta_def env_ok_def)
qed

lemma harvest_count:
  assumes "cql_bytebuf_inv buf" and "cql_bytebuf_contents buf = concat rows" and "rows_good V vks mem rows" and "cur_size V \<noteq> 0"
  shows "ucast (rows_in buf (cur_size V)) = (of_nat (length rows) :: i32)"
proof -
  have "unat (rows_in buf (cur_size V)) = length rows" by (rule rows_in_count(1) [OF assms(1,2) rows_block(3) [OF assms(3)] assms(4)])
  moreover have "ucast (rows_in buf (cur_size V)) = (of_nat (unat (rows_in buf (cur_size V))) :: i32)" by simp
  ultimately show ?thesis by (simp only:)
qed


text \<open>The entry after the harvest, and what the others keep.\<close>

lemma harvest_entries:
  assumes "part_core P S N self mem adds" and "i < length (ht_payload (part_ht self))" and "e = ht_payload (part_ht self) ! i"
    and "e \<in> set (table_entries (part_ht self))" and "e' = e\<lparr>entry_val := v\<rparr>" and "ht = set_entry_val (part_ht self) i v"
  obtains M where "mset (table_entries (part_ht self)) = add_mset e M" and "mset (table_entries ht) = add_mset e' M"
    and "\<And>x. x \<in># M \<Longrightarrow> x \<in> set (table_entries (part_ht self)) \<and> x \<noteq> e" and "table_inv (key_view (pe_key P) mem) contents_hash ht"
    and "part_table ht"
proof -
  note d = part_coreD [OF assms(1)]
  have k: "entry_key (ht_payload (part_ht self) ! i) \<noteq> 0" using assms(3,4) by (simp add: table_entries_def)
  define M where "M = mset (table_entries (part_ht self)) - {#e#}"
  have M: "mset (table_entries (part_ht self)) = add_mset e M" using assms(4) by (simp add: M_def)
  have "add_mset e (mset (table_entries ht)) = add_mset e' (mset (table_entries (part_ht self)))"
    using set_val_entries [OF assms(2) k assms(3)] by (simp add: assms(5,6))
  then have M': "mset (table_entries ht) = add_mset e' M" unfolding M by (simp add: add_mset_commute)
  have dist: "distinct (table_entries (part_ht self))" by (rule core_distinct [OF assms(1)])
  have in_M: "x \<in> set (table_entries (part_ht self)) \<and> x \<noteq> e" if "x \<in># M" for x
  proof -
    have "Multiset.count (mset (table_entries (part_ht self))) e \<le> 1" using dist by (simp add: distinct_count_atmost_1)
    then have "e \<notin># M" unfolding M by (simp add: not_in_iff)
    then have "x \<noteq> e" using that by blast
    moreover have "x \<in># mset (table_entries (part_ht self))" using that by (simp add: M)
    ultimately show ?thesis by simp
  qed
  have "table_inv (key_view (pe_key P) mem) contents_hash ht" unfolding assms(6) by (rule set_val_inv [OF d(3) assms(2) k])
  moreover have "part_table ht" using d(1) by (simp add: assms(6) part_table_def set_entry_val_def)
  ultimately show thesis using that M M' in_M by blast
qed

text \<open>The memory after the harvest: the references of the buffer belong to the new result set.\<close>

lemma harvest_memory:
  assumes "mem_ok mem (R + live_refs (group_refs (pe_val P) rows)) T m" and "rows_good (pe_val P) ks mem rows" and "length rows < 2 ^ 31"
    and "length (concat rows) < 2 ^ 64" and "a \<notin># T" and "a \<noteq> 0" and "size (R + live_refs (group_refs (pe_val P) rows) + set_refs mem T) + m + size T + 2 < 2 ^ 31"
  shows "\<exists>s h. cql_object_retain a (new_result_set a (concat rows) (of_nat (length rows)) (val_meta (pe_val P)) (mem\<lparr>pm_bufs := b\<rparr>)) =
      Some (mem\<lparr>pm_bufs := b, pm_sets := s, pm_refs := h\<rparr>) \<and> mem_ok (mem\<lparr>pm_sets := s, pm_refs := h\<rparr>) R (add_mset a (add_mset a T)) m \<and>
    (\<forall>b. data_at h b = data_at (pm_refs mem) b) \<and> (\<forall>b \<in># T. set_at (mem\<lparr>pm_sets := s, pm_refs := h\<rparr>) b = set_at mem b) \<and>
    set_at (mem\<lparr>pm_sets := s, pm_refs := h\<rparr>) a = group_set (pe_val P) rows"
proof -
  let ?rs = "group_set (pe_val P) rows"
  note g = group_set_ok [OF assms(2-4)]
  have rs: "?rs = \<lparr>rs_meta = val_meta (pe_val P), rs_count = of_nat (length rows), rs_data = concat rows\<rparr>" by (simp add: group_set_def)
  let ?m = "mem\<lparr>pm_bufs := b\<rparr>"
  have ok: "mem_ok ?m (R + live_refs (rs_refs ?rs)) T m" using assms(1) by (simp add: g(2))
  have bd: "size (R + live_refs (rs_refs ?rs) + set_refs ?m T) + m + size T + 1 < 2 ^ 31" using assms(7) by (simp add: g(2))
  obtain h where h: "new_result_set a (concat rows) (of_nat (length rows)) (val_meta (pe_val P)) ?m = ?m\<lparr>pm_sets := (pm_sets ?m)(a \<mapsto> (1, ?rs)), pm_refs := h\<rparr>"
    "mem_ok (?m\<lparr>pm_sets := (pm_sets ?m)(a \<mapsto> (1, ?rs)), pm_refs := h\<rparr>) R (add_mset a T) m"
    "\<forall>b. data_at h b = data_at (pm_refs ?m) b" "\<forall>x \<in># T. set_at (?m\<lparr>pm_sets := (pm_sets ?m)(a \<mapsto> (1, ?rs)), pm_refs := h\<rparr>) x = set_at ?m x"
    using new_set_ok [OF ok assms(5,6) g(1) rs bd] by blast
  let ?m1 = "?m\<lparr>pm_sets := (pm_sets ?m)(a \<mapsto> (1, ?rs)), pm_refs := h\<rparr>"
  have at: "set_at ?m1 a = ?rs" by (simp add: set_at_def)
  have "set_refs ?m1 T = set_refs ?m T" by (rule set_refs_cong) (use h(4) in blast)
  then have "set_refs ?m1 (add_mset a T) = live_refs (rs_refs ?rs) + set_refs ?m T"
    unfolding set_refs_remove [OF assms(5)] at by simp
  then have bd1: "size (R + set_refs ?m1 (add_mset a T)) + m + size (add_mset a T) + 1 < 2 ^ 31" using assms(7) by (simp add: g(2))
  have a: "a \<in># add_mset a T" by simp
  obtain h' s where k: "cql_object_retain a ?m1 = Some (?m1\<lparr>pm_sets := s, pm_refs := h'\<rparr>)"
    "mem_ok (?m1\<lparr>pm_sets := s, pm_refs := h'\<rparr>) R (add_mset a (add_mset a T)) m"
    "\<forall>b. data_at h' b = data_at (pm_refs ?m1) b" "\<forall>x. set_at (?m1\<lparr>pm_sets := s, pm_refs := h'\<rparr>) x = set_at ?m1 x"
    using object_retain_ok [OF h(2) a bd1] by blast
  have set: "set_at (mem\<lparr>pm_sets := s, pm_refs := h'\<rparr>) x = set_at ?m1 x" for x using k(4) by (simp add: set_at_def)
  show ?thesis
  proof (intro exI [of _ s] exI [of _ h'] conjI)
    show "mem_ok (mem\<lparr>pm_sets := s, pm_refs := h'\<rparr>) R (add_mset a (add_mset a T)) m"
      using k(2) by (simp add: mem_ok_def set_refs_def set_at_def)
    show "\<forall>x \<in># T. set_at (mem\<lparr>pm_sets := s, pm_refs := h'\<rparr>) x = set_at mem x" using h(4) unfolding set by (simp add: set_at_def)
  qed (use h(1,3) k(1,3) set at in simp_all)
qed

section \<open>The first request for a group\<close>

lemma harvest_core:
  assumes "part_core P S N self mem adds" and "e \<in> set (table_entries (part_ht self))" and "\<not> harvested (entry_val e)"
    and "mset (table_entries (part_ht self)) = add_mset e M" and "mset (table_entries ht) = add_mset (e\<lparr>entry_val := 1 OR a\<rparr>) M"
    and "\<And>x. x \<in># M \<Longrightarrow> x \<in> set (table_entries (part_ht self)) \<and> x \<noteq> e" and "table_inv (key_view (pe_key P) mem) contents_hash ht"
    and "part_table ht" and "rows = group_of adds (entry_view P mem e)" and "R + live_refs (group_refs (pe_val P) rows) = part_refs P mem adds self"
    and "mem' = mem\<lparr>pm_bufs := (pm_bufs mem)(entry_val e := None), pm_sets := s, pm_refs := h\<rparr>"
    and "mem_ok (mem\<lparr>pm_sets := s, pm_refs := h\<rparr>) R (add_mset a (add_mset a (part_sets S self))) (pe_others P)"
    and "\<forall>b. data_at h b = data_at (pm_refs mem) b" and "\<forall>b \<in># part_sets S self. set_at mem' b = set_at mem b"
    and "set_at mem' a = group_set (pe_val P) rows" and "a \<notin># part_sets S self" and "\<not> harvested a"
    and "live_refs (rs_refs (group_set (pe_val P) rows)) = live_refs (group_refs (pe_val P) rows)"
    and "self' = self\<lparr>part_ht := ht, did_extract := True\<rparr>"
  shows "part_core P (add_mset a S) (N + 2) self' mem' adds"
    and "entry_view P mem' ` set (table_entries ht) = entry_view P mem ` set (table_entries (part_ht self))"
proof -
  note d = part_coreD [OF assms(1)]
  let ?T = "part_sets S self" and ?e = "e\<lparr>entry_val := 1 OR a\<rparr>" and ?es = "set (table_entries (part_ht self))"
  have mem': "pm_refs mem' = h" "pm_blocks mem' = pm_blocks mem" "pm_bufs mem' = (pm_bufs mem)(entry_val e := None)" "c_key mem' = c_key mem"
    "c_key2 mem' = c_key2 mem" "c_val mem' = c_val mem" by (simp_all add: assms(11))
  have self': "part_ht self' = ht" "empty_result self' = empty_result self" "did_extract self'" by (simp_all add: assms(19))
  have data: "\<forall>b. data_at (pm_refs mem') b = data_at (pm_refs mem) b" using assms(13) by (simp add: mem')
  have view: "key_view K mem' k = key_view K mem k" "key_cell K ks mem' k = key_cell K ks mem k" for K ks k
    by (rule view_same [OF data], simp add: mem')+
  have ins: "set (table_entries ht) = insert ?e (set_mset M)" "?es = insert e (set_mset M)"
    using arg_cong [OF assms(5), of set_mset] arg_cong [OF assms(4), of set_mset] by simp_all
  show "entry_view P mem' ` set (table_entries ht) = entry_view P mem ` ?es" by (simp add: ins view)
  have tag: "harvested (1 OR a)" "untag (1 OR a) = a" using harvested_tag [OF assms(17)] by simp_all
  have cost: "entry_cost P mem' adds = entry_cost P mem adds" by (rule ext) (simp add: entry_cost_def view mem')
  have cost_e: "entry_cost P mem adds e = entry_cost P mem adds ?e + live_refs (group_refs (pe_val P) rows)"
    using assms(3,9) tag by (simp add: entry_cost_def)
  have "part_refs P mem' adds self' + live_refs (group_refs (pe_val P) rows) = part_refs P mem adds self"
    unfolding part_refs_def self' assms(4,5) by (simp add: cost cost_e)
  then have refs: "part_refs P mem' adds self' = R" using assms(10) by (metis add_right_cancel)
  have sets: "part_sets (add_mset a S) self' = add_mset a (add_mset a ?T)"
    unfolding part_sets_def self' assms(4,5) using assms(3) tag by (simp add: entry_sets_def empty_sets_def self')
  have ok: "mem_ok mem' R (add_mset a (add_mset a ?T)) (pe_others P)"
    using assms(12) by (simp add: assms(11) mem_ok_def set_refs_def set_at_def)
  have "set_refs mem' (add_mset a (add_mset a ?T)) = set_refs mem' (add_mset a ?T)" by (simp add: set_refs_def)
  also have "\<dots> = live_refs (group_refs (pe_val P) rows) + set_refs mem' ?T" unfolding set_refs_remove [OF assms(16)] assms(15,18) by (rule refl)
  also have "set_refs mem' ?T = set_refs mem ?T" by (rule set_refs_cong) (use assms(14) in blast)
  finally have "size (R + set_refs mem' (add_mset a (add_mset a ?T))) = size (part_refs P mem adds self + set_refs mem ?T)"
    unfolding assms(10) [symmetric] by simp
  then have size: "size (R + set_refs mem' (add_mset a (add_mset a ?T))) + pe_others P + size (add_mset a (add_mset a ?T)) \<le> N + 2" using d(7) by simp
  have old: "untag (entry_val x) \<in># ?T" if "x \<in> ?es" "harvested (entry_val x)" for x
  proof -
    have "untag (entry_val x) \<in># (\<Sum>e \<in># mset (table_entries (part_ht self)). entry_sets e)" using that by (force simp: entry_sets_def)
    then show ?thesis by (simp add: part_sets_def)
  qed
  have vals: "entry_val x \<noteq> entry_val e" "entry_val x \<noteq> 1 OR a" if "x \<in># M" for x
  proof -
    show "entry_val x \<noteq> entry_val e" using assms(2,6) that d(5) by (auto simp: inj_on_def)
    show "entry_val x \<noteq> 1 OR a" using old [of x] assms(6) [OF that] tag assms(16) by force
  qed
  have ent: "entry_holds P mem' adds x" if x: "x \<in> set (table_entries ht)" for x
  proof (cases "x = ?e")
    case True
    moreover have "1 OR a \<noteq> 0"
    proof
      assume "1 OR a = 0"
      with tag(1) have "harvested 0" by (simp only:)
      then show False by (simp add: harvested_def)
    qed
    ultimately show ?thesis using core_entry [OF assms(1,2)] assms(9,15) tag by (auto simp: entry_holds_def val_holds_def view)
  next
    case False
    then have M: "x \<in># M" using x by (simp add: ins)
    then have x: "x \<in> ?es" using assms(6) by blast
    have "harvested (entry_val x) \<Longrightarrow> set_at mem' (untag (entry_val x)) = set_at mem (untag (entry_val x))" using old [OF x] assms(14) by blast
    then show ?thesis using core_entry [OF assms(1) x] vals(1) [OF M] by (auto simp: entry_holds_def val_holds_def view mem')
  qed
  show "part_core P (add_mset a S) (N + 2) self' mem' adds"
    unfolding part_core_def refs sets self'(1)
  proof (intro conjI)
    show "cur_size (c_key mem') = 0 \<and> adds = [] \<or> shapes_known P mem'" using d(2) by (simp add: shapes_known_def mem')
    show "table_inv (key_view (pe_key P) mem') contents_hash ht" using assms(7) by (rule table_inv_cong) (simp add: view)
    show "\<forall>x \<in> set (table_entries ht). entry_holds P mem' adds x" using ent by blast
    show "inj_on entry_val (set (table_entries ht))" using d(5) vals by (auto simp: ins inj_on_def) (metis vals(2))
    show "dom (pm_bufs mem') = {v \<in> entry_val ` set (table_entries ht). \<not> harvested v}" using d(10) assms(3) tag by (auto simp: ins mem' dest: vals(1))
    show "dom (pm_blocks mem') = dom (pe_blocks P) \<union> entry_key ` set (table_entries ht)" using d(8) by (simp add: ins mem')
    show "adds_ok P mem' adds" using d(11) all_data(1) [OF data] by (simp add: adds_ok_def rows_good_def)
    show "empty_result self' \<noteq> 0 \<longrightarrow> rs_count (set_at mem' (empty_result self')) = 0 \<and> rs_data (set_at mem' (empty_result self')) = []"
      using d(12) assms(14) by (simp add: self' part_sets_def empty_sets_def)
  qed (use d assms(8) ok size self' in \<open>simp_all add: mem'\<close>)
qed

lemma extract_harvest:
  assumes "part_rep P S N self mem adds" and "env_ok P" and "shapes_known P mem" and "i < length (ht_payload (part_ht self))"
    and "e = ht_payload (part_ht self) ! i" and "e \<in> set (table_entries (part_ht self))" and "\<not> harvested (entry_val e)" and "sets_fresh al mem"
    and "N + 2 < 2 ^ 31" and "rows = group_of adds (entry_view P mem e)" and "rows \<noteq> []"
  shows "extracts P S N adds mem rows (partition_harvest al i (self\<lparr>did_extract := True\<rparr>) mem)"
proof -
  note core = part_repD(1) [OF assms(1)]
  note d = part_coreD [OF core]
  let ?V = "pe_val P" and ?a = "result_at al" and ?T = "part_sets S self" and ?b = "(pm_bufs mem)(entry_val e := None)"
  define ht where "ht = set_entry_val (part_ht self) i (1 OR ?a)"
  obtain M where M: "mset (table_entries (part_ht self)) = add_mset e M" "mset (table_entries ht) = add_mset (e\<lparr>entry_val := 1 OR ?a\<rparr>) M"
    "\<And>x. x \<in># M \<Longrightarrow> x \<in> set (table_entries (part_ht self)) \<and> x \<noteq> e" "table_inv (key_view (pe_key P) mem) contents_hash ht" "part_table ht"
    using harvest_entries [OF core assms(4-6) refl ht_def] by blast
  obtain buf where buf: "pm_bufs mem (entry_val e) = Some buf" "cql_bytebuf_inv buf" "cql_bytebuf_contents buf = concat rows" and nz: "entry_val e \<noteq> 0"
    using core_entry(3) [OF core assms(6)] assms(7,10) by (auto simp: val_holds_def)
  have good: "rows_good ?V (pe_val_kinds P) mem rows" unfolding assms(10) by (rule group_good [OF d(11)])
  have V: "cur_size ?V \<noteq> 0" "c_val mem = ?V" using assms(2,3) by (simp_all add: env_ok_def shapes_known_def)
  have len: "length (concat rows) < 2 ^ 29" using group_length [of adds "entry_view P mem e"] d(11) assms(10) by (simp add: adds_ok_def)
  have "0 < unat (cur_size ?V)" using V(1) by (simp add: unat_gt_0)
  then have "length rows \<le> length (concat rows)" using rows_block(3) [OF good] by simp
  then have n: "length rows < 2 ^ 31" "length (concat rows) < 2 ^ 64" using len by simp_all
  have fresh: "?a \<notin># ?T" "?a \<noteq> 0" "\<not> harvested ?a" using assms(8) mem_okD(3) [OF d(6)] by (auto simp: sets_fresh_def)
  define R where "R = pe_refs P + live_refs (cursor_refs (pe_key P) (the (pm_blocks mem (entry_key e)))) + (\<Sum>x \<in># M. entry_cost P mem adds x)"
  have R: "R + live_refs (group_refs ?V rows) = part_refs P mem adds self"
    unfolding part_refs_def M(1) R_def using assms(7,10) by (simp add: entry_cost_def ac_simps)
  have bd: "size (R + live_refs (group_refs ?V rows) + set_refs mem ?T) + pe_others P + size ?T + 2 < 2 ^ 31" unfolding R using d(7) assms(9) by simp
  obtain s h where m: "cql_object_retain ?a (new_result_set ?a (concat rows) (of_nat (length rows)) (val_meta ?V) (mem\<lparr>pm_bufs := ?b\<rparr>)) =
      Some (mem\<lparr>pm_bufs := ?b, pm_sets := s, pm_refs := h\<rparr>)" "mem_ok (mem\<lparr>pm_sets := s, pm_refs := h\<rparr>) R (add_mset ?a (add_mset ?a ?T)) (pe_others P)"
    "\<forall>b. data_at h b = data_at (pm_refs mem) b" "\<forall>b \<in># ?T. set_at (mem\<lparr>pm_sets := s, pm_refs := h\<rparr>) b = set_at mem b"
    "set_at (mem\<lparr>pm_sets := s, pm_refs := h\<rparr>) ?a = group_set ?V rows"
    using harvest_memory [OF d(6) [folded R] good n fresh(1,2) bd, of ?b] by blast
  define mem' where "mem' = mem\<lparr>pm_bufs := ?b, pm_sets := s, pm_refs := h\<rparr>"
  let ?self = "self\<lparr>part_ht := ht, did_extract := True\<rparr>"
  have at: "set_at mem' x = set_at (mem\<lparr>pm_sets := s, pm_refs := h\<rparr>) x" for x by (simp add: mem'_def set_at_def)
  have same: "\<forall>b \<in># ?T. set_at mem' b = set_at mem b" using m(4) by (simp add: at)
  have new: "set_at mem' ?a = group_set ?V rows" using m(5) by (simp add: at)
  have live: "live_refs (rs_refs (group_set ?V rows)) = live_refs (group_refs ?V rows)" using group_set_ok(2) [OF good n] by simp
  note step = harvest_core [OF core assms(6,7) M assms(10) R mem'_def m(2,3) same new fresh(1,3) live refl]
  have rep: "part_rep P (add_mset ?a S) (N + 2) ?self mem' adds" using step part_repD(2) [OF assms(1)] by (simp add: part_rep_def)
  have "partition_harvest al i (self\<lparr>did_extract := True\<rparr>) mem = Some (?a, ?self, mem')"
    using nz buf m(1) harvest_meta [OF assms(2) refl] harvest_count [OF buf(2,3) good V(1)] V(2)
    by (simp add: partition_harvest_def assms(5) [symmetric] bind_require Let_def ht_def mem'_def)
  moreover have "\<forall>a. data_at (pm_refs mem') a = data_at (pm_refs mem) a" using m(3) by (simp add: mem'_def)
  moreover have "\<forall>a \<in># S. set_at mem' a = set_at mem a" using same by (simp add: part_sets_def)
  ultimately show ?thesis
    unfolding extracts_def using rep new by (intro exI [of _ ?a] exI [of _ ?self] exI [of _ mem']) (simp add: group_set_def)
qed

section \<open>Extracting a group\<close>

lemma rep_extract:
  assumes "part_rep P S N self mem adds" and "env_ok P" and "cursor_ok P mem (pe_key P) (pe_kinds P) key" and "sets_fresh al mem"
    and "N + 2 < 2 ^ 31"
  shows "extracts P S N adds mem (group_of adds (cursor_view P mem key)) (cql_extract_partition al self key mem)"
proof (cases "cur_size (c_key mem) = 0")
  case True
  then have "adds = []" using part_coreD(2) [OF part_repD(1) [OF assms(1)]] assms(2) by (auto simp: shapes_known_def env_ok_def)
  then show ?thesis using extract_empty [OF assms(1,4,5)] True by (simp add: cql_extract_partition_def group_of_def Let_def)
next
  case False
  note core = part_repD(1) [OF assms(1)]
  have sh: "shapes_known P mem" using part_coreD(2) [OF core] False by blast
  have "cursor_shape key = pe_key P" using assms(3) by (simp add: cursor_ok_def)
  note f = shape_fields [OF this]
  have known: "same_shape (c_key mem) key" "cur_size (c_val mem) \<noteq> 0" "c_key mem = pe_key P"
    using sh f assms(2) by (simp_all add: shapes_known_def same_shape_def env_ok_def)
  let ?self = "self\<lparr>did_extract := True\<rparr>" and ?c = "cursor_view P mem key"
  have run: "cql_extract_partition al self key mem =
      do { entry \<leftarrow> cql_hashtab_find (part_ht self) (cur_at key) mem;
           case entry of
             Some i \<Rightarrow> if harvested (entry_val (ht_payload (part_ht self) ! i))
               then do { mem \<leftarrow> cql_object_retain (untag (entry_val (ht_payload (part_ht self) ! i))) mem;
                         Some (untag (entry_val (ht_payload (part_ht self) ! i)), ?self, mem) }
               else partition_harvest al i ?self mem
           | None \<Rightarrow> partition_empty al ?self mem }"
  proof (cases "cql_hashtab_find (part_ht self) (cur_at key) mem")
    case (Some entry)
    then show ?thesis using False known by (cases entry) (simp_all add: cql_extract_partition_def bind_require Let_def)
  qed (use False known in \<open>simp add: cql_extract_partition_def bind_require\<close>)
  from core assms(2) sh assms(3) show ?thesis
  proof (cases rule: core_find)
    case (found i)
    let ?e = "ht_payload (part_ht self) ! i"
    have "?c \<in> fst ` set adds" using found(2,3) part_repD(2) [OF assms(1)] by force
    then have ne: "group_of adds ?c \<noteq> []" by (force simp: group_of_def filter_empty_conv)
    show ?thesis
    proof (cases "harvested (entry_val ?e)")
      case True
      then show ?thesis using extract_again [OF assms(1) found(2) True assms(5) refl] found(3,4) by (simp add: run)
    next
      case nh: False
      have "extracts P S N adds mem (group_of adds ?c) (partition_harvest al i ?self mem)"
        by (rule extract_harvest [OF assms(1,2) sh found(1) refl found(2) nh assms(4,5)]) (use found(3) ne in simp_all)
      then show ?thesis using nh found(4) by (simp add: run)
    qed
  next
    case absent
    have "?c \<notin> fst ` set adds" using absent(2) unfolding part_repD(2) [OF assms(1), symmetric] by force
    then have "group_of adds ?c = []" unfolding group_of_def by (metis (mono_tags, lifting) filter_False image_eqI list.map(1))
    then show ?thesis using extract_empty [OF assms(1,4,5)] absent(1) by (simp add: run)
  qed
qed

end
