(* ===== verification/Partition_Release.thy ===== *)
theory Partition_Release
  imports Partition_Harvest
begin

text \<open>
  Finalizing a partition: the keys, the buffers that were not extracted and the references to result
  sets are released, and nothing else.
\<close>

lemma set_refs_in: "b \<in># set_refs mem T \<longleftrightarrow> (\<exists>a \<in># T. b \<in># live_refs (rs_refs (set_at mem a)))"
proof -
  have "finite A \<Longrightarrow> b \<in># (\<Sum>a \<in> A. f a) \<longleftrightarrow> (\<exists>a \<in> A. b \<in># f a)" for A and f :: "i64 \<Rightarrow> i64 multiset"
    by (induction A rule: finite_induct) auto
  then show ?thesis by (simp add: set_refs_def)
qed

lemma same_data_trans:
  "same_data R mem mem1 \<Longrightarrow> same_data R' mem1 mem2 \<Longrightarrow> set_mset R'' \<subseteq> set_mset R \<Longrightarrow> set_mset R'' \<subseteq> set_mset R' \<Longrightarrow> same_data R'' mem mem2"
  unfolding same_data_def by (metis subsetD)

lemma release_cursor:
  assumes "row_good K ks mem b" and "release_all (cursor_refs K b) h = Some h'"
  shows "\<exists>b'. (if cur_refs_count K \<noteq> 0 then cql_release_offsets b (cur_refs_count K) (cur_refs_offset K) h else Some (b, h)) = Some (b', h')"
proof (cases "cur_refs_count K = 0")
  case True
  then show ?thesis using assms(2) by (simp add: cursor_refs_def)
next
  case False
  have "refs_fit b (unat (cur_refs_count K)) (cur_refs_offset K)" using row_ok_fit [OF assms(1) [unfolded row_good_def] False] .
  then show ?thesis using False release_offsets_all assms(2) unfolding cursor_refs_def by fastforce
qed

lemma release_group:
  assumes "rows_good V ks mem rows" and "release_all (group_refs V rows) h = Some h'"
  shows "(if cur_refs_count V \<noteq> 0 then release_rows_loop (length rows) (cur_refs_count V) (cur_refs_offset V) (cur_size V) (concat rows) h else Some h) = Some h'"
proof (cases "cur_refs_count V = 0")
  case True
  then have "group_refs V rows = []" by (induction rows) (simp_all add: group_refs_def cursor_refs_def)
  then show ?thesis using True assms(2) by simp
next
  case False
  note b = rows_block [OF assms(1)]
  have "release_rows_loop (length rows) (refsCount (val_meta V)) (refsOffset (val_meta V)) (rowsize (val_meta V)) (concat rows) h = Some h'"
    by (rule release_rows_all [OF b(1)]) (use False b(2) assms(2) in \<open>simp_all add: val_meta_def\<close>)
  then show ?thesis using False by (simp add: val_meta_def)
qed

text \<open>One key and one value.\<close>

lemma key_release_ok:
  assumes "mem_ok mem (R + live_refs (cursor_refs (c_key mem) b)) T m" and "pm_blocks mem k = Some b" and "row_good (c_key mem) ks mem0 b"
  shows "\<exists>h. cql_partition_key_release k mem = Some (mem\<lparr>pm_blocks := (pm_blocks mem)(k := None), pm_refs := h\<rparr>) \<and>
    mem_ok (mem\<lparr>pm_blocks := (pm_blocks mem)(k := None), pm_refs := h\<rparr>) R T m \<and>
    same_data (R + set_refs mem T) mem (mem\<lparr>pm_blocks := (pm_blocks mem)(k := None), pm_refs := h\<rparr>)"
proof -
  obtain h where h: "release_all (cursor_refs (c_key mem) b) (pm_refs mem) = Some h" "mem_ok (mem\<lparr>pm_refs := h\<rparr>) R T m"
    "same_data (R + set_refs mem T) mem (mem\<lparr>pm_refs := h\<rparr>)"
    using mem_release [OF assms(1)] by blast
  obtain b' where "(if cur_refs_count (c_key mem) \<noteq> 0 then cql_release_offsets b (cur_refs_count (c_key mem)) (cur_refs_offset (c_key mem)) (pm_refs mem)
      else Some (b, pm_refs mem)) = Some (b', h)"
    using release_cursor [OF assms(3) h(1)] by blast
  then have "cql_partition_key_release k mem = Some (mem\<lparr>pm_blocks := (pm_blocks mem)(k := None), pm_refs := h\<rparr>)"
    using assms(2) by (simp add: cql_partition_key_release_def)
  moreover have "mem_ok (mem\<lparr>pm_blocks := (pm_blocks mem)(k := None), pm_refs := h\<rparr>) R T m"
    using h(2) by (simp add: mem_ok_def set_refs_def set_at_def)
  ultimately show ?thesis using h(3) by (intro exI [of _ h]) (simp add: same_data_def)
qed

lemma val_release_buffer:
  assumes "\<not> harvested v" and "pm_bufs mem v = Some buf" and "cql_bytebuf_inv buf" and "cql_bytebuf_contents buf = concat rows"
    and "rows_good (c_val mem) ks mem0 rows" and "cur_size (c_val mem) \<noteq> 0" and "mem_ok mem (R + live_refs (group_refs (c_val mem) rows)) T m"
  shows "\<exists>h. cql_partition_val_release v mem = Some (mem\<lparr>pm_bufs := (pm_bufs mem)(v := None), pm_refs := h\<rparr>) \<and>
    mem_ok (mem\<lparr>pm_bufs := (pm_bufs mem)(v := None), pm_refs := h\<rparr>) R T m \<and>
    same_data (R + set_refs mem T) mem (mem\<lparr>pm_bufs := (pm_bufs mem)(v := None), pm_refs := h\<rparr>)"
proof -
  obtain h where h: "release_all (group_refs (c_val mem) rows) (pm_refs mem) = Some h" "mem_ok (mem\<lparr>pm_refs := h\<rparr>) R T m"
    "same_data (R + set_refs mem T) mem (mem\<lparr>pm_refs := h\<rparr>)"
    using mem_release [OF assms(7)] by blast
  note n = rows_in_count(2) [OF assms(3,4) rows_block(3) [OF assms(5)] assms(6)]
  have "cql_partition_val_release v mem = Some (mem\<lparr>pm_bufs := (pm_bufs mem)(v := None), pm_refs := h\<rparr>)"
    using assms(1,2,4) release_group [OF assms(5) h(1)] n by (cases "cur_refs_count (c_val mem) = 0") (auto simp: cql_partition_val_release_def Let_def)
  moreover have "mem_ok (mem\<lparr>pm_bufs := (pm_bufs mem)(v := None), pm_refs := h\<rparr>) R T m"
    using h(2) by (simp add: mem_ok_def set_refs_def set_at_def)
  ultimately show ?thesis using h(3) by (intro exI [of _ h]) (simp add: same_data_def)
qed

lemma val_release_set:
  assumes "harvested v" and "mem_ok mem R (add_mset (untag v) T) m"
  shows "\<exists>h s. cql_partition_val_release v mem = Some (mem\<lparr>pm_sets := s, pm_refs := h\<rparr>) \<and> mem_ok (mem\<lparr>pm_sets := s, pm_refs := h\<rparr>) R T m \<and>
    same_data (R + set_refs mem T) mem (mem\<lparr>pm_sets := s, pm_refs := h\<rparr>) \<and> (\<forall>b \<in># T. set_at (mem\<lparr>pm_sets := s, pm_refs := h\<rparr>) b = set_at mem b)"
  using object_release_ok [OF assms(2)] assms(1) by (simp add: cql_partition_val_release_def)

section \<open>All entries\<close>

text \<open>What an entry holds: the bytes of its key, and its rows unless they were extracted.\<close>

definition entry_left :: "cql_row_cursor \<Rightarrow> cql_row_cursor \<Rightarrow> bool list \<Rightarrow> bool list \<Rightarrow> part_mem \<Rightarrow> (cql_hashtab_entry \<Rightarrow> u8 list) \<Rightarrow>
    (cql_hashtab_entry \<Rightarrow> u8 list list) \<Rightarrow> part_mem \<Rightarrow> cql_hashtab_entry \<Rightarrow> bool" where
  "entry_left K V ks vks mem0 kb rows mem e \<longleftrightarrow> pm_blocks mem (entry_key e) = Some (kb e) \<and> row_good K ks mem0 (kb e) \<and>
     (\<not> harvested (entry_val e) \<longrightarrow> rows_good V vks mem0 (rows e) \<and>
       (\<exists>buf. pm_bufs mem (entry_val e) = Some buf \<and> cql_bytebuf_inv buf \<and> cql_bytebuf_contents buf = concat (rows e)))"

definition left_refs :: "cql_row_cursor \<Rightarrow> cql_row_cursor \<Rightarrow> (cql_hashtab_entry \<Rightarrow> u8 list) \<Rightarrow> (cql_hashtab_entry \<Rightarrow> u8 list list) \<Rightarrow>
    cql_hashtab_entry \<Rightarrow> i64 multiset" where
  "left_refs K V kb rows e = live_refs (cursor_refs K (kb e)) + (if harvested (entry_val e) then {#} else live_refs (group_refs V (rows e)))"

lemma release_one:
  assumes "entry_left K V ks vks mem0 kb rows mem e" and "c_key mem = K" and "c_val mem = V" and "cur_size V \<noteq> 0"
    and "mem_ok mem (R + left_refs K V kb rows e) (T + entry_sets e) m"
  shows "\<exists>mem'. (do { mem \<leftarrow> cql_partition_key_release (entry_key e) mem; cql_partition_val_release (entry_val e) mem }) = Some mem' \<and>
    mem_ok mem' R T m \<and> pm_blocks mem' = (pm_blocks mem)(entry_key e := None) \<and>
    pm_bufs mem' = (if harvested (entry_val e) then pm_bufs mem else (pm_bufs mem)(entry_val e := None)) \<and>
    c_key mem' = K \<and> c_val mem' = V \<and> same_data (R + set_refs mem T) mem mem' \<and> (\<forall>b \<in># T. set_at mem' b = set_at mem b)"
proof -
  let ?v = "entry_val e" and ?k = "entry_key e"
  define L where "L = (if harvested ?v then {#} else live_refs (group_refs V (rows e)))"
  have ok: "mem_ok mem (R + L + live_refs (cursor_refs (c_key mem) (kb e))) (T + entry_sets e) m"
    using assms(2,5) by (simp add: left_refs_def L_def ac_simps)
  have b: "pm_blocks mem ?k = Some (kb e)" "row_good (c_key mem) ks mem0 (kb e)" using assms(1,2) by (simp_all add: entry_left_def)
  obtain h where h: "cql_partition_key_release ?k mem = Some (mem\<lparr>pm_blocks := (pm_blocks mem)(?k := None), pm_refs := h\<rparr>)"
    "mem_ok (mem\<lparr>pm_blocks := (pm_blocks mem)(?k := None), pm_refs := h\<rparr>) (R + L) (T + entry_sets e) m"
    "same_data (R + L + set_refs mem (T + entry_sets e)) mem (mem\<lparr>pm_blocks := (pm_blocks mem)(?k := None), pm_refs := h\<rparr>)"
    using key_release_ok [OF ok b] by blast
  let ?m = "mem\<lparr>pm_blocks := (pm_blocks mem)(?k := None), pm_refs := h\<rparr>"
  have at: "set_at ?m x = set_at mem x" for x by (simp add: set_at_def)
  have refs: "set_refs ?m T = set_refs mem T" by (rule set_refs_cong [OF at])
  have sub: "set_mset (R + set_refs mem T) \<subseteq> set_mset (R + L + set_refs mem (T + entry_sets e))" by (auto simp: set_refs_in)
  show ?thesis
  proof (cases "harvested ?v")
    case True
    have "mem_ok ?m R (add_mset (untag ?v) T) m" using h(2) True by (simp add: L_def entry_sets_def)
    from val_release_set [OF True this] obtain h2 s where v: "cql_partition_val_release ?v ?m = Some (?m\<lparr>pm_sets := s, pm_refs := h2\<rparr>)"
      "mem_ok (?m\<lparr>pm_sets := s, pm_refs := h2\<rparr>) R T m" "same_data (R + set_refs ?m T) ?m (?m\<lparr>pm_sets := s, pm_refs := h2\<rparr>)"
      "\<forall>b \<in># T. set_at (?m\<lparr>pm_sets := s, pm_refs := h2\<rparr>) b = set_at ?m b" by blast
    have "same_data (R + set_refs mem T) mem (?m\<lparr>pm_sets := s, pm_refs := h2\<rparr>)"
      by (rule same_data_trans [OF h(3) v(3) sub]) (simp add: refs)
    then show ?thesis using v h(1) at True assms(2,3) by (intro exI [of _ "?m\<lparr>pm_sets := s, pm_refs := h2\<rparr>"]) simp
  next
    case False
    obtain buf where buf: "pm_bufs ?m ?v = Some buf" "cql_bytebuf_inv buf" "cql_bytebuf_contents buf = concat (rows e)"
      using assms(1) False by (auto simp: entry_left_def)
    have good: "rows_good (c_val ?m) vks mem0 (rows e)" "cur_size (c_val ?m) \<noteq> 0" using assms(1,3,4) False by (simp_all add: entry_left_def)
    have "mem_ok ?m (R + live_refs (group_refs (c_val ?m) (rows e))) T m" using h(2) False assms(3) by (simp add: L_def entry_sets_def)
    from val_release_buffer [OF False buf good this] obtain h2 where v: "cql_partition_val_release ?v ?m = Some (?m\<lparr>pm_bufs := (pm_bufs ?m)(?v := None), pm_refs := h2\<rparr>)"
      "mem_ok (?m\<lparr>pm_bufs := (pm_bufs ?m)(?v := None), pm_refs := h2\<rparr>) R T m"
      "same_data (R + set_refs ?m T) ?m (?m\<lparr>pm_bufs := (pm_bufs ?m)(?v := None), pm_refs := h2\<rparr>)" by blast
    have "same_data (R + set_refs mem T) mem (?m\<lparr>pm_bufs := (pm_bufs ?m)(?v := None), pm_refs := h2\<rparr>)"
      by (rule same_data_trans [OF h(3) v(3) sub]) (simp add: refs)
    then show ?thesis using v h(1) False assms(2,3)
      by (intro exI [of _ "?m\<lparr>pm_bufs := (pm_bufs ?m)(?v := None), pm_refs := h2\<rparr>"]) (simp add: set_at_def)
  qed
qed

lemma release_entries_ok:
  assumes "release_key ht = cql_partition_key_release" and "release_val ht = cql_partition_val_release"
    and "\<forall>e \<in> set es. entry_left K V ks vks mem0 kb rows mem e" and "distinct (map entry_key es)" and "distinct (map entry_val es)"
    and "c_key mem = K" and "c_val mem = V" and "es \<noteq> [] \<longrightarrow> cur_size V \<noteq> 0"
    and "mem_ok mem (R + (\<Sum>e \<in># mset es. left_refs K V kb rows e)) (T + (\<Sum>e \<in># mset es. entry_sets e)) m"
  shows "\<exists>mem'. release_entries ht es mem = Some mem' \<and> mem_ok mem' R T m \<and> pm_blocks mem' = pm_blocks mem |` (- entry_key ` set es) \<and>
    pm_bufs mem' = pm_bufs mem |` (- {v \<in> entry_val ` set es. \<not> harvested v}) \<and>
    same_data (R + set_refs mem T) mem mem' \<and> (\<forall>b \<in># T. set_at mem' b = set_at mem b)"
  using assms(3-)
proof (induction es arbitrary: mem)
  case Nil
  then show ?case by (simp add: same_data_def restrict_map_def)
next
  case (Cons e es)
  let ?R = "R + (\<Sum>e \<in># mset es. left_refs K V kb rows e)" and ?T = "T + (\<Sum>e \<in># mset es. entry_sets e)"
  have e: "entry_left K V ks vks mem0 kb rows mem e" "cur_size V \<noteq> 0" using Cons.prems(1,6) by simp_all
  have ok: "mem_ok mem (?R + left_refs K V kb rows e) (?T + entry_sets e) m" using Cons.prems(7) by (simp add: ac_simps)
  obtain mem1 where one: "(do { mem \<leftarrow> cql_partition_key_release (entry_key e) mem; cql_partition_val_release (entry_val e) mem }) = Some mem1"
    "mem_ok mem1 ?R ?T m" "pm_blocks mem1 = (pm_blocks mem)(entry_key e := None)"
    "pm_bufs mem1 = (if harvested (entry_val e) then pm_bufs mem else (pm_bufs mem)(entry_val e := None))"
    "c_key mem1 = K" "c_val mem1 = V" "same_data (?R + set_refs mem ?T) mem mem1" "\<forall>b \<in># ?T. set_at mem1 b = set_at mem b"
    using release_one [OF e(1) Cons.prems(4,5) e(2) ok] by blast
  have left: "\<forall>x \<in> set es. entry_left K V ks vks mem0 kb rows mem1 x"
  proof
    fix x assume x: "x \<in> set es"
    then have "entry_key x \<noteq> entry_key e" "entry_val x \<noteq> entry_val e" using Cons.prems(2,3) by (simp_all, (metis image_eqI)+)
    moreover have "entry_left K V ks vks mem0 kb rows mem x" using Cons.prems(1) x by simp
    ultimately show "entry_left K V ks vks mem0 kb rows mem1 x" by (simp add: entry_left_def one(3,4))
  qed
  have dist: "distinct (map entry_key es)" "distinct (map entry_val es)" using Cons.prems(2,3) by simp_all
  obtain mem' where rest: "release_entries ht es mem1 = Some mem'" "mem_ok mem' R T m" "pm_blocks mem' = pm_blocks mem1 |` (- entry_key ` set es)"
    "pm_bufs mem' = pm_bufs mem1 |` (- {v \<in> entry_val ` set es. \<not> harvested v})" "same_data (R + set_refs mem1 T) mem1 mem'"
    "\<forall>b \<in># T. set_at mem' b = set_at mem1 b"
    using Cons.IH [OF left dist one(5,6) _ one(2)] Cons.prems(6) by auto
  have refs: "set_refs mem1 T = set_refs mem T" by (rule set_refs_cong) (use one(8) in simp)
  have "same_data (R + set_refs mem T) mem mem'"
    by (rule same_data_trans [OF one(7) rest(5)]) (auto simp: refs set_refs_in)
  moreover have "release_entries ht (e # es) mem = Some mem'"
    using one(1) rest(1) by (auto simp: assms(1,2) bind_eq_Some_conv)
  moreover have "pm_blocks mem' = pm_blocks mem |` (- entry_key ` set (e # es))"
    unfolding rest(3) one(3) by (auto simp: restrict_map_def fun_eq_iff)
  moreover have "pm_bufs mem' = pm_bufs mem |` (- {v \<in> entry_val ` set (e # es). \<not> harvested v})"
    unfolding rest(4) one(4) by (auto simp: restrict_map_def fun_eq_iff)
  ultimately show ?case using rest(2,6) one(8) by (intro exI [of _ mem']) simp
qed

section \<open>Finalizing\<close>

lemma rep_finalize:
  assumes "part_rep P S N self mem adds" and "env_ok P"
  shows "\<exists>mem'. cql_partition_finalize self mem = Some mem' \<and> mem_ok mem' (pe_refs P) S (pe_others P) \<and> pm_blocks mem' = pe_blocks P \<and>
    pm_bufs mem' = Map.empty \<and> same_data (pe_refs P + set_refs mem S) mem mem' \<and> (\<forall>b \<in># S. set_at mem' b = set_at mem b)"
proof -
  note core = part_repD(1) [OF assms(1)]
  note d = part_coreD [OF core]
  let ?es = "table_entries (part_ht self)"
  define kb where "kb = (\<lambda>e :: cql_hashtab_entry. the (pm_blocks mem (entry_key e)))"
  define rows where "rows = (\<lambda>e :: cql_hashtab_entry. group_of adds (entry_view P mem e))"
  define ht where "ht = (part_ht self)\<lparr>release_key := cql_partition_key_release, release_val := cql_partition_val_release\<rparr>"
  have es: "table_entries ht = ?es" "ht_payload ht = ht_payload (part_ht self)" by (simp_all add: ht_def table_entries_def)
  have sh: "?es = [] \<or> c_key mem = pe_key P \<and> c_val mem = pe_val P"
    using d(2) part_repD(2) [OF assms(1)] by (auto simp: shapes_known_def)
  let ?K = "c_key mem" and ?V = "c_val mem" and ?U = "S + (\<Sum>e \<in># mset ?es. entry_sets e)"
  have "left_refs ?K ?V kb rows e = entry_cost P mem adds e" if "e \<in> set ?es" for e
    using that sh by (auto simp: left_refs_def entry_cost_def kb_def rows_def)
  then have "(\<Sum>e \<in># mset ?es. left_refs ?K ?V kb rows e) = (\<Sum>e \<in># mset ?es. entry_cost P mem adds e)" by (rule sum_same)
  then have refs: "part_refs P mem adds self = pe_refs P + (\<Sum>e \<in># mset ?es. left_refs ?K ?V kb rows e)" by (simp add: part_refs_def)
  have sets: "part_sets S self = ?U + empty_sets self" by (simp add: part_sets_def)
  have "\<exists>s h. (if empty_result self \<noteq> 0 then cql_object_release (empty_result self) mem else Some mem) = Some (mem\<lparr>pm_sets := s, pm_refs := h\<rparr>) \<and>
      mem_ok (mem\<lparr>pm_sets := s, pm_refs := h\<rparr>) (part_refs P mem adds self) ?U (pe_others P) \<and>
      same_data (part_refs P mem adds self + set_refs mem ?U) mem (mem\<lparr>pm_sets := s, pm_refs := h\<rparr>) \<and>
      (\<forall>b \<in># ?U. set_at (mem\<lparr>pm_sets := s, pm_refs := h\<rparr>) b = set_at mem b)"
  proof (cases "empty_result self = 0")
    case True
    then show ?thesis using d(6) unfolding sets
      by (intro exI [of _ "pm_sets mem"] exI [of _ "pm_refs mem"]) (simp add: empty_sets_def same_data_def)
  next
    case False
    have "mem_ok mem (part_refs P mem adds self) (add_mset (empty_result self) ?U) (pe_others P)"
      using d(6) False unfolding sets by (simp add: empty_sets_def)
    then show ?thesis using object_release_ok False by (simp only: if_True simp_thms) blast
  qed
  then obtain s h where one: "(if empty_result self \<noteq> 0 then cql_object_release (empty_result self) mem else Some mem) = Some (mem\<lparr>pm_sets := s, pm_refs := h\<rparr>)"
    "mem_ok (mem\<lparr>pm_sets := s, pm_refs := h\<rparr>) (part_refs P mem adds self) ?U (pe_others P)"
    "same_data (part_refs P mem adds self + set_refs mem ?U) mem (mem\<lparr>pm_sets := s, pm_refs := h\<rparr>)"
    "\<forall>b \<in># ?U. set_at (mem\<lparr>pm_sets := s, pm_refs := h\<rparr>) b = set_at mem b" by blast
  let ?m = "mem\<lparr>pm_sets := s, pm_refs := h\<rparr>"
  have left: "\<forall>e \<in> set ?es. entry_left ?K ?V (pe_kinds P) (pe_val_kinds P) mem kb rows ?m e"
  proof
    fix e assume e: "e \<in> set ?es"
    then have KV: "?K = pe_key P" "?V = pe_val P" using sh by auto
    show "entry_left ?K ?V (pe_kinds P) (pe_val_kinds P) mem kb rows ?m e"
      using core_entry [OF core e] group_good [OF d(11)] by (auto simp: entry_left_def KV kb_def rows_def key_cell_def val_holds_def)
  qed
  have vs: "distinct (map (entry_view P mem) ?es)" using entries_distinct_views [OF d(3)] by (simp add: comp_def)
  have keys: "distinct (map entry_key ?es)"
    using vs by (auto simp: distinct_map inj_on_def)
  have vals: "distinct (map entry_val ?es)" using d(5) core_distinct [OF core] by (simp add: distinct_map)
  have V: "?es \<noteq> [] \<longrightarrow> cur_size ?V \<noteq> 0" using sh assms(2) by (auto simp: env_ok_def)
  have fns: "release_key ht = cql_partition_key_release" "release_val ht = cql_partition_val_release" by (simp_all add: ht_def)
  have "c_key ?m = ?K" "c_val ?m = ?V" by simp_all
  from release_entries_ok [OF fns left keys vals this V one(2) [unfolded refs]]
  obtain mem' where r: "release_entries ht ?es ?m = Some mem'" "mem_ok mem' (pe_refs P) S (pe_others P)"
    "pm_blocks mem' = pm_blocks ?m |` (- entry_key ` set ?es)" "pm_bufs mem' = pm_bufs ?m |` (- {v \<in> entry_val ` set ?es. \<not> harvested v})"
    "same_data (pe_refs P + set_refs ?m S) ?m mem'" "\<forall>b \<in># S. set_at mem' b = set_at ?m b" by blast
  have "entry_key e = 0 \<longleftrightarrow> entry_val e = 0" if "e \<in> set (ht_payload ht)" for e
  proof (cases "entry_key e = 0")
    case True
    then show ?thesis using table_invD(6) [OF d(3)] that by (simp add: es)
  next
    case False
    then have "e \<in> set ?es" using that by (simp add: es table_entries_def)
    then show ?thesis using core_entry(3) [OF core] False by (simp add: val_holds_def)
  qed
  then have "cql_hashtab_delete ht ?m = Some mem'" using delete_entries r(1) es(1) by metis
  then have "cql_partition_finalize self mem = Some mem'" using one(1) by (simp add: cql_partition_finalize_def ht_def Let_def)
  moreover have "pm_blocks mem' = pe_blocks P"
  proof
    fix a show "pm_blocks mem' a = pe_blocks P a"
    proof (cases "a \<in> dom (pe_blocks P)")
      case True
      then have "a \<notin> entry_key ` set ?es" using core_entry(2) [OF core] by blast
      then show ?thesis using True d(9) by (simp add: r(3))
    next
      case False
      then show ?thesis using d(8) by (auto simp: r(3) restrict_map_def domIff)
    qed
  qed
  moreover have "pm_bufs mem' = Map.empty" using d(10) by (auto simp: r(4) restrict_map_def fun_eq_iff domIff)
  moreover have "set_refs ?m S = set_refs mem S" by (rule set_refs_cong) (use one(4) in simp)
  then have "same_data (pe_refs P + set_refs mem S) mem mem'"
    by (intro same_data_trans [OF one(3) r(5)]) (auto simp: part_refs_def set_refs_in)
  ultimately show ?thesis using r(2,6) one(4) by (intro exI [of _ mem']) simp
qed

end
