(* ===== verification/Partition_Props.thy ===== *)
theory Partition_Props
  imports Partition_Release
begin

text \<open>
  Whole lives of partitions: rows are added, groups are extracted, the partition is finalized and the results are
  released.
\<close>

section \<open>Adding rows\<close>

type_synonym part_row = "part_addrs \<times> cql_cursor_at \<times> cql_cursor_at"

fun add_rows :: "part_row list \<Rightarrow> cql_partition \<Rightarrow> part_mem \<Rightarrow> (cql_partition \<times> part_mem) option" where
  "add_rows [] self mem = Some (self, mem)"
| "add_rows ((al, key, v) # rows) self mem =
     do {
       (added, self, mem) \<leftarrow> cql_partition_cursor al self key v mem;
       require added;
       add_rows rows self mem
     }"

text \<open>What the caller guarantees of the rows, and \<open>malloc\<close> of the addresses.\<close>

definition row_allowed :: "part_env \<Rightarrow> part_mem \<Rightarrow> part_row \<Rightarrow> bool" where
  "row_allowed P mem r \<longleftrightarrow> (case r of (al, key, v) \<Rightarrow>
     cursor_ok P mem (pe_key P) (pe_kinds P) key \<and> cursor_ok P mem (pe_val P) (pe_val_kinds P) v \<and>
     key_at al \<noteq> 0 \<and> buf_at al \<noteq> 0 \<and> \<not> harvested (buf_at al))"

definition addresses_new :: "part_row list \<Rightarrow> part_mem \<Rightarrow> bool" where
  "addresses_new rows mem \<longleftrightarrow> distinct (map (key_at \<circ> fst) rows) \<and> (key_at \<circ> fst) ` set rows \<inter> dom (pm_blocks mem) = {} \<and>
     distinct (map (buf_at \<circ> fst) rows) \<and> (buf_at \<circ> fst) ` set rows \<inter> dom (pm_bufs mem) = {}"

definition added_rows :: "part_env \<Rightarrow> part_mem \<Rightarrow> part_row list \<Rightarrow> additions" where
  "added_rows P mem rows = map (\<lambda>(al, key, v). (cursor_view P mem key, cursor_bytes P (pe_val P) v)) rows"

lemma length_cursor_bytes: "cursor_ok P mem (pe_val P) ks v \<Longrightarrow> length (cursor_bytes P (pe_val P) v) = unat (cur_size (pe_val P))"
  using row_good_take(5) by (fastforce simp: cursor_ok_def cursor_bytes_def)

lemma row_allowed_data:
  "\<forall>a. data_at (pm_refs mem') a = data_at (pm_refs mem) a \<Longrightarrow> row_allowed P mem' r = row_allowed P mem r"
  using cursor_ok_data(1) [of mem' mem P] by (simp add: row_allowed_def split: prod.split)

lemma added_rows_data:
  "\<forall>a. data_at (pm_refs mem') a = data_at (pm_refs mem) a \<Longrightarrow> added_rows P mem' rows = added_rows P mem rows"
  using cursor_ok_data(2) [of mem' mem P] by (simp add: added_rows_def split: prod.split)

lemma disjoint_grow: "a \<notin> A \<Longrightarrow> insert a A \<inter> D = {} \<Longrightarrow> D' \<subseteq> insert a D \<Longrightarrow> A \<inter> D' = {}"
  by auto

lemma run_adds:
  assumes "part_rep P S N self mem adds" and "env_ok P" and "\<not> did_extract self" and "list_all (row_allowed P mem) rows" and "addresses_new rows mem"
    and "length (concat (map snd adds)) + length rows * unat (cur_size (pe_val P)) < 2 ^ 29" and "N + length rows * row_cost P < 2 ^ 31"
  shows "\<exists>self' mem'. add_rows rows self mem = Some (self', mem') \<and>
    part_rep P S (N + length rows * row_cost P) self' mem' (adds @ added_rows P mem rows) \<and>
    (\<forall>a. data_at (pm_refs mem') a = data_at (pm_refs mem) a) \<and> pm_sets mem' = pm_sets mem"
  using assms
proof (induction rows arbitrary: self mem adds N)
  case Nil
  then show ?case by (simp add: added_rows_def)
next
  case (Cons r rows)
  obtain al key v where r: "r = (al, key, v)" by (cases r) auto
  have c: "cursor_ok P mem (pe_key P) (pe_kinds P) key" "cursor_ok P mem (pe_val P) (pe_val_kinds P) v"
    using Cons.prems(4) by (simp_all add: row_allowed_def r)
  have fresh: "group_fresh al mem" using Cons.prems(4,5) by (auto simp: row_allowed_def r addresses_new_def group_fresh_def)
  have len: "length (concat (map snd adds)) + unat (cur_size (pe_val P)) < 2 ^ 29" "N + row_cost P < 2 ^ 31" using Cons.prems(6,7) by simp_all
  obtain self1 mem1 where one: "cql_partition_cursor al self key v mem = Some (True, self1, mem1)"
    "part_rep P S (N + row_cost P) self1 mem1 (adds @ [(cursor_view P mem key, cursor_bytes P (pe_val P) v)])" "\<not> did_extract self1"
    "\<forall>a. data_at (pm_refs mem1) a = data_at (pm_refs mem) a" "dom (pm_blocks mem1) \<subseteq> insert (key_at al) (dom (pm_blocks mem))"
    "dom (pm_bufs mem1) \<subseteq> insert (buf_at al) (dom (pm_bufs mem))" "pm_sets mem1 = pm_sets mem"
    using rep_add [OF Cons.prems(1-3) c fresh len] by blast
  have rows: "list_all (row_allowed P mem1) rows" using Cons.prems(4) by (simp add: row_allowed_data [OF one(4)] list_all_iff)
  have "key_at al \<notin> (key_at \<circ> fst) ` set rows" "insert (key_at al) ((key_at \<circ> fst) ` set rows) \<inter> dom (pm_blocks mem) = {}"
    "buf_at al \<notin> (buf_at \<circ> fst) ` set rows" "insert (buf_at al) ((buf_at \<circ> fst) ` set rows) \<inter> dom (pm_bufs mem) = {}"
    using Cons.prems(5) by (simp_all add: addresses_new_def r del: disjoint_insert insert_disjoint Int_insert_left)
  then have "(key_at \<circ> fst) ` set rows \<inter> dom (pm_blocks mem1) = {}" "(buf_at \<circ> fst) ` set rows \<inter> dom (pm_bufs mem1) = {}"
    using disjoint_grow one(5,6) by metis+
  then have "addresses_new rows mem1" using Cons.prems(5) by (simp add: addresses_new_def)
  moreover have "length (concat (map snd (adds @ [(cursor_view P mem key, cursor_bytes P (pe_val P) v)]))) + length rows * unat (cur_size (pe_val P)) < 2 ^ 29"
    "N + row_cost P + length rows * row_cost P < 2 ^ 31" using Cons.prems(6,7) length_cursor_bytes [OF c(2)] by simp_all
  ultimately obtain self' mem' where rest: "add_rows rows self1 mem1 = Some (self', mem')"
    "part_rep P S (N + row_cost P + length rows * row_cost P) self' mem'
       ((adds @ [(cursor_view P mem key, cursor_bytes P (pe_val P) v)]) @ added_rows P mem1 rows)"
    "\<forall>a. data_at (pm_refs mem') a = data_at (pm_refs mem1) a" "pm_sets mem' = pm_sets mem1"
    using Cons.IH [OF one(2) Cons.prems(2) one(3) rows] by blast
  have "part_rep P S (N + length (r # rows) * row_cost P) self' mem' (adds @ added_rows P mem (r # rows))"
    using rest(2) by (simp add: added_rows_data [OF one(4)]) (simp add: added_rows_def r add.assoc)
  then show ?case using one(1,4,7) rest(1,3,4) by (simp add: r bind_require)
qed

section \<open>Extracting groups\<close>

fun extract_groups :: "(part_addrs \<times> cql_cursor_at) list \<Rightarrow> cql_partition \<Rightarrow> part_mem \<Rightarrow> (i64 list \<times> cql_partition \<times> part_mem) option" where
  "extract_groups [] self mem = Some ([], self, mem)"
| "extract_groups ((al, key) # keys) self mem =
     do {
       (r, self, mem) \<leftarrow> cql_extract_partition al self key mem;
       (rs, self, mem) \<leftarrow> extract_groups keys self mem;
       Some (r # rs, self, mem)
     }"

definition results_new :: "(part_addrs \<times> cql_cursor_at) list \<Rightarrow> part_mem \<Rightarrow> bool" where
  "results_new keys mem \<longleftrightarrow> (let as = concat (map (\<lambda>(al, key). [result_at al, empty_at al]) keys) in
     distinct as \<and> set as \<inter> dom (pm_sets mem) = {} \<and> 0 \<notin> set as \<and> (\<forall>a \<in> set as. \<not> harvested a))"

text \<open>The memory of result sets grows only by the addresses given.\<close>

lemma retain_dom: "cql_object_retain a mem = Some mem' \<Longrightarrow> dom (pm_sets mem') = dom (pm_sets mem)"
  by (auto simp: cql_object_retain_def bind_eq_Some_conv Let_def split: if_splits)

lemma new_set_dom: "dom (pm_sets (new_result_set a bytes n meta mem)) = insert a (dom (pm_sets mem))"
  by (simp add: new_result_set_def cql_result_set_create_def)

lemma extract_dom:
  assumes "cql_extract_partition al self key mem = Some (r, self', mem')"
  shows "dom (pm_sets mem') \<subseteq> {result_at al, empty_at al} \<union> dom (pm_sets mem)"
proof -
  have empty: "dom (pm_sets mem') \<subseteq> insert (empty_at al) (dom (pm_sets mem))" if p: "partition_empty al s mem = Some (r, self', mem')" for s
  proof -
    consider meta where "cql_object_retain (empty_at al) (new_result_set (empty_at al) [] 0 meta mem) = Some mem'"
      | "cql_object_retain (empty_result s) mem = Some mem'"
      using p by (cases "empty_result s = 0") (auto simp: partition_empty_def bind_eq_Some_conv bind_require split: if_splits)
    then show ?thesis by cases (simp_all add: retain_dom new_set_dom subset_insertI)
  qed
  have harvest: "dom (pm_sets mem') \<subseteq> insert (result_at al) (dom (pm_sets mem))" if p: "partition_harvest al i s mem = Some (r, self', mem')" for i s
  proof -
    obtain bytes n meta b where "cql_object_retain (result_at al) (new_result_set (result_at al) bytes n meta (mem\<lparr>pm_bufs := b\<rparr>)) = Some mem'"
      using p by (auto simp: partition_harvest_def bind_eq_Some_conv bind_require Let_def split: if_splits)
    then show ?thesis by (simp add: retain_dom new_set_dom)
  qed
  show ?thesis
  proof (cases "cur_size (c_key mem) = 0")
    case True
    then show ?thesis using assms empty by (auto simp: cql_extract_partition_def Let_def simp del: dom_def)
  next
    case False
    then consider "partition_empty al (self\<lparr>did_extract := True\<rparr>) mem = Some (r, self', mem')"
      | i where "partition_harvest al i (self\<lparr>did_extract := True\<rparr>) mem = Some (r, self', mem')"
      | a where "cql_object_retain a mem = Some mem'"
      using assms by (auto simp: cql_extract_partition_def bind_eq_Some_conv bind_require Let_def split: option.splits if_splits)
    then show ?thesis using empty harvest retain_dom by cases blast+
  qed
qed

definition matching :: "part_env \<Rightarrow> part_mem \<Rightarrow> part_row list \<Rightarrow> cql_cursor_at \<Rightarrow> u8 list list" where
  "matching P mem rows key = map (\<lambda>(al, k, v). cursor_bytes P (pe_val P) v) (filter (\<lambda>(al, k, v). cursor_view P mem k = cursor_view P mem key) rows)"

lemma matching_group: "group_of (added_rows P mem rows) (cursor_view P mem key) = matching P mem rows key"
  unfolding group_of_def added_rows_def matching_def by (induction rows) (auto split: prod.splits)

lemma disjoint_grow2: "a \<notin> A \<Longrightarrow> b \<notin> A \<Longrightarrow> insert a (insert b A) \<inter> D = {} \<Longrightarrow> D' \<subseteq> {a, b} \<union> D \<Longrightarrow> A \<inter> D' = {}"
  by auto

definition holds_group :: "cql_result_set \<Rightarrow> u8 list list \<Rightarrow> bool" where
  "holds_group rs rows \<longleftrightarrow> rs_data rs = concat rows \<and> rs_count rs = of_nat (length rows)"

lemma sets_fresh_head:
  assumes "results_new ((al, key) # keys) mem"
  shows "sets_fresh al mem" and "dom (pm_sets mem') \<subseteq> {result_at al, empty_at al} \<union> dom (pm_sets mem) \<Longrightarrow> results_new keys mem'"
proof -
  let ?as = "concat (map (\<lambda>(al, key). [result_at al, empty_at al]) keys)"
  have a: "distinct (result_at al # empty_at al # ?as)" "(insert (result_at al) (insert (empty_at al) (set ?as))) \<inter> dom (pm_sets mem) = {}"
    "0 \<notin> insert (result_at al) (insert (empty_at al) (set ?as))" "\<forall>a \<in> insert (result_at al) (insert (empty_at al) (set ?as)). \<not> harvested a"
    using assms unfolding results_new_def Let_def by (simp_all del: set_concat insert_disjoint Int_insert_left)
  show "sets_fresh al mem" using a(2-4) by (auto simp: sets_fresh_def)
  assume d: "dom (pm_sets mem') \<subseteq> {result_at al, empty_at al} \<union> dom (pm_sets mem)"
  have n: "result_at al \<notin> set ?as" "empty_at al \<notin> set ?as" using a(1) by (simp_all only: distinct.simps list.set insert_iff) blast+
  have "set ?as \<inter> dom (pm_sets mem') = {}" by (rule disjoint_grow2 [OF n a(2) d])
  then show "results_new keys mem'" using a(1,3,4) unfolding results_new_def Let_def by (simp del: set_concat)
qed

lemma run_extracts:
  assumes "part_rep P S N self mem adds" and "env_ok P" and "list_all (\<lambda>(al, key). cursor_ok P mem (pe_key P) (pe_kinds P) key) keys"
    and "results_new keys mem" and "N + 2 * length keys < 2 ^ 31"
  shows "\<exists>rs self' mem'. extract_groups keys self mem = Some (rs, self', mem') \<and>
    part_rep P (S + mset rs) (N + 2 * length keys) self' mem' adds \<and>
    list_all2 (\<lambda>(al, key) r. holds_group (set_at mem' r) (group_of adds (cursor_view P mem key))) keys rs \<and>
    (\<forall>a. data_at (pm_refs mem') a = data_at (pm_refs mem) a) \<and> (\<forall>a \<in># S. set_at mem' a = set_at mem a)"
  using assms
proof (induction keys arbitrary: self mem S N)
  case Nil
  then show ?case by simp
next
  case (Cons k keys)
  obtain al key where k: "k = (al, key)" by (cases k)
  have key: "cursor_ok P mem (pe_key P) (pe_kinds P) key" using Cons.prems(3) by (simp add: k)
  note fresh = sets_fresh_head [OF Cons.prems(4) [unfolded k]]
  have N: "N + 2 < 2 ^ 31" using Cons.prems(5) by simp
  obtain r self1 mem1 where one: "cql_extract_partition al self key mem = Some (r, self1, mem1)" "part_rep P (add_mset r S) (N + 2) self1 mem1 adds"
    "holds_group (set_at mem1 r) (group_of adds (cursor_view P mem key))"
    "\<forall>a. data_at (pm_refs mem1) a = data_at (pm_refs mem) a" "\<forall>a \<in># S. set_at mem1 a = set_at mem a"
    using rep_extract [OF Cons.prems(1,2) key fresh(1) N] unfolding extracts_def holds_group_def by blast
  note data = cursor_ok_data [OF one(4)]
  have keys: "list_all (\<lambda>(al, key). cursor_ok P mem1 (pe_key P) (pe_kinds P) key) keys" using Cons.prems(3) by (simp add: data)
  have N1: "N + 2 + 2 * length keys < 2 ^ 31" using Cons.prems(5) by simp
  obtain rs self' mem' where rest: "extract_groups keys self1 mem1 = Some (rs, self', mem')"
    "part_rep P (add_mset r S + mset rs) (N + 2 + 2 * length keys) self' mem' adds"
    "list_all2 (\<lambda>(al, key) r. holds_group (set_at mem' r) (group_of adds (cursor_view P mem1 key))) keys rs"
    "\<forall>a. data_at (pm_refs mem') a = data_at (pm_refs mem1) a" "\<forall>a \<in># add_mset r S. set_at mem' a = set_at mem1 a"
    using Cons.IH [OF one(2) Cons.prems(2) keys fresh(2) [OF extract_dom [OF one(1)]] N1] by blast
  have "holds_group (set_at mem' r) (group_of adds (cursor_view P mem key))" using one(3) rest(5) by simp
  then show ?case using one(1,4,5) rest by (intro exI [of _ "r # rs"] exI [of _ self'] exI [of _ mem']) (simp add: k data add.assoc)
qed

section \<open>Releasing the results\<close>

fun release_results :: "i64 list \<Rightarrow> part_mem \<Rightarrow> part_mem option" where
  "release_results [] mem = Some mem"
| "release_results (r # rs) mem = do { mem \<leftarrow> cql_object_release r mem; release_results rs mem }"

lemma run_releases:
  "mem_ok mem R (S + mset rs) m \<Longrightarrow> \<exists>mem'. release_results rs mem = Some mem' \<and> mem_ok mem' R S m \<and> same_data (R + set_refs mem S) mem mem' \<and>
    (\<forall>a \<in># S. set_at mem' a = set_at mem a) \<and> pm_blocks mem' = pm_blocks mem \<and> pm_bufs mem' = pm_bufs mem"
proof (induction rs arbitrary: mem)
  case Nil
  then show ?case by (simp add: same_data_def)
next
  case (Cons r rs)
  have "mem_ok mem R (add_mset r (S + mset rs)) m" using Cons.prems by simp
  then obtain h s where one: "cql_object_release r mem = Some (mem\<lparr>pm_sets := s, pm_refs := h\<rparr>)"
    "mem_ok (mem\<lparr>pm_sets := s, pm_refs := h\<rparr>) R (S + mset rs) m" "same_data (R + set_refs mem (S + mset rs)) mem (mem\<lparr>pm_sets := s, pm_refs := h\<rparr>)"
    "\<forall>b \<in># S + mset rs. set_at (mem\<lparr>pm_sets := s, pm_refs := h\<rparr>) b = set_at mem b"
    using object_release_ok by blast
  let ?m = "mem\<lparr>pm_sets := s, pm_refs := h\<rparr>"
  obtain mem' where rest: "release_results rs ?m = Some mem'" "mem_ok mem' R S m" "same_data (R + set_refs ?m S) ?m mem'"
    "\<forall>a \<in># S. set_at mem' a = set_at ?m a" "pm_blocks mem' = pm_blocks ?m" "pm_bufs mem' = pm_bufs ?m"
    using Cons.IH [OF one(2)] by blast
  have refs: "set_refs ?m S = set_refs mem S" by (rule set_refs_cong) (use one(4) in simp)
  have "same_data (R + set_refs mem S) mem mem'" by (rule same_data_trans [OF one(3) rest(3) [unfolded refs]]) (auto simp: set_refs_in)
  then show ?case using one(1,4) rest by simp
qed

lemma mem_same:
  assumes "mem_ok mem R S m" and "mem_ok mem' R S m" and "same_data (R + set_refs mem S) mem mem'" and "\<forall>a \<in># S. set_at mem' a = set_at mem a"
  shows "pm_refs mem' = pm_refs mem" and "pm_sets mem' = pm_sets mem"
proof -
  have "set_refs mem' S = set_refs mem S" by (rule set_refs_cong) (use assms(4) in simp)
  then show "pm_refs mem' = pm_refs mem" using owned_same [OF mem_okD(1) [OF assms(1)]] mem_okD(1) [OF assms(2)] assms(3) by (simp add: same_data_def)
  show "pm_sets mem' = pm_sets mem"
  proof
    fix a show "pm_sets mem' a = pm_sets mem a"
    proof (cases "a \<in># S")
      case True
      then show ?thesis using mem_ok_set(1) [OF assms(1)] mem_ok_set(1) [OF assms(2)] assms(4) by simp
    next
      case False
      then show ?thesis using mem_okD(3) [OF assms(1)] mem_okD(3) [OF assms(2)] by (metis domIff)
    qed
  qed
qed

section \<open>Properties\<close>

text \<open>A new partition in a memory where the caller holds \<open>S\<close>.\<close>

definition part_start :: "part_env \<Rightarrow> i64 multiset \<Rightarrow> nat \<Rightarrow> part_mem \<Rightarrow> bool" where
  "part_start P S N mem \<longleftrightarrow> env_ok P \<and> mem_ok mem (pe_refs P) S (pe_others P) \<and> size (pe_refs P + set_refs mem S) + pe_others P + size S \<le> N \<and>
     pm_bufs mem = Map.empty \<and> pm_blocks mem = pe_blocks P \<and> c_key mem = no_cursor"

lemma run_partition:
  assumes "part_start P S N mem" and "list_all (row_allowed P mem) rows" and "addresses_new rows mem"
    and "list_all (\<lambda>(al, key). cursor_ok P mem (pe_key P) (pe_kinds P) key) keys" and "results_new keys mem"
    and "length rows * unat (cur_size (pe_val P)) < 2 ^ 29" and "N + length rows * row_cost P + 2 * length keys < 2 ^ 31"
  shows "\<exists>self1 mem1 rs self2 mem2 N'. add_rows rows cql_partition_create mem = Some (self1, mem1) \<and>
    extract_groups keys self1 mem1 = Some (rs, self2, mem2) \<and>
    list_all2 (\<lambda>(al, key) r. holds_group (set_at mem2 r) (matching P mem rows key)) keys rs \<and>
    part_rep P (S + mset rs) N' self2 mem2 (added_rows P mem rows) \<and>
    (\<forall>a. data_at (pm_refs mem2) a = data_at (pm_refs mem) a) \<and> (\<forall>a \<in># S. set_at mem2 a = set_at mem a)"
proof -
  have env: "env_ok P" using assms(1) by (simp add: part_start_def)
  have "part_rep P S N cql_partition_create mem []"
    using assms(1) by (intro rep_create) (simp_all add: part_start_def no_cursor_def)
  moreover have "\<not> did_extract cql_partition_create" by (simp add: cql_partition_create_def)
  ultimately obtain self1 mem1 where a: "add_rows rows cql_partition_create mem = Some (self1, mem1)"
    "part_rep P S (N + length rows * row_cost P) self1 mem1 (added_rows P mem rows)"
    "\<forall>a. data_at (pm_refs mem1) a = data_at (pm_refs mem) a" "pm_sets mem1 = pm_sets mem"
    using run_adds [of P S N cql_partition_create mem "[]" rows] env assms(2,3,6,7) by auto
  note data = cursor_ok_data [OF a(3)]
  have k: "list_all (\<lambda>(al, key). cursor_ok P mem1 (pe_key P) (pe_kinds P) key) keys" using assms(4) by (simp add: data)
  have r: "results_new keys mem1" using assms(5) by (simp add: results_new_def a(4))
  obtain rs self2 mem2 where e: "extract_groups keys self1 mem1 = Some (rs, self2, mem2)"
    "part_rep P (S + mset rs) (N + length rows * row_cost P + 2 * length keys) self2 mem2 (added_rows P mem rows)"
    "list_all2 (\<lambda>(al, key) r. holds_group (set_at mem2 r) (group_of (added_rows P mem rows) (cursor_view P mem1 key))) keys rs"
    "\<forall>a. data_at (pm_refs mem2) a = data_at (pm_refs mem1) a" "\<forall>a \<in># S. set_at mem2 a = set_at mem1 a"
    using run_extracts [OF a(2) env k r] assms(7) by auto
  have "set_at mem1 x = set_at mem x" for x by (simp add: set_at_def a(4))
  then show ?thesis using a(1,3) e by (simp add: data matching_group) blast
qed

text \<open>
  For the witnesses: two rows with texts, under keys that are different addresses of equal texts, and a third key, null, that has
  no rows.
\<close>

definition word_key :: cql_row_cursor where
  "word_key = \<lparr>cur_data = [], cur_has_row = True, cur_col_offsets = \<lparr>array_at = 6000, cells = [1, 0]\<rparr>,
     cur_data_types = \<lparr>array_at = 6008, cells = [0x05]\<rparr>, cur_size = 8, cur_refs_count = 1, cur_refs_offset = 0\<rparr>"

definition note_val :: cql_row_cursor where
  "note_val = \<lparr>cur_data = [], cur_has_row = True, cur_col_offsets = \<lparr>array_at = 6016, cells = [2, 0, 8]\<rparr>,
     cur_data_types = \<lparr>array_at = 6024, cells = [0x82, 0x05]\<rparr>, cur_size = 16, cur_refs_count = 1, cur_refs_offset = 8\<rparr>"

definition cursor_at :: "cql_row_cursor \<Rightarrow> i64 \<Rightarrow> cql_cursor_at" where
  "cursor_at K a = \<lparr>cur_data = cur_data K, cur_has_row = cur_has_row K, cur_col_offsets = cur_col_offsets K, cur_data_types = cur_data_types K,
     cur_size = cur_size K, cur_refs_count = cur_refs_count K, cur_refs_offset = cur_refs_offset K, cur_at = a\<rparr>"

definition first_note :: "u8 list" where "first_note = [1, 0, 0, 0, 0, 0, 0, 0, 16, 0, 0, 0, 0, 0, 0, 0]"

definition second_note :: "u8 list" where "second_note = [2, 0, 0, 0, 0, 0, 0, 0, 48, 0, 0, 0, 0, 0, 0, 0]"

definition note_blocks :: "i64 \<rightharpoonup> u8 list" where
  "note_blocks = [1000 \<mapsto> [16, 0, 0, 0, 0, 0, 0, 0], 1016 \<mapsto> [48, 0, 0, 0, 0, 0, 0, 0], 1032 \<mapsto> [0, 0, 0, 0, 0, 0, 0, 0],
     2000 \<mapsto> first_note, 2016 \<mapsto> second_note]"

definition note_env :: part_env where
  "note_env = \<lparr>pe_kinds = [True], pe_val_kinds = [True], pe_key = word_key, pe_val = note_val, pe_refs = {#16, 48#}, pe_others = 0,
     pe_blocks = note_blocks\<rparr>"

definition note_mem :: part_mem where
  "note_mem = \<lparr>pm_refs = word_heap, pm_blocks = note_blocks, pm_bufs = Map.empty, pm_sets = Map.empty, c_key = no_cursor, c_key2 = no_cursor,
     c_val = no_cursor\<rparr>"

definition addrs :: "i64 \<Rightarrow> part_addrs" where
  "addrs n = \<lparr>key_at = n, buf_at = n + 16, result_at = n + 32, empty_at = n + 48, empty_types_at = 6032, empty_offsets_at = 6040\<rparr>"

definition note_adds :: "part_row list" where
  "note_adds = [(addrs 3000, cursor_at word_key 1000, cursor_at note_val 2000), (addrs 3064, cursor_at word_key 1016, cursor_at note_val 2016)]"

definition note_keys :: "(part_addrs \<times> cql_cursor_at) list" where
  "note_keys = [(addrs 4000, cursor_at word_key 1016), (addrs 4064, cursor_at word_key 1000), (addrs 4128, cursor_at word_key 1032)]"

lemma note_cursor:
  "pe_blocks note_env a = Some b \<Longrightarrow> load_ref b 0 = Some x \<Longrightarrow> length b = 8 \<Longrightarrow> x \<in> {0, 16, 48} \<Longrightarrow>
    cursor_ok note_env note_mem (pe_key note_env) (pe_kinds note_env) (cursor_at word_key a)"
  "pe_blocks note_env a = Some b \<Longrightarrow> load_ref b 8 = Some x \<Longrightarrow> length b = 16 \<Longrightarrow> x \<in> {16, 48} \<Longrightarrow>
    cursor_ok note_env note_mem (pe_val note_env) (pe_val_kinds note_env) (cursor_at note_val a)"
  using word_refs by (auto simp: cursor_ok_def note_env_def note_mem_def word_key_def note_val_def cursor_at_def cursor_shape_def
      cql_row_cursor.truncate_def row_good_def row_ok_def cursor_refs_def ref_ok_def)

lemma note_block:
  "pe_blocks note_env 1000 = Some [16, 0, 0, 0, 0, 0, 0, 0]" "pe_blocks note_env 1016 = Some [48, 0, 0, 0, 0, 0, 0, 0]"
  "pe_blocks note_env 1032 = Some [0, 0, 0, 0, 0, 0, 0, 0]" "pe_blocks note_env 2000 = Some first_note" "pe_blocks note_env 2016 = Some second_note"
  by (simp_all add: note_env_def note_blocks_def)

lemma note_load:
  "load_ref [16, 0, 0, 0, 0, 0, 0, 0] 0 = Some 16" "load_ref [48, 0, 0, 0, 0, 0, 0, 0] 0 = Some 48" "load_ref [0, 0, 0, 0, 0, 0, 0, 0] 0 = Some 0"
  "load_ref first_note 8 = Some 16" "load_ref second_note 8 = Some 48" "length first_note = 16" "length second_note = 16"
  by (simp_all add: load_ref_def slice_def u64_of_bytes_def first_note_def second_note_def)

lemma note_cursors:
  "cursor_ok note_env note_mem (pe_key note_env) (pe_kinds note_env) (cursor_at word_key 1000)"
  "cursor_ok note_env note_mem (pe_key note_env) (pe_kinds note_env) (cursor_at word_key 1016)"
  "cursor_ok note_env note_mem (pe_key note_env) (pe_kinds note_env) (cursor_at word_key 1032)"
  "cursor_ok note_env note_mem (pe_val note_env) (pe_val_kinds note_env) (cursor_at note_val 2000)"
  "cursor_ok note_env note_mem (pe_val note_env) (pe_val_kinds note_env) (cursor_at note_val 2016)"
  by (rule note_cursor(1) [OF note_block(1) note_load(1)], simp, simp, rule note_cursor(1) [OF note_block(2) note_load(2)], simp, simp,
      rule note_cursor(1) [OF note_block(3) note_load(3)], simp, simp, rule note_cursor(2) [OF note_block(4) note_load(4)], simp add: note_load, simp,
      rule note_cursor(2) [OF note_block(5) note_load(5)], simp add: note_load, simp)

lemma note_hyps:
  "part_start note_env {#} 2 note_mem" "list_all (row_allowed note_env note_mem) note_adds" "addresses_new note_adds note_mem"
  "list_all (\<lambda>(al, key). cursor_ok note_env note_mem (pe_key note_env) (pe_kinds note_env) key) note_keys" "results_new note_keys note_mem"
  "length note_adds * unat (cur_size (pe_val note_env)) < 2 ^ 29" "2 + length note_adds * row_cost note_env + 2 * length note_keys < 2 ^ 31"
proof -
  show "part_start note_env {#} 2 note_mem"
    using word_heap(1) by (simp add: part_start_def note_env_def env_ok_def note_mem_def mem_ok_def set_refs_def word_key_def note_val_def)
  show "list_all (row_allowed note_env note_mem) note_adds"
    using note_cursors by (simp add: note_adds_def row_allowed_def addrs_def harvested_def)
  show "addresses_new note_adds note_mem"
    by (simp add: addresses_new_def note_adds_def addrs_def note_mem_def note_blocks_def)
  show "list_all (\<lambda>(al, key). cursor_ok note_env note_mem (pe_key note_env) (pe_kinds note_env) key) note_keys"
    using note_cursors by (simp add: note_keys_def)
  show "results_new note_keys note_mem" by (simp add: results_new_def note_keys_def addrs_def note_mem_def harvested_def)
  show "length note_adds * unat (cur_size (pe_val note_env)) < 2 ^ 29" by (simp add: note_adds_def note_env_def note_val_def)
  show "2 + length note_adds * row_cost note_env + 2 * length note_keys < 2 ^ 31"
    by (simp add: note_adds_def note_keys_def row_cost_def note_env_def note_val_def word_key_def)
qed

lemma note_matching:
  "matching note_env note_mem note_adds (cursor_at word_key 1000) = [first_note, second_note]"
  "matching note_env note_mem note_adds (cursor_at word_key 1016) = [first_note, second_note]"
  "matching note_env note_mem note_adds (cursor_at word_key 1032) = []"
proof -
  have k: "pe_key note_env = word_key" "pe_val note_env = note_val" "pm_refs note_mem = word_heap" by (simp_all add: note_env_def note_mem_def)
  have d: "data_at word_heap 16 = Some (String_data ''hi'')" "data_at word_heap 48 = Some (String_data ''hi'')" "data_at word_heap 0 = None"
    by (simp_all add: data_at_def word_heap_def cql_string_ref_new_def new_object_def)
  have v: "cursor_view note_env note_mem (cursor_at word_key 1000) = ([], [Some (String_data ''hi'')])"
    "cursor_view note_env note_mem (cursor_at word_key 1016) = ([], [Some (String_data ''hi'')])"
    "cursor_view note_env note_mem (cursor_at word_key 1032) = ([], [None])"
    unfolding cursor_view_def k by (simp_all add: cursor_at_def note_block row_contents_def word_key_def note_load d)
  have b: "cursor_bytes note_env note_val (cursor_at note_val 2000) = first_note" "cursor_bytes note_env note_val (cursor_at note_val 2016) = second_note"
    by (simp_all add: cursor_bytes_def cursor_at_def note_block) (simp_all add: note_val_def note_load)
  show "matching note_env note_mem note_adds (cursor_at word_key 1000) = [first_note, second_note]"
    "matching note_env note_mem note_adds (cursor_at word_key 1016) = [first_note, second_note]"
    "matching note_env note_mem note_adds (cursor_at word_key 1032) = []"
    by (simp_all add: matching_def note_adds_def v b k)
qed

text \<open>
  C14. A partition groups rows by key.  After any sequence of rows was added to a new partition, every extraction returns a
  result set that holds exactly the rows whose key means the same as the key asked for, in the order in which
  they were added, and no rows when there is no such key; repeated requests included.  Nothing faults, and no
  contract is broken, as long as the sizes stay in their bounds.
\<close>

theorem partition_groups:
  assumes "part_start P S N mem" and "list_all (row_allowed P mem) rows" and "addresses_new rows mem"
    and "list_all (\<lambda>(al, key). cursor_ok P mem (pe_key P) (pe_kinds P) key) keys" and "results_new keys mem"
    and "length rows * unat (cur_size (pe_val P)) < 2 ^ 29" and "N + length rows * row_cost P + 2 * length keys < 2 ^ 31"
  shows "\<exists>self1 mem1 rs self2 mem2. add_rows rows cql_partition_create mem = Some (self1, mem1) \<and>
    extract_groups keys self1 mem1 = Some (rs, self2, mem2) \<and>
    list_all2 (\<lambda>(al, key) r. holds_group (set_at mem2 r) (matching P mem rows key)) keys rs"
  using run_partition [OF assms] by blast

theorem partition_groups_witness:
  "\<exists>self1 mem1 r1 r2 r3 self2 mem2. add_rows note_adds cql_partition_create note_mem = Some (self1, mem1) \<and>
    extract_groups note_keys self1 mem1 = Some ([r1, r2, r3], self2, mem2) \<and>
    rs_data (set_at mem2 r1) = first_note @ second_note \<and> rs_count (set_at mem2 r1) = 2 \<and>
    rs_data (set_at mem2 r2) = first_note @ second_note \<and> rs_count (set_at mem2 r3) = 0"
proof -
  obtain self1 mem1 rs self2 mem2 where run: "add_rows note_adds cql_partition_create note_mem = Some (self1, mem1)"
    "extract_groups note_keys self1 mem1 = Some (rs, self2, mem2)"
    "list_all2 (\<lambda>(al, key) r. holds_group (set_at mem2 r) (matching note_env note_mem note_adds key)) note_keys rs"
    using partition_groups [OF note_hyps] by blast
  then obtain r1 r2 r3 where "rs = [r1, r2, r3]" "holds_group (set_at mem2 r1) [first_note, second_note]"
    "holds_group (set_at mem2 r2) [first_note, second_note]" "holds_group (set_at mem2 r3) []"
    by (auto simp: note_keys_def list_all2_Cons1 note_matching)
  then show ?thesis using run(1,2) by (intro exI [of _ self1] exI [of _ mem1] exI [of _ r1] exI [of _ r2] exI [of _ r3] exI [of _ self2] exI [of _ mem2])
    (simp add: holds_group_def)
qed

text \<open>
  C15. A partition leaves nothing behind.  Whatever rows were added and groups extracted, finalizing it returns, frees every
  block and buffer it had and leaves the extracted result sets and the strings and blobs in them as they were;
  after the caller releases the results the whole memory is the memory before, with all reference counts.
\<close>

theorem partition_life:
  assumes "part_start P S N mem" and "list_all (row_allowed P mem) rows" and "addresses_new rows mem"
    and "list_all (\<lambda>(al, key). cursor_ok P mem (pe_key P) (pe_kinds P) key) keys" and "results_new keys mem"
    and "length rows * unat (cur_size (pe_val P)) < 2 ^ 29" and "N + length rows * row_cost P + 2 * length keys < 2 ^ 31"
  shows "\<exists>self1 mem1 rs self2 mem2 mem3 mem4. add_rows rows cql_partition_create mem = Some (self1, mem1) \<and>
    extract_groups keys self1 mem1 = Some (rs, self2, mem2) \<and> cql_partition_finalize self2 mem2 = Some mem3 \<and>
    (\<forall>r \<in> set rs. set_at mem3 r = set_at mem2 r \<and> (\<forall>a \<in> set (rs_refs (set_at mem2 r)). a \<noteq> 0 \<longrightarrow> data_at (pm_refs mem3) a = data_at (pm_refs mem2) a)) \<and>
    release_results rs mem3 = Some mem4 \<and>
    pm_refs mem4 = pm_refs mem \<and> pm_sets mem4 = pm_sets mem \<and> pm_blocks mem4 = pm_blocks mem \<and> pm_bufs mem4 = pm_bufs mem"
proof -
  obtain self1 mem1 rs self2 mem2 N' where r: "add_rows rows cql_partition_create mem = Some (self1, mem1)"
    "extract_groups keys self1 mem1 = Some (rs, self2, mem2)" "part_rep P (S + mset rs) N' self2 mem2 (added_rows P mem rows)"
    "\<forall>a. data_at (pm_refs mem2) a = data_at (pm_refs mem) a" "\<forall>a \<in># S. set_at mem2 a = set_at mem a"
    using run_partition [OF assms] by blast
  have start: "env_ok P" "mem_ok mem (pe_refs P) S (pe_others P)" "pm_bufs mem = Map.empty" "pm_blocks mem = pe_blocks P"
    using assms(1) by (simp_all add: part_start_def)
  obtain mem3 where f: "cql_partition_finalize self2 mem2 = Some mem3" "mem_ok mem3 (pe_refs P) (S + mset rs) (pe_others P)"
    "pm_blocks mem3 = pe_blocks P" "pm_bufs mem3 = Map.empty" "same_data (pe_refs P + set_refs mem2 (S + mset rs)) mem2 mem3"
    "\<forall>b \<in># S + mset rs. set_at mem3 b = set_at mem2 b"
    using rep_finalize [OF r(3) start(1)] by blast
  obtain mem4 where l: "release_results rs mem3 = Some mem4" "mem_ok mem4 (pe_refs P) S (pe_others P)" "same_data (pe_refs P + set_refs mem3 S) mem3 mem4"
    "\<forall>a \<in># S. set_at mem4 a = set_at mem3 a" "pm_blocks mem4 = pm_blocks mem3" "pm_bufs mem4 = pm_bufs mem3"
    using run_releases [OF f(2)] by blast
  have sets: "\<forall>a \<in># S. set_at mem4 a = set_at mem a" using l(4) f(6) r(5) by simp
  have refs: "set_refs mem2 S = set_refs mem S" "set_refs mem3 S = set_refs mem S"
    by (rule set_refs_cong, use f(6) r(5) in simp)+
  have "same_data (pe_refs P + set_refs mem S) mem2 mem4"
    by (rule same_data_trans [OF f(5) l(3)]) (auto simp: refs set_refs_in simp flip: refs(1))
  then have "same_data (pe_refs P + set_refs mem S) mem mem4" using r(4) by (simp add: same_data_def)
  note same = mem_same [OF start(2) l(2) this sets]
  have "data_at (pm_refs mem3) a = data_at (pm_refs mem2) a" if "x \<in> set rs" "a \<in> set (rs_refs (set_at mem2 x))" "a \<noteq> 0" for x a
    using f(5) that by (auto simp: same_data_def set_refs_in live_refs_def)
  then show ?thesis using r(1,2) f l same start by (intro exI [of _ self1] exI [of _ mem1] exI [of _ rs] exI [of _ self2] exI [of _ mem2]
      exI [of _ mem3] exI [of _ mem4]) simp
qed

theorem partition_life_witness:
  "\<exists>self1 mem1 rs self2 mem2 mem3 mem4. add_rows note_adds cql_partition_create note_mem = Some (self1, mem1) \<and>
    extract_groups note_keys self1 mem1 = Some (rs, self2, mem2) \<and> cql_partition_finalize self2 mem2 = Some mem3 \<and>
    release_results rs mem3 = Some mem4 \<and> pm_refs mem4 = word_heap \<and> pm_sets mem4 = Map.empty \<and> pm_blocks mem4 = note_blocks"
  using partition_life [OF note_hyps] by (auto simp: note_mem_def)

end
