(* ===== verification/Spec2Isabelle.thy ===== *)
theory Spec2Isabelle
  imports Encoders_Correct Eval_Props Flow_Sound Serialize_Stream Val_Blobs_Props Hashtab_Props Pieces_Props Partition_Props
begin

text \<open>
  Verification library of CG-SQL, a compiler from the stored procedure language CQL to C and SQLite,
  and of the runtime that the generated C code links with (both under \<open>src/sources/\<close>).

  \<^bold>\<open>The program.\<close>  The compiler parses a source file into a syntax tree (\<open>cql.y\<close>, \<open>ast.c\<close>), checks and
  rewrites it (\<open>sem.c\<close>, \<open>rewrite.c\<close>) and prints C, Lua, JSON or SQL text from it (\<open>cg_*.c\<close>, \<open>gen_sql.c\<close>).
  All phases share a set of components that hold its algorithms and that this library models in
  full: growing buffers (\<open>bytebuf.c\<close>, \<open>charbuf.c\<close>), string encoders (\<open>encoders.c\<close>, over the character
  functions of \<open>compat.c\<close>), symbol tables (\<open>symtab.c\<close>), the evaluator of constant expressions (\<open>eval.c\<close>)
  and the control flow analysis that infers not null types (\<open>flow.c\<close>).  The runtime
  (\<open>cqlrt.c\<close>, \<open>cqlrt_common.c\<close>) contributes its byte buffer, the serialisation of cursors into blobs, the
  SQL functions that keep rows in key blobs and value blobs, reference-counted strings and blobs, and
  the hash table behind its facets and dictionaries.

  \<^bold>\<open>Theories and the code they model.\<close>
  \<^item> \<open>CqlBase\<close>: machine integers, memory blocks whose cells may be unwritten and whose accesses may
    fault, C strings, \<open>require\<close> for contracts and invariants, and the locale \<open>sink\<close> of things that text or
    bytes are appended to.
  \<^item> \<open>Bytebuf\<close>: \<open>bytebuf\<close> of the compiler and \<open>cql_bytebuf\<close> of the runtime, one definition per function;
    both interpret \<open>sink\<close>.
  \<^item> \<open>Charbuf\<close>: \<open>charbuf\<close> with its inline storage, printing, indentation and line reading.  Formatted
    output takes the text that \<open>vsnprintf\<close> produces as an argument.
  \<^item> \<open>Compat\<close>: character classes and case-insensitive comparison.
  \<^item> \<open>Encoders\<close>, \<open>Encoders_Correct\<close>: the encoders and decoders of string literals and quoted names and
    their round trips; \<open>charbuf\<close> is used through its interpretation of \<open>sink\<close>.
  \<^item> \<open>Probing\<close>: linear probing over an array of slots, as a locale with the laws of a table that is never
    full; \<open>Symtab\<close>, \<open>Symtab_Correct\<close>: the symbol table, which interprets it, with rehashing, sorted copies
    and tables of tables and buffers over a small heap.
  \<^item> \<open>Eval\<close>: every function of \<open>eval.c\<close>, with the dispatch table as a function of the node type and double
    arithmetic as a parameter; \<open>Eval_Correct\<close>, \<open>Eval_Refine\<close>, \<open>Eval_Props\<close>: the value semantics of
    expressions, and that the evaluator computes it.
  \<^item> \<open>Flow\<close>: every function of \<open>flow.c\<close> over a list of contexts; \<open>Flow_Correct\<close>: histories and their sums;
    \<open>Flow_Spec\<close>: a language of commands with the calls that \<open>sem.c\<close> makes for them, and the set equations
    of the analysis; \<open>Flow_Refine\<close>: the analysis computes the equations; \<open>Flow_Sound\<close>: an execution
    semantics, soundness, and the programs on which the analysis fails.
  \<^item> \<open>Serialize\<close>: bit vectors, variable-length integers, encoding and decoding of cursors, blob streams;
    \<open>Varint\<close>, \<open>Serialize_Correct\<close>, \<open>Serialize_Rows\<close>, \<open>Serialize_Read\<close>: the encoding as bytes and a set of
    bits, written and read; \<open>Serialize_Props\<close>, \<open>Serialize_Safety\<close>, \<open>Serialize_Stream\<close>: the round trips, the
    behaviour on hostile bytes, and the streams.
  \<^item> \<open>Blobs\<close>: the SQL functions \<open>bcreatekey\<close>, \<open>bgetkey\<close>, \<open>bgetkey_type\<close> and \<open>bupdatekey\<close> on SQL values, with
    the conversions of SQLite as a parameter; \<open>Blobs_Layout\<close>, \<open>Blobs_Key\<close>, \<open>Blobs_Read\<close>: the layout of a
    blob as a function of its columns, its creation, validation and reading; \<open>Blobs_Safe\<close>: the round
    trip and hostile blobs; \<open>Blobs_Update\<close>, \<open>Blobs_Canonical\<close>: the three passes of an update, and that its
    result is the blob created from the updated columns.
  \<^item> \<open>Val_Blobs\<close>: \<open>bcreateval\<close>, \<open>bgetval\<close>, \<open>bgetval_type\<close> and \<open>bupdateval\<close>; \<open>Val_Blobs_Create\<close>, \<open>Val_Blobs_Read\<close>,
    \<open>Val_Blobs_Update\<close>: the areas of a block that is being filled, reading behind an encoding, the passes
    of an update; \<open>Val_Blobs_Props\<close>: the locale \<open>field_store\<close> of what reading and updating promise, its
    interpretation on value blobs, and sequences of updates.
  \<^item> \<open>Refs\<close>: counted strings and blobs on a heap, and \<open>counted\<close>, which says that the counts are those of a
    multiset of references; \<open>Hashtab\<close>: the hash table, facets and dictionaries; \<open>Hashtab_Correct\<close>: the table
    seen through the texts of its keys is a symbol table, with the references of its slots;
    \<open>Hashtab_Props\<close>: rehashing, the locale \<open>dictionary\<close> of creation and addition, its interpretations, and
    the life of a dictionary.
  \<^item> \<open>Rows\<close>: rows as bytes with the addresses of their references at the end, and what the runtime does with
    them from the description of their shape alone: retaining and releasing their references, hash and
    equality, sameness of identity columns, copies and teardown of result sets, dynamic cursors;
    \<open>Rows_Correct\<close>: what a row means on the heap of counted objects, and the references that a result set
    owns; \<open>Rows_Props\<close>: equality is equality of meanings and agrees with the hash, sameness, and the
    lives of result sets and their copies.
  \<^item> \<open>Partition\<close>: rows grouped by key in the hash table, groups extracted as result sets, over a memory
    of blocks, buffers and counted result sets; \<open>Hashtab_Views\<close>: hash tables that own nothing, seen through a
    view of their keys; \<open>Partition_Correct\<close>: counting of result sets; \<open>Partition_Rep\<close>: what the entries of a
    partition hold for the rows added, and adding a row; \<open>Partition_Extract\<close>, \<open>Partition_Harvest\<close>: repeated,
    empty and first requests for a group; \<open>Partition_Release\<close>: the finalizer; \<open>Partition_Props\<close>: sequences of
    additions and extractions, and the whole life of a partition.
  \<^item> \<open>Pieces\<close>: the compression of SQL text by the compiler (\<open>cg_statement_pieces\<close>), its decompression by
    the runtime (\<open>cql_uncompress\<close>, \<open>cql_exec_frags\<close>, \<open>cql_prepare_frags\<close>), and \<open>cql_vconcat\<close> with its callers;
    \<open>C_Literals\<close>: how a C compiler reads string literals; \<open>Pieces_Correct\<close>, \<open>Pieces_Props\<close>: the array of
    pieces, the round trip through printed C text, and the literals that are misread.

  \<^bold>\<open>Conventions.\<close>  A function of the code is a function of the same name that takes and returns the
  state it changes.  A failed contract, an access outside a block and other undefined behaviour are
  values: a faulted block in the buffers, \<open>None\<close> elsewhere.  Integers keep their width as words, so
  wrap-around is part of every theorem.  Sizes carry explicit bounds where the code computes with
  32-bit numbers: the buffers grow up to \<open>2 ^ 32\<close> bytes divided by their growth factor.
  Two counts are not words: the sums of flow histories are integers where the code has \<open>int32_t\<close> (they differ
  only beyond \<open>2 ^ 31\<close> recorded items), and indexes of lists and arguments are natural numbers.

  \<^bold>\<open>Bounds and fuel.\<close>  Loops are recursive functions with a termination proof.  Where the recursion of
  the code is open (\<open>eval\<close> through its table, \<open>symtab_add\<close> and \<open>cql_hashtab_add\<close> through their rehash) the model takes a depth,
  and theorems show that one level of rehashing is enough and that the calls of \<open>eval\<close> end within the size of
  the tree, whatever deeper calls would do.

  \<^bold>\<open>Not modelled.\<close>  The parser and lexer are generated; \<open>sem.c\<close>, \<open>rewrite.c\<close>, \<open>gen_sql.c\<close> and the rest of
  the code generators walk the annotated syntax tree and print text, their state is the whole semantic
  environment; the SQLite access of the runtime (preparing, binding and fetching) calls an external library on
  opaque handles.  The lists of the runtime, the printing of cursors and the helpers of schema upgrades are not
  modelled yet.  Allocation failure, the pool allocator and the generic objects that wrap a table, a partition or a list
  are left out; the addresses that \<open>malloc\<close> returns are arguments.
\<close>

end
